(* ===== verification/CBase.thy ===== *)
theory CBase
  imports Main "HOL-Library.Word" "HOL-Library.Monad_Syntax" "HOL-Library.Multiset"
begin

text \<open>
  The prelude of the development: names for the C types of the target, byte-addressed
  memory, and the generic lemmas the component theories share.

  The target is the MIPS build of \<^verbatim>\<open>vivado/test5/soft/perf_func\<close>: \<open>int\<close>, \<open>long\<close> and
  pointers are 32 bits, \<open>short\<close> 16, \<open>char\<close> 8 and signed, byte order little-endian.  The
  programs run without an operating system in unmapped kernel segments, so every address
  can be read and written and memory is a total function from addresses to bytes; address
  arithmetic wraps at \<open>2 ^ 32\<close>.  A loop that need not stop (a scan for a terminator) is a
  \<open>partial_function (option)\<close>, with \<open>None\<close> for not returning.
\<close>

section \<open>C types\<close>

type_synonym u8 = "8 word"
type_synonym u16 = "16 word"
type_synonym u32 = "32 word"
type_synonym addr = "32 word"
type_synonym mem = "32 word \<Rightarrow> 8 word"

named_theorems mem_simps \<open>reading and writing blocks of bytes\<close>
named_theorems unroll \<open>defining equations of loops, for evaluation on closed terms\<close>

text \<open>A plain \<open>char\<close> promoted to \<open>int\<close> is sign-extended; an \<open>unsigned char\<close> is not.\<close>

abbreviation schar :: "u8 \<Rightarrow> int" where
  "schar b \<equiv> sint b"

abbreviation uchar :: "u8 \<Rightarrow> int" where
  "uchar b \<equiv> uint b"

section \<open>Words\<close>

lemma unat_minus_one_nz: "x \<noteq> 0 \<Longrightarrow> unat (x - 1) = unat x - 1" for x :: "'a::len word"
  by (simp add: unat_minus_one)

lemma unat_plus_one_less: "c < l \<Longrightarrow> unat (c + 1) = Suc (unat c)" for c l :: "'a::len word"
proof -
  assume "c < l"
  then have "unat c < unat l" by (simp add: word_less_nat_alt)
  moreover have "unat l < 2 ^ LENGTH('a)" by (rule unsigned_less)
  ultimately have "Suc (unat c) < 2 ^ LENGTH('a)" by linarith
  then have "unat c + unat (1 :: 'a word) < 2 ^ LENGTH('a)"
    by simp
  then have "unat (c + 1) = unat c + unat (1 :: 'a word)"
    by (simp only: unat_add_lem)
  then show ?thesis by simp
qed

lemma word_pos_dec: "0 < n \<Longrightarrow> unat n = Suc (unat (n - 1))" for n :: "'a::len word"
  by (simp add: unat_minus_one_nz word_gt_0 unat_gt_0)

lemma unat_of_nat_small: "n < 2 ^ LENGTH('a) \<Longrightarrow> unat (of_nat n :: 'a::len word) = n"
  by (simp add: unat_of_nat take_bit_nat_eq_self)

lemma unat_add_small: "unat p + unat q < 4294967296 \<Longrightarrow> unat (p + q) = unat p + unat q" for p q :: u32
  by (subst unat_add_lem [symmetric]) simp

lemma unat_of_nat32: "n < 4294967296 \<Longrightarrow> unat (of_nat n :: u32) = n"
  by (rule unat_of_nat_small) simp

lemma of_nat_eq_iff32:
  "i < 4294967296 \<Longrightarrow> j < 4294967296 \<Longrightarrow> (of_nat i = (of_nat j :: u32)) = (i = j)"
  by (metis unat_of_nat32)

lemma of_nat_eq_0_iff32: "i < 4294967296 \<Longrightarrow> (of_nat i = (0 :: u32)) = (i = 0)"
  using of_nat_eq_iff32 [of i 0] by simp

lemma sint_of_nat32: "k < 2147483648 \<Longrightarrow> sint (of_nat k :: u32) = int k"
proof -
  assume "k < 2147483648"
  then have "sint (word_of_int (int k) :: u32) = int k" unfolding int_word_sint by simp
  then show ?thesis by simp
qed

lemma of_nat_add_eq_self32:
  "0 < i \<Longrightarrow> i < 4294967296 \<Longrightarrow> a + of_nat i \<noteq> (a :: u32)"
  by (simp add: of_nat_eq_0_iff32)

lemma unat_neg32: "w \<noteq> 0 \<Longrightarrow> unat (- w :: u32) = 4294967296 - unat w"
proof -
  assume w: "w \<noteq> 0"
  then have "uint w \<noteq> 0" by (simp add: uint_0_iff)
  then have b: "0 < uint w" "uint w < 4294967296"
    using uint_bounded [of w] by (simp_all add: less_le [of 0])
  have "uint (- w) = (- uint w) mod 2 ^ LENGTH(32)"
    by (rule uint_word_ariths)
  also have "\<dots> = 4294967296 - uint w"
    using b by (simp add: zmod_zminus1_eq_if)
  finally show ?thesis
    using b by (metis nat_diff_distrib nat_numeral order_less_imp_le unat_eq_nat_uint)
qed

lemma length_takeWhile_less: "x \<in> set xs \<Longrightarrow> \<not> P x \<Longrightarrow> length (takeWhile P xs) < length xs"
  by (induction xs) auto

lemma upt_from_2: "2 \<le> n \<Longrightarrow> [0..<n] = 0 # 1 # [2..<n]"
  using upt_conv_Cons [of 0 n] upt_conv_Cons [of 1 n] by (simp add: numeral_2_eq_2)

section \<open>Blocks of bytes in memory\<close>

text \<open>\<open>read_bytes m a n\<close> are the \<open>n\<close> bytes from \<open>a\<close> on, \<open>write_bytes m a bs\<close> the memory
  after storing \<open>bs\<close> there one byte after the other.\<close>

fun read_bytes :: "mem \<Rightarrow> addr \<Rightarrow> nat \<Rightarrow> u8 list" where
  "read_bytes m a 0 = []"
| "read_bytes m a (Suc n) = m a # read_bytes m (a + 1) n"

fun write_bytes :: "mem \<Rightarrow> addr \<Rightarrow> u8 list \<Rightarrow> mem" where
  "write_bytes m a [] = m"
| "write_bytes m a (b # bs) = write_bytes (m(a := b)) (a + 1) bs"

text \<open>\<open>in_block x a n\<close>: the address \<open>x\<close> is one of the \<open>n\<close> bytes from \<open>a\<close> on.\<close>

definition in_block :: "addr \<Rightarrow> addr \<Rightarrow> nat \<Rightarrow> bool" where
  "in_block x a n \<longleftrightarrow> unat (x - a) < n"

lemma length_read_bytes [simp]: "length (read_bytes m a n) = n"
  by (induction n arbitrary: a) auto

lemma read_bytes_numeral [simp]:
  "read_bytes m a (numeral v) = m a # read_bytes m (a + 1) (pred_numeral v)"
  by (simp add: numeral_eq_Suc)

lemma nth_read_bytes: "i < n \<Longrightarrow> read_bytes m a n ! i = m (a + of_nat i)"
  by (induction n arbitrary: a i) (auto simp: nth_Cons' algebra_simps of_nat_diff
      split: nat.splits dest: gr0_implies_Suc)

lemma read_bytes_eq_iff:
  "length bs = n \<Longrightarrow> read_bytes m a n = bs \<longleftrightarrow> (\<forall>i<n. m (a + of_nat i) = bs ! i)"
  by (auto simp: list_eq_iff_nth_eq nth_read_bytes)

lemma read_bytes_append:
  "read_bytes m a (n + k) = read_bytes m a n @ read_bytes m (a + of_nat n) k"
  by (induction n arbitrary: a) (auto simp: algebra_simps)

lemma read_bytes_cong:
  "(\<And>i. i < n \<Longrightarrow> m (a + of_nat i) = m' (b + of_nat i)) \<Longrightarrow> read_bytes m a n = read_bytes m' b n"
  by (simp add: list_eq_iff_nth_eq nth_read_bytes)

lemma write_bytes_append:
  "write_bytes m a (bs @ cs) = write_bytes (write_bytes m a bs) (a + of_nat (length bs)) cs"
  by (induction bs arbitrary: m a) (auto simp: algebra_simps)

lemma write_bytes_apply:
  "length bs \<le> 4294967296 \<Longrightarrow>
   write_bytes m a bs x = (if unat (x - a) < length bs then bs ! unat (x - a) else m x)"
proof (induction bs arbitrary: m a)
  case Nil
  then show ?case by simp
next
  case (Cons b bs)
  show ?case
  proof (cases "x = a")
    case True
    have "unat (x - (a + 1)) = 4294967295"
      using True by (simp add: unsigned_minus_1_eq_mask mask_eq_exp_minus_1)
    with Cons show ?thesis
      using True by simp
  next
    case False
    then have nz: "x - a \<noteq> 0" by simp
    have "unat (x - (a + 1)) = unat (x - a) - 1"
      using unat_minus_one_nz [OF nz] by (simp add: diff_diff_eq)
    moreover from nz have "0 < unat (x - a)" by (simp add: unat_gt_0)
    ultimately show ?thesis
      using Cons False by (auto simp: nth_Cons')
  qed
qed

lemma write_bytes_upd:
  "length bs \<le> 4294967296 \<Longrightarrow> \<not> in_block x a (length bs) \<Longrightarrow>
   write_bytes (m(x := v)) a bs = (write_bytes m a bs)(x := v)"
  by (auto simp: fun_eq_iff write_bytes_apply in_block_def)

lemma write_bytes_outside:
  "length bs \<le> 4294967296 \<Longrightarrow> \<not> in_block x a (length bs) \<Longrightarrow> write_bytes m a bs x = m x"
  by (simp add: write_bytes_apply in_block_def)

lemma in_block_offset:
  "i < n \<Longrightarrow> n \<le> 4294967296 \<Longrightarrow> in_block (a + of_nat i) a n"
  by (simp add: in_block_def unat_of_nat32)

lemma write_bytes_inside:
  "i < length bs \<Longrightarrow> length bs \<le> 4294967296 \<Longrightarrow> write_bytes m a bs (a + of_nat i) = bs ! i"
  by (simp add: write_bytes_apply unat_of_nat32)

lemma read_write_same [mem_simps]:
  "length bs \<le> 4294967296 \<Longrightarrow> n = length bs \<Longrightarrow> read_bytes (write_bytes m a bs) a n = bs"
  by (simp add: read_bytes_eq_iff write_bytes_inside)

text \<open>Two blocks are apart when no byte of one is a byte of the other.\<close>

definition apart :: "addr \<Rightarrow> nat \<Rightarrow> addr \<Rightarrow> nat \<Rightarrow> bool" where
  "apart a n b k \<longleftrightarrow> (\<forall>i<n. \<not> in_block (a + of_nat i) b k)"

lemma read_write_apart [mem_simps]:
  "apart a n b (length bs) \<Longrightarrow> length bs \<le> 4294967296 \<Longrightarrow>
   read_bytes (write_bytes m b bs) a n = read_bytes m a n"
  by (auto simp: read_bytes_eq_iff nth_read_bytes apart_def write_bytes_outside)

lemma apart_before: "unat a + n \<le> unat b \<Longrightarrow> unat b + k \<le> 4294967296 \<Longrightarrow> apart a n b k"
  unfolding apart_def in_block_def
proof (intro allI impI)
  fix i assume o: "unat a + n \<le> unat b" "unat b + k \<le> 4294967296" "i < n"
  have ub: "unat b < 2 ^ 32" using unsigned_less [of b, where 'a = nat] by simp
  have "unat a + i < 4294967296" using o ub by simp
  then have ai: "unat (a + of_nat i) = unat a + i"
    using unat_of_nat32 [of "unat a + i"] by simp
  define d where "d = b - (a + of_nat i)"
  have "a + of_nat i \<le> b" using ai o by (simp add: word_le_nat_alt)
  then have ud: "unat d = unat b - (unat a + i)" unfolding d_def ai [symmetric] by (rule unat_sub)
  with o have "unat d \<noteq> 0" by simp
  then have "d \<noteq> 0" by auto
  then have "unat (- d) = 4294967296 - unat d" by (rule unat_neg32)
  moreover have "- d = a + of_nat i - b" by (simp add: d_def)
  ultimately show "\<not> unat (a + of_nat i - b) < k" using ud o by simp
qed

lemma apart_sym: "apart a n b k \<Longrightarrow> n \<le> 4294967296 \<Longrightarrow> k \<le> 4294967296 \<Longrightarrow> apart b k a n"
proof -
  assume ap: "apart a n b k" and n: "n \<le> 4294967296" "k \<le> 4294967296"
  show ?thesis
    unfolding apart_def
  proof (intro allI impI notI)
    fix i assume i: "i < k" and "in_block (b + of_nat i) a n"
    then have u: "unat (b + of_nat i - a) < n" by (simp add: in_block_def)
    have "a + of_nat (unat (b + of_nat i - a)) = b + of_nat i" by simp
    moreover have "in_block (b + of_nat i) b k" using i n by (intro in_block_offset) 
    ultimately show False using ap u by (metis apart_def)
  qed
qed

lemma apart_after: "unat b + k \<le> unat a \<Longrightarrow> unat a + n \<le> 4294967296 \<Longrightarrow> apart a n b k"
  by (rule apart_sym [OF apart_before]) simp_all

text \<open>A 32-bit word in memory, little-endian.\<close>

definition st32 :: "mem \<Rightarrow> addr \<Rightarrow> u32 \<Rightarrow> mem" where
  "st32 m a w = write_bytes m a
     [ucast w, ucast (drop_bit 8 w), ucast (drop_bit 16 w), ucast (drop_bit 24 w)]"

definition ld32 :: "mem \<Rightarrow> addr \<Rightarrow> u32" where
  "ld32 m a = or (ucast (m a)) (or (push_bit 8 (ucast (m (a + 1))))
     (or (push_bit 16 (ucast (m (a + 2)))) (push_bit 24 (ucast (m (a + 3))))))"

lemma ld32_st32 [mem_simps]: "ld32 (st32 m a w) a = w"
proof (rule bit_word_eqI)
  fix n assume "n < LENGTH(32)"
  then consider "n < 8" | "8 \<le> n" "n < 16" | "16 \<le> n" "n < 24" | "24 \<le> n" "n < 32"
    by fastforce
  then show "bit (ld32 (st32 m a w) a) n \<longleftrightarrow> bit w n"
    by cases (auto simp: ld32_def st32_def bit_simps)
qed

section \<open>C strings in memory\<close>

text \<open>\<open>cstr m a bs\<close>: the bytes \<open>bs\<close>, none of them 0, are at \<open>a\<close> and a 0 byte follows them.\<close>

fun cstr :: "mem \<Rightarrow> addr \<Rightarrow> u8 list \<Rightarrow> bool" where
  "cstr m a [] \<longleftrightarrow> m a = 0"
| "cstr m a (b # bs) \<longleftrightarrow> m a = b \<and> b \<noteq> 0 \<and> cstr m (a + 1) bs"

lemma cstr_iff: "cstr m a bs \<longleftrightarrow> 0 \<notin> set bs \<and> read_bytes m a (Suc (length bs)) = bs @ [0]"
  by (induction bs arbitrary: a) auto

lemma cstr_unique: "cstr m a bs \<Longrightarrow> cstr m a cs \<Longrightarrow> bs = cs"
proof (induction bs arbitrary: a cs)
  case Nil
  then show ?case by (cases cs) auto
next
  case (Cons b bs)
  then show ?case by (cases cs) auto
qed

lemma cstr_nth: "cstr m a bs \<Longrightarrow> i < length bs \<Longrightarrow> m (a + of_nat i) = bs ! i"
proof (induction bs arbitrary: a i)
  case Nil
  then show ?case by simp
next
  case (Cons b bs)
  then show ?case
    by (cases i) (auto simp: algebra_simps dest!: Cons.IH)
qed

lemma cstr_end: "cstr m a bs \<Longrightarrow> m (a + of_nat (length bs)) = 0"
proof (induction bs arbitrary: a)
  case Nil
  then show ?case by simp
next
  case (Cons b bs)
  then have "m (a + 1 + of_nat (length bs)) = 0" by simp
  then show ?case by (simp add: add.assoc)
qed

lemma cstr_nonzero: "cstr m a bs \<Longrightarrow> 0 \<notin> set bs"
  by (induction bs arbitrary: a) auto

lemma cstr_append:
  "cstr m a (bs @ cs) \<longleftrightarrow> 0 \<notin> set bs \<and> read_bytes m a (length bs) = bs \<and> cstr m (a + of_nat (length bs)) cs"
  by (induction bs arbitrary: a) (auto simp: algebra_simps)

lemma cstr_drop:
  "cstr m a bs \<Longrightarrow> i \<le> length bs \<Longrightarrow> cstr m (a + of_nat i) (drop i bs)"
  using cstr_append [of m a "take i bs" "drop i bs"] by simp

lemma cstr_write:
  "0 \<notin> set bs \<Longrightarrow> Suc (length bs) \<le> 4294967296 \<Longrightarrow> cstr (write_bytes m a (bs @ [0])) a bs"
  by (simp add: cstr_iff mem_simps del: read_bytes.simps)

lemma cstr_cong:
  "(\<And>i. i \<le> length bs \<Longrightarrow> m' (a + of_nat i) = m (a + of_nat i)) \<Longrightarrow> cstr m' a bs = cstr m a bs"
  by (simp add: cstr_iff read_bytes_eq_iff less_Suc_eq_le del: read_bytes.simps)

lemma cstr_length_bound: "cstr m a bs \<Longrightarrow> length bs < 4294967296"
proof (rule ccontr)
  assume c: "cstr m a bs" and "\<not> length bs < 4294967296"
  then have l: "4294967296 \<le> length bs" by simp
  have z: "m (a + of_nat (length bs)) = 0" using c by (rule cstr_end)
  define j where "j = length bs mod 4294967296"
  have jl: "j < 4294967296" "j < length bs" using l by (auto simp: j_def intro: less_le_trans)
  have "(of_nat (length bs) :: u32) = of_nat j"
    by (simp add: j_def word_unat_eq_iff unat_of_nat take_bit_eq_mod)
  with z have "m (a + of_nat j) = 0" by simp
  with cstr_nth [OF c jl(2)] have "bs ! j = 0" by simp
  with jl(2) cstr_nonzero [OF c] show False by (metis nth_mem)
qed

text \<open>Memory that has changed in the \<open>N\<close> bytes from \<open>p\<close> on only.\<close>

definition changed_in :: "addr \<Rightarrow> nat \<Rightarrow> mem \<Rightarrow> mem \<Rightarrow> bool" where
  "changed_in p N m m' \<longleftrightarrow> (\<forall>x. m' x \<noteq> m x \<longrightarrow> in_block x p N)"

lemma changed_in_refl [simp]: "changed_in p N m m"
  by (simp add: changed_in_def)

lemma changed_in_trans: "changed_in p N m m' \<Longrightarrow> changed_in p N m' m'' \<Longrightarrow> changed_in p N m m''"
  unfolding changed_in_def by metis

lemma changed_in_write: "length bs \<le> N \<Longrightarrow> N \<le> 4294967296 \<Longrightarrow> changed_in p N m (write_bytes m p bs)"
  by (auto simp: changed_in_def write_bytes_apply in_block_def split: if_splits)

lemma cstr_changed: "cstr m a bs \<Longrightarrow> changed_in p N m m' \<Longrightarrow> apart a (Suc (length bs)) p N \<Longrightarrow> cstr m' a bs"
  by (subst cstr_cong [of bs m' a m]) (auto simp: changed_in_def apart_def less_Suc_eq_le)

lemma in_block_shift: "in_block x (a + of_nat k) n \<Longrightarrow> k + n \<le> N \<Longrightarrow> in_block x a N"
proof -
  assume b: "in_block x (a + of_nat k) n" and N: "k + n \<le> N"
  show ?thesis
  proof (cases "N < 4294967296")
    case True
    have "x - a = (x - (a + of_nat k)) + of_nat k" by simp
    then have "unat (x - a) = unat ((x - (a + of_nat k)) + of_nat k)" by (rule arg_cong)
    also have "\<dots> \<le> unat (x - (a + of_nat k)) + unat (of_nat k :: u32)"
      unfolding unat_word_ariths by (rule mod_less_eq_dividend)
    finally have "unat (x - a) \<le> unat (x - (a + of_nat k)) + unat (of_nat k :: u32)" .
    moreover have "unat (of_nat k :: u32) = k" using True N by (simp add: unat_of_nat32)
    ultimately show ?thesis using b N by (simp add: in_block_def)
  next
    case False
    then show ?thesis using unsigned_less [of "x - a", where 'a = nat] by (simp add: in_block_def)
  qed
qed

lemma changed_in_shift: "changed_in (a + of_nat k) n m m' \<Longrightarrow> k + n \<le> N \<Longrightarrow> changed_in a N m m'"
  unfolding changed_in_def using in_block_shift by blast

section \<open>Linked cells\<close>

text \<open>\<open>lseg nx p xs q\<close>: the cells \<open>xs\<close>, linked by \<open>nx\<close>, lead from \<open>p\<close> to \<open>q\<close>.\<close>

fun lseg :: "(addr \<Rightarrow> addr) \<Rightarrow> addr \<Rightarrow> addr list \<Rightarrow> addr \<Rightarrow> bool" where
  "lseg nx p [] r \<longleftrightarrow> p = r"
| "lseg nx p (x # xs) r \<longleftrightarrow> p = x \<and> x \<noteq> 0 \<and> lseg nx (nx x) xs r"

lemma lseg_append: "lseg nx p (xs @ ys) r \<longleftrightarrow> (\<exists>q. lseg nx p xs q \<and> lseg nx q ys r)"
  by (induction xs arbitrary: p) auto

lemma lseg_upd [simp]: "a \<notin> set xs \<Longrightarrow> lseg (nx(a := b)) p xs r = lseg nx p xs r"
  by (induction xs arbitrary: p) auto

lemma lseg_relink: "lseg nx p (xs @ [x]) r \<Longrightarrow> x \<notin> set xs \<Longrightarrow> lseg (nx(x := e)) p (xs @ [x]) e"
  by (auto simp: lseg_append)

lemma lseg_nonzero: "lseg nx p xs r \<Longrightarrow> 0 \<notin> set xs"
  by (induction xs arbitrary: p) auto

lemma lseg_unique: "lseg nx p xs 0 \<Longrightarrow> lseg nx p ys 0 \<Longrightarrow> xs = ys"
proof (induction xs arbitrary: p ys)
  case Nil
  then show ?case by (cases ys) auto
next
  case (Cons x xs)
  then show ?case by (cases ys) auto
qed

lemma lseg_distinct: "lseg nx p xs 0 \<Longrightarrow> distinct xs"
proof (induction xs arbitrary: p)
  case (Cons x xs)
  have "x \<notin> set xs"
  proof
    assume "x \<in> set xs"
    then obtain us vs where xs: "xs = us @ x # vs" by (meson split_list)
    with Cons.prems have "lseg nx x (x # vs) 0" by (auto simp: lseg_append)
    moreover have "lseg nx x (x # xs) 0" using Cons.prems by auto
    ultimately have "x # vs = x # xs" by (rule lseg_unique)
    with xs show False by simp
  qed
  with Cons show ?case by auto
qed simp

end
