(* ===== verification/Cstring.thy ===== *)
theory Cstring
  imports CBase
begin

text \<open>
  The string and block functions of \<^verbatim>\<open>lib/string.c\<close>, over byte-addressed memory.  A
  \<open>while\<close> loop is a recursive function on the values of the loop's variables; the scans for
  a terminator are \<open>partial_function (option)\<close>.  A function that writes returns the new
  memory with the C return value; the null pointer is the address 0.
\<close>

section \<open>Definitions\<close>

partial_function (option) strlen_loop :: "mem \<Rightarrow> addr \<Rightarrow> u32 \<Rightarrow> u32 option" where
  "strlen_loop m s cnt = (if m s \<noteq> 0 then strlen_loop m (s + 1) (cnt + 1) else Some cnt)"

declare strlen_loop.simps [code]

definition strlen :: "mem \<Rightarrow> addr \<Rightarrow> u32 option" where
  "strlen m s = strlen_loop m s 0"

function strnlen_loop :: "mem \<Rightarrow> addr \<Rightarrow> u32 \<Rightarrow> u32 \<Rightarrow> u32" where
  "strnlen_loop m s len cnt =
     (if cnt < len \<and> m s \<noteq> 0 then strnlen_loop m (s + 1) len (cnt + 1) else cnt)"
  by pat_completeness auto
termination
  by (relation "measure (\<lambda>(m, s, len, cnt). unat len - unat cnt)")
     (auto simp: word_less_nat_alt unat_plus_one_less [of _ "_ :: u32"])

definition strnlen :: "mem \<Rightarrow> addr \<Rightarrow> u32 \<Rightarrow> u32" where
  "strnlen m s len = strnlen_loop m s len 0"

partial_function (option) strcpy_loop :: "mem \<Rightarrow> addr \<Rightarrow> addr \<Rightarrow> mem option" where
  "strcpy_loop m p src =
     (let c = m src; m' = m(p := c)
      in if c \<noteq> 0 then strcpy_loop m' (p + 1) (src + 1) else Some m')"

declare strcpy_loop.simps [code]

definition strcpy :: "mem \<Rightarrow> addr \<Rightarrow> addr \<Rightarrow> (mem \<times> addr) option" where
  "strcpy m dst src = do { m' \<leftarrow> strcpy_loop m dst src; Some (m', dst) }"

function strncpy_loop :: "mem \<Rightarrow> addr \<Rightarrow> addr \<Rightarrow> u32 \<Rightarrow> mem" where
  "strncpy_loop m p src len =
     (if len > 0
      then (let c = m src; m' = m(p := c)
            in strncpy_loop m' (p + 1) (if c \<noteq> 0 then src + 1 else src) (len - 1))
      else m)"
  by pat_completeness auto
termination
  by (relation "measure (\<lambda>(m, p, src, len). unat len)")
     (auto simp: word_pos_dec)

definition strncpy :: "mem \<Rightarrow> addr \<Rightarrow> addr \<Rightarrow> u32 \<Rightarrow> mem \<times> addr" where
  "strncpy m dst src len = (strncpy_loop m dst src len, dst)"

function strncmp :: "mem \<Rightarrow> addr \<Rightarrow> addr \<Rightarrow> u32 \<Rightarrow> int" where
  "strncmp m s1 s2 n =
     (if n > 0 \<and> m s1 \<noteq> 0 \<and> m s1 = m s2 then strncmp m (s1 + 1) (s2 + 1) (n - 1)
      else if n = 0 then 0 else uchar (m s1) - uchar (m s2))"
  by pat_completeness auto
termination
  by (relation "measure (\<lambda>(m, s1, s2, n). unat n)")
     (auto simp: word_pos_dec)

partial_function (option) strchr :: "mem \<Rightarrow> addr \<Rightarrow> u8 \<Rightarrow> addr option" where
  "strchr m s c =
     (if m s \<noteq> 0 then (if m s = c then Some s else strchr m (s + 1) c) else Some 0)"

declare strchr.simps [code]

partial_function (option) strfind :: "mem \<Rightarrow> addr \<Rightarrow> u8 \<Rightarrow> addr option" where
  "strfind m s c =
     (if m s \<noteq> 0 then (if m s = c then Some s else strfind m (s + 1) c) else Some s)"

declare strfind.simps [code]

function memset_loop :: "mem \<Rightarrow> addr \<Rightarrow> u8 \<Rightarrow> u32 \<Rightarrow> mem" where
  "memset_loop m p c n = (if n > 0 then memset_loop (m(p := c)) (p + 1) c (n - 1) else m)"
  by pat_completeness auto
termination
  by (relation "measure (\<lambda>(m, p, c, n). unat n)")
     (auto simp: word_pos_dec)

definition memset :: "mem \<Rightarrow> addr \<Rightarrow> u8 \<Rightarrow> u32 \<Rightarrow> mem \<times> addr" where
  "memset m s c n = (memset_loop m s c n, s)"

function copy_up :: "mem \<Rightarrow> addr \<Rightarrow> addr \<Rightarrow> u32 \<Rightarrow> mem" where
  "copy_up m d s n = (if n > 0 then copy_up (m(d := m s)) (d + 1) (s + 1) (n - 1) else m)"
  by pat_completeness auto
termination
  by (relation "measure (\<lambda>(m, d, s, n). unat n)")
     (auto simp: word_pos_dec)

function copy_down :: "mem \<Rightarrow> addr \<Rightarrow> addr \<Rightarrow> u32 \<Rightarrow> mem" where
  "copy_down m d s n =
     (if n > 0 then copy_down (m(d - 1 := m (s - 1))) (d - 1) (s - 1) (n - 1) else m)"
  by pat_completeness auto
termination
  by (relation "measure (\<lambda>(m, d, s, n). unat n)")
     (auto simp: word_pos_dec)

definition memcpy :: "mem \<Rightarrow> addr \<Rightarrow> addr \<Rightarrow> u32 \<Rightarrow> mem \<times> addr" where
  "memcpy m dst src n = (copy_up m dst src n, dst)"

definition memmove :: "mem \<Rightarrow> addr \<Rightarrow> addr \<Rightarrow> u32 \<Rightarrow> mem \<times> addr" where
  "memmove m dst src n =
     (if src < dst \<and> src + n > dst then (copy_down m (dst + n) (src + n) n, dst)
      else (copy_up m dst src n, dst))"

function memcmp :: "mem \<Rightarrow> addr \<Rightarrow> addr \<Rightarrow> u32 \<Rightarrow> int" where
  "memcmp m s1 s2 n =
     (if n > 0 then (if m s1 \<noteq> m s2 then uchar (m s1) - uchar (m s2)
                     else memcmp m (s1 + 1) (s2 + 1) (n - 1))
      else 0)"
  by pat_completeness auto
termination
  by (relation "measure (\<lambda>(m, s1, s2, n). unat n)")
     (auto simp: word_pos_dec)

definition bzero :: "mem \<Rightarrow> addr \<Rightarrow> u32 \<Rightarrow> mem" where
  "bzero m s n = fst (memset m s 0 n)"

declare strnlen_loop.simps [simp del] strncpy_loop.simps [simp del] strncmp.simps [simp del]
  memset_loop.simps [simp del] copy_up.simps [simp del] copy_down.simps [simp del]
  memcmp.simps [simp del]

lemmas cstring_unroll [unroll] = strlen_loop.simps strnlen_loop.simps strcpy_loop.simps
  strncpy_loop.simps strncmp.simps strchr.simps strfind.simps memset_loop.simps
  copy_up.simps copy_down.simps memcmp.simps

lemma strncpy_loop_0 [simp]: "strncpy_loop m p s 0 = m"
  and strncmp_0 [simp]: "strncmp m s1 s2 0 = 0"
  and memset_loop_0 [simp]: "memset_loop m p c 0 = m"
  and copy_up_0 [simp]: "copy_up m d s 0 = m"
  and copy_down_0 [simp]: "copy_down m d s 0 = m"
  and memcmp_0 [simp]: "memcmp m s1 s2 0 = 0"
  by (simp_all add: strncpy_loop.simps strncmp.simps memset_loop.simps copy_up.simps
      copy_down.simps memcmp.simps)

section \<open>Lengths\<close>

lemma strlen_loop_cstr: "cstr m s bs \<Longrightarrow> strlen_loop m s c = Some (c + of_nat (length bs))"
proof (induction bs arbitrary: s c)
  case Nil
  then show ?case by (simp add: strlen_loop.simps)
next
  case (Cons b bs)
  then show ?case by (subst strlen_loop.simps) (auto simp: add.assoc)
qed

lemma strlen_cstr: "cstr m s bs \<Longrightarrow> strlen m s = Some (of_nat (length bs))"
  by (simp add: strlen_def strlen_loop_cstr)

lemma strlen_cstr_unat: "cstr m s bs \<Longrightarrow> \<exists>n. strlen m s = Some n \<and> unat n = length bs"
  by (simp add: strlen_cstr unat_of_nat32 cstr_length_bound)

lemma strnlen_loop_eq:
  "cnt \<le> len \<Longrightarrow>
   strnlen_loop m s len cnt =
     cnt + of_nat (length (takeWhile (\<lambda>b. b \<noteq> 0) (read_bytes m s (unat len - unat cnt))))"
proof (induction m s len cnt rule: strnlen_loop.induct)
  case (1 m s len cnt)
  show ?case
  proof (cases "cnt < len \<and> m s \<noteq> 0")
    case True
    have u: "unat (cnt + 1) = Suc (unat cnt)"
      using True by (blast intro: unat_plus_one_less)
    have le: "cnt + 1 \<le> len" and lt: "unat cnt < unat len"
      using True u by (auto simp: word_le_nat_alt word_less_nat_alt)
    have split: "unat len - unat cnt = Suc (unat len - unat (cnt + 1))"
      using lt u by simp
    have IH: "strnlen_loop m (s + 1) len (cnt + 1) =
        cnt + 1 + of_nat (length (takeWhile (\<lambda>b. b \<noteq> 0) (read_bytes m (s + 1) (unat len - unat (cnt + 1)))))"
      using True le by (intro "1.IH") auto
    show ?thesis
      using True IH by (simp add: strnlen_loop.simps [of m s len cnt] split add.assoc)
  next
    case False
    then have "m s = 0 \<or> cnt = len"
      using "1.prems" by auto
    moreover have "m s = 0 \<Longrightarrow> takeWhile (\<lambda>b. b \<noteq> 0) (read_bytes m s n) = []" for n
      by (cases n) auto
    ultimately show ?thesis
      using False by (subst strnlen_loop.simps) auto
  qed
qed

lemma strnlen_eq:
  "strnlen m s len = of_nat (length (takeWhile (\<lambda>b. b \<noteq> 0) (read_bytes m s (unat len))))"
  by (simp add: strnlen_def strnlen_loop_eq)

lemma takeWhile_cstr:
  "cstr m s bs \<Longrightarrow> takeWhile (\<lambda>b. b \<noteq> 0) (read_bytes m s n) = take n bs"
proof (induction bs arbitrary: s n)
  case Nil
  then show ?case by (cases n) auto
next
  case (Cons b bs)
  then show ?case by (cases n) auto
qed

section \<open>Copying strings and blocks\<close>

lemma write_bytes_single: "write_bytes m a [b] = m(a := b)"
  by simp

text \<open>A forward copy is right when no byte is written before it is read.\<close>

definition fwd_ok :: "addr \<Rightarrow> addr \<Rightarrow> nat \<Rightarrow> bool" where
  "fwd_ok d s k \<longleftrightarrow> (\<forall>i j. i < j \<longrightarrow> j < k \<longrightarrow> d + of_nat i \<noteq> s + of_nat j)"

lemma fwd_ok_Suc:
  assumes "fwd_ok d s (Suc k)"
  shows "fwd_ok (d + 1) (s + 1) k" and "j < k \<Longrightarrow> d \<noteq> s + 1 + of_nat j"
proof -
  show "fwd_ok (d + 1) (s + 1) k"
    unfolding fwd_ok_def
  proof (intro allI impI)
    fix i j :: nat
    assume "i < j" "j < k"
    then show "d + 1 + of_nat i \<noteq> s + 1 + of_nat j"
      using assms [unfolded fwd_ok_def, rule_format, of "Suc i" "Suc j"] by (simp add: add.assoc)
  qed
  show "j < k \<Longrightarrow> d \<noteq> s + 1 + of_nat j"
    using assms [unfolded fwd_ok_def, rule_format, of 0 "Suc j"] by (simp add: add.assoc)
qed

lemma read_bytes_upd_other:
  "(\<And>j. j < k \<Longrightarrow> d \<noteq> s + of_nat j) \<Longrightarrow> read_bytes (m(d := v)) s k = read_bytes m s k"
  by (rule read_bytes_cong) (metis fun_upd_other)

lemma copy_up_eq:
  "fwd_ok d s (unat n) \<Longrightarrow> copy_up m d s n = write_bytes m d (read_bytes m s (unat n))"
proof (induction m d s n rule: copy_up.induct)
  case (1 m d s n)
  show ?case
  proof (cases "0 < n")
    case True
    note u = word_pos_dec [OF True]
    have ok: "fwd_ok (d + 1) (s + 1) (unat (n - 1))"
      and ne: "\<And>j. j < unat (n - 1) \<Longrightarrow> d \<noteq> s + 1 + of_nat j"
      using fwd_ok_Suc "1.prems" u by auto
    have "copy_up m d s n = copy_up (m(d := m s)) (d + 1) (s + 1) (n - 1)"
      using True by (subst copy_up.simps) simp
    also have "\<dots> = write_bytes (m(d := m s)) (d + 1) (read_bytes (m(d := m s)) (s + 1) (unat (n - 1)))"
      using True ok by (rule "1.IH")
    also have "read_bytes (m(d := m s)) (s + 1) (unat (n - 1)) = read_bytes m (s + 1) (unat (n - 1))"
      by (rule read_bytes_upd_other) (rule ne)
    finally show ?thesis by (simp add: u del: fun_upd_apply)
  next
    case False
    then have "n = 0" by (simp add: word_gt_0)
    then show ?thesis by (subst copy_up.simps) simp
  qed
qed

text \<open>A backward copy is right when no byte is written before it is read, from the top.\<close>

definition bwd_ok :: "addr \<Rightarrow> addr \<Rightarrow> nat \<Rightarrow> bool" where
  "bwd_ok d s k \<longleftrightarrow> (\<forall>i j. j < i \<longrightarrow> i < k \<longrightarrow> d + of_nat i \<noteq> s + of_nat j)"

lemma not_in_block_end: "k < 4294967296 \<Longrightarrow> \<not> in_block (a + of_nat k) a k"
  by (simp add: in_block_def unat_of_nat32)

lemma copy_down_eq:
  "unat n = k \<Longrightarrow> bwd_ok d s k \<Longrightarrow>
   copy_down m (d + n) (s + n) n = write_bytes m d (read_bytes m s k)"
proof (induction k arbitrary: m n)
  case 0
  then have "n = 0" by (simp add: unat_eq_zero)
  then show ?case by (subst copy_down.simps) simp
next
  case (Suc k)
  then have pos: "0 < n" by (metis unat_0 word_gt_0 nat.distinct(1))
  have u: "unat (n - 1) = k" using word_pos_dec [OF pos] Suc.prems(1) by simp
  then have n1: "n - 1 = of_nat k" by (simp flip: u)
  have kb: "Suc k < 4294967296" using Suc.prems(1) unsigned_less [of n, where 'a = nat] by simp
  have ok: "bwd_ok d s k" using Suc.prems(2) by (auto simp: bwd_ok_def)
  let ?v = "m (s + of_nat k)"
  let ?m = "m(d + of_nat k := ?v)"
  have da: "d + n - 1 = d + of_nat k" "s + n - 1 = s + of_nat k"
    using n1 by (simp_all flip: n1)
  have "copy_down m (d + n) (s + n) n = copy_down ?m (d + (n - 1)) (s + (n - 1)) (n - 1)"
    using pos by (subst copy_down.simps) (simp add: da add_diff_eq)
  also have "\<dots> = write_bytes ?m d (read_bytes ?m s k)"
    using u ok by (rule Suc.IH)
  also have "read_bytes ?m s k = read_bytes m s k"
    using Suc.prems(2) by (intro read_bytes_upd_other) (auto simp: bwd_ok_def)
  also have "write_bytes ?m d (read_bytes m s k) = (write_bytes m d (read_bytes m s k))(d + of_nat k := ?v)"
    using kb by (intro write_bytes_upd) (auto simp: not_in_block_end)
  also have "\<dots> = write_bytes m d (read_bytes m s (Suc k))"
    using read_bytes_append [of m s k 1] by (simp add: write_bytes_append)
  finally show ?case .
qed

lemma addr_offset:
  "unat a + k \<le> 4294967296 \<Longrightarrow> i < k \<Longrightarrow> unat (a + of_nat i :: addr) = unat a + i"
proof -
  assume a: "unat a + k \<le> 4294967296" "i < k"
  then have i: "unat (of_nat i :: addr) = i" by (simp add: unat_of_nat32)
  then have "unat a + unat (of_nat i :: addr) < 2 ^ LENGTH(32)" using a by simp
  then have "unat (a + of_nat i) = unat a + unat (of_nat i :: addr)" by (simp only: unat_add_lem)
  with i show ?thesis by simp
qed

lemma memmove_eq:
  assumes s: "unat src + unat n < 4294967296" and d: "unat dst + unat n \<le> 4294967296"
  shows "memmove m dst src n = (write_bytes m dst (read_bytes m src (unat n)), dst)"
proof -
  have off: "\<And>i. i < unat n \<Longrightarrow> unat (dst + of_nat i) = unat dst + i"
    "\<And>i. i < unat n \<Longrightarrow> unat (src + of_nat i) = unat src + i"
    using addr_offset [OF d] addr_offset [OF less_imp_le [OF s]] by auto
  have e: "unat (src + n) = unat src + unat n"
    using s by (simp add: unat_plus_simple [THEN iffD1] no_olen_add_nat)
  show ?thesis
  proof (cases "src < dst \<and> src + n > dst")
    case True
    have "bwd_ok dst src (unat n)"
      unfolding bwd_ok_def
    proof (intro allI impI notI)
      fix i j :: nat
      assume ij: "j < i" "i < unat n" and eq: "dst + of_nat i = src + of_nat j"
      have "unat dst + i = unat src + j"
        using off(1) [of i] off(2) [of j] ij eq by simp
      with True ij show False by (simp add: word_less_nat_alt)
    qed
    then show ?thesis using True by (simp add: memmove_def copy_down_eq)
  next
    case False
    have "fwd_ok dst src (unat n)"
      unfolding fwd_ok_def
    proof (intro allI impI notI)
      fix i j :: nat
      assume ij: "i < j" "j < unat n" and eq: "dst + of_nat i = src + of_nat j"
      have "unat dst + i = unat src + j"
        using off [of i] off(2) [of j] ij eq by simp
      with False e ij show False by (auto simp: word_less_nat_alt)
    qed
    with False show ?thesis by (auto simp: memmove_def copy_up_eq)
  qed
qed

lemma apart_fwd_ok: "apart s k d k \<Longrightarrow> k \<le> 4294967296 \<Longrightarrow> fwd_ok d s k"
  unfolding fwd_ok_def
proof (intro allI impI notI)
  fix i j :: nat
  assume a: "apart s k d k" "k \<le> 4294967296" and ij: "i < j" "j < k"
    and eq: "d + of_nat i = s + of_nat j"
  have "in_block (d + of_nat i) d k" using a ij by (intro in_block_offset) auto
  moreover have "\<not> in_block (s + of_nat j) d k" using a ij by (simp add: apart_def)
  ultimately show False using eq by simp
qed

lemma memcpy_eq:
  "fwd_ok dst src (unat n) \<Longrightarrow> memcpy m dst src n = (write_bytes m dst (read_bytes m src (unat n)), dst)"
  by (simp add: memcpy_def copy_up_eq)

lemma strcpy_loop_cstr:
  "cstr m s bs \<Longrightarrow> (\<And>i j. i < j \<Longrightarrow> j \<le> length bs \<Longrightarrow> p + of_nat i \<noteq> s + of_nat j) \<Longrightarrow>
   strcpy_loop m p s = Some (write_bytes m p (bs @ [0]))"
proof (induction bs arbitrary: m p s)
  case Nil
  then show ?case by (subst strcpy_loop.simps) (simp add: Let_def)
next
  case (Cons b bs)
  let ?m = "m(p := b)"
  have b: "m s = b" "b \<noteq> 0" and tl: "cstr m (s + 1) bs" using Cons.prems(1) by auto
  have "cstr ?m (s + 1) bs = cstr m (s + 1) bs"
    using Cons.prems(2) [of 0 "Suc i" for i] by (intro cstr_cong) (auto simp: add.assoc)
  with tl have c: "cstr ?m (s + 1) bs" by simp
  have "strcpy_loop ?m (p + 1) (s + 1) = Some (write_bytes ?m (p + 1) (bs @ [0]))"
  proof (rule Cons.IH [OF c])
    fix i j :: nat
    assume "i < j" "j \<le> length bs"
    then show "p + 1 + of_nat i \<noteq> s + 1 + of_nat j"
      using Cons.prems(2) [of "Suc i" "Suc j"] by (simp add: add.assoc)
  qed
  then show ?case using b by (subst strcpy_loop.simps) (simp add: Let_def)
qed

lemma strcpy_cstr:
  assumes c: "cstr m s bs" and a: "apart s (Suc (length bs)) d (Suc (length bs))"
  shows "strcpy m d s = Some (write_bytes m d (bs @ [0]), d)"
proof -
  have b: "Suc (length bs) \<le> 4294967296" using cstr_length_bound [OF c] by simp
  have "strcpy_loop m d s = Some (write_bytes m d (bs @ [0]))"
    using c
  proof (rule strcpy_loop_cstr)
    fix i j :: nat
    assume "i < j" "j \<le> length bs"
    then show "d + of_nat i \<noteq> s + of_nat j"
      using apart_fwd_ok [OF a b] by (simp add: fwd_ok_def)
  qed
  then show ?thesis by (simp add: strcpy_def)
qed

section \<open>Filling\<close>

lemma memset_loop_eq: "memset_loop m p c n = write_bytes m p (replicate (unat n) c)"
proof (induction m p c n rule: memset_loop.induct)
  case (1 m p c n)
  then show ?case
    by (cases "0 < n")
       (simp_all add: memset_loop.simps [of m p c n] word_pos_dec word_gt_0 del: fun_upd_apply)
qed

lemma memset_eq: "memset m s c n = (write_bytes m s (replicate (unat n) c), s)"
  by (simp add: memset_def memset_loop_eq)

section \<open>Searching and comparing\<close>

lemma strchr_cstr:
  "cstr m s bs \<Longrightarrow>
   strchr m s c = Some (if c \<in> set bs then s + of_nat (length (takeWhile (\<lambda>b. b \<noteq> c) bs)) else 0)"
proof (induction bs arbitrary: s)
  case Nil
  then show ?case by (simp add: strchr.simps)
next
  case (Cons b bs)
  then show ?case by (subst strchr.simps) (auto simp: add.assoc)
qed

lemma strfind_cstr:
  "cstr m s bs \<Longrightarrow> strfind m s c = Some (s + of_nat (length (takeWhile (\<lambda>b. b \<noteq> c) bs)))"
proof (induction bs arbitrary: s)
  case Nil
  then show ?case by (simp add: strfind.simps)
next
  case (Cons b bs)
  then show ?case by (subst strfind.simps) (auto simp: add.assoc)
qed

text \<open>The byte order C compares by: unsigned, a proper prefix first.\<close>

abbreviation byte_lex :: "u8 list rel" where
  "byte_lex \<equiv> lexord {(x, y). x < y}"

lemma byte_lex_Nil: "([], bs) \<in> byte_lex \<longleftrightarrow> bs \<noteq> []" and byte_lex_Nil2: "(as, []) \<notin> byte_lex"
  by (cases bs) auto

lemma strncmp_cstr:
  "cstr m s1 as \<Longrightarrow> cstr m s2 bs \<Longrightarrow>
   (strncmp m s1 s2 n = 0 \<longleftrightarrow> take (unat n) as = take (unat n) bs) \<and>
   (strncmp m s1 s2 n < 0 \<longleftrightarrow> (take (unat n) as, take (unat n) bs) \<in> byte_lex)"
proof (induction as arbitrary: s1 s2 bs n)
  case Nil
  then show ?case
    by (cases bs; cases "n = 0") (auto simp: strncmp.simps [of m s1 s2 n] uint_0_iff word_gt_0
        word_pos_dec less_le)
next
  case (Cons a as)
  show ?case
  proof (cases "n = 0")
    case True
    then show ?thesis by (simp add: strncmp.simps [of m s1 s2 n])
  next
    case False
    then have u: "unat n = Suc (unat (n - 1))" by (simp add: word_pos_dec word_gt_0)
    show ?thesis
    proof (cases bs)
      case Nil
      then show ?thesis using Cons.prems False u
        by (auto simp: strncmp.simps [of m s1 s2 n] uint_0_iff word_gt_0 not_less)
    next
      case (Cons b bs')
      note B = this
      show ?thesis
      proof (cases "a = b")
        case True
        with Cons.prems B False have "strncmp m s1 s2 n = strncmp m (s1 + 1) (s2 + 1) (n - 1)"
          by (simp add: strncmp.simps [of m s1 s2 n] word_gt_0)
        with Cons.IH [of "s1 + 1" "s2 + 1" bs' "n - 1"] Cons.prems B True u show ?thesis by simp
      next
        case False
        with Cons.prems B \<open>n \<noteq> 0\<close> have "strncmp m s1 s2 n = uint a - uint b"
          by (simp add: strncmp.simps [of m s1 s2 n])
        with False B u show ?thesis by (auto simp: word_less_def word_uint_eq_iff)
      qed
    qed
  qed
qed

lemma strncmp_prefix_cstr:
  "cstr m s1 as \<Longrightarrow> cstr m s2 bs \<Longrightarrow>
   strncmp m s1 s2 n = 0 \<longleftrightarrow> take (unat n) as = take (unat n) bs"
  using strncmp_cstr by blast

lemma memcmp_eq:
  "(memcmp m s1 s2 n = 0 \<longleftrightarrow> read_bytes m s1 (unat n) = read_bytes m s2 (unat n)) \<and>
   (memcmp m s1 s2 n < 0 \<longleftrightarrow> (read_bytes m s1 (unat n), read_bytes m s2 (unat n)) \<in> byte_lex)"
proof (induction m s1 s2 n rule: memcmp.induct)
  case (1 m s1 s2 n)
  show ?case
  proof (cases "0 < n")
    case True
    note u = word_pos_dec [OF True]
    show ?thesis
    proof (cases "m s1 = m s2")
      case True
      with \<open>0 < n\<close> "1.IH" u show ?thesis by (simp add: memcmp.simps [of m s1 s2 n])
    next
      case False
      with \<open>0 < n\<close> u show ?thesis
        by (simp add: memcmp.simps [of m s1 s2 n]) (auto simp: word_less_def word_uint_eq_iff)
    qed
  next
    case False
    then have "n = 0" by (simp add: word_gt_0)
    then show ?thesis by (simp add: memcmp.simps [of m s1 s2 n])
  qed
qed

text \<open>\<open>strncpy\<close> copies and pads: exactly \<open>len\<close> bytes are written, whatever the string's length.\<close>

lemma strncpy_loop_zero:
  "m s = 0 \<Longrightarrow> \<not> in_block s p (unat n) \<Longrightarrow>
   strncpy_loop m p s n = write_bytes m p (replicate (unat n) 0)"
proof (induction m p s n rule: strncpy_loop.induct)
  case (1 m p s n)
  show ?case
  proof (cases "0 < n")
    case True
    note u = word_pos_dec [OF True]
    have p: "s \<noteq> p" and tl: "\<not> in_block s (p + 1) (unat (n - 1))"
    proof -
      show p: "s \<noteq> p" using "1.prems" u by (auto simp: in_block_def)
      then have "unat (s - (p + 1)) = unat (s - p) - 1" "0 < unat (s - p)"
        using unat_minus_one_nz [of "s - p"] by (simp_all add: diff_diff_eq unat_gt_0)
      then show "\<not> in_block s (p + 1) (unat (n - 1))"
        using "1.prems" u by (simp add: in_block_def)
    qed
    have "strncpy_loop (m(p := 0)) (p + 1) s (n - 1)
        = write_bytes (m(p := 0)) (p + 1) (replicate (unat (n - 1)) 0)"
      using "1.IH" [OF True refl refl] "1.prems" p tl by (simp add: fun_upd_other del: fun_upd_apply)
    then show ?thesis
      using True "1.prems" u by (simp add: strncpy_loop.simps [of m p s n] del: fun_upd_apply)
  next
    case False
    then show ?thesis by (simp add: strncpy_loop.simps [of m p s n] word_gt_0)
  qed
qed

lemma strncpy_loop_cstr:
  "cstr m s bs \<Longrightarrow> apart s (Suc (length bs)) p (unat n) \<Longrightarrow>
   strncpy_loop m p s n =
     write_bytes m p (take (unat n) bs @ replicate (unat n - length bs) 0)"
proof (induction bs arbitrary: m p s n)
  case Nil
  then have "\<not> in_block s p (unat n)" by (auto simp: apart_def)
  with Nil show ?case by (simp add: strncpy_loop_zero)
next
  case (Cons b bs)
  show ?case
  proof (cases "n = 0")
    case True
    then show ?thesis by (simp add: strncpy_loop.simps [of m p s n])
  next
    case False
    then have pos: "0 < n" by (simp add: word_gt_0)
    note u = word_pos_dec [OF pos]
    let ?m = "m(p := b)"
    have ap: "\<not> in_block (s + of_nat i) p (unat n)" if "i < Suc (Suc (length bs))" for i
      using Cons.prems(2) that by (simp add: apart_def)
    have ne: "s + 1 + of_nat i \<noteq> p" if "i \<le> length bs" for i
      using ap [of "Suc i"] that u by (auto simp: in_block_def add.assoc)
    have "cstr ?m (s + 1) bs = cstr m (s + 1) bs"
      using ne by (intro cstr_cong) auto
    then have c: "cstr ?m (s + 1) bs" using Cons.prems(1) by simp
    have "apart (s + 1) (Suc (length bs)) (p + 1) (unat (n - 1))"
      unfolding apart_def
    proof (intro allI impI)
      fix i assume i: "i < Suc (length bs)"
      have "s + 1 + of_nat i - p \<noteq> 0" using ne [of i] i by auto
      then have "unat (s + 1 + of_nat i - (p + 1)) = unat (s + 1 + of_nat i - p) - 1"
        using unat_minus_one_nz [of "s + 1 + of_nat i - p"] by (simp add: diff_diff_eq)
      then show "\<not> in_block (s + 1 + of_nat i) (p + 1) (unat (n - 1))"
        using ap [of "Suc i"] i u by (simp add: in_block_def add.assoc)
    qed
    from Cons.IH [OF c this]
    have "strncpy_loop ?m (p + 1) (s + 1) (n - 1)
        = write_bytes ?m (p + 1) (take (unat (n - 1)) bs @ replicate (unat (n - 1) - length bs) 0)" .
    then show ?thesis
      using pos Cons.prems(1) u
      by (simp add: strncpy_loop.simps [of m p s n] Let_def del: fun_upd_apply)
  qed
qed

section \<open>The contract of a block copy\<close>

text \<open>
  What the callers of a copy routine rely on (\<^verbatim>\<open>sha_update\<close>, \<^verbatim>\<open>print_arg\<close>): for blocks
  that are apart, the destination is the source's old contents, nothing else changes, and the
  destination pointer is returned.
\<close>

locale block_copy =
  fixes cp :: "mem \<Rightarrow> addr \<Rightarrow> addr \<Rightarrow> u32 \<Rightarrow> mem \<times> addr"
  assumes copies: "apart s (unat n) d (unat n) \<Longrightarrow>
    cp m d s n = (write_bytes m d (read_bytes m s (unat n)), d)"
begin

lemma copied:
  "apart s (unat n) d (unat n) \<Longrightarrow> read_bytes (fst (cp m d s n)) d (unat n) = read_bytes m s (unat n)"
  using unsigned_less [of n, where 'a = nat] by (simp add: copies mem_simps)

lemma frame:
  "apart s (unat n) d (unat n) \<Longrightarrow> \<not> in_block x d (unat n) \<Longrightarrow> fst (cp m d s n) x = m x"
  using unsigned_less [of n, where 'a = nat] by (simp add: copies write_bytes_outside)

lemma source_kept:
  "apart s (unat n) d (unat n) \<Longrightarrow> read_bytes (fst (cp m d s n)) s (unat n) = read_bytes m s (unat n)"
  using unsigned_less [of n, where 'a = nat] by (simp add: copies mem_simps)

lemma copy_then_back:
  assumes sd: "apart s (unat n) d (unat n)" and ds: "apart d (unat n) s (unat n)"
  shows "fst (cp (fst (cp m d s n)) s d n) = fst (cp m d s n)"
proof
  fix x
  let ?m = "fst (cp m d s n)"
  have n: "unat n \<le> 4294967296" using unsigned_less [of n, where 'a = nat] by simp
  show "fst (cp ?m s d n) x = ?m x"
  proof (cases "in_block x s (unat n)")
    case True
    define i where "i = unat (x - s)"
    have x: "x = s + of_nat i" and i: "i < unat n"
      using True by (auto simp: i_def in_block_def)
    have "fst (cp ?m s d n) x = read_bytes ?m d (unat n) ! i"
      using copies [OF ds, of ?m] i n by (simp add: x write_bytes_inside)
    also have "\<dots> = read_bytes ?m s (unat n) ! i"
      using sd by (simp add: copied source_kept)
    finally show ?thesis using i by (simp add: x nth_read_bytes)
  next
    case False
    then show ?thesis using ds by (simp add: frame)
  qed
qed

end

lemma apart_bwd_ok: "apart s k d k \<Longrightarrow> k \<le> 4294967296 \<Longrightarrow> bwd_ok d s k"
  unfolding bwd_ok_def
proof (intro allI impI notI)
  fix i j :: nat
  assume a: "apart s k d k" "k \<le> 4294967296" and ij: "j < i" "i < k"
    and eq: "d + of_nat i = s + of_nat j"
  have "in_block (d + of_nat i) d k" using a ij by (intro in_block_offset) auto
  moreover have "\<not> in_block (s + of_nat j) d k" using a ij by (simp add: apart_def)
  ultimately show False using eq by simp
qed

lemma word_unat_bound: "unat (n :: u32) \<le> 4294967296"
  using unsigned_less [of n, where 'a = nat] by simp

interpretation mcpy: block_copy memcpy
  by unfold_locales (simp add: memcpy_eq apart_fwd_ok word_unat_bound)

interpretation mmov: block_copy memmove
  by unfold_locales
     (simp add: memmove_def copy_down_eq copy_up_eq apart_fwd_ok apart_bwd_ok word_unat_bound)

end
