(* ===== verification/Libstr.thy ===== *)
theory Libstr
  imports Cstring
begin

text \<open>
  The string functions \<^verbatim>\<open>lib/\<close> keeps one to a file, besides those of \<^verbatim>\<open>lib/string.c\<close>
  (theory Cstring).  A function that \<^verbatim>\<open>lib/string.c\<close> defines too carries the prefix
  \<open>lib_\<close> here.  \<open>int\<close> counters and results that stay in range are HOL integers; a plain
  \<open>char\<close> read as an \<open>int\<close> is sign-extended (\<open>schar\<close>).
\<close>

section \<open>Definitions\<close>

definition toupper :: "int \<Rightarrow> int" where
  "toupper c = (if c \<ge> 97 \<and> c \<le> 122 then c - 97 + 65 else c)"

partial_function (option) strtoupper_loop :: "mem \<Rightarrow> addr \<Rightarrow> mem option" where
  "strtoupper_loop m p =
     (if m p \<noteq> 0 then strtoupper_loop (m(p := word_of_int (toupper (schar (m p))))) (p + 1)
      else Some m)"

declare strtoupper_loop.simps [code]

definition strtoupper :: "mem \<Rightarrow> addr \<Rightarrow> mem option" where
  "strtoupper m p = (if p = 0 then Some m else strtoupper_loop m p)"

partial_function (option) strcmp :: "mem \<Rightarrow> addr \<Rightarrow> addr \<Rightarrow> int option" where
  "strcmp m s1 s2 =
     (if m s1 = m s2 then (if m s1 = 0 then Some 0 else strcmp m (s1 + 1) (s2 + 1))
      else Some (uchar (m s1) - uchar (m s2)))"

declare strcmp.simps [code]

partial_function (option) strend :: "mem \<Rightarrow> addr \<Rightarrow> addr option" where
  "strend m d = (if m d \<noteq> 0 then strend m (d + 1) else Some d)"

declare strend.simps [code]

partial_function (option) strcat_loop :: "mem \<Rightarrow> addr \<Rightarrow> addr \<Rightarrow> (mem \<times> addr) option" where
  "strcat_loop m d src =
     (if m src \<noteq> 0 then strcat_loop (m(d := m src)) (d + 1) (src + 1) else Some (m, d))"

declare strcat_loop.simps [code]

definition strcat :: "mem \<Rightarrow> addr \<Rightarrow> addr \<Rightarrow> (mem \<times> addr) option" where
  "strcat m dst src =
     (if dst = 0 \<or> src = 0 then Some (m, dst)
      else do { d \<leftarrow> strend m dst;
                (m', d') \<leftarrow> strcat_loop m d src;
                Some (m'(d' := 0), dst) })"

text \<open>\<^verbatim>\<open>strchr.c\<close> compares the promoted \<open>char\<close> with the whole \<open>int\<close> argument.\<close>

partial_function (option) lib_strchr_loop :: "mem \<Rightarrow> addr \<Rightarrow> int \<Rightarrow> addr option" where
  "lib_strchr_loop m p c =
     (if m p \<noteq> 0 then (if schar (m p) = c then Some p else lib_strchr_loop m (p + 1) c)
      else Some 0)"

declare lib_strchr_loop.simps [code]

definition lib_strchr :: "mem \<Rightarrow> addr \<Rightarrow> int \<Rightarrow> addr option" where
  "lib_strchr m p c = (if p = 0 then Some 0 else lib_strchr_loop m p c)"

text \<open>\<^verbatim>\<open>while ((*dp++ = *srcp++) != 0)\<close> is the loop of \<^verbatim>\<open>string.c\<close>'s \<open>strcpy\<close>.\<close>

definition lib_strcpy :: "mem \<Rightarrow> addr \<Rightarrow> addr \<Rightarrow> (mem \<times> addr) option" where
  "lib_strcpy m dstp srcp =
     (if dstp = 0 then Some (m, 0)
      else let m1 = m(dstp := 0) in
        if srcp = 0 then Some (m1, dstp)
        else do { m2 \<leftarrow> strcpy_loop m1 dstp srcp; Some (m2, dstp) })"

text \<open>\<^verbatim>\<open>while (--len) if ((*d++ = *s++) == 0) break;\<close> with the memory, the pointer \<open>d\<close> and
  \<open>len\<close> at its end.\<close>

function strlcpy_loop :: "mem \<Rightarrow> addr \<Rightarrow> addr \<Rightarrow> u32 \<Rightarrow> mem \<times> addr \<times> u32" where
  "strlcpy_loop m d s len =
     (let len' = len - 1 in
      if len' = 0 then (m, d, len')
      else let c = m s; m' = m(d := c) in
        if c = 0 then (m', d + 1, len') else strlcpy_loop m' (d + 1) (s + 1) len')"
  by pat_completeness auto
termination
  by (relation "measure (\<lambda>(m, d, s, len). unat (len - 1))")
     (auto simp: word_pos_dec [of "_ - 1"] word_gt_0)

definition strlcpy :: "mem \<Rightarrow> addr \<Rightarrow> addr \<Rightarrow> u32 \<Rightarrow> mem \<times> u32" where
  "strlcpy m d s l =
     (if d = 0 \<or> l = 0 then (m, 0)
      else let m1 = m(d := 0) in
        if s = 0 then (m1, 0)
        else let (m2, d2, len) = strlcpy_loop m1 d s l;
                 m3 = (if len = 0 then m2(d2 := 0) else m2)
             in (m3, l - len))"

partial_function (option) set_scan :: "mem \<Rightarrow> addr \<Rightarrow> u8 \<Rightarrow> addr \<Rightarrow> addr option" where
  "set_scan m s c j =
     (if m (s + j) \<noteq> 0 then (if m (s + j) = c then Some j else set_scan m s c (j + 1))
      else Some j)"

declare set_scan.simps [code]

partial_function (option) strspn_loop :: "mem \<Rightarrow> addr \<Rightarrow> addr \<Rightarrow> u32 \<Rightarrow> u32 option" where
  "strspn_loop m p s i =
     (if m (p + i) \<noteq> 0
      then do { j \<leftarrow> set_scan m s (m (p + i)) 0;
                if m (s + j) = 0 then Some i else strspn_loop m p s (i + 1) }
      else Some i)"

declare strspn_loop.simps [code]

definition strspn :: "mem \<Rightarrow> addr \<Rightarrow> addr \<Rightarrow> u32 option" where
  "strspn m p s = strspn_loop m p s 0"

partial_function (option) strcspn_loop :: "mem \<Rightarrow> addr \<Rightarrow> addr \<Rightarrow> u32 \<Rightarrow> u32 option" where
  "strcspn_loop m p s i =
     (if m (p + i) \<noteq> 0
      then do { j \<leftarrow> set_scan m s (m (p + i)) 0;
                if m (s + j) \<noteq> 0 then Some i else strcspn_loop m p s (i + 1) }
      else Some i)"

declare strcspn_loop.simps [code]

definition strcspn :: "mem \<Rightarrow> addr \<Rightarrow> addr \<Rightarrow> u32 option" where
  "strcspn m p s = strcspn_loop m p s 0"

text \<open>The static \<open>t\<close> of \<open>strtok\<close> is passed and returned with the memory.\<close>

definition strtok :: "mem \<Rightarrow> addr \<Rightarrow> addr \<Rightarrow> addr \<Rightarrow> (mem \<times> addr \<times> addr) option" where
  "strtok m t p tok =
     (let t1 = (if p \<noteq> 0 then p else t) in
      do { k \<leftarrow> strspn m t1 tok;
           let r = t1 + k;
           n \<leftarrow> strcspn m r tok;
           if n = 0 then Some (m, t1, 0)
           else let t2 = r + n in
             if m t2 \<noteq> 0 then Some (m(t2 := 0), t2 + 1, r) else Some (m, t2, r) })"

partial_function (option) strichr_shift :: "mem \<Rightarrow> addr \<Rightarrow> addr \<Rightarrow> mem option" where
  "strichr_shift m p t =
     (if t \<ge> p then strichr_shift (m(t + 1 := m t)) p (t - 1) else Some m)"

declare strichr_shift.simps [code]

definition strichr :: "mem \<Rightarrow> addr \<Rightarrow> u8 \<Rightarrow> (mem \<times> addr) option" where
  "strichr m p c =
     (if p \<noteq> 0
      then do { t \<leftarrow> strend m p;
                m1 \<leftarrow> strichr_shift m p t;
                Some (m1(p := c), p) }
      else Some (m, p))"

function lib_strncmp_loop :: "mem \<Rightarrow> addr \<Rightarrow> addr \<Rightarrow> u32 \<Rightarrow> int" where
  "lib_strncmp_loop m s1 s2 n =
     (if n \<noteq> 0 \<and> m s1 = m s2
      then (if m s1 = 0 then 0 else lib_strncmp_loop m (s1 + 1) (s2 + 1) (n - 1))
      else if n \<noteq> 0 then schar (m s1) - schar (m s2) else 0)"
  by pat_completeness auto
termination
  by (relation "measure (\<lambda>(m, s1, s2, n). unat n)") (auto simp: word_pos_dec word_gt_0)

definition lib_strncmp :: "mem \<Rightarrow> addr \<Rightarrow> addr \<Rightarrow> u32 \<Rightarrow> int" where
  "lib_strncmp m s1 s2 n = (if s1 = 0 \<or> s2 = 0 then 0 else lib_strncmp_loop m s1 s2 n)"

function lib_strncpy_loop :: "mem \<Rightarrow> addr \<Rightarrow> addr \<Rightarrow> u32 \<Rightarrow> mem" where
  "lib_strncpy_loop m d src n =
     (if m src \<noteq> 0 \<and> n \<noteq> 0 then lib_strncpy_loop (m(d := m src)) (d + 1) (src + 1) (n - 1)
      else memset_loop m d 0 n)"
  by pat_completeness auto
termination
  by (relation "measure (\<lambda>(m, d, src, n). unat n)") (auto simp: word_pos_dec word_gt_0)

definition lib_strncpy :: "mem \<Rightarrow> addr \<Rightarrow> addr \<Rightarrow> u32 \<Rightarrow> mem \<times> addr" where
  "lib_strncpy m dst src n =
     (if dst = 0 \<or> src = 0 then (m, dst) else (lib_strncpy_loop m dst src n, dst))"

text \<open>\<^verbatim>\<open>memcpy.c\<close> copies downwards when the source is below the destination.\<close>

definition lib_memcpy :: "mem \<Rightarrow> addr \<Rightarrow> addr \<Rightarrow> u32 \<Rightarrow> mem \<times> addr" where
  "lib_memcpy m s1 s2 n =
     (if s2 < s1 then (copy_down m (s1 + n) (s2 + n) n, s1) else (copy_up m s1 s2 n, s1))"

definition lib_memset :: "mem \<Rightarrow> addr \<Rightarrow> int \<Rightarrow> u32 \<Rightarrow> mem \<times> addr" where
  "lib_memset m s c n = (memset_loop m s (word_of_int c) n, s)"

text \<open>\<^verbatim>\<open>memcmp.c\<close> keeps the difference in a \<open>signed char\<close>.\<close>

function lib_memcmp :: "mem \<Rightarrow> addr \<Rightarrow> addr \<Rightarrow> int \<Rightarrow> int" where
  "lib_memcmp m cs ct n =
     (if 0 < n
      then (let res = schar (word_of_int (uchar (m cs) - uchar (m ct)))
            in if res \<noteq> 0 then res else lib_memcmp m (cs + 1) (ct + 1) (n - 1))
      else 0)"
  by pat_completeness auto
termination
  by (relation "measure (\<lambda>(m, cs, ct, n). nat n)") auto

declare strlcpy_loop.simps [simp del] lib_strncmp_loop.simps [simp del]
  lib_strncpy_loop.simps [simp del] lib_memcmp.simps [simp del]

lemmas libstr_unroll [unroll] = strtoupper_loop.simps strcmp.simps strend.simps strcat_loop.simps
  lib_strchr_loop.simps strlcpy_loop.simps set_scan.simps strspn_loop.simps strcspn_loop.simps
  strichr_shift.simps lib_strncmp_loop.simps lib_strncpy_loop.simps lib_memcmp.simps

section \<open>Comparing\<close>

lemma strcmp_cstr:
  "cstr m s1 as \<Longrightarrow> cstr m s2 bs \<Longrightarrow>
   \<exists>r. strcmp m s1 s2 = Some r \<and> (r = 0 \<longleftrightarrow> as = bs) \<and> (r < 0 \<longleftrightarrow> (as, bs) \<in> byte_lex)"
proof (induction as arbitrary: s1 s2 bs)
  case Nil
  then show ?case
    by (cases bs) (auto simp: strcmp.simps [of m s1 s2] uint_0_iff less_le)
next
  case (Cons a as)
  show ?case
  proof (cases bs)
    case Nil
    with Cons.prems show ?thesis
      by (auto simp: strcmp.simps [of m s1 s2] uint_0_iff not_less)
  next
    case (Cons b bs')
    note B = this
    show ?thesis
    proof (cases "a = b")
      case True
      with Cons.prems B have "strcmp m s1 s2 = strcmp m (s1 + 1) (s2 + 1)"
        by (auto simp: strcmp.simps [of m s1 s2])
      with Cons.IH [of "s1 + 1" "s2 + 1" bs'] Cons.prems B True show ?thesis by simp
    next
      case False
      with Cons.prems B have "strcmp m s1 s2 = Some (uint a - uint b)"
        by (simp add: strcmp.simps [of m s1 s2])
      with False B show ?thesis by (auto simp: word_less_def word_uint_eq_iff)
    qed
  qed
qed

lemma strcmp_eq_0: "cstr m s1 as \<Longrightarrow> cstr m s2 bs \<Longrightarrow> strcmp m s1 s2 = Some 0 \<longleftrightarrow> as = bs"
  using strcmp_cstr [of m s1 as s2 bs] by auto

section \<open>Appending and prepending\<close>

lemma strend_cstr: "cstr m d bs \<Longrightarrow> strend m d = Some (d + of_nat (length bs))"
proof (induction bs arbitrary: d)
  case Nil
  then show ?case by (simp add: strend.simps)
next
  case (Cons b bs)
  then show ?case by (subst strend.simps) (auto simp: add.assoc)
qed

lemma strcat_loop_cstr:
  "cstr m s bs \<Longrightarrow> (\<And>i j. i < j \<Longrightarrow> j \<le> length bs \<Longrightarrow> p + of_nat i \<noteq> s + of_nat j) \<Longrightarrow>
   strcat_loop m p s = Some (write_bytes m p bs, p + of_nat (length bs))"
proof (induction bs arbitrary: m p s)
  case Nil
  then show ?case by (subst strcat_loop.simps) simp
next
  case (Cons b bs)
  let ?m = "m(p := b)"
  have b: "m s = b" "b \<noteq> 0" and tl: "cstr m (s + 1) bs" using Cons.prems(1) by auto
  have "cstr ?m (s + 1) bs = cstr m (s + 1) bs"
    using Cons.prems(2) [of 0 "Suc i" for i] by (intro cstr_cong) (auto simp: add.assoc)
  with tl have c: "cstr ?m (s + 1) bs" by simp
  have "strcat_loop ?m (p + 1) (s + 1) = Some (write_bytes ?m (p + 1) bs, p + 1 + of_nat (length bs))"
  proof (rule Cons.IH [OF c])
    fix i j :: nat
    assume "i < j" "j \<le> length bs"
    then show "p + 1 + of_nat i \<noteq> s + 1 + of_nat j"
      using Cons.prems(2) [of "Suc i" "Suc j"] by (simp add: add.assoc)
  qed
  then show ?case using b by (subst strcat_loop.simps) (simp add: add.assoc)
qed

lemma strcat_cstr:
  assumes d: "cstr m dst as" "dst \<noteq> 0" and s: "cstr m src bs" "src \<noteq> 0"
    and a: "apart src (Suc (length bs)) (dst + of_nat (length as)) (Suc (length bs))"
  shows "strcat m dst src = Some (write_bytes m (dst + of_nat (length as)) (bs @ [0]), dst)"
proof -
  have "Suc (length bs) \<le> 4294967296" using cstr_length_bound [OF s(1)] by simp
  then have "strcat_loop m (dst + of_nat (length as)) src = Some
      (write_bytes m (dst + of_nat (length as)) bs, dst + of_nat (length as) + of_nat (length bs))"
    using apart_fwd_ok [OF a] by (intro strcat_loop_cstr s) (simp add: fwd_ok_def)
  then show ?thesis
    using d s by (simp add: strcat_def strend_cstr write_bytes_append)
qed

lemma cstr_after_append:
  assumes c: "cstr m d as" and n: "0 \<notin> set bs" and l: "length as + length bs < 4294967296"
  shows "cstr (write_bytes m (d + of_nat (length as)) (bs @ [0])) d (as @ bs)"
proof -
  let ?m = "write_bytes m (d + of_nat (length as)) (bs @ [0])"
  have "read_bytes ?m d (length as) = read_bytes m d (length as)"
  proof (rule read_bytes_cong)
    fix i assume i: "i < length as"
    have "d + of_nat i - (d + of_nat (length as)) = - of_nat (length as - i)"
      using i by (simp add: of_nat_diff)
    moreover have "unat (- of_nat (length as - i) :: addr) = 4294967296 - (length as - i)"
      using i l by (simp add: unat_neg32 unat_of_nat32 of_nat_eq_0_iff32 del: of_nat_diff)
    ultimately show "?m (d + of_nat i) = m (d + of_nat i)"
      using i l by (intro write_bytes_outside) (auto simp: in_block_def)
  qed
  moreover have "read_bytes m d (length as) = as"
    using c by (simp add: read_bytes_eq_iff cstr_nth)
  moreover have "cstr ?m (d + of_nat (length as)) bs"
    using n l by (intro cstr_write) auto
  ultimately show ?thesis
    using cstr_nonzero [OF c] by (simp add: cstr_append)
qed

section \<open>Spans and tokens\<close>

lemma set_scan_cstr:
  "cstr m s ts \<Longrightarrow> set_scan m (s - of_nat k) c (of_nat k)
     = Some (of_nat (k + length (takeWhile (\<lambda>b. b \<noteq> c) ts)))"
proof (induction ts arbitrary: s k)
  case Nil
  then show ?case by (simp add: set_scan.simps)
next
  case (Cons t ts)
  show ?case
  proof (cases "t = c")
    case True
    with Cons.prems show ?thesis by (subst set_scan.simps) simp
  next
    case False
    have "set_scan m (s - of_nat k) c (of_nat k) = set_scan m (s + 1 - of_nat (Suc k)) c (of_nat (Suc k))"
      using Cons.prems False by (subst set_scan.simps) (simp add: algebra_simps)
    also have "\<dots> = Some (of_nat (Suc k + length (takeWhile (\<lambda>b. b \<noteq> c) ts)))"
      using Cons.prems by (intro Cons.IH) simp
    finally show ?thesis using False by simp
  qed
qed

lemma set_scan_found:
  assumes "cstr m s ts"
  shows "\<exists>j. set_scan m s c 0 = Some j \<and> (m (s + j) = 0 \<longleftrightarrow> c \<notin> set ts)"
proof -
  let ?k = "length (takeWhile (\<lambda>b. b \<noteq> c) ts)"
  have "set_scan m s c 0 = Some (of_nat ?k)"
    using set_scan_cstr [OF assms, of 0] by simp
  moreover have "m (s + of_nat ?k) = 0 \<longleftrightarrow> c \<notin> set ts"
  proof (cases "c \<in> set ts")
    case True
    then have k: "?k < length ts" by (rule length_takeWhile_less) simp
    then show ?thesis
      using True cstr_nth [OF assms k] cstr_nonzero [OF assms] by (metis nth_mem)
  next
    case False
    then have "takeWhile (\<lambda>b. b \<noteq> c) ts = ts" by (auto simp: takeWhile_eq_all_conv)
    then have "?k = length ts" by (simp only:)
    then show ?thesis using False cstr_end [OF assms] by simp
  qed
  ultimately show ?thesis by blast
qed

lemma strspn_loop_cstr:
  "cstr m s ts \<Longrightarrow> cstr m (p + i) bs \<Longrightarrow>
   strspn_loop m p s i = Some (i + of_nat (length (takeWhile (\<lambda>b. b \<in> set ts) bs)))"
proof (induction bs arbitrary: i)
  case Nil
  then show ?case by (subst strspn_loop.simps) simp
next
  case (Cons b bs)
  obtain j where j: "set_scan m s b 0 = Some j" "m (s + j) = 0 \<longleftrightarrow> b \<notin> set ts"
    using set_scan_found [OF Cons.prems(1)] by blast
  have c: "cstr m (p + (i + 1)) bs" using Cons.prems(2) by (simp add: add.assoc)
  show ?case
    using Cons.prems j Cons.IH [OF Cons.prems(1) c]
    by (subst strspn_loop.simps) (auto simp: add.assoc)
qed

lemma strcspn_loop_cstr:
  "cstr m s ts \<Longrightarrow> cstr m (p + i) bs \<Longrightarrow>
   strcspn_loop m p s i = Some (i + of_nat (length (takeWhile (\<lambda>b. b \<notin> set ts) bs)))"
proof (induction bs arbitrary: i)
  case Nil
  then show ?case by (subst strcspn_loop.simps) simp
next
  case (Cons b bs)
  obtain j where j: "set_scan m s b 0 = Some j" "m (s + j) = 0 \<longleftrightarrow> b \<notin> set ts"
    using set_scan_found [OF Cons.prems(1)] by blast
  have c: "cstr m (p + (i + 1)) bs" using Cons.prems(2) by (simp add: add.assoc)
  show ?case
    using Cons.prems j Cons.IH [OF Cons.prems(1) c]
    by (subst strcspn_loop.simps) (auto simp: add.assoc)
qed

lemma strspn_cstr:
  "cstr m s ts \<Longrightarrow> cstr m p bs \<Longrightarrow>
   strspn m p s = Some (of_nat (length (takeWhile (\<lambda>b. b \<in> set ts) bs)))"
  by (simp add: strspn_def strspn_loop_cstr)

lemma strcspn_cstr:
  "cstr m s ts \<Longrightarrow> cstr m p bs \<Longrightarrow>
   strcspn m p s = Some (of_nat (length (takeWhile (\<lambda>b. b \<notin> set ts) bs)))"
  by (simp add: strcspn_def strcspn_loop_cstr)

text \<open>The pieces \<open>strtok\<close> cuts a string into: separators, one token, the rest.\<close>

lemma strtok_token:
  assumes t: "cstr m tok ts" and c: "cstr m q bs"
    and q: "q = (if p \<noteq> 0 then p else t)"
    and tokn: "w = takeWhile (\<lambda>b. b \<notin> set ts) (dropWhile (\<lambda>b. b \<in> set ts) bs)" and ne: "w \<noteq> []"
    and pre: "k = length (takeWhile (\<lambda>b. b \<in> set ts) bs)"
    and rest: "rs = drop (k + length w) bs"
  shows "strtok m t p tok = Some
    (if rs = [] then (m, q + of_nat (k + length w), q + of_nat k)
     else (m(q + of_nat (k + length w) := 0), q + of_nat (k + length w) + 1, q + of_nat k))"
proof -
  let ?r = "q + of_nat k"
  have kd: "dropWhile (\<lambda>b. b \<in> set ts) bs = drop k bs"
    by (simp add: pre dropWhile_eq_drop)
  have kl: "k \<le> length bs" by (simp add: pre length_takeWhile_le)
  have cr: "cstr m ?r (drop k bs)" using c kl by (rule cstr_drop)
  have wl: "length w \<le> length (drop k bs)" unfolding tokn kd by (rule length_takeWhile_le)
  have ce: "cstr m (?r + of_nat (length w)) rs"
    using cstr_drop [OF cr wl] by (simp add: rest add.commute)
  have nz: "(of_nat (length w) :: u32) \<noteq> 0"
    using ne wl cstr_length_bound [OF c] by (simp add: of_nat_eq_0_iff32)
  have e: "m (?r + of_nat (length w)) = 0 \<longleftrightarrow> rs = []"
    using ce by (cases rs) auto
  have "strspn m q tok = Some (of_nat k)"
    using strspn_cstr [OF t c] by (simp add: pre)
  moreover have "strcspn m ?r tok = Some (of_nat (length w))"
    using strcspn_cstr [OF t cr] by (simp add: tokn kd)
  ultimately show ?thesis
    using nz e by (simp add: strtok_def Let_def flip: q) (auto simp: add.assoc)
qed

lemma strtok_end:
  assumes t: "cstr m tok ts" and c: "cstr m q bs" and q: "q = (if p \<noteq> 0 then p else t)"
    and all: "set bs \<subseteq> set ts"
  shows "strtok m t p tok = Some (m, q, 0)"
proof -
  have tw: "takeWhile (\<lambda>b. b \<in> set ts) bs = bs" using all by (auto simp: takeWhile_eq_all_conv)
  have ce: "cstr m (q + of_nat (length bs)) []" using cstr_drop [OF c, of "length bs"] by simp
  have "strspn m q tok = Some (of_nat (length bs))"
    using strspn_cstr [OF t c] by (simp add: tw)
  moreover have "strcspn m (q + of_nat (length bs)) tok = Some 0"
    using strcspn_cstr [OF t ce] by simp
  ultimately show ?thesis by (simp add: strtok_def Let_def flip: q)
qed

text \<open>\<open>strichr\<close> shifts the string up by one and puts the character in front.\<close>

lemma strichr_shift_eq:
  "unat p + n < 4294967295 \<Longrightarrow> p \<noteq> 0 \<Longrightarrow>
   strichr_shift m p (p + of_nat n - 1) = Some (write_bytes m (p + 1) (read_bytes m p n))"
proof (induction n arbitrary: m)
  case 0
  have "\<not> p \<le> p - 1" using 0 by (simp add: word_le_nat_alt unat_minus_one_nz unat_gt_0 not_le)
  then show ?case by (subst strichr_shift.simps) simp
next
  case (Suc n)
  let ?v = "m (p + of_nat n)"
  let ?m = "m(p + 1 + of_nat n := ?v)"
  have t: "p + of_nat (Suc n) - 1 = p + of_nat n" by (simp add: algebra_simps)
  have off: "unat (p + of_nat n) = unat p + n" using Suc.prems by (intro addr_offset [of _ "Suc n"]) auto
  then have ge: "p \<le> p + of_nat n" by (simp add: word_le_nat_alt)
  have "strichr_shift m p (p + of_nat (Suc n) - 1) = strichr_shift ?m p (p + of_nat n - 1)"
    unfolding t using ge by (subst strichr_shift.simps) (simp add: algebra_simps)
  also have "\<dots> = Some (write_bytes ?m (p + 1) (read_bytes ?m p n))"
    using Suc.prems by (intro Suc.IH) auto
  also have "read_bytes ?m p n = read_bytes m p n"
  proof (rule read_bytes_upd_other)
    fix j assume j: "j < n"
    have "unat (p + of_nat j) = unat p + j" "unat (p + of_nat (Suc n)) = unat p + Suc n"
      using Suc.prems j by (intro addr_offset [of _ "Suc (Suc n)"]; simp)+
    then show "p + 1 + of_nat n \<noteq> p + of_nat j" using j by (auto simp: add.assoc)
  qed
  also have "write_bytes ?m (p + 1) (read_bytes m p n) = (write_bytes m (p + 1) (read_bytes m p n))(p + 1 + of_nat n := ?v)"
    using Suc.prems by (intro write_bytes_upd) (auto simp: not_in_block_end)
  also have "\<dots> = write_bytes m (p + 1) (read_bytes m p (Suc n))"
    using read_bytes_append [of m p n 1] by (simp add: write_bytes_append)
  finally show ?case .
qed

lemma strichr_cstr:
  assumes c: "cstr m p bs" and p: "p \<noteq> 0" and l: "unat p + length bs + 1 < 4294967295"
  shows "strichr m p ch = Some (write_bytes m p (ch # bs @ [0]), p)"
proof -
  have r: "read_bytes m p (Suc (length bs)) = bs @ [0]" using c by (simp add: cstr_iff)
  have "strichr_shift m p (p + of_nat (Suc (length bs)) - 1) = Some (write_bytes m (p + 1) (bs @ [0]))"
    using strichr_shift_eq [of p "Suc (length bs)" m] p l by (simp add: r del: read_bytes.simps of_nat_Suc)
  then have s: "strichr_shift m p (p + of_nat (length bs)) = Some (write_bytes m (p + 1) (bs @ [0]))"
    by (simp add: algebra_simps)
  have "\<not> in_block p (p + 1) (length (bs @ [0]))"
    using l by (simp add: in_block_def unsigned_minus_1_eq_mask mask_eq_exp_minus_1)
  then have "(write_bytes m (p + 1) (bs @ [0]))(p := ch) = write_bytes m p (ch # bs @ [0])"
    using l by (simp add: write_bytes_upd [symmetric] del: write_bytes.simps fun_upd_apply)
       (simp add: write_bytes_upd del: fun_upd_apply)
  then show ?thesis using p s by (simp add: strichr_def strend_cstr [OF c])
qed

section \<open>Blocks\<close>

lemma lib_memcpy_eq:
  assumes s: "unat src + unat n \<le> 4294967296" and d: "unat dst + unat n \<le> 4294967296"
  shows "lib_memcpy m dst src n = (write_bytes m dst (read_bytes m src (unat n)), dst)"
proof -
  have off: "\<And>i. i < unat n \<Longrightarrow> unat (dst + of_nat i) = unat dst + i"
    "\<And>i. i < unat n \<Longrightarrow> unat (src + of_nat i) = unat src + i"
    using addr_offset [OF d] addr_offset [OF s] by auto
  show ?thesis
  proof (cases "src < dst")
    case True
    have "bwd_ok dst src (unat n)"
      unfolding bwd_ok_def
    proof (intro allI impI notI)
      fix i j :: nat
      assume ij: "j < i" "i < unat n" and eq: "dst + of_nat i = src + of_nat j"
      have "unat dst + i = unat src + j" using off(1) [of i] off(2) [of j] ij eq by simp
      with True ij show False by (simp add: word_less_nat_alt)
    qed
    with True show ?thesis by (simp add: lib_memcpy_def copy_down_eq)
  next
    case False
    have "fwd_ok dst src (unat n)"
      unfolding fwd_ok_def
    proof (intro allI impI notI)
      fix i j :: nat
      assume ij: "i < j" "j < unat n" and eq: "dst + of_nat i = src + of_nat j"
      have "unat dst + i = unat src + j" using off(1) [of i] off(2) [of j] ij eq by simp
      with False ij show False by (simp add: word_less_nat_alt)
    qed
    with False show ?thesis by (simp add: lib_memcpy_def copy_up_eq)
  qed
qed

interpretation lmcpy: block_copy lib_memcpy
  by unfold_locales
     (simp add: lib_memcpy_def copy_down_eq copy_up_eq apart_fwd_ok apart_bwd_ok word_unat_bound)

text \<open>Truncated to a signed byte, a difference of bytes is still 0 only for equal bytes.\<close>

lemma lib_memcmp_eq_0:
  "lib_memcmp m cs ct n = 0 \<longleftrightarrow> read_bytes m cs (nat n) = read_bytes m ct (nat n)"
proof (induction m cs ct n rule: lib_memcmp.induct)
  case (1 m cs ct n)
  show ?case
  proof (cases "0 < n")
    case True
    then have u: "nat n = Suc (nat (n - 1))" by simp
    have z: "sint (word_of_int (uint (m cs) - uint (m ct)) :: u8) = 0 \<longleftrightarrow> m cs = m ct"
    proof -
      have "(word_of_int (uint (m cs) - uint (m ct)) :: u8) = m cs - m ct"
        by simp
      then show ?thesis by (simp only: signed_eq_0_iff) simp
    qed
    show ?thesis
      using True "1.IH" [OF True refl] z u
      by (cases "m cs = m ct") (simp_all add: lib_memcmp.simps [of m cs ct n] Let_def)
  next
    case False
    then show ?thesis by (simp add: lib_memcmp.simps [of m cs ct n])
  qed
qed


section \<open>Numbers\<close>

text \<open>\<^verbatim>\<open>isdigit(c) ? c-'0' : isalpha(c) ? c-(isupper(c)?'A':'a')+10 : break\<close>.\<close>

definition strtoul_digit :: "int \<Rightarrow> int option" where
  "strtoul_digit c =
     (if c \<ge> 48 \<and> c \<le> 57 then Some (c - 48)
      else if (c \<ge> 65 \<and> c \<le> 90) \<or> (c \<ge> 97 \<and> c \<le> 122)
        then Some (c - (if c \<ge> 65 \<and> c \<le> 90 then 65 else 97) + 10)
      else None)"

partial_function (option) strtoul_space :: "mem \<Rightarrow> addr \<Rightarrow> addr option" where
  "strtoul_space m p = (if m p \<noteq> 0 \<and> m p = 0x20 then strtoul_space m (p + 1) else Some p)"

declare strtoul_space.simps [code]

text \<open>One digit: the new \<open>result\<close> and \<open>overflow\<close>.\<close>

definition strtoul_step :: "int \<Rightarrow> u32 \<Rightarrow> int \<Rightarrow> u32 \<times> bool \<Rightarrow> u32 \<times> bool" where
  "strtoul_step base limit digit ro =
     (let (result, overflow) = ro;
          overflow1 = (overflow \<or> result > limit)
      in if overflow1 then (result, True)
         else let result1 = word_of_int base * result
              in if word_of_int digit > 0xFFFFFFFF - result1 then (result1, True)
                 else (result1 + word_of_int digit, False))"

partial_function (option) strtoul_loop ::
  "mem \<Rightarrow> int \<Rightarrow> u32 \<Rightarrow> addr \<Rightarrow> u32 \<times> bool \<Rightarrow> (addr \<times> u32 \<times> bool) option" where
  "strtoul_loop m base limit p ro =
     (if m p = 0 then Some (p, ro)
      else case strtoul_digit (schar (m p)) of
        None \<Rightarrow> Some (p, ro)
      | Some digit \<Rightarrow>
          if digit < 0 \<or> digit \<ge> base then Some (p, ro)
          else strtoul_loop m base limit (p + 1) (strtoul_step base limit digit ro))"

declare strtoul_loop.simps [code]

text \<open>The base and the pointer after the prefix.  For base 16 the second test is
  \<^verbatim>\<open>(c = *nptr == 'x') || c == 'X'\<close>: \<open>c\<close> is the truth value of the comparison.\<close>

definition strtoul_prefix :: "mem \<Rightarrow> int \<Rightarrow> addr \<Rightarrow> int \<times> addr" where
  "strtoul_prefix m base p =
     (if base = 0
      then (if m p = 48
            then (if m (p + 1) = 120 \<or> m (p + 1) = 88 then (16, p + 2) else (8, p + 1))
            else (10, p))
      else if base = 16 \<and> m p = 48
        then (let c = (if m (p + 1) = 120 then 1 else 0 :: int)
              in if c \<noteq> 0 \<or> c = 88 then (base, p + 2) else (base, p + 1))
      else (base, p))"

definition strtoul :: "mem \<Rightarrow> addr \<Rightarrow> addr \<Rightarrow> int \<Rightarrow> (mem \<times> u32) option" where
  "strtoul m nptr endptr base0 =
     do { p \<leftarrow> strtoul_space m nptr;
          let negative = (m p = 45);
          let p1 = (if m p = 43 \<or> m p = 45 then p + 1 else p);
          let (base, p2) = strtoul_prefix m base0 p1;
          (p3, result, overflow) \<leftarrow> strtoul_loop m base (0xFFFFFFFF div word_of_int base) p2 (0, False);
          let result1 = (if negative \<and> \<not> overflow then 0 - result else result);
          let result2 = (if overflow then 0xFFFFFFFF else result1);
          Some (if endptr \<noteq> 0 then st32 m endptr p3 else m, result2) }"

text \<open>The digits' value, and what 32 bits keep of it.\<close>

definition digits_val :: "nat \<Rightarrow> int list \<Rightarrow> nat" where
  "digits_val b ds = foldl (\<lambda>v d. v * b + nat d) 0 ds"

definition ul_rep :: "nat \<Rightarrow> u32 \<times> bool \<Rightarrow> bool" where
  "ul_rep v ro \<longleftrightarrow> (if snd ro then v \<ge> 4294967296 else v < 4294967296 \<and> unat (fst ro) = v)"

lemma strtoul_step_rep:
  assumes r: "ul_rep v ro" and b: "0 < b" "b \<le> 36" and d: "0 \<le> d" "d < int b"
  shows "ul_rep (v * b + nat d) (strtoul_step (int b) (0xFFFFFFFF div of_nat b) d ro)"
proof -
  obtain result overflow where ro: "ro = (result, overflow)" by (cases ro)
  have ub: "unat (of_nat b :: u32) = b" using b by (simp add: unat_of_nat32)
  have ul: "unat (0xFFFFFFFF div of_nat b :: u32) = 4294967295 div b"
    by (simp add: unat_div ub)
  have "(word_of_int d :: u32) = of_nat (nat d)" using d by simp
  also have "unat \<dots> = nat d" by (rule unat_of_nat32) (use b d in simp)
  finally have ud: "unat (word_of_int d :: u32) = nat d" .
  show ?thesis
  proof (cases overflow)
    case True
    then have "4294967296 \<le> v" using r ro by (simp add: ul_rep_def)
    then have "4294967296 \<le> v * b + nat d" using mult_le_mono2 [of 1 b v] b(1) by linarith
    with True ro show ?thesis by (simp add: strtoul_step_def ul_rep_def Let_def)
  next
    case False
    then have v: "v < 4294967296" "unat result = v" using r ro by (simp_all add: ul_rep_def)
    have lim: "result > 0xFFFFFFFF div of_nat b \<longleftrightarrow> 4294967296 \<le> v * b"
    proof -
      have "result > 0xFFFFFFFF div of_nat b \<longleftrightarrow> 4294967295 div b < v"
        by (simp only: word_less_nat_alt ul v)
      also have "\<dots> \<longleftrightarrow> 4294967295 < v * b"
        using b by (simp add: div_less_iff_less_mult)
      finally show ?thesis by auto
    qed
    show ?thesis
    proof (cases "4294967296 \<le> v * b")
      case True
      with lim False ro show ?thesis by (auto simp: strtoul_step_def ul_rep_def Let_def)
    next
      case nolim: False
      let ?r = "of_nat b * result"
      have ur: "unat ?r = v * b"
        using nolim v by (simp add: unat_word_ariths ub mult.commute)
      have "?r \<le> 0xFFFFFFFF" using nolim ur by (simp only: word_le_nat_alt) simp
      then have "unat (0xFFFFFFFF - ?r) = unat (0xFFFFFFFF :: u32) - unat ?r"
        by (rule unat_sub)
      then have us: "unat (0xFFFFFFFF - ?r) = 4294967295 - v * b"
        by (simp only: ur) simp
      then have over: "(word_of_int d > 0xFFFFFFFF - ?r) \<longleftrightarrow> 4294967296 \<le> v * b + nat d"
        unfolding word_less_nat_alt us ud using nolim by arith
      show ?thesis
      proof (cases "4294967296 \<le> v * b + nat d")
        case True
        with lim nolim over False ro show ?thesis
          by (simp add: strtoul_step_def ul_rep_def Let_def)
      next
        case noover: False
        then have "unat (?r + word_of_int d) = v * b + nat d"
          by (simp only: unat_word_ariths(1) ur ud) simp
        with lim nolim over noover False ro show ?thesis
          by (simp add: strtoul_step_def ul_rep_def Let_def)
      qed
    qed
  qed
qed

lemma strtoul_loop_digits:
  assumes b: "0 < b" "b \<le> 36"
  shows "cstr m p (ds @ rs) \<Longrightarrow>
    list_all2 (\<lambda>c d. strtoul_digit (schar c) = Some d \<and> 0 \<le> d \<and> d < int b) ds vs \<Longrightarrow>
    (rs = [] \<or> strtoul_digit (schar (hd rs)) = None) \<Longrightarrow> ul_rep v ro \<Longrightarrow>
    \<exists>ro'. strtoul_loop m (int b) (0xFFFFFFFF div of_nat b) p ro = Some (p + of_nat (length ds), ro')
        \<and> ul_rep (foldl (\<lambda>v d. v * b + nat d) v vs) ro'"
proof (induction ds arbitrary: p ro v vs)
  case Nil
  then show ?case by (cases rs) (simp_all add: strtoul_loop.simps [of m _ _ p])
next
  case (Cons c ds)
  then obtain d vs' where vs: "vs = d # vs'" "strtoul_digit (schar c) = Some d" "0 \<le> d" "d < int b"
    "list_all2 (\<lambda>c d. strtoul_digit (schar c) = Some d \<and> 0 \<le> d \<and> d < int b) ds vs'"
    by (auto simp: list_all2_Cons1)
  have c: "m p = c" "c \<noteq> 0" "cstr m (p + 1) (ds @ rs)" using Cons.prems(1) by auto
  let ?ro = "strtoul_step (int b) (0xFFFFFFFF div of_nat b) d ro"
  obtain ro' where ro': "strtoul_loop m (int b) (0xFFFFFFFF div of_nat b) (p + 1) ?ro
      = Some (p + 1 + of_nat (length ds), ro')"
    "ul_rep (foldl (\<lambda>v d. v * b + nat d) (v * b + nat d) vs') ro'"
    using Cons.IH [OF c(3) vs(5) Cons.prems(3) strtoul_step_rep [OF Cons.prems(4) b vs(3,4)]] by blast
  have "strtoul_loop m (int b) (0xFFFFFFFF div of_nat b) p ro
      = strtoul_loop m (int b) (0xFFFFFFFF div of_nat b) (p + 1) ?ro"
    using c vs by (subst strtoul_loop.simps) simp
  with ro' vs show ?case by (auto simp: add.assoc)
qed

lemma strtoul_digits:
  assumes b: "2 \<le> b" "b \<le> 36" "b \<noteq> 16"
    and c: "cstr m p (ds @ rs)" and ne: "ds \<noteq> []"
    and ds: "list_all2 (\<lambda>c d. strtoul_digit (schar c) = Some d \<and> 0 \<le> d \<and> d < int b) ds vs"
    and rs: "rs = [] \<or> strtoul_digit (schar (hd rs)) = None"
  shows "strtoul m p e (int b) = Some
    (if e \<noteq> 0 then st32 m e (p + of_nat (length ds)) else m,
     if digits_val b vs < 4294967296 then of_nat (digits_val b vs) else 0xFFFFFFFF)"
proof -
  have b': "0 < b" using b by simp
  have "ul_rep 0 (0, False)" by (simp add: ul_rep_def)
  then obtain ro where ro: "strtoul_loop m (int b) (0xFFFFFFFF div of_nat b) p (0, False)
      = Some (p + of_nat (length ds), ro)" "ul_rep (digits_val b vs) ro"
    using strtoul_loop_digits [OF b' b(2) c ds rs] unfolding digits_val_def by blast
  obtain c0 ds' where d0: "ds = c0 # ds'" using ne by (cases ds) auto
  then obtain v0 where "strtoul_digit (schar c0) = Some v0" using ds by (auto simp: list_all2_Cons1)
  then have nc: "c0 \<noteq> 0x20" "c0 \<noteq> 43" "c0 \<noteq> 45" by (auto simp: strtoul_digit_def split: if_splits)
  have mp: "m p = c0" using c d0 by simp
  have sp: "strtoul_space m p = Some p" using nc mp by (subst strtoul_space.simps) simp
  have px: "strtoul_prefix m (int b) p = (int b, p)" using b by (simp add: strtoul_prefix_def)
  have "fst ro = of_nat (digits_val b vs)" if "\<not> snd ro"
  proof -
    have u: "unat (fst ro) = digits_val b vs" using ro(2) that by (simp add: ul_rep_def)
    show ?thesis by (simp flip: u)
  qed
  with ro show ?thesis
    using sp px nc mp by (auto simp: strtoul_def ul_rep_def Let_def split: prod.splits if_splits)
qed


end
