(* ===== verification/Console.thy ===== *)
theory Console
  imports Libstr
begin

text \<open>
  The console output of \<^verbatim>\<open>lib/putchar.c\<close>, \<open>puts.c\<close>, \<open>printbase.c\<close>, \<open>printhex.c\<close> and
  \<open>printf.c\<close>.  \<open>tgt_putchar\<close> stores the low byte of its argument to the UART; a function that
  prints is modelled by the list of bytes it stores there.  String literals are lists of bytes
  (\<open>ascii\<close>); a \<open>%s\<close> argument is a pointer into memory.  The variable arguments are the list of
  their words, and \<open>None\<close> stands for not returning or for reading past the arguments or past the
  end of the format.
\<close>

unbundle bit_operations_syntax

definition ascii :: "string \<Rightarrow> u8 list" where
  "ascii s = map of_char s"

section \<open>Characters and strings\<close>

definition putchar :: "int \<Rightarrow> u8 list" where
  "putchar c = [word_of_int c]"

partial_function (option) putstring :: "mem \<Rightarrow> addr \<Rightarrow> u8 list option" where
  "putstring m s =
     (let c = m s
      in if c \<noteq> 0
         then do { r \<leftarrow> putstring m (s + 1);
                   Some ((if c = 10 then putchar 13 else []) @ putchar (schar c) @ r) }
         else Some [])"

declare putstring.simps [code]

definition puts :: "mem \<Rightarrow> addr \<Rightarrow> u8 list option" where
  "puts m s = do { r \<leftarrow> putstring m s; Some (r @ putchar 13 @ putchar 10) }"

section \<open>Numbers\<close>

text \<open>The digits of a number, least significant first: \<open>buf\<close> of \<open>printbase\<close>.\<close>

partial_function (option) pb_digits :: "u32 \<Rightarrow> u32 \<Rightarrow> u8 list option" where
  "pb_digits value base =
     (if value \<noteq> 0 then do { buf \<leftarrow> pb_digits (value div base) base; Some (ucast (value mod base) # buf) }
      else Some [])"

declare pb_digits.simps [code]

definition digit_char :: "int \<Rightarrow> int" where
  "digit_char c = (if c \<le> 9 then c + 48 else c - 0xa + 97)"

text \<open>Division by zero has no result; with base 1 the loop does not end.\<close>

definition printbase :: "u32 \<Rightarrow> int \<Rightarrow> u32 \<Rightarrow> bool \<Rightarrow> u8 list option" where
  "printbase v w base sign =
     (let neg = sign \<and> v <s 0;
          value = (if neg then - v else v)
      in if base = 0 \<and> value \<noteq> 0 then None
         else do {
           buf \<leftarrow> pb_digits value base;
           let i = length buf;
           Some ((if neg then putchar 45 else []) @
             concat (map (\<lambda>j. putchar (digit_char (if j > i then 0 else schar (buf ! (j - 1)))))
               (rev [1..<Suc (max (nat w) i)]))) })"

text \<open>A shift by 32 or more has no defined result.\<close>

definition printhex :: "u32 \<Rightarrow> int \<Rightarrow> u8 list option" where
  "printhex v w =
     (if w > 8 then None
      else Some (concat (map (\<lambda>k. putchar (digit_char (sint (signed_drop_bit (4 * k) v AND 0xf))))
        (rev [0..<nat w]))))"

section \<open>printf\<close>

definition fmt_at :: "u8 list \<Rightarrow> nat \<Rightarrow> u8" where
  "fmt_at fmt i = (if i < length fmt then fmt ! i else 0)"

text \<open>The width: digits other than \<open>0\<close> from \<open>fmt[i + 1]\<close> on.\<close>

function pf_width :: "u8 list \<Rightarrow> nat \<Rightarrow> int \<Rightarrow> nat \<times> int" where
  "pf_width fmt i w =
     (let c = schar (fmt_at fmt (i + 1))
      in if c > 48 \<and> c \<le> 57 then pf_width fmt (i + 1) (w * 10 + (c - 48)) else (i, w))"
  by pat_completeness auto
termination
  by (relation "measure (\<lambda>(fmt, i, w). length fmt - i)") (auto simp: fmt_at_def split: if_splits)

declare pf_width.simps [simp del]

lemma pf_width_ge: "i \<le> fst (pf_width fmt i w)"
proof (induction fmt i w rule: pf_width.induct)
  case (1 fmt i w)
  then show ?case by (subst pf_width.simps) (auto simp: Let_def)
qed

lemma pf_width_gt: "49 \<le> schar (fmt_at fmt (i + 1)) \<Longrightarrow> schar (fmt_at fmt (i + 1)) \<le> 57 \<Longrightarrow>
   i < fst (pf_width fmt i w)"
  using pf_width_ge [of "i + 1" fmt "w * 10 + (schar (fmt_at fmt (i + 1)) - 48)"]
  by (subst pf_width.simps) (auto simp: Let_def)

text \<open>From the label \<open>again\<close> to the conversion character.\<close>

function pf_again :: "u8 list \<Rightarrow> nat \<Rightarrow> int \<Rightarrow> nat \<times> int" where
  "pf_again fmt i w =
     (let c = fmt_at fmt (i + 1)
      in if c = 48 then let (i', w') = pf_width fmt (i + 1) 0 in pf_again fmt i' w'
         else if 49 \<le> schar c \<and> schar c \<le> 57 then let (i', w') = pf_width fmt i 0 in pf_again fmt i' w'
         else (i, w))"
  by pat_completeness auto

termination
proof (relation "measure (\<lambda>(fmt, i, w). length fmt - i)", goal_cases)
  case (2 fmt i w c p i' w')
  from 2(3,4) have "i' = fst (pf_width fmt (i + 1) 0)" by (metis fst_conv)
  with 2(1,2) have "i + 1 \<le> i'" "i + 1 < length fmt"
    using pf_width_ge [of "i + 1" fmt 0] by (auto simp: fmt_at_def split: if_splits)
  then show ?case by simp
next
  case (3 fmt i w c p i' w')
  from 3(4,5) have "i' = fst (pf_width fmt i 0)" by (metis fst_conv)
  with 3(1,3) have "i < i'" "i + 1 < length fmt"
    using pf_width_gt [of fmt i 0] by (auto simp: fmt_at_def split: if_splits)
  then show ?case by simp
qed simp

declare pf_again.simps [simp del]

lemma pf_again_ge: "i \<le> fst (pf_again fmt i w)"
proof (induction fmt i w rule: pf_again.induct)
  case (1 fmt i w)
  show ?case
    using 1 pf_width_ge [of "i + 1" fmt 0] pf_width_ge [of i fmt 0]
    by (subst pf_again.simps) (fastforce simp: Let_def split: prod.splits)
qed

text \<open>The conversions that take an argument: \<open>%s\<close>, \<open>%c\<close> and the numbers.\<close>

definition pf_arg :: "mem \<Rightarrow> u8 \<Rightarrow> int \<Rightarrow> u32 \<Rightarrow> u8 list option" where
  "pf_arg m d w arg =
     (if d = of_char CHR ''s'' then putstring m arg
      else if d = of_char CHR ''c'' then Some (putchar (sint arg))
      else if d = of_char CHR ''u'' then printbase arg w 10 False
      else if d = of_char CHR ''d'' then printbase arg w 10 True
      else if d = of_char CHR ''l'' then printbase arg w 10 False
      else if d = of_char CHR ''o'' then printbase arg w 8 False
      else if d = of_char CHR ''b'' then printbase arg w 2 False
      else printbase arg w 16 False)"

function printf_loop :: "mem \<Rightarrow> u8 list \<Rightarrow> nat \<Rightarrow> u32 list \<Rightarrow> u8 list option" where
  "printf_loop m fmt i args =
     (if length fmt < i then None
      else let c = fmt_at fmt i
      in if c = 0 then Some []
      else if c = of_char CHR ''%''
      then let (i', w) = pf_again fmt i 1; d = fmt_at fmt (i' + 1)
        in if d \<in> set (ascii ''scudlobpx'')
           then (case args of
               [] \<Rightarrow> None
             | arg # args' \<Rightarrow> do {
                 out \<leftarrow> pf_arg m d w arg;
                 r \<leftarrow> printf_loop m fmt ((if d = of_char CHR ''l'' then i' + 2 else i' + 1) + 1) args';
                 Some (out @ r) })
           else do {
             r \<leftarrow> printf_loop m fmt ((if d = of_char CHR ''%'' then i' + 1 else i') + 1) args;
             Some (putchar 37 @ r) }
      else do {
        r \<leftarrow> printf_loop m fmt (i + 1) args;
        Some ((if c = 10 then putchar 13 else []) @ putchar (schar c) @ r) })"
  by pat_completeness auto
termination
proof (relation "measure (\<lambda>(m, fmt, i, args). Suc (length fmt) - i)", goal_cases)
  case (2 m fmt i args c p i' w d arg args' out)
  from 2(5,6) have "i' = fst (pf_again fmt i 1)" by (metis fst_conv)
  with 2(1) show ?case using pf_again_ge [of i fmt 1] by auto
next
  case (3 m fmt i args c p i' w d)
  from 3(5,6) have "i' = fst (pf_again fmt i 1)" by (metis fst_conv)
  with 3(1) show ?case using pf_again_ge [of i fmt 1] by auto
qed auto

declare printf_loop.simps [simp del]

definition printf :: "mem \<Rightarrow> string \<Rightarrow> u32 list \<Rightarrow> u8 list option" where
  "printf m fmt args = printf_loop m (ascii fmt) 0 args"

lemmas console_unroll [unroll] = putstring.simps pb_digits.simps pf_width.simps pf_again.simps
  printf_loop.simps

section \<open>Numbers are printed with all their digits\<close>

definition low_first :: "nat \<Rightarrow> u8 list \<Rightarrow> nat" where
  "low_first b ds = foldr (\<lambda>d n. unat d + b * n) ds 0"

lemma pb_digits_correct:
  assumes b: "2 \<le> unat base" "unat base \<le> 128"
  shows "unat v < 2 ^ k \<Longrightarrow> \<exists>ds. pb_digits v base = Some ds \<and> length ds \<le> k \<and>
    (\<forall>d\<in>set ds. unat d < unat base) \<and> low_first (unat base) ds = unat v \<and> (v \<noteq> 0 \<longrightarrow> ds \<noteq> [])"
proof (induction k arbitrary: v)
  case 0
  then have "v = 0" by (simp add: unat_eq_zero)
  then show ?case by (simp add: pb_digits.simps [of 0] low_first_def)
next
  case (Suc k)
  show ?case
  proof (cases "v = 0")
    case True
    then show ?thesis by (simp add: pb_digits.simps [of 0] low_first_def)
  next
    case False
    have "unat v div unat base \<le> unat v div 2" using b(1) by (intro div_le_mono2) simp_all
    then have "unat (v div base) < 2 ^ k" using Suc.prems by (simp add: unat_div)
    from Suc.IH [OF this] obtain ds where ds: "pb_digits (v div base) base = Some ds" "length ds \<le> k"
      "\<forall>d\<in>set ds. unat d < unat base" "low_first (unat base) ds = unat (v div base)" by blast
    have m: "unat v mod unat base < unat base" using b(1) by simp
    have d: "unat (ucast (v mod base) :: u8) = unat v mod unat base"
      using m b(2) by (simp add: unsigned_ucast_eq unat_mod take_bit_nat_eq_self)
    have "pb_digits v base = Some (ucast (v mod base) # ds)"
      using False ds(1) by (subst pb_digits.simps) simp
    moreover have "low_first (unat base) (ucast (v mod base) # ds) = unat v"
      using ds(4) d by (simp add: low_first_def unat_div)
    ultimately show ?thesis using ds(2,3) d m by auto
  qed
qed

definition digit_byte :: "u8 \<Rightarrow> u8" where
  "digit_byte d = word_of_int (digit_char (schar d))"

lemma uint_less: "unat d < k \<Longrightarrow> uint d < int k" for d :: "'a::len word"
  by (simp only: uint_nat of_nat_less_iff)

lemma schar_small: "unat d < 128 \<Longrightarrow> schar d = uchar d" for d :: u8
proof -
  assume "unat d < 128"
  from uint_less [OF this] have "uint d < 2 ^ 7" by simp
  then show ?thesis
    by (simp add: sint_uint signed_take_bit_eq_if_positive bit_iff_odd take_bit_int_eq_self)
qed

lemma schar_word_of_int: "0 \<le> c \<Longrightarrow> c < 128 \<Longrightarrow> schar (word_of_int c :: u8) = c"
  by (simp add: int_word_sint)

lemma digit_byte_read:
  assumes "unat d < 36"
  shows "strtoul_digit (schar (digit_byte d)) = Some (uchar d)"
proof -
  define c where "c = uchar d"
  have c: "schar d = c" "0 \<le> c" "c < 36"
    using assms uint_less [OF assms] by (simp_all add: schar_small c_def)
  have "schar (digit_byte d) = digit_char c"
    unfolding digit_byte_def c(1) using c(2,3) by (intro schar_word_of_int) (simp_all add: digit_char_def)
  then show ?thesis unfolding c_def [symmetric] using c(2,3) by (simp add: digit_char_def strtoul_digit_def)
qed

lemma digit_byte_nz: "unat d < 36 \<Longrightarrow> digit_byte d \<noteq> 0"
  using digit_byte_read [of d] by (auto simp: strtoul_digit_def)

lemma padded_digits:
  "map (\<lambda>j. if j > length buf then 0 else schar (buf ! (j - 1))) (rev [1..<Suc (max n (length buf))]) =
   map schar (rev (buf @ replicate (n - length buf) 0))"
  unfolding rev_map [symmetric]
  by (rule arg_cong [of _ _ rev], rule nth_equalityI)
     (auto simp: nth_append less_diff_conv simp del: upt_Suc)

lemma printbase_unsigned:
  assumes b: "2 \<le> unat base" "unat base \<le> 36"
  shows "\<exists>ds. printbase v w base False = Some (map digit_byte (rev ds)) \<and>
    (\<forall>d\<in>set ds. unat d < unat base) \<and> low_first (unat base) ds = unat v \<and>
    nat w \<le> length ds \<and> length ds \<le> max 32 (nat w) \<and> (v \<noteq> 0 \<or> 0 < w \<longrightarrow> ds \<noteq> [])"
proof -
  have "unat v < 2 ^ 32" using unsigned_less [of v, where 'a = nat] by simp
  then obtain buf where buf: "pb_digits v base = Some buf" "length buf \<le> 32" "\<forall>d\<in>set buf. unat d < unat base"
      "low_first (unat base) buf = unat v" "v \<noteq> 0 \<longrightarrow> buf \<noteq> []"
    using pb_digits_correct [of base v 32] b by auto
  have nz: "base \<noteq> 0" using b by auto
  define ds where "ds = buf @ replicate (nat w - length buf) 0"
  have z: "foldr (\<lambda>d n. unat d + b * n) (replicate k 0) 0 = 0" for k b
    by (induction k) simp_all
  have "low_first (unat base) ds = unat v"
    using buf(4) unfolding low_first_def ds_def foldr_append z .
  moreover have "printbase v w base False = Some (map digit_byte (rev ds))"
  proof -
    define L where "L = rev [1..<Suc (max (nat w) (length buf))]"
    define h where "h = (\<lambda>j. if j > length buf then 0 else schar (buf ! (j - 1)))"
    have "map h L = map schar (rev ds)" unfolding h_def L_def ds_def by (rule padded_digits)
    then have "map (\<lambda>c. word_of_int (digit_char c) :: u8) (map h L) = map digit_byte (rev ds)"
      by (simp add: digit_byte_def)
    then have "concat (map (\<lambda>j. putchar (digit_char (h j))) L) = map digit_byte (rev ds)"
      by (simp add: putchar_def concat_map_singleton comp_def)
    with nz buf(1) show ?thesis
      by (simp add: printbase_def Let_def L_def h_def del: upt_Suc)
  qed
  moreover have "\<forall>d\<in>set ds. unat d < unat base" using buf(3) b by (auto simp: ds_def)
  moreover have "v \<noteq> 0 \<or> 0 < w \<longrightarrow> ds \<noteq> []" using buf(5) by (auto simp: ds_def)
  ultimately show ?thesis using buf(2) by (intro exI [of _ ds]) (auto simp: ds_def)
qed

lemma digits_val_rev: "digits_val b (map uchar (rev ds)) = low_first b ds"
  unfolding digits_val_def low_first_def foldl_map
  by (simp add: foldl_conv_foldr mult.commute add.commute)

lemma strtoul_printbase:
  assumes b: "2 \<le> b" "b \<le> 36" "b \<noteq> 16" and w: "0 < w"
    and out: "printbase v w (of_nat b) False = Some out" and m: "cstr m p out"
  shows "strtoul m p 0 (int b) = Some (m, v)"
proof -
  have u: "unat (of_nat b :: u32) = b" using b by (simp add: unat_of_nat32)
  obtain ds where ds: "out = map digit_byte (rev ds)" "\<forall>d\<in>set ds. unat d < b" "low_first b ds = unat v"
      "ds \<noteq> []"
    using printbase_unsigned [of "of_nat b" v w] b w out by (auto simp: u)
  have "list_all2 (\<lambda>c d. strtoul_digit (schar c) = Some d \<and> 0 \<le> d \<and> d < int b) out
      (map uchar (rev ds))"
    unfolding ds(1) list.rel_map using ds(2) b by (intro list.rel_refl_strong) (auto simp: digit_byte_read uint_less)
  moreover have "cstr m p (out @ [])" "out \<noteq> []" using m ds by simp_all
  ultimately have "strtoul m p 0 (int b) = Some (m, if digits_val b (map uchar (rev ds)) < 4294967296
      then of_nat (digits_val b (map uchar (rev ds))) else 0xFFFFFFFF)"
    using strtoul_digits [of b m p out "[]" _ 0] b by simp
  moreover have "unat v < 4294967296" using unsigned_less [of v, where 'a = nat] by simp
  ultimately show ?thesis by (simp add: digits_val_rev ds(3))
qed

section \<open>Text is printed as it is\<close>

definition crlf :: "u8 list \<Rightarrow> u8 list" where
  "crlf s = concat (map (\<lambda>c. if c = 10 then [13, 10] else [c]) s)"

lemma putchar_schar [simp]: "putchar (schar c) = [c]"
  by (simp add: putchar_def)

lemma putstring_cstr: "cstr m s bs \<Longrightarrow> putstring m s = Some (crlf bs)"
proof (induction bs arbitrary: s)
  case Nil
  then show ?case by (subst putstring.simps) (simp add: crlf_def)
next
  case (Cons b bs)
  then show ?case
    by (subst putstring.simps) (auto simp: crlf_def Let_def putchar_def)
qed

lemma puts_cstr: "cstr m s bs \<Longrightarrow> puts m s = Some (crlf bs @ [13, 10])"
  by (simp add: puts_def putstring_cstr putchar_def)

lemma printf_loop_text:
  "of_char CHR ''%'' \<notin> set bs \<Longrightarrow> 0 \<notin> set bs \<Longrightarrow> length bs = n \<Longrightarrow> drop i fmt = bs @ rest \<Longrightarrow> i \<le> length fmt \<Longrightarrow>
   printf_loop m fmt i args = do { r \<leftarrow> printf_loop m fmt (i + n) args; Some (crlf bs @ r) }"
proof (induction bs arbitrary: i n)
  case Nil
  then show ?case by (cases "printf_loop m fmt i args") (simp_all add: crlf_def)
next
  case (Cons c bs)
  then obtain k where n: "n = Suc k" "length bs = k" by auto
  have d: "drop (Suc i) fmt = bs @ rest" using Cons.prems(4) by (metis append_Cons drop_Suc_Cons drop_drop list.sel(3) drop_Suc tl_drop plus_1_eq_Suc)
  have i: "i < length fmt" "fmt ! i = c"
    using Cons.prems(4,5) nth_via_drop [of i fmt c "bs @ rest"] by (auto intro: le_neq_implies_less)
  have "printf_loop m fmt i args = do { r \<leftarrow> printf_loop m fmt (Suc i) args; Some (crlf [c] @ r) }"
    using Cons.prems(1,2) i by (subst printf_loop.simps) (auto simp: fmt_at_def crlf_def putchar_def Let_def)
  also have "printf_loop m fmt (Suc i) args = do { r \<leftarrow> printf_loop m fmt (Suc i + k) args; Some (crlf bs @ r) }"
    using Cons.prems n d i by (intro Cons.IH) auto
  finally show ?case by (simp add: n crlf_def bind_assoc)
qed

lemma ascii_Cons [simp]: "ascii (c # s) = of_char c # ascii s" and ascii_Nil [simp]: "ascii [] = []"
  by (simp_all add: ascii_def)


lemma printbase_total: "2 \<le> unat base \<Longrightarrow> unat base \<le> 128 \<Longrightarrow> \<exists>out. printbase v w base sg = Some out"
proof -
  assume b: "2 \<le> unat base" "unat base \<le> 128"
  then have "base \<noteq> 0" by auto
  moreover have "\<exists>ds. pb_digits u base = Some ds" for u
    using pb_digits_correct [OF b, of u 32] unsigned_less [of u, where 'a = nat] by auto
  then obtain ds where "pb_digits (if sg \<and> v <s 0 then - v else v) base = Some ds" by blast
  ultimately show ?thesis unfolding printbase_def Let_def by simp
qed

lemmas printf_eval = printf_def printf_loop.simps pf_again.simps pf_width.simps fmt_at_def pf_arg_def

abbreviation ln :: "string \<Rightarrow> string" where
  "ln s \<equiv> s @ [CHR 0x0A]"

lemma ascii_append [simp]: "ascii (s @ t) = ascii s @ ascii t"
  by (simp add: ascii_def)

text \<open>\<open>puts\<close> of a string literal: the literal is in memory with its terminator (\<open>puts_cstr\<close>).\<close>

definition puts_text :: "string \<Rightarrow> u8 list" where
  "puts_text s = crlf (ascii s) @ [13, 10]"

section \<open>Properties\<close>

text \<open>What \<open>printbase\<close> prints of an unsigned number (as \<open>%u\<close>, \<open>%o\<close>, \<open>%b\<close> of \<open>printf\<close> do), \<open>strtoul\<close> reads
  back as the same number, for every base from 2 to 36 other than 16 and any width.\<close>

theorem printed_number_reads_back:
  "2 \<le> b \<Longrightarrow> b \<le> 36 \<Longrightarrow> b \<noteq> 16 \<Longrightarrow> 0 < w \<Longrightarrow>
   printbase v w (of_nat b) False = Some out \<Longrightarrow> cstr m p out \<Longrightarrow>
   strtoul m p 0 (int b) = Some (m, v)"
  by (rule strtoul_printbase)

lemma printed_number_reads_back_witness:
  "printbase 2026 6 8 False = Some [48, 48, 51, 55, 53, 50] \<and>
   strtoul (write_bytes (\<lambda>_. 0) 100 [48, 48, 51, 55, 53, 50]) 100 0 8
     = Some (write_bytes (\<lambda>_. 0) 100 [48, 48, 51, 55, 53, 50], 2026)"
proof -
  have p: "printbase 2026 6 8 False = Some [48, 48, 51, 55, 53, 50]"
    by (simp add: printbase_def pb_digits.simps upt_rec putchar_def digit_char_def)
  have c: "cstr (write_bytes (\<lambda>_. 0) 100 [48, 48, 51, 55, 53, 50]) 100 [48, 48, 51, 55, 53, 50]"
    by simp
  show ?thesis
    using p printed_number_reads_back [of 8 6 2026 _ _ 100, OF _ _ _ _ _ c] by simp
qed

text \<open>In \<open>printf\<close> a width that contains a \<open>0\<close> is lost (\<open>%10d\<close> pads nothing and prints no digit
  for 0), and \<open>%ld\<close> prints a negative \<open>long\<close> as an unsigned number.\<close>

theorem printf_conversions:
  "printf m ''%10d'' [v] = printbase v 0 10 True \<and> printf m ''%10d'' [0] = Some [] \<and>
   printf m ''%08x'' [v] = printbase v 8 16 False \<and> printf m ''%d'' [- 1] = Some (ascii ''-1'') \<and>
   printf m ''%ld'' [- 1] = Some (ascii ''4294967295'')"
proof -
  have w: "printf m ''%10d'' [v] = printbase v 0 10 True" for v by (simp add: printf_eval)
  have z: "printbase 0 0 10 True = Some []"
    and n: "printbase (- 1) 1 10 True = Some (ascii ''-1'')"
    and u: "printbase (- 1) 1 10 False = Some (ascii ''4294967295'')"
    by (simp_all add: printbase_def pb_digits.simps upt_rec putchar_def digit_char_def)
  have "printf m ''%08x'' [v] = printbase v 8 16 False" by (simp add: printf_eval)
  moreover have "printf m ''%d'' [- 1] = Some (ascii ''-1'')"
    using n by (simp add: printf_eval)
  moreover have "printf m ''%ld'' [- 1] = Some (ascii ''4294967295'')"
    using u by (simp add: printf_eval)
  ultimately show ?thesis using w z by simp
qed

section \<open>Numbers as text\<close>

definition digit_text :: "nat \<Rightarrow> u8" where
  "digit_text r = word_of_int (if r \<le> 9 then int r + 48 else int r - 10 + 97)"

function nat_text :: "nat \<Rightarrow> nat \<Rightarrow> u8 list" where
  "nat_text b n = (if b < 2 \<or> n < b then [digit_text n] else nat_text b (n div b) @ [digit_text (n mod b)])"
  by pat_completeness auto
termination
  by (relation "measure snd") auto

declare nat_text.simps [simp del]

lemma pb_digits_text:
  assumes b: "2 \<le> b" "b \<le> 36"
  shows "v \<noteq> 0 \<Longrightarrow> \<exists>ds. pb_digits v (of_nat b) = Some ds \<and> ds \<noteq> [] \<and> map digit_byte (rev ds) = nat_text b (unat v)"
proof (induction "unat v" arbitrary: v rule: less_induct)
  case less
  have base: "unat (of_nat b :: u32) = b" using b by (simp add: unat_of_nat32)
  have d: "unat (v div of_nat b) = unat v div b" "unat (v mod of_nat b) = unat v mod b"
    by (simp_all add: unat_div unat_mod base)
  have r: "unat v mod b < b" using b(1) by simp
  have u: "unat (ucast (v mod of_nat b) :: u8) = unat v mod b"
  proof -
    have "unat v mod b < 2 ^ 8" using r b(2) by simp
    from take_bit_nat_eq_self [OF this] show ?thesis by (simp add: unsigned_ucast_eq d(2))
  qed
  have "schar (ucast (v mod of_nat b) :: u8) = int (unat v mod b)"
    using schar_small [of "ucast (v mod of_nat b)"] u r b(2) by (simp only: uint_nat)
  then have digit: "digit_byte (ucast (v mod of_nat b)) = digit_text (unat v mod b)"
    by (simp add: digit_byte_def digit_char_def digit_text_def)
  show ?case
  proof (cases "unat v < b")
    case True
    then have "v div of_nat b = 0" using d(1) by (simp add: unat_eq_zero)
    with True less.prems digit show ?thesis
      by (subst pb_digits.simps, subst nat_text.simps) (simp add: pb_digits.simps [of 0])
  next
    case False
    have "v div of_nat b \<noteq> 0"
    proof
      assume "v div of_nat b = 0"
      with d(1) have "unat v div b = 0" by simp
      with False b(1) show False by (simp add: div_eq_0_iff)
    qed
    moreover have "unat (v div of_nat b) < unat v" using False b(1) by (simp add: d(1))
    ultimately obtain ds where "pb_digits (v div of_nat b) (of_nat b) = Some ds"
        "map digit_byte (rev ds) = nat_text b (unat v div b)"
      using less.hyps [of "v div of_nat b"] unfolding d(1) by blast
    with False b(1) less.prems digit show ?thesis
      by (subst pb_digits.simps, subst nat_text.simps) simp
  qed
qed

lemma printbase_text:
  assumes b: "2 \<le> b" "b \<le> 36"
  shows "printbase v 1 (of_nat b) sg =
    Some (if sg \<and> sint v < 0 then 45 # nat_text b (nat (- sint v)) else nat_text b (unat v))"
proof -
  define u where "u = (if sg \<and> v <s 0 then - v else v)"
  have base: "(of_nat b :: u32) \<noteq> 0" using b unat_of_nat32 [of b] by auto
  have neg: "v <s 0 \<longleftrightarrow> sint v < 0" by (simp add: word_sless_alt)
  have t: "(if sg \<and> sint v < 0 then nat_text b (nat (- sint v)) else nat_text b (unat v)) = nat_text b (unat u)"
  proof (cases "sg \<and> sint v < 0")
    case True
    have "uint (word_of_int (- sint v) :: u32) = - sint v"
      by (simp only: uint_word_of_int) (use True sint_ge [of v] in simp)
    then have "uint (- v) = - sint v" by simp
    then show ?thesis using True neg by (simp add: u_def flip: nat_uint_eq)
  next
    case False
    then show ?thesis using neg by (auto simp: u_def)
  qed
  obtain ds where ds: "pb_digits u (of_nat b) = Some ds" "map digit_byte (rev (ds @ replicate (1 - length ds) 0)) = nat_text b (unat u)"
  proof (cases "u = 0")
    case True
    have "nat_text b 0 = [48]" using b(1) by (subst nat_text.simps) (simp add: digit_text_def)
    then show ?thesis using that [of "[]"] True by (simp add: pb_digits.simps [of 0] digit_byte_def digit_char_def)
  next
    case False
    obtain ds where "pb_digits u (of_nat b) = Some ds" "ds \<noteq> []" "map digit_byte (rev ds) = nat_text b (unat u)"
      using pb_digits_text [OF b False] by blast
    moreover from this(2) have "1 - length ds = 0" by (cases ds) simp_all
    ultimately show ?thesis using that [of ds] by simp
  qed
  define L where "L = rev [1..<Suc (max (nat 1) (length ds))]"
  define h where "h = (\<lambda>j. if j > length ds then 0 else schar (ds ! (j - 1)))"
  have "map h L = map schar (rev (ds @ replicate (nat 1 - length ds) 0))" unfolding h_def L_def by (rule padded_digits)
  then have "map (\<lambda>c. word_of_int (digit_char c) :: u8) (map h L) = nat_text b (unat u)"
    unfolding ds(2) [symmetric] \<open>map h L = _\<close> by (simp add: digit_byte_def)
  then have "concat (map (\<lambda>j. putchar (digit_char (h j))) L) = nat_text b (unat u)"
    by (simp add: putchar_def concat_map_singleton comp_def)
  then have "printbase v 1 (of_nat b) sg = Some ((if sg \<and> sint v < 0 then putchar 45 else []) @ nat_text b (unat u))"
    unfolding printbase_def Let_def u_def [symmetric] L_def h_def using base ds(1) neg by (simp only: Option.bind.simps simp_thms if_False)
  then show ?thesis using t by (auto simp: putchar_def)
qed

section \<open>printf on formats without flags\<close>

text \<open>What a conversion prints, without a width: \<open>%s\<close> the string in memory, \<open>%c\<close> the low byte, the others the
  number in base 10, 8, 2 or 16, which only \<open>%d\<close> takes as signed.\<close>

definition conv_spec :: "mem \<Rightarrow> char \<Rightarrow> u32 \<Rightarrow> u8 list option" where
  "conv_spec m d v =
     (if d = CHR ''s'' then do { n \<leftarrow> strlen m v; Some (crlf (read_bytes m v (unat n))) }
      else if d = CHR ''c'' then Some [ucast v]
      else if d = CHR ''d'' then Some (if sint v < 0 then 45 # nat_text 10 (nat (- sint v)) else nat_text 10 (nat (sint v)))
      else if d \<in> {CHR ''u'', CHR ''l''} then Some (nat_text 10 (unat v))
      else if d = CHR ''o'' then Some (nat_text 8 (unat v))
      else if d = CHR ''b'' then Some (nat_text 2 (unat v))
      else if d \<in> {CHR ''p'', CHR ''x''} then Some (nat_text 16 (unat v))
      else None)"

text \<open>What \<open>printf\<close> prints, by recursion on the format: conversions directly after the percent sign.  After
  \<open>%l\<close> one more character is skipped; a percent sign before any other character is printed.\<close>

definition flag_char :: "char \<Rightarrow> bool" where
  "flag_char d \<longleftrightarrow> d \<in> set ''0123456789''"

definition arg_char :: "char \<Rightarrow> bool" where
  "arg_char d \<longleftrightarrow> d \<in> set ''scudobpx''"

fun fmt_spec :: "mem \<Rightarrow> string \<Rightarrow> u32 list \<Rightarrow> u8 list option" where
  "fmt_spec m [] vs = Some []"
| "fmt_spec m [c] vs = Some (crlf [of_char c])"
| "fmt_spec m (c # d # r) vs =
     (if c \<noteq> CHR ''%'' then do { out \<leftarrow> fmt_spec m (d # r) vs; Some (crlf [of_char c] @ out) }
      else if flag_char d then None
      else if d = CHR ''%'' then do { out \<leftarrow> fmt_spec m r vs; Some (37 # out) }
      else if arg_char d then
        if vs = [] then None
        else do { a \<leftarrow> conv_spec m d (hd vs); out \<leftarrow> fmt_spec m r (tl vs); Some (a @ out) }
      else if d = CHR ''l'' then
        if vs = [] \<or> r = [] then None
        else do { a \<leftarrow> conv_spec m d (hd vs); out \<leftarrow> fmt_spec m (tl r) (tl vs); Some (a @ out) }
      else do { out \<leftarrow> fmt_spec m (d # r) vs; Some (37 # out) })"

declare flag_char_def [simp] arg_char_def [simp]

lemma inj_of_char: "inj (of_char :: char \<Rightarrow> u8)"
proof (rule injI)
  have u: "unat (of_nat (of_char e) :: u8) = of_char e" for e :: char
  proof (rule unat_of_nat_small)
    have "(256 :: nat) = 2 ^ LENGTH(8)" by simp
    from ord_less_eq_trans [OF nat_of_char_less_256 this] show "(of_char e :: nat) < 2 ^ LENGTH(8)" .
  qed
  fix c d :: char assume "(of_char c :: u8) = of_char d"
  then have "(of_nat (of_char c) :: u8) = of_nat (of_char d)" by (simp only: of_nat_of_char)
  from arg_cong [OF this, of unat] have "(of_char c :: nat) = of_char d" by (simp only: u)
  then show "c = d" by (simp only: of_char_eq_iff)
qed

lemma of_char_u8_eq: "(of_char c :: u8) = of_char d \<longleftrightarrow> c = d"
  using inj_of_char by (auto dest: injD)

lemma fmt_at_append: "fmt_at (pre @ c # r) (length pre) = c" "fmt_at (pre @ c # d # r) (Suc (length pre)) = d"
  by (simp_all add: fmt_at_def nth_append)

lemma read_bytes_cstr: "cstr m s bs \<Longrightarrow> read_bytes m s (length bs) = bs"
  by (induction bs arbitrary: s) auto

lemma strlen_cstr_read:
  assumes "strlen m s = Some n"
  shows "cstr m s (read_bytes m s (unat n))"
proof -
  have "strlen_loop m s c = Some n \<Longrightarrow> \<exists>bs. cstr m s bs" for c
  proof (rule strlen_loop.raw_induct [of "\<lambda>m s c n. \<exists>bs. cstr m s bs"])
    fix f m s c and n :: u32
    assume ih: "\<And>m s c n. f m s c = Some n \<Longrightarrow> \<exists>bs. cstr m s bs"
      and f: "(if m s \<noteq> 0 then f m (s + 1) (c + 1) else Some c) = Some n"
    show "\<exists>bs. cstr m s bs"
    proof (cases "m s = 0")
      case True
      then have "cstr m s []" by simp
      then show ?thesis by blast
    next
      case False
      then have "f m (s + 1) (c + 1) = Some n" using f by simp
      from ih [OF this] obtain bs where "cstr m (s + 1) bs" by blast
      with False have "cstr m s (m s # bs)" by simp
      then show ?thesis by blast
    qed
  qed
  then obtain bs where bs: "cstr m s bs" using assms unfolding strlen_def by blast
  then have "unat n = length bs" using strlen_cstr_unat [OF bs] assms by auto
  with bs show ?thesis by (simp add: read_bytes_cstr)
qed

lemma conv_spec_string: "cstr m s bs \<Longrightarrow> conv_spec m CHR ''s'' s = Some (crlf bs)"
  using strlen_cstr_unat [of m s bs] by (auto simp: conv_spec_def read_bytes_cstr)

lemma conv_spec_simps [simp]:
  "conv_spec m CHR ''c'' v = Some [ucast v]"
  "conv_spec m CHR ''d'' v = Some (if sint v < 0 then 45 # nat_text 10 (nat (- sint v)) else nat_text 10 (nat (sint v)))"
  "conv_spec m CHR ''u'' v = Some (nat_text 10 (unat v))"
  "conv_spec m CHR ''l'' v = Some (nat_text 10 (unat v))"
  "conv_spec m CHR ''o'' v = Some (nat_text 8 (unat v))"
  "conv_spec m CHR ''b'' v = Some (nat_text 2 (unat v))"
  "conv_spec m CHR ''p'' v = Some (nat_text 16 (unat v))"
  "conv_spec m CHR ''x'' v = Some (nat_text 16 (unat v))"
  by (simp_all add: conv_spec_def)

lemma putstring_some: "putstring m s = Some out \<Longrightarrow> \<exists>bs. cstr m s bs \<and> out = crlf bs"
proof (rule putstring.raw_induct [of "\<lambda>m s out. \<exists>bs. cstr m s bs \<and> out = crlf bs"])
  fix f m s and out :: "u8 list"
  assume ih: "\<And>m s out. f m s = Some out \<Longrightarrow> \<exists>bs. cstr m s bs \<and> out = crlf bs"
    and f: "(let c = m s in if c \<noteq> 0 then do { r \<leftarrow> f m (s + 1);
        Some ((if c = 10 then putchar 13 else []) @ putchar (schar c) @ r) } else Some []) = Some out"
  show "\<exists>bs. cstr m s bs \<and> out = crlf bs"
  proof (cases "m s = 0")
    case True
    then have "cstr m s []" "out = crlf []" using f by (simp_all add: crlf_def)
    then show ?thesis by blast
  next
    case False
    then obtain r where r: "f m (s + 1) = Some r" "out = crlf [m s] @ r"
      using f by (auto simp: crlf_def putchar_def Let_def split: bind_splits)
    from ih [OF r(1)] obtain bs where "cstr m (s + 1) bs" "r = crlf bs" by blast
    with False r(2) have "cstr m s (m s # bs)" "out = crlf (m s # bs)" by (simp_all add: crlf_def)
    then show ?thesis by blast
  qed
qed

lemma conv_spec_putstring: "putstring m s = Some out \<Longrightarrow> conv_spec m CHR ''s'' s = Some out"
  using putstring_some conv_spec_string by blast

text \<open>The switch of \<open>printf\<close> does what the conversions say.\<close>

lemma pf_arg_conv:
  assumes d: "d \<in> set ''scudobpxl''" and a: "conv_spec m d v = Some a"
  shows "pf_arg m (of_char d) 1 v = Some a"
proof -
  note n = printbase_text [of 10 v, simplified] printbase_text [of 8 v, simplified]
    printbase_text [of 2 v, simplified] printbase_text [of 16 v, simplified]
  have c: "word_of_int (sint v) = (ucast v :: u8)" by (simp flip: scast_eq add: down_cast_same [symmetric] is_down)
  have u: "unat v = nat (sint v)" if "\<not> sint v < 0"
  proof -
    have "uint (word_of_int (sint v) :: u32) = sint v"
      by (simp only: uint_word_of_int) (use that sint_lt [of v] in simp)
    then show ?thesis by (simp flip: nat_uint_eq)
  qed
  consider "d = CHR ''s''" | "d = CHR ''c''" | "d \<in> set ''udobpxl''" using d by auto
  then show ?thesis
  proof cases
    case 1
    then obtain k where k: "strlen m v = Some k" "a = crlf (read_bytes m v (unat k))"
      using a by (auto simp: conv_spec_def split: bind_splits)
    show ?thesis using putstring_cstr [OF strlen_cstr_read [OF k(1)]] 1 k(2) by (simp add: pf_arg_def)
  next
    case 2
    then show ?thesis using a c by (simp add: pf_arg_def conv_spec_def putchar_def)
  next
    case 3
    then have "d \<in> {CHR ''d'', CHR ''u'', CHR ''l'', CHR ''o'', CHR ''b'', CHR ''p'', CHR ''x''}" by auto
    then show ?thesis
    proof (elim insertE emptyE)
      assume d: "d = CHR ''d''"
      show ?thesis
      proof (cases "sint v < 0")
        case True
        then show ?thesis using a d by (simp add: pf_arg_def conv_spec_def n)
      next
        case False
        then show ?thesis using a d u by (simp add: pf_arg_def conv_spec_def n)
      qed
    qed (use a in \<open>simp_all add: pf_arg_def conv_spec_def n\<close>)
  qed
qed

lemma pf_again_plain:
  "d \<notin> set ''0123456789'' \<Longrightarrow> fmt_at fmt (i + 1) = of_char d \<Longrightarrow> pf_again fmt i w = (i, w)"
proof -
  assume d: "d \<notin> set ''0123456789''" and f: "fmt_at fmt (i + 1) = of_char d"
  have e: "(of_char d :: u8) \<noteq> of_char c" if "c \<in> set ''0123456789''" for c
    using d that unfolding of_char_u8_eq by metis
  have n: "\<not> (49 \<le> schar (of_char d :: u8) \<and> schar (of_char d :: u8) \<le> 57)"
  proof
    assume "49 \<le> schar (of_char d :: u8) \<and> schar (of_char d :: u8) \<le> 57"
    then have "schar (of_char d :: u8) \<in> {49, 50, 51, 52, 53, 54, 55, 56, 57}" by auto
    then have "(of_char d :: u8) \<in> word_of_int ` {49, 50, 51, 52, 53, 54, 55, 56, 57}"
      by (intro image_eqI [where x = "schar (of_char d :: u8)"]) (simp, assumption)
    then show False
      using e [of "CHR ''1''"] e [of "CHR ''2''"] e [of "CHR ''3''"] e [of "CHR ''4''"] e [of "CHR ''5''"]
        e [of "CHR ''6''"] e [of "CHR ''7''"] e [of "CHR ''8''"] e [of "CHR ''9''"] by simp
  qed
  have "(of_char d :: u8) \<noteq> 48" using e [of "CHR ''0''"] by simp
  with n show ?thesis by (subst pf_again.simps) (simp only: f Let_def if_False)
qed

lemma pf_again_end: "length fmt \<le> i + 1 \<Longrightarrow> pf_again fmt i w = (i, w)"
  by (subst pf_again.simps) (simp add: fmt_at_def)

lemma of_char_in_ascii: "of_char d \<in> set (ascii s) \<longleftrightarrow> d \<in> set s"
  by (auto simp: ascii_def of_char_u8_eq)

text \<open>A step of the loop, for a character, for a conversion, and for a percent sign that is printed.\<close>

lemma printf_loop_char:
  assumes "of_char c \<noteq> (0 :: u8)" "c \<noteq> CHR ''%''" "printf_loop m ((pre @ [of_char c]) @ ascii r) (length (pre @ [of_char c])) vs = Some out"
  shows "printf_loop m (pre @ ascii (c # r)) (length pre) vs = Some (crlf [of_char c] @ out)"
proof -
  have "of_char c \<noteq> (of_char CHR ''%'' :: u8)" using assms(2) unfolding of_char_u8_eq .
  with assms(1,3) show ?thesis by (subst printf_loop.simps) (simp add: fmt_at_append crlf_def putchar_def)
qed

lemma printf_loop_conv:
  assumes d: "d \<in> set ''scudobpxl''" and a: "conv_spec m d v = Some a"
    and r: "printf_loop m (pre @ ascii (CHR ''%'' # d # r)) (length pre + (if d = CHR ''l'' then 3 else 2)) vs = Some out"
  shows "printf_loop m (pre @ ascii (CHR ''%'' # d # r)) (length pre) (v # vs) = Some (a @ out)"
proof -
  let ?f = "pre @ ascii (CHR ''%'' # d # r)" and ?i = "length pre"
  have at: "fmt_at ?f ?i = of_char CHR ''%''" "fmt_at ?f (?i + 1) = of_char d" "\<not> length ?f < ?i"
    by (simp_all add: fmt_at_append)
  have ag: "pf_again ?f ?i 1 = (?i, 1)"
    using d by (intro pf_again_plain [OF _ at(2)]) auto
  have dm: "of_char d \<in> set (ascii ''scudlobpx'')" using d unfolding of_char_in_ascii by auto
  have l: "(of_char d = (of_char CHR ''l'' :: u8)) = (d = CHR ''l'')" by (rule of_char_u8_eq)
  have p: "(of_char CHR ''%'' :: u8) \<noteq> 0" by simp
  have i: "(if d = CHR ''l'' then ?i + 2 else ?i + 1) + 1 = ?i + (if d = CHR ''l'' then 3 else 2)" by simp
  show ?thesis
    unfolding printf_loop.simps [of m ?f ?i] at(1) ag Let_def prod.case at(2) l
    using at(3) p dm pf_arg_conv [OF d a] r by (simp only: i if_False if_True refl list.case Option.bind.simps)
qed

lemma printf_loop_percent:
  assumes d: "d \<notin> set ''scudobpxl0123456789''"
    and r: "printf_loop m (pre @ ascii (CHR ''%'' # d # r)) (length pre + (if d = CHR ''%'' then 2 else 1)) vs = Some out"
  shows "printf_loop m (pre @ ascii (CHR ''%'' # d # r)) (length pre) vs = Some (37 # out)"
proof -
  let ?f = "pre @ ascii (CHR ''%'' # d # r)" and ?i = "length pre"
  have at: "fmt_at ?f ?i = of_char CHR ''%''" "fmt_at ?f (?i + 1) = of_char d" "\<not> length ?f < ?i"
    by (simp_all add: fmt_at_append)
  have ag: "pf_again ?f ?i 1 = (?i, 1)"
    using d by (intro pf_again_plain [OF _ at(2)]) auto
  have dm: "of_char d \<notin> set (ascii ''scudlobpx'')" using d unfolding of_char_in_ascii by auto
  have l: "(of_char d = (of_char CHR ''%'' :: u8)) = (d = CHR ''%'')" by (rule of_char_u8_eq)
  have p: "(of_char CHR ''%'' :: u8) \<noteq> 0" by simp
  have i: "(if d = CHR ''%'' then ?i + 1 else ?i) + 1 = ?i + (if d = CHR ''%'' then 2 else 1)" by simp
  show ?thesis
    unfolding printf_loop.simps [of m ?f ?i] at(1) ag Let_def prod.case at(2) l
    using at(3) p dm r by (simp only: i if_False if_True refl Option.bind.simps) (simp add: putchar_def)
qed

lemma printf_loop_spec:
  "fmt_spec m f vs = Some out \<Longrightarrow> 0 \<notin> set (ascii f) \<Longrightarrow> printf_loop m (pre @ ascii f) (length pre) vs = Some out"
proof (induction m f vs arbitrary: pre out rule: fmt_spec.induct)
  case (1 m vs)
  then show ?case by (subst printf_loop.simps) (simp add: fmt_at_def)
next
  case (2 m c vs)
  have e: "printf_loop m ((pre @ [of_char c]) @ ascii []) (length (pre @ [of_char c])) vs = Some []"
    by (subst printf_loop.simps) (simp add: fmt_at_def)
  show ?case
  proof (cases "c = CHR ''%''")
    case False
    then show ?thesis using printf_loop_char [OF _ False e] 2 by simp
  next
    case True
    let ?f = "pre @ ascii [c]" and ?i = "length pre"
    have at: "fmt_at ?f ?i = of_char CHR ''%''" "fmt_at ?f (?i + 1) = 0" "\<not> length ?f < ?i"
      using True by (simp_all add: fmt_at_def)
    have ag: "pf_again ?f ?i 1 = (?i, 1)" by (rule pf_again_end) simp
    have z: "(0 :: u8) \<notin> set (ascii ''scudlobpx'')" "(0 :: u8) \<noteq> of_char CHR ''%''" "(of_char CHR ''%'' :: u8) \<noteq> 0"
      by (simp_all add: ascii_def)
    have "printf_loop m ?f (?i + 1) vs = Some []" using e by simp
    then have "printf_loop m ?f ?i vs = Some (putchar 37 @ [])"
      unfolding printf_loop.simps [of m ?f ?i] at(1) ag Let_def prod.case at(2)
      using at(3) z by (simp only: if_False if_True refl Option.bind.simps)
    then show ?thesis using 2(1) True by (simp add: putchar_def crlf_def)
  qed
next
  case (3 m c d r vs)
  note p = 3(7) and ih = 3(1-5)
  have z: "0 \<notin> set (ascii (d # r))" "0 \<notin> set (ascii r)" "0 \<notin> set (ascii (tl r))" "of_char c \<noteq> (0 :: u8)"
    using 3(7) by (cases r; simp)+
  have snoc: "(pre @ ascii s) @ ascii t = pre @ ascii (s @ t)" "length (pre @ ascii s) = length pre + length s" for s t
    by (simp_all add: ascii_def)
  consider "c \<noteq> CHR ''%''" | "c = CHR ''%''" "d = CHR ''%''" | "c = CHR ''%''" "arg_char d" | "c = CHR ''%''" "d = CHR ''l''"
    | "c = CHR ''%''" "\<not> arg_char d" "d \<notin> {CHR ''%'', CHR ''l''}"
    by blast
  then show ?case
  proof cases
    case 1
    then obtain o1 where o1: "fmt_spec m (d # r) vs = Some o1" "out = crlf [of_char c] @ o1"
      using 3(6) by (auto split: bind_splits)
    have "printf_loop m ((pre @ [of_char c]) @ ascii (d # r)) (length (pre @ [of_char c])) vs = Some o1"
      by (rule 3(1) [OF 1 o1(1) z(1)])
    from printf_loop_char [OF z(4) 1 this] show ?thesis using o1(2) by simp
  next
    case 2
    then obtain o1 where o1: "fmt_spec m r vs = Some o1" "out = 37 # o1"
      using 3(6) by (auto split: bind_splits)
    have "printf_loop m ((pre @ ascii [c, d]) @ ascii r) (length (pre @ ascii [c, d])) vs = Some o1"
      using 2 by (intro 3(2) [OF _ _ _ o1(1) z(2)]) simp_all
    with 2 have "printf_loop m (pre @ ascii (CHR ''%'' # d # r)) (length pre + 2) vs = Some o1"
      unfolding snoc by simp
    with printf_loop_percent [of d m pre r vs o1] 2 o1(2) show ?thesis by simp
  next
    case c: 3
    have l: "d \<noteq> CHR ''l''" "d \<noteq> CHR ''%''" "\<not> flag_char d" "d \<in> set ''scudobpxl''" using c(2) by auto
    obtain a o1 where o: "conv_spec m d (hd vs) = Some a" "fmt_spec m r (tl vs) = Some o1" "out = a @ o1" "vs \<noteq> []"
      using 3(6) c l(1-3) by (auto simp del: flag_char_def arg_char_def split: bind_splits if_splits)
    have "printf_loop m ((pre @ ascii [c, d]) @ ascii r) (length (pre @ ascii [c, d])) (tl vs) = Some o1"
      by (rule 3(3)) (use c l(1-3) o z(2) in \<open>simp_all del: flag_char_def arg_char_def\<close>)
    with c(1) l(1) have "printf_loop m (pre @ ascii (CHR ''%'' # d # r)) (length pre + (if d = CHR ''l'' then 3 else 2)) (tl vs) = Some o1"
      unfolding snoc by simp
    from printf_loop_conv [OF l(4) o(1) this] show ?thesis using c(1) o(3,4) by simp
  next
    case c: 4
    obtain a o1 where o: "conv_spec m d (hd vs) = Some a" "fmt_spec m (tl r) (tl vs) = Some o1" "out = a @ o1" "vs \<noteq> []" "r \<noteq> []"
      using 3(6) c by (auto split: bind_splits if_splits)
    then have r: "r = hd r # tl r" by simp
    have "printf_loop m ((pre @ ascii [c, d, hd r]) @ ascii (tl r)) (length (pre @ ascii [c, d, hd r])) (tl vs) = Some o1"
      by (rule 3(4)) (use c o z(3) in simp_all)
    moreover have "[c, d, hd r] @ tl r = CHR ''%'' # d # r" using c(1) r by simp
    moreover have "length [c, d, hd r] = (if d = CHR ''l'' then 3 else 2)" using c(2) by simp
    ultimately have "printf_loop m (pre @ ascii (CHR ''%'' # d # r)) (length pre + (if d = CHR ''l'' then 3 else 2)) (tl vs) = Some o1"
      unfolding snoc by (simp only:)
    from printf_loop_conv [OF _ o(1) this] show ?thesis using c o(3,4) by simp
  next
    case c: 5
    then have l: "\<not> flag_char d" "d \<notin> set ''scudobpxl0123456789''"
      using 3(6) by (auto split: if_splits)
    then obtain o1 where o: "fmt_spec m (d # r) vs = Some o1" "out = 37 # o1"
      using 3(6) c by (auto simp del: flag_char_def arg_char_def split: bind_splits)
    have "printf_loop m ((pre @ ascii [c]) @ ascii (d # r)) (length (pre @ ascii [c])) vs = Some o1"
      by (rule 3(5)) (use c l(1) o z(1) in \<open>simp_all del: flag_char_def arg_char_def\<close>)
    with c(1,3) have "printf_loop m (pre @ ascii (CHR ''%'' # d # r)) (length pre + (if d = CHR ''%'' then 2 else 1)) vs = Some o1"
      unfolding snoc by simp
    from printf_loop_percent [OF l(2) this] show ?thesis using c(1) o(2) by simp
  qed
qed

text \<open>What \<open>printbase\<close> prints, where its base makes it total.\<close>

definition pb :: "u32 \<Rightarrow> u32 \<Rightarrow> bool \<Rightarrow> u8 list" where
  "pb v base sg = (case printbase v 1 base sg of Some out \<Rightarrow> out | None \<Rightarrow> [])"

lemma printbase_pb [simp]:
  "printbase v 1 10 sg = Some (pb v 10 sg)" "printbase v 1 16 sg = Some (pb v 16 sg)"
  "printbase v 1 8 sg = Some (pb v 8 sg)" "printbase v 1 2 sg = Some (pb v 2 sg)"
  using printbase_total [of 10 v 1 sg] printbase_total [of 16 v 1 sg] printbase_total [of 8 v 1 sg]
    printbase_total [of 2 v 1 sg] by (auto simp: pb_def)

lemma printf_fmt_spec: "fmt_spec m fmt vs = Some out \<Longrightarrow> 0 \<notin> set (ascii fmt) \<Longrightarrow> printf m fmt vs = Some out"
  using printf_loop_spec [of m fmt vs out "[]"] by (simp add: printf_def)

text \<open>C29: on a format whose conversions have no flags, \<open>printf\<close> prints what the recursion over the format
  says: each conversion takes the next argument and prints the string, the byte, or the digits of the number in its base,
  \<open>%d\<close> with a sign; \<open>%%\<close> is a percent sign, and a line feed gets a carriage return.\<close>

theorem printf_plain_format:
  "fmt_spec m fmt vs = Some out \<Longrightarrow> 0 \<notin> set (ascii fmt) \<Longrightarrow> printf m fmt vs = Some out"
  by (rule printf_fmt_spec)

lemma printf_plain_format_witness:
  "printf (write_bytes (\<lambda>_. 0) 8 [104, 105, 0]) (ln ''%s %d%c%o%%'') [8, - 12, 33, 12] =
    Some [104, 105, 32, 45, 49, 50, 33, 49, 52, 37, 13, 10]"
proof -
  have "conv_spec (write_bytes (\<lambda>_. 0) 8 [104, 105, 0]) CHR ''s'' 8 = Some (crlf [104, 105])"
    by (rule conv_spec_string) simp
  moreover have "nat_text 10 12 = [49, 50]" "nat_text 8 12 = [49, 52]"
    by (simp_all add: nat_text.simps digit_text_def)
  ultimately have "fmt_spec (write_bytes (\<lambda>_. 0) 8 [104, 105, 0]) (ln ''%s %d%c%o%%'') [8, - 12, 33, 12] =
      Some [104, 105, 32, 45, 49, 50, 33, 49, 52, 37, 13, 10]"
    by (simp add: crlf_def del: write_bytes.simps)
  from printf_plain_format [OF this] show ?thesis by simp
qed

end
