(* ===== verification/Stdio.thy ===== *)
theory Stdio
  imports Console
begin

text \<open>
  The files of \<^verbatim>\<open>lib/stdio.c\<close>: a file is a C string in memory and a position in it, the
  table \<open>files\<close> has room for ten.  A \<open>FILE*\<close> is the index of its entry; \<open>None\<close> is an access
  outside the table or a string without end.
\<close>

record cfile =
  fstr :: addr
  fpos :: u32

definition SIZE :: nat where
  "SIZE = 10"

text \<open>The index at which the search of \<open>fopen\<close> stops, \<open>SIZE\<close> when no entry is free.\<close>

function fopen_find :: "cfile list \<Rightarrow> nat \<Rightarrow> nat" where
  "fopen_find files i =
     (if i < SIZE then (if fstr (files ! i) = 0 then i else fopen_find files (i + 1)) else i)"
  by pat_completeness auto
termination
  by (relation "measure (\<lambda>(files, i). SIZE - i)") auto

declare fopen_find.simps [simp del]

definition fopen :: "cfile list \<Rightarrow> addr \<Rightarrow> (cfile list \<times> nat) option" where
  "fopen files str =
     (let i = fopen_find files 0
      in if i < SIZE then Some (files[i := \<lparr>fstr = str, fpos = 0\<rparr>], i) else None)"

text \<open>The copy loop of \<open>fread\<close>: memory, position and \<open>c\<close>.\<close>

function fread_loop :: "mem \<Rightarrow> addr \<Rightarrow> addr \<Rightarrow> u32 \<Rightarrow> u32 \<Rightarrow> u32 \<Rightarrow> u32 \<Rightarrow> mem \<times> u32 \<times> u32" where
  "fread_loop m out str tot n pos c =
     (if c < n
      then let m' = m(out + c := m (str + pos)); pos' = pos + 1
           in if pos' = tot then (m', pos', c + 1) else fread_loop m' out str tot n pos' (c + 1)
      else (m, pos, c))"
  by pat_completeness auto
termination
  by (relation "measure (\<lambda>(m, out, str, tot, n, pos, c). unat n - unat c)")
     (auto simp: unat_plus_one_less word_less_nat_alt)

declare fread_loop.simps [simp del]

definition fread :: "mem \<Rightarrow> cfile list \<Rightarrow> addr \<Rightarrow> u32 \<Rightarrow> u32 \<Rightarrow> nat \<Rightarrow> (mem \<times> cfile list \<times> u32) option" where
  "fread m files ptr sz nmemb stream =
     (if stream < length files
      then do {
        let str = fstr (files ! stream);
        tot \<leftarrow> strlen m str;
        if fpos (files ! stream) = tot then Some (m, files, 0)
        else let (m', pos, c) = fread_loop m ptr str tot (sz * nmemb) (fpos (files ! stream)) 0
             in Some (m', files[stream := (files ! stream)\<lparr>fpos := pos\<rparr>], c) }
      else None)"

text \<open>The search loop of \<open>fclose\<close> has no effect.\<close>

definition fclose :: "cfile list \<Rightarrow> nat \<Rightarrow> cfile list" where
  "fclose files stream = files[stream := \<lparr>fstr = 0, fpos = 0\<rparr>]"

text \<open>The loop of \<open>fgets\<close>; \<open>size\<close> is not used and the result is always \<open>NULL\<close>.\<close>

partial_function (option) fgets_loop ::
    "mem \<Rightarrow> addr \<Rightarrow> addr \<Rightarrow> u32 \<Rightarrow> u32 \<Rightarrow> u32 \<Rightarrow> (mem \<times> u32) option" where
  "fgets_loop m s str tot pos c =
     (if pos \<noteq> tot
      then let m' = m(s + c := m (str + pos))
           in if m (str + pos) = 10 then Some (m', pos + 1)
              else fgets_loop m' s str tot (pos + 1) (c + 1)
      else Some (m, pos))"

declare fgets_loop.simps [code]

definition fgets :: "mem \<Rightarrow> cfile list \<Rightarrow> addr \<Rightarrow> int \<Rightarrow> nat \<Rightarrow> (mem \<times> cfile list \<times> addr) option" where
  "fgets m files s sz stream =
     (if stream < length files
      then do {
        let str = fstr (files ! stream);
        tot \<leftarrow> strlen m str;
        (m', pos) \<leftarrow> fgets_loop m s str tot (fpos (files ! stream)) 0;
        Some (m', files[stream := (files ! stream)\<lparr>fpos := pos\<rparr>], 0) }
      else None)"

definition EOF :: u32 where
  "EOF = 0xFFFFFFFF"

definition getc :: "mem \<Rightarrow> cfile list \<Rightarrow> nat \<Rightarrow> (cfile list \<times> u32) option" where
  "getc m files stream =
     (if stream < length files
      then do {
        let str = fstr (files ! stream);
        tot \<leftarrow> strlen m str;
        if fpos (files ! stream) = tot then Some (files, EOF)
        else Some (files[stream := (files ! stream)\<lparr>fpos := fpos (files ! stream) + 1\<rparr>],
          ucast (m (str + fpos (files ! stream)))) }
      else None)"

lemmas stdio_unroll [unroll] = fopen_find.simps fread_loop.simps fgets_loop.simps

section \<open>A file is the rest of its string\<close>

text \<open>\<open>file_rest m files i bs\<close>: what is left to read of file \<open>i\<close> is \<open>bs\<close>.\<close>

definition file_rest :: "mem \<Rightarrow> cfile list \<Rightarrow> nat \<Rightarrow> u8 list \<Rightarrow> bool" where
  "file_rest m files i bs \<longleftrightarrow> i < length files \<and>
     (\<exists>pre. cstr m (fstr (files ! i)) (pre @ bs) \<and> fpos (files ! i) = of_nat (length pre))"

lemma fopen_find_le: "i \<le> SIZE \<Longrightarrow> i \<le> fopen_find files i \<and> fopen_find files i \<le> SIZE"
proof (induction files i rule: fopen_find.induct)
  case (1 files i)
  then show ?case by (subst (1 2) fopen_find.simps) (auto dest: Suc_leD)
qed

lemma fopen_find_free: "fopen_find files i < SIZE \<Longrightarrow> fstr (files ! fopen_find files i) = 0"
proof (induction files i rule: fopen_find.induct)
  case (1 files i)
  then show ?case by (subst fopen_find.simps, subst (asm) (2) fopen_find.simps) (auto split: if_splits)
qed

lemma fopen_find_used: "i \<le> j \<Longrightarrow> j < fopen_find files i \<Longrightarrow> j < SIZE \<Longrightarrow> fstr (files ! j) \<noteq> 0"
proof (induction files i rule: fopen_find.induct)
  case (1 files i)
  then show ?case by (subst (asm) (2) fopen_find.simps) (cases "j = i", auto split: if_splits)
qed

lemma fopen_rest:
  assumes "fopen files str = Some (files', i)" "length files = SIZE" "cstr m str bs"
  shows "file_rest m files' i bs \<and> i < SIZE \<and> fstr (files ! i) = 0 \<and> fclose files' i = files[i := \<lparr>fstr = 0, fpos = 0\<rparr>]"
proof -
  have i: "i = fopen_find files 0" "i < SIZE" "files' = files[i := \<lparr>fstr = str, fpos = 0\<rparr>]"
    using assms(1) by (auto simp: fopen_def Let_def split: if_splits)
  then have "file_rest m files' i bs"
    using assms(2,3) by (auto simp: file_rest_def intro: exI [of _ "[]"])
  then show ?thesis using i fopen_find_free [of files 0] by (simp add: fclose_def)
qed

lemma fopen_none: "fopen files str = None \<longleftrightarrow> (\<forall>j<SIZE. fstr (files ! j) \<noteq> 0)"
proof
  assume "fopen files str = None"
  then have "\<not> fopen_find files 0 < SIZE" by (auto simp: fopen_def Let_def split: if_splits)
  then show "\<forall>j<SIZE. fstr (files ! j) \<noteq> 0" using fopen_find_used [of 0 _ files] by simp
next
  assume "\<forall>j<SIZE. fstr (files ! j) \<noteq> 0"
  then show "fopen files str = None"
    using fopen_find_free [of files 0] by (auto simp: fopen_def Let_def)
qed

lemma word_of_nat_prefix:
  "cstr m s (pre @ bs) \<Longrightarrow> (of_nat (length pre) = (of_nat (length (pre @ bs)) :: u32)) \<longleftrightarrow> bs = []"
  using cstr_length_bound [of m s "pre @ bs"] by (subst of_nat_eq_iff32) auto

lemma getc_end: "file_rest m files i [] \<Longrightarrow> getc m files i = Some (files, EOF)"
  by (auto simp: file_rest_def getc_def strlen_cstr)

lemma getc_byte:
  assumes "file_rest m files i (b # bs)"
  shows "\<exists>files'. getc m files i = Some (files', ucast b) \<and> file_rest m files' i bs \<and>
    files' = files[i := files' ! i] \<and> fstr (files' ! i) = fstr (files ! i)"
proof -
  obtain pre where pre: "i < length files" "cstr m (fstr (files ! i)) (pre @ b # bs)"
      "fpos (files ! i) = of_nat (length pre)"
    using assms by (auto simp: file_rest_def)
  have m: "m (fstr (files ! i) + of_nat (length pre)) = b"
    using cstr_nth [OF pre(2), of "length pre"] by simp
  define files' where "files' = files[i := (files ! i)\<lparr>fpos := fpos (files ! i) + 1\<rparr>]"
  have "getc m files i = Some (files', ucast b)"
    using pre m word_of_nat_prefix [OF pre(2)]
    by (simp add: getc_def strlen_cstr files'_def del: of_nat_Suc of_nat_add)
  moreover have "file_rest m files' i bs"
    using pre by (auto simp: file_rest_def files'_def intro!: exI [of _ "pre @ [b]"])
  ultimately show ?thesis using pre(1) by (auto simp: files'_def)
qed

lemma in_block_Suc: "in_block x (a + 1) k \<Longrightarrow> Suc k \<le> 4294967296 \<Longrightarrow> in_block x a (Suc k)"
proof -
  assume b: "in_block x (a + 1) k" and k: "Suc k \<le> 4294967296"
  define d where "d = x - (a + 1)"
  have "unat d < k" using b by (simp add: in_block_def d_def)
  moreover from this k have "unat (d + 1) = Suc (unat d)"
    using unat_plus_one_less [of d "of_nat k"] by (auto simp: word_less_nat_alt unat_of_nat32)
  moreover have "x - a = d + 1" by (simp add: d_def)
  ultimately show ?thesis by (simp add: in_block_def)
qed

lemma in_block_self: "0 < k \<Longrightarrow> in_block a a k"
  by (simp add: in_block_def)

lemma fread_loop_rest:
  "\<lbrakk>cstr m str (pre @ bs); bs \<noteq> []; c \<le> n; k = min (unat n - unat c) (length bs);
    \<forall>i\<le>length (pre @ bs). \<not> in_block (str + of_nat i) (ptr + c) k\<rbrakk> \<Longrightarrow>
   fread_loop m ptr str (of_nat (length (pre @ bs))) n (of_nat (length pre)) c =
     (write_bytes m (ptr + c) (take k bs), of_nat (length pre + k), c + of_nat k)"
proof (induction bs arbitrary: m pre c k)
  case Nil
  then show ?case by simp
next
  case (Cons b bs)
  show ?case
  proof (cases "c < n")
    case False
    with Cons.prems(3) have "c = n" by simp
    moreover from this Cons.prems(4) have "k = 0" by simp
    ultimately have "c = n" "k = 0" by simp_all
    then show ?thesis by (simp add: fread_loop.simps)
  next
    case True
    have uc: "unat (c + 1) = Suc (unat c)" using True by (rule unat_plus_one_less)
    have lt: "unat c < unat n" using True by (simp add: word_less_nat_alt)
    with Cons.prems obtain k' where k: "k = Suc k'" "k' = min (unat n - unat (c + 1)) (length bs)"
      by (auto simp: uc)
    have un: "unat n < 2 ^ 32" using unsigned_less [of n, where 'a = nat] by simp
    have mb: "m (str + of_nat (length pre)) = b"
      using cstr_nth [OF Cons.prems(1), of "length pre"] by simp
    define m' where "m' = m(ptr + c := b)"
    have c': "cstr m' str ((pre @ [b]) @ bs)"
    proof -
      have "m' (str + of_nat i) = m (str + of_nat i)" if "i \<le> length (pre @ b # bs)" for i
        using Cons.prems(5) that in_block_self [of k "ptr + c"] k by (auto simp: m'_def)
      then have "cstr m' str (pre @ b # bs)"
        using Cons.prems(1) by (subst cstr_cong [of _ _ _ m]) auto
      then show ?thesis by simp
    qed
    have step: "fread_loop m ptr str (of_nat (length (pre @ b # bs))) n (of_nat (length pre)) c =
       (if bs = [] then (m', of_nat (length (pre @ [b])), c + 1)
        else fread_loop m' ptr str (of_nat (length ((pre @ [b]) @ bs))) n (of_nat (length (pre @ [b]))) (c + 1))"
      using True mb word_of_nat_prefix [OF c']
      by (subst fread_loop.simps) (simp add: Let_def m'_def add.commute)
    show ?thesis
    proof (cases "bs = []")
      case True
      with k have "k' = 0" by simp
      with True show ?thesis
        unfolding step using k by (simp add: m'_def del: fun_upd_apply)
    next
      case False
      have "\<forall>i\<le>length ((pre @ [b]) @ bs). \<not> in_block (str + of_nat i) (ptr + (c + 1)) k'"
      proof (intro allI impI notI)
        fix i assume i: "i \<le> length ((pre @ [b]) @ bs)" and "in_block (str + of_nat i) (ptr + (c + 1)) k'"
        then have "in_block (str + of_nat i) (ptr + c) (Suc k')"
          using k(2) un by (intro in_block_Suc) (simp_all add: add.assoc)
        with i Cons.prems(5) k(1) show False by simp
      qed
      moreover have "c + 1 \<le> n" using lt by (simp add: word_le_nat_alt uc)
      ultimately have "fread_loop m' ptr str (of_nat (length ((pre @ [b]) @ bs))) n (of_nat (length (pre @ [b]))) (c + 1)
          = (write_bytes m' (ptr + (c + 1)) (take k' bs), of_nat (length (pre @ [b]) + k'), c + 1 + of_nat k')"
        using Cons.IH [OF c' False _ k(2)] by blast
      then show ?thesis
        unfolding step using False k(1) by (simp add: m'_def add.assoc add.commute [of 1])
    qed
  qed
qed

lemma fread_rest:
  assumes f: "file_rest m files i bs" and k: "k = min (unat (sz * nmemb)) (length bs)"
    and a: "apart (fstr (files ! i)) (Suc (length bs') ) ptr k" "cstr m (fstr (files ! i)) bs'"
  shows "\<exists>files'. fread m files ptr sz nmemb i = Some (write_bytes m ptr (take k bs), files', of_nat k) \<and>
    file_rest (write_bytes m ptr (take k bs)) files' i (drop k bs) \<and>
    files' = files[i := files' ! i] \<and> fstr (files' ! i) = fstr (files ! i)"
proof -
  let ?s = "fstr (files ! i)"
  obtain pre where pre: "i < length files" "cstr m ?s (pre @ bs)" "fpos (files ! i) = of_nat (length pre)"
    using f by (auto simp: file_rest_def)
  have bs': "bs' = pre @ bs" using a(2) pre(2) by (rule cstr_unique)
  have far: "\<forall>j\<le>length (pre @ bs). \<not> in_block (?s + of_nat j) ptr k"
    using a(1) by (auto simp: apart_def bs' less_Suc_eq_le)
  have kb: "length (take k bs) = k" "k \<le> 4294967296"
    using k cstr_length_bound [OF pre(2)] by auto
  show ?thesis
  proof (cases "bs = []")
    case True
    with pre k f show ?thesis by (auto simp: fread_def strlen_cstr)
  next
    case False
    define files' where "files' = files[i := (files ! i)\<lparr>fpos := of_nat (length pre + k)\<rparr>]"
    have "fread_loop m ptr ?s (of_nat (length (pre @ bs))) (sz * nmemb) (of_nat (length pre)) 0 =
       (write_bytes m ptr (take k bs), of_nat (length pre + k), of_nat k)"
      using fread_loop_rest [OF pre(2) False, of 0 "sz * nmemb" k ptr] k far by simp
    then have "fread m files ptr sz nmemb i = Some (write_bytes m ptr (take k bs), files', of_nat k)"
      using pre False word_of_nat_prefix [OF pre(2)]
      by (simp add: fread_def strlen_cstr files'_def del: of_nat_add)
    moreover have "cstr (write_bytes m ptr (take k bs)) ?s (pre @ bs)"
      using pre(2) far kb by (subst cstr_cong [of _ _ _ m]) (auto simp: write_bytes_outside)
    then have "file_rest (write_bytes m ptr (take k bs)) files' i (drop k bs)"
      using pre(1) k by (auto simp: file_rest_def files'_def intro!: exI [of _ "pre @ take k bs"])
    ultimately show ?thesis using pre(1) by (auto simp: files'_def)
  qed
qed

section \<open>Properties\<close>

text \<open>\<open>fread\<close> into a buffer away from the string copies the next bytes of the file, as many as
  were asked for and are left, and leaves the rest to read.\<close>

theorem fread_result:
  "file_rest m files i bs \<Longrightarrow> cstr m (fstr (files ! i)) all \<Longrightarrow>
   apart (fstr (files ! i)) (Suc (length all)) ptr (min (unat (sz * nmemb)) (length bs)) \<Longrightarrow>
   \<exists>m' files'. fread m files ptr sz nmemb i = Some (m', files', of_nat (min (unat (sz * nmemb)) (length bs))) \<and>
     m' = write_bytes m ptr (take (unat (sz * nmemb)) bs) \<and>
     file_rest m' files' i (drop (unat (sz * nmemb)) bs)"
proof -
  assume a: "file_rest m files i bs" "cstr m (fstr (files ! i)) all"
    "apart (fstr (files ! i)) (Suc (length all)) ptr (min (unat (sz * nmemb)) (length bs))"
  have "take (min n (length bs)) bs = take n bs" "drop (min n (length bs)) bs = drop n bs" for n
    by (cases "n \<le> length bs"; simp)+
  then show ?thesis using fread_rest [OF a(1) refl a(3,2)] by auto
qed

lemma fread_result_witness:
  "\<exists>m' files'. fread (write_bytes (\<lambda>_. 0) 4 [1, 2, 3]) [\<lparr>fstr = 4, fpos = 1\<rparr>] 100 1 8 0 = Some (m', files', 2) \<and>
     m' = write_bytes (write_bytes (\<lambda>_. 0) 4 [1, 2, 3]) 100 [2, 3] \<and> file_rest m' files' 0 []"
proof -
  let ?m = "write_bytes (\<lambda>_. 0) 4 [1, 2, 3]" and ?f = "[\<lparr>fstr = 4, fpos = 1\<rparr>]"
  have "file_rest ?m ?f 0 [2, 3]" by (auto simp: file_rest_def intro!: exI [of _ "[1]"])
  moreover have "cstr ?m (fstr (?f ! 0)) [1, 2, 3]" by simp
  moreover have "apart (fstr (?f ! 0)) (Suc (length [1, 2, 3 :: u8])) 100 (min (unat (1 * 8 :: u32)) (length [2, 3 :: u8]))"
    by (intro apart_before) simp_all
  ultimately show ?thesis using fread_result [of ?m ?f 0 "[2, 3]" "[1, 2, 3]" 100 1 8] by simp
qed

text \<open>\<open>getc\<close> returns the next byte and moves on, and \<open>EOF\<close> at the end of the string.\<close>

theorem getc_result:
  "file_rest m files i bs \<Longrightarrow>
   \<exists>files'. getc m files i = Some (files', if bs = [] then EOF else ucast (hd bs)) \<and> file_rest m files' i (tl bs)"
  by (cases bs) (auto dest: getc_byte simp: getc_end)

lemma getc_result_witness:
  "\<exists>files'. getc (write_bytes (\<lambda>_. 0) 4 [1, 255, 3]) [\<lparr>fstr = 4, fpos = 1\<rparr>] 0 = Some (files', 0xFF) \<and>
     file_rest (write_bytes (\<lambda>_. 0) 4 [1, 255, 3]) files' 0 [3]"
proof -
  have "file_rest (write_bytes (\<lambda>_. 0) 4 [1, 255, 3]) [\<lparr>fstr = 4, fpos = 1\<rparr>] 0 [255, 3]"
    by (auto simp: file_rest_def intro!: exI [of _ "[1]"])
  from getc_result [OF this] show ?thesis by simp
qed

text \<open>\<open>fopen\<close> fails to stay within \<open>files\<close> exactly when all ten entries are in use; else it
  returns a free entry.\<close>

theorem fopen_table:
  "(fopen files str = None) = (0 \<notin> (\<lambda>j. fstr (files ! j)) ` {..<SIZE}) \<and>
   (case fopen files str of None \<Rightarrow> True
    | Some (files', i) \<Rightarrow> i < SIZE \<and> fstr (files ! i) = 0 \<and> files' = files[i := \<lparr>fstr = str, fpos = 0\<rparr>])"
  using fopen_none [of files str] fopen_find_free [of files 0]
  by (auto simp: fopen_def Let_def split: option.splits if_splits)

end
