(* ===== verification/Bitcount.thy ===== *)
theory Bitcount
  imports Console
begin

text \<open>
  The bit counters of \<^verbatim>\<open>bench/bitcount\<close> and the driver \<open>bitcnts\<close>.  \<open>long\<close> is a 32-bit
  word; a right shift of a signed \<open>long\<close> is arithmetic (\<open>signed_drop_bit\<close>), one of a value
  masked with an unsigned constant logical (\<open>drop_bit\<close>).  A recursion on an arithmetic shift
  need not stop, so the counters return an option.
\<close>

unbundle bit_operations_syntax

section \<open>The counters\<close>

partial_function (option) bit_count_loop :: "u32 \<Rightarrow> int \<Rightarrow> int option" where
  "bit_count_loop x n =
     (let n' = n + 1; x' = x AND (x - 1)
      in if 0 \<noteq> x' then bit_count_loop x' n' else Some n')"

declare bit_count_loop.simps [code]

definition bit_count :: "u32 \<Rightarrow> int option" where
  "bit_count x = (if x \<noteq> 0 then bit_count_loop x 0 else Some 0)"

text \<open>The five constants do not fit a signed \<open>long\<close>, so the masked values are unsigned and
  the result is converted back.\<close>

definition bitcount :: "u32 \<Rightarrow> int option" where
  "bitcount i0 =
     (let i1 = drop_bit 1 (i0 AND 0xAAAAAAAA) + (i0 AND 0x55555555);
          i2 = drop_bit 2 (i1 AND 0xCCCCCCCC) + (i1 AND 0x33333333);
          i3 = drop_bit 4 (i2 AND 0xF0F0F0F0) + (i2 AND 0x0F0F0F0F);
          i4 = drop_bit 8 (i3 AND 0xFF00FF00) + (i3 AND 0x00FF00FF);
          i5 = drop_bit 16 (i4 AND 0xFFFF0000) + (i4 AND 0x0000FFFF)
      in Some (sint i5))"

definition bits :: "int list" where
  "bits =
     [0, 1, 1, 2, 1, 2, 2, 3, 1, 2, 2, 3, 2, 3, 3, 4,
      1, 2, 2, 3, 2, 3, 3, 4, 2, 3, 3, 4, 3, 4, 4, 5,
      1, 2, 2, 3, 2, 3, 3, 4, 2, 3, 3, 4, 3, 4, 4, 5,
      2, 3, 3, 4, 3, 4, 4, 5, 3, 4, 4, 5, 4, 5, 5, 6,
      1, 2, 2, 3, 2, 3, 3, 4, 2, 3, 3, 4, 3, 4, 4, 5,
      2, 3, 3, 4, 3, 4, 4, 5, 3, 4, 4, 5, 4, 5, 5, 6,
      2, 3, 3, 4, 3, 4, 4, 5, 3, 4, 4, 5, 4, 5, 5, 6,
      3, 4, 4, 5, 4, 5, 5, 6, 4, 5, 5, 6, 5, 6, 6, 7,
      1, 2, 2, 3, 2, 3, 3, 4, 2, 3, 3, 4, 3, 4, 4, 5,
      2, 3, 3, 4, 3, 4, 4, 5, 3, 4, 4, 5, 4, 5, 5, 6,
      2, 3, 3, 4, 3, 4, 4, 5, 3, 4, 4, 5, 4, 5, 5, 6,
      3, 4, 4, 5, 4, 5, 5, 6, 4, 5, 5, 6, 5, 6, 6, 7,
      2, 3, 3, 4, 3, 4, 4, 5, 3, 4, 4, 5, 4, 5, 5, 6,
      3, 4, 4, 5, 4, 5, 5, 6, 4, 5, 5, 6, 5, 6, 6, 7,
      3, 4, 4, 5, 4, 5, 5, 6, 4, 5, 5, 6, 5, 6, 6, 7,
      4, 5, 5, 6, 5, 6, 6, 7, 5, 6, 6, 7, 6, 7, 7, 8]"

definition ntbl_bitcount :: "u32 \<Rightarrow> int option" where
  "ntbl_bitcount x = Some (
     bits ! unat (x AND 0x0000000F) +
     bits ! unat (drop_bit 4 (x AND 0x000000F0)) +
     bits ! unat (drop_bit 8 (x AND 0x00000F00)) +
     bits ! unat (drop_bit 12 (x AND 0x0000F000)) +
     bits ! unat (drop_bit 16 (x AND 0x000F0000)) +
     bits ! unat (drop_bit 20 (x AND 0x00F00000)) +
     bits ! unat (drop_bit 24 (x AND 0x0F000000)) +
     bits ! unat (drop_bit 28 (x AND 0xF0000000)))"

text \<open>The \<open>k\<close>-th byte in memory of a little-endian \<open>long\<close>.\<close>

definition long_byte :: "u32 \<Rightarrow> nat \<Rightarrow> u8" where
  "long_byte x k = ucast (drop_bit (8 * k) x)"

definition BW_btbl_bitcount :: "u32 \<Rightarrow> int option" where
  "BW_btbl_bitcount x = Some (
     bits ! unat (long_byte x 0) + bits ! unat (long_byte x 1) +
     bits ! unat (long_byte x 3) + bits ! unat (long_byte x 2))"

definition AR_btbl_bitcount :: "u32 \<Rightarrow> int option" where
  "AR_btbl_bitcount x =
     (let Accu = bits ! unat (long_byte x 0);
          Accu = Accu + bits ! unat (long_byte x 1);
          Accu = Accu + bits ! unat (long_byte x 2);
          Accu = Accu + bits ! unat (long_byte x 3)
      in Some Accu)"

partial_function (option) ntbl_bitcnt :: "u32 \<Rightarrow> int option" where
  "ntbl_bitcnt x =
     (let cnt = bits ! unat (x AND 0x0000000F); x' = signed_drop_bit 4 x
      in if 0 \<noteq> x' then do { c \<leftarrow> ntbl_bitcnt x'; Some (cnt + c) } else Some cnt)"

declare ntbl_bitcnt.simps [code]

partial_function (option) btbl_bitcnt :: "u32 \<Rightarrow> int option" where
  "btbl_bitcnt x =
     (let cnt = bits ! unat (long_byte x 0); x' = signed_drop_bit 8 x
      in if 0 \<noteq> x' then do { c \<leftarrow> btbl_bitcnt x'; Some (cnt + c) } else Some cnt)"

declare btbl_bitcnt.simps [code]

function bit_shifter_loop :: "u32 \<Rightarrow> nat \<Rightarrow> int \<Rightarrow> int" where
  "bit_shifter_loop x i n =
     (if x \<noteq> 0 \<and> i < 32 then bit_shifter_loop (signed_drop_bit 1 x) (i + 1) (n + sint (x AND 1))
      else n)"
  by pat_completeness auto
termination
  by (relation "measure (\<lambda>(x, i, n). 32 - i)") auto

definition bit_shifter :: "u32 \<Rightarrow> int option" where
  "bit_shifter x = Some (bit_shifter_loop x 0 0)"

section \<open>The driver\<close>

definition myrand :: u32 where
  "myrand =
     (let lfsr = 0xACE1;
          b = (lfsr XOR drop_bit 2 lfsr XOR drop_bit 3 lfsr XOR drop_bit 5 lfsr) AND 1
      in drop_bit 1 lfsr OR push_bit 15 b)"

definition pBitCntFunc :: "(u32 \<Rightarrow> int option) list" where
  "pBitCntFunc = [bit_count, bitcount, ntbl_bitcnt, ntbl_bitcount, BW_btbl_bitcount,
     AR_btbl_bitcount, bit_shifter]"

text \<open>The inner loop of \<open>bitcnts\<close>, \<open>left = iterations - j\<close> calls of one counter.\<close>

fun bitcnts_run :: "(u32 \<Rightarrow> int option) \<Rightarrow> nat \<Rightarrow> u32 \<Rightarrow> int \<Rightarrow> int option" where
  "bitcnts_run f 0 seed n = Some n"
| "bitcnts_run f (Suc left) seed n =
     do { c \<leftarrow> f seed; bitcnts_run f left (seed + 13) (n + c) }"

text \<open>The outer loop: \<open>n\<close> starts at 0 for each counter, so the last one's sum is left.\<close>

fun bitcnts_loop :: "(u32 \<Rightarrow> int option) list \<Rightarrow> nat \<Rightarrow> int \<Rightarrow> int option" where
  "bitcnts_loop [] iterations n = Some n"
| "bitcnts_loop (f # fs) iterations n =
     do { n' \<leftarrow> bitcnts_run f iterations myrand 0; bitcnts_loop fs iterations n' }"

text \<open>What \<open>bitcnts\<close> prints, and its result.\<close>

definition bitcnts :: "nat \<Rightarrow> (u8 list \<times> int) option" where
  "bitcnts iterations =
     do { n \<leftarrow> bitcnts_loop pBitCntFunc iterations 0;
          Some (puts_text (ln ''Bit counter algorithm benchmark''), n) }"

declare bit_shifter_loop.simps [simp del]

lemmas bitcount_unroll [unroll] = bit_count_loop.simps ntbl_bitcnt.simps btbl_bitcnt.simps
  bit_shifter_loop.simps

section \<open>The number of bits set\<close>

fun pc :: "nat \<Rightarrow> nat" where
  "pc n = (if n = 0 then 0 else n mod 2 + pc (n div 2))"

declare pc.simps [simp del]

definition popcount :: "u32 \<Rightarrow> int" where
  "popcount x = (\<Sum>i<32. of_bool (bit x i))"

lemma pc_0 [simp]: "pc 0 = 0"
  by (simp add: pc.simps)

lemma pc_rec: "pc n = n mod 2 + pc (n div 2)"
  by (cases "n = 0") (simp_all add: pc.simps [of n])

lemma pc_bits: "n < 2 ^ k \<Longrightarrow> pc n = (\<Sum>i<k. of_bool (bit n i))"
proof (induction k arbitrary: n)
  case 0
  then show ?case by simp
next
  case (Suc k)
  have "pc n = n mod 2 + (\<Sum>i<k. of_bool (bit (n div 2) i))"
    using Suc by (subst pc_rec) simp
  also have "\<dots> = (\<Sum>i<Suc k. of_bool (bit n i))"
    by (simp add: sum.lessThan_Suc_shift bit_Suc bit_0 mod_2_eq_odd del: sum.lessThan_Suc)
  finally show ?case .
qed

lemma popcount_pc: "popcount x = int (pc (unat x))"
  using unsigned_less [of x, where 'a = nat]
  by (simp add: popcount_def pc_bits [of _ 32] bit_unsigned_iff)

lemma pc_split: "a < 2 ^ k \<Longrightarrow> pc (a + 2 ^ k * b) = pc a + pc b"
proof (induction k arbitrary: a)
  case 0
  then show ?case by simp
next
  case (Suc k)
  have d: "(a + 2 ^ Suc k * b) div 2 = a div 2 + 2 ^ k * b" by (simp add: mult.assoc)
  have m: "(a + 2 ^ Suc k * b) mod 2 = a mod 2" by (simp add: mult.assoc)
  have "a div 2 < 2 ^ k" using Suc.prems by simp
  from Suc.IH [OF this] show ?case
    unfolding pc_rec [of "a + 2 ^ Suc k * b"] pc_rec [of a] d m by simp
qed

lemma pc_div_mod: "pc n = pc (n mod 2 ^ k) + pc (n div 2 ^ k)"
  using pc_split [of "n mod 2 ^ k" k "n div 2 ^ k"] by (simp add: add.commute)

lemma pc_numeral:
  "pc (numeral (num.Bit0 n)) = pc (numeral n)" "pc (numeral (num.Bit1 n)) = Suc (pc (numeral n))"
  "pc 1 = 1" "pc (Suc 0) = 1"
  by (simp_all add: pc.simps [of "numeral _"] pc.simps [of "Suc 0"])

lemma bits_pc: "bits = map (\<lambda>n. int (pc n)) [0..<256]"
  by (simp add: bits_def upt_from_2 upt_rec_numeral pc_numeral)

lemma nth_bits: "n < 256 \<Longrightarrow> bits ! n = int (pc n)"
  by (simp add: bits_pc)

lemma pc_pos: "0 < n \<Longrightarrow> 0 < pc n"
proof (induction n rule: pc.induct)
  case (1 n)
  show ?case
  proof (cases "n mod 2 = 0")
    case True
    then have "0 < n div 2" using 1(2) by auto
    with 1 show ?thesis by (subst pc_rec) simp
  next
    case False
    then show ?thesis by (subst pc_rec) simp
  qed
qed

lemma pc_clear_lowest: "0 < n \<Longrightarrow> Suc (pc (n AND (n - 1))) = pc n"
proof (induction n rule: pc.induct)
  case (1 n)
  then have n: "n \<noteq> 0" by simp
  define k where "k = n div 2"
  show ?case
  proof (cases "odd n")
    case True
    then have e: "n = 2 * k + 1" by (simp add: k_def)
    have "n AND (n - 1) = 2 * k"
      by (subst and_nat_rec) (simp add: e)
    then show ?thesis
      using e by (simp add: pc_rec [of "2 * k"] pc_rec [of "2 * k + 1"] pc_rec [of "Suc (2 * k)"])
  next
    case False
    then have e: "n = 2 * k" by (simp add: k_def)
    with n have k: "0 < k" by simp
    have "(2 * k - 1) div 2 = k - 1" using k by simp
    then have "n AND (n - 1) = 2 * (k AND (k - 1))"
      using e by (subst and_nat_rec) simp
    moreover have "Suc (pc (k AND (k - 1))) = pc k"
      using 1(1) [OF n] k by (simp add: k_def)
    ultimately show ?thesis
      using e by (simp add: pc_rec [of "2 * _"])
  qed
qed

lemma bit_count_loop_popcount: "x \<noteq> 0 \<Longrightarrow> bit_count_loop x n = Some (n + popcount x)"
proof (induction "pc (unat x)" arbitrary: x n rule: less_induct)
  case less
  let ?y = "x AND (x - 1)"
  have p: "0 < unat x" using less.prems by (simp add: unat_gt_0)
  have y: "Suc (pc (unat ?y)) = pc (unat x)"
    using pc_clear_lowest [OF p] less.prems by (simp add: unsigned_and_eq unat_minus_one_nz)
  show ?case
  proof (cases "?y = 0")
    case True
    with y have "pc (unat x) = 1" by simp
    with True show ?thesis
      by (simp add: bit_count_loop.simps popcount_pc)
  next
    case False
    moreover have "pc (unat ?y) < pc (unat x)" using y by simp
    ultimately have "bit_count_loop ?y (n + 1) = Some (n + 1 + popcount ?y)"
      using less.hyps by simp
    with False y [symmetric] show ?thesis
      by (simp add: bit_count_loop.simps popcount_pc)
  qed
qed

section \<open>Adding the fields of a word in pairs\<close>

fun dsum :: "nat \<Rightarrow> nat \<Rightarrow> nat \<Rightarrow> nat" where
  "dsum k 0 n = 0"
| "dsum k (Suc m) n = n mod 2 ^ k + dsum k m (n div 2 ^ k)"

fun low_fields :: "nat \<Rightarrow> nat \<Rightarrow> nat" where
  "low_fields k 0 = 0"
| "low_fields k (Suc m) = mask k + 2 ^ (2 * k) * low_fields k m"

definition pairs :: "nat \<Rightarrow> nat \<Rightarrow> nat \<Rightarrow> nat" where
  "pairs k m n = (drop_bit k n AND low_fields k m) + (n AND low_fields k m)"

lemma and_low_fields:
  "n AND low_fields k (Suc m) =
   take_bit k n + 2 ^ (2 * k) * (drop_bit (2 * k) n AND low_fields k m)"
proof -
  let ?l = "low_fields k m"
  have d: "mask k + push_bit (2 * k) ?l = mask k OR push_bit (2 * k) ?l"
    by (rule disjunctive_add) (auto simp: bit_simps)
  have e: "take_bit k n + push_bit (2 * k) l = take_bit k n OR push_bit (2 * k) l" for l :: nat
    by (rule disjunctive_add) (auto simp: bit_simps)
  have "n AND (mask k OR push_bit (2 * k) ?l) =
      take_bit k n OR push_bit (2 * k) (drop_bit (2 * k) n AND ?l)"
    by (rule bit_eqI) (auto simp: bit_simps)
  then have "n AND (mask k + push_bit (2 * k) ?l) =
      take_bit k n + push_bit (2 * k) (drop_bit (2 * k) n AND ?l)"
    by (simp only: d e)
  then show ?thesis
    by (simp only: low_fields.simps push_bit_eq_mult mult.commute [of _ "2 ^ (2 * k)"])
qed

lemma pairs_Suc:
  "pairs k (Suc m) n = (n mod 2 ^ k + (n div 2 ^ k) mod 2 ^ k) + 2 ^ (2 * k) * pairs k m (n div 2 ^ (2 * k))"
  unfolding pairs_def and_low_fields
  by (simp add: take_bit_eq_mod drop_bit_eq_div algebra_simps div_mult2_eq [symmetric])

lemma pair_small: "0 < k \<Longrightarrow> n mod 2 ^ k + l mod 2 ^ k < 2 ^ (2 * k)" for n l :: nat
proof -
  assume "0 < k"
  then have "(2::nat) * 2 ^ k \<le> 2 ^ k * 2 ^ k"
    by (intro mult_right_mono) (simp_all add: self_le_power)
  moreover have "n mod 2 ^ k < 2 ^ k" "l mod 2 ^ k < 2 ^ k" by simp_all
  ultimately show ?thesis
    unfolding mult_2 [of k] power_add by linarith
qed

lemma pairs_less: "0 < k \<Longrightarrow> pairs k m n < 2 ^ (2 * k * m)"
proof (induction m arbitrary: n)
  case 0
  then show ?case by (simp add: pairs_def)
next
  case (Suc m)
  let ?M = "(2::nat) ^ (2 * k)"
  have "pairs k m (n div ?M) + 1 \<le> 2 ^ (2 * k * m)" using Suc by (simp add: Suc_leI)
  then have "?M * (pairs k m (n div ?M) + 1) \<le> ?M * 2 ^ (2 * k * m)" by (rule mult_left_mono) simp
  also have "\<dots> = 2 ^ (2 * k * Suc m)" by (simp add: power_add)
  finally show ?case
    using pair_small [OF Suc.prems, of n "n div 2 ^ k"] by (simp add: pairs_Suc)
qed

lemma dsum_pairs: "0 < k \<Longrightarrow> dsum (2 * k) m (pairs k m n) = dsum k (2 * m) n"
proof (induction m arbitrary: n)
  case 0
  then show ?case by simp
next
  case (Suc m)
  let ?s = "n mod 2 ^ k + (n div 2 ^ k) mod 2 ^ k" and ?r = "pairs k m (n div 2 ^ (2 * k))"
  have s: "?s < 2 ^ (2 * k)" using Suc.prems by (rule pair_small)
  then have "(?s + 2 ^ (2 * k) * ?r) mod 2 ^ (2 * k) = ?s" "(?s + 2 ^ (2 * k) * ?r) div 2 ^ (2 * k) = ?r"
    by simp_all
  moreover have "dsum (2 * k) m ?r = dsum k (2 * m) (n div 2 ^ k div 2 ^ k)"
    using Suc by (simp add: div_mult2_eq mult_2 power_add)
  ultimately show ?case
    by (simp add: pairs_Suc)
qed

lemma dsum_pc: "n < 2 ^ m \<Longrightarrow> dsum 1 m n = pc n"
proof (induction m arbitrary: n)
  case 0
  then show ?case by simp
next
  case (Suc m)
  then show ?case by (subst pc_rec) simp
qed

lemma merge_step:
  fixes x lo hi :: u32
  assumes "lo = of_nat (low_fields k m)" "hi = push_bit k lo" "0 < k" "2 * k * m = 32"
    "low_fields k m < 2 ^ 32"
  shows "unat (drop_bit k (x AND hi) + (x AND lo)) = pairs k m (unat x)"
proof -
  have lo: "unat lo = low_fields k m"
    using assms(1,5) by (simp add: unat_of_nat32)
  have k: "k < 32" using assms(3,4) by (cases m) auto
  have "drop_bit k (x AND hi) = drop_bit k x AND drop_bit k (push_bit k lo)"
    by (simp add: assms(2))
  also have "\<dots> = drop_bit k x AND lo"
  proof (rule bit_word_eqI)
    fix n assume "n < LENGTH(32)"
    show "bit (drop_bit k x AND drop_bit k (push_bit k lo)) n = bit (drop_bit k x AND lo) n"
      by (auto simp: bit_simps dest: bit_imp_le_length)
  qed
  finally have d: "unat (drop_bit k (x AND hi)) = drop_bit k (unat x) AND low_fields k m"
    by (simp add: unsigned_and_eq unat_drop_bit_eq lo)
  have a: "unat (x AND lo) = unat x AND low_fields k m"
    by (simp add: unsigned_and_eq lo)
  have "pairs k m (unat x) < 2 ^ 32" using pairs_less [of k m "unat x"] assms(3,4) by simp
  then have "unat (drop_bit k (x AND hi)) + unat (x AND lo) < 2 ^ LENGTH(32)"
    unfolding d a pairs_def by simp
  then have "unat (drop_bit k (x AND hi) + (x AND lo)) = unat (drop_bit k (x AND hi)) + unat (x AND lo)"
    by (simp only: unat_add_lem)
  then show ?thesis
    unfolding d a pairs_def .
qed


lemma low_fields_numeral:
  "low_fields k (numeral v) = mask k + 2 ^ (2 * k) * low_fields k (pred_numeral v)"
  by (simp add: numeral_eq_Suc)

lemma bitcount_popcount: "bitcount x = Some (popcount x)"
proof -
  define i1 where "i1 = drop_bit 1 (x AND 0xAAAAAAAA) + (x AND 0x55555555)"
  define i2 where "i2 = drop_bit 2 (i1 AND 0xCCCCCCCC) + (i1 AND 0x33333333)"
  define i3 where "i3 = drop_bit 4 (i2 AND 0xF0F0F0F0) + (i2 AND 0x0F0F0F0F)"
  define i4 where "i4 = drop_bit 8 (i3 AND 0xFF00FF00) + (i3 AND 0x00FF00FF)"
  define i5 where "i5 = drop_bit 16 (i4 AND 0xFFFF0000) + (i4 AND 0x0000FFFF)"
  note ev = low_fields.simps mask_eq_exp_minus_1 push_bit_eq_mult low_fields_numeral
  have "unat i1 = pairs 1 16 (unat x)" unfolding i1_def
    by (rule merge_step) (simp_all add: ev)
  moreover have "unat i2 = pairs 2 8 (unat i1)" unfolding i2_def
    by (rule merge_step) (simp_all add: ev)
  moreover have "unat i3 = pairs 4 4 (unat i2)" unfolding i3_def
    by (rule merge_step) (simp_all add: ev)
  moreover have "unat i4 = pairs 8 2 (unat i3)" unfolding i4_def
    by (rule merge_step) (simp_all add: ev)
  moreover have "unat i5 = pairs 16 1 (unat i4)" unfolding i5_def
    by (rule merge_step) (simp_all add: ev)
  ultimately have "dsum 32 1 (unat i5) = dsum 1 32 (unat x)"
    using dsum_pairs [of 16 1] dsum_pairs [of 8 2] dsum_pairs [of 4 4] dsum_pairs [of 2 8]
      dsum_pairs [of 1 16] by simp
  moreover have "dsum 32 1 (unat i5) = unat i5"
    using unsigned_less [of i5, where 'a = nat] by simp
  moreover have "dsum 1 32 (unat x) = pc (unat x)"
    using unsigned_less [of x, where 'a = nat] by (intro dsum_pc) simp
  ultimately have u: "int (unat i5) = popcount x" by (simp add: popcount_pc)
  have "popcount x \<le> (\<Sum>i<(32::nat). 1)" unfolding popcount_def by (rule sum_mono) simp
  with u have s: "uint i5 < 2 ^ 31" by simp
  then have e: "sint i5 = uint i5"
    by (simp add: sint_uint signed_take_bit_eq_if_positive bit_iff_odd take_bit_int_eq_self)
  have "bitcount x = Some (sint i5)"
    unfolding bitcount_def Let_def i1_def [symmetric] i2_def [symmetric] i3_def [symmetric]
      i4_def [symmetric] i5_def [symmetric] ..
  with u e show ?thesis by simp
qed

lemma pc_digits: "n < 2 ^ (k * m) \<Longrightarrow> pc n = (\<Sum>i<m. pc (n div 2 ^ (k * i) mod 2 ^ k))"
proof (induction m arbitrary: n)
  case 0
  then show ?case by simp
next
  case (Suc m)
  have "n div 2 ^ k < 2 ^ (k * m)"
    using Suc.prems by (simp add: less_mult_imp_div_less power_add mult.commute)
  from Suc.IH [OF this] show ?case
    using pc_div_mod [of n k]
    by (simp add: sum.lessThan_Suc_shift div_mult2_eq power_add del: sum.lessThan_Suc)
qed

lemma unat_x: "unat (x::u32) < 2 ^ 32" using unsigned_less [of x, where 'a = nat] by simp

lemma pc_nibbles:
  "pc (unat (x :: u32)) = (\<Sum>i<8. pc (unat x div 2 ^ (4 * i) mod 16))"
  using pc_digits [of "unat x" 4 8] unat_x [of x] by simp

lemma pc_four_bytes:
  "pc (unat (x :: u32)) = (\<Sum>i<4. pc (unat x div 2 ^ (8 * i) mod 256))"
  using pc_digits [of "unat x" 8 4] unat_x [of x] by simp

lemma nibble_unat:
  "unat (drop_bit k (x AND push_bit k 15)) = unat x div 2 ^ k mod 16" if "k \<le> 28" for x :: u32
proof -
  have m: "(15 :: u32) = mask 4" by (simp add: mask_eq_exp_minus_1)
  have "drop_bit k (x AND push_bit k 15) = take_bit 4 (drop_bit k x)"
    unfolding m by (rule bit_word_eqI) (use that in \<open>auto simp: bit_simps dest: bit_imp_le_length\<close>)
  then have "unat (drop_bit k (x AND push_bit k 15)) = take_bit 4 (drop_bit k (unat x))"
    by (simp only: unsigned_take_bit_eq unat_drop_bit_eq)
  then show ?thesis
    by (simp add: take_bit_eq_mod drop_bit_eq_div)
qed

lemma unat_long_byte: "unat (long_byte x k) = unat x div 2 ^ (8 * k) mod 256"
proof -
  have "unat (long_byte x k) = take_bit 8 (drop_bit (8 * k) (unat x))"
    by (simp add: long_byte_def unsigned_ucast_eq unat_drop_bit_eq)
  then show ?thesis
    by (simp add: take_bit_eq_mod drop_bit_eq_div)
qed

lemma sum_4: "(\<Sum>i<4. f i) = f 0 + f 1 + f 2 + f 3" for f :: "nat \<Rightarrow> nat"
  by (simp add: eval_nat_numeral)

lemma sum_8: "(\<Sum>i<8. f i) = f 0 + f 1 + f 2 + f 3 + f 4 + f 5 + f 6 + f 7" for f :: "nat \<Rightarrow> nat"
  by (simp add: eval_nat_numeral)

lemma nth_bits_mod: "bits ! (n mod 16) = int (pc (n mod 16))" "bits ! (n mod 256) = int (pc (n mod 256))"
  by (rule nth_bits, simp_all add: less_trans [of _ 16 256])+

lemma byte_counters_popcount:
  "BW_btbl_bitcount x = Some (popcount x)" "AR_btbl_bitcount x = Some (popcount x)"
  unfolding BW_btbl_bitcount_def AR_btbl_bitcount_def unat_long_byte popcount_pc pc_four_bytes sum_4
    nth_bits_mod Let_def by (simp_all only: of_nat_add ac_simps)

lemma nibble_field:
  "m = push_bit k 15 \<Longrightarrow> k = 4 * j \<Longrightarrow> j \<le> 7 \<Longrightarrow>
   unat (drop_bit k (x AND m)) = unat x div 2 ^ (4 * j) mod 16" for x m :: u32
  using nibble_unat [of k x] by simp

lemma nibbles_unat:
  fixes x :: u32
  shows "unat (x AND 0x0000000F) = unat x div 2 ^ (4 * 0) mod 16"
    "unat (drop_bit 4 (x AND 0x000000F0)) = unat x div 2 ^ (4 * 1) mod 16"
    "unat (drop_bit 8 (x AND 0x00000F00)) = unat x div 2 ^ (4 * 2) mod 16"
    "unat (drop_bit 12 (x AND 0x0000F000)) = unat x div 2 ^ (4 * 3) mod 16"
    "unat (drop_bit 16 (x AND 0x000F0000)) = unat x div 2 ^ (4 * 4) mod 16"
    "unat (drop_bit 20 (x AND 0x00F00000)) = unat x div 2 ^ (4 * 5) mod 16"
    "unat (drop_bit 24 (x AND 0x0F000000)) = unat x div 2 ^ (4 * 6) mod 16"
    "unat (drop_bit 28 (x AND 0xF0000000)) = unat x div 2 ^ (4 * 7) mod 16"
   proof -
  show "unat (x AND 0x0000000F) = unat x div 2 ^ (4 * 0) mod 16"
    using nibble_field [of 15 0 0 x] by simp
qed (rule nibble_field; simp add: push_bit_eq_mult)+

lemma ntbl_bitcount_popcount: "ntbl_bitcount x = Some (popcount x)"
proof -
  define d where "d i = unat x div 2 ^ (4 * i) mod 16" for i :: nat
  have "popcount x = int (\<Sum>i<8. pc (d i))" unfolding popcount_pc pc_nibbles d_def ..
  moreover have "bits ! d i = int (pc (d i))" for i unfolding d_def by (rule nth_bits_mod)
  ultimately show ?thesis
    unfolding ntbl_bitcount_def nibbles_unat d_def [symmetric] sum_8 by (simp only: of_nat_add)
qed

lemma signed_drop_bit_nonneg: "\<not> bit x 31 \<Longrightarrow> signed_drop_bit k x = drop_bit k x" for x :: u32
proof (rule bit_word_eqI)
  fix n assume "\<not> bit x 31" "n < LENGTH(32)"
  then show "bit (signed_drop_bit k x) n = bit (drop_bit k x) n"
    by (auto simp: bit_signed_drop_bit_iff bit_drop_bit_eq dest: bit_imp_le_length)
qed

lemma signed_drop_bit_top: "k < 32 \<Longrightarrow> bit (signed_drop_bit k x) 31 = bit x 31" for x :: u32
proof (cases k)
  case (Suc j)
  assume "k < 32"
  with Suc show ?thesis by (simp add: bit_signed_drop_bit_iff)
qed simp

lemma top_bit_drop: "\<not> bit x 31 \<Longrightarrow> \<not> bit (drop_bit k x) 31" for x :: u32
  by (cases k) (auto simp: bit_drop_bit_eq dest: bit_imp_le_length)

lemma table_recursion:
  fixes f :: "u32 \<Rightarrow> int option" and d :: "u32 \<Rightarrow> int"
  assumes eq: "\<And>x. f x = (if 0 \<noteq> signed_drop_bit k x then do { c \<leftarrow> f (signed_drop_bit k x); Some (d x + c) } else Some (d x))"
    and d: "\<And>x. d x = int (pc (unat x mod 2 ^ k))" and k: "0 < k"
  shows "\<not> bit x 31 \<Longrightarrow> f x = Some (popcount x)"
proof (induction "unat x" arbitrary: x rule: less_induct)
  case less
  define y where "y = drop_bit k x"
  have s: "signed_drop_bit k x = y" unfolding y_def using less.prems by (rule signed_drop_bit_nonneg)
  have u: "unat y = unat x div 2 ^ k"
    unfolding y_def unat_drop_bit_eq by (rule drop_bit_eq_div)
  show ?case
  proof (cases "y = 0")
    case True
    then have "unat y = 0" by simp
    with u have "pc (unat x) = pc (unat x mod 2 ^ k)" using pc_div_mod [of "unat x" k] by simp
    with True s show ?thesis by (subst eq) (simp add: d popcount_pc)
  next
    case False
    then have "unat y \<noteq> 0" by (simp add: unat_eq_zero)
    with u have "unat x \<noteq> 0" by (cases "unat x = 0") simp_all
    moreover have "(1::nat) < 2 ^ k" using k by (intro one_less_power) simp_all
    ultimately have "unat y < unat x" using u by simp
    moreover have "\<not> bit y 31" unfolding y_def by (rule top_bit_drop) (rule less.prems)
    ultimately have "f y = Some (popcount y)" by (rule less.hyps)
    then show ?thesis
      using False s u pc_div_mod [of "unat x" k]
      by (subst eq) (simp add: d popcount_pc del: unat_eq_zero)
  qed
qed

lemma unat_and_15: "unat (x AND 15) = unat x mod 16" for x :: u32
  using nibbles_unat(1) [of x] by simp

lemma ntbl_bitcnt_popcount: "\<not> bit x 31 \<Longrightarrow> ntbl_bitcnt x = Some (popcount x)"
  by (rule table_recursion [of _ 4 "\<lambda>x. bits ! unat (x AND 15)"])
     (subst ntbl_bitcnt.simps, simp_all add: Let_def unat_and_15 nth_bits_mod)

lemma btbl_bitcnt_popcount: "\<not> bit x 31 \<Longrightarrow> btbl_bitcnt x = Some (popcount x)"
  by (rule table_recursion [of _ 8 "\<lambda>x. bits ! unat (long_byte x 0)"])
     (subst btbl_bitcnt.simps, simp_all add: Let_def unat_long_byte nth_bits_mod)

text \<open>An arithmetic shift keeps the sign, so the recursion never reaches 0 from a negative
  argument.\<close>

lemma nonneg_of_ntbl: "ntbl_bitcnt x = Some c \<Longrightarrow> \<not> bit x 31"
proof (rule ntbl_bitcnt.raw_induct [of "\<lambda>x c. \<not> bit x 31"])
  fix f and x :: u32 and y
  assume ih: "\<And>x y. f x = Some y \<Longrightarrow> \<not> bit x 31"
    and eq: "(let cnt = bits ! unat (x AND 0x0000000F); x' = signed_drop_bit 4 x
      in if 0 \<noteq> x' then do { c \<leftarrow> f x'; Some (cnt + c) } else Some cnt) = Some y"
  show "\<not> bit x 31"
  proof (cases "signed_drop_bit 4 x = 0")
    case True
    then show ?thesis using signed_drop_bit_top [of 4 x] by simp
  next
    case False
    with eq obtain c where "f (signed_drop_bit 4 x) = Some c"
      by (auto simp: Let_def bind_eq_Some_conv)
    then have "\<not> bit (signed_drop_bit 4 x) 31" by (rule ih)
    then show ?thesis using signed_drop_bit_top [of 4 x] by simp
  qed
qed

lemma nonneg_of_btbl: "btbl_bitcnt x = Some c \<Longrightarrow> \<not> bit x 31"
proof (rule btbl_bitcnt.raw_induct [of "\<lambda>x c. \<not> bit x 31"])
  fix f and x :: u32 and y
  assume ih: "\<And>x y. f x = Some y \<Longrightarrow> \<not> bit x 31"
    and eq: "(let cnt = bits ! unat (long_byte x 0); x' = signed_drop_bit 8 x
      in if 0 \<noteq> x' then do { c \<leftarrow> f x'; Some (cnt + c) } else Some cnt) = Some y"
  show "\<not> bit x 31"
  proof (cases "signed_drop_bit 8 x = 0")
    case True
    then show ?thesis using signed_drop_bit_top [of 8 x] by simp
  next
    case False
    with eq obtain c where "f (signed_drop_bit 8 x) = Some c"
      by (auto simp: Let_def bind_eq_Some_conv)
    then have "\<not> bit (signed_drop_bit 8 x) 31" by (rule ih)
    then show ?thesis using signed_drop_bit_top [of 8 x] by simp
  qed
qed

lemma signed_drop_bit_Suc: "signed_drop_bit 1 (signed_drop_bit i x) = signed_drop_bit (Suc i) x" for x :: u32
  by (rule bit_word_eqI) (auto simp: bit_signed_drop_bit_iff)

lemma bit_shifter_loop_sum:
  "i \<le> 32 \<Longrightarrow> bit_shifter_loop (signed_drop_bit i x) i n = n + (\<Sum>j\<in>{i..<32}. of_bool (bit x j))"
proof (induction "32 - i" arbitrary: i n)
  case 0
  then show ?case by (subst bit_shifter_loop.simps) simp
next
  case (Suc k)
  then have i: "i < 32" by simp
  let ?y = "signed_drop_bit i x"
  have b: "sint (?y AND 1) = of_bool (bit x i)"
  proof -
    have "?y AND 1 = of_bool (bit ?y 0)"
      by (rule bit_word_eqI) (auto simp: bit_simps)
    then show ?thesis using i by (simp add: bit_signed_drop_bit_iff)
  qed
  have split: "(\<Sum>j\<in>{i..<32}. of_bool (bit x j) :: int) = of_bool (bit x i) + (\<Sum>j\<in>{Suc i..<32}. of_bool (bit x j))"
    using i by (rule sum.atLeast_Suc_lessThan)
  show ?case
  proof (cases "?y = 0")
    case True
    have "\<not> bit x j" if "i \<le> j" "j < 32" for j
    proof -
      have "bit ?y (j - i) = bit x j"
        using that le_antisym [of j 31] by (auto simp: bit_signed_drop_bit_iff)
      with True show ?thesis by simp
    qed
    with True show ?thesis by (subst bit_shifter_loop.simps) simp
  next
    case False
    have "bit_shifter_loop ?y i n = bit_shifter_loop (signed_drop_bit (Suc i) x) (Suc i) (n + of_bool (bit x i))"
      using False i b signed_drop_bit_Suc [of i x] by (subst bit_shifter_loop.simps) simp
    with Suc i split show ?thesis by simp
  qed
qed

lemma bit_shifter_popcount: "bit_shifter x = Some (popcount x)"
  using bit_shifter_loop_sum [of 0 x 0] by (simp add: bit_shifter_def popcount_def atLeast0LessThan)

lemma bit_count_popcount: "bit_count x = Some (popcount x)"
  by (auto simp: bit_count_def bit_count_loop_popcount popcount_def)

section \<open>The contract of a bit counter\<close>

locale bit_counter =
  fixes f :: "u32 \<Rightarrow> int option"
  assumes counts: "\<not> bit x 31 \<Longrightarrow> f x = Some (popcount x)"
begin

lemma run_sum:
  "\<forall>j<k. \<not> bit (seed + of_nat (13 * j)) 31 \<Longrightarrow>
   bitcnts_run f k seed n = Some (n + (\<Sum>j<k. popcount (seed + of_nat (13 * j))))"
proof (induction k arbitrary: seed n)
  case 0
  then show ?case by simp
next
  case (Suc k)
  have "f seed = Some (popcount seed)" using Suc.prems by (intro counts) (drule spec [of _ 0], simp)
  moreover have "\<forall>j<k. \<not> bit (seed + 13 + of_nat (13 * j)) 31"
  proof (intro allI impI)
    fix j assume "j < k"
    with Suc.prems have "\<not> bit (seed + of_nat (13 * Suc j)) 31" by blast
    then show "\<not> bit (seed + 13 + of_nat (13 * j)) 31" by (simp add: algebra_simps)
  qed
  ultimately show ?case
    using Suc.IH by (simp add: sum.lessThan_Suc_shift algebra_simps del: sum.lessThan_Suc)
qed

end

locale total_bit_counter =
  fixes f :: "u32 \<Rightarrow> int option"
  assumes counts_all: "f x = Some (popcount x)"

sublocale total_bit_counter \<subseteq> bit_counter f
  by unfold_locales (rule counts_all)

interpretation bit_count: total_bit_counter bit_count by unfold_locales (rule bit_count_popcount)
interpretation bitcount: total_bit_counter bitcount by unfold_locales (rule bitcount_popcount)
interpretation ntbl_count: total_bit_counter ntbl_bitcount by unfold_locales (rule ntbl_bitcount_popcount)
interpretation BW: total_bit_counter BW_btbl_bitcount by unfold_locales (rule byte_counters_popcount)
interpretation AR: total_bit_counter AR_btbl_bitcount by unfold_locales (rule byte_counters_popcount)
interpretation shifter: total_bit_counter bit_shifter by unfold_locales (rule bit_shifter_popcount)
interpretation ntbl: bit_counter ntbl_bitcnt by unfold_locales (rule ntbl_bitcnt_popcount)
interpretation btbl: bit_counter btbl_bitcnt by unfold_locales (rule btbl_bitcnt_popcount)

lemma myrand_eq: "myrand = 0x5670"
  unfolding myrand_def by (simp add: Let_def)

lemma unat_seed:
  "j \<le> 165000000 \<Longrightarrow> unat (myrand + of_nat (13 * j)) = 22128 + 13 * j"
proof -
  assume j: "j \<le> 165000000"
  have "myrand + of_nat (13 * j) = of_nat (22128 + 13 * j)" by (simp add: myrand_eq)
  then show ?thesis using j by (simp only: unat_of_nat32)
qed

lemma bit_31: "bit x 31 \<longleftrightarrow> 2147483648 \<le> unat x" for x :: u32
proof -
  have o: "odd q \<longleftrightarrow> q \<noteq> 0" if "q < 2" for q :: nat using that by (auto simp: less_2_cases_iff)
  have "unat x < 2 * 2147483648" using unat_x [of x] by simp
  then have "unat x div 2147483648 < 2" by (rule less_mult_imp_div_less)
  from o [OF this] have "bit (unat x) 31 \<longleftrightarrow> unat x div 2147483648 \<noteq> 0"
    by (simp add: bit_iff_odd)
  then show ?thesis by (simp add: bit_unsigned_iff div_eq_0_iff not_less)
qed

lemma bitcnts_sum:
  assumes k: "k \<le> 165000000"
  shows "map_option snd (bitcnts k) = Some (\<Sum>j<k. int (pc (22128 + 13 * j)))"
proof -
  have s: "\<forall>j<k. \<not> bit (myrand + of_nat (13 * j)) 31"
    using k by (simp add: bit_31 unat_seed del: of_nat_mult)
  have "(\<Sum>j<k. popcount (myrand + of_nat (13 * j))) = (\<Sum>j<k. int (pc (22128 + 13 * j)))"
    using k by (intro sum.cong refl) (simp add: popcount_pc unat_seed del: of_nat_mult)
  then show ?thesis
    using bit_count.run_sum [OF s, of 0] bitcount.run_sum [OF s, of 0] ntbl.run_sum [OF s, of 0]
      ntbl_count.run_sum [OF s, of 0] BW.run_sum [OF s, of 0] AR.run_sum [OF s, of 0]
      shifter.run_sum [OF s, of 0]
    by (simp add: bitcnts_def pBitCntFunc_def)
qed

lemma bitcnts_100: "bitcnts 100 = Some (puts_text (ln ''Bit counter algorithm benchmark''), 811)"
proof -
  have "(\<Sum>j<(100::nat). int (pc (22128 + 13 * j))) = sum_list (map (\<lambda>j. int (pc (22128 + 13 * j))) [0..<100])"
    by (simp only: sum_list_distinct_conv_sum_set distinct_upt set_upt atLeast0LessThan)
  also have "\<dots> = 811"
    by (simp add: upt_from_2 upt_rec_numeral pc_numeral)
  finally have "map_option snd (bitcnts 100) = Some 811" by (simp add: bitcnts_sum)
  then show ?thesis by (cases "bitcnts_loop pBitCntFunc 100 0") (simp_all add: bitcnts_def)
qed

lemma ntbl_bitcnt_eq: "ntbl_bitcnt x = (if bit x 31 then None else Some (popcount x))"
  using nonneg_of_ntbl [of x] ntbl_bitcnt_popcount [of x] by (cases "ntbl_bitcnt x") auto

lemma btbl_bitcnt_eq: "btbl_bitcnt x = (if bit x 31 then None else Some (popcount x))"
  using nonneg_of_btbl [of x] btbl_bitcnt_popcount [of x] by (cases "btbl_bitcnt x") auto

section \<open>Properties\<close>

text \<open>C21: each of the six non-recursive bit counters returns the number of bits set, for every
  32-bit argument, negative ones included.\<close>

theorem bit_counters_popcount:
  "bit_count x = Some (popcount x) \<and> bitcount x = Some (popcount x) \<and>
   ntbl_bitcount x = Some (popcount x) \<and> BW_btbl_bitcount x = Some (popcount x) \<and>
   AR_btbl_bitcount x = Some (popcount x) \<and> bit_shifter x = Some (popcount x)"
  by (simp add: bit_count.counts_all bitcount.counts_all ntbl_count.counts_all BW.counts_all
      AR.counts_all shifter.counts_all)

text \<open>The two counters that recurse on a shifted \<open>long\<close> return the number of bits set of a
  non-negative argument and never return for a negative one.\<close>

theorem recursive_counters:
  "ntbl_bitcnt x = (if bit x 31 then None else Some (popcount x)) \<and>
   btbl_bitcnt x = (if bit x 31 then None else Some (popcount x))"
  by (simp add: ntbl_bitcnt_eq btbl_bitcnt_eq)

text \<open>The driver \<open>bitcnts\<close> returns, and its result is the number of bits set in the seeds
  \<open>22128, 22141, \<dots>\<close> of one run, for every iteration count whose seeds stay non-negative.\<close>

theorem bitcnts_result:
  "k \<le> 165000000 \<Longrightarrow> map_option snd (bitcnts k) = Some (\<Sum>j<k. int (pc (22128 + 13 * j)))"
  by (rule bitcnts_sum)

lemma bitcnts_result_witness: "map_option snd (bitcnts 3) = Some 24"
  using bitcnts_result [of 3] by (simp add: pc_numeral lessThan_nat_numeral)

end
