(* ===== verification/Sorts.thy ===== *)
theory Sorts
  imports CBase
begin

text \<open>
  The sorting benchmarks \<^verbatim>\<open>bench/bubble_sort\<close>, \<^verbatim>\<open>bench/select_sort\<close>,
  \<^verbatim>\<open>bench/quick_sort\<close> and \<^verbatim>\<open>bench/stream_copy\<close>.  Each sort copies its argument
  to the static array \<open>result[1000]\<close> and sorts there.  The argument \<open>a\<close> is the memory from
  \<open>a\<close> on, read as \<open>int\<close>s (every address can be read); \<open>result\<close> is a list of 1000
  elements, and \<open>None\<close> is an access outside of it.  The elements are only compared and moved, so
  they are \<open>int\<close>s of HOL.
\<close>

section \<open>Arrays with bounds\<close>

definition get :: "int list \<Rightarrow> int \<Rightarrow> int option" where
  "get r i = (if 0 \<le> i \<and> i < int (length r) then Some (r ! nat i) else None)"

definition put :: "int list \<Rightarrow> int \<Rightarrow> int \<Rightarrow> int list option" where
  "put r i v = (if 0 \<le> i \<and> i < int (length r) then Some (r[nat i := v]) else None)"

lemma get_in [simp]: "i < length r \<Longrightarrow> get r (int i) = Some (r ! i)"
  by (simp add: get_def)

lemma put_in [simp]: "i < length r \<Longrightarrow> put r (int i) v = Some (r[i := v])"
  by (simp add: put_def)

section \<open>Bubble sort\<close>

function bubble_copy :: "(nat \<Rightarrow> int) \<Rightarrow> int \<Rightarrow> int \<Rightarrow> int list \<Rightarrow> int list option" where
  "bubble_copy a N m r =
     (if m \<le> N then do { r' \<leftarrow> put r m (a (nat m)); bubble_copy a N (m + 1) r' } else Some r)"
  by pat_completeness auto
termination
  by (relation "measure (\<lambda>(a, N, m, r). nat (N + 1 - m))") auto

function bubble_inner :: "int \<Rightarrow> int \<Rightarrow> int \<Rightarrow> int list \<Rightarrow> int list option" where
  "bubble_inner N j i r =
     (if i < N - 1 - j then do {
        x \<leftarrow> get r i; y \<leftarrow> get r (i + 1);
        r' \<leftarrow> (if x > y then do { r1 \<leftarrow> put r i y; put r1 (i + 1) x } else Some r);
        bubble_inner N j (i + 1) r' }
      else Some r)"
  by pat_completeness auto
termination
  by (relation "measure (\<lambda>(N, j, i, r). nat (N - 1 - j - i))") auto

function bubble_outer :: "int \<Rightarrow> int \<Rightarrow> int list \<Rightarrow> int list option" where
  "bubble_outer N j r =
     (if j < N then do { r' \<leftarrow> bubble_inner N j 0 r; bubble_outer N (j + 1) r' } else Some r)"
  by pat_completeness auto
termination
  by (relation "measure (\<lambda>(N, j, r). nat (N - j))") auto

definition bubble_sort :: "(nat \<Rightarrow> int) \<Rightarrow> int \<Rightarrow> int list \<Rightarrow> int list option" where
  "bubble_sort a N result = do { r \<leftarrow> bubble_copy a N 0 result; bubble_outer N 0 r }"

section \<open>Selection sort\<close>

function select_copy :: "(nat \<Rightarrow> int) \<Rightarrow> int \<Rightarrow> int \<Rightarrow> int list \<Rightarrow> int list option" where
  "select_copy a N m r =
     (if m \<le> N then do { r' \<leftarrow> put r m (a (nat m)); select_copy a N (m + 1) r' } else Some r)"
  by pat_completeness auto
termination
  by (relation "measure (\<lambda>(a, N, m, r). nat (N + 1 - m))") auto

function select_inner :: "int \<Rightarrow> int \<Rightarrow> int \<Rightarrow> int list \<Rightarrow> int option" where
  "select_inner N j k r =
     (if j < N then do {
        x \<leftarrow> get r j; y \<leftarrow> get r k;
        select_inner N (j + 1) (if x < y then j else k) r }
      else Some k)"
  by pat_completeness auto
termination
  by (relation "measure (\<lambda>(N, j, k, r). nat (N - j))") auto

function select_outer :: "int \<Rightarrow> int \<Rightarrow> int list \<Rightarrow> int list option" where
  "select_outer N i r =
     (if i < N - 1 then do {
        k \<leftarrow> select_inner N (i + 1) i r;
        t \<leftarrow> get r i; u \<leftarrow> get r k;
        r1 \<leftarrow> put r i u; r2 \<leftarrow> put r1 k t;
        select_outer N (i + 1) r2 }
      else Some r)"
  by pat_completeness auto
termination
  by (relation "measure (\<lambda>(N, i, r). nat (N - 1 - i))") auto

definition select_sort :: "(nat \<Rightarrow> int) \<Rightarrow> int \<Rightarrow> int list \<Rightarrow> int list option" where
  "select_sort a N result = do { r \<leftarrow> select_copy a N 0 result; select_outer N 0 r }"

section \<open>Quicksort\<close>

text \<open>The two inner loops of \<open>partition\<close>.\<close>

function part_down :: "int list \<Rightarrow> int \<Rightarrow> int \<Rightarrow> int \<Rightarrow> int option" where
  "part_down r pivot i j =
     (if i < j then do { x \<leftarrow> get r j; if x > pivot then part_down r pivot i (j - 1) else Some j }
      else Some j)"
  by pat_completeness auto
termination
  by (relation "measure (\<lambda>(r, pivot, i, j). nat (j - i))") auto

function part_up :: "int list \<Rightarrow> int \<Rightarrow> int \<Rightarrow> int \<Rightarrow> int option" where
  "part_up r pivot i j =
     (if i < j then do { x \<leftarrow> get r i; if x \<le> pivot then part_up r pivot (i + 1) j else Some i }
      else Some i)"
  by pat_completeness auto
termination
  by (relation "measure (\<lambda>(r, pivot, i, j). nat (j - i))") auto

partial_function (option) part_loop ::
    "int \<Rightarrow> int \<Rightarrow> int \<Rightarrow> int list \<Rightarrow> (int list \<times> int) option" where
  "part_loop pivot i j r =
     (if i < j then do {
        j' \<leftarrow> part_down r pivot i j;
        x \<leftarrow> get r j'; r1 \<leftarrow> put r i x;
        i' \<leftarrow> part_up r1 pivot i j';
        y \<leftarrow> get r1 i'; r2 \<leftarrow> put r1 j' y;
        part_loop pivot i' j' r2 }
      else Some (r, i))"

declare part_loop.simps [code]

definition partition_array :: "int list \<Rightarrow> int \<Rightarrow> int \<Rightarrow> (int list \<times> int) option" where
  "partition_array a p q = do {
     pivot \<leftarrow> get a p;
     (r, i) \<leftarrow> part_loop pivot p q a;
     r' \<leftarrow> put r i pivot;
     Some (r', i) }"

partial_function (option) quick_rec :: "int list \<Rightarrow> int \<Rightarrow> int \<Rightarrow> int list option" where
  "quick_rec a p q =
     (if p \<ge> q then Some a
      else do {
        (a1, m) \<leftarrow> partition_array a p q;
        a2 \<leftarrow> quick_rec a1 p (m - 1);
        quick_rec a2 (m + 1) q })"

declare quick_rec.simps [code]

function quick_copy :: "(nat \<Rightarrow> int) \<Rightarrow> int \<Rightarrow> int \<Rightarrow> int list \<Rightarrow> int list option" where
  "quick_copy a N i r =
     (if i < N then do { r' \<leftarrow> put r i (a (nat i)); quick_copy a N (i + 1) r' } else Some r)"
  by pat_completeness auto
termination
  by (relation "measure (\<lambda>(a, N, i, r). nat (N - i))") auto

definition quick_sort :: "(nat \<Rightarrow> int) \<Rightarrow> int \<Rightarrow> int list \<Rightarrow> int list option" where
  "quick_sort a N result = do { r \<leftarrow> quick_copy a N 0 result; quick_rec r 0 (N - 1) }"

section \<open>Stream copy\<close>

function stream_copy_loop :: "(nat \<Rightarrow> int) \<Rightarrow> int \<Rightarrow> int \<Rightarrow> int list \<Rightarrow> int list option" where
  "stream_copy_loop a N j c =
     (if j < N then do { c' \<leftarrow> put c j (a (nat j)); stream_copy_loop a N (j + 1) c' } else Some c)"
  by pat_completeness auto
termination
  by (relation "measure (\<lambda>(a, N, j, c). nat (N - j))") auto

definition stream_copy :: "(nat \<Rightarrow> int) \<Rightarrow> int list \<Rightarrow> int \<Rightarrow> int list option" where
  "stream_copy a c N = stream_copy_loop a N 0 c"

declare bubble_copy.simps [simp del] bubble_inner.simps [simp del] bubble_outer.simps [simp del]
  select_copy.simps [simp del] select_inner.simps [simp del] select_outer.simps [simp del]
  part_down.simps [simp del] part_up.simps [simp del] quick_copy.simps [simp del]
  stream_copy_loop.simps [simp del]

lemmas sort_unroll [unroll] = bubble_copy.simps bubble_inner.simps bubble_outer.simps
  select_copy.simps select_inner.simps select_outer.simps part_down.simps part_up.simps
  part_loop.simps quick_rec.simps quick_copy.simps stream_copy_loop.simps

lemma get_next [simp]: "Suc i < length r \<Longrightarrow> get r (int i + 1) = Some (r ! Suc i)"
  using get_in [of "Suc i" r] by (simp add: add.commute del: get_in)

lemma put_next [simp]: "Suc i < length r \<Longrightarrow> put r (int i + 1) v = Some (r[Suc i := v])"
  using put_in [of "Suc i" r] by (simp add: add.commute del: put_in)

lemma int_next: "int i + 1 = int (Suc i)"
  by simp

section \<open>Rearranging the first elements of an array\<close>

definition same_upto :: "nat \<Rightarrow> int list \<Rightarrow> int list \<Rightarrow> bool" where
  "same_upto n r r' \<longleftrightarrow>
     length r' = length r \<and> mset (take n r') = mset (take n r) \<and> drop n r' = drop n r"

lemma same_upto_refl [simp]: "same_upto n r r"
  by (simp add: same_upto_def)

lemma same_upto_trans: "same_upto n r s \<Longrightarrow> same_upto n s t \<Longrightarrow> same_upto n r t"
  by (simp add: same_upto_def)

lemma same_upto_length: "same_upto n r s \<Longrightarrow> length s = length r"
  by (simp add: same_upto_def)

lemma swap_same:
  assumes "i < n" "k < n" "n \<le> length r"
  shows "same_upto n r (r[i := r ! k, k := r ! i])"
proof -
  have "take n (r[i := r ! k, k := r ! i]) = (take n r)[i := take n r ! k, k := take n r ! i]"
    using assms by (simp add: take_update_swap)
  moreover have "mset \<dots> = mset (take n r)"
    using assms by (intro mset_swap) simp_all
  ultimately show ?thesis using assms by (simp add: same_upto_def)
qed

text \<open>\<open>above r lo n\<close>: the elements from \<open>lo\<close> on are in order and above all earlier ones;
  \<open>below r i n\<close>: the first \<open>i\<close> elements are in order and below all later ones.\<close>

definition above :: "int list \<Rightarrow> nat \<Rightarrow> nat \<Rightarrow> bool" where
  "above r lo n \<longleftrightarrow> (\<forall>q p. lo \<le> q \<longrightarrow> q < n \<longrightarrow> p < q \<longrightarrow> r ! p \<le> r ! q)"

definition below :: "int list \<Rightarrow> nat \<Rightarrow> nat \<Rightarrow> bool" where
  "below r i n \<longleftrightarrow> (\<forall>p q. p < i \<longrightarrow> p < q \<longrightarrow> q < n \<longrightarrow> r ! p \<le> r ! q)"

lemma sorted_above: "above r 0 n \<Longrightarrow> n \<le> length r \<Longrightarrow> sorted (take n r)"
  by (auto simp: above_def sorted_iff_nth_mono_less)

lemma sorted_below: "below r (n - 1) n \<Longrightarrow> n \<le> length r \<Longrightarrow> sorted (take n r)"
  by (auto simp: below_def sorted_iff_nth_mono_less)

lemma quick_copy_eq:
  "i \<le> n \<Longrightarrow> n \<le> length r \<Longrightarrow>
   quick_copy a (int n) (int i) r = Some (take i r @ map a [i..<n] @ drop n r)"
proof (induction "n - i" arbitrary: i r)
  case 0
  then show ?case by (simp add: quick_copy.simps)
next
  case (Suc k)
  then have i: "i < n" by simp
  have "quick_copy a (int n) (int i) r = quick_copy a (int n) (int (Suc i)) (r[i := a i])"
    using i Suc.prems by (subst quick_copy.simps) (simp add: algebra_simps)
  also have "\<dots> = Some (take (Suc i) (r[i := a i]) @ map a [Suc i..<n] @ drop n (r[i := a i]))"
    using Suc i by (intro Suc.hyps) simp_all
  also have "\<dots> = Some (take i r @ map a [i..<n] @ drop n r)"
    using i Suc.prems by (simp add: take_Suc_conv_app_nth upt_conv_Cons)
  finally show ?case .
qed

lemma bubble_copy_quick: "bubble_copy a N m r = quick_copy a (N + 1) m r"
proof (induction a N m r rule: bubble_copy.induct)
  case (1 a N m r)
  then show ?case
    by (subst bubble_copy.simps, subst quick_copy.simps) (auto split: bind_split)
qed

lemma select_copy_quick: "select_copy a N m r = quick_copy a (N + 1) m r"
proof (induction a N m r rule: select_copy.induct)
  case (1 a N m r)
  then show ?case
    by (subst select_copy.simps, subst quick_copy.simps) (auto split: bind_split)
qed

lemma stream_copy_loop_quick: "stream_copy_loop a N j c = quick_copy a N j c"
proof (induction a N j c rule: stream_copy_loop.induct)
  case (1 a N j c)
  then show ?case
    by (subst stream_copy_loop.simps, subst quick_copy.simps) (auto split: bind_split)
qed

section \<open>Bubble sort is a sort\<close>

lemma bubble_inner_correct:
  "\<lbrakk>i \<le> n - 1 - j; j < n; n \<le> length r; \<forall>k<i. r ! k \<le> r ! i; above r (n - j) n\<rbrakk> \<Longrightarrow>
   \<exists>r'. bubble_inner (int n) (int j) (int i) r = Some r' \<and> same_upto n r r' \<and> above r' (n - 1 - j) n"
proof (induction "n - 1 - j - i" arbitrary: i r)
  case 0
  then have i: "i = n - 1 - j" by simp
  have "above r (n - 1 - j) n"
    unfolding above_def
  proof (intro allI impI)
    fix q p assume q: "n - 1 - j \<le> q" "q < n" "p < q"
    show "r ! p \<le> r ! q"
    proof (cases "q = i")
      case True
      with 0 q show ?thesis by simp
    next
      case False
      with i q \<open>j < n\<close> have "n - j \<le> q" by linarith
      with 0 q show ?thesis by (simp add: above_def)
    qed
  qed
  with i 0 show ?case
    by (subst bubble_inner.simps) (simp add: of_nat_diff)
next
  case (Suc d)
  then have i: "Suc i < n - j" by linarith
  with Suc.prems have in_r: "i < length r" "Suc i < length r" "Suc i < n" by linarith+
  define r' where "r' = (if r ! i > r ! Suc i then r[i := r ! Suc i, Suc i := r ! i] else r)"
  have step: "bubble_inner (int n) (int j) (int i) r = bubble_inner (int n) (int j) (int (Suc i)) r'"
  proof -
    have "int i < int n - 1 - int j" using i by linarith
    with in_r show ?thesis
      unfolding int_next [symmetric] by (subst bubble_inner.simps) (simp add: r'_def)
  qed
  have same: "same_upto n r r'"
    using swap_same [of i n "Suc i" r] in_r Suc.prems by (simp add: r'_def)
  have up: "\<forall>k<Suc i. r' ! k \<le> r' ! Suc i"
    using Suc.prems(4) in_r by (auto simp: r'_def less_Suc_eq nth_list_update)
  have ab: "above r' (n - j) n"
    unfolding above_def
  proof (intro allI impI)
    fix q p assume q: "n - j \<le> q" "q < n" "p < q"
    then have "r ! p' \<le> r ! q" if "p' < q" for p' using Suc.prems that by (simp add: above_def)
    then show "r' ! p \<le> r' ! q" using q i in_r Suc.prems
      by (auto simp: r'_def nth_list_update)
  qed
  have "\<exists>r''. bubble_inner (int n) (int j) (int (Suc i)) r' = Some r'' \<and> same_upto n r' r'' \<and>
      above r'' (n - 1 - j) n"
    using Suc.hyps(2) i Suc.prems up ab same_upto_length [OF same]
    by (intro Suc.hyps(1)) simp_all
  then show ?case
    unfolding step using same same_upto_trans by blast
qed

lemma bubble_outer_correct:
  "\<lbrakk>j \<le> n; n \<le> length r; above r (n - j) n\<rbrakk> \<Longrightarrow>
   \<exists>r'. bubble_outer (int n) (int j) r = Some r' \<and> same_upto n r r' \<and> above r' 0 n"
proof (induction "n - j" arbitrary: j r)
  case 0
  then show ?case by (subst bubble_outer.simps) simp
next
  case (Suc d)
  then have j: "j < n" by simp
  obtain r1 where r1: "bubble_inner (int n) (int j) 0 r = Some r1" "same_upto n r r1" "above r1 (n - Suc j) n"
    using bubble_inner_correct [of 0 n j r] Suc.prems j by auto
  have "n \<le> length r1" using Suc.prems(2) same_upto_length [OF r1(2)] by simp
  moreover have "d = n - Suc j" using Suc.hyps(2) by simp
  ultimately obtain r2 where r2: "bubble_outer (int n) (int j + 1) r1 = Some r2" "same_upto n r1 r2" "above r2 0 n"
    using Suc.hyps(1) [of "Suc j" r1] j r1(3) by (auto simp: add.commute)
  have "bubble_outer (int n) (int j) r = Some r2"
    using j r1(1) r2(1) by (subst bubble_outer.simps) simp
  with r1(2) r2(2,3) show ?case using same_upto_trans by blast
qed


section \<open>Selection sort is a sort\<close>

lemma select_inner_correct:
  "\<lbrakk>j \<le> n; n \<le> length r; i \<le> k; k < j; \<forall>q. i \<le> q \<longrightarrow> q < j \<longrightarrow> r ! k \<le> r ! q\<rbrakk> \<Longrightarrow>
   \<exists>k'. select_inner (int n) (int j) (int k) r = Some (int k') \<and> i \<le> k' \<and> k' < n \<and>
     (\<forall>q. i \<le> q \<longrightarrow> q < n \<longrightarrow> r ! k' \<le> r ! q)"
proof (induction "n - j" arbitrary: j k)
  case 0
  then show ?case by (subst select_inner.simps) auto
next
  case (Suc d)
  define k' where "k' = (if r ! j < r ! k then j else k)"
  have j: "j < n" "j < length r" "k < length r" using Suc by linarith+
  then have step: "select_inner (int n) (int j) (int k) r = select_inner (int n) (int (Suc j)) (int k') r"
    by (subst select_inner.simps) (simp add: k'_def add.commute)
  have "\<forall>q. i \<le> q \<longrightarrow> q < Suc j \<longrightarrow> r ! k' \<le> r ! q"
    using Suc.prems(5) by (auto simp: k'_def less_Suc_eq intro: order_trans less_imp_le)
  moreover have "i \<le> k'" "k' < Suc j" using Suc.prems by (auto simp: k'_def)
  ultimately show ?case
    unfolding step using j Suc.hyps(2) Suc.prems(2) by (intro Suc.hyps(1)) simp_all
qed

lemma select_outer_correct:
  "\<lbrakk>i \<le> n; n \<le> length r; below r i n\<rbrakk> \<Longrightarrow>
   \<exists>r'. select_outer (int n) (int i) r = Some r' \<and> same_upto n r r' \<and> sorted (take n r')"
proof (induction "n - i" arbitrary: i r)
  case 0
  then have "below r (n - 1) n" by (simp add: below_def)
  with 0 show ?case by (subst select_outer.simps) (simp add: sorted_below)
next
  case (Suc d)
  show ?case
  proof (cases "i < n - 1")
    case False
    with Suc have "below r (n - 1) n" by (simp add: below_def)
    moreover have "\<not> int i < int n - 1" using False by linarith
    ultimately show ?thesis using Suc.prems by (subst select_outer.simps) (simp add: sorted_below)
  next
    case True
    then have i: "int i < int n - 1" "i < length r" "i < n" using Suc.prems by linarith+
    obtain k where k: "select_inner (int n) (int i + 1) (int i) r = Some (int k)" "i \<le> k" "k < n"
        "\<And>q. i \<le> q \<Longrightarrow> q < n \<Longrightarrow> r ! k \<le> r ! q"
      using select_inner_correct [of "Suc i" n r i i] i Suc.prems by (auto simp: add.commute le_less_Suc_eq)
    define r' where "r' = r[i := r ! k, k := r ! i]"
    have same: "same_upto n r r'"
      unfolding r'_def using i(3) k(3) Suc.prems(2) by (rule swap_same)
    have kl: "k < length r" using k(3) Suc.prems(2) by simp
    have "select_outer (int n) (int i) r = select_outer (int n) (int i + 1) r'"
      using i k(1) kl by (subst select_outer.simps) (simp add: r'_def)
    then have step: "select_outer (int n) (int i) r = select_outer (int n) (int (Suc i)) r'"
      by (simp only: int_next)
    have "below r' (Suc i) n"
      unfolding below_def
    proof (intro allI impI)
      fix p q assume pq: "p < Suc i" "p < q" "q < n"
      have q: "\<exists>q'. r' ! q = r ! q' \<and> p < q' \<and> q' < n \<and> (p = i \<longrightarrow> i \<le> q')" if "p < i"
        using pq that k i kl by (cases "q = i"; cases "q = k") (auto simp: r'_def nth_list_update)
      show "r' ! p \<le> r' ! q"
      proof (cases "p < i")
        case True
        with q pq k Suc.prems(3) show ?thesis
          by (auto simp: below_def r'_def nth_list_update)
      next
        case False
        with pq have p: "p = i" by simp
        then have "r' ! p = r ! k" using i kl by (simp add: r'_def nth_list_update)
        moreover have "r ! k \<le> r' ! q"
          using pq p k i kl by (auto simp: r'_def nth_list_update)
        ultimately show ?thesis by simp
      qed
    qed
    moreover have "d = n - Suc i" "Suc i \<le> n" "n \<le> length r'"
      using Suc.hyps(2) i same_upto_length [OF same] Suc.prems(2) by simp_all
    ultimately show ?thesis
      unfolding step using Suc.hyps(1) [of "Suc i" r'] same same_upto_trans by blast
  qed
qed

section \<open>Quicksort is a sort\<close>

text \<open>\<open>same_seg lo hi r r'\<close>: \<open>r'\<close> is \<open>r\<close> with the elements of the segment from \<open>lo\<close> to before \<open>hi\<close>
  rearranged.\<close>

definition same_seg :: "nat \<Rightarrow> nat \<Rightarrow> int list \<Rightarrow> int list \<Rightarrow> bool" where
  "same_seg lo hi r r' \<longleftrightarrow> mset r' = mset r \<and> (\<forall>k. k < lo \<or> hi \<le> k \<longrightarrow> k < length r \<longrightarrow> r' ! k = r ! k)"

lemma same_seg_refl [simp]: "same_seg lo hi r r"
  by (simp add: same_seg_def)

lemma same_seg_length: "same_seg lo hi r s \<Longrightarrow> length s = length r"
  by (auto simp: same_seg_def dest: mset_eq_length)

lemma same_seg_trans: "same_seg lo hi r s \<Longrightarrow> same_seg lo hi s t \<Longrightarrow> same_seg lo hi r t"
  using same_seg_length [of lo hi r s] by (simp add: same_seg_def)

lemma same_seg_mono: "same_seg lo hi r s \<Longrightarrow> lo' \<le> lo \<Longrightarrow> hi \<le> hi' \<Longrightarrow> same_seg lo' hi' r s"
  by (auto simp: same_seg_def)

lemma same_seg_swap:
  assumes "lo \<le> i" "i < hi" "lo \<le> k" "k < hi" "hi \<le> length r"
  shows "same_seg lo hi r (r[i := r ! k, k := r ! i])"
  using assms mset_swap [of k r i] by (auto simp: same_seg_def)

lemma same_seg_hole:
  assumes "lo \<le> i" "i < hi" "lo \<le> k" "k < hi" "hi \<le> length r"
  shows "same_seg lo hi (r[i := v]) (r[i := r ! k, k := v])"
  using assms same_seg_swap [of lo i hi k "r[i := v]"] by (cases "i = k") simp_all

lemma same_seg_all:
  assumes s: "same_seg lo hi r s" and h: "hi \<le> length r" "lo \<le> hi"
    and P: "\<And>k. lo \<le> k \<Longrightarrow> k < hi \<Longrightarrow> P (r ! k)" and k: "lo \<le> k" "k < hi"
  shows "P (s ! k)"
proof -
  have l: "length s = length r" using s by (rule same_seg_length)
  have split: "xs = take lo xs @ drop lo (take hi xs) @ drop hi xs" for xs :: "int list"
  proof -
    have "take lo xs @ drop lo (take hi xs) = take hi xs"
      using append_take_drop_id [of lo "take hi xs"] h by (simp add: min_def)
    then show ?thesis using append_take_drop_id [of hi xs] by (metis append.assoc)
  qed
  have t: "take lo s = take lo r" "drop hi s = drop hi r"
    using s l h by (auto simp: same_seg_def list_eq_iff_nth_eq)
  have "mset s = mset r" using s by (simp add: same_seg_def)
  then have "mset (drop lo (take hi s)) = mset (drop lo (take hi r))"
    using t arg_cong [OF split [of s], of mset] arg_cong [OF split [of r], of mset] by simp
  then have "set (drop lo (take hi s)) = set (drop lo (take hi r))" by (rule mset_eq_setD)
  moreover have "s ! k \<in> set (drop lo (take hi s))"
    using k l h by (auto simp: in_set_conv_nth intro!: exI [of _ "k - lo"])
  ultimately obtain j where "j < hi - lo" "s ! k = r ! (lo + j)"
    using h by (auto simp: in_set_conv_nth)
  with P [of "lo + j"] show ?thesis by simp
qed

lemma int_prev: "0 < j \<Longrightarrow> int j - 1 = int (j - 1)"
  by simp

lemma part_down_correct:
  "i \<le> j \<Longrightarrow> j < length r \<Longrightarrow>
   \<exists>j'. part_down r v (int i) (int j) = Some (int j') \<and> i \<le> j' \<and> j' \<le> j \<and>
     (\<forall>k. j' < k \<longrightarrow> k \<le> j \<longrightarrow> v < r ! k) \<and> (i < j' \<longrightarrow> r ! j' \<le> v)"
proof (induction "j - i" arbitrary: j)
  case 0
  then show ?case by (intro exI [of _ i]) (subst part_down.simps, simp)
next
  case (Suc d)
  then have i: "i < j" by simp
  show ?case
  proof (cases "v < r ! j")
    case True
    have "part_down r v (int i) (int j) = part_down r v (int i) (int (j - 1))"
      using i True Suc.prems int_prev [of j] by (subst part_down.simps) simp
    moreover have "d = j - 1 - i" "i \<le> j - 1" "j - 1 < length r" using Suc.hyps(2) Suc.prems i by simp_all
    from Suc.hyps(1) [OF this]
    obtain j' where j': "part_down r v (int i) (int (j - 1)) = Some (int j')" "i \<le> j'" "j' \<le> j - 1"
       "\<forall>k. j' < k \<longrightarrow> k \<le> j - 1 \<longrightarrow> v < r ! k" "i < j' \<longrightarrow> r ! j' \<le> v"
      by blast
    moreover have "v < r ! k" if "j' < k" "k \<le> j" for k
      using j'(4) True that by (cases "k = j") simp_all
    ultimately show ?thesis by (intro exI [of _ j']) simp
  next
    case False
    with i Suc.prems show ?thesis
      by (intro exI [of _ j]) (subst part_down.simps, simp)
  qed
qed

lemma part_up_correct:
  "i \<le> j \<Longrightarrow> j < length r \<Longrightarrow>
   \<exists>i'. part_up r v (int i) (int j) = Some (int i') \<and> i \<le> i' \<and> i' \<le> j \<and>
     (\<forall>k. i \<le> k \<longrightarrow> k < i' \<longrightarrow> r ! k \<le> v) \<and> (i' < j \<longrightarrow> v < r ! i')"
proof (induction "j - i" arbitrary: i)
  case 0
  then show ?case by (intro exI [of _ i]) (subst part_up.simps, simp)
next
  case (Suc d)
  then have i: "i < j" by simp
  show ?case
  proof (cases "r ! i \<le> v")
    case True
    have "part_up r v (int i) (int j) = part_up r v (int (Suc i)) (int j)"
      using i True Suc.prems by (subst part_up.simps) (simp add: add.commute)
    moreover have "d = j - Suc i" "Suc i \<le> j" "j < length r" using Suc.hyps(2) Suc.prems i by simp_all
    from Suc.hyps(1) [OF this]
    obtain i' where i': "part_up r v (int (Suc i)) (int j) = Some (int i')" "Suc i \<le> i'" "i' \<le> j"
       "\<forall>k. Suc i \<le> k \<longrightarrow> k < i' \<longrightarrow> r ! k \<le> v" "i' < j \<longrightarrow> v < r ! i'"
      by blast
    moreover have "r ! k \<le> v" if "i \<le> k" "k < i'" for k
      using i'(4) True that by (cases "k = i") simp_all
    ultimately show ?thesis by (intro exI [of _ i']) simp
  next
    case False
    with i Suc.prems show ?thesis
      by (intro exI [of _ i]) (subst part_up.simps, simp)
  qed
qed

text \<open>The state of \<open>partition\<close> at its loop head: what is left of \<open>i\<close> is at most the pivot, what
  is right of \<open>j\<close> above it, and \<open>r[i]\<close> is the free place.\<close>

definition part_inv :: "nat \<Rightarrow> nat \<Rightarrow> int \<Rightarrow> nat \<Rightarrow> nat \<Rightarrow> int list \<Rightarrow> bool" where
  "part_inv lo hi v i j r \<longleftrightarrow> lo \<le> i \<and> i \<le> j \<and> j < hi \<and> hi \<le> length r \<and>
     (\<forall>k. lo \<le> k \<longrightarrow> k < i \<longrightarrow> r ! k \<le> v) \<and> (\<forall>k. j < k \<longrightarrow> k < hi \<longrightarrow> v < r ! k)"

lemma part_loop_correct:
  "part_inv lo hi v i j r \<Longrightarrow>
   \<exists>m r'. part_loop v (int i) (int j) r = Some (r', int m) \<and> part_inv lo hi v m m r' \<and>
     same_seg lo hi (r[i := v]) (r'[m := v])"
proof (induction "j - i" arbitrary: i j r rule: less_induct)
  case less
  note I = less.prems [unfolded part_inv_def]
  show ?case
  proof (cases "i < j")
    case False
    with I have "i = j" by simp
    with less.prems show ?thesis
      by (intro exI [of _ i] exI [of _ r]) (subst part_loop.simps, simp)
  next
    case True
    obtain j' where j': "part_down r v (int i) (int j) = Some (int j')" "i \<le> j'" "j' \<le> j"
        "\<And>k. j' < k \<Longrightarrow> k \<le> j \<Longrightarrow> v < r ! k" "i < j' \<Longrightarrow> r ! j' \<le> v"
      using part_down_correct [of i j r v] I by auto
    define r1 where "r1 = r[i := r ! j']"
    obtain i' where i': "part_up r1 v (int i) (int j') = Some (int i')" "i \<le> i'" "i' \<le> j'"
        "\<And>k. i \<le> k \<Longrightarrow> k < i' \<Longrightarrow> r1 ! k \<le> v" "i' < j' \<Longrightarrow> v < r1 ! i'"
      using part_up_correct [of i j' r1 v] I j' by (auto simp: r1_def)
    define r2 where "r2 = r1[j' := r1 ! i']"
    have len: "i < length r" "j' < length r" "length r1 = length r" "i' < length r"
      using I j' i' by (simp_all add: r1_def)
    have step: "part_loop v (int i) (int j) r = part_loop v (int i') (int j') r2"
      using True j'(1) i'(1) len by (subst part_loop.simps) (simp add: r1_def [symmetric] r2_def)
    have inv: "part_inv lo hi v i' j' r2"
      unfolding part_inv_def
    proof (intro conjI allI impI)
      fix k assume k: "lo \<le> k" "k < i'"
      then have "r2 ! k = r1 ! k" using i' by (simp add: r2_def)
      moreover have "r1 ! k \<le> v"
        using k I i'(4) by (cases "k < i") (simp_all add: r1_def)
      ultimately show "r2 ! k \<le> v" by simp
    next
      fix k assume k: "j' < k" "k < hi"
      then have "r2 ! k = r ! k" using i' j' by (simp add: r2_def r1_def)
      moreover have "v < r ! k" using k I j'(4) by (cases "k \<le> j") simp_all
      ultimately show "v < r2 ! k" by simp
    qed (use I i' j' in \<open>simp_all add: r2_def r1_def\<close>)
    have "same_seg lo hi (r[i := v]) (r1[j' := v])"
      unfolding r1_def using I j' by (intro same_seg_hole) simp_all
    moreover have "same_seg lo hi (r1[j' := v]) (r2[i' := v])"
      unfolding r2_def using I j' i' len by (intro same_seg_hole) simp_all
    ultimately have same: "same_seg lo hi (r[i := v]) (r2[i' := v])" by (rule same_seg_trans)
    have "i < i' \<or> j' = i"
    proof (rule ccontr)
      assume "\<not> (i < i' \<or> j' = i)"
      with i' j' have "i' = i" "i < j'" by simp_all
      with i'(5) j'(5) len show False by (simp add: r1_def)
    qed
    with True j'(2,3) i'(2,3) have "j' - i' < j - i" by linarith
    from less.hyps [OF this inv] same show ?thesis
      unfolding step using same_seg_trans by blast
  qed
qed

lemma partition_correct:
  assumes "lo < hi" "hi \<le> length a"
  shows "\<exists>m a'. partition_array a (int lo) (int hi - 1) = Some (a', int m) \<and> same_seg lo hi a a' \<and>
    lo \<le> m \<and> m < hi \<and> (\<forall>k. lo \<le> k \<longrightarrow> k < m \<longrightarrow> a' ! k \<le> a' ! m) \<and>
    (\<forall>k. m < k \<longrightarrow> k < hi \<longrightarrow> a' ! m < a' ! k)"
proof -
  have "part_inv lo hi (a ! lo) lo (hi - 1) a" using assms by (auto simp: part_inv_def)
  from part_loop_correct [OF this]
  obtain m r where m: "part_loop (a ! lo) (int lo) (int (hi - 1)) a = Some (r, int m)"
      "part_inv lo hi (a ! lo) m m r" "same_seg lo hi a (r[m := a ! lo])"
    unfolding list_update_id by blast
  have b: "lo \<le> m" "m < hi" "m < length r" "lo < length a"
    using m(2) assms by (simp_all add: part_inv_def)
  have e: "int hi - 1 = int (hi - 1)" using assms by simp
  have "partition_array a (int lo) (int hi - 1) = Some (r[m := a ! lo], int m)"
    unfolding partition_array_def e using b(3,4) by (simp only: get_in put_in m(1) bind.bind_lunit prod.case)
  moreover have "r[m := a ! lo] ! k \<le> r[m := a ! lo] ! m" if "lo \<le> k" "k < m" for k
    using m(2) b that by (simp add: part_inv_def)
  moreover have "r[m := a ! lo] ! m < r[m := a ! lo] ! k" if "m < k" "k < hi" for k
    using m(2) b that by (simp add: part_inv_def)
  ultimately show ?thesis using m(3) b by blast
qed

lemma quick_rec_correct:
  "lo \<le> hi \<Longrightarrow> hi \<le> length a \<Longrightarrow>
   \<exists>a'. quick_rec a (int lo) (int hi - 1) = Some a' \<and> same_seg lo hi a a' \<and>
     (\<forall>k l. lo \<le> k \<longrightarrow> k < l \<longrightarrow> l < hi \<longrightarrow> a' ! k \<le> a' ! l)"
proof (induction "hi - lo" arbitrary: lo hi a rule: less_induct)
  case less
  show ?case
  proof (cases "Suc lo < hi")
    case False
    with less.prems show ?thesis by (subst quick_rec.simps) auto
  next
    case True
    then have lh: "lo < hi" "\<not> int hi - 1 \<le> int lo" by linarith+
    obtain m a1 where m: "partition_array a (int lo) (int hi - 1) = Some (a1, int m)"
        "same_seg lo hi a a1" "lo \<le> m" "m < hi"
        "\<And>k. lo \<le> k \<Longrightarrow> k < m \<Longrightarrow> a1 ! k \<le> a1 ! m" "\<And>k. m < k \<Longrightarrow> k < hi \<Longrightarrow> a1 ! m < a1 ! k"
      using partition_correct [OF lh(1) less.prems(2)] by blast
    have l1: "length a1 = length a" using m(2) by (rule same_seg_length)
    have "m - lo < hi - lo" "lo \<le> m" "m \<le> length a1" using m(3,4) less.prems l1 by simp_all
    from less.hyps [OF this]
    obtain a2 where a2: "quick_rec a1 (int lo) (int m - 1) = Some a2" "same_seg lo m a1 a2"
        "\<And>k l. lo \<le> k \<Longrightarrow> k < l \<Longrightarrow> l < m \<Longrightarrow> a2 ! k \<le> a2 ! l"
      by blast
    have l2: "length a2 = length a1" using a2(2) by (rule same_seg_length)
    have "hi - Suc m < hi - lo" "Suc m \<le> hi" "hi \<le> length a2" using m(3,4) less.prems l1 l2 by simp_all
    from less.hyps [OF this]
    obtain a3 where a3: "quick_rec a2 (int (Suc m)) (int hi - 1) = Some a3" "same_seg (Suc m) hi a2 a3"
        "\<And>k l. Suc m \<le> k \<Longrightarrow> k < l \<Longrightarrow> l < hi \<Longrightarrow> a3 ! k \<le> a3 ! l"
      by blast
    have eq: "quick_rec a (int lo) (int hi - 1) = Some a3"
      using lh(2) m(1) a2(1) a3(1) by (subst quick_rec.simps) (simp add: int_next)
    have same: "same_seg lo hi a a3"
      using m(2) same_seg_mono [OF a2(2), of lo hi] same_seg_mono [OF a3(2), of lo hi] m(3,4)
      by (auto intro: same_seg_trans)
    have at: "a3 ! k = a2 ! k" if "k \<le> m" for k
      using a3(2) that m(4) less.prems l1 l2 by (simp add: same_seg_def)
    have pv: "a3 ! m = a1 ! m"
      using at [of m] a2(2) m(4) less.prems l1 by (simp add: same_seg_def)
    have lows: "a2 ! k \<le> a1 ! m" if "lo \<le> k" "k < m" for k
      using same_seg_all [OF a2(2), of "\<lambda>x. x \<le> a1 ! m"] m l1 less.prems that by simp
    have "a1 ! m < a2 ! k" if "m < k" "k < hi" for k
      using a2(2) m(6) that less.prems l1 by (simp add: same_seg_def)
    then have highs: "a1 ! m < a3 ! k" if "m < k" "k < hi" for k
      using same_seg_all [OF a3(2), of "\<lambda>x. a1 ! m < x"] m l1 l2 less.prems that by simp
    have "a3 ! k \<le> a3 ! l" if kl: "lo \<le> k" "k < l" "l < hi" for k l
    proof -
      consider "l < m" | "l = m" | "k = m" "m < l" | "k < m" "m < l" | "m < k" using kl(2) by linarith
      then show ?thesis
      proof cases
        case 4
        then show ?thesis using lows [of k] highs [of l] kl at [of k] by simp
      qed (use kl at a2(3) a3(3) pv lows highs in \<open>simp_all add: less_imp_le\<close>)
    qed
    with eq same show ?thesis by blast
  qed
qed


section \<open>The contract of a sorting benchmark\<close>

text \<open>Given room for \<open>cap\<close> elements, a sort returns and leaves the sorted argument at the start of
  \<open>result\<close>.\<close>

locale sorter =
  fixes sort_into :: "(nat \<Rightarrow> int) \<Rightarrow> int \<Rightarrow> int list \<Rightarrow> int list option"
    and cap :: nat
  assumes returns: "n \<le> cap \<Longrightarrow> length result = 1000 \<Longrightarrow>
      \<exists>r. sort_into a (int n) result = Some r \<and> length r = 1000 \<and> sorted (take n r) \<and>
        mset (take n r) = mset (map a [0..<n])"
begin

lemma sorts:
  assumes "n \<le> cap" "length result = 1000"
  shows "\<exists>r. sort_into a (int n) result = Some r \<and> length r = 1000 \<and> take n r = sort (map a [0..<n])"
proof -
  obtain r where r: "sort_into a (int n) result = Some r" "length r = 1000" "sorted (take n r)"
      "mset (take n r) = mset (map a [0..<n])"
    using returns [OF assms] by blast
  from properties_for_sort [OF r(4,3)] r(1,2) show ?thesis by auto
qed

lemma independent:
  assumes "n \<le> cap" "length result = 1000" "length result' = 1000"
  shows "map_option (take n) (sort_into a (int n) result) = map_option (take n) (sort_into a (int n) result')"
  using sorts [OF assms(1,2), of a] sorts [OF assms(1,3), of a] by auto

end

lemma copied_prefix:
  "n \<le> length r \<Longrightarrow> take n (map a [0..<n] @ drop n r) = map a [0..<n]"
  by simp

lemma bubble_sort_sorts:
  assumes "n \<le> 999" "length result = 1000"
  shows "\<exists>r. bubble_sort a (int n) result = Some r \<and> length r = 1000 \<and> sorted (take n r) \<and>
    mset (take n r) = mset (map a [0..<n])"
proof -
  define r0 where "r0 = map a [0..<Suc n] @ drop (Suc n) result"
  have c: "bubble_copy a (int n) 0 result = Some r0"
    using quick_copy_eq [of 0 "Suc n" result a] assms
    by (simp add: bubble_copy_quick r0_def add.commute del: upt_Suc)
  have l: "length r0 = 1000" "n \<le> length r0" using assms by (simp_all add: r0_def del: upt_Suc)
  obtain r where r: "bubble_outer (int n) 0 r0 = Some r" "same_upto n r0 r" "above r 0 n"
    using bubble_outer_correct [of 0 n r0] l by (auto simp: above_def)
  have "take n r0 = map a [0..<n]" by (simp add: r0_def)
  with r c l show ?thesis
    using sorted_above [OF r(3)] by (simp add: bubble_sort_def same_upto_def)
qed

lemma select_sort_sorts:
  assumes "n \<le> 999" "length result = 1000"
  shows "\<exists>r. select_sort a (int n) result = Some r \<and> length r = 1000 \<and> sorted (take n r) \<and>
    mset (take n r) = mset (map a [0..<n])"
proof -
  define r0 where "r0 = map a [0..<Suc n] @ drop (Suc n) result"
  have c: "select_copy a (int n) 0 result = Some r0"
    using quick_copy_eq [of 0 "Suc n" result a] assms
    by (simp add: select_copy_quick r0_def add.commute del: upt_Suc)
  have l: "length r0 = 1000" "n \<le> length r0" using assms by (simp_all add: r0_def del: upt_Suc)
  obtain r where r: "select_outer (int n) 0 r0 = Some r" "same_upto n r0 r" "sorted (take n r)"
    using select_outer_correct [of 0 n r0] l by (auto simp: below_def)
  have "take n r0 = map a [0..<n]" by (simp add: r0_def)
  with r c l show ?thesis
    by (simp add: select_sort_def same_upto_def)
qed

lemma quick_sort_sorts:
  assumes "n \<le> 1000" "length result = 1000"
  shows "\<exists>r. quick_sort a (int n) result = Some r \<and> length r = 1000 \<and> sorted (take n r) \<and>
    mset (take n r) = mset (map a [0..<n])"
proof -
  define r0 where "r0 = map a [0..<n] @ drop n result"
  have c: "quick_copy a (int n) 0 result = Some r0"
    using quick_copy_eq [of 0 n result a] assms by (simp add: r0_def)
  have l: "length r0 = 1000" "n \<le> length r0" using assms by (simp_all add: r0_def)
  obtain r where r: "quick_rec r0 0 (int n - 1) = Some r" "same_seg 0 n r0 r"
      "\<And>k l. k < l \<Longrightarrow> l < n \<Longrightarrow> r ! k \<le> r ! l"
    using quick_rec_correct [of 0 n r0] l by auto
  have len: "length r = length r0" using same_seg_length [OF r(2)] .
  have "drop n r = drop n r0"
    using r(2) len by (auto simp: same_seg_def list_eq_iff_nth_eq)
  moreover have "mset r = mset r0" using r(2) by (simp add: same_seg_def)
  moreover have "mset (take n s) + mset (drop n s) = mset s" for s :: "int list"
    by (metis append_take_drop_id mset_append)
  ultimately have "mset (take n r) = mset (take n r0)"
    by (metis add_right_cancel)
  moreover have "take n r0 = map a [0..<n]" by (simp add: r0_def)
  moreover have "sorted (take n r)" using r(3) by (simp add: sorted_iff_nth_mono_less)
  ultimately show ?thesis
    using r(1) c l len by (simp add: quick_sort_def)
qed

interpretation bubble: sorter bubble_sort 999 by unfold_locales (rule bubble_sort_sorts)
interpretation select: sorter select_sort 999 by unfold_locales (rule select_sort_sorts)
interpretation quick: sorter quick_sort 1000 by unfold_locales (rule quick_sort_sorts)

lemma stream_copy_copies:
  "n \<le> length c \<Longrightarrow> stream_copy a c (int n) = Some (map a [0..<n] @ drop n c)"
  using quick_copy_eq [of 0 n c a] by (simp add: stream_copy_def stream_copy_loop_quick)

text \<open>\<open>bubble_sort\<close> and \<open>select_sort\<close> copy \<open>N + 1\<close> elements: the last is not part of the argument
  (and is left at \<open>result[N]\<close>), and for \<open>N = 1000\<close> it does not fit.\<close>

lemma bubble_sort_extra:
  assumes "n \<le> 999" "length result = 1000" "bubble_sort a (int n) result = Some r"
  shows "r ! n = a n"
proof -
  define r0 where "r0 = map a [0..<Suc n] @ drop (Suc n) result"
  have c: "bubble_copy a (int n) 0 result = Some r0"
    using quick_copy_eq [of 0 "Suc n" result a] assms
    by (simp add: bubble_copy_quick r0_def add.commute del: upt_Suc)
  have l: "length r0 = 1000" "n \<le> length r0" using assms by (simp_all add: r0_def del: upt_Suc)
  obtain r' where r: "bubble_outer (int n) 0 r0 = Some r'" "same_upto n r0 r'"
    using bubble_outer_correct [of 0 n r0] l by (auto simp: above_def)
  have "r = r'" using r(1) c assms(3) by (simp add: bubble_sort_def)
  moreover have "hd (drop n r') = hd (drop n r0)" using r(2) by (simp add: same_upto_def)
  moreover have "r0 ! n = a n" by (simp add: r0_def nth_append del: upt_Suc)
  ultimately show ?thesis
    using l assms(1) same_upto_length [OF r(2)] by (simp add: hd_drop_conv_nth)
qed

lemma quick_copy_full:
  "i \<le> length r \<Longrightarrow> quick_copy a (int (Suc (length r))) (int i) r = None"
proof (induction "length r - i" arbitrary: i r)
  case 0
  then have "\<not> i < length r" by simp
  with 0 show ?case by (subst quick_copy.simps) (simp add: put_def)
next
  case (Suc d)
  then have i: "i < length r" "int i < int (Suc (length r))" by simp_all
  have "quick_copy a (int (Suc (length r))) (int i) r = quick_copy a (int (Suc (length r))) (int (Suc i)) (r[i := a i])"
    using i by (subst quick_copy.simps) (simp add: add.commute)
  also have "\<dots> = None"
    using Suc.hyps(1) [of "r[i := a i]" "Suc i"] Suc.hyps(2) i by simp
  finally show ?case .
qed

lemma bubble_sort_full: "length result = 1000 \<Longrightarrow> bubble_sort a 1000 result = None"
  using quick_copy_full [of 0 result a] by (simp add: bubble_sort_def bubble_copy_quick)

lemma select_sort_full: "length result = 1000 \<Longrightarrow> select_sort a 1000 result = None"
  using quick_copy_full [of 0 result a] by (simp add: select_sort_def select_copy_quick)

section \<open>Properties\<close>

text \<open>For up to 999 elements \<open>bubble_sort\<close> returns without leaving its array, and the array
  starts with the sorted argument.\<close>

theorem bubble_sort_result:
  "n \<le> 999 \<Longrightarrow> length result = 1000 \<Longrightarrow>
   \<exists>r. bubble_sort a (int n) result = Some r \<and> length r = 1000 \<and> take n r = sort (map a [0..<n])"
  by (rule bubble.sorts)

lemma bubble_sort_result_witness:
  "\<exists>r. bubble_sort (\<lambda>i. 5 - int i) (int 3) (replicate 1000 0) = Some r \<and> length r = 1000 \<and>
     take 3 r = [3, 4, 5]"
  using bubble_sort_result [of 3 "replicate 1000 0" "\<lambda>i. 5 - int i"] by (simp add: upt_rec)

text \<open>For up to 999 elements \<open>select_sort\<close> returns without leaving its array, and the array
  starts with the sorted argument.\<close>

theorem select_sort_result:
  "n \<le> 999 \<Longrightarrow> length result = 1000 \<Longrightarrow>
   \<exists>r. select_sort a (int n) result = Some r \<and> length r = 1000 \<and> take n r = sort (map a [0..<n])"
  by (rule select.sorts)

lemma select_sort_result_witness:
  "\<exists>r. select_sort (\<lambda>i. (int i - 2)\<^sup>2) (int 4) (replicate 1000 7) = Some r \<and> length r = 1000 \<and>
     take 4 r = [0, 1, 1, 4]"
  using select_sort_result [of 4 "replicate 1000 7" "\<lambda>i. (int i - 2)\<^sup>2"]
  by (simp add: upt_rec power2_eq_square)

text \<open>C20: for up to 1000 elements \<open>quick_sort\<close> returns (its recursion and the loops of
  \<open>partition\<close> end) without leaving its array, and the array starts with the sorted argument.\<close>

theorem quick_sort_result:
  "n \<le> 1000 \<Longrightarrow> length result = 1000 \<Longrightarrow>
   \<exists>r. quick_sort a (int n) result = Some r \<and> length r = 1000 \<and> take n r = sort (map a [0..<n])"
  by (rule quick.sorts)

lemma quick_sort_result_witness:
  "\<exists>r. quick_sort (\<lambda>i. int i mod 3) (int 5) (replicate 1000 0) = Some r \<and> length r = 1000 \<and>
     take 5 r = [0, 0, 1, 1, 2]"
  using quick_sort_result [of 5 "replicate 1000 0" "\<lambda>i. int i mod 3"] by (simp add: upt_rec)

text \<open>\<open>bubble_sort\<close> and \<open>select_sort\<close> copy one element more than they are asked to sort, so a
  full array of 1000 elements, which \<open>quick_sort\<close> sorts, makes them write past its end.\<close>

theorem copy_overruns:
  "bubble_sort a 1000 (replicate 1000 x) = None \<and> select_sort a 1000 (replicate 1000 x) = None \<and>
   (\<exists>r. quick_sort a 1000 (replicate 1000 x) = Some r)"
  using bubble_sort_full [of "replicate 1000 x" a] select_sort_full [of "replicate 1000 x" a]
    quick.sorts [of 1000 "replicate 1000 x" a] by auto

end
