(* ===== verification/Crc32.thy ===== *)
theory Crc32
  imports Stdio
begin

text \<open>
  The checksum of \<^verbatim>\<open>bench/crc32\<close>: the table, the update macro \<open>UPDC32\<close>, the checksum of a
  buffer and of a file, and the benchmark \<open>crc32\<close>.  The reference is the shift register that takes
  one bit at a time, with the polynomial \<open>0xEDB88320\<close>.
\<close>

unbundle bit_operations_syntax

section \<open>The program\<close>

definition crc_32_tab :: "u32 list" where
  "crc_32_tab =
     [0x00000000, 0x77073096, 0xee0e612c, 0x990951ba, 0x076dc419, 0x706af48f,
      0xe963a535, 0x9e6495a3, 0x0edb8832, 0x79dcb8a4, 0xe0d5e91e, 0x97d2d988,
      0x09b64c2b, 0x7eb17cbd, 0xe7b82d07, 0x90bf1d91, 0x1db71064, 0x6ab020f2,
      0xf3b97148, 0x84be41de, 0x1adad47d, 0x6ddde4eb, 0xf4d4b551, 0x83d385c7,
      0x136c9856, 0x646ba8c0, 0xfd62f97a, 0x8a65c9ec, 0x14015c4f, 0x63066cd9,
      0xfa0f3d63, 0x8d080df5, 0x3b6e20c8, 0x4c69105e, 0xd56041e4, 0xa2677172,
      0x3c03e4d1, 0x4b04d447, 0xd20d85fd, 0xa50ab56b, 0x35b5a8fa, 0x42b2986c,
      0xdbbbc9d6, 0xacbcf940, 0x32d86ce3, 0x45df5c75, 0xdcd60dcf, 0xabd13d59,
      0x26d930ac, 0x51de003a, 0xc8d75180, 0xbfd06116, 0x21b4f4b5, 0x56b3c423,
      0xcfba9599, 0xb8bda50f, 0x2802b89e, 0x5f058808, 0xc60cd9b2, 0xb10be924,
      0x2f6f7c87, 0x58684c11, 0xc1611dab, 0xb6662d3d, 0x76dc4190, 0x01db7106,
      0x98d220bc, 0xefd5102a, 0x71b18589, 0x06b6b51f, 0x9fbfe4a5, 0xe8b8d433,
      0x7807c9a2, 0x0f00f934, 0x9609a88e, 0xe10e9818, 0x7f6a0dbb, 0x086d3d2d,
      0x91646c97, 0xe6635c01, 0x6b6b51f4, 0x1c6c6162, 0x856530d8, 0xf262004e,
      0x6c0695ed, 0x1b01a57b, 0x8208f4c1, 0xf50fc457, 0x65b0d9c6, 0x12b7e950,
      0x8bbeb8ea, 0xfcb9887c, 0x62dd1ddf, 0x15da2d49, 0x8cd37cf3, 0xfbd44c65,
      0x4db26158, 0x3ab551ce, 0xa3bc0074, 0xd4bb30e2, 0x4adfa541, 0x3dd895d7,
      0xa4d1c46d, 0xd3d6f4fb, 0x4369e96a, 0x346ed9fc, 0xad678846, 0xda60b8d0,
      0x44042d73, 0x33031de5, 0xaa0a4c5f, 0xdd0d7cc9, 0x5005713c, 0x270241aa,
      0xbe0b1010, 0xc90c2086, 0x5768b525, 0x206f85b3, 0xb966d409, 0xce61e49f,
      0x5edef90e, 0x29d9c998, 0xb0d09822, 0xc7d7a8b4, 0x59b33d17, 0x2eb40d81,
      0xb7bd5c3b, 0xc0ba6cad, 0xedb88320, 0x9abfb3b6, 0x03b6e20c, 0x74b1d29a,
      0xead54739, 0x9dd277af, 0x04db2615, 0x73dc1683, 0xe3630b12, 0x94643b84,
      0x0d6d6a3e, 0x7a6a5aa8, 0xe40ecf0b, 0x9309ff9d, 0x0a00ae27, 0x7d079eb1,
      0xf00f9344, 0x8708a3d2, 0x1e01f268, 0x6906c2fe, 0xf762575d, 0x806567cb,
      0x196c3671, 0x6e6b06e7, 0xfed41b76, 0x89d32be0, 0x10da7a5a, 0x67dd4acc,
      0xf9b9df6f, 0x8ebeeff9, 0x17b7be43, 0x60b08ed5, 0xd6d6a3e8, 0xa1d1937e,
      0x38d8c2c4, 0x4fdff252, 0xd1bb67f1, 0xa6bc5767, 0x3fb506dd, 0x48b2364b,
      0xd80d2bda, 0xaf0a1b4c, 0x36034af6, 0x41047a60, 0xdf60efc3, 0xa867df55,
      0x316e8eef, 0x4669be79, 0xcb61b38c, 0xbc66831a, 0x256fd2a0, 0x5268e236,
      0xcc0c7795, 0xbb0b4703, 0x220216b9, 0x5505262f, 0xc5ba3bbe, 0xb2bd0b28,
      0x2bb45a92, 0x5cb36a04, 0xc2d7ffa7, 0xb5d0cf31, 0x2cd99e8b, 0x5bdeae1d,
      0x9b64c2b0, 0xec63f226, 0x756aa39c, 0x026d930a, 0x9c0906a9, 0xeb0e363f,
      0x72076785, 0x05005713, 0x95bf4a82, 0xe2b87a14, 0x7bb12bae, 0x0cb61b38,
      0x92d28e9b, 0xe5d5be0d, 0x7cdcefb7, 0x0bdbdf21, 0x86d3d2d4, 0xf1d4e242,
      0x68ddb3f8, 0x1fda836e, 0x81be16cd, 0xf6b9265b, 0x6fb077e1, 0x18b74777,
      0x88085ae6, 0xff0f6a70, 0x66063bca, 0x11010b5c, 0x8f659eff, 0xf862ae69,
      0x616bffd3, 0x166ccf45, 0xa00ae278, 0xd70dd2ee, 0x4e048354, 0x3903b3c2,
      0xa7672661, 0xd06016f7, 0x4969474d, 0x3e6e77db, 0xaed16a4a, 0xd9d65adc,
      0x40df0b66, 0x37d83bf0, 0xa9bcae53, 0xdebb9ec5, 0x47b2cf7f, 0x30b5ffe9,
      0xbdbdf21c, 0xcabac28a, 0x53b39330, 0x24b4a3a6, 0xbad03605, 0xcdd70693,
      0x54de5729, 0x23d967bf, 0xb3667a2e, 0xc4614ab8, 0x5d681b02, 0x2a6f2b94,
      0xb40bbe37, 0xc30c8ea1, 0x5a05df1b, 0x2d02ef8d]"

definition UPDC32 :: "u8 \<Rightarrow> u32 \<Rightarrow> u32" where
  "UPDC32 octet crc = crc_32_tab ! unat ((crc XOR ucast octet) AND 0xff) XOR drop_bit 8 crc"

definition updateCRC32 :: "u8 \<Rightarrow> u32 \<Rightarrow> u32" where
  "updateCRC32 ch crc = UPDC32 ch crc"

function crc32buf_loop :: "mem \<Rightarrow> addr \<Rightarrow> u32 \<Rightarrow> u32 \<Rightarrow> u32" where
  "crc32buf_loop m buf len oldcrc32 =
     (if len \<noteq> 0 then crc32buf_loop m (buf + 1) (len - 1) (UPDC32 (m buf) oldcrc32) else oldcrc32)"
  by pat_completeness auto
termination
  by (relation "measure (\<lambda>(m, buf, len, crc). unat len)") (auto simp: unat_minus_one_nz unat_gt_0)

declare crc32buf_loop.simps [simp del]

definition crc32buf :: "mem \<Rightarrow> addr \<Rightarrow> u32 \<Rightarrow> u32" where
  "crc32buf m buf len = NOT (crc32buf_loop m buf len 0xFFFFFFFF)"

text \<open>The loop of \<open>crc32file\<close>: files, checksum, \<open>*charcnt\<close>, and what is printed.\<close>

partial_function (option) crc32file_loop ::
    "mem \<Rightarrow> cfile list \<Rightarrow> nat \<Rightarrow> u32 \<Rightarrow> u32 \<Rightarrow> u8 list \<Rightarrow> (cfile list \<times> u32 \<times> u32 \<times> u8 list) option" where
  "crc32file_loop m files fin oldcrc32 charcnt out =
     do { (files', c) \<leftarrow> getc m files fin;
          if c \<noteq> EOF
          then do { o1 \<leftarrow> printf m (ln ''%ld'') [charcnt + 1];
                    crc32file_loop m files' fin (UPDC32 (ucast c) oldcrc32) (charcnt + 1) (out @ o1) }
          else do { o1 \<leftarrow> printf m (ln ''%x'') [c];
                    Some (files', oldcrc32, charcnt, out @ o1) } }"

declare crc32file_loop.simps [code]

definition crc32file :: "mem \<Rightarrow> cfile list \<Rightarrow> addr \<Rightarrow> (cfile list \<times> u32 \<times> u32 \<times> u8 list) option" where
  "crc32file m files str =
     do { (files1, fin) \<leftarrow> fopen files str;
          o1 \<leftarrow> printf m (ln ''start'') [];
          len \<leftarrow> strlen m (fstr (files1 ! fin));
          o2 \<leftarrow> printf m (ln ''len: %u'') [len];
          (files2, oldcrc32, charcnt, o3) \<leftarrow> crc32file_loop m files1 fin 0xFFFFFFFF 0 (o1 @ o2);
          o4 \<leftarrow> printf m (ln ''end'') [];
          Some (fclose files2 fin, NOT oldcrc32, charcnt, o3 @ o4) }"

text \<open>The result of the benchmark: the files, 0 or 1, and what is printed.\<close>

definition crc32 :: "mem \<Rightarrow> cfile list \<Rightarrow> addr \<Rightarrow> (cfile list \<times> int \<times> u8 list) option" where
  "crc32 m files str =
     do { let ans = 1601645211;
          (files', crc, charcnt, o1) \<leftarrow> crc32file m files str;
          o2 \<leftarrow> printf m (ln ''%08lX, %08ld'') [crc, charcnt];
          Some (files', if crc = ans then 0 else 1, o1 @ o2) }"

lemmas crc_unroll [unroll] = crc32buf_loop.simps crc32file_loop.simps

section \<open>The shift register\<close>

definition crc_bit :: "u32 \<Rightarrow> u32" where
  "crc_bit c = drop_bit 1 c XOR (if bit c 0 then 0xEDB88320 else 0)"

definition crc_byte :: "u32 \<Rightarrow> u8 \<Rightarrow> u32" where
  "crc_byte c b = (crc_bit ^^ 8) (c XOR ucast b)"

definition crc_of :: "u8 list \<Rightarrow> u32" where
  "crc_of bs = NOT (foldl crc_byte 0xFFFFFFFF bs)"

lemma crc_bit_0 [simp]: "crc_bit 0 = 0"
  by (simp add: crc_bit_def)

lemma crc_bit_numeral:
  "crc_bit (numeral n) = drop_bit 1 (numeral n) XOR (if odd (numeral n :: u32) then 0xEDB88320 else 0)"
  "crc_bit 1 = 0xEDB88320"
  by (simp_all add: crc_bit_def bit_0)

lemma crc_bit_xor: "crc_bit (x XOR y) = crc_bit x XOR crc_bit y"
  unfolding crc_bit_def by (cases "bit x 0"; cases "bit y 0") (simp_all add: bit_xor_iff drop_bit_xor ac_simps)

lemma crc_bits_xor: "(crc_bit ^^ n) (x XOR y) = (crc_bit ^^ n) x XOR (crc_bit ^^ n) y"
  by (induction n arbitrary: x y) (simp_all add: crc_bit_xor)

lemma crc_bits_low_clear: "(\<And>i. i < n \<Longrightarrow> \<not> bit x i) \<Longrightarrow> (crc_bit ^^ n) x = drop_bit n x"
proof (induction n arbitrary: x)
  case 0
  then show ?case by simp
next
  case (Suc n)
  have "crc_bit x = drop_bit 1 x" using Suc.prems [of 0] by (simp add: crc_bit_def)
  moreover have "(crc_bit ^^ n) (drop_bit 1 x) = drop_bit n (drop_bit 1 x)"
    using Suc.prems by (intro Suc.IH) (simp add: bit_drop_bit_eq)
  ultimately show ?case by (simp add: funpow_Suc_right del: funpow.simps)
qed

definition feedback :: "nat \<Rightarrow> u32" where
  "feedback k = (crc_bit ^^ 8) (of_nat k)"

lemma nat_xor_power: "j < 2 ^ n \<Longrightarrow> 2 ^ n + j = 2 ^ n XOR j" for j :: nat
proof -
  assume j: "j < 2 ^ n"
  then have "\<not> bit j n" by (simp add: bit_iff_odd)
  then have "2 ^ n + j = 2 ^ n OR j"
    by (intro disjunctive_add) (auto simp: bit_exp_iff)
  also have "\<dots> = 2 ^ n XOR j"
    using \<open>\<not> bit j n\<close> by (auto intro!: bit_eqI simp: bit_simps)
  finally show ?thesis .
qed

lemma of_nat_xor: "(of_nat (a XOR b) :: u32) = of_nat a XOR of_nat b"
  by (rule bit_word_eqI) (simp add: bit_simps)

lemma feedback_double:
  "map feedback [0..<2 ^ Suc n] = map feedback [0..<2 ^ n] @ map (\<lambda>x. feedback (2 ^ n) XOR x) (map feedback [0..<2 ^ n])"
proof -
  have "feedback (2 ^ n + j) = feedback (2 ^ n) XOR feedback j" if "j < 2 ^ n" for j
    using that by (simp only: nat_xor_power feedback_def of_nat_xor crc_bits_xor)
  then have "map (\<lambda>j. feedback (j + 2 ^ n)) [0..<2 ^ n] = map (\<lambda>j. feedback (2 ^ n) XOR feedback j) [0..<2 ^ n]"
    by (simp add: add.commute)
  moreover have "map feedback [2 ^ n..<2 ^ n + 2 ^ n] = map (\<lambda>j. feedback (j + 2 ^ n)) [0..<2 ^ n]"
    unfolding map_add_upt [of "2 ^ n" "2 ^ n", symmetric] by (simp add: comp_def)
  ultimately show ?thesis
    by (simp add: mult_2 upt_add_eq_append [of 0 "2 ^ n" "2 ^ n"] comp_def)
qed

lemma crc_bits_8: "(crc_bit ^^ 8) x =
    crc_bit (crc_bit (crc_bit (crc_bit (crc_bit (crc_bit (crc_bit (crc_bit x)))))))"
  by (simp add: eval_nat_numeral)

lemma feedback_powers:
  "feedback 0 = 0" "feedback 1 = 0x77073096" "feedback 2 = 0xee0e612c" "feedback 4 = 0x076dc419"
  "feedback 8 = 0x0edb8832" "feedback 16 = 0x1db71064" "feedback 32 = 0x3b6e20c8"
  "feedback 64 = 0x76dc4190" "feedback 128 = 0xedb88320"
  by (simp_all add: feedback_def crc_bits_8 crc_bit_numeral)

lemma crc_32_tab_eq: "crc_32_tab = map feedback [0..<256]"
proof -
  have "map feedback [0..<2 ^ 0] = [0]" by (simp add: feedback_powers)
  note t = this feedback_double [of 0] feedback_double [of 1] feedback_double [of 2] feedback_double [of 3]
    feedback_double [of 4] feedback_double [of 5] feedback_double [of 6] feedback_double [of 7]
  have "map feedback [0..<2 ^ 8] = crc_32_tab"
    using t feedback_powers(2) by (simp add: feedback_powers crc_32_tab_def del: upt_Suc)
  then show ?thesis by simp
qed

lemma crc_tab_nth: "unat (x AND 0xff) < 256" "crc_32_tab ! unat (x AND 0xff) = (crc_bit ^^ 8) (x AND 0xff)" for x :: u32
proof -
  have "x AND 0xff = take_bit 8 x" by (simp add: take_bit_eq_mask mask_eq_exp_minus_1)
  then have "unat (x AND 0xff) = take_bit 8 (unat x)" by (simp add: unsigned_take_bit_eq)
  then show l: "unat (x AND 0xff) < 256" by (simp add: take_bit_eq_mod)
  show "crc_32_tab ! unat (x AND 0xff) = (crc_bit ^^ 8) (x AND 0xff)"
    using l by (simp add: crc_32_tab_eq feedback_def)
qed

lemma UPDC32_crc_byte: "UPDC32 b c = crc_byte c b"
proof -
  let ?x = "c XOR ucast b"
  have ff: "0xff = (mask 8 :: u32)" by (simp add: mask_eq_exp_minus_1)
  have s: "?x = (?x AND 0xff) XOR (?x AND NOT 0xff)"
    unfolding ff by (rule bit_word_eqI) (auto simp: bit_simps)
  have "(crc_bit ^^ 8) (?x AND NOT 0xff) = drop_bit 8 (?x AND NOT 0xff)"
    unfolding ff by (rule crc_bits_low_clear) (simp add: bit_simps)
  also have "\<dots> = drop_bit 8 c"
    unfolding ff by (rule bit_word_eqI) (auto simp: bit_simps dest: bit_imp_le_length)
  finally have "(crc_bit ^^ 8) ?x = (crc_bit ^^ 8) (?x AND 0xff) XOR drop_bit 8 c"
    by (subst s) (simp only: crc_bits_xor)
  then show ?thesis
    by (simp add: UPDC32_def crc_byte_def crc_tab_nth)
qed

section \<open>Errors the checksum detects\<close>

lemma crc_bit_inj: "crc_bit x = crc_bit y \<Longrightarrow> x = y"
proof -
  assume e: "crc_bit x = crc_bit y"
  have t: "bit (crc_bit z) 31 = bit z 0" for z
    by (auto simp: crc_bit_def bit_simps dest: bit_imp_le_length)
  have z: "bit x 0 = bit y 0" using e t by metis
  have d: "drop_bit 1 w = crc_bit w XOR (if bit w 0 then 0xEDB88320 else 0)" for w
    by (simp only: crc_bit_def xor.assoc bit.xor_self xor.right_neutral)
  have d: "drop_bit 1 x = drop_bit 1 y" unfolding d [of x] d [of y] e z ..
  show "x = y"
  proof (rule bit_word_eqI)
    fix n
    show "bit x n = bit y n"
      using z arg_cong [OF d, of "\<lambda>w. bit w (n - 1)"] by (cases n) (simp_all add: bit_drop_bit_eq)
  qed
qed

lemma crc_bits_inj: "(crc_bit ^^ n) x = (crc_bit ^^ n) y \<Longrightarrow> x = y"
  by (induction n) (auto dest: crc_bit_inj)

fun word_of_bytes :: "u8 list \<Rightarrow> u32" where
  "word_of_bytes [] = 0"
| "word_of_bytes (b # bs) = ucast b XOR push_bit 8 (word_of_bytes bs)"

lemma word_of_bytes_bound: "bit (word_of_bytes bs) i \<Longrightarrow> i < 8 * length bs"
proof (induction bs arbitrary: i)
  case (Cons b bs)
  then have "bit (ucast b :: u32) i \<or> (8 \<le> i \<and> bit (word_of_bytes bs) (i - 8))"
    by (auto simp: bit_xor_iff bit_push_bit_iff)
  then show ?case
    using Cons.IH [of "i - 8"] by (auto simp: bit_ucast_iff dest: bit_imp_le_length)
qed simp

lemma foldl_crc_word:
  "length bs \<le> 4 \<Longrightarrow> foldl crc_byte c bs = (crc_bit ^^ (8 * length bs)) (c XOR word_of_bytes bs)"
proof (induction bs arbitrary: c)
  case Nil
  then show ?case by simp
next
  case (Cons b bs)
  let ?W = "word_of_bytes bs"
  have "(crc_bit ^^ 8) (push_bit 8 ?W) = drop_bit 8 (push_bit 8 ?W)"
    by (rule crc_bits_low_clear) (simp add: bit_push_bit_iff)
  also have "\<dots> = ?W"
  proof (rule bit_word_eqI)
    fix n assume "n < LENGTH(32)"
    then show "bit (drop_bit 8 (push_bit 8 ?W)) n = bit ?W n"
      using word_of_bytes_bound [of bs n] Cons.prems by (auto simp: bit_simps)
  qed
  finally have w: "crc_byte c b XOR ?W = (crc_bit ^^ 8) (c XOR word_of_bytes (b # bs))"
    by (simp add: crc_byte_def crc_bits_xor ac_simps)
  have "foldl crc_byte c (b # bs) = (crc_bit ^^ (8 * length bs)) (crc_byte c b XOR ?W)"
    using Cons by simp
  also have "\<dots> = (crc_bit ^^ (8 * length bs + 8)) (c XOR word_of_bytes (b # bs))"
    unfolding w by (simp add: funpow_add)
  finally show ?case by (simp only: length_Cons mult_Suc_right add.commute)
qed

lemma word_of_bytes_inj:
  "length bs = length cs \<Longrightarrow> length bs \<le> 4 \<Longrightarrow> word_of_bytes bs = word_of_bytes cs \<Longrightarrow> bs = cs"
proof (induction bs cs rule: list_induct2)
  case Nil
  then show ?case by simp
next
  case (Cons b bs c cs)
  have e: "bit (word_of_bytes (b # bs)) n = bit (word_of_bytes (c # cs)) n" for n
    using Cons.prems(2) by simp
  have "b = c"
  proof (rule bit_word_eqI)
    fix n assume "n < LENGTH(8)"
    with e [of n] show "bit b n = bit c n" by (simp add: bit_simps)
  qed
  moreover have "word_of_bytes bs = word_of_bytes cs"
  proof (rule bit_word_eqI)
    fix n assume n: "n < LENGTH(32)"
    show "bit (word_of_bytes bs) n = bit (word_of_bytes cs) n"
    proof (cases "n + 8 < 32")
      case True
      with e [of "n + 8"] show ?thesis by (auto simp: bit_simps dest: bit_imp_le_length)
    next
      case False
      then show ?thesis
        using word_of_bytes_bound [of bs n] word_of_bytes_bound [of cs n] Cons.hyps Cons.prems(1) by auto
    qed
  qed
  ultimately show ?case using Cons by simp
qed

lemma crc_byte_inj: "crc_byte c b = crc_byte d b \<Longrightarrow> c = d"
proof -
  assume "crc_byte c b = crc_byte d b"
  then have "c XOR ucast b = d XOR ucast b" unfolding crc_byte_def by (rule crc_bits_inj)
  then have "(c XOR ucast b) XOR ucast b = (d XOR ucast b) XOR ucast b" by simp
  then show "c = d" by (simp add: xor.assoc)
qed

lemma foldl_crc_inj: "foldl crc_byte c bs = foldl crc_byte d bs \<Longrightarrow> c = d"
  by (induction bs arbitrary: c d) (auto dest: crc_byte_inj)

lemma crc_detects_burst:
  assumes "length bs = length cs" "length bs \<le> 4" "bs \<noteq> cs"
  shows "crc_of (pre @ bs @ post) \<noteq> crc_of (pre @ cs @ post)"
proof
  assume "crc_of (pre @ bs @ post) = crc_of (pre @ cs @ post)"
  then have "foldl crc_byte 0xFFFFFFFF (pre @ bs @ post) = foldl crc_byte 0xFFFFFFFF (pre @ cs @ post)"
    unfolding crc_of_def by simp
  then have "foldl crc_byte (foldl crc_byte 0xFFFFFFFF pre) bs = foldl crc_byte (foldl crc_byte 0xFFFFFFFF pre) cs"
    unfolding foldl_append by (rule foldl_crc_inj)
  moreover define c where "c = foldl crc_byte 0xFFFFFFFF pre"
  ultimately have "c XOR word_of_bytes bs = c XOR word_of_bytes cs"
    using assms(1,2) foldl_crc_word [of bs c] foldl_crc_word [of cs c] by (auto dest: crc_bits_inj)
  then have "c XOR (c XOR word_of_bytes bs) = c XOR (c XOR word_of_bytes cs)" by simp
  then have "word_of_bytes bs = word_of_bytes cs" by (simp add: xor.assoc [symmetric])
  with word_of_bytes_inj [OF assms(1,2)] assms(3) show False by simp
qed

section \<open>The program computes the checksum\<close>

lemma crc32buf_loop_eq:
  "crc32buf_loop m buf len c = foldl crc_byte c (read_bytes m buf (unat len))"
proof (induction m buf len c rule: crc32buf_loop.induct)
  case (1 m buf len c)
  show ?case
  proof (cases "len = 0")
    case True
    then show ?thesis by (simp add: crc32buf_loop.simps)
  next
    case False
    then have "unat len = Suc (unat (len - 1))" by (intro word_pos_dec) (simp add: word_gt_0)
    with 1 False show ?thesis by (subst crc32buf_loop.simps) (simp add: UPDC32_crc_byte)
  qed
qed

lemma crc32buf_eq: "crc32buf m buf len = crc_of (read_bytes m buf (unat len))"
  by (simp add: crc32buf_def crc_of_def crc32buf_loop_eq)

lemma ucast_back [simp]: "(ucast (ucast b :: u32) :: u8) = b"
  by (rule bit_word_eqI) (simp add: bit_simps)

lemma EOF_byte: "(ucast (b :: u8) :: u32) \<noteq> EOF"
proof
  assume "(ucast b :: u32) = EOF"
  then have "bit (ucast b :: u32) 31" by (simp add: EOF_def)
  then show False by (auto simp: bit_simps dest: bit_imp_le_length)
qed

lemma printf_ld: "\<exists>out. printf m (ln ''%ld'') [v] = Some out" and printf_x: "\<exists>out. printf m (ln ''%x'') [v] = Some out"
  and printf_u: "\<exists>out. printf m (ln ''len: %u'') [v] = Some out"
  and printf_lX: "\<exists>out. printf m (ln ''%08lX, %08ld'') [v, v'] = Some out"
proof -
  have b: "\<exists>out. printbase v w base False = Some out" if "base = 10 \<or> base = 16" for v w and base :: u32
    using printbase_unsigned [of base v w] that by auto
  obtain o1 o2 o3 where o: "printbase v 1 10 False = Some o1" "printbase v 1 16 False = Some o2"
      "printbase v 8 10 False = Some o3" using b by metis
  moreover obtain o4 where "printbase v' 8 10 False = Some o4" using b by metis
  ultimately show "\<exists>out. printf m (ln ''%ld'') [v] = Some out" "\<exists>out. printf m (ln ''%x'') [v] = Some out"
     "\<exists>out. printf m (ln ''len: %u'') [v] = Some out" "\<exists>out. printf m (ln ''%08lX, %08ld'') [v, v'] = Some out"
    by (simp_all add: printf_eval)
qed

lemma crc32file_loop_eq:
  "file_rest m files i bs \<Longrightarrow>
   \<exists>files' out'. crc32file_loop m files i c n out = Some (files', foldl crc_byte c bs, n + of_nat (length bs), out') \<and>
     files' = files[i := files' ! i]"
proof (induction bs arbitrary: files c n out)
  case Nil
  obtain o1 where "printf m (ln ''%x'') [EOF] = Some o1" using printf_x by blast
  with getc_end [OF Nil] show ?case by (subst crc32file_loop.simps) (simp add: list_update_id)
next
  case (Cons b bs)
  obtain files1 where f: "getc m files i = Some (files1, ucast b)" "file_rest m files1 i bs"
      "files1 = files[i := files1 ! i]"
    using getc_byte [OF Cons.prems] by blast
  obtain o1 where o1: "printf m (ln ''%ld'') [n + 1] = Some o1" using printf_ld by blast
  obtain files' out' where ih: "crc32file_loop m files1 i (crc_byte c b) (n + 1) (out @ o1) =
      Some (files', foldl crc_byte (crc_byte c b) bs, n + 1 + of_nat (length bs), out')"
      "files' = files1[i := files' ! i]"
    using Cons.IH [OF f(2)] by blast
  have "files' = files[i := files' ! i]" using ih(2) f(3) by (metis list_update_overwrite)
  moreover have "crc32file_loop m files i c n out = Some (files', foldl crc_byte c (b # bs), n + of_nat (length (b # bs)), out')"
    using f(1) o1 ih(1) EOF_byte [of b]
    by (subst crc32file_loop.simps) (simp add: UPDC32_crc_byte add.assoc)
  ultimately show ?case by blast
qed

lemma crc32file_eq:
  assumes "cstr m str bs" "length files = SIZE" "j < SIZE" "fstr (files ! j) = 0"
  shows "\<exists>i out. crc32file m files str = Some (files[i := \<lparr>fstr = 0, fpos = 0\<rparr>], crc_of bs, of_nat (length bs), out) \<and>
    i < SIZE \<and> fstr (files ! i) = 0"
proof -
  have "fopen files str \<noteq> None" using assms(3,4) by (auto simp: fopen_none)
  then obtain files1 i where f: "fopen files str = Some (files1, i)" by auto
  note r = fopen_rest [OF f assms(2,1)]
  obtain pre where pre: "cstr m (fstr (files1 ! i)) pre" using r by (auto simp: file_rest_def)
  obtain o1 where o1: "printf m (ln ''len: %u'') [of_nat (length pre)] = Some o1" using printf_u by blast
  obtain o2 o3 where o2: "printf m (ln ''start'') [] = Some o2" "printf m (ln ''end'') [] = Some o3"
    by (simp add: printf_eval)
  obtain files2 o4 where l: "crc32file_loop m files1 i 0xFFFFFFFF 0 (o2 @ o1) =
      Some (files2, foldl crc_byte 0xFFFFFFFF bs, of_nat (length bs), o4)" "files2 = files1[i := files2 ! i]"
    using crc32file_loop_eq [where files = files1 and c = "0xFFFFFFFF" and n = 0 and out = "o2 @ o1"] r
    by fastforce
  have "fclose files2 i = files[i := \<lparr>fstr = 0, fpos = 0\<rparr>]"
    using l(2) r by (metis fclose_def list_update_overwrite)
  then have "crc32file m files str = Some (files[i := \<lparr>fstr = 0, fpos = 0\<rparr>], crc_of bs, of_nat (length bs), o4 @ o3)"
    using f o1 o2 l strlen_cstr [OF pre] by (simp add: crc32file_def crc_of_def)
  with r show ?thesis by blast
qed

lemma crc32_eq:
  assumes "cstr m str bs" "length files = SIZE" "j < SIZE" "fstr (files ! j) = 0"
  shows "\<exists>i out. crc32 m files str =
      Some (files[i := \<lparr>fstr = 0, fpos = 0\<rparr>], if crc_of bs = 1601645211 then 0 else 1, out) \<and>
    i < SIZE \<and> fstr (files ! i) = 0"
proof -
  obtain i out where f: "crc32file m files str =
      Some (files[i := \<lparr>fstr = 0, fpos = 0\<rparr>], crc_of bs, of_nat (length bs), out)" "i < SIZE" "fstr (files ! i) = 0"
    using crc32file_eq [OF assms] by blast
  obtain o2 where "printf m (ln ''%08lX, %08ld'') [crc_of bs, of_nat (length bs)] = Some o2"
    using printf_lX by blast
  with f show ?thesis by (auto simp: crc32_def)
qed

section \<open>Properties\<close>

text \<open>C24: each entry of the table is eight steps of the shift register on its index, and one
  \<open>UPDC32\<close> is eight steps on the checksum with the byte added.\<close>

theorem table_is_shift_register:
  "crc_32_tab = map (\<lambda>k. (crc_bit ^^ 8) (of_nat k)) [0..<256] \<and>
   UPDC32 b c = (crc_bit ^^ 8) (c XOR ucast b)"
  using UPDC32_crc_byte [of b c] by (simp add: crc_32_tab_eq feedback_def crc_byte_def comp_def)

text \<open>With an entry of \<open>files\<close> free, \<open>crc32file\<close> returns: the checksum is the one \<open>crc32buf\<close>
  computes of the same bytes, the count is their number, and every file is closed or as before.\<close>

theorem crc32file_result:
  "cstr m str bs \<Longrightarrow> length files = SIZE \<Longrightarrow> j < SIZE \<Longrightarrow> fstr (files ! j) = 0 \<Longrightarrow>
   \<exists>i out. crc32file m files str =
       Some (files[i := \<lparr>fstr = 0, fpos = 0\<rparr>], crc32buf m str (of_nat (length bs)), of_nat (length bs), out) \<and>
     i < SIZE \<and> fstr (files ! i) = 0"
proof -
  assume a: "cstr m str bs" "length files = SIZE" "j < SIZE" "fstr (files ! j) = 0"
  have "unat (of_nat (length bs) :: u32) = length bs"
    using cstr_length_bound [OF a(1)] by (rule unat_of_nat32)
  moreover have "read_bytes m str (length bs) = bs" using a(1) cstr_append [of m str bs "[]"] by simp
  ultimately show ?thesis using crc32file_eq [OF a] by (simp add: crc32buf_eq)
qed

lemma crc32file_result_witness:
  "\<exists>i out. crc32file (write_bytes (\<lambda>_. 0) 4 [1, 2, 3]) (replicate 10 \<lparr>fstr = 0, fpos = 0\<rparr>) 4 =
       Some ((replicate 10 \<lparr>fstr = 0, fpos = 0\<rparr>)[i := \<lparr>fstr = 0, fpos = 0\<rparr>],
         crc32buf (write_bytes (\<lambda>_. 0) 4 [1, 2, 3]) 4 3, 3, out) \<and>
     i < SIZE \<and> fstr (replicate 10 \<lparr>fstr = 0, fpos = 0\<rparr> ! i) = 0"
  using crc32file_result [of "write_bytes (\<lambda>_. 0) 4 [1, 2, 3]" 4 "[1, 2, 3]"
      "replicate 10 \<lparr>fstr = 0, fpos = 0\<rparr>" 0]
  by (simp add: SIZE_def)

text \<open>C19: two buffers of the same length that differ only within four consecutive bytes have
  different checksums.\<close>

theorem crc32buf_detects_burst:
  "read_bytes m buf (unat len) = pre @ bs @ post \<Longrightarrow> read_bytes m' buf (unat len) = pre @ cs @ post \<Longrightarrow>
   length bs = length cs \<Longrightarrow> length bs \<le> 4 \<Longrightarrow> bs \<noteq> cs \<Longrightarrow> crc32buf m buf len \<noteq> crc32buf m' buf len"
  by (simp add: crc32buf_eq crc_detects_burst)

lemma crc32buf_detects_burst_witness:
  "crc32buf (write_bytes (\<lambda>_. 0) 0 [1, 2, 3, 4, 5, 6]) 0 6 \<noteq> crc32buf (write_bytes (\<lambda>_. 0) 0 [1, 2, 7, 9, 5, 6]) 0 6"
  by (rule crc32buf_detects_burst [of _ _ _ "[1, 2]" "[3, 4]" "[5, 6]" _ "[7, 9]"])
     simp_all

end
