(* ===== verification/Sha.thy ===== *)
theory Sha
  imports Stdio
begin

text \<open>
  The secure hash of \<^verbatim>\<open>bench/sha\<close>: \<open>sha.c\<close> and \<open>sha_driver.c\<close>.  \<open>SHA_INFO\<close> is a record whose
  buffer \<open>data\<close> is a list of 64 bytes; read as an array of \<open>LONG\<close> it is little-endian, since
  \<open>LITTLE_ENDIAN\<close> is not defined in the build and no bytes are reversed.  The buffer of
  \<open>sha_stream\<close> is in memory, at an address of the stack.
\<close>

unbundle bit_operations_syntax

section \<open>The program\<close>

record SHA_INFO =
  digest :: "u32 list"
  count_lo :: u32
  count_hi :: u32
  sha_data :: "u8 list"

definition f1 :: "u32 \<Rightarrow> u32 \<Rightarrow> u32 \<Rightarrow> u32" where
  "f1 x y z = (x AND y) OR (NOT x AND z)"

definition f2 :: "u32 \<Rightarrow> u32 \<Rightarrow> u32 \<Rightarrow> u32" where
  "f2 x y z = x XOR y XOR z"

definition f3 :: "u32 \<Rightarrow> u32 \<Rightarrow> u32 \<Rightarrow> u32" where
  "f3 x y z = (x AND y) OR (x AND z) OR (y AND z)"

definition f4 :: "u32 \<Rightarrow> u32 \<Rightarrow> u32 \<Rightarrow> u32" where
  "f4 x y z = x XOR y XOR z"

definition ROT32 :: "u32 \<Rightarrow> nat \<Rightarrow> u32" where
  "ROT32 x n = push_bit n x OR drop_bit (32 - n) x"

type_synonym regs = "u32 \<times> u32 \<times> u32 \<times> u32 \<times> u32"

definition FUNC :: "(u32 \<Rightarrow> u32 \<Rightarrow> u32 \<Rightarrow> u32) \<Rightarrow> u32 \<Rightarrow> u32 list \<Rightarrow> nat \<Rightarrow> regs \<Rightarrow> regs" where
  "FUNC f K W i r =
     (let (A, B, C, D, E) = r;
          temp = ROT32 A 5 + f B C D + E + W ! i + K;
          E = D; D = C; C = ROT32 B 30; B = A; A = temp
      in (A, B, C, D, E))"

text \<open>\<open>data[i]\<close> read as a \<open>LONG\<close>, and a \<open>LONG\<close> stored there.\<close>

definition data_long :: "u8 list \<Rightarrow> nat \<Rightarrow> u32" where
  "data_long bs i = ucast (bs ! (4 * i)) OR push_bit 8 (ucast (bs ! (4 * i + 1)))
     OR push_bit 16 (ucast (bs ! (4 * i + 2))) OR push_bit 24 (ucast (bs ! (4 * i + 3)))"

definition long_bytes :: "u32 \<Rightarrow> u8 list" where
  "long_bytes w = [ucast w, ucast (drop_bit 8 w), ucast (drop_bit 16 w), ucast (drop_bit 24 w)]"

definition sha_W :: "u8 list \<Rightarrow> u32 list" where
  "sha_W bs =
     (let W = fold (\<lambda>i W. W @ [data_long bs i]) [0..<16] []
      in fold (\<lambda>i W. W @ [W ! (i - 3) XOR W ! (i - 8) XOR W ! (i - 14) XOR W ! (i - 16)]) [16..<80] W)"

definition sha_transform :: "SHA_INFO \<Rightarrow> SHA_INFO" where
  "sha_transform s =
     (let W = sha_W (sha_data s);
          r = (digest s ! 0, digest s ! 1, digest s ! 2, digest s ! 3, digest s ! 4);
          r = fold (FUNC f1 0x5a827999 W) [0..<20] r;
          r = fold (FUNC f2 0x6ed9eba1 W) [20..<40] r;
          r = fold (FUNC f3 0x8f1bbcdc W) [40..<60] r;
          (A, B, C, D, E) = fold (FUNC f4 0xca62c1d6 W) [60..<80] r
      in s\<lparr>digest := [digest s ! 0 + A, digest s ! 1 + B, digest s ! 2 + C, digest s ! 3 + D, digest s ! 4 + E]\<rparr>)"

definition sha_init :: "SHA_INFO \<Rightarrow> SHA_INFO" where
  "sha_init s = s\<lparr>digest := [0x67452301, 0xefcdab89, 0x98badcfe, 0x10325476, 0xc3d2e1f0],
     count_lo := 0, count_hi := 0\<rparr>"

text \<open>Copying \<open>cnt\<close> bytes into \<open>data\<close>; more than 64, or a negative number, is out of bounds.\<close>

definition sha_copy :: "mem \<Rightarrow> SHA_INFO \<Rightarrow> addr \<Rightarrow> int \<Rightarrow> SHA_INFO option" where
  "sha_copy m s buffer cnt =
     (if 0 \<le> cnt \<and> cnt \<le> 64
      then Some (s\<lparr>sha_data := read_bytes m buffer (nat cnt) @ drop (nat cnt) (sha_data s)\<rparr>)
      else None)"

function sha_update_loop :: "mem \<Rightarrow> SHA_INFO \<Rightarrow> addr \<Rightarrow> int \<Rightarrow> SHA_INFO option" where
  "sha_update_loop m s buffer cnt =
     (if cnt \<ge> 64
      then do { s1 \<leftarrow> sha_copy m s buffer 64;
                sha_update_loop m (sha_transform s1) (buffer + 64) (cnt - 64) }
      else sha_copy m s buffer cnt)"
  by pat_completeness auto
termination
  by (relation "measure (\<lambda>(m, s, buffer, cnt). nat cnt)") auto

declare sha_update_loop.simps [simp del]

definition sha_update :: "mem \<Rightarrow> SHA_INFO \<Rightarrow> addr \<Rightarrow> int \<Rightarrow> SHA_INFO option" where
  "sha_update m s buffer cnt =
     (let c = word_of_int cnt :: u32;
          s1 = (if count_lo s + push_bit 3 c < count_lo s then s\<lparr>count_hi := count_hi s + 1\<rparr> else s);
          s2 = s1\<lparr>count_lo := count_lo s1 + push_bit 3 c, count_hi := count_hi s1 + drop_bit 29 c\<rparr>
      in sha_update_loop m s2 buffer cnt)"

text \<open>\<open>memset\<close> of \<open>n\<close> bytes of \<open>data\<close> from \<open>k\<close> on to 0.\<close>

definition zero_data :: "nat \<Rightarrow> nat \<Rightarrow> SHA_INFO \<Rightarrow> SHA_INFO" where
  "zero_data k n s = s\<lparr>sha_data := take k (sha_data s) @ replicate n 0 @ drop (k + n) (sha_data s)\<rparr>"

definition sha_final :: "SHA_INFO \<Rightarrow> SHA_INFO" where
  "sha_final s =
     (let lo_bit_count = count_lo s; hi_bit_count = count_hi s;
          cnt = unat (drop_bit 3 lo_bit_count AND 0x3f);
          s = s\<lparr>sha_data := (sha_data s)[cnt := 0x80]\<rparr>;
          cnt = cnt + 1;
          s = (if cnt > 56
               then zero_data 0 56 (sha_transform (zero_data cnt (64 - cnt) s))
               else zero_data cnt (56 - cnt) s);
          s = s\<lparr>sha_data := take 56 (sha_data s) @ long_bytes hi_bit_count @ long_bytes lo_bit_count\<rparr>
      in sha_transform s)"

partial_function (option) sha_stream_loop ::
    "mem \<Rightarrow> cfile list \<Rightarrow> SHA_INFO \<Rightarrow> nat \<Rightarrow> addr \<Rightarrow> u8 list \<Rightarrow> (mem \<times> cfile list \<times> SHA_INFO \<times> u8 list) option" where
  "sha_stream_loop m files s fin data out =
     do { (m', files', i) \<leftarrow> fread m files data 1 512 fin;
          if sint i > 0
          then do { o1 \<leftarrow> printf m' (ln ''%d'') [i];
                    s' \<leftarrow> sha_update m' s data (sint i);
                    sha_stream_loop m' files' s' fin data (out @ o1) }
          else Some (m', files', s, out) }"

declare sha_stream_loop.simps [code]

definition sha_stream ::
    "mem \<Rightarrow> cfile list \<Rightarrow> SHA_INFO \<Rightarrow> nat \<Rightarrow> addr \<Rightarrow> (mem \<times> cfile list \<times> SHA_INFO \<times> u8 list) option" where
  "sha_stream m files s fin data =
     do { len \<leftarrow> strlen m (fstr (files ! fin));
          o1 \<leftarrow> printf m (ln ''len: %d'') [len];
          (m', files', s', out) \<leftarrow> sha_stream_loop m files (sha_init s) fin data o1;
          Some (m', files', sha_final s', out) }"

definition sha_print :: "mem \<Rightarrow> SHA_INFO \<Rightarrow> u8 list option" where
  "sha_print m s = printf m (ln ''%08lx %08lx %08lx %08lx %08lx'')
     [digest s ! 0, digest s ! 1, digest s ! 2, digest s ! 3, digest s ! 4]"

definition sha_ans :: "u32 list" where
  "sha_ans = [437358104, 2057077515, 2988414705, 3742976831, 2079096471]"

text \<open>The comparison loop of \<open>sha_driver\<close>: the result and what is printed.\<close>

function sha_compare :: "mem \<Rightarrow> u32 list \<Rightarrow> nat \<Rightarrow> (int \<times> u8 list) option" where
  "sha_compare m dig i =
     (if i < 5
      then do { o1 \<leftarrow> printf m (ln ''%lu : %lu'') [dig ! i, sha_ans ! i];
                if dig ! i \<noteq> sha_ans ! i then Some (1, o1)
                else do { (r, o2) \<leftarrow> sha_compare m dig (i + 1); Some (r, o1 @ o2) } }
      else Some (0, []))"
  by pat_completeness auto
termination
  by (relation "measure (\<lambda>(m, dig, i). 5 - i)") auto

declare sha_compare.simps [simp del]

text \<open>\<open>data\<close> is the address of the buffer of \<open>sha_stream\<close>, \<open>s\<close> what is on the stack for
  \<open>sha_info\<close>.\<close>

definition sha_driver ::
    "mem \<Rightarrow> cfile list \<Rightarrow> SHA_INFO \<Rightarrow> addr \<Rightarrow> addr \<Rightarrow> (mem \<times> cfile list \<times> int \<times> u8 list) option" where
  "sha_driver m files s data str =
     do { (files1, fin) \<leftarrow> fopen files str;
          (m', files2, s', o1) \<leftarrow> sha_stream m files1 s fin data;
          o2 \<leftarrow> sha_print m' s';
          let files3 = fclose files2 fin;
          (r, o3) \<leftarrow> sha_compare m' (digest s') 0;
          Some (m', files3, r, o1 @ o2 @ o3) }"

lemmas sha_unroll [unroll] = sha_update_loop.simps sha_stream_loop.simps sha_compare.simps

section \<open>The compression function of the standard\<close>

text \<open>The message schedule, the functions, the constants and the state after \<open>t\<close> rounds, as
  the standard writes them (with the block's words read little-endian).\<close>

fun sched :: "u8 list \<Rightarrow> nat \<Rightarrow> u32" where
  "sched b t = (if t < 16 then data_long b t
     else sched b (t - 3) XOR sched b (t - 8) XOR sched b (t - 14) XOR sched b (t - 16))"

declare sched.simps [simp del]

definition ft :: "nat \<Rightarrow> u32 \<Rightarrow> u32 \<Rightarrow> u32 \<Rightarrow> u32" where
  "ft t x y z =
     (if t < 20 then (x AND y) OR (NOT x AND z)
      else if t < 40 then x XOR y XOR z
      else if t < 60 then (x AND y) OR (x AND z) OR (y AND z)
      else x XOR y XOR z)"

definition kt :: "nat \<Rightarrow> u32" where
  "kt t = (if t < 20 then 0x5a827999 else if t < 40 then 0x6ed9eba1
     else if t < 60 then 0x8f1bbcdc else 0xca62c1d6)"

fun rounds :: "u32 list \<Rightarrow> u8 list \<Rightarrow> nat \<Rightarrow> regs" where
  "rounds h blk 0 = (h ! 0, h ! 1, h ! 2, h ! 3, h ! 4)"
| "rounds h blk (Suc t) =
     (let (a, b, c, d, e) = rounds h blk t
      in (word_rotl 5 a + ft t b c d + e + sched blk t + kt t, a, word_rotl 30 b, c, d))"

definition compress :: "u32 list \<Rightarrow> u8 list \<Rightarrow> u32 list" where
  "compress h blk = (let (a, b, c, d, e) = rounds h blk 80
     in [h ! 0 + a, h ! 1 + b, h ! 2 + c, h ! 3 + d, h ! 4 + e])"

lemma ROT32_rotl: "0 < n \<Longrightarrow> n < 32 \<Longrightarrow> ROT32 x n = word_rotl n x"
proof (rule bit_word_eqI)
  fix i assume a: "0 < n" "n < 32" "i < LENGTH(32)"
  have "(i + (32 - n)) mod 32 = (if i < n then i + (32 - n) else i - n)"
    using a by (auto simp: mod_if)
  with a show "bit (ROT32 x n) i = bit (word_rotl n x) i"
    by (auto simp: ROT32_def bit_word_rotl_iff bit_simps add.commute [of i] dest: bit_imp_le_length)
qed

lemma sha_W_sched: "i < 80 \<Longrightarrow> sha_W bs ! i = sched bs i"
proof -
  have a: "fold (\<lambda>i W. W @ [data_long bs i]) [0..<n] [] = map (data_long bs) [0..<n]" for n
    by (induction n) simp_all
  have b: "fold (\<lambda>i W. W @ [W ! (i - 3) XOR W ! (i - 8) XOR W ! (i - 14) XOR W ! (i - 16)]) [k..<l]
      (map (sched bs) [0..<k]) = map (sched bs) [0..<l]" if "16 \<le> k" "k \<le> l" for k l
    using that(2)
  proof (induction l rule: dec_induct)
    case base
    then show ?case by simp
  next
    case (step l)
    have "sched bs l = sched bs (l - 3) XOR sched bs (l - 8) XOR sched bs (l - 14) XOR sched bs (l - 16)"
      using that(1) step.hyps by (subst sched.simps) simp
    with step that(1) show ?case by simp
  qed
  have c: "map (data_long bs) [0..<16] = map (sched bs) [0..<16]"
    by (rule map_cong [OF refl]) (subst sched.simps, simp)
  have "sha_W bs = map (sched bs) [0..<80]"
    unfolding sha_W_def Let_def a c by (rule b) simp_all
  moreover assume "i < 80"
  ultimately show ?thesis by (simp del: upt_Suc)
qed

lemma fold_FUNC:
  "a \<le> b \<Longrightarrow> (\<And>t. a \<le> t \<Longrightarrow> t < b \<Longrightarrow> f = ft t \<and> k = kt t \<and> W ! t = sched blk t) \<Longrightarrow>
   fold (FUNC f k W) [a..<b] (rounds h blk a) = rounds h blk b"
proof (induction b rule: dec_induct)
  case base
  then show ?case by simp
next
  case (step b)
  then have "fold (FUNC f k W) [a..<b] (rounds h blk a) = rounds h blk b" by simp
  moreover have "FUNC f k W b (rounds h blk b) = rounds h blk (Suc b)"
    using step.prems [of b] step.hyps
    by (simp add: FUNC_def ROT32_rotl split: prod.split)
  ultimately show ?case using step.hyps by simp
qed

lemma sha_transform_compress: "sha_transform s = s\<lparr>digest := compress (digest s) (sha_data s)\<rparr>"
proof -
  let ?h = "digest s" and ?b = "sha_data s"
  have r0: "(?h ! 0, ?h ! 1, ?h ! 2, ?h ! 3, ?h ! 4) = rounds ?h ?b 0" by simp
  have f: "fold (FUNC f1 0x5a827999 (sha_W ?b)) [0..<20] (rounds ?h ?b 0) = rounds ?h ?b 20"
    "fold (FUNC f2 0x6ed9eba1 (sha_W ?b)) [20..<40] (rounds ?h ?b 20) = rounds ?h ?b 40"
    "fold (FUNC f3 0x8f1bbcdc (sha_W ?b)) [40..<60] (rounds ?h ?b 40) = rounds ?h ?b 60"
    "fold (FUNC f4 0xca62c1d6 (sha_W ?b)) [60..<80] (rounds ?h ?b 60) = rounds ?h ?b 80"
    by (rule fold_FUNC; simp add: sha_W_sched ft_def kt_def f1_def f2_def f3_def f4_def fun_eq_iff)+
  show ?thesis
    unfolding sha_transform_def compress_def Let_def r0 f
    by (cases "rounds ?h ?b 80") (simp only: prod.case)
qed

section \<open>The hash of a message\<close>

function chunks :: "u8 list \<Rightarrow> u8 list list" where
  "chunks bs = (if length bs < 64 then [] else take 64 bs # chunks (drop 64 bs))"
  by pat_completeness auto
termination
  by (relation "measure length") auto

declare chunks.simps [simp del]

definition sha_start :: "u32 list" where
  "sha_start = [0x67452301, 0xefcdab89, 0x98badcfe, 0x10325476, 0xc3d2e1f0]"

text \<open>The message padded to a multiple of 64 bytes: a byte \<open>0x80\<close>, zeros, and the number of bits
  in 64 bits.\<close>

definition sha_pad :: "u8 list \<Rightarrow> u8 list" where
  "sha_pad bs = bs @ 0x80 # replicate ((119 - length bs mod 64) mod 64) 0
     @ long_bytes (of_nat (8 * length bs div 2 ^ 32)) @ long_bytes (of_nat (8 * length bs))"

definition sha_of :: "u8 list \<Rightarrow> u32 list" where
  "sha_of bs = foldl compress sha_start (chunks (sha_pad bs))"

lemma chunks_short: "length bs < 64 \<Longrightarrow> chunks bs = []"
  by (simp add: chunks.simps)

lemma chunks_block: "length bs = 64 \<Longrightarrow> chunks (bs @ cs) = bs # chunks cs"
  by (subst chunks.simps) simp

lemma chunks_append: "length as = 64 * k \<Longrightarrow> chunks (as @ bs) = chunks as @ chunks bs"
proof (induction k arbitrary: as)
  case 0
  then show ?case by (simp add: chunks_short)
next
  case (Suc k)
  define b where "b = take 64 as"
  define r where "r = drop 64 as"
  have t: "as = b @ r" "length b = 64" "length r = 64 * k" using Suc.prems by (simp_all add: b_def r_def)
  then show ?case
    using Suc.IH [OF t(3)] by (simp add: chunks_block)
qed

lemma chunks_one: "length bs = 64 \<Longrightarrow> chunks bs = [bs]"
  using chunks_block [of bs "[]"] by (simp add: chunks_short)

lemma length_long_bytes [simp]: "length (long_bytes w) = 4"
  by (simp add: long_bytes_def)

text \<open>\<open>hashed s pre rest\<close>: the blocks of \<open>pre\<close> have gone into the digest, and \<open>rest\<close> is at the
  start of \<open>data\<close>.\<close>

definition hashed :: "SHA_INFO \<Rightarrow> u8 list \<Rightarrow> u8 list \<Rightarrow> bool" where
  "hashed s pre rest \<longleftrightarrow> (\<exists>k. length pre = 64 * k) \<and> length rest < 64 \<and> length (sha_data s) = 64 \<and>
     digest s = foldl compress sha_start (chunks pre) \<and> take (length rest) (sha_data s) = rest"

definition counted :: "SHA_INFO \<Rightarrow> nat \<Rightarrow> bool" where
  "counted s n \<longleftrightarrow> unat (count_lo s) + 2 ^ 32 * unat (count_hi s) = 8 * n"

lemma sha_update_loop_hashed:
  "hashed s pre [] \<Longrightarrow> read_bytes m buffer (length bs) = bs \<Longrightarrow>
   \<exists>s' pre' rest. sha_update_loop m s buffer (int (length bs)) = Some s' \<and> pre @ bs = pre' @ rest \<and>
     hashed s' pre' rest \<and> count_lo s' = count_lo s \<and> count_hi s' = count_hi s"
proof (induction "length bs" arbitrary: s pre buffer bs rule: less_induct)
  case less
  show ?case
  proof (cases "64 \<le> length bs")
    case False
    define s' where "s' = s\<lparr>sha_data := bs @ drop (length bs) (sha_data s)\<rparr>"
    have "sha_update_loop m s buffer (int (length bs)) = Some s'"
      using False less.prems(2) by (subst sha_update_loop.simps) (simp add: sha_copy_def s'_def)
    moreover have "hashed s' pre bs"
      using less.prems(1) False by (simp add: hashed_def s'_def)
    ultimately show ?thesis by (intro exI [of _ s'] exI [of _ pre] exI [of _ bs]) (simp add: s'_def)
  next
    case True
    define b where "b = take 64 bs"
    define r where "r = drop 64 bs"
    have br: "bs = b @ r" "length b = 64" "length r = length bs - 64" using True by (simp_all add: b_def r_def)
    have "64 + length r = length bs" using br(3) True by simp
    then have "read_bytes m buffer 64 @ read_bytes m (buffer + of_nat 64) (length r) = b @ r"
      using less.prems(2) unfolding read_bytes_append [symmetric] br(1) [symmetric] by simp
    moreover have "length (read_bytes m buffer 64) = length b" unfolding br(2) by (rule length_read_bytes)
    ultimately have "read_bytes m buffer 64 = b \<and> read_bytes m (buffer + of_nat 64) (length r) = r"
      using append_eq_append_conv [of "read_bytes m buffer 64" b] by blast
    then have rb: "read_bytes m buffer 64 = b" "read_bytes m (buffer + 64) (length r) = r"
      by (simp_all del: read_bytes_numeral)
    define s1 where "s1 = sha_transform (s\<lparr>sha_data := b\<rparr>)"
    have "length (sha_data s) = 64" using less.prems(1) by (simp add: hashed_def)
    then have step: "sha_update_loop m s buffer (int (length bs)) = sha_update_loop m s1 (buffer + 64) (int (length r))"
      using True rb(1) br(3) by (subst sha_update_loop.simps)
        (simp add: sha_copy_def s1_def of_nat_diff del: read_bytes_numeral)
    obtain k where k: "length pre = 64 * k" using less.prems(1) by (auto simp: hashed_def)
    have "\<exists>k. length (pre @ b) = 64 * k" using k br(2) by (intro exI [of _ "Suc k"]) simp
    moreover have "foldl compress sha_start (chunks (pre @ b)) = compress (digest s) b"
      using chunks_append [OF k, of b] chunks_one [OF br(2)] less.prems(1) by (simp add: hashed_def)
    ultimately have "hashed s1 (pre @ b) []"
      using br(2) by (simp add: hashed_def s1_def sha_transform_compress)
    moreover have "length r < length bs" using br(3) True by simp
    ultimately obtain s' pre' rest where s': "sha_update_loop m s1 (buffer + 64) (int (length r)) = Some s'"
       "(pre @ b) @ r = pre' @ rest" "hashed s' pre' rest" "count_lo s' = count_lo s1" "count_hi s' = count_hi s1"
      using less.hyps [OF _ _ rb(2)] by blast
    have "pre @ bs = pre' @ rest" using s'(2) unfolding br(1) by simp
    moreover have "count_lo s1 = count_lo s" "count_hi s1 = count_hi s"
      by (simp_all add: s1_def sha_transform_compress)
    ultimately show ?thesis
      using s' step by metis
  qed
qed

lemma carry_add:
  assumes "unat (lo :: u32) + 2 ^ 32 * unat (hi :: u32) = n" "n + 8 * c < 2 ^ 64" "c < 2 ^ 29"
  shows "unat (lo + push_bit 3 (of_nat c)) + 2 ^ 32 * unat
      ((if lo + push_bit 3 (of_nat c) < lo then hi + 1 else hi) + drop_bit 29 (of_nat c)) = n + 8 * c"
proof -
  have uc: "unat (of_nat c :: u32) = c" using assms(3) by (simp add: unat_of_nat32)
  have d: "drop_bit 29 (of_nat c :: u32) = 0"
  proof -
    have "unat (drop_bit 29 (of_nat c :: u32)) = c div 2 ^ 29" unfolding unat_drop_bit_eq uc by (rule drop_bit_eq_div)
    then show ?thesis using assms(3) by (simp add: unat_eq_zero)
  qed
  have p: "push_bit 3 (of_nat c :: u32) = of_nat (8 * c)" by (simp add: push_bit_eq_mult)
  have u: "unat (of_nat (8 * c) :: u32) = 8 * c" using assms(3) by (intro unat_of_nat32) simp
  have l: "unat lo < 2 ^ 32" "unat hi < 2 ^ 32" using unsigned_less [of lo, where 'a = nat] unsigned_less [of hi, where 'a = nat] by simp_all
  define lo' where "lo' = lo + of_nat (8 * c)"
  have lo': "unat lo' = (unat lo + 8 * c) mod 2 ^ 32" unfolding lo'_def by (simp only: unat_word_ariths u) simp
  show ?thesis
  proof (cases "unat lo + 8 * c < 2 ^ 32")
    case True
    with lo' have "unat lo' = unat lo + 8 * c" by simp
    then show ?thesis using assms(1) unfolding p d lo'_def [symmetric] by (simp add: word_less_nat_alt)
  next
    case False
    with lo' l assms(3) have "unat lo' = unat lo + 8 * c - 2 ^ 32" by (simp add: mod_if)
    moreover have h: "unat (hi + 1) = Suc (unat hi)"
    proof -
      have "2 ^ 32 * unat hi + 2 ^ 32 < (2 ^ 64 :: nat)" using assms(1,2) False by linarith
      then have "unat hi + 1 < 2 ^ 32" by simp
      then show ?thesis by (simp add: unat_word_ariths)
    qed
    ultimately show ?thesis using assms(1,3) False l unfolding p d lo'_def [symmetric]
      by (simp add: word_less_nat_alt)
  qed
qed


lemma sha_update_hashed:
  assumes h: "hashed s pre []" and c: "counted s (length pre)" and l: "length pre + length bs < 2 ^ 32" "length bs < 2 ^ 29"
    and b: "read_bytes m buffer (length bs) = bs"
  shows "\<exists>s' pre' rest. sha_update m s buffer (int (length bs)) = Some s' \<and> pre @ bs = pre' @ rest \<and>
     hashed s' pre' rest \<and> counted s' (length (pre @ bs))"
proof -
  define cc where "cc = (of_nat (length bs) :: u32)"
  define s2 where "s2 = s\<lparr>count_lo := count_lo s + push_bit 3 cc,
      count_hi := (if count_lo s + push_bit 3 cc < count_lo s then count_hi s + 1 else count_hi s) + drop_bit 29 cc\<rparr>"
  have "sha_update m s buffer (int (length bs)) = sha_update_loop m s2 buffer (int (length bs))"
    by (simp add: sha_update_def Let_def s2_def cc_def)
  moreover have "hashed s2 pre []" using h by (simp add: hashed_def s2_def)
  moreover have cs: "counted s2 (length (pre @ bs))"
    using carry_add [of "count_lo s" "count_hi s" "8 * length pre" "length bs"] c l
    by (simp add: counted_def s2_def cc_def)
  ultimately obtain s' pre' rest where s': "sha_update m s buffer (int (length bs)) = Some s'"
      "pre @ bs = pre' @ rest" "hashed s' pre' rest" "count_lo s' = count_lo s2" "count_hi s' = count_hi s2"
    using sha_update_loop_hashed [of s2 pre m buffer bs] b by metis
  with cs have "counted s' (length (pre @ bs))" by (simp only: counted_def)
  with s' show ?thesis by blast
qed

lemma six_bits: "unat (x AND 0x3f) = unat x mod 64" for x :: u32
proof -
  have "x AND 0x3f = take_bit 6 x" by (simp add: take_bit_eq_mask mask_eq_exp_minus_1)
  then have "unat (x AND 0x3f) = take_bit 6 (unat x)" by (simp only: unsigned_take_bit_eq)
  then show ?thesis by (simp add: take_bit_eq_mod)
qed

lemma counted_words:
  assumes "counted s n"
  shows "count_lo s = of_nat (8 * n)" "count_hi s = of_nat (8 * n div 2 ^ 32)"
    "unat (drop_bit 3 (count_lo s) AND 0x3f) = n mod 64"
proof -
  define lo where "lo = unat (count_lo s)"
  define hi where "hi = unat (count_hi s)"
  have l: "lo < 2 ^ 32" unfolding lo_def using unsigned_less [of "count_lo s", where 'a = nat] by simp
  have e: "lo + 2 ^ 32 * hi = 8 * n" using assms by (simp add: counted_def lo_def hi_def)
  have "8 * n mod 2 ^ 32 = lo" "8 * n div 2 ^ 32 = hi" using l unfolding e [symmetric] by simp_all
  moreover have "count_lo s = of_nat lo" "count_hi s = of_nat hi" by (simp_all add: lo_def hi_def)
  moreover have "(of_nat (8 * n) :: u32) = of_nat (8 * n mod 2 ^ 32)"
    by (simp add: word_unat_eq_iff unat_of_nat take_bit_eq_mod del: of_nat_mult)
  ultimately show "count_lo s = of_nat (8 * n)" "count_hi s = of_nat (8 * n div 2 ^ 32)" by simp_all
  have "unat (drop_bit 3 (count_lo s)) = lo div 8"
    unfolding unat_drop_bit_eq lo_def by (simp add: drop_bit_eq_div)
  moreover have "lo div 8 mod 64 = n mod 64"
  proof -
    have "n = (lo + 2 ^ 32 * hi) div 8" using e by simp
    also have "\<dots> = lo div 8 + 64 * (8388608 * hi)"
      using div_mult_self2 [of 8 lo "536870912 * hi"] by simp
    finally have "n mod 64 = (lo div 8 + 64 * (8388608 * hi)) mod 64" by (rule arg_cong)
    also have "\<dots> = lo div 8 mod 64" by (rule mod_mult_self2)
    finally show ?thesis ..
  qed
  ultimately show "unat (drop_bit 3 (count_lo s) AND 0x3f) = n mod 64" by (simp add: six_bits)
qed

lemma data_marked:
  assumes "take (length rest) d = rest" "length rest < length d"
  shows "take (Suc (length rest)) (d[length rest := x]) = rest @ [x]"
  using assms by (simp add: take_Suc_conv_app_nth)

lemma sha_final_hash:
  assumes h: "hashed s pre rest" and c: "counted s (length (pre @ rest))"
  shows "digest (sha_final s) = sha_of (pre @ rest)"
proof -
  let ?r = "length rest" and ?n = "length (pre @ rest)"
  let ?hi = "long_bytes (count_hi s)" and ?lo = "long_bytes (count_lo s)"
  obtain k where k: "length pre = 64 * k" using h by (auto simp: hashed_def)
  have d: "length (sha_data s) = 64" "?r < 64" "take ?r (sha_data s) = rest"
      "digest s = foldl compress sha_start (chunks pre)" using h by (simp_all add: hashed_def)
  have nr: "?n mod 64 = ?r" using k d(2) by simp
  note w = counted_words [OF c, unfolded nr]
  have m: "take (Suc ?r) ((sha_data s)[?r := 0x80]) = rest @ [0x80]"
    using d by (intro data_marked) simp_all
  show ?thesis
  proof (cases "?r < 56")
    case True
    have z: "(119 - ?n mod 64) mod 64 = 55 - ?r" using True unfolding nr by (simp add: mod_if)
    have "sha_pad (pre @ rest) = pre @ (rest @ 0x80 # replicate (55 - ?r) 0 @ ?hi @ ?lo)"
      unfolding sha_pad_def z w(1,2) [symmetric] by simp
    moreover have "length (rest @ 0x80 # replicate (55 - ?r) 0 @ ?hi @ ?lo) = 64" using True by simp
    ultimately have "sha_of (pre @ rest) = compress (digest s) (rest @ 0x80 # replicate (55 - ?r) 0 @ ?hi @ ?lo)"
      using chunks_append [OF k] chunks_one d(4) by (simp add: sha_of_def)
    moreover have "sha_data (zero_data (Suc ?r) (55 - ?r) (s\<lparr>sha_data := (sha_data s)[?r := 0x80]\<rparr>))
        = rest @ 0x80 # replicate (55 - ?r) 0 @ drop 56 (sha_data s)"
      using True d m by (simp add: zero_data_def)
    ultimately show ?thesis
      using True w(3) d by (simp add: sha_final_def Let_def sha_transform_compress zero_data_def take_Cons')
  next
    case False
    have z: "(119 - ?n mod 64) mod 64 = 119 - ?r" using False d(2) unfolding nr by simp
    let ?b1 = "rest @ 0x80 # replicate (63 - ?r) 0" and ?b2 = "replicate 56 0 @ ?hi @ ?lo"
    have "119 - ?r = (63 - ?r) + 56" using d(2) by simp
    then have "sha_pad (pre @ rest) = pre @ (?b1 @ ?b2)"
      unfolding sha_pad_def z w(1,2) [symmetric] by (simp only: replicate_add append_assoc append_Cons)
    moreover have l: "length ?b1 = 64" "length ?b2 = 64" using d(2) by simp_all
    ultimately have "sha_of (pre @ rest) = compress (compress (digest s) ?b1) ?b2"
      using chunks_append [OF k, of "?b1 @ ?b2"] chunks_block [OF l(1), of ?b2] chunks_one [OF l(2)] d(4)
      by (simp add: sha_of_def)
    moreover have "sha_data (zero_data (Suc ?r) (63 - ?r) (s\<lparr>sha_data := (sha_data s)[?r := 0x80]\<rparr>)) = ?b1"
      using d m by (simp add: zero_data_def)
    ultimately show ?thesis
      using False w(3) d by (simp add: sha_final_def Let_def sha_transform_compress zero_data_def take_Cons')
  qed
qed

lemma apart_mono: "apart a n b k \<Longrightarrow> k' \<le> k \<Longrightarrow> apart a n b k'"
  by (auto simp: apart_def in_block_def)

section \<open>The hash of a file\<close>

lemma hashed_full: "hashed s pre rest \<Longrightarrow> length (pre @ rest) = 64 * k \<Longrightarrow> rest = []"
proof -
  assume h: "hashed s pre rest" and l: "length (pre @ rest) = 64 * k"
  obtain j where "length pre = 64 * j" "length rest < 64" using h by (auto simp: hashed_def)
  with l have "length rest mod 64 = 0" by (metis length_append mod_mult_self1_is_0 mod_mult_self4)
  with \<open>length rest < 64\<close> show ?thesis by simp
qed

lemma printf_d: "\<exists>out. printf m (ln ''%d'') [v] = Some out"
  and printf_len_d: "\<exists>out. printf m (ln ''len: %d'') [v] = Some out"
proof -
  obtain out where "printbase v 1 10 True = Some out"
    using printbase_total [of 10 v 1 True] by auto
  then show "\<exists>out. printf m (ln ''%d'') [v] = Some out" "\<exists>out. printf m (ln ''len: %d'') [v] = Some out"
    by (simp_all add: printf_eval)
qed

lemma sha_stream_loop_hash:
  "\<lbrakk>file_rest m files fin bs; cstr m (fstr (files ! fin)) all; apart (fstr (files ! fin)) (Suc (length all)) data 512;
    hashed s pre rest; rest = [] \<or> bs = []; counted s (length (pre @ rest)); length (pre @ rest) = 64 * k \<or> bs = [];
    length (pre @ rest @ bs) < 2 ^ 32\<rbrakk> \<Longrightarrow>
   \<exists>m' files' s' out'. sha_stream_loop m files s fin data out = Some (m', files', s', out') \<and>
     digest (sha_final s') = sha_of (pre @ rest @ bs) \<and> files' = files[fin := files' ! fin] \<and>
     (\<forall>x. \<not> in_block x data 512 \<longrightarrow> m' x = m x)"
proof (induction "length bs" arbitrary: m files bs s pre rest k out rule: less_induct)
  case less
  note rest = less.prems(1) and str = less.prems(2) and ap = less.prems(3)
  define c where "c = min 512 (length bs)"
  have c: "c = min (unat (1 * 512 :: u32)) (length bs)" by (simp add: c_def)
  have "apart (fstr (files ! fin)) (Suc (length all)) data c" using ap by (rule apart_mono) (simp add: c_def)
  from fread_rest [OF rest c this str]
  obtain files1 where f: "fread m files data 1 512 fin = Some (write_bytes m data (take c bs), files1, of_nat c)"
      "file_rest (write_bytes m data (take c bs)) files1 fin (drop c bs)"
      "files1 = files[fin := files1 ! fin]" "fstr (files1 ! fin) = fstr (files ! fin)" by blast
  define m1 where "m1 = write_bytes m data (take c bs)"
  have lc: "length (take c bs) = c" "c \<le> 512" by (simp_all add: c_def)
  have same: "m1 x = m x" if "\<not> in_block x data 512" for x
    using that lc unfolding m1_def by (subst write_bytes_outside) (auto simp: in_block_def)
  have sc: "sint (of_nat c :: u32) = int c" using lc by (intro sint_of_nat32) simp
  show ?case
  proof (cases "bs = []")
    case True
    then have "sha_stream_loop m files s fin data out = Some (m1, files1, s, out)"
      using f(1) by (subst sha_stream_loop.simps) (simp add: c_def m1_def)
    moreover have "digest (sha_final s) = sha_of (pre @ rest @ bs)"
      using sha_final_hash [OF less.prems(4,6)] True by simp
    ultimately show ?thesis using f(3) same by blast
  next
    case False
    then have re: "rest = []" and pos: "0 < c" using less.prems(5) by (auto simp: c_def)
    obtain k' where k': "length pre = 64 * k'" using less.prems(4) by (auto simp: hashed_def)
    have rb: "read_bytes m1 data (length (take c bs)) = take c bs"
      unfolding m1_def using lc by (intro read_write_same) simp_all
    have "length pre + length (take c bs) < 2 ^ 32" "length (take c bs) < 2 ^ 29"
      using less.prems(8) lc re by (simp_all add: c_def)
    moreover have "hashed s pre []" "counted s (length pre)" using less.prems(4,6) re by simp_all
    ultimately obtain s1 pre1 rest1 where u: "sha_update m1 s data (int c) = Some s1" "pre @ take c bs = pre1 @ rest1"
       "hashed s1 pre1 rest1" "counted s1 (length (pre @ take c bs))"
      using sha_update_hashed [of s pre "take c bs" m1 data] rb unfolding lc(1) by blast
    obtain o1 where o1: "printf m1 (ln ''%d'') [of_nat c] = Some o1" using printf_d by blast
    have step: "sha_stream_loop m files s fin data out = sha_stream_loop m1 files1 s1 fin data (out @ o1)"
      using f(1) o1 u(1) pos sc by (subst sha_stream_loop.simps) (simp add: m1_def)
    have len1: "length (pre1 @ rest1) = 64 * (k' + 8) \<or> drop c bs = []"
      using k' unfolding u(2) [symmetric] by (cases "512 \<le> length bs") (simp_all add: c_def)
    then have re1: "rest1 = [] \<or> drop c bs = []" using hashed_full [OF u(3)] by blast
    have "cstr m1 (fstr (files1 ! fin)) all"
      using str ap unfolding f(4) by (subst cstr_cong [of _ _ _ m]) (auto simp: same apart_def)
    moreover have "length (drop c bs) < length bs" using False pos by simp
    moreover have "length (pre1 @ rest1 @ drop c bs) < 2 ^ 32"
    proof -
      have "pre1 @ rest1 @ drop c bs = pre @ bs" using u(2) by (metis append.assoc append_take_drop_id)
      then show ?thesis using less.prems(8) re by simp
    qed
    ultimately obtain m' files' s' out' where l: "sha_stream_loop m1 files1 s1 fin data (out @ o1) = Some (m', files', s', out')"
       "digest (sha_final s') = sha_of (pre1 @ rest1 @ drop c bs)" "files' = files1[fin := files' ! fin]"
       "\<forall>x. \<not> in_block x data 512 \<longrightarrow> m' x = m1 x"
      using less.hyps [of "drop c bs" m1 files1 s1 pre1 rest1 "k' + 8" "out @ o1"] f(2) ap u(3,4) re1 len1
      unfolding m1_def [symmetric] f(4) u(2) by blast
    have "pre1 @ rest1 @ drop c bs = pre @ rest @ bs" using u(2) re by (metis append.assoc append_Nil append_take_drop_id)
    moreover have "files' = files[fin := files' ! fin]" using l(3) f(3) by (metis list_update_overwrite)
    ultimately show ?thesis unfolding step using l same by auto
  qed
qed

lemma sha_stream_hash:
  assumes "file_rest m files fin bs" "cstr m (fstr (files ! fin)) all" "length (sha_data s) = 64"
    "apart (fstr (files ! fin)) (Suc (length all)) data 512"
  shows "\<exists>m' files' s' out. sha_stream m files s fin data = Some (m', files', s', out) \<and>
     digest s' = sha_of bs \<and> files' = files[fin := files' ! fin] \<and>
     (\<forall>x. \<not> in_block x data 512 \<longrightarrow> m' x = m x)"
proof -
  have "hashed (sha_init s) [] []" using assms(3) by (simp add: hashed_def sha_init_def sha_start_def chunks_short)
  moreover have "counted (sha_init s) (length ([] @ []))" by (simp add: counted_def sha_init_def)
  moreover have "length bs < 2 ^ 32"
    using assms(1) cstr_length_bound by (fastforce simp: file_rest_def)
  moreover obtain o1 where o1: "printf m (ln ''len: %d'') [of_nat (length all)] = Some o1" using printf_len_d by blast
  ultimately obtain m' files' s' out where l: "sha_stream_loop m files (sha_init s) fin data o1 = Some (m', files', s', out)"
     "digest (sha_final s') = sha_of bs" "files' = files[fin := files' ! fin]" "\<forall>x. \<not> in_block x data 512 \<longrightarrow> m' x = m x"
    using sha_stream_loop_hash [OF assms(1,2,4), of "sha_init s" "[]" "[]" 0 o1] by auto
  then show ?thesis
    using o1 strlen_cstr [OF assms(2)] by (simp add: sha_stream_def)
qed

section \<open>The benchmark\<close>

lemma printf_lu: "\<exists>out. printf m (ln ''%lu : %lu'') [v, u] = Some out"
  and printf_08lx: "\<exists>out. printf m (ln ''%08lx %08lx %08lx %08lx %08lx'') [a, b, c, d, e] = Some out"
proof -
  have p: "\<exists>out. printbase v w 10 False = Some out" for v w
    using printbase_total [of 10 v w False] by simp
  obtain o1 o2 where "printbase v 1 10 False = Some o1" "printbase u 1 10 False = Some o2" using p by metis
  then show "\<exists>out. printf m (ln ''%lu : %lu'') [v, u] = Some out" by (simp add: printf_eval)
  obtain o1 o2 o3 o4 o5 where "printbase a 8 10 False = Some o1" "printbase b 8 10 False = Some o2"
    "printbase c 8 10 False = Some o3" "printbase d 8 10 False = Some o4" "printbase e 8 10 False = Some o5"
    using p by metis
  then show "\<exists>out. printf m (ln ''%08lx %08lx %08lx %08lx %08lx'') [a, b, c, d, e] = Some out"
    by (simp add: printf_eval)
qed

lemma sha_compare_eq:
  "\<exists>out. sha_compare m dig i = Some (if \<forall>j. i \<le> j \<and> j < 5 \<longrightarrow> dig ! j = sha_ans ! j then 0 else 1, out)"
proof (induction "5 - i" arbitrary: i)
  case 0
  then show ?case by (subst sha_compare.simps) auto
next
  case (Suc d)
  then have i: "i < 5" by simp
  obtain o1 where o1: "printf m (ln ''%lu : %lu'') [dig ! i, sha_ans ! i] = Some o1" using printf_lu by blast
  have "d = 5 - Suc i" using Suc.hyps(2) by simp
  then obtain o2 where o2: "sha_compare m dig (Suc i) =
      Some (if \<forall>j. Suc i \<le> j \<and> j < 5 \<longrightarrow> dig ! j = sha_ans ! j then 0 else 1, o2)"
    using Suc.hyps(1) by blast
  have "(\<forall>j. i \<le> j \<and> j < 5 \<longrightarrow> dig ! j = sha_ans ! j) \<longleftrightarrow>
      dig ! i = sha_ans ! i \<and> (\<forall>j. Suc i \<le> j \<and> j < 5 \<longrightarrow> dig ! j = sha_ans ! j)"
    using i le_eq_less_or_eq Suc_le_eq by metis
  then show ?case
    using i o1 o2 by (subst sha_compare.simps) auto
qed

lemma compress_length [simp]: "length (compress h b) = 5"
  by (simp add: compress_def split: prod.split)

lemma sha_of_length: "length (sha_of bs) = 5"
proof -
  have "length (foldl compress h bs) = 5" if "length h = 5" for h bs
    using that by (induction bs arbitrary: h) simp_all
  then show ?thesis by (simp add: sha_of_def sha_start_def)
qed

lemma sha_driver_eq:
  assumes "cstr m str bs" "length files = SIZE" "j < SIZE" "fstr (files ! j) = 0"
    "length (sha_data s) = 64" "apart str (Suc (length bs)) data 512"
  shows "\<exists>m' i out. sha_driver m files s data str =
      Some (m', files[i := \<lparr>fstr = 0, fpos = 0\<rparr>], if sha_of bs = sha_ans then 0 else 1, out) \<and>
    i < SIZE \<and> fstr (files ! i) = 0 \<and> (\<forall>x. \<not> in_block x data 512 \<longrightarrow> m' x = m x)"
proof -
  have "fopen files str \<noteq> None" using assms(3,4) by (auto simp: fopen_none)
  then obtain files1 i where f: "fopen files str = Some (files1, i)" by auto
  note r = fopen_rest [OF f assms(2,1)]
  have fs: "fstr (files1 ! i) = str"
    using f assms(2) by (auto simp: fopen_def Let_def split: if_splits)
  obtain m' files2 s' o1 where l: "sha_stream m files1 s i data = Some (m', files2, s', o1)"
     "digest s' = sha_of bs" "files2 = files1[i := files2 ! i]" "\<forall>x. \<not> in_block x data 512 \<longrightarrow> m' x = m x"
    using sha_stream_hash [of m files1 i bs bs s data] r assms(1,5,6) unfolding fs by blast
  obtain o2 where o2: "sha_print m' s' = Some o2" unfolding sha_print_def using printf_08lx by blast
  obtain o3 where o3: "sha_compare m' (sha_of bs) 0 =
      Some (if \<forall>j. 0 \<le> j \<and> j < 5 \<longrightarrow> sha_of bs ! j = sha_ans ! j then 0 else 1, o3)"
    using sha_compare_eq by blast
  have "fclose files2 i = files[i := \<lparr>fstr = 0, fpos = 0\<rparr>]"
    using l(3) r by (metis fclose_def list_update_overwrite)
  moreover have "(\<forall>j. 0 \<le> j \<and> j < 5 \<longrightarrow> sha_of bs ! j = sha_ans ! j) \<longleftrightarrow> sha_of bs = sha_ans"
    using sha_of_length [of bs] by (auto simp: list_eq_iff_nth_eq sha_ans_def)
  ultimately have "sha_driver m files s data str =
      Some (m', files[i := \<lparr>fstr = 0, fpos = 0\<rparr>], if sha_of bs = sha_ans then 0 else 1, o1 @ o2 @ o3)"
    using f l o2 o3 by (simp add: sha_driver_def)
  with r l(4) show ?thesis by blast
qed

section \<open>Properties\<close>

text \<open>C22: one \<open>sha_transform\<close> is the compression function of the standard: the recurrences for
  the message schedule and for the five registers, with the standard's functions, constants and
  rotations.\<close>

theorem sha_transform_standard:
  "sha_transform s = s\<lparr>digest := compress (digest s) (sha_data s)\<rparr>"
  by (rule sha_transform_compress)

text \<open>C1: \<open>sha_stream\<close> returns with the digest of the rest of the file: the compression function
  over the blocks of the padded message, whatever the pieces in which the file was read; outside
  its buffer memory is unchanged.\<close>

theorem sha_stream_result:
  "file_rest m files fin bs \<Longrightarrow> cstr m (fstr (files ! fin)) all \<Longrightarrow> length (sha_data s) = 64 \<Longrightarrow>
   apart (fstr (files ! fin)) (Suc (length all)) data 512 \<Longrightarrow>
   \<exists>m' files' s' out. sha_stream m files s fin data = Some (m', files', s', out) \<and>
     digest s' = foldl compress sha_start (chunks (sha_pad bs)) \<and>
     (\<forall>x. \<not> in_block x data 512 \<longrightarrow> m' x = m x)"
  unfolding sha_of_def [symmetric] using sha_stream_hash by blast

lemma sha_stream_result_witness:
  "\<exists>m' files' s' out. sha_stream (write_bytes (\<lambda>_. 0) 4 [97, 98, 99]) [\<lparr>fstr = 4, fpos = 0\<rparr>]
       \<lparr>digest = [], count_lo = 7, count_hi = 7, sha_data = replicate 64 9\<rparr> 0 1024 = Some (m', files', s', out) \<and>
     digest s' = foldl compress sha_start (chunks (sha_pad [97, 98, 99])) \<and>
     (\<forall>x. \<not> in_block x 1024 512 \<longrightarrow> m' x = write_bytes (\<lambda>_. 0) 4 [97, 98, 99] x)"
proof (rule sha_stream_result)
  show "file_rest (write_bytes (\<lambda>_. 0) 4 [97, 98, 99]) [\<lparr>fstr = 4, fpos = 0\<rparr>] 0 [97, 98, 99]"
    by (auto simp: file_rest_def intro!: exI [of _ "[]"])
  show "cstr (write_bytes (\<lambda>_. 0) 4 [97, 98, 99]) (fstr ([\<lparr>fstr = 4, fpos = 0\<rparr>] ! 0)) [97, 98, 99]" by simp
  show "apart (fstr ([\<lparr>fstr = 4, fpos = 0\<rparr>] ! 0)) (Suc (length [97, 98, 99 :: u8])) 1024 512"
    by (intro apart_before) simp_all
qed simp

text \<open>The benchmark \<open>sha_driver\<close> returns 0 exactly when the digest of its string is the
  expected one, and leaves every file closed or as before.\<close>

theorem sha_driver_result:
  "cstr m str bs \<Longrightarrow> length files = SIZE \<Longrightarrow> j < SIZE \<Longrightarrow> fstr (files ! j) = 0 \<Longrightarrow>
   length (sha_data s) = 64 \<Longrightarrow> apart str (Suc (length bs)) data 512 \<Longrightarrow>
   \<exists>m' i out. sha_driver m files s data str =
      Some (m', files[i := \<lparr>fstr = 0, fpos = 0\<rparr>], if sha_of bs = sha_ans then 0 else 1, out) \<and>
    i < SIZE \<and> fstr (files ! i) = 0 \<and> (\<forall>x. \<not> in_block x data 512 \<longrightarrow> m' x = m x)"
  by (rule sha_driver_eq)

lemma sha_driver_result_witness:
  "\<exists>m' i out. sha_driver (write_bytes (\<lambda>_. 0) 4 [97, 98, 99]) (replicate 10 \<lparr>fstr = 0, fpos = 0\<rparr>)
       \<lparr>digest = [], count_lo = 7, count_hi = 7, sha_data = replicate 64 9\<rparr> 1024 4 =
      Some (m', (replicate 10 \<lparr>fstr = 0, fpos = 0\<rparr>)[i := \<lparr>fstr = 0, fpos = 0\<rparr>],
        if sha_of [97, 98, 99] = sha_ans then 0 else 1, out) \<and>
    i < SIZE \<and> fstr (replicate 10 \<lparr>fstr = 0, fpos = 0\<rparr> ! i) = 0 \<and>
    (\<forall>x. \<not> in_block x 1024 512 \<longrightarrow> m' x = write_bytes (\<lambda>_. 0) 4 [97, 98, 99] x)"
proof (rule sha_driver_result)
  show "cstr (write_bytes (\<lambda>_. 0) 4 [97, 98, 99]) 4 [97, 98, 99]" by simp
  show "fstr (replicate 10 \<lparr>fstr = 0, fpos = 0\<rparr> ! 0) = 0" by simp
  show "apart 4 (Suc (length [97, 98, 99 :: u8])) 1024 512" by (intro apart_before) simp_all
qed (simp_all add: SIZE_def)

end
