(* ===== verification/Search.thy ===== *)
theory Search
  imports Console
begin

text \<open>
  The searches of \<^verbatim>\<open>bench/stringsearch\<close>: \<open>init_search\<close> and \<open>strsearch\<close> of
  \<open>pbmsrch_small.c\<close>, and the searches of Boyer, Moore and Horspool in \<open>bmhsrch.c\<close> and
  \<open>bmhasrch.c\<close>, which differ in how characters are compared.  The static variables of each file
  are a record; a null result is the address 0.
\<close>

section \<open>pbmsrch\_small.c\<close>

record search_state =
  stable :: "u32 list"
  slen :: u32
  findme :: addr

function init_search_loop :: "mem \<Rightarrow> addr \<Rightarrow> u32 \<Rightarrow> u32 \<Rightarrow> u32 list \<Rightarrow> u32 list" where
  "init_search_loop m s len i tab =
     (if i < len then init_search_loop m s len (i + 1) (tab[unat (m (s + i)) := len - i - 1]) else tab)"
  by pat_completeness auto
termination
  by (relation "measure (\<lambda>(m, s, len, i, tab). unat len - unat i)")
     (auto simp: word_less_nat_alt unat_plus_one_less)

definition init_search :: "mem \<Rightarrow> addr \<Rightarrow> search_state option" where
  "init_search m s =
     do { len \<leftarrow> strlen m s;
          Some \<lparr>stable = init_search_loop m s len 0 (replicate 256 len), slen = len, findme = s\<rparr> }"

text \<open>The inner loop of \<open>strsearch\<close>: \<open>shift\<close> and \<open>pos\<close>.\<close>

partial_function (option) strsearch_skip ::
    "mem \<Rightarrow> u32 list \<Rightarrow> addr \<Rightarrow> u32 \<Rightarrow> u32 \<Rightarrow> u32 \<Rightarrow> (u32 \<times> u32) option" where
  "strsearch_skip m tab s limit sh pos =
     (if pos < limit
      then let sh' = tab ! unat (m (s + pos))
           in if sh' > 0 then strsearch_skip m tab s limit sh' (pos + sh') else Some (sh', pos)
      else Some (sh, pos))"

declare strsearch_skip.simps [code]

partial_function (option) strsearch_loop ::
    "mem \<Rightarrow> search_state \<Rightarrow> addr \<Rightarrow> u32 \<Rightarrow> u32 \<Rightarrow> u32 \<Rightarrow> addr option" where
  "strsearch_loop m st s limit sh pos =
     (if pos < limit
      then do {
        (sh', pos') \<leftarrow> strsearch_skip m (stable st) s limit sh pos;
        if sh' = 0
        then let here = s + (pos' - slen st + 1)
             in if strncmp m (findme st) here (slen st) = 0 then Some here
                else strsearch_loop m st s limit sh' (pos' + 1)
        else strsearch_loop m st s limit sh' pos' }
      else Some 0)"

declare strsearch_loop.simps [code]

text \<open>\<open>shift\<close> is not initialised; the first test of the inner loop always sets it.\<close>

definition strsearch :: "mem \<Rightarrow> search_state \<Rightarrow> addr \<Rightarrow> addr option" where
  "strsearch m st s = do { limit \<leftarrow> strlen m s; strsearch_loop m st s limit 1 (slen st - 1) }"

section \<open>bmhsrch.c and bmhasrch.c\<close>

definition LARGE :: int where
  "LARGE = 32767"

record bmh_state =
  patlen :: int
  bskip :: "int list"
  skip2 :: int
  pat :: addr

abbreviation byte_at :: "mem \<Rightarrow> addr \<Rightarrow> int \<Rightarrow> u8" where
  "byte_at m a i \<equiv> m (a + word_of_int i)"

function bmh_fill :: "mem \<Rightarrow> addr \<Rightarrow> int \<Rightarrow> int \<Rightarrow> int list \<Rightarrow> int list" where
  "bmh_fill m p plen i sk =
     (if i < plen then bmh_fill m p plen (i + 1) (sk[unat (byte_at m p i) := plen - i - 1]) else sk)"
  by pat_completeness auto
termination
  by (relation "measure (\<lambda>(m, p, plen, i, sk). nat (plen - i))") auto

text \<open>The second shift: \<open>same c\<close> says that \<open>c\<close> counts as the last character.\<close>

function bmh_second :: "(u8 \<Rightarrow> bool) \<Rightarrow> mem \<Rightarrow> addr \<Rightarrow> int \<Rightarrow> int \<Rightarrow> int \<Rightarrow> int" where
  "bmh_second same m p plen i sk2 =
     (if i < plen - 1
      then bmh_second same m p plen (i + 1) (if same (byte_at m p i) then plen - i - 1 else sk2)
      else sk2)"
  by pat_completeness auto
termination
  by (relation "measure (\<lambda>(same, m, p, plen, i, sk2). nat (plen - 1 - i))") auto

definition bmh_init :: "mem \<Rightarrow> addr \<Rightarrow> bmh_state option" where
  "bmh_init m pattern =
     do { len \<leftarrow> strlen m pattern;
          let plen = sint len;
          let sk = bmh_fill m pattern plen 0 (replicate 256 plen);
          let lastpatchar = byte_at m pattern (plen - 1);
          Some \<lparr>patlen = plen, bskip = sk[unat lastpatchar := LARGE],
            skip2 = bmh_second (\<lambda>c. c = lastpatchar) m pattern plen 0 plen, pat = pattern\<rparr> }"

definition lowervec :: "u8 list" where
  "lowervec =
     [0, 1, 2, 3, 4, 5, 6, 7, 8, 9, 10, 11, 12, 13, 14, 15,
      16, 17, 18, 19, 20, 21, 22, 23, 24, 25, 26, 27, 28, 29, 30, 31,
      32, 33, 34, 35, 36, 37, 38, 39, 40, 41, 42, 43, 44, 45, 46, 47,
      48, 49, 50, 51, 52, 53, 54, 55, 56, 57, 58, 59, 60, 61, 62, 63,
      64, 97, 98, 99, 100, 101, 102, 103, 104, 105, 106, 107, 108, 109, 110, 111,
      112, 113, 114, 115, 116, 117, 118, 119, 120, 121, 122, 91, 92, 93, 94, 95,
      96, 97, 98, 99, 100, 101, 102, 103, 104, 105, 106, 107, 108, 109, 110, 111,
      112, 113, 114, 115, 116, 117, 118, 119, 120, 121, 122, 123, 124, 125, 126, 127,
      99, 117, 101, 97, 97, 97, 97, 99, 101, 101, 101, 105, 105, 105, 97, 97,
      101, 145, 146, 111, 111, 111, 117, 117, 121, 111, 117, 155, 156, 157, 158, 159,
      97, 105, 111, 117, 110, 110, 166, 167, 168, 169, 170, 171, 172, 173, 174, 175,
      176, 177, 178, 179, 180, 181, 182, 183, 184, 185, 186, 187, 188, 189, 190, 191,
      192, 193, 194, 195, 196, 197, 198, 199, 200, 201, 202, 203, 204, 205, 206, 207,
      208, 209, 210, 211, 212, 213, 214, 215, 216, 217, 218, 219, 220, 221, 222, 223,
      224, 225, 226, 227, 228, 229, 230, 231, 232, 233, 234, 235, 236, 237, 238, 239,
      240, 241, 242, 243, 244, 245, 246, 247, 248, 249, 250, 251, 252, 253, 254, 255]"

definition lowerc :: "u8 \<Rightarrow> u8" where
  "lowerc c = lowervec ! unat c"

text \<open>The loop over \<open>j\<close> in \<open>bmha_init\<close>: the last place of a character equal to \<open>c\<close>, or \<open>-1\<close>.\<close>

function bmha_back :: "mem \<Rightarrow> addr \<Rightarrow> u8 \<Rightarrow> int \<Rightarrow> int" where
  "bmha_back m p c j =
     (if j \<ge> 0 then (if lowerc c = lowerc (byte_at m p j) then j else bmha_back m p c (j - 1)) else j)"
  by pat_completeness auto
termination
  by (relation "measure (\<lambda>(m, p, c, j). nat (j + 1))") auto

definition bmha_init :: "mem \<Rightarrow> addr \<Rightarrow> bmh_state option" where
  "bmha_init m pattern =
     do { len \<leftarrow> strlen m pattern;
          let plen = sint len;
          Some \<lparr>patlen = plen,
            bskip = map (\<lambda>i. let j = bmha_back m pattern (of_nat i) (plen - 1)
                             in if j = plen - 1 then LARGE else if j \<ge> 0 then plen - j - 1 else plen) [0..<256],
            skip2 = bmh_second (\<lambda>c. lowerc c = lowerc (byte_at m pattern (plen - 1))) m pattern plen 0 plen,
            pat = pattern\<rparr> }"

text \<open>The search, with the comparison of a text and a pattern character as an argument: the
  inner loop, the comparison loop (from the value of \<open>j\<close> before the decrement), and the rest.\<close>

partial_function (option) bmh_scan :: "mem \<Rightarrow> int list \<Rightarrow> addr \<Rightarrow> int \<Rightarrow> int option" where
  "bmh_scan m sk s i =
     (let i' = i + sk ! unat (byte_at m s i) in if i' < 0 then bmh_scan m sk s i' else Some i')"

declare bmh_scan.simps [code]

function bmh_compare :: "(u8 \<Rightarrow> u8 \<Rightarrow> bool) \<Rightarrow> mem \<Rightarrow> addr \<Rightarrow> addr \<Rightarrow> int \<Rightarrow> int" where
  "bmh_compare cmp m s p j =
     (let j' = j - 1
      in if j' \<ge> 0 \<and> cmp (byte_at m s j') (byte_at m p j') then bmh_compare cmp m s p j' else j')"
  by pat_completeness auto
termination
  by (relation "measure (\<lambda>(cmp, m, s, p, j). nat j)") auto

partial_function (option) bmh_loop ::
    "(u8 \<Rightarrow> u8 \<Rightarrow> bool) \<Rightarrow> mem \<Rightarrow> bmh_state \<Rightarrow> addr \<Rightarrow> int \<Rightarrow> int \<Rightarrow> addr option" where
  "bmh_loop cmp m st s stringlen i =
     do { i1 \<leftarrow> bmh_scan m (bskip st) s i;
          if i1 < LARGE - stringlen then Some 0
          else let i2 = i1 - LARGE; j = patlen st - 1; s' = s + word_of_int (i2 - j)
               in if bmh_compare cmp m s' (pat st) j < 0 then Some s'
                  else let i3 = i2 + skip2 st
                       in if i3 \<ge> 0 then Some 0 else bmh_loop cmp m st s stringlen i3 }"

declare bmh_loop.simps [code]

definition bmh_search_by ::
    "(u8 \<Rightarrow> u8 \<Rightarrow> bool) \<Rightarrow> mem \<Rightarrow> bmh_state \<Rightarrow> addr \<Rightarrow> int \<Rightarrow> addr option" where
  "bmh_search_by cmp m st s stringlen =
     (let i = patlen st - 1 - stringlen
      in if i \<ge> 0 then Some 0 else bmh_loop cmp m st (s + word_of_int stringlen) stringlen i)"

text \<open>In \<open>bmh_search\<close> the text is read as \<open>char\<close>, the pattern as \<open>unsigned char\<close>.\<close>

definition bmh_same :: "u8 \<Rightarrow> u8 \<Rightarrow> bool" where
  "bmh_same a b \<longleftrightarrow> schar a = uchar b"

definition bmh_search :: "mem \<Rightarrow> bmh_state \<Rightarrow> addr \<Rightarrow> int \<Rightarrow> addr option" where
  "bmh_search = bmh_search_by bmh_same"

definition bmha_same :: "u8 \<Rightarrow> u8 \<Rightarrow> bool" where
  "bmha_same a b \<longleftrightarrow> lowerc a = lowerc b"

definition bmha_search :: "mem \<Rightarrow> bmh_state \<Rightarrow> addr \<Rightarrow> int \<Rightarrow> addr option" where
  "bmha_search = bmh_search_by bmha_same"

declare init_search_loop.simps [simp del] bmh_fill.simps [simp del] bmh_second.simps [simp del]
  bmha_back.simps [simp del] bmh_compare.simps [simp del]

lemmas search_unroll [unroll] = init_search_loop.simps strsearch_skip.simps strsearch_loop.simps
  bmh_fill.simps bmh_second.simps bmha_back.simps bmh_scan.simps bmh_compare.simps bmh_loop.simps

section \<open>Occurrences\<close>

definition occurs :: "u8 list \<Rightarrow> u8 list \<Rightarrow> nat \<Rightarrow> bool" where
  "occurs p s k \<longleftrightarrow> k + length p \<le> length s \<and> take (length p) (drop k s) = p"

lemma occurs_nth: "occurs p s k \<Longrightarrow> j < length p \<Longrightarrow> s ! (k + j) = p ! j"
  by (metis add_leD1 nth_drop nth_take occurs_def)

text \<open>The first place at which a property holds as an address, or 0.\<close>

definition first_at :: "addr \<Rightarrow> (nat \<Rightarrow> bool) \<Rightarrow> addr" where
  "first_at a P = (if \<exists>k. P k then a + of_nat (LEAST k. P k) else 0)"

lemma first_at_found: "P k \<Longrightarrow> (\<And>j. j < k \<Longrightarrow> \<not> P j) \<Longrightarrow> first_at a P = a + of_nat k"
  by (auto simp: first_at_def intro!: arg_cong [of _ _ of_nat] Least_equality leI)

lemma first_at_none: "(\<And>k. \<not> P k) \<Longrightarrow> first_at a P = 0"
  by (simp add: first_at_def)

section \<open>strsearch finds the first occurrence\<close>

text \<open>\<open>shift_ok p i c sh\<close>: \<open>sh\<close> is the table's entry for \<open>c\<close> after the first \<open>i\<close> characters.\<close>

definition shift_ok :: "u8 list \<Rightarrow> nat \<Rightarrow> u8 \<Rightarrow> nat \<Rightarrow> bool" where
  "shift_ok p i c sh \<longleftrightarrow> sh \<le> length p \<and> (\<forall>j<i. length p - sh \<le> j \<longrightarrow> p ! j \<noteq> c) \<and>
     (sh < length p \<longrightarrow> p ! (length p - 1 - sh) = c)"

lemma unat_byte: "unat (c :: u8) < 256"
  using unsigned_less [of c, where 'a = nat] by simp

lemma init_search_loop_ok:
  "\<lbrakk>cstr m s p; i \<le> length p; length tab = 256; \<forall>c. \<exists>sh. tab ! unat c = of_nat sh \<and> shift_ok p i c sh\<rbrakk> \<Longrightarrow>
   length (init_search_loop m s (of_nat (length p)) (of_nat i) tab) = 256 \<and>
   (\<forall>c. \<exists>sh. init_search_loop m s (of_nat (length p)) (of_nat i) tab ! unat c = of_nat sh \<and>
      shift_ok p (length p) c sh)"
proof (induction "length p - i" arbitrary: i tab)
  case 0
  then show ?case by (subst (1 2) init_search_loop.simps) simp
next
  case (Suc d)
  note b = cstr_length_bound [OF Suc.prems(1)]
  have i: "i < length p" using Suc.hyps(2) by simp
  have lt: "(of_nat i :: u32) < of_nat (length p)"
    using i b by (simp add: word_less_nat_alt unat_of_nat32)
  have mi: "m (s + of_nat i) = p ! i" using Suc.prems(1) i by (rule cstr_nth)
  define tab' where "tab' = tab[unat (p ! i) := of_nat (length p - 1 - i)]"
  have e: "(of_nat (length p) - of_nat i - 1 :: u32) = of_nat (length p - 1 - i)"
    using i by (simp add: of_nat_diff)
  have step: "init_search_loop m s (of_nat (length p)) (of_nat i) tab =
      init_search_loop m s (of_nat (length p)) (of_nat (Suc i)) tab'"
    using lt mi e by (subst init_search_loop.simps) (simp add: tab'_def add.commute)
  have "\<forall>c. \<exists>sh. tab' ! unat c = of_nat sh \<and> shift_ok p (Suc i) c sh"
  proof
    fix c
    show "\<exists>sh. tab' ! unat c = of_nat sh \<and> shift_ok p (Suc i) c sh"
    proof (cases "c = p ! i")
      case True
      then have "shift_ok p (Suc i) c (length p - 1 - i)"
        using i by (auto simp: shift_ok_def)
      moreover have "tab' ! unat c = of_nat (length p - 1 - i)"
        using True Suc.prems(3) unat_byte [of c] by (simp add: tab'_def)
      ultimately show ?thesis by blast
    next
      case False
      then have "unat (p ! i) \<noteq> unat c" by (metis word_unat_eq_iff)
      then have "tab' ! unat c = tab ! unat c" by (simp add: tab'_def)
      moreover obtain sh where sh: "tab ! unat c = of_nat sh" "shift_ok p i c sh" using Suc.prems(4) by blast
      moreover have "shift_ok p (Suc i) c sh"
        using sh(2) False by (auto simp: shift_ok_def less_Suc_eq)
      ultimately show ?thesis by auto
    qed
  qed
  moreover have "length tab' = 256" using Suc.prems(3) by (simp add: tab'_def)
  moreover have "d = length p - Suc i" "Suc i \<le> length p" using Suc.hyps(2) by simp_all
  ultimately show ?case unfolding step using Suc.hyps(1) Suc.prems(1) by blast
qed

definition search_ok :: "u8 list \<Rightarrow> search_state \<Rightarrow> bool" where
  "search_ok p st \<longleftrightarrow> slen st = of_nat (length p) \<and>
     (\<forall>c. \<exists>sh. stable st ! unat c = of_nat sh \<and> shift_ok p (length p) c sh)"

lemma init_search_ok:
  "cstr m s p \<Longrightarrow> \<exists>st. init_search m s = Some st \<and> search_ok p st \<and> findme st = s"
  using init_search_loop_ok [of m s p 0 "replicate 256 (of_nat (length p))"]
  by (auto simp: init_search_def strlen_cstr search_ok_def shift_ok_def nth_replicate unat_byte)

text \<open>\<open>ends_from p s e\<close>: every occurrence ends at \<open>e\<close> or later.\<close>

definition ends_from :: "u8 list \<Rightarrow> u8 list \<Rightarrow> nat \<Rightarrow> bool" where
  "ends_from p s e \<longleftrightarrow> (\<forall>k. occurs p s k \<longrightarrow> e < k + length p)"

lemma ends_from_skip:
  assumes "ends_from p s e" "e < length s" "shift_ok p (length p) (s ! e) sh" "p \<noteq> []"
  shows "ends_from p s (e + sh)"
  unfolding ends_from_def
proof (intro allI impI)
  fix k assume k: "occurs p s k"
  then have "e < k + length p" using assms(1) by (simp add: ends_from_def)
  show "e + sh < k + length p"
  proof (rule ccontr)
    assume n: "\<not> e + sh < k + length p"
    have "sh \<le> length p" using assms(3) by (simp add: shift_ok_def)
    with n have "k \<le> e" by linarith
    then have "s ! e = p ! (e - k)" using occurs_nth [OF k, of "e - k"] \<open>e < k + length p\<close> by simp
    moreover have "p ! (e - k) \<noteq> s ! e"
      using assms(3) n \<open>e < k + length p\<close> \<open>k \<le> e\<close> by (auto simp: shift_ok_def)
    ultimately show False by simp
  qed
qed

lemma strsearch_skip_ok:
  assumes st: "search_ok p st" and p: "p \<noteq> []" and s: "cstr m a s" and b: "length s + length p < 2 ^ 32"
  shows "\<lbrakk>ends_from p s e; e < length s + length p\<rbrakk> \<Longrightarrow>
    \<exists>sh' e'. strsearch_skip m (stable st) a (of_nat (length s)) sh (of_nat e) = Some (sh', of_nat e') \<and>
      ends_from p s e' \<and> e \<le> e' \<and> e' < length s + length p \<and>
      (if sh' = 0 \<and> e < length s then e' < length s else length s \<le> e')"
proof (induction "length s - e" arbitrary: e sh rule: less_induct)
  case less
  have lt: "(of_nat e :: u32) < of_nat (length s) \<longleftrightarrow> e < length s"
    using less.prems(2) b by (simp add: word_less_nat_alt unat_of_nat32)
  show ?case
  proof (cases "e < length s")
    case False
    with lt less.prems show ?thesis by (subst strsearch_skip.simps) auto
  next
    case True
    obtain k where k: "stable st ! unat (s ! e) = of_nat k" "shift_ok p (length p) (s ! e) k"
      using st unfolding search_ok_def by blast
    have kp: "k \<le> length p" using k(2) by (simp add: shift_ok_def)
    have me: "m (a + of_nat e) = s ! e" using s True by (rule cstr_nth)
    have k0: "(of_nat k :: u32) = 0 \<longleftrightarrow> k = 0"
      using kp b by (intro of_nat_eq_0_iff32) simp
    show ?thesis
    proof (cases "k = 0")
      case True
      with \<open>e < length s\<close> lt less.prems k me show ?thesis
        by (subst strsearch_skip.simps) (auto simp: Let_def)
    next
      case False
      have step: "strsearch_skip m (stable st) a (of_nat (length s)) sh (of_nat e) =
          strsearch_skip m (stable st) a (of_nat (length s)) (of_nat k) (of_nat (e + k))"
        using True lt k(1) me k0 False by (subst strsearch_skip.simps) (simp add: Let_def word_gt_0)
      have "ends_from p s (e + k)" using ends_from_skip [OF less.prems(1) True k(2) p] .
      moreover have "length s - (e + k) < length s - e" "e + k < length s + length p"
        using True False kp by simp_all
      ultimately obtain sh' e' where r: "strsearch_skip m (stable st) a (of_nat (length s)) (of_nat k) (of_nat (e + k)) = Some (sh', of_nat e')"
          "ends_from p s e'" "e + k \<le> e'" "e' < length s + length p"
          "if sh' = 0 \<and> e + k < length s then e' < length s else length s \<le> e'"
        using less.hyps [of "e + k" "of_nat k"] by blast
      have "sh' \<noteq> 0 \<or> e + k < length s"
      proof (rule ccontr)
        assume "\<not> ?thesis"
        then have "sh' = 0" "length s \<le> e + k" by simp_all
        moreover have "strsearch_skip m (stable st) a (of_nat (length s)) (of_nat k) (of_nat (e + k)) = Some (of_nat k, of_nat (e + k))"
          using calculation(2) b kp True
          by (subst strsearch_skip.simps) (simp add: word_less_nat_alt unat_of_nat32 del: of_nat_add)
        ultimately show False using r(1) k0 False by simp
      qed
      with r True show ?thesis unfolding step by (auto split: if_splits)
    qed
  qed
qed


lemma strsearch_loop_ok:
  assumes st: "search_ok p st" "cstr m (findme st) p" and p: "p \<noteq> []"
    and s: "cstr m a s" and b: "length s + length p < 2 ^ 32"
  shows "\<lbrakk>ends_from p s e; length p \<le> Suc e; e < length s + length p\<rbrakk> \<Longrightarrow>
    strsearch_loop m st a (of_nat (length s)) sh (of_nat e) = Some (first_at a (occurs p s))"
proof (induction "length s - e" arbitrary: e sh rule: less_induct)
  case less
  have lt: "(of_nat e :: u32) < of_nat (length s) \<longleftrightarrow> e < length s"
    using less.prems(3) b by (simp add: word_less_nat_alt unat_of_nat32)
  have none: "first_at a (occurs p s) = 0" if "ends_from p s e'" "length s \<le> e'" for e'
    using that by (intro first_at_none) (auto simp: ends_from_def occurs_def)
  show ?case
  proof (cases "e < length s")
    case False
    then show ?thesis using lt none [OF less.prems(1)] by (subst strsearch_loop.simps) simp
  next
    case True
    obtain sh' e' where r: "strsearch_skip m (stable st) a (of_nat (length s)) sh (of_nat e) = Some (sh', of_nat e')"
        "ends_from p s e'" "e \<le> e'" "e' < length s + length p"
        and r5: "if sh' = 0 \<and> e < length s then e' < length s else length s \<le> e'"
      using strsearch_skip_ok [OF st(1) p s b less.prems(1,3)] by blast
    have r5: "if sh' = 0 then e' < length s else length s \<le> e'" using r5 True by simp
    show ?thesis
    proof (cases "sh' = 0")
      case False
      then have "length s \<le> e'" using r5 by simp
      then have "\<not> (of_nat e' :: u32) < of_nat (length s)"
        using r(4) b by (simp add: word_less_nat_alt unat_of_nat32)
      then show ?thesis
        using True lt r(1) False none [OF r(2) \<open>length s \<le> e'\<close>]
        by (subst strsearch_loop.simps, simp) (subst strsearch_loop.simps, simp)
    next
      case True
      then have e': "e' < length s" using r5 by simp
      define k where "k = Suc e' - length p"
      have k: "k + length p = Suc e'" using less.prems(2) r(3) by (simp add: k_def)
      have "(of_nat k :: u32) = of_nat (k + length p) - of_nat (length p)" by simp
      then have here: "of_nat e' - slen st + 1 = (of_nat k :: u32)"
        using st(1) unfolding k search_ok_def by simp
      have "cstr m (a + of_nat k) (drop k s)"
        using s k e' by (intro cstr_drop) simp_all
      moreover have "unat (slen st) = length p"
        using st(1) b by (simp add: search_ok_def unat_of_nat32)
      ultimately have cmp: "strncmp m (findme st) (a + of_nat k) (slen st) = 0 \<longleftrightarrow> occurs p s k"
        using strncmp_prefix_cstr [OF st(2), of "a + of_nat k" "drop k s" "slen st"] k e'
        by (auto simp: occurs_def)
      show ?thesis
      proof (cases "occurs p s k")
        case occ: True
        have "\<not> occurs p s j" if "j < k" for j using r(2) that k by (auto simp: ends_from_def)
        from first_at_found [of "occurs p s" k a, OF occ this] show ?thesis
          using \<open>e < length s\<close> lt r(1) True here cmp occ
          by (subst strsearch_loop.simps) (simp add: Let_def)
      next
        case no: False
        have "ends_from p s (Suc e')"
          unfolding ends_from_def
        proof (intro allI impI)
          fix j assume j: "occurs p s j"
          then have "e' < j + length p" using r(2) by (simp add: ends_from_def)
          moreover have "j \<noteq> k" using j no by auto
          ultimately show "Suc e' < j + length p" using k by linarith
        qed
        moreover have "length s - Suc e' < length s - e" "length p \<le> Suc (Suc e')" "Suc e' < length s + length p"
          using e' r(3) less.prems(2) p by (cases p; simp)+
        ultimately have ih: "strsearch_loop m st a (of_nat (length s)) sh' (of_nat (Suc e')) = Some (first_at a (occurs p s))"
          using less.hyps by blast
        have "strsearch_loop m st a (of_nat (length s)) sh (of_nat e) = strsearch_loop m st a (of_nat (length s)) sh' (of_nat (Suc e'))"
          using \<open>e < length s\<close> lt r(1) True here cmp no
          by (subst strsearch_loop.simps) (simp add: Let_def add.commute)
        with ih show ?thesis by simp
      qed
    qed
  qed
qed

lemma strsearch_first:
  assumes "search_ok p st" "cstr m (findme st) p" "p \<noteq> []" "cstr m a s" "length s + length p < 2 ^ 32"
  shows "strsearch m st a = Some (first_at a (occurs p s))"
proof -
  have "ends_from p s (length p - 1)" using assms(3) by (cases p) (auto simp: ends_from_def)
  moreover have "length p \<le> Suc (length p - 1)" "length p - 1 < length s + length p" using assms(3) by (cases p, simp_all)+
  moreover have "slen st - 1 = of_nat (length p - 1)"
    using assms(1,3) by (simp add: search_ok_def of_nat_diff Suc_le_eq)
  ultimately show ?thesis
    using strsearch_loop_ok [OF assms(1-5), of "length p - 1" 1] assms(4)
    by (simp add: strsearch_def strlen_cstr)
qed

section \<open>The contract of a Horspool search\<close>

text \<open>\<open>matches same lastc p s k\<close>: the text has at \<open>k\<close> what the search accepts for \<open>p\<close>: a last
  character accepted by \<open>lastc\<close>, the others by \<open>same\<close>.\<close>

definition matches ::
    "(u8 \<Rightarrow> u8 \<Rightarrow> bool) \<Rightarrow> (u8 \<Rightarrow> u8 \<Rightarrow> bool) \<Rightarrow> u8 list \<Rightarrow> u8 list \<Rightarrow> nat \<Rightarrow> bool" where
  "matches same lastc p s k \<longleftrightarrow> k + length p \<le> length s \<and> lastc (s ! (k + length p - 1)) (last p) \<and>
     (\<forall>j<length p - 1. same (s ! (k + j)) (p ! j))"

text \<open>A shift by less than the table says puts the character against one it does not match.\<close>

definition tables_ok :: "(u8 \<Rightarrow> u8 \<Rightarrow> bool) \<Rightarrow> (u8 \<Rightarrow> u8 \<Rightarrow> bool) \<Rightarrow> u8 list \<Rightarrow> bmh_state \<Rightarrow> bool" where
  "tables_ok same lastc p st \<longleftrightarrow> patlen st = int (length p) \<and>
     (\<forall>c. if lastc c (last p) then bskip st ! unat c = LARGE
          else \<exists>d. bskip st ! unat c = int d \<and> 0 < d \<and> d \<le> length p \<and>
            (\<forall>e. 0 < e \<longrightarrow> e < d \<longrightarrow> \<not> same c (p ! (length p - 1 - e)))) \<and>
     (\<exists>d. skip2 st = int d \<and> 0 < d \<and> d \<le> length p \<and>
        (\<forall>c e. lastc c (last p) \<longrightarrow> 0 < e \<longrightarrow> e < d \<longrightarrow> \<not> same c (p ! (length p - 1 - e))))"

lemma tables_shift:
  assumes "tables_ok same lastc p st" "\<not> lastc c (last p)"
  shows "\<exists>d. bskip st ! unat c = int d \<and> 0 < d \<and> d \<le> length p \<and>
     (\<forall>e. 0 < e \<longrightarrow> e < d \<longrightarrow> \<not> same c (p ! (length p - 1 - e)))"
proof -
  have "if lastc c (last p) then bskip st ! unat c = LARGE
     else \<exists>d. bskip st ! unat c = int d \<and> 0 < d \<and> d \<le> length p \<and>
       (\<forall>e. 0 < e \<longrightarrow> e < d \<longrightarrow> \<not> same c (p ! (length p - 1 - e)))"
    using assms(1) unfolding tables_ok_def by blast
  with assms(2) show ?thesis by simp
qed

definition later :: "(nat \<Rightarrow> bool) \<Rightarrow> nat \<Rightarrow> nat \<Rightarrow> bool" where
  "later M n e \<longleftrightarrow> (\<forall>k. M k \<longrightarrow> e < k + n)"

lemma later_shift:
  assumes l: "later (matches same lastc p s) (length p) e" and d: "d \<le> length p" "p \<noteq> []"
    and no: "\<And>i. 0 < i \<Longrightarrow> i < d \<Longrightarrow> \<not> same (s ! e) (p ! (length p - 1 - i))"
    and e0: "\<not> matches same lastc p s (Suc e - length p)" "length p \<le> Suc e"
  shows "later (matches same lastc p s) (length p) (e + d)"
  unfolding later_def
proof (intro allI impI)
  fix k assume k: "matches same lastc p s k"
  then have ek: "e < k + length p" using l by (simp add: later_def)
  show "e + d < k + length p"
  proof (rule ccontr)
    assume n: "\<not> e + d < k + length p"
    define i where "i = k + length p - 1 - e"
    have i: "i < d" "k + (length p - 1 - i) = e" "i < length p" using n ek d(1) by (simp_all add: i_def)
    show False
    proof (cases "i = 0")
      case True
      with i e0(2) d(2) have "k = Suc e - length p" by (cases p) auto
      with k e0(1) show False by simp
    next
      case False
      then have "length p - 1 - i < length p - 1" using i(3) by simp
      with k have "same (s ! (k + (length p - 1 - i))) (p ! (length p - 1 - i))" by (simp add: matches_def)
      with i False no [of i] show False by simp
    qed
  qed
qed

lemma text_byte:
  "read_bytes m a (length s) = s \<Longrightarrow> e < length s \<Longrightarrow>
   byte_at m (a + word_of_int (int (length s))) (int e - int (length s)) = s ! e"
  using nth_read_bytes [of e "length s" m a] by simp

lemma bmh_compare_iff:
  "bmh_compare same m x y (int J) < 0 \<longleftrightarrow> (\<forall>j<J. same (m (x + of_nat j)) (m (y + of_nat j)))"
proof (induction J)
  case 0
  then show ?case by (subst bmh_compare.simps) simp
next
  case (Suc J)
  then show ?case by (subst bmh_compare.simps) (auto simp: Let_def less_Suc_eq)
qed

lemma bmh_loop_step:
  assumes "bmh_scan m (bskip st) s i = Some i1" "\<not> i1 < LARGE - n"
    "s + word_of_int (i1 - LARGE - (patlen st - 1)) = s'"
  shows "bmh_loop cmp m st s n i =
     (if bmh_compare cmp m s' (pat st) (patlen st - 1) < 0 then Some s'
      else if i1 - LARGE + skip2 st \<ge> 0 then Some 0 else bmh_loop cmp m st s n (i1 - LARGE + skip2 st))"
  using assms(1,2) unfolding assms(3) [symmetric] by (subst bmh_loop.simps) (simp add: Let_def)

locale horspool =
  fixes init :: "mem \<Rightarrow> addr \<Rightarrow> bmh_state option"
    and same :: "u8 \<Rightarrow> u8 \<Rightarrow> bool"
    and lastc :: "u8 \<Rightarrow> u8 \<Rightarrow> bool"
  assumes init_ok: "cstr m a p \<Longrightarrow> p \<noteq> [] \<Longrightarrow> length p \<le> 32767 \<Longrightarrow>
      \<exists>st. init m a = Some st \<and> tables_ok same lastc p st \<and> pat st = a"
begin

lemma scan:
  assumes t: "tables_ok same lastc p st" and p: "p \<noteq> []" and s: "read_bytes m a (length s) = s"
    and b: "length p + length s \<le> 32767"
  shows "\<lbrakk>e < length s; later (matches same lastc p s) (length p) e; length p \<le> Suc e\<rbrakk> \<Longrightarrow>
    \<exists>i. bmh_scan m (bskip st) (a + word_of_int (int (length s))) (int e - int (length s)) = Some i \<and>
      (if i < LARGE - int (length s) then \<forall>k. \<not> matches same lastc p s k
       else \<exists>e'. e \<le> e' \<and> e' < length s \<and> i = LARGE + int e' - int (length s) \<and>
         lastc (s ! e') (last p) \<and> later (matches same lastc p s) (length p) e')"
proof (induction "length s - e" arbitrary: e rule: less_induct)
  case less
  note tb = text_byte [OF s less.prems(1)]
  show ?case
  proof (cases "lastc (s ! e) (last p)")
    case True
    with t have "bskip st ! unat (s ! e) = LARGE" by (simp add: tables_ok_def)
    moreover have "0 \<le> LARGE + (int e - int (length s))" using b by (simp add: LARGE_def)
    ultimately have "bmh_scan m (bskip st) (a + word_of_int (int (length s))) (int e - int (length s))
        = Some (LARGE + int e - int (length s))"
      using tb by (subst bmh_scan.simps) (simp add: Let_def algebra_simps)
    with True less.prems(1,2) show ?thesis by fastforce
  next
    case False
    with t obtain d where d: "bskip st ! unat (s ! e) = int d" "0 < d" "d \<le> length p"
        "\<forall>i. 0 < i \<longrightarrow> i < d \<longrightarrow> \<not> same (s ! e) (p ! (length p - 1 - i))" using tables_shift by blast
    have "Suc e - length p + length p - 1 = e" using less.prems(3) by simp
    then have "\<not> matches same lastc p s (Suc e - length p)"
      using False less.prems(3) by (simp add: matches_def)
    then have l: "later (matches same lastc p s) (length p) (e + d)"
      using d less.prems(2,3) p by (intro later_shift) auto
    have i: "int e - int (length s) + int d = int (e + d) - int (length s)" by simp
    show ?thesis
    proof (cases "e + d < length s")
      case True
      then have "bmh_scan m (bskip st) (a + word_of_int (int (length s))) (int e - int (length s)) =
          bmh_scan m (bskip st) (a + word_of_int (int (length s))) (int (e + d) - int (length s))"
        unfolding i [symmetric] using tb d(1) by (subst bmh_scan.simps) (simp add: Let_def)
      moreover have "length s - (e + d) < length s - e" "length p \<le> Suc (e + d)"
        using True d(2) less.prems(3) by simp_all
      then obtain i' where "bmh_scan m (bskip st) (a + word_of_int (int (length s))) (int (e + d) - int (length s)) = Some i'"
          "if i' < LARGE - int (length s) then \<forall>k. \<not> matches same lastc p s k
           else \<exists>e'. e + d \<le> e' \<and> e' < length s \<and> i' = LARGE + int e' - int (length s) \<and>
             lastc (s ! e') (last p) \<and> later (matches same lastc p s) (length p) e'"
        using less.hyps [of "e + d"] True l by blast
      ultimately show ?thesis by (intro exI [of _ i']) (auto split: if_splits intro: order_trans [of e "e + d"])
    next
      case ge: False
      have "bmh_scan m (bskip st) (a + word_of_int (int (length s))) (int e - int (length s)) =
          Some (int (e + d) - int (length s))"
        using tb d(1) i ge by (subst bmh_scan.simps) (simp add: Let_def)
      moreover have "int (e + d) - int (length s) < LARGE - int (length s)"
        using less.prems(1) d(3) b by (simp add: LARGE_def)
      moreover have "\<not> matches same lastc p s k" for k
        using l ge by (auto simp: later_def matches_def)
      ultimately show ?thesis by auto
    qed
  qed
qed

lemma search_loop:
  assumes t: "tables_ok same lastc p st" "cstr m (pat st) p" and p: "p \<noteq> []"
    and s: "read_bytes m a (length s) = s" and b: "length p + length s \<le> 32767"
  shows "\<lbrakk>e < length s; later (matches same lastc p s) (length p) e; length p \<le> Suc e\<rbrakk> \<Longrightarrow>
    bmh_loop same m st (a + word_of_int (int (length s))) (int (length s)) (int e - int (length s)) =
      Some (first_at a (matches same lastc p s))"
proof (induction "length s - e" arbitrary: e rule: less_induct)
  case less
  let ?S = "a + word_of_int (int (length s))" and ?N = "int (length s)" and ?M = "matches same lastc p s"
  obtain i where i: "bmh_scan m (bskip st) ?S (int e - ?N) = Some i"
      and c: "if i < LARGE - ?N then \<forall>k. \<not> ?M k
       else \<exists>e'. e \<le> e' \<and> e' < length s \<and> i = LARGE + int e' - ?N \<and> lastc (s ! e') (last p) \<and> later ?M (length p) e'"
    using scan [OF t(1) p s b less.prems] by blast
  show ?case
  proof (cases "i < LARGE - ?N")
    case True
    with c have "first_at a ?M = 0" by (intro first_at_none) simp
    with True i show ?thesis by (subst bmh_loop.simps) simp
  next
    case False
    with c obtain e' where e': "e \<le> e'" "e' < length s" "i = LARGE + int e' - ?N"
        "lastc (s ! e') (last p)" "later ?M (length p) e'" by auto
    define k where "k = Suc e' - length p"
    have k: "k + length p = Suc e'" using less.prems(3) e'(1) by (simp add: k_def)
    have pl: "patlen st = int (length p)" using t(1) by (simp add: tables_ok_def)
    have addr: "?S + word_of_int (i - LARGE - (patlen st - 1)) = a + of_nat k"
    proof -
      have "i - LARGE - (patlen st - 1) = int k - ?N" using k e'(3) pl by linarith
      then show ?thesis by simp
    qed
    have "0 < length p" using p by simp
    then have j: "patlen st - 1 = int (length p - 1)" using pl by linarith
    have "(\<forall>j<length p - 1. same (m (a + of_nat k + of_nat j)) (m (pat st + of_nat j))) \<longleftrightarrow> ?M k"
    proof -
      have "m (a + of_nat k + of_nat j) = s ! (k + j)" if "j < length p - 1" for j
        using nth_read_bytes [of "k + j" "length s" m a] s that k e'(2) by (simp add: add.assoc)
      moreover have "m (pat st + of_nat j) = p ! j" if "j < length p - 1" for j
        using cstr_nth [OF t(2), of j] that by simp
      ultimately show ?thesis using k e'(2,4) by (auto simp: matches_def)
    qed
    then have cmp: "bmh_compare same m (a + of_nat k) (pat st) (patlen st - 1) < 0 \<longleftrightarrow> ?M k"
      unfolding j bmh_compare_iff .
    show ?thesis
    proof (cases "?M k")
      case M: True
      have "\<not> ?M j'" if "j' < k" for j' using e'(5) that k by (auto simp: later_def)
      from first_at_found [of ?M k a, OF M this] show ?thesis
        unfolding bmh_loop_step [OF i False addr] using cmp M by simp
    next
      case noM: False
      obtain d where d: "skip2 st = int d" "0 < d" "d \<le> length p"
          "\<And>f. 0 < f \<Longrightarrow> f < d \<Longrightarrow> \<not> same (s ! e') (p ! (length p - 1 - f))"
        using t(1) e'(4) unfolding tables_ok_def by blast
      have l: "later ?M (length p) (e' + d)"
        using e'(1,5) d(3,4) p noM less.prems(3) by (intro later_shift) (simp_all add: k_def)
      have i3: "i - LARGE + skip2 st = int (e' + d) - ?N" using e'(3) d(1) by linarith
      show ?thesis
      proof (cases "e' + d < length s")
        case True
        then have "bmh_loop same m st ?S ?N (int e - ?N) = bmh_loop same m st ?S ?N (int (e' + d) - ?N)"
          unfolding bmh_loop_step [OF i False addr] i3 using cmp noM by simp
        then show ?thesis using less.hyps [of "e' + d"] True d(2) l e'(1) less.prems by simp
      next
        case ge: False
        then have "first_at a ?M = 0" using l by (intro first_at_none) (auto simp: later_def matches_def)
        with ge show ?thesis unfolding bmh_loop_step [OF i False addr] i3 using cmp noM by simp
      qed
    qed
  qed
qed

lemma search:
  assumes i: "init m q = Some st" and q: "cstr m q p" and p: "p \<noteq> []"
    and s: "read_bytes m a (length s) = s" and b: "length p + length s \<le> 32767"
  shows "bmh_search_by same m st a (int (length s)) = Some (first_at a (matches same lastc p s))"
proof -
  have "0 < length p" using p by simp
  show ?thesis
  proof (cases "length s < length p")
    case True
    obtain st' where "init m q = Some st'" "patlen st' = int (length p)"
      using init_ok [OF q p] b by (auto simp: tables_ok_def)
    then have "patlen st = int (length p)" using i by simp
    moreover have "first_at a (matches same lastc p s) = 0"
      using True by (intro first_at_none) (simp add: matches_def)
    ultimately show ?thesis using True by (simp add: bmh_search_by_def)
  next
    case False
    have "length p \<le> 32767" using b by linarith
    then have t: "tables_ok same lastc p st" "pat st = q"
      using init_ok [OF q p] i by auto
    have pl: "patlen st = int (length p)" using t(1) by (simp add: tables_ok_def)
    have "later (matches same lastc p s) (length p) (length p - 1)"
      using p by (cases p) (auto simp: later_def)
    then have "bmh_loop same m st (a + word_of_int (int (length s))) (int (length s)) (int (length p - 1) - int (length s))
        = Some (first_at a (matches same lastc p s))"
    proof (intro search_loop)
      show "length p - 1 < length s" using False \<open>0 < length p\<close> by linarith
    qed (use q t p s b in simp_all)
    moreover have "int (length p - 1) - int (length s) = patlen st - 1 - int (length s)"
      using \<open>0 < length p\<close> pl by linarith
    ultimately show ?thesis using False pl by (simp add: bmh_search_by_def)
  qed
qed

end

section \<open>The two searches meet the contract\<close>

lemma pattern_byte: "cstr m a p \<Longrightarrow> i < length p \<Longrightarrow> byte_at m a (int i) = p ! i"
  using cstr_nth [of m a p i] by simp

lemma bmh_fill_ok:
  "\<lbrakk>cstr m a p; i \<le> length p; length sk = 256; \<forall>c. \<exists>sh. sk ! unat c = int sh \<and> shift_ok p i c sh\<rbrakk> \<Longrightarrow>
   length (bmh_fill m a (int (length p)) (int i) sk) = 256 \<and>
   (\<forall>c. \<exists>sh. bmh_fill m a (int (length p)) (int i) sk ! unat c = int sh \<and> shift_ok p (length p) c sh)"
proof (induction "length p - i" arbitrary: i sk)
  case 0
  then show ?case by (subst (1 2) bmh_fill.simps) simp
next
  case (Suc d)
  have i: "i < length p" using Suc.hyps(2) by simp
  define sk' where "sk' = sk[unat (p ! i) := int (length p - 1 - i)]"
  have e: "int (length p) - int i - 1 = int (length p - 1 - i)" using i by simp
  have step: "bmh_fill m a (int (length p)) (int i) sk = bmh_fill m a (int (length p)) (int (Suc i)) sk'"
    using i pattern_byte [OF Suc.prems(1) i] e by (subst bmh_fill.simps) (simp add: sk'_def add.commute)
  have "\<forall>c. \<exists>sh. sk' ! unat c = int sh \<and> shift_ok p (Suc i) c sh"
  proof
    fix c
    show "\<exists>sh. sk' ! unat c = int sh \<and> shift_ok p (Suc i) c sh"
    proof (cases "c = p ! i")
      case True
      then have "shift_ok p (Suc i) c (length p - 1 - i)"
        using i by (auto simp: shift_ok_def)
      moreover have "sk' ! unat c = int (length p - 1 - i)"
        using True Suc.prems(3) unat_byte [of c] by (simp add: sk'_def)
      ultimately show ?thesis by blast
    next
      case False
      then have "unat (p ! i) \<noteq> unat c" by (metis word_unat_eq_iff)
      then have "sk' ! unat c = sk ! unat c" by (simp add: sk'_def)
      moreover obtain sh where sh: "sk ! unat c = int sh" "shift_ok p i c sh" using Suc.prems(4) by blast
      moreover have "shift_ok p (Suc i) c sh"
        using sh(2) False by (auto simp: shift_ok_def less_Suc_eq)
      ultimately show ?thesis by auto
    qed
  qed
  moreover have "length sk' = 256" using Suc.prems(3) by (simp add: sk'_def)
  moreover have "d = length p - Suc i" "Suc i \<le> length p" using Suc.hyps(2) by simp_all
  ultimately show ?case unfolding step using Suc.hyps(1) Suc.prems(1) by blast
qed

lemma bmh_second_ok:
  "\<lbrakk>cstr m a p; p \<noteq> []; i < length p; 0 < d; d \<le> length p; \<forall>j<i. length p - 1 - j < d \<longrightarrow> \<not> same (p ! j)\<rbrakk> \<Longrightarrow>
   \<exists>d'. bmh_second same m a (int (length p)) (int i) (int d) = int d' \<and> 0 < d' \<and> d' \<le> length p \<and>
     (\<forall>e. 0 < e \<longrightarrow> e < d' \<longrightarrow> \<not> same (p ! (length p - 1 - e)))"
proof (induction "length p - i" arbitrary: i d)
  case 0
  then show ?case by simp
next
  case (Suc k)
  show ?case
  proof (cases "Suc i < length p")
    case False
    then have "bmh_second same m a (int (length p)) (int i) (int d) = int d"
      by (subst bmh_second.simps) simp
    moreover have "\<not> same (p ! (length p - 1 - e))" if "0 < e" "e < d" for e
      using Suc.prems(5,6) that False Suc.prems(3) by auto
    ultimately show ?thesis using Suc.prems(4,5) by blast
  next
    case True
    then have lt: "int i < int (length p) - 1" by linarith
    define d1 where "d1 = (if same (p ! i) then length p - 1 - i else d)"
    have e: "int (length p) - int i - 1 = int (length p - 1 - i)" using True by simp
    have "bmh_second same m a (int (length p)) (int i) (int d) = bmh_second same m a (int (length p)) (int (Suc i)) (int d1)"
      using lt pattern_byte [OF Suc.prems(1,3)]
      by (subst bmh_second.simps) (simp add: d1_def add.commute e del: of_nat_diff)
    moreover have "\<exists>d'. bmh_second same m a (int (length p)) (int (Suc i)) (int d1) = int d' \<and> 0 < d' \<and> d' \<le> length p \<and>
        (\<forall>e. 0 < e \<longrightarrow> e < d' \<longrightarrow> \<not> same (p ! (length p - 1 - e)))"
    proof (rule Suc.hyps(1))
      show "\<forall>j<Suc i. length p - 1 - j < d1 \<longrightarrow> \<not> same (p ! j)"
        using Suc.prems(6) by (auto simp: d1_def less_Suc_eq)
    qed (use Suc.hyps(2) Suc.prems True in \<open>auto simp: d1_def\<close>)
    ultimately show ?thesis by simp
  qed
qed

lemma bmh_same_eq: "bmh_same a b \<Longrightarrow> a = b"
proof -
  assume "bmh_same a b"
  then have e: "schar a = uchar b" by (simp add: bmh_same_def)
  then have "word_of_int (schar a) = (word_of_int (uchar b) :: u8)" by simp
  then show ?thesis by simp
qed

lemma strlen_sint:
  "cstr m a p \<Longrightarrow> length p \<le> 32767 \<Longrightarrow>
   strlen m a = Some (of_nat (length p)) \<and> sint (of_nat (length p) :: u32) = int (length p)"
  by (simp add: strlen_cstr sint_of_nat32)

lemma last_byte: "cstr m a p \<Longrightarrow> p \<noteq> [] \<Longrightarrow> byte_at m a (int (length p) - 1) = last p"
proof -
  assume c: "cstr m a p" "p \<noteq> []"
  then have "int (length p) - 1 = int (length p - 1)" by (cases p) simp_all
  moreover have "byte_at m a (int (length p - 1)) = p ! (length p - 1)"
    using c by (intro pattern_byte) (cases p, simp_all)
  ultimately show ?thesis using c(2) by (metis last_conv_nth)
qed

lemma bmh_init_ok:
  assumes c: "cstr m a p" and p: "p \<noteq> []" and l: "length p \<le> 32767"
  shows "\<exists>st. bmh_init m a = Some st \<and> tables_ok bmh_same (=) p st \<and> pat st = a"
proof -
  note n = strlen_sint [OF c l]
  define sk where "sk = bmh_fill m a (int (length p)) 0 (replicate 256 (int (length p)))"
  have "\<forall>ch. \<exists>sh. replicate 256 (int (length p)) ! unat ch = int sh \<and> shift_ok p 0 ch sh"
    by (auto simp: shift_ok_def nth_replicate unat_byte)
  then have sk: "length sk = 256" "\<And>ch. \<exists>sh. sk ! unat ch = int sh \<and> shift_ok p (length p) ch sh"
    using bmh_fill_ok [OF c, of 0 "replicate 256 (int (length p))"] by (simp_all add: sk_def)
  obtain d where d: "bmh_second (\<lambda>c. c = last p) m a (int (length p)) 0 (int (length p)) = int d" "0 < d" "d \<le> length p"
      "\<And>e. 0 < e \<Longrightarrow> e < d \<Longrightarrow> p ! (length p - 1 - e) \<noteq> last p"
    using bmh_second_ok [OF c p, of 0 "length p" "\<lambda>c. c = last p"] p by auto
  let ?st = "\<lparr>patlen = int (length p), bskip = sk[unat (last p) := LARGE], skip2 = int d, pat = a\<rparr>"
  have "bmh_init m a = Some ?st"
    using n last_byte [OF c p] d(1) by (simp add: bmh_init_def Let_def sk_def)
  moreover have "tables_ok bmh_same (=) p ?st"
    unfolding tables_ok_def
  proof (intro conjI allI)
    fix ch
    show "if ch = last p then bskip ?st ! unat ch = LARGE
       else \<exists>d. bskip ?st ! unat ch = int d \<and> 0 < d \<and> d \<le> length p \<and>
         (\<forall>e. 0 < e \<longrightarrow> e < d \<longrightarrow> \<not> bmh_same ch (p ! (length p - 1 - e)))"
    proof (cases "ch = last p")
      case True
      then show ?thesis using sk(1) unat_byte [of ch] by simp
    next
      case False
      then have "unat (last p) \<noteq> unat ch" by (metis word_unat_eq_iff)
      then have e: "bskip ?st ! unat ch = sk ! unat ch" by simp
      obtain sh where sh: "sk ! unat ch = int sh" "shift_ok p (length p) ch sh" using sk(2) by blast
      have "sh \<noteq> 0" using sh(2) False p by (cases "sh = 0") (auto simp: shift_ok_def last_conv_nth)
      moreover have "\<not> bmh_same ch (p ! (length p - 1 - f))" if "0 < f" "f < sh" for f
      proof -
        have "length p - 1 - f < length p" "length p - sh \<le> length p - 1 - f" using that p by auto
        then have "p ! (length p - 1 - f) \<noteq> ch" using sh(2) by (auto simp: shift_ok_def)
        then show ?thesis using bmh_same_eq by metis
      qed
      moreover have "sh \<le> length p" using sh(2) by (simp add: shift_ok_def)
      ultimately show ?thesis using False e sh(1) by auto
    qed
  next
    show "\<exists>d. skip2 ?st = int d \<and> 0 < d \<and> d \<le> length p \<and>
        (\<forall>c e. c = last p \<longrightarrow> 0 < e \<longrightarrow> e < d \<longrightarrow> \<not> bmh_same c (p ! (length p - 1 - e)))"
    proof (intro exI [of _ d] conjI allI impI)
      fix c f assume "c = last p" "0 < f" "f < d"
      then show "\<not> bmh_same c (p ! (length p - 1 - f))" using d(4) [of f] bmh_same_eq by metis
    qed (use d(2,3) in simp_all)
  qed simp
  ultimately show ?thesis by auto
qed

lemma bmha_back_ok:
  "cstr m a p \<Longrightarrow> j \<le> length p \<Longrightarrow>
   \<exists>k. bmha_back m a c (int j - 1) = int k - 1 \<and> k \<le> j \<and> (\<forall>i. k \<le> i \<longrightarrow> i < j \<longrightarrow> lowerc c \<noteq> lowerc (p ! i)) \<and>
     (0 < k \<longrightarrow> lowerc c = lowerc (p ! (k - 1)))"
proof (induction j)
  case 0
  then show ?case by (subst bmha_back.simps) (auto intro: exI [of _ 0])
next
  case (Suc j)
  have b: "byte_at m a (int j) = p ! j" using Suc.prems by (intro pattern_byte) simp_all
  show ?case
  proof (cases "lowerc c = lowerc (p ! j)")
    case True
    then have "bmha_back m a c (int (Suc j) - 1) = int (Suc j) - 1"
      using b by (subst bmha_back.simps) simp
    with True show ?thesis by (intro exI [of _ "Suc j"]) simp
  next
    case False
    then have "bmha_back m a c (int (Suc j) - 1) = bmha_back m a c (int j - 1)"
      using b by (subst bmha_back.simps) simp
    with Suc False show ?thesis by (auto simp: less_Suc_eq)
  qed
qed

lemma bmha_init_ok:
  assumes c: "cstr m a p" and p: "p \<noteq> []" and l: "length p \<le> 32767"
  shows "\<exists>st. bmha_init m a = Some st \<and> tables_ok bmha_same bmha_same p st \<and> pat st = a"
proof -
  let ?n = "int (length p)"
  note n = strlen_sint [OF c l]
  let ?same = "\<lambda>c. lowerc c = lowerc (last p)"
  obtain d where d: "bmh_second ?same m a ?n 0 ?n = int d" "0 < d" "d \<le> length p"
      "\<And>e. 0 < e \<Longrightarrow> e < d \<Longrightarrow> \<not> ?same (p ! (length p - 1 - e))"
    using bmh_second_ok [OF c p, of 0 "length p" ?same] p by auto
  define sk where "sk = map (\<lambda>i. let j = bmha_back m a (of_nat i) (?n - 1)
     in if j = ?n - 1 then LARGE else if j \<ge> 0 then ?n - j - 1 else ?n) [0..<256]"
  let ?st = "\<lparr>patlen = ?n, bskip = sk, skip2 = int d, pat = a\<rparr>"
  have "bmha_init m a = Some ?st"
    using n last_byte [OF c p] d(1) by (simp add: bmha_init_def Let_def sk_def)
  moreover have "tables_ok bmha_same bmha_same p ?st"
    unfolding tables_ok_def
  proof (intro conjI allI)
    fix ch
    have e: "bskip ?st ! unat ch = (let j = bmha_back m a ch (?n - 1)
        in if j = ?n - 1 then LARGE else if j \<ge> 0 then ?n - j - 1 else ?n)"
      using unat_byte [of ch] by (simp add: sk_def del: upt_Suc)
    obtain k where k: "bmha_back m a ch (?n - 1) = int k - 1" "k \<le> length p"
        "\<And>i. k \<le> i \<Longrightarrow> i < length p \<Longrightarrow> lowerc ch \<noteq> lowerc (p ! i)" "0 < k \<Longrightarrow> lowerc ch = lowerc (p ! (k - 1))"
      using bmha_back_ok [OF c order_refl] by blast
    have e2: "bskip ?st ! unat ch = (if k = length p then LARGE else int (length p - k))"
      unfolding e k(1) Let_def using k(2) by (auto simp: of_nat_diff)
    have lst: "bmha_same ch (last p) \<longleftrightarrow> k = length p"
    proof
      assume l: "bmha_same ch (last p)"
      show "k = length p"
      proof (rule ccontr)
        assume "k \<noteq> length p"
        with k(2) have "k \<le> length p - 1" "length p - 1 < length p" by linarith+
        from k(3) [OF this] l p show False by (simp add: bmha_same_def last_conv_nth)
      qed
    next
      assume "k = length p"
      then show "bmha_same ch (last p)" using k(4) p by (simp add: bmha_same_def last_conv_nth)
    qed
    show "if bmha_same ch (last p) then bskip ?st ! unat ch = LARGE
       else \<exists>d. bskip ?st ! unat ch = int d \<and> 0 < d \<and> d \<le> length p \<and>
         (\<forall>e. 0 < e \<longrightarrow> e < d \<longrightarrow> \<not> bmha_same ch (p ! (length p - 1 - e)))"
    proof (cases "k = length p")
      case True
      with lst e2 show ?thesis by simp
    next
      case False
      have "\<not> bmha_same ch (p ! (length p - 1 - f))" if "0 < f" "f < length p - k" for f
        using k(3) [of "length p - 1 - f"] that by (auto simp: bmha_same_def)
      with False lst e2 k(2) show ?thesis by (auto intro!: exI [of _ "length p - k"])
    qed
  next
    show "\<exists>d. skip2 ?st = int d \<and> 0 < d \<and> d \<le> length p \<and>
        (\<forall>c e. bmha_same c (last p) \<longrightarrow> 0 < e \<longrightarrow> e < d \<longrightarrow> \<not> bmha_same c (p ! (length p - 1 - e)))"
    proof (intro exI [of _ d] conjI allI impI)
      fix c f assume c: "bmha_same c (last p)" and f: "0 < f" "f < d"
      show "\<not> bmha_same c (p ! (length p - 1 - f))"
        using d(4) [OF f] c by (simp add: bmha_same_def)
    qed (use d(2,3) in simp_all)
  qed simp
  ultimately show ?thesis by auto
qed

interpretation bmh: horspool bmh_init bmh_same "(=)" by unfold_locales (rule bmh_init_ok)
interpretation bmha: horspool bmha_init bmha_same bmha_same by unfold_locales (rule bmha_init_ok)

lemma schar_uchar_iff: "schar a = uchar b \<longleftrightarrow> a = b \<and> b < 128"
proof
  assume e: "schar a = uchar b"
  then have "a = b" using bmh_same_eq [of a b] by (simp add: bmh_same_def)
  moreover have "schar a < 128" using sint_less [of a] by simp
  ultimately show "a = b \<and> b < 128" using e by (simp add: word_less_def)
next
  assume "a = b \<and> b < 128"
  then show "schar a = uchar b" using schar_small [of b] by (simp add: word_less_nat_alt)
qed

lemma matches_bmh_same:
  "p \<noteq> [] \<Longrightarrow> matches bmh_same (=) p s k \<longleftrightarrow> occurs p s k \<and> list_all (\<lambda>b. b < 128) (butlast p)"
proof -
  assume p: "p \<noteq> []"
  have same: "bmh_same a b \<longleftrightarrow> a = b \<and> b < 128" for a b
    by (simp add: bmh_same_def schar_uchar_iff)
  have bl: "list_all (\<lambda>b. b < 128) (butlast p) \<longleftrightarrow> (\<forall>j<length p - 1. p ! j < 128)"
    by (simp add: list_all_length nth_butlast)
  show ?thesis
  proof (cases "k + length p \<le> length s")
    case True
    have "occurs p s k \<longleftrightarrow> (\<forall>j<length p. s ! (k + j) = p ! j)"
      using True by (auto simp: occurs_def list_eq_iff_nth_eq)
    also have "\<dots> \<longleftrightarrow> s ! (k + length p - 1) = last p \<and> (\<forall>j<length p - 1. s ! (k + j) = p ! j)"
    proof -
      have "(\<forall>j<length p. P j) \<longleftrightarrow> P (length p - 1) \<and> (\<forall>j<length p - 1. P j)" for P
        using p by (cases "length p") (auto simp: less_Suc_eq)
      moreover have "k + (length p - 1) = k + length p - 1" using p by (cases p) auto
      ultimately show ?thesis using p by (simp add: last_conv_nth)
    qed
    finally show ?thesis unfolding bl matches_def same using True by auto
  next
    case False
    then show ?thesis by (simp add: matches_def occurs_def)
  qed
qed

lemma matches_bmha_same:
  "p \<noteq> [] \<Longrightarrow> matches bmha_same bmha_same p s k \<longleftrightarrow> occurs (map lowerc p) (map lowerc s) k"
proof -
  assume p: "p \<noteq> []"
  show ?thesis
  proof (cases "k + length p \<le> length s")
    case True
    have "occurs (map lowerc p) (map lowerc s) k \<longleftrightarrow> (\<forall>j<length p. lowerc (s ! (k + j)) = lowerc (p ! j))"
      using True by (auto simp: occurs_def list_eq_iff_nth_eq)
    also have "\<dots> \<longleftrightarrow> lowerc (s ! (k + length p - 1)) = lowerc (last p) \<and>
        (\<forall>j<length p - 1. lowerc (s ! (k + j)) = lowerc (p ! j))"
    proof -
      have "(\<forall>j<length p. P j) \<longleftrightarrow> P (length p - 1) \<and> (\<forall>j<length p - 1. P j)" for P
        using p by (cases "length p") (auto simp: less_Suc_eq)
      moreover have "k + (length p - 1) = k + length p - 1" using p by (cases p) auto
      ultimately show ?thesis using p by (simp add: last_conv_nth)
    qed
    finally show ?thesis using True by (simp add: matches_def bmha_same_def)
  next
    case False
    then show ?thesis by (simp add: matches_def occurs_def)
  qed
qed

section \<open>Properties\<close>

text \<open>C27: after \<open>init_search\<close>, \<open>strsearch\<close> returns a pointer to the first occurrence of the pattern in
  the string, and the null pointer exactly if there is none.\<close>

theorem strsearch_first_occurrence:
  assumes "cstr m q p" "p \<noteq> []" "cstr m a s" "length s + length p < 2 ^ 32"
  shows "(do { st \<leftarrow> init_search m q; strsearch m st a }) = Some (first_at a (occurs p s))"
proof -
  obtain st where "init_search m q = Some st" "search_ok p st" "findme st = q"
    using init_search_ok [OF assms(1)] by auto
  with strsearch_first [of p st m a s] assms show ?thesis by simp
qed

text \<open>\<open>bmh_search\<close> returns a pointer to the first occurrence of the pattern, provided that all its
  bytes but the last are below 128; otherwise it returns the null pointer, since it compares the
  text as signed with the pattern as unsigned characters.\<close>

theorem bmh_search_first_occurrence:
  assumes "cstr m q p" "p \<noteq> []" "read_bytes m a (length s) = s" "length p + length s \<le> 32767"
  shows "(do { st \<leftarrow> bmh_init m q; bmh_search m st a (int (length s)) }) =
    Some (if list_all (\<lambda>b. b < 128) (butlast p) then first_at a (occurs p s) else 0)"
proof -
  have "length p \<le> 32767" using assms(4) by simp
  then obtain st where "bmh_init m q = Some st" using bmh_init_ok [OF assms(1,2)] by auto
  moreover from bmh.search [OF this assms(1-4)]
  have "bmh_search m st a (int (length s)) = Some (first_at a (matches bmh_same (=) p s))"
    by (simp add: bmh_search_def)
  moreover have "matches bmh_same (=) p s =
      (\<lambda>k. occurs p s k \<and> list_all (\<lambda>b. b < 128) (butlast p))"
    using matches_bmh_same [OF assms(2)] by (intro ext) simp
  ultimately show ?thesis by (simp add: first_at_none)
qed

text \<open>\<open>bmha_search\<close> returns a pointer to the first place at which the pattern occurs when both are
  mapped to lower case and without accents by \<open>lowervec\<close>, or the null pointer.\<close>

theorem bmha_search_first_occurrence:
  assumes "cstr m q p" "p \<noteq> []" "read_bytes m a (length s) = s" "length p + length s \<le> 32767"
  shows "(do { st \<leftarrow> bmha_init m q; bmha_search m st a (int (length s)) }) =
    Some (first_at a (occurs (map lowerc p) (map lowerc s)))"
proof -
  have "length p \<le> 32767" using assms(4) by simp
  then obtain st where "bmha_init m q = Some st" using bmha_init_ok [OF assms(1,2)] by auto
  moreover from bmha.search [OF this assms(1-4)]
  have "bmha_search m st a (int (length s)) = Some (first_at a (matches bmha_same bmha_same p s))"
    by (simp add: bmha_search_def)
  moreover have "matches bmha_same bmha_same p s = occurs (map lowerc p) (map lowerc s)"
    using matches_bmha_same [OF assms(2)] by (intro ext) simp
  ultimately show ?thesis by simp
qed

section \<open>search\_small\<close>

text \<open>The strings of \<open>search_small\<close> (before the final \<open>NULL\<close>), and its expected answers.\<close>

definition find_strings :: "string list" where
  "find_strings =
    [''abb'', ''you'', ''not'', ''it'', ''dad'', ''yoo'', ''hoo'', ''oo'', ''oh'', ''xx'', ''xx'',
     ''x'', ''x'', ''field'', ''new'', ''row'', ''regime'', ''boom'', ''that'', ''impact'',
     ''and'', ''zoom'', ''texture'', ''magnet'', ''doom'', ''loom'', ''freq'', ''current'',
     ''phase'', ''images'', ''appears'', ''phase'', ''conductor'', ''wavez'', ''normal'',
     ''free'', ''termed'', ''provide'', ''for'', ''and'', ''struct'', ''about'', ''have'',
     ''proper'', ''involve'', ''describedly'', ''thats'', ''spaces'', ''circumstance'', ''the'',
     ''member'', ''such'', ''guide'', ''regard'', ''officers'', ''implement'', ''principalities'']"

definition search_strings :: "string list" where
  "search_strings =
    [''cabbie'', ''your'', ''It isn't here'', ''But it is here'', ''hodad'', ''yoohoo'',
     ''yoohoo'', ''yoohoo'', ''yoohoo'', ''yoohoo'', ''xx'', ''x'', ''.'',
     ''In recent years, the field of photonic '', ''crystals has found new'',
     ''applications in the RF and microwave'', ''regime. A new type of metallic'',
     ''electromagnetic crystal has been'', ''developed that is having a'',
     ''significant impact on the field of'', ''antennas. It consists of a'',
     ''conductive surface, covered with a'', ''special texture which alters its'',
     ''electromagnetic properties. Made of solid'', ''metal, the structure'',
     ''conducts DC currents, but over a'', ''particular frequency range it does'',
     ''not conduct AC currents. It does not'', ''reverse the phase of reflected'',
     ''waves, and the effective image currents'', ''appear in-phase, rather than'',
     ''out-of-phase as they are on normal'', ''conductors. Furthermore, surface'',
     ''waves do not propagate, and instead'', ''radiate efficiently into free'',
     ''space. This new material, termed a'', ''high-impedance surface, provides'',
     ''a useful new ground plane for novel'', ''low-profile antennas and other'',
     ''electromagnetic structures.'', ''The recent protests about the Michigamua'',
     ''student organization have raised an'', ''important question as to the proper nature'',
     ''and scope of University involvement'', ''with student organizations. Accordingly'',
     ''the panel described in my Statement of'', ''February 25, 2000 that is considering the'',
     ''question of privileged space also will'', ''consider under what circumstances and in'',
     ''what ways the University, its'', ''administrators and faculty members should'',
     ''be associated with such organizations'', ''and it will recommend guiding principles'',
     ''in this regard. The University's'', ''Executive Officers and I will then decide'',
     ''whether and how to implement such'', ''principles.'']"

definition search_answer :: "int list" where
  "search_answer =
    [1, 1, 0, 1, 1, 1, 1, 1, 1, 0, 1, 1, 0, 1, 1, 1, 1, 0, 1, 1, 0, 0, 1, 1, 0, 0, 1, 1, 1,
     0, 0, 1, 1, 0, 0, 0, 0, 0, 0, 0, 0, 0, 0, 0, 0, 0, 0, 0, 1, 1, 1, 1, 0, 1, 0, 1, 0]"

text \<open>The two formats of its output.\<close>

definition line_fmt :: string where
  "line_fmt = CHR 0x22 # ''%s'' @ CHR 0x22 # '' is%s in '' @ CHR 0x22 # ''%s'' @ [CHR 0x22]"

definition found_fmt :: string where
  "found_fmt = '' ['' @ CHR 0x22 # ''%s'' @ CHR 0x22 # '']''"

text \<open>The loop over \<open>i\<close>: \<open>fs\<close> and \<open>ss\<close> are the arrays of pointers from index \<open>i\<close> on, \<open>none\<close> and
  \<open>nots\<close> the addresses of the literals \<open>""\<close> and \<open>" not"\<close>; the result is what is printed and
  \<open>err_cnt\<close>.  Reading past the end of an array has no result.\<close>

fun search_small_loop ::
    "mem \<Rightarrow> addr \<Rightarrow> addr \<Rightarrow> addr list \<Rightarrow> addr list \<Rightarrow> int list \<Rightarrow> int \<Rightarrow> (u8 list \<times> int) option" where
  "search_small_loop m none nots [] ss ans err_cnt = None"
| "search_small_loop m none nots (f # fs) ss ans err_cnt =
     (if f = 0 then Some ([], err_cnt)
      else case (ss, ans) of
        (s # ss', a # ans') \<Rightarrow> do {
          st \<leftarrow> init_search m f;
          here \<leftarrow> strsearch m st s;
          o1 \<leftarrow> printf m line_fmt
                 [f, if here \<noteq> 0 then none else nots, s];
          o2 \<leftarrow> if here \<noteq> 0 then printf m found_fmt [here] else Some [];
          let o3 = putchar 10;
          let err_cnt' = (if a \<noteq> 0 then (if here = 0 then err_cnt + 1 else err_cnt)
                          else (if here \<noteq> 0 then err_cnt + 1 else err_cnt));
          (r, n) \<leftarrow> search_small_loop m none nots fs ss' ans' err_cnt';
          Some (o1 @ o2 @ o3 @ r, n) }
      | _ \<Rightarrow> None)"

definition search_small :: "mem \<Rightarrow> addr \<Rightarrow> addr \<Rightarrow> addr list \<Rightarrow> addr list \<Rightarrow> (u8 list \<times> int) option" where
  "search_small m none nots fs ss = search_small_loop m none nots fs ss search_answer 0"

text \<open>A string literal: in memory at an address from which it does not wrap around.\<close>

definition lit :: "mem \<Rightarrow> addr \<Rightarrow> string \<Rightarrow> bool" where
  "lit m a s \<longleftrightarrow> a \<noteq> 0 \<and> unat a + length s < 4294967296 \<and> cstr m a (ascii s)"

fun find_sub :: "'a list \<Rightarrow> 'a list \<Rightarrow> nat option" where
  "find_sub p [] = (if p = [] then Some 0 else None)"
| "find_sub p (x # xs) = (if take (length p) (x # xs) = p then Some 0 else map_option Suc (find_sub p xs))"

lemma find_sub_None: "find_sub p s = None \<Longrightarrow> \<not> (k + length p \<le> length s \<and> take (length p) (drop k s) = p)"
proof (induction s arbitrary: k)
  case Nil
  then show ?case by (auto split: if_splits)
next
  case (Cons x s)
  then show ?case by (cases k) (auto split: if_splits)
qed

lemma find_sub_Some: "find_sub p s = Some k \<Longrightarrow> k + length p \<le> length s \<and> take (length p) (drop k s) = p \<and>
    (\<forall>j<k. take (length p) (drop j s) \<noteq> p)"
proof (induction s arbitrary: k)
  case Nil
  then show ?case by (auto split: if_splits)
next
  case (Cons x s)
  show ?case
  proof (cases "take (length p) (x # s) = p")
    case True
    moreover have "length p \<le> length (x # s)"
      by (metis True length_take min.cobounded2 min.commute)
    ultimately show ?thesis using Cons.prems by simp
  next
    case False
    then obtain k' where k': "k = Suc k'" "find_sub p s = Some k'" using Cons.prems by auto
    from Cons.IH [OF k'(2)] k'(1) False show ?thesis by (auto simp: less_Suc_eq_0_disj)
  qed
qed

lemma ascii_occurs: "occurs (ascii p) (ascii s) k \<longleftrightarrow> k + length p \<le> length s \<and> take (length p) (drop k s) = p"
  using inj_map_eq_map [OF inj_of_char, of "take (length p) (drop k s)" p]
  by (simp add: occurs_def ascii_def take_map drop_map)

lemma first_at_find_sub:
  "first_at a (occurs (ascii p) (ascii s)) = (case find_sub p s of None \<Rightarrow> 0 | Some k \<Rightarrow> a + of_nat k)"
proof (cases "find_sub p s")
  case None
  then show ?thesis using find_sub_None [OF None] by (simp add: first_at_none ascii_occurs)
next
  case (Some k)
  then show ?thesis using find_sub_Some [OF Some] by (simp add: first_at_found ascii_occurs)
qed

text \<open>The line that is printed for a pair of strings.\<close>

definition search_line :: "string \<Rightarrow> string \<Rightarrow> u8 list" where
  "search_line f s =
     crlf (ascii (CHR 0x22 # f @ CHR 0x22 # '' is'' @ (if find_sub f s = None then '' not'' else []) @
       '' in '' @ CHR 0x22 # s @ [CHR 0x22])) @
     (case find_sub f s of None \<Rightarrow> []
      | Some k \<Rightarrow> crlf (ascii ('' ['' @ CHR 0x22 # drop k s @ CHR 0x22 # '']''))) @ [10]"

definition answer_wrong :: "string \<Rightarrow> string \<Rightarrow> int \<Rightarrow> bool" where
  "answer_wrong f s a \<longleftrightarrow> (a \<noteq> 0) = (find_sub f s = None)"

lemma lit_drop:
  assumes "lit m a s" "k \<le> length s"
  shows "a + of_nat k \<noteq> 0" "cstr m (a + of_nat k) (ascii (drop k s))"
proof -
  have "unat (a + of_nat k) = unat a + k"
    using assms by (simp add: lit_def unat_word_ariths unat_of_nat32)
  moreover have "0 < unat a" using assms(1) by (simp add: lit_def unat_gt_0)
  ultimately show "a + of_nat k \<noteq> 0" by (metis add_is_0 not_gr0 unat_0)
  show "cstr m (a + of_nat k) (ascii (drop k s))"
    using cstr_drop [of m a "ascii s" k] assms by (simp add: lit_def ascii_def drop_map)
qed

lemma crlf_append: "crlf (s @ t) = crlf s @ crlf t" and crlf_Nil: "crlf [] = []"
  by (simp_all add: crlf_def)

lemma search_line_printed:
  assumes "cstr m f (ascii F)" "cstr m x (ascii X)" "cstr m s (ascii S)"
  shows "printf m line_fmt [f, x, s] =
    Some (crlf (ascii (CHR 0x22 # F @ CHR 0x22 # '' is'' @ X @ '' in '' @ CHR 0x22 # S @ [CHR 0x22])))"
  using assms by (simp add: line_fmt_def found_fmt_def printf_eval putstring_cstr crlf_append) (simp add: crlf_def putchar_def)

lemma search_here_printed:
  assumes "cstr m h (ascii H)"
  shows "printf m found_fmt [h] =
    Some (crlf (ascii ('' ['' @ CHR 0x22 # H @ CHR 0x22 # '']'')))"
  using assms by (simp add: line_fmt_def found_fmt_def printf_eval putstring_cstr crlf_append) (simp add: crlf_def putchar_def)

lemma search_small_loop_ok:
  assumes e: "cstr m none []" "cstr m nots (ascii '' not'')"
  shows "\<lbrakk>list_all2 (lit m) ps fs; list_all2 (lit m) qs ss; length fs = length ss; length ans = length fs;
      list_all (\<lambda>f. f \<noteq> [] \<and> length f < 1000) fs; list_all (\<lambda>s. length s < 1000) ss\<rbrakk> \<Longrightarrow>
    search_small_loop m none nots (ps @ [0]) qs ans err =
      Some (concat (map2 search_line fs ss),
        err + sum_list (map2 (\<lambda>(f, s) a. of_bool (answer_wrong f s a)) (zip fs ss) ans))"
proof (induction ps fs arbitrary: qs ss ans err rule: list_all2_induct)
  case Nil
  then show ?case by simp
next
  case (Cons p ps f fs)
  obtain s ss' a ans' where ss: "ss = s # ss'" "ans = a # ans'"
    using Cons.prems(2,3) by (cases ss; cases ans) auto
  then obtain q qs' where qs: "qs = q # qs'" "lit m q s" "list_all2 (lit m) qs' ss'"
    using Cons.prems(1) by (auto simp: list_all2_Cons2)
  have p: "p \<noteq> 0" "cstr m p (ascii f)" using Cons.hyps(1) by (simp_all add: lit_def)
  have q: "cstr m q (ascii s)" using qs(2) by (simp add: lit_def)
  have len: "length (ascii s) + length (ascii f) < 2 ^ 32" "ascii f \<noteq> []"
    using Cons.prems(4,5) ss by (auto simp: ascii_def)
  obtain st where st: "init_search m p = Some st"
      "strsearch m st q = Some (case find_sub f s of None \<Rightarrow> 0 | Some k \<Rightarrow> q + of_nat k)"
    using strsearch_first [OF _ _ len(2) q len(1)] init_search_ok [OF p(2)] p(2)
    by (metis first_at_find_sub)
  note line = search_line_printed [OF p(2) _ q]
  define err' where "err' = err + of_bool (answer_wrong f s a)"
  have IH: "search_small_loop m none nots (ps @ [0]) qs' ans' err' =
      Some (concat (map2 search_line fs ss'),
        err' + sum_list (map2 (\<lambda>(f, s) a. of_bool (answer_wrong f s a)) (zip fs ss') ans'))"
    using Cons.prems qs(3) ss by (intro Cons.IH) simp_all
  have sum: "sum_list (map2 (\<lambda>(f, s) a. of_bool (answer_wrong f s a)) (zip (f # fs) ss) ans) =
      of_bool (answer_wrong f s a) + sum_list (map2 (\<lambda>(f, s) a. of_bool (answer_wrong f s a)) (zip fs ss') ans')"
    by (simp add: ss)
  have "search_small_loop m none nots ((p # ps) @ [0]) qs ans err =
      do { (r, n) \<leftarrow> search_small_loop m none nots (ps @ [0]) qs' ans' err'; Some (search_line f s @ r, n) }"
  proof (cases "find_sub f s")
    case None
    then have "err' = (if a = 0 then err else err + 1)" by (simp add: err'_def answer_wrong_def)
    with None show ?thesis
      using p(1) st e ss(2) qs(1) by (cases "a = 0") (simp_all add: line [of _ "'' not''"] search_line_def putchar_def)
  next
    case (Some k)
    have k: "k \<le> length s" using find_sub_Some [OF Some] by simp
    from Some have "err' = (if a = 0 then err + 1 else err)" by (simp add: err'_def answer_wrong_def)
    with Some show ?thesis
      using p(1) st e ss(2) qs(1) lit_drop [OF qs(2) k]
      by (cases "a = 0") (simp_all add: line [of _ "[]"] search_here_printed search_line_def putchar_def)
  qed
  then show ?case unfolding IH sum by (simp add: ss err'_def)
qed

lemma search_small_eq:
  assumes "list_all2 (lit m) ps find_strings" "list_all2 (lit m) qs search_strings"
    "cstr m none []" "cstr m nots (ascii '' not'')"
  shows "search_small m none nots (ps @ [0]) qs = Some (concat (map2 search_line find_strings search_strings), 0)"
proof -
  have l: "length find_strings = 57" "length search_strings = 57" "length search_answer = 57"
    by (simp_all add: find_strings_def search_strings_def search_answer_def)
  have f: "list_all (\<lambda>f. f \<noteq> [] \<and> length f < 1000) find_strings" by (simp add: find_strings_def)
  have s: "list_all (\<lambda>s. length s < 1000) search_strings" by (simp add: search_strings_def)
  have r: "sum_list (map2 (\<lambda>(f, s) a. of_bool (answer_wrong f s a)) (zip find_strings search_strings) search_answer) = (0 :: int)"
    by code_simp
  show ?thesis
    unfolding search_small_def using search_small_loop_ok [OF assms(3,4,1,2) _ _ f s] l r by simp
qed

text \<open>Whatever the addresses of its strings, \<open>search_small\<close> ends, prints for each pair whether
  and where the one occurs in the other, and returns 0: every answer is the expected one.\<close>

theorem search_small_result:
  assumes "list_all2 (lit m) ps find_strings" "list_all2 (lit m) qs search_strings"
    "cstr m none []" "cstr m nots (ascii '' not'')"
  shows "search_small m none nots (ps @ [0]) qs = Some (concat (map2 search_line find_strings search_strings), 0)"
  using assms by (rule search_small_eq)

text \<open>Strings laid out one after the other, each with its terminator.\<close>

fun lay_addrs :: "addr \<Rightarrow> string list \<Rightarrow> addr list" where
  "lay_addrs a [] = []"
| "lay_addrs a (s # ss) = a # lay_addrs (a + of_nat (length s) + 1) ss"

definition lay_bytes :: "string list \<Rightarrow> u8 list" where
  "lay_bytes ss = concat (map (\<lambda>s. ascii s @ [0]) ss)"

lemma lay_ok:
  "\<lbrakk>read_bytes m a (length (lay_bytes ss)) = lay_bytes ss; a \<noteq> 0; unat a + length (lay_bytes ss) < 4294967296;
    list_all (\<lambda>s. 0 \<notin> set (ascii s)) ss\<rbrakk> \<Longrightarrow> list_all2 (lit m) (lay_addrs a ss) ss"
proof (induction ss arbitrary: a)
  case Nil
  then show ?case by simp
next
  case (Cons s ss)
  let ?n = "length s" and ?r = "length (lay_bytes ss)"
  have l: "length (lay_bytes (s # ss)) = Suc ?n + ?r" by (simp add: lay_bytes_def ascii_def)
  have b: "lay_bytes (s # ss) = (ascii s @ [0]) @ lay_bytes ss" by (simp add: lay_bytes_def)
  have rb: "read_bytes m a (Suc ?n) = ascii s @ [0]" "read_bytes m (a + of_nat (Suc ?n)) ?r = lay_bytes ss"
  proof -
    have "read_bytes m a (Suc ?n) @ read_bytes m (a + of_nat (Suc ?n)) ?r = (ascii s @ [0]) @ lay_bytes ss"
      using Cons.prems(1) unfolding l unfolding b read_bytes_append .
    then show "read_bytes m a (Suc ?n) = ascii s @ [0]" "read_bytes m (a + of_nat (Suc ?n)) ?r = lay_bytes ss"
      by (subst (asm) append_eq_append_conv; simp add: ascii_def del: read_bytes.simps)+
  qed
  have u: "unat (a + of_nat (Suc ?n)) = unat a + Suc ?n"
    using Cons.prems(3) l unat_of_nat32 [of "Suc ?n"] by (simp add: unat_word_ariths del: of_nat_Suc)
  then have "a + of_nat (Suc ?n) \<noteq> 0" by (metis add_is_0 nat.distinct(1) unat_0)
  then have "list_all2 (lit m) (lay_addrs (a + of_nat (Suc ?n)) ss) ss"
    using Cons.prems rb(2) u l by (intro Cons.IH) simp_all
  moreover have "cstr m a (ascii s)" using Cons.prems(4) rb(1) by (simp add: cstr_iff ascii_def del: read_bytes.simps)
  ultimately show ?case using Cons.prems(2,3) l by (simp add: lit_def [of m a s] add.assoc add.commute [of 1])
qed

lemma search_layout:
  defines "all \<equiv> [[], '' not''] @ find_strings @ search_strings"
  shows "list_all2 (lit (write_bytes (\<lambda>_. 0) 4096 (lay_bytes all))) (take 57 (drop 2 (lay_addrs 4096 all))) find_strings"
    "list_all2 (lit (write_bytes (\<lambda>_. 0) 4096 (lay_bytes all))) (drop 59 (lay_addrs 4096 all)) search_strings"
    "cstr (write_bytes (\<lambda>_. 0) 4096 (lay_bytes all)) (lay_addrs 4096 all ! 0) []"
    "cstr (write_bytes (\<lambda>_. 0) 4096 (lay_bytes all)) (lay_addrs 4096 all ! 1) (ascii '' not'')"
proof -
  define m where "m = write_bytes (\<lambda>_. 0) 4096 (lay_bytes all)"
  have n: "length (lay_bytes all) < 10000"
    by (simp add: lay_bytes_def all_def find_strings_def search_strings_def)
  have "list_all (\<lambda>s. 0 \<notin> set (ascii s)) all"
    by (simp add: all_def find_strings_def search_strings_def)
  then have a: "list_all2 (lit m) (lay_addrs 4096 all) all"
    using n by (intro lay_ok) (simp_all add: m_def read_write_same)
  have l: "length find_strings = 57" "length search_strings = 57"
    by (simp_all add: find_strings_def search_strings_def)
  define as where "as = lay_addrs 4096 all"
  have "list_all2 (lit m) (take 57 (drop 2 as)) (take 57 (drop 2 all))"
    "list_all2 (lit m) (drop 59 as) (drop 59 all)"
    using a by (simp_all add: as_def list_all2_takeI list_all2_dropI)
  moreover have "take 57 (drop 2 all) = find_strings" "drop 59 all = search_strings"
    using l by (simp_all add: all_def)
  ultimately show "list_all2 (lit (write_bytes (\<lambda>_. 0) 4096 (lay_bytes all))) (take 57 (drop 2 (lay_addrs 4096 all))) find_strings"
    "list_all2 (lit (write_bytes (\<lambda>_. 0) 4096 (lay_bytes all))) (drop 59 (lay_addrs 4096 all)) search_strings"
    by (simp_all add: m_def as_def)
  have "lit m (as ! 0) (all ! 0)" "lit m (as ! 1) (all ! 1)"
    using a l by (auto simp: as_def all_def intro!: list_all2_nthD2)
  then show "cstr (write_bytes (\<lambda>_. 0) 4096 (lay_bytes all)) (lay_addrs 4096 all ! 0) []"
    "cstr (write_bytes (\<lambda>_. 0) 4096 (lay_bytes all)) (lay_addrs 4096 all ! 1) (ascii '' not'')"
    by (simp_all add: lit_def all_def as_def m_def)
qed

lemma search_small_result_witness:
  "let fb = lay_bytes ([[], '' not''] @ find_strings @ search_strings); m = write_bytes (\<lambda>_. 0) 4096 fb;
       as = lay_addrs 4096 ([[], '' not''] @ find_strings @ search_strings)
   in search_small m (as ! 0) (as ! 1) (take 57 (drop 2 as) @ [0]) (drop 59 as) =
      Some (concat (map2 search_line find_strings search_strings), 0)"
  unfolding Let_def by (rule search_small_result [OF search_layout])

text \<open>The first occurrence in a concrete memory, for the witnesses.\<close>

definition abc_mem :: mem where
  "abc_mem = write_bytes (\<lambda>_. 0) 16 (ascii ''xaabcaabc'' @ [0] @ ascii ''AbC'' @ [0] @ ascii ''abc'' @ [0])"

lemma abc_mem:
  "cstr abc_mem 16 (ascii ''xaabcaabc'')" "cstr abc_mem 26 (ascii ''AbC'')" "cstr abc_mem 30 (ascii ''abc'')"
  "read_bytes abc_mem 16 9 = ascii ''xaabcaabc''"
  by (simp_all add: abc_mem_def)

lemma strsearch_first_occurrence_witness:
  "(do { st \<leftarrow> init_search abc_mem 30; strsearch abc_mem st 16 }) = Some 18"
  using strsearch_first_occurrence [OF abc_mem(3) _ abc_mem(1)] first_at_find_sub [of 16 "''abc''" "''xaabcaabc''"] by simp

lemma bmh_search_first_occurrence_witness:
  "(do { st \<leftarrow> bmh_init abc_mem 30; bmh_search abc_mem st 16 9 }) = Some 18"
  using bmh_search_first_occurrence [of abc_mem 30 "ascii ''abc''" 16 "ascii ''xaabcaabc''"] abc_mem
    first_at_find_sub [of 16 "''abc''" "''xaabcaabc''"] by simp

lemma bmha_search_first_occurrence_witness:
  "(do { st \<leftarrow> bmha_init abc_mem 26; bmha_search abc_mem st 16 9 }) = Some 18"
proof -
  have l: "map lowerc (ascii ''AbC'') = ascii ''abc''" "map lowerc (ascii ''xaabcaabc'') = ascii ''xaabcaabc''"
    by (simp_all add: lowerc_def lowervec_def)
  show ?thesis
    using bmha_search_first_occurrence [of abc_mem 26 "ascii ''AbC''" 16 "ascii ''xaabcaabc''"] abc_mem
      first_at_find_sub [of 16 "''abc''" "''xaabcaabc''"] unfolding l by simp
qed

end
