(* ===== verification/Board.thy ===== *)
theory Board
  imports Console
begin

text \<open>
  The board as the programs see it (\<^verbatim>\<open>include/machine.h\<close>, \<open>lib/time.c\<close>, \<open>udelay.c\<close>,
  \<open>exception.c\<close>) and the parts that the test shells of \<^verbatim>\<open>bench\<close> have in common.  What a program
  does to the board is a history of events; what a load from a device register returns may depend
  on the whole history before it, and is a parameter (\<open>device\<close>).
\<close>

unbundle bit_operations_syntax

section \<open>Events\<close>

datatype event =
    Uart u8
  | Store addr u32
  | Load addr u32
  | Mtc0 nat u32
  | Mfc0 nat u32

type_synonym history = "event list"

text \<open>\<open>mmio\<close>: the value of the next load from an address; \<open>cp0\<close>: of the next read of a register
  of coprocessor 0.\<close>

record device =
  mmio :: "history \<Rightarrow> addr \<Rightarrow> u32"
  cp0 :: "history \<Rightarrow> nat \<Rightarrow> u32"

definition TIMER_ADDR :: addr where "TIMER_ADDR = 0xbfafe000"
definition SIMU_FLAG_ADDR :: addr where "SIMU_FLAG_ADDR = 0xbfaffff4"
definition LED_ADDR :: addr where "LED_ADDR = 0xbfaff000"
definition LED_RG0_ADDR :: addr where "LED_RG0_ADDR = 0xbfaff004"
definition LED_RG1_ADDR :: addr where "LED_RG1_ADDR = 0xbfaff008"
definition NUM_ADDR :: addr where "NUM_ADDR = 0xbfaff010"
definition CONFREG_CR0 :: addr where "CONFREG_CR0 = 0xbfaf8000"
definition CONFREG_CR1 :: addr where "CONFREG_CR1 = 0xbfaf8004"

lemmas board_addrs = TIMER_ADDR_def SIMU_FLAG_ADDR_def LED_ADDR_def LED_RG0_ADDR_def LED_RG1_ADDR_def
  NUM_ADDR_def CONFREG_CR0_def CONFREG_CR1_def

definition load :: "device \<Rightarrow> addr \<Rightarrow> history \<Rightarrow> u32 \<times> history" where
  "load d a h = (let v = mmio d h a in (v, h @ [Load a v]))"

definition store :: "addr \<Rightarrow> u32 \<Rightarrow> history \<Rightarrow> history" where
  "store a v h = h @ [Store a v]"

definition mfc0 :: "device \<Rightarrow> nat \<Rightarrow> history \<Rightarrow> u32 \<times> history" where
  "mfc0 d r h = (let v = cp0 d h r in (v, h @ [Mfc0 r v]))"

definition mtc0 :: "nat \<Rightarrow> u32 \<Rightarrow> history \<Rightarrow> history" where
  "mtc0 r v h = h @ [Mtc0 r v]"

definition send :: "u8 list \<Rightarrow> history \<Rightarrow> history" where
  "send bs h = h @ map Uart bs"

text \<open>A call of \<open>printf\<close>, with the memory in which its \<open>%s\<close> arguments lie.\<close>

definition say :: "mem \<Rightarrow> string \<Rightarrow> u32 list \<Rightarrow> history \<Rightarrow> history option" where
  "say m fmt args h = do { out \<leftarrow> printf m fmt args; Some (send out h) }"

text \<open>Several calls in a row.\<close>

fun says :: "mem \<Rightarrow> (string \<times> u32 list) list \<Rightarrow> history \<Rightarrow> history option" where
  "says m [] h = Some h"
| "says m ((fmt, args) # r) h = do { h1 \<leftarrow> say m fmt args h; says m r h1 }"

section \<open>time.c, udelay.c and exception.c\<close>

text \<open>The timer is loaded from \<open>0xbfb00000 - 0x2000\<close>, the cycle counter is register 9.\<close>

definition uget_count :: "device \<Rightarrow> history \<Rightarrow> u32 \<times> history" where
  "uget_count d h = load d (0xbfb00000 - 0x2000) h"

definition get_count :: "device \<Rightarrow> history \<Rightarrow> u32 \<times> history" where
  "get_count d h = uget_count d h"

definition get_count_my :: "device \<Rightarrow> history \<Rightarrow> u32 \<times> history" where
  "get_count_my d h = mfc0 d 9 h"

record timespec =
  tv_sec :: u32
  tv_nsec :: u32
  tv_usec :: u32
  tv_msec :: u32

text \<open>\<open>CPU_COUNT_PER_US\<close> is 100; the constants of \<open>time.h\<close> are \<open>long\<close>, so the products with
  the count are unsigned.\<close>

definition clock_gettime :: "device \<Rightarrow> mem \<Rightarrow> history \<Rightarrow> (timespec \<times> u32 \<times> history) option" where
  "clock_gettime d m h =
     (let (n, h1) = uget_count d h;
          tmp = \<lparr>tv_sec = n div 100 div 1000000000, tv_nsec = n * (1000 div 100) mod 1000,
            tv_usec = n div 100 mod 1000, tv_msec = n div 100 div 1000 mod 1000\<rparr>
      in do {
        h2 \<leftarrow> say m (ln ''clock ns=%d,sec=%d'') [tv_nsec tmp, tv_sec tmp] h1;
        Some (tmp, 0, h2) })"

definition get_clock :: "device \<Rightarrow> history \<Rightarrow> u32 \<times> history" where
  "get_clock d h = uget_count d h"

definition get_ns :: "device \<Rightarrow> history \<Rightarrow> u32 \<times> history" where
  "get_ns d h = (let (n, h1) = uget_count d h in (n * (1000 div 100), h1))"

definition get_us :: "device \<Rightarrow> history \<Rightarrow> u32 \<times> history" where
  "get_us d h = (let (n, h1) = uget_count d h in (n div 100, h1))"

text \<open>The counts and \<open>us\<close> are \<open>int\<close>, so the comparison is signed.\<close>

partial_function (option) udelay_loop :: "device \<Rightarrow> u32 \<Rightarrow> u32 \<Rightarrow> history \<Rightarrow> history option" where
  "udelay_loop d count0 us h =
     (let (count1, h1) = mfc0 d 9 h
      in if count1 - count0 <s us then udelay_loop d count0 us h1 else Some h1)"

declare udelay_loop.simps [code]

definition udelay :: "device \<Rightarrow> u32 \<Rightarrow> history \<Rightarrow> history option" where
  "udelay d us h =
     (let us' = us * 100; (count0, h1) = mfc0 d 9 h
      in do { h2 \<leftarrow> udelay_loop d count0 us' h1; Some (mtc0 23 0 h2) })"

definition get_epc :: "device \<Rightarrow> history \<Rightarrow> u32 \<times> history" where
  "get_epc d h = mfc0 d 14 h"

definition get_cause :: "device \<Rightarrow> history \<Rightarrow> u32 \<times> history" where
  "get_cause d h = mfc0 d 13 h"

definition exception :: "device \<Rightarrow> mem \<Rightarrow> history \<Rightarrow> history option" where
  "exception d m h =
     do { h1 \<leftarrow> say m (ln ''There is an exception!!'') [] h;
          let (n, h2) = get_epc d h1;
          h3 \<leftarrow> say m (ln ''The epc is %x'') [n] h2;
          let (n', h4) = get_cause d h3;
          say m (ln ''The cause is %x'') [n'] h4 }"

section \<open>What the shells have in common\<close>

text \<open>\<open>SOC_TIMER = 0\<close> and \<open>mtc0 $0, $9\<close>.\<close>

definition clear_counts :: "history \<Rightarrow> history" where
  "clear_counts h = mtc0 9 0 (store TIMER_ADDR 0 h)"

definition LOOPTIMES :: nat where
  "LOOPTIMES = 10"

text \<open>A test changes a state of its own and the history, and returns what is added to \<open>err\<close>; a run of
  a benchmark that only prints returns what it prints.\<close>

type_synonym 's test = "'s \<Rightarrow> history \<Rightarrow> ('s \<times> int \<times> history) option"
type_synonym 's run = "'s \<Rightarrow> ('s \<times> u8 list \<times> int) option"

definition printing :: "'s run \<Rightarrow> 's test" where
  "printing run s h = do { (s', out, e) \<leftarrow> run s; Some (s', e, send out h) }"

fun run_times :: "nat \<Rightarrow> 's test \<Rightarrow> 's \<Rightarrow> int \<Rightarrow> history \<Rightarrow> ('s \<times> int \<times> history) option" where
  "run_times 0 run s err h = Some (s, err, h)"
| "run_times (Suc k) run s err h =
     do { (s', e, h') \<leftarrow> run s h; run_times k run s' (err + e) h' }"

text \<open>One run if the simulation flag is set, \<open>LOOPTIMES\<close> otherwise.\<close>

definition test_runs :: "device \<Rightarrow> 's test \<Rightarrow> 's \<Rightarrow> history \<Rightarrow> ('s \<times> int \<times> history) option" where
  "test_runs d run s h =
     (let (flag, h1) = load d SIMU_FLAG_ADDR h
      in run_times (if flag \<noteq> 0 then 1 else LOOPTIMES) run s 0 h1)"

text \<open>The runs between two readings of each counter: \<open>err\<close>, \<open>total_count\<close> and \<open>total_count_my\<close>.\<close>

definition timed_runs :: "device \<Rightarrow> 's test \<Rightarrow> 's \<Rightarrow> history \<Rightarrow> ('s \<times> int \<times> u32 \<times> u32 \<times> history) option" where
  "timed_runs d run s h =
     (let (start_count, h1) = get_count d h; (start_count_my, h2) = get_count_my d h1
      in do {
        (s', err, h3) \<leftarrow> test_runs d run s h2;
        let (stop_count_my, h4) = get_count_my d h3;
        let (stop_count, h5) = get_count d h4;
        Some (s', err, stop_count - start_count, stop_count_my - start_count_my, h5) })"

definition verdict :: "mem \<Rightarrow> string \<Rightarrow> string \<Rightarrow> int \<Rightarrow> history \<Rightarrow> history option" where
  "verdict m pass_text error_text err h =
     (if err = 0
      then do { h1 \<leftarrow> say m pass_text [] h;
                Some (store LED_ADDR 0xffff (store LED_RG0_ADDR 1 (store LED_RG1_ADDR 1 h1))) }
      else do { h1 \<leftarrow> say m error_text [] h;
                Some (store LED_ADDR 0 (store LED_RG0_ADDR 2 (store LED_RG1_ADDR 1 h1))) })"

definition report :: "mem \<Rightarrow> string \<Rightarrow> u32 \<Rightarrow> u32 \<Rightarrow> history \<Rightarrow> history option" where
  "report m name total_count total_count_my h =
     (let h1 = store NUM_ADDR total_count_my h;
          h2 = store CONFREG_CR0 total_count_my h1;
          h3 = store CONFREG_CR1 total_count h2
      in do {
        h4 \<leftarrow> say m (ln (name @ '': Total Count(SoC count) = 0x%x'')) [total_count] h3;
        say m (ln (name @ '': Total Count(CPU count) = 0x%x'')) [total_count_my] h4 })"

text \<open>The shells other than 1 and 4.\<close>

definition shell :: "device \<Rightarrow> mem \<Rightarrow> string \<Rightarrow> 's test \<Rightarrow> 's \<Rightarrow> history \<Rightarrow> ('s \<times> history) option" where
  "shell d m name run s h =
     do { let h1 = clear_counts h;
          h2 \<leftarrow> say m (ln (name @ '' test begin.'')) [] h1;
          (s', err, total_count, total_count_my, h3) \<leftarrow> timed_runs d run s h2;
          h4 \<leftarrow> verdict m (ln (name @ '' PASS!'')) (ln (name @ '' ERROR!!!'')) err h3;
          h5 \<leftarrow> report m name total_count total_count_my h4;
          Some (s', h5) }"

section \<open>Histories of shells\<close>

lemma printf_text: "of_char CHR ''%'' \<notin> set (ascii s) \<Longrightarrow> 0 \<notin> set (ascii s) \<Longrightarrow> printf m s [] = Some (crlf (ascii s))"
  using printf_loop_text [of "ascii s" "length (ascii s)" 0 "ascii s" "[]" m "[]"]
  by (simp add: printf_def) (simp add: printf_loop.simps fmt_at_def)

definition hex :: "u32 \<Rightarrow> u8 list" where
  "hex v = (case printbase v 1 16 False of Some out \<Rightarrow> out | None \<Rightarrow> [])"

lemma printf_hex_line:
  assumes "of_char CHR ''%'' \<notin> set (ascii s)" "0 \<notin> set (ascii s)"
  shows "printf m (ln (s @ ''%x'')) [v] = Some (crlf (ascii s) @ hex v @ [13, 10])"
proof -
  let ?f = "ascii (ln (s @ ''%x''))"
  have "printf_loop m ?f 0 [v] =
      do { r \<leftarrow> printf_loop m ?f (0 + length (ascii s)) [v]; Some (crlf (ascii s) @ r) }"
    by (rule printf_loop_text [OF assms]) simp_all
  moreover have "printf_loop m ?f (length (ascii s)) [v] = Some (hex v @ [13, 10])"
  proof -
    obtain out where "printbase v 1 16 False = Some out" using printbase_total [of 16 v 1 False] by auto
    then show ?thesis
      by (subst printf_loop.simps)
        (simp add: fmt_at_def pf_again.simps pf_arg_def hex_def nth_append, simp add: printf_loop.simps fmt_at_def nth_append putchar_def)
  qed
  ultimately show ?thesis by (simp add: printf_def)
qed

text \<open>A name that can be part of a format.\<close>

definition plain :: "string \<Rightarrow> bool" where
  "plain s \<longleftrightarrow> of_char CHR ''%'' \<notin> set (ascii s) \<and> 0 \<notin> set (ascii s)"

lemma plain_append [simp]: "plain (s @ t) \<longleftrightarrow> plain s \<and> plain t"
  by (auto simp: plain_def)

lemma say_plain: "plain s \<Longrightarrow> say m s [] h = Some (h @ map Uart (crlf (ascii s)))"
  by (simp add: say_def printf_text plain_def send_def)

lemma say_hex: "plain s \<Longrightarrow> say m (ln (s @ ''%x'')) [v] h = Some (h @ map Uart (crlf (ascii s) @ hex v @ [13, 10]))"
  using printf_hex_line [of s m v] by (simp add: say_def plain_def send_def)

text \<open>The runs apart from the history: the final state, what is printed and the sum of the errors.\<close>

fun all_runs :: "nat \<Rightarrow> 's run \<Rightarrow> 's \<Rightarrow> ('s \<times> u8 list \<times> int) option" where
  "all_runs 0 run s = Some (s, [], 0)"
| "all_runs (Suc k) run s =
     do { (s', out, e) \<leftarrow> run s; (s'', out', e') \<leftarrow> all_runs k run s'; Some (s'', out @ out', e + e') }"

lemma run_times_all_runs:
  "run_times k (printing run) s err h = do { (s', out, e) \<leftarrow> all_runs k run s; Some (s', err + e, send out h) }"
proof (induction k arbitrary: s err h)
  case 0
  then show ?case by (simp add: send_def)
next
  case (Suc k)
  show ?case
  proof (cases "run s")
    case (Some p)
    obtain s' out e where p: "p = (s', out, e)" by (cases p)
    have "printing run s h = Some (s', e, send out h)" using Some p by (simp add: printing_def)
    then show ?thesis
      using Some p by (cases "all_runs k run s'") (auto simp: Suc.IH send_def)
  qed (simp add: printing_def)
qed

text \<open>The events of a shell: the flag read, the readings of the two counters, and the verdict.\<close>

definition timed_events :: "u32 \<Rightarrow> u32 \<Rightarrow> u32 \<Rightarrow> u8 list \<Rightarrow> u32 \<Rightarrow> u32 \<Rightarrow> history" where
  "timed_events flag t0 c0 out c1 t1 =
     [Load TIMER_ADDR t0, Mfc0 9 c0, Load SIMU_FLAG_ADDR flag] @ map Uart out @ [Mfc0 9 c1, Load TIMER_ADDR t1]"

definition verdict_events :: "string \<Rightarrow> string \<Rightarrow> int \<Rightarrow> history" where
  "verdict_events pass_text error_text err =
     map Uart (crlf (ascii (if err = 0 then pass_text else error_text))) @
     [Store LED_RG1_ADDR 1, Store LED_RG0_ADDR (if err = 0 then 1 else 2),
      Store LED_ADDR (if err = 0 then 0xffff else 0)]"

definition report_events :: "string \<Rightarrow> u32 \<Rightarrow> u32 \<Rightarrow> history" where
  "report_events name tc tcm =
     [Store NUM_ADDR tcm, Store CONFREG_CR0 tcm, Store CONFREG_CR1 tc] @
     map Uart (crlf (ascii (name @ '': Total Count(SoC count) = 0x'')) @ hex tc @ [13, 10] @
       crlf (ascii (name @ '': Total Count(CPU count) = 0x'')) @ hex tcm @ [13, 10])"

definition shell_events :: "string \<Rightarrow> u32 \<Rightarrow> u32 \<Rightarrow> u32 \<Rightarrow> u8 list \<Rightarrow> u32 \<Rightarrow> u32 \<Rightarrow> int \<Rightarrow> history" where
  "shell_events name flag t0 c0 out c1 t1 err =
     [Store TIMER_ADDR 0, Mtc0 9 0] @ map Uart (crlf (ascii (ln (name @ '' test begin.'')))) @
     timed_events flag t0 c0 out c1 t1 @
     verdict_events (ln (name @ '' PASS!'')) (ln (name @ '' ERROR!!!'')) err @
     report_events name (t1 - t0) (c1 - c0)"

lemma timed_runs_events:
  assumes "\<And>k. k \<in> {1, LOOPTIMES} \<Longrightarrow> all_runs k run s = Some (f k, out k, err k)"
  shows "\<exists>flag t0 c0 c1 t1. let k = (if flag \<noteq> 0 then 1 else LOOPTIMES) in
    timed_runs d (printing run) s h =
      Some (f k, err k, t1 - t0, c1 - c0, h @ timed_events flag t0 c0 (out k) c1 t1)"
proof -
  define t0 where "t0 = mmio d h TIMER_ADDR"
  define h1 where "h1 = h @ [Load TIMER_ADDR t0]"
  define c0 where "c0 = cp0 d h1 9"
  define h2 where "h2 = h1 @ [Mfc0 9 c0]"
  define flag where "flag = mmio d h2 SIMU_FLAG_ADDR"
  define k where "k = (if flag \<noteq> 0 then 1 else LOOPTIMES)"
  define h3 where "h3 = h2 @ [Load SIMU_FLAG_ADDR flag] @ map Uart (out k)"
  define c1 where "c1 = cp0 d h3 9"
  define h4 where "h4 = h3 @ [Mfc0 9 c1]"
  define t1 where "t1 = mmio d h4 TIMER_ADDR"
  have a: "(0xbfb00000 - 0x2000 :: addr) = TIMER_ADDR" by (simp add: TIMER_ADDR_def)
  have "all_runs k run s = Some (f k, out k, err k)" by (rule assms) (simp add: k_def)
  then have "test_runs d (printing run) s h2 = Some (f k, err k, h3)"
    by (simp add: test_runs_def load_def Let_def run_times_all_runs send_def h3_def
      flip: flag_def k_def)
  moreover have "get_count d h = (t0, h1)" "get_count_my d h1 = (c0, h2)"
    "get_count_my d h3 = (c1, h4)" "get_count d h4 = (t1, h4 @ [Load TIMER_ADDR t1])"
    unfolding get_count_def uget_count_def get_count_my_def a
    by (simp_all add: load_def mfc0_def Let_def t0_def h1_def c0_def h2_def c1_def h4_def t1_def)
  ultimately have "timed_runs d (printing run) s h =
      Some (f k, err k, t1 - t0, c1 - c0, h @ timed_events flag t0 c0 (out k) c1 t1)"
    by (simp add: timed_runs_def Let_def timed_events_def h4_def h3_def h2_def h1_def)
  then show ?thesis unfolding Let_def k_def by blast
qed

lemma verdict_eq:
  "plain pass_text \<Longrightarrow> plain error_text \<Longrightarrow>
   verdict m pass_text error_text err h = Some (h @ verdict_events pass_text error_text err)"
  by (simp add: verdict_def verdict_events_def say_plain store_def)

lemma report_eq:
  "plain name \<Longrightarrow> report m name tc tcm h = Some (h @ report_events name tc tcm)"
proof -
  assume p: "plain name"
  have "plain (name @ '': Total Count(SoC count) = 0x'')" "plain (name @ '': Total Count(CPU count) = 0x'')"
    using p by (simp_all add: plain_def)
  note hex = say_hex [OF this(1)] say_hex [OF this(2)]
  have e: "name @ '': Total Count(SoC count) = 0x%x'' = (name @ '': Total Count(SoC count) = 0x'') @ ''%x''"
    "name @ '': Total Count(CPU count) = 0x%x'' = (name @ '': Total Count(CPU count) = 0x'') @ ''%x''" by simp_all
  show ?thesis
    unfolding report_def report_events_def Let_def e hex store_def bind.bind_lunit
    by (simp only: map_append append_assoc append.simps list.map)
qed

lemma shell_result:
  assumes "plain name" "\<And>k. k \<in> {1, LOOPTIMES} \<Longrightarrow> all_runs k run s = Some (f k, out k, err k)"
  shows "\<exists>flag t0 c0 c1 t1. let k = (if flag \<noteq> 0 then 1 else LOOPTIMES) in
    shell d m name (printing run) s h = Some (f k, h @ shell_events name flag t0 c0 (out k) c1 t1 (err k))"
proof -
  let ?b = "ln (name @ '' test begin.'')"
  have p: "plain ?b" "plain (ln (name @ '' PASS!''))" "plain (ln (name @ '' ERROR!!!''))"
    using assms(1) by (simp_all add: plain_def)
  define h1 where "h1 = clear_counts h @ map Uart (crlf (ascii ?b))"
  obtain flag t0 c0 c1 t1 where "let k = (if flag \<noteq> 0 then 1 else LOOPTIMES) in
      timed_runs d (printing run) s h1 = Some (f k, err k, t1 - t0, c1 - c0, h1 @ timed_events flag t0 c0 (out k) c1 t1)"
    using timed_runs_events [OF assms(2)] by metis
  moreover define k where "k = (if flag \<noteq> (0 :: u32) then 1 else LOOPTIMES)"
  ultimately have t: "timed_runs d (printing run) s h1 = Some (f k, err k, t1 - t0, c1 - c0, h1 @ timed_events flag t0 c0 (out k) c1 t1)"
    by (simp only: Let_def)
  have h1: "say m ?b [] (clear_counts h) = Some h1" using say_plain [OF p(1)] by (simp only: h1_def)
  have "shell d m name (printing run) s h = Some (f k, ((h1 @ timed_events flag t0 c0 (out k) c1 t1) @
      verdict_events (ln (name @ '' PASS!'')) (ln (name @ '' ERROR!!!'')) (err k)) @ report_events name (t1 - t0) (c1 - c0))"
    unfolding shell_def Let_def h1 verdict_eq [OF p(2,3)] report_eq [OF assms(1)] by (simp add: h1 t)
  moreover have "h1 = h @ [Store TIMER_ADDR 0, Mtc0 9 0] @ map Uart (crlf (ascii ?b))"
    by (simp add: h1_def clear_counts_def store_def mtc0_def)
  ultimately have "shell d m name (printing run) s h = Some (f k, h @ shell_events name flag t0 c0 (out k) c1 t1 (err k))"
    by (simp only: shell_events_def append_assoc)
  then show ?thesis unfolding Let_def k_def by blast
qed

section \<open>The contract of a benchmark\<close>

text \<open>Every run succeeds, keeps the invariant of the benchmark's state, prints what it may print and
  adds the same number to \<open>err\<close>.\<close>

locale benchmark =
  fixes run :: "'s run"
    and inv :: "'s \<Rightarrow> bool"
    and prints :: "u8 list \<Rightarrow> bool"
    and e :: int
  assumes run_ok: "inv s \<Longrightarrow> \<exists>s' out. run s = Some (s', out, e) \<and> inv s' \<and> prints out"
begin

lemma all_runs_ok:
  "inv s \<Longrightarrow> \<exists>s' outs. all_runs k run s = Some (s', concat outs, int k * e) \<and> inv s' \<and>
     length outs = k \<and> list_all prints outs"
proof (induction k arbitrary: s)
  case 0
  then show ?case by simp
next
  case (Suc k)
  obtain s1 out where r: "run s = Some (s1, out, e)" "inv s1" "prints out" using run_ok [OF Suc.prems] by blast
  obtain s2 outs where "all_runs k run s1 = Some (s2, concat outs, int k * e)" "inv s2"
      "length outs = k" "list_all prints outs" using Suc.IH [OF r(2)] by blast
  with r show ?case by (intro exI [of _ s2] exI [of _ "out # outs"]) (simp add: algebra_simps)
qed

lemma runs:
  assumes "inv s"
  obtains f outs where
    "\<And>k. all_runs k run s = Some (f k, concat (outs k), int k * e)"
    "\<And>k. inv (f k)" "\<And>k. length (outs k) = k" "\<And>k. list_all prints (outs k)"
  using all_runs_ok [OF assms] by metis

lemma timed:
  assumes "inv s"
  shows "\<exists>s' outs flag t0 c0 c1 t1. let k = (if flag \<noteq> 0 then 1 else LOOPTIMES) in
    timed_runs d (printing run) s h = Some (s', int k * e, t1 - t0, c1 - c0, h @ timed_events flag t0 c0 (concat outs) c1 t1) \<and>
    inv s' \<and> length outs = k \<and> list_all prints outs"
proof -
  obtain f outs where r: "\<And>k. all_runs k run s = Some (f k, concat (outs k), int k * e)"
    "\<And>k. inv (f k)" "\<And>k. length (outs k) = k" "\<And>k. list_all prints (outs k)" using runs [OF assms] by blast
  obtain flag t0 c0 c1 t1 where "let k = (if flag \<noteq> 0 then 1 else LOOPTIMES) in
      timed_runs d (printing run) s h = Some (f k, int k * e, t1 - t0, c1 - c0, h @ timed_events flag t0 c0 (concat (outs k)) c1 t1)"
    using timed_runs_events [of run s f "\<lambda>k. concat (outs k)" "\<lambda>k. int k * e" d h, OF r(1)] by blast
  with r(2-4) show ?thesis
    by (intro exI [of _ "f (if flag \<noteq> 0 then 1 else LOOPTIMES)"] exI [of _ "outs (if flag \<noteq> 0 then 1 else LOOPTIMES)"]
      exI [of _ flag] exI [of _ t0] exI [of _ c0] exI [of _ c1] exI [of _ t1]) (simp only: Let_def simp_thms)
qed

lemma shell:
  assumes "plain name" "inv s"
  shows "\<exists>s' outs flag t0 c0 c1 t1. let k = (if flag \<noteq> 0 then 1 else LOOPTIMES) in
    shell d m name (printing run) s h = Some (s', h @ shell_events name flag t0 c0 (concat outs) c1 t1 (int k * e)) \<and>
    inv s' \<and> length outs = k \<and> list_all prints outs"
proof -
  obtain f outs where r: "\<And>k. all_runs k run s = Some (f k, concat (outs k), int k * e)"
    "\<And>k. inv (f k)" "\<And>k. length (outs k) = k" "\<And>k. list_all prints (outs k)" using runs [OF assms(2)] by blast
  obtain flag t0 c0 c1 t1 where "let k = (if flag \<noteq> 0 then 1 else LOOPTIMES) in
      shell d m name (printing run) s h = Some (f k, h @ shell_events name flag t0 c0 (concat (outs k)) c1 t1 (int k * e))"
    using shell_result [of name run s f "\<lambda>k. concat (outs k)" "\<lambda>k. int k * e" d m h, OF assms(1) r(1)] by blast
  with r(2-4) show ?thesis
    by (intro exI [of _ "f (if flag \<noteq> 0 then 1 else LOOPTIMES)"] exI [of _ "outs (if flag \<noteq> 0 then 1 else LOOPTIMES)"]
      exI [of _ flag] exI [of _ t0] exI [of _ c0] exI [of _ c1] exI [of _ t1]) (simp only: Let_def simp_thms)
qed

end

section \<open>Texts of several lines\<close>

lemma says_printed:
  "list_all (\<lambda>(f, a). \<exists>out. printf m f a = Some out) texts \<Longrightarrow> \<exists>out. says m texts h = Some (send out h)"
proof (induction texts arbitrary: h)
  case Nil
  then show ?case by (auto simp: send_def intro: exI [of _ "[]"])
next
  case (Cons t texts)
  obtain f a where t: "t = (f, a)" by (cases t)
  then obtain o1 where "printf m f a = Some o1" using Cons.prems by auto
  moreover obtain o2 where "says m texts (send o1 h) = Some (send o2 (send o1 h))"
    using Cons by auto
  moreover have "send o2 (send o1 h) = send (o1 @ o2) h" by (simp add: send_def)
  ultimately show ?case by (auto simp: t say_def)
qed

lemma says_ok:
  "list_all (\<lambda>(f, a). 0 \<notin> set (ascii f) \<and> (\<exists>out. fmt_spec m f a = Some out)) texts \<Longrightarrow>
   \<exists>out. says m texts h = Some (send out h)"
  by (rule says_printed) (fastforce simp: list_all_iff dest: printf_fmt_spec)

section \<open>The clock and the delay\<close>

lemma clock_said: "\<exists>out. say m (ln ''clock ns=%d,sec=%d'') [v, w] h = Some (send out h)"
proof -
  obtain o1 o2 where "printbase v 1 10 True = Some o1" "printbase w 1 10 True = Some o2"
    using printbase_total [of 10 v 1 True] printbase_total [of 10 w 1 True] by auto
  then have "\<exists>out. printf m (ln ''clock ns=%d,sec=%d'') [v, w] = Some out" by (simp add: printf_eval)
  then show ?thesis unfolding say_def by auto
qed

lemma uget_count_eq: "uget_count d h = (mmio d h TIMER_ADDR, h @ [Load TIMER_ADDR (mmio d h TIMER_ADDR)])"
  by (simp add: uget_count_def load_def TIMER_ADDR_def Let_def)

lemma get_ns_eq: "get_ns d h = (mmio d h TIMER_ADDR * 10, h @ [Load TIMER_ADDR (mmio d h TIMER_ADDR)])"
  by (simp add: get_ns_def uget_count_eq)

text \<open>The history after \<open>n\<close> readings of the cycle counter.\<close>

fun polls :: "device \<Rightarrow> history \<Rightarrow> nat \<Rightarrow> history" where
  "polls d h 0 = h"
| "polls d h (Suc n) = snd (mfc0 d 9 (polls d h n))"

lemma polls_shift: "polls d (snd (mfc0 d 9 h)) n = polls d h (Suc n)"
  by (induction n) simp_all

lemma udelay_loop_step:
  "udelay_loop d c0 us h =
     (if cp0 d h 9 - c0 <s us then udelay_loop d c0 us (snd (mfc0 d 9 h)) else Some (snd (mfc0 d 9 h)))"
  by (subst udelay_loop.simps) (simp add: mfc0_def Let_def)

lemma udelay_loop_ends:
  "\<not> cp0 d (polls d h n) 9 - c0 <s us \<Longrightarrow> \<forall>k<n. cp0 d (polls d h k) 9 - c0 <s us \<Longrightarrow>
   udelay_loop d c0 us h = Some (polls d h (Suc n))"
proof (induction n arbitrary: h)
  case 0
  then show ?case by (subst udelay_loop_step) simp
next
  case (Suc n)
  have "udelay_loop d c0 us (snd (mfc0 d 9 h)) = Some (polls d (snd (mfc0 d 9 h)) (Suc n))"
    using Suc.prems by (intro Suc.IH) (auto simp: polls_shift)
  moreover have "cp0 d h 9 - c0 <s us" using Suc.prems(2) by force
  ultimately show ?case by (subst udelay_loop_step) (simp only: polls_shift if_True)
qed

lemma udelay_loop_only_ends:
  "udelay_loop d c0 us h = Some h' \<Longrightarrow> \<exists>n. \<not> cp0 d (polls d h n) 9 - c0 <s us"
proof (rule udelay_loop.raw_induct [of "\<lambda>d c0 us h h'. \<exists>n. \<not> cp0 d (polls d h n) 9 - c0 <s us"])
  fix loop d c0 us h h'
  assume IH: "\<And>d c0 us h h'. loop d c0 us h = Some h' \<Longrightarrow> \<exists>n. \<not> cp0 d (polls d h n) 9 - c0 <s us"
    and s: "(let (count1, h1) = mfc0 d 9 h in if count1 - c0 <s us then loop d c0 us h1 else Some h1) = Some h'"
  show "\<exists>n. \<not> cp0 d (polls d h n) 9 - c0 <s us"
  proof (cases "cp0 d h 9 - c0 <s us")
    case True
    with s have "loop d c0 us (snd (mfc0 d 9 h)) = Some h'" by (simp add: mfc0_def Let_def)
    then obtain n where "\<not> cp0 d (polls d (snd (mfc0 d 9 h)) n) 9 - c0 <s us" using IH by blast
    then show ?thesis unfolding polls_shift by blast
  next
    case False
    then show ?thesis by (intro exI [of _ 0]) simp
  qed
qed

lemma udelay_loop_eq:
  "udelay_loop d c0 us h =
     (if \<exists>n. \<not> cp0 d (polls d h n) 9 - c0 <s us
      then Some (polls d h (Suc (LEAST n. \<not> cp0 d (polls d h n) 9 - c0 <s us))) else None)"
proof (cases "\<exists>n. \<not> cp0 d (polls d h n) 9 - c0 <s us")
  case True
  let ?n = "LEAST n. \<not> cp0 d (polls d h n) 9 - c0 <s us"
  have "\<not> cp0 d (polls d h ?n) 9 - c0 <s us" using True by (rule LeastI_ex)
  moreover have "\<forall>k<?n. cp0 d (polls d h k) 9 - c0 <s us" using not_less_Least by blast
  ultimately show ?thesis using True by (simp only: udelay_loop_ends if_True)
next
  case False
  then show ?thesis using udelay_loop_only_ends [of d c0 us h] by (cases "udelay_loop d c0 us h") auto
qed

section \<open>Properties\<close>

text \<open>\<open>clock_gettime\<close> splits the microseconds of the timer into milliseconds and microseconds, but
  the seconds it stores are always 0 (it divides the microseconds by \<open>NSEC_PER_SEC\<close>).\<close>

theorem clock_gettime_result:
  "\<exists>t h'. clock_gettime d m h = Some (t, 0, h') \<and> tv_sec t = 0 \<and>
     unat (mmio d h TIMER_ADDR) div 100 mod 1000000 = 1000 * unat (tv_msec t) + unat (tv_usec t) \<and>
     unat (tv_usec t) < 1000 \<and> unat (tv_msec t) < 1000 \<and> unat (tv_nsec t) < 1000"
proof -
  define n where "n = mmio d h TIMER_ADDR"
  define t where "t = \<lparr>tv_sec = n div 100 div 1000000000, tv_nsec = n * (1000 div 100) mod 1000,
      tv_usec = n div 100 mod 1000, tv_msec = n div 100 div 1000 mod 1000\<rparr>"
  have "unat n < 4294967296" using unsigned_less [of n, where 'a = nat] by simp
  then have "unat n div 100 div 1000000000 = 0" by simp
  then have "unat (tv_sec t) = 0" by (simp add: t_def unat_div)
  then have "tv_sec t = 0" by (simp add: unat_eq_zero)
  moreover have "unat n div 100 mod 1000000 = 1000 * unat (tv_msec t) + unat (tv_usec t)"
    using mod_mult2_eq [of "unat n div 100" 1000 1000] by (simp add: t_def unat_div unat_mod)
  moreover have "unat (tv_usec t) < 1000" "unat (tv_msec t) < 1000" "unat (tv_nsec t) < 1000"
    by (simp_all add: t_def unat_mod)
  moreover obtain out where "say m (ln ''clock ns=%d,sec=%d'') [tv_nsec t, tv_sec t] (h @ [Load TIMER_ADDR n])
      = Some (send out (h @ [Load TIMER_ADDR n]))" using clock_said by blast
  then have "\<exists>h'. clock_gettime d m h = Some (t, 0, h')"
    unfolding clock_gettime_def uget_count_eq n_def [symmetric] Let_def t_def [symmetric] prod.case by simp
  ultimately show ?thesis unfolding n_def by blast
qed

text \<open>C28: \<open>udelay\<close> reads the cycle counter until its distance from the first reading is no longer
  (as signed numbers) below \<open>100 * us\<close>, and returns exactly if some reading is that far.\<close>

theorem udelay_result:
  "udelay d us h =
     (let c0 = cp0 d h 9; h1 = h @ [Mfc0 9 c0]
      in if \<exists>n. \<not> cp0 d (polls d h1 n) 9 - c0 <s us * 100
         then Some (polls d h1 (Suc (LEAST n. \<not> cp0 d (polls d h1 n) 9 - c0 <s us * 100)) @ [Mtc0 23 0])
         else None)"
  by (simp add: udelay_def mfc0_def mtc0_def Let_def udelay_loop_eq del: polls.simps)

section \<open>The contract of a test that passes\<close>

primrec stores_to :: "event \<Rightarrow> addr option" where
  "stores_to (Uart b) = None"
| "stores_to (Store a v) = Some a"
| "stores_to (Load a v) = None"
| "stores_to (Mtc0 r v) = None"
| "stores_to (Mfc0 r v) = None"

definition no_store :: "history \<Rightarrow> bool" where
  "no_store es \<longleftrightarrow> list_all (\<lambda>e. stores_to e = None) es"

lemma no_store_append [simp]: "no_store (es @ fs) \<longleftrightarrow> no_store es \<and> no_store fs"
  and no_store_Nil [simp]: "no_store []"
  and no_store_uart [simp]: "no_store (map Uart bs)"
  and no_store_load [simp]: "no_store (Load a v # es) = no_store es"
  by (auto simp: no_store_def list_all_iff)

text \<open>A test that may also read registers: it adds events, none of them a store, and no errors.\<close>

locale passing_test =
  fixes test :: "'s test"
    and inv :: "'s \<Rightarrow> bool"
  assumes test_ok: "inv s \<Longrightarrow> \<exists>s' es. test s h = Some (s', 0, h @ es) \<and> inv s' \<and> no_store es"
begin

lemma run_times_ok:
  "inv s \<Longrightarrow> \<exists>s' es. run_times k test s err h = Some (s', err, h @ es) \<and> inv s' \<and> no_store es"
proof (induction k arbitrary: s h)
  case 0
  then show ?case by (auto intro: exI [of _ "[]"])
next
  case (Suc k)
  obtain s1 es where t: "test s h = Some (s1, 0, h @ es)" "inv s1" "no_store es" using test_ok [OF Suc.prems] by blast
  obtain s2 fs where "run_times k test s1 err (h @ es) = Some (s2, err, (h @ es) @ fs)" "inv s2" "no_store fs"
    using Suc.IH [OF t(2)] by blast
  with t show ?case by (intro exI [of _ s2] exI [of _ "es @ fs"]) simp
qed

lemma timed_ok:
  assumes "inv s"
  shows "\<exists>s' es flag t0 c0 c1 t1. timed_runs d test s h =
      Some (s', 0, t1 - t0, c1 - c0, h @ [Load TIMER_ADDR t0, Mfc0 9 c0, Load SIMU_FLAG_ADDR flag] @ es @
        [Mfc0 9 c1, Load TIMER_ADDR t1]) \<and> inv s' \<and> no_store es"
proof -
  define t0 where "t0 = mmio d h TIMER_ADDR"
  define h1 where "h1 = h @ [Load TIMER_ADDR t0]"
  define c0 where "c0 = cp0 d h1 9"
  define h2 where "h2 = h1 @ [Mfc0 9 c0]"
  define flag where "flag = mmio d h2 SIMU_FLAG_ADDR"
  obtain s' es where r: "run_times (if flag \<noteq> 0 then 1 else LOOPTIMES) test s 0 (h2 @ [Load SIMU_FLAG_ADDR flag]) =
      Some (s', 0, (h2 @ [Load SIMU_FLAG_ADDR flag]) @ es)" "inv s'" "no_store es"
    using run_times_ok [OF assms] by metis
  define h3 where "h3 = (h2 @ [Load SIMU_FLAG_ADDR flag]) @ es"
  define c1 where "c1 = cp0 d h3 9"
  define h4 where "h4 = h3 @ [Mfc0 9 c1]"
  define t1 where "t1 = mmio d h4 TIMER_ADDR"
  have a: "(0xbfb00000 - 0x2000 :: addr) = TIMER_ADDR" by (simp add: TIMER_ADDR_def)
  have "test_runs d test s h2 = Some (s', 0, h3)"
    unfolding test_runs_def load_def Let_def prod.case flag_def [symmetric] r(1) h3_def ..
  moreover have "get_count d h = (t0, h1)" "get_count_my d h1 = (c0, h2)"
    "get_count_my d h3 = (c1, h4)" "get_count d h4 = (t1, h4 @ [Load TIMER_ADDR t1])"
    unfolding get_count_def uget_count_def get_count_my_def a
    by (simp_all add: load_def mfc0_def Let_def t0_def h1_def c0_def h2_def c1_def h4_def t1_def)
  ultimately have "timed_runs d test s h = Some (s', 0, t1 - t0, c1 - c0,
      h @ [Load TIMER_ADDR t0, Mfc0 9 c0, Load SIMU_FLAG_ADDR flag] @ es @ [Mfc0 9 c1, Load TIMER_ADDR t1])"
    by (simp add: timed_runs_def Let_def h4_def) (simp add: h3_def h2_def h1_def)
  with r show ?thesis by blast
qed

lemma shell_ok:
  assumes n: "plain name" and s: "inv s"
  shows "\<exists>s' es flag t0 c0 c1 t1. shell d m name test s h = Some (s', h @
      [Store TIMER_ADDR 0, Mtc0 9 0] @ map Uart (crlf (ascii (ln (name @ '' test begin.'')))) @
      [Load TIMER_ADDR t0, Mfc0 9 c0, Load SIMU_FLAG_ADDR flag] @ es @ [Mfc0 9 c1, Load TIMER_ADDR t1] @
      verdict_events (ln (name @ '' PASS!'')) (ln (name @ '' ERROR!!!'')) 0 @
      report_events name (t1 - t0) (c1 - c0)) \<and> inv s' \<and> no_store es"
proof -
  let ?b = "ln (name @ '' test begin.'')"
  have p: "plain ?b" "plain (ln (name @ '' PASS!''))" "plain (ln (name @ '' ERROR!!!''))"
    using n by (simp_all add: plain_def)
  define h1 where "h1 = clear_counts h @ map Uart (crlf (ascii ?b))"
  obtain s' es flag t0 c0 c1 t1 where t: "timed_runs d test s h1 =
      Some (s', 0, t1 - t0, c1 - c0, h1 @ [Load TIMER_ADDR t0, Mfc0 9 c0, Load SIMU_FLAG_ADDR flag] @ es @
        [Mfc0 9 c1, Load TIMER_ADDR t1])" "inv s'" "no_store es"
    using timed_ok [OF s] by blast
  have h1: "say m ?b [] (clear_counts h) = Some h1" using say_plain [OF p(1)] by (simp only: h1_def)
  have "shell d m name test s h = Some (s', ((h1 @ [Load TIMER_ADDR t0, Mfc0 9 c0, Load SIMU_FLAG_ADDR flag] @ es @
        [Mfc0 9 c1, Load TIMER_ADDR t1]) @
      verdict_events (ln (name @ '' PASS!'')) (ln (name @ '' ERROR!!!'')) 0) @ report_events name (t1 - t0) (c1 - c0))"
    unfolding shell_def Let_def h1 verdict_eq [OF p(2,3)] report_eq [OF n] by (simp add: h1 t)
  moreover have "h1 = h @ [Store TIMER_ADDR 0, Mtc0 9 0] @ map Uart (crlf (ascii ?b))"
    by (simp add: h1_def clear_counts_def store_def mtc0_def)
  ultimately show ?thesis using t(2,3) by (simp only: append_assoc) blast
qed

end

end
