(* ===== verification/Shells.thy ===== *)
theory Shells
  imports Board Bitcount Sorts Crc32 Sha Search
begin

text \<open>
  The test shells of \<^verbatim>\<open>bench\<close>: each clears the counters, runs its benchmark once or
  \<open>LOOPTIMES\<close> times, compares its result with the expected one, shows the verdict on the LEDs and
  prints the counts.  Shell 3 (CoreMark) and shell 5 (Dhrystone) are with their benchmarks.  The
  main theorems give the whole history of events of a shell.
\<close>

section \<open>Sorting literal lists\<close>

text \<open>A merge sort whose equations evaluate quickly on lists of numerals.\<close>

fun merge :: "int list \<Rightarrow> int list \<Rightarrow> int list" where
  "merge (x # xs) (y # ys) = (if x \<le> y then x # merge xs (y # ys) else y # merge (x # xs) ys)"
| "merge xs [] = xs"
| "merge [] ys = ys"

lemma merge_eval:
  "x \<le> y \<Longrightarrow> merge (x # xs) (y # ys) = x # merge xs (y # ys)"
  "y < x \<Longrightarrow> merge (x # xs) (y # ys) = y # merge (x # xs) ys"
  "merge [] ys = ys"
  by (simp_all, cases ys, simp_all)

lemma mset_merge [simp]: "mset (merge xs ys) = mset xs + mset ys"
  by (induction xs ys rule: merge.induct) simp_all

lemma set_merge [simp]: "set (merge xs ys) = set xs \<union> set ys"
  by (metis mset_merge set_mset_mset set_mset_union)

lemma sorted_merge: "sorted xs \<Longrightarrow> sorted ys \<Longrightarrow> sorted (merge xs ys)"
  by (induction xs ys rule: merge.induct) (auto simp: not_le intro: less_imp_le order_trans)

fun merge_pairs :: "int list list \<Rightarrow> int list list" where
  "merge_pairs (x # y # r) = merge x y # merge_pairs r"
| "merge_pairs [x] = [x]"
| "merge_pairs [] = []"

lemma length_merge_pairs: "length (merge_pairs xss) \<le> length xss"
  by (induction xss rule: merge_pairs.induct) simp_all

function merge_rounds :: "int list list \<Rightarrow> int list" where
  "merge_rounds [] = []"
| "merge_rounds [x] = x"
| "merge_rounds (x # y # r) = merge_rounds (merge_pairs (x # y # r))"
  by pat_completeness auto
termination
  by (relation "measure length") (simp_all add: less_Suc_eq_le length_merge_pairs)

lemma merge_pairs_ok:
  "(\<forall>x\<in>set xss. sorted x) \<Longrightarrow> (\<forall>x\<in>set (merge_pairs xss). sorted x) \<and>
   mset (concat (merge_pairs xss)) = mset (concat xss)"
  by (induction xss rule: merge_pairs.induct) (simp_all add: sorted_merge)

lemma merge_rounds_ok:
  "(\<forall>x\<in>set xss. sorted x) \<Longrightarrow> sorted (merge_rounds xss) \<and> mset (merge_rounds xss) = mset (concat xss)"
proof (induction xss rule: merge_rounds.induct)
  case (3 x y r)
  have "\<forall>z\<in>set (merge_pairs (x # y # r)). sorted z" "mset (concat (merge_pairs (x # y # r))) = mset (concat (x # y # r))"
    using merge_pairs_ok [OF 3(2)] by blast+
  with 3(1) show ?case by (simp del: merge_pairs.simps)
qed simp_all

lemma sort_merge_rounds: "sort xs = merge_rounds (map (\<lambda>x. [x]) xs)"
proof (rule properties_for_sort)
  have "\<forall>x\<in>set (map (\<lambda>x. [x]) xs). sorted x" by simp
  note ok = merge_rounds_ok [OF this]
  have "concat (map (\<lambda>x. [x]) xs) = xs" by (induction xs) simp_all
  with ok show "mset (merge_rounds (map (\<lambda>x. [x]) xs)) = mset xs" by simp
  show "sorted (merge_rounds (map (\<lambda>x. [x]) xs))" using ok by blast
qed

lemmas sort_eval = sort_merge_rounds list.map merge_rounds.simps merge_pairs.simps merge_eval merge.simps(2) rel_simps

section \<open>The arrays of the shells\<close>

definition bubble_a :: "int list" where
  "bubble_a =
    [18361, 25784, 6605, 26590, 22618, 15285, 27647, 23843, 16362, 10047, 16750, 10588, 27793,
     20888, 27352, 6613, 6426, 9475, 1198, 17530, 23329, 31946, 17543, 42, 21700, 8569, 15002,
     4705, 12988, 27549, 19075, 24352, 19489, 17567, 12310, 5363, 30347, 17034, 31029, 8821, 27399,
     14673, 5216, 15979, 26439, 29891, 25161, 14524, 18559, 13036, 9790, 18401, 2223, 16069, 7917,
     4284, 10022, 26104, 14827, 2867, 18285, 1073, 26236, 24110, 10506, 24816, 24846, 6813, 21026,
     27498, 1618, 9173, 3264, 20262, 28522, 9796, 22268, 23679, 21324, 14882, 19599, 21158, 12181,
     5101, 25414, 6808, 8534, 9282, 10802, 27835, 28598, 10331, 4015, 19630, 20789, 32664, 22681,
     11411, 29913, 25229, 6165, 3426, 17535, 31632, 19593, 30505, 15223, 2318, 14036, 20900, 7556,
     25432, 16015, 8758, 4713, 26187, 19900, 5130, 16473, 19631, 32670, 24508, 20314, 7631, 13785,
     16126, 20449, 28518, 9821, 15831, 3234, 30579, 19535, 22706, 4768, 1923, 18616, 13435, 32295,
     28430, 543, 30101, 4202, 15992, 28713, 20597, 14893, 27908, 20386, 9488, 27977, 27549, 9303,
     24865, 25073, 19337, 11325, 5301, 12619, 24167, 23461, 21817, 8405, 4121, 29052, 6111, 24844,
     24437, 31551, 3907, 9170, 16647, 27220, 15102, 9530, 2249, 24399, 18465, 5493, 17119, 20611,
     20390, 19773, 28, 18161, 6403, 12863, 1593, 10843, 22910, 4724, 11134, 4153, 5452, 18690,
     16416, 1906, 24535, 16446, 23820]"

definition bubble_a_ref :: "int list" where
  "bubble_a_ref =
    [28, 42, 543, 1073, 1198, 1593, 1618, 1906, 1923, 2223, 2249, 2318, 2867, 3234, 3264, 3426,
     3907, 4015, 4121, 4153, 4202, 4284, 4705, 4713, 4724, 4768, 5101, 5130, 5216, 5301, 5363,
     5452, 5493, 6111, 6165, 6403, 6426, 6605, 6613, 6808, 6813, 7556, 7631, 7917, 8405, 8534,
     8569, 8758, 8821, 9170, 9173, 9282, 9303, 9475, 9488, 9530, 9790, 9796, 9821, 10022, 10047,
     10331, 10506, 10588, 10802, 10843, 11134, 11325, 11411, 12181, 12310, 12619, 12863, 12988,
     13036, 13435, 13785, 14036, 14524, 14673, 14827, 14882, 14893, 15002, 15102, 15223, 15285,
     15831, 15979, 15992, 16015, 16069, 16126, 16362, 16416, 16446, 16473, 16647, 16750, 17034,
     17119, 17530, 17535, 17543, 17567, 18161, 18285, 18361, 18401, 18465, 18559, 18616, 18690,
     19075, 19337, 19489, 19535, 19593, 19599, 19630, 19631, 19773, 19900, 20262, 20314, 20386,
     20390, 20449, 20597, 20611, 20789, 20888, 20900, 21026, 21158, 21324, 21700, 21817, 22268,
     22618, 22681, 22706, 22910, 23329, 23461, 23679, 23820, 23843, 24110, 24167, 24352, 24399,
     24437, 24508, 24535, 24816, 24844, 24846, 24865, 25073, 25161, 25229, 25414, 25432, 25784,
     26104, 26187, 26236, 26439, 26590, 27220, 27352, 27399, 27498, 27549, 27549, 27647, 27793,
     27835, 27908, 27977, 28430, 28518, 28522, 28598, 28713, 29052, 29891, 29913, 30101, 30347,
     30505, 30579, 31029, 31551, 31632, 31946, 32295, 32664, 32670]"

definition select_a :: "int list" where
  "select_a =
    [1846, 8759, 2212, 32551, 599, 24111, 14573, 9568, 32754, 3615, 13647, 5624, 3270, 24971, 2412,
     23450, 31302, 13737, 10042, 4344, 23792, 21651, 9744, 1118, 22727, 9418, 27218, 28384, 741,
     9552, 24236, 4217, 18331, 26948, 18266, 7759, 6084, 29276, 17319, 17591, 7008, 3064, 29484,
     8365, 29089, 14748, 20762, 20371, 31222, 18637, 10655, 12153, 25911, 14817, 760, 6243, 26599,
     5373, 15219, 11143, 30279, 23782, 10629, 1498, 2582, 27952, 4692, 26974, 25458, 6180, 3701,
     32659, 17635, 20402, 2849, 25274, 24304, 9406, 23357, 18562, 28701, 7710, 25780, 1524, 2137,
     11351, 20735, 13376, 29907, 7599, 29598, 23772, 18826, 20662, 14849, 20621, 5702, 8980, 11544,
     16812, 14580, 30914, 24374, 10060, 12695, 30240, 26933, 23265, 15744, 17352, 17498, 20135,
     4304, 20, 18077, 16624, 3301, 26416, 10765, 5235, 15650, 14828, 31201, 28773, 15363, 12074,
     11213, 19463, 12216, 7626, 28333, 17656, 19567, 18211, 2213, 16818, 17937, 18840, 24196,
     29115, 19086, 3145, 22418, 3758, 331, 8881, 27051, 13753, 14492, 21686, 5620, 29542, 2811,
     14049, 11791, 31374, 8446, 21295, 171, 11406, 26004, 4959, 31477, 9895, 27717, 26014, 10630,
     30780, 2079, 28466, 26714, 6106, 17590, 24342, 29043, 1976, 25331, 29158, 1583, 12928, 6071,
     17581, 28865, 13210, 28009, 20784, 27309, 19499, 25346, 22921, 28565, 24371, 20989, 25661,
     12137, 17434, 16928, 2064, 7383, 16781]"

definition select_a_ref :: "int list" where
  "select_a_ref =
    [20, 171, 331, 599, 741, 760, 1118, 1498, 1524, 1583, 1846, 1976, 2064, 2079, 2137, 2212, 2213,
     2412, 2582, 2811, 2849, 3064, 3145, 3270, 3301, 3615, 3701, 3758, 4217, 4304, 4344, 4692,
     4959, 5235, 5373, 5620, 5624, 5702, 6071, 6084, 6106, 6180, 6243, 7008, 7383, 7599, 7626,
     7710, 7759, 8365, 8446, 8759, 8881, 8980, 9406, 9418, 9552, 9568, 9744, 9895, 10042, 10060,
     10629, 10630, 10655, 10765, 11143, 11213, 11351, 11406, 11544, 11791, 12074, 12137, 12153,
     12216, 12695, 12928, 13210, 13376, 13647, 13737, 13753, 14049, 14492, 14573, 14580, 14748,
     14817, 14828, 14849, 15219, 15363, 15650, 15744, 16624, 16781, 16812, 16818, 16928, 17319,
     17352, 17434, 17498, 17581, 17590, 17591, 17635, 17656, 17937, 18077, 18211, 18266, 18331,
     18562, 18637, 18826, 18840, 19086, 19463, 19499, 19567, 20135, 20371, 20402, 20621, 20662,
     20735, 20762, 20784, 20989, 21295, 21651, 21686, 22418, 22727, 22921, 23265, 23357, 23450,
     23772, 23782, 23792, 24111, 24196, 24236, 24304, 24342, 24371, 24374, 24971, 25274, 25331,
     25346, 25458, 25661, 25780, 25911, 26004, 26014, 26416, 26599, 26714, 26933, 26948, 26974,
     27051, 27218, 27309, 27717, 27952, 28009, 28333, 28384, 28466, 28565, 28701, 28773, 28865,
     29043, 29089, 29115, 29158, 29276, 29484, 29542, 29598, 29907, 30240, 30279, 30780, 30914,
     31201, 31222, 31302, 31374, 31477, 32551, 32659, 32754]"

definition quick_a :: "int list" where
  "quick_a =
    [18361, 25784, 6605, 26590, 22618, 15285, 27647, 23843, 16362, 10047, 16750, 10588, 27793,
     20888, 27352, 6613, 6426, 9475, 1198, 17530, 23329, 31946, 17543, 42, 21700, 8569, 15002,
     4705, 12988, 27549, 19075, 24352, 19489, 17567, 12310, 5363, 30347, 17034, 31029, 8821, 27399,
     14673, 5216, 15979, 26439, 29891, 25161, 14524, 18559, 13036, 9790, 18401, 2223, 16069, 7917,
     4284, 10022, 26104, 14827, 2867, 18285, 1073, 26236, 24110, 10506, 24816, 24846, 6813, 21026,
     27498, 1618, 9173, 3264, 20262, 28522, 9796, 22268, 23679, 21324, 14882, 19599, 21158, 12181,
     5101, 25414, 6808, 8534, 9282, 10802, 27835, 28598, 10331, 4015, 19630, 20789, 32664, 22681,
     11411, 29913, 25229, 6165, 3426, 17535, 31632, 19593, 30505, 15223, 2318, 14036, 20900, 7556,
     25432, 16015, 8758, 4713, 26187, 19900, 5130, 16473, 19631, 32670, 24508, 20314, 7631, 13785,
     16126, 20449, 28518, 9821, 15831, 3234, 30579, 19535, 22706, 4768, 1923, 18616, 13435, 32295,
     28430, 543, 30101, 4202, 15992, 28713, 20597, 14893, 27908, 20386, 9488, 27977, 27549, 9303,
     24865, 25073, 19337, 11325, 5301, 12619, 24167, 23461, 21817, 8405, 4121, 29052, 6111, 24844,
     24437, 31551, 3907, 9170, 16647, 27220, 15102, 9530, 2249, 24399, 18465, 5493, 17119, 20611,
     20390, 19773, 28, 18161, 6403, 12863, 1593, 10843, 22910, 4724, 11134, 4153, 5452, 18690,
     16416, 1906, 24535, 16446, 23820, 19100, 28521, 27774, 20718, 14827, 12463, 23005, 25687,
     16010, 29026, 25342, 5468, 28703, 15710, 27848, 32283, 26420, 15317, 18639, 21943, 19840,
     17255, 28696, 24357, 20606, 9486, 937, 4160, 4981, 7019, 22000, 17665, 31013, 4260, 10617,
     30818, 18182, 7565, 16832, 20498, 7177, 14293, 19961, 24223, 18518, 25822, 22471, 8, 19380,
     23623, 2202, 21965, 21102, 26895, 7429, 30068, 21648, 2980, 335, 5098, 6690, 29231, 6012,
     9279, 356, 30010, 31377, 8133, 28387, 18782, 2760, 9452, 23837, 17550, 29237, 7372, 20642,
     3499, 32400, 16192, 12653, 12849, 21572, 30565, 18887, 22554, 21152, 15598, 22057, 30934,
     23777, 24037, 5602, 24896, 22587, 15571, 7570, 8792, 27830, 28464, 2113, 5274, 19172, 26597,
     4048, 31537, 30282, 14226, 5963, 3575, 32162, 15801, 28447, 140, 14435, 2747, 15940, 4298,
     28193, 23730, 22763, 22864, 28774, 26263, 3902, 27368, 19678, 18963, 21464, 13172, 10679,
     23995, 26474, 1846, 8759, 2212, 32551, 599, 24111, 14573, 9568, 32754, 3615, 13647, 5624,
     3270, 24971, 2412, 23450, 31302, 13737, 10042, 4344, 23792, 21651, 9744, 1118, 22727, 9418,
     27218, 28384, 741, 9552, 24236, 4217, 18331, 26948, 18266, 7759, 6084, 29276, 17319, 17591,
     7008, 3064, 29484, 8365, 29089, 14748, 20762, 20371, 31222, 18637, 10655, 12153, 25911, 14817,
     760, 6243, 26599, 5373, 15219, 11143, 30279, 23782, 10629, 1498, 2582, 27952, 4692, 26974,
     25458, 6180, 3701, 32659, 17635, 20402, 2849, 25274, 24304, 9406, 23357, 18562, 28701, 7710,
     25780, 1524, 2137, 11351, 20735, 13376, 29907, 7599, 29598, 23772, 18826, 20662, 14849, 20621,
     5702, 8980, 11544, 16812, 14580, 30914, 24374, 10060, 12695, 30240, 26933, 23265, 15744,
     17352, 17498, 20135, 4304, 20, 18077, 16624, 3301, 26416, 10765, 5235, 15650, 14828, 31201,
     28773, 15363, 12074, 11213, 19463, 12216, 7626, 28333, 17656, 19567, 18211, 2213, 16818,
     17937, 18840, 24196, 29115, 19086, 3145, 22418, 3758, 331, 8881, 27051, 13753, 14492, 21686,
     5620, 29542, 2811, 14049, 11791, 31374, 8446, 21295, 171, 11406, 26004, 4959, 31477, 9895,
     27717, 26014, 10630, 30780, 2079, 28466, 26714, 6106, 17590, 24342, 29043, 1976, 25331, 29158,
     1583, 12928, 6071, 17581, 28865, 13210, 28009, 20784, 27309, 19499, 25346, 22921, 28565,
     24371, 20989, 25661, 12137, 17434, 16928, 2064, 7383, 16781, 22027, 3396, 4464, 6054, 12919,
     19402, 3712, 6782, 32083, 9418, 32479, 3305, 24726, 19060, 12909, 20922, 19190, 12266, 31608,
     19404, 31581, 22331, 3954, 23414, 28587, 27314, 6131, 5511, 29261, 19165, 17151, 12790, 20667,
     20072, 24464, 8549, 8734, 9563, 13697, 23370, 7305, 4337, 5331, 32101, 5627, 26032, 20949,
     9635, 7494, 1480, 21359, 28744, 23256, 25455, 23379, 72, 8557, 20315, 6111, 28786, 27823,
     32726, 5890, 23936, 15676, 26132, 23521, 21952, 21332, 23018, 25613, 22490, 19980, 18174,
     29259, 21929, 32663, 27343, 30842, 14552, 5854, 5961, 4301, 21307, 5022, 3953, 2151, 22275,
     10797, 4218, 27467, 10812, 31936, 26645, 29079, 14373, 9988, 12351, 14128, 25859, 20555,
     12644, 23079, 30907, 32457, 2368, 31622, 25750, 31918, 11738, 1921, 32209, 31463, 8812, 4015,
     29293, 11332, 19249, 7770, 27392, 28268, 9899, 30045, 19217, 3801, 28002, 32616, 9388, 28039,
     23772, 10169, 1520, 31886, 1950, 15888, 14119, 5672, 23563, 2543, 21167, 3185, 10804, 27142,
     26312, 347, 18389, 4863, 21184, 26380, 2864, 7285, 7884, 9476, 29547, 11557, 7128, 22472,
     16696, 24750, 31432, 14132, 27344, 10428, 457, 31256, 24076, 4174, 18715, 14206, 2315, 26588,
     20993, 25397, 31903, 30534, 25304, 12516, 1984, 5463, 9284, 19233, 12060, 32211, 22643, 13078,
     9933, 3340, 22387, 7052, 10172, 29558, 7875, 28161, 23737, 6773, 16088, 7629, 9709, 7218,
     14952, 19326, 1547, 27570, 7565, 19076, 23355, 17078, 2736, 28025, 27888, 8276, 17470, 6836,
     16311, 20254, 4378, 27687, 6910, 15950, 7444, 14909, 9320, 30507, 897, 14089, 3394, 11101,
     4647, 32438, 14317, 26071, 11819, 12056, 12029, 2749, 18620, 26555, 21313, 5899, 29927, 3681,
     18781, 6492, 6078, 27068, 25942, 12691, 296, 3191, 227, 387, 24916, 4274, 16784, 8813, 18832,
     16046, 14526, 3237, 28320, 6649, 28356, 23302, 8740, 15353, 31081, 4438, 597, 22616, 19714,
     5051, 31653, 26512, 26618, 28501, 24151, 23735, 9786, 22530, 12114, 31329, 12084, 16310, 6264,
     2935, 26102, 18118, 12128, 29778, 30669, 26863, 30002, 28063, 15537, 11253, 797, 1977, 12794,
     21066, 7896, 12653, 4165, 25848, 4475, 22378, 6214, 22527, 17868, 10283, 31710, 791, 11574,
     24006, 8950, 2544, 8659, 19087, 4920, 6184, 13590, 25766, 2813, 15107, 2049, 17820, 24626,
     3792, 16481, 15923, 12153, 21888, 619, 27607, 11335, 9571, 11509, 15583, 32416, 26258, 6498,
     10724, 31493, 23770, 17050, 16073, 13640, 14960, 13997, 15455, 14500, 14277, 7179, 26554, 459,
     30202, 11643, 1952, 17685, 3079, 21575, 19132, 14610, 31624, 25251, 23470, 13038, 23314,
     13782, 16378, 21553, 9029, 11935, 2603, 24128, 26285, 1658, 29441, 3681, 14540, 31382, 24257,
     4221, 13759, 15049, 1055, 23316, 15803, 32617, 25773, 17756, 27469, 18021, 15717, 27446,
     21166, 26014, 10474, 27290, 29485, 18048, 11796, 27532, 29054, 10298, 6384, 27273, 7218,
     18523, 32454, 11145, 20550, 31100, 4945, 23427, 11621, 30388, 19151, 11485, 2842, 2086, 18222,
     27660, 20772, 17907, 877, 16612, 4300, 28980, 12827, 19865, 13052, 6848, 28159, 17392, 27934,
     3305, 21843, 27323, 28800, 16178, 7090, 27367, 2917, 26051, 10275, 28310, 25897, 14277, 5242,
     5698, 5617, 9129, 27250, 1372, 5396, 31126, 8303, 29941, 15439, 9628, 21573, 18302, 17980,
     11673, 18290, 11394, 11008]"

definition quick_a_ref :: "int list" where
  "quick_a_ref =
    [8, 20, 28, 42, 72, 140, 171, 227, 296, 331, 335, 347, 356, 387, 457, 459, 543, 597, 599, 619,
     741, 760, 791, 797, 877, 897, 937, 1055, 1073, 1118, 1198, 1372, 1480, 1498, 1520, 1524, 1547,
     1583, 1593, 1618, 1658, 1846, 1906, 1921, 1923, 1950, 1952, 1976, 1977, 1984, 2049, 2064,
     2079, 2086, 2113, 2137, 2151, 2202, 2212, 2213, 2223, 2249, 2315, 2318, 2368, 2412, 2543,
     2544, 2582, 2603, 2736, 2747, 2749, 2760, 2811, 2813, 2842, 2849, 2864, 2867, 2917, 2935,
     2980, 3064, 3079, 3145, 3185, 3191, 3234, 3237, 3264, 3270, 3301, 3305, 3305, 3340, 3394,
     3396, 3426, 3499, 3575, 3615, 3681, 3681, 3701, 3712, 3758, 3792, 3801, 3902, 3907, 3953,
     3954, 4015, 4015, 4048, 4121, 4153, 4160, 4165, 4174, 4202, 4217, 4218, 4221, 4260, 4274,
     4284, 4298, 4300, 4301, 4304, 4337, 4344, 4378, 4438, 4464, 4475, 4647, 4692, 4705, 4713,
     4724, 4768, 4863, 4920, 4945, 4959, 4981, 5022, 5051, 5098, 5101, 5130, 5216, 5235, 5242,
     5274, 5301, 5331, 5363, 5373, 5396, 5452, 5463, 5468, 5493, 5511, 5602, 5617, 5620, 5624,
     5627, 5672, 5698, 5702, 5854, 5890, 5899, 5961, 5963, 6012, 6054, 6071, 6078, 6084, 6106,
     6111, 6111, 6131, 6165, 6180, 6184, 6214, 6243, 6264, 6384, 6403, 6426, 6492, 6498, 6605,
     6613, 6649, 6690, 6773, 6782, 6808, 6813, 6836, 6848, 6910, 7008, 7019, 7052, 7090, 7128,
     7177, 7179, 7218, 7218, 7285, 7305, 7372, 7383, 7429, 7444, 7494, 7556, 7565, 7565, 7570,
     7599, 7626, 7629, 7631, 7710, 7759, 7770, 7875, 7884, 7896, 7917, 8133, 8276, 8303, 8365,
     8405, 8446, 8534, 8549, 8557, 8569, 8659, 8734, 8740, 8758, 8759, 8792, 8812, 8813, 8821,
     8881, 8950, 8980, 9029, 9129, 9170, 9173, 9279, 9282, 9284, 9303, 9320, 9388, 9406, 9418,
     9418, 9452, 9475, 9476, 9486, 9488, 9530, 9552, 9563, 9568, 9571, 9628, 9635, 9709, 9744,
     9786, 9790, 9796, 9821, 9895, 9899, 9933, 9988, 10022, 10042, 10047, 10060, 10169, 10172,
     10275, 10283, 10298, 10331, 10428, 10474, 10506, 10588, 10617, 10629, 10630, 10655, 10679,
     10724, 10765, 10797, 10802, 10804, 10812, 10843, 11008, 11101, 11134, 11143, 11145, 11213,
     11253, 11325, 11332, 11335, 11351, 11394, 11406, 11411, 11485, 11509, 11544, 11557, 11574,
     11621, 11643, 11673, 11738, 11791, 11796, 11819, 11935, 12029, 12056, 12060, 12074, 12084,
     12114, 12128, 12137, 12153, 12153, 12181, 12216, 12266, 12310, 12351, 12463, 12516, 12619,
     12644, 12653, 12653, 12691, 12695, 12790, 12794, 12827, 12849, 12863, 12909, 12919, 12928,
     12988, 13036, 13038, 13052, 13078, 13172, 13210, 13376, 13435, 13590, 13640, 13647, 13697,
     13737, 13753, 13759, 13782, 13785, 13997, 14036, 14049, 14089, 14119, 14128, 14132, 14206,
     14226, 14277, 14277, 14293, 14317, 14373, 14435, 14492, 14500, 14524, 14526, 14540, 14552,
     14573, 14580, 14610, 14673, 14748, 14817, 14827, 14827, 14828, 14849, 14882, 14893, 14909,
     14952, 14960, 15002, 15049, 15102, 15107, 15219, 15223, 15285, 15317, 15353, 15363, 15439,
     15455, 15537, 15571, 15583, 15598, 15650, 15676, 15710, 15717, 15744, 15801, 15803, 15831,
     15888, 15923, 15940, 15950, 15979, 15992, 16010, 16015, 16046, 16069, 16073, 16088, 16126,
     16178, 16192, 16310, 16311, 16362, 16378, 16416, 16446, 16473, 16481, 16612, 16624, 16647,
     16696, 16750, 16781, 16784, 16812, 16818, 16832, 16928, 17034, 17050, 17078, 17119, 17151,
     17255, 17319, 17352, 17392, 17434, 17470, 17498, 17530, 17535, 17543, 17550, 17567, 17581,
     17590, 17591, 17635, 17656, 17665, 17685, 17756, 17820, 17868, 17907, 17937, 17980, 18021,
     18048, 18077, 18118, 18161, 18174, 18182, 18211, 18222, 18266, 18285, 18290, 18302, 18331,
     18361, 18389, 18401, 18465, 18518, 18523, 18559, 18562, 18616, 18620, 18637, 18639, 18690,
     18715, 18781, 18782, 18826, 18832, 18840, 18887, 18963, 19060, 19075, 19076, 19086, 19087,
     19100, 19132, 19151, 19165, 19172, 19190, 19217, 19233, 19249, 19326, 19337, 19380, 19402,
     19404, 19463, 19489, 19499, 19535, 19567, 19593, 19599, 19630, 19631, 19678, 19714, 19773,
     19840, 19865, 19900, 19961, 19980, 20072, 20135, 20254, 20262, 20314, 20315, 20371, 20386,
     20390, 20402, 20449, 20498, 20550, 20555, 20597, 20606, 20611, 20621, 20642, 20662, 20667,
     20718, 20735, 20762, 20772, 20784, 20789, 20888, 20900, 20922, 20949, 20989, 20993, 21026,
     21066, 21102, 21152, 21158, 21166, 21167, 21184, 21295, 21307, 21313, 21324, 21332, 21359,
     21464, 21553, 21572, 21573, 21575, 21648, 21651, 21686, 21700, 21817, 21843, 21888, 21929,
     21943, 21952, 21965, 22000, 22027, 22057, 22268, 22275, 22331, 22378, 22387, 22418, 22471,
     22472, 22490, 22527, 22530, 22554, 22587, 22616, 22618, 22643, 22681, 22706, 22727, 22763,
     22864, 22910, 22921, 23005, 23018, 23079, 23256, 23265, 23302, 23314, 23316, 23329, 23355,
     23357, 23370, 23379, 23414, 23427, 23450, 23461, 23470, 23521, 23563, 23623, 23679, 23730,
     23735, 23737, 23770, 23772, 23772, 23777, 23782, 23792, 23820, 23837, 23843, 23936, 23995,
     24006, 24037, 24076, 24110, 24111, 24128, 24151, 24167, 24196, 24223, 24236, 24257, 24304,
     24342, 24352, 24357, 24371, 24374, 24399, 24437, 24464, 24508, 24535, 24626, 24726, 24750,
     24816, 24844, 24846, 24865, 24896, 24916, 24971, 25073, 25161, 25229, 25251, 25274, 25304,
     25331, 25342, 25346, 25397, 25414, 25432, 25455, 25458, 25613, 25661, 25687, 25750, 25766,
     25773, 25780, 25784, 25822, 25848, 25859, 25897, 25911, 25942, 26004, 26014, 26014, 26032,
     26051, 26071, 26102, 26104, 26132, 26187, 26236, 26258, 26263, 26285, 26312, 26380, 26416,
     26420, 26439, 26474, 26512, 26554, 26555, 26588, 26590, 26597, 26599, 26618, 26645, 26714,
     26863, 26895, 26933, 26948, 26974, 27051, 27068, 27142, 27218, 27220, 27250, 27273, 27290,
     27309, 27314, 27323, 27343, 27344, 27352, 27367, 27368, 27392, 27399, 27446, 27467, 27469,
     27498, 27532, 27549, 27549, 27570, 27607, 27647, 27660, 27687, 27717, 27774, 27793, 27823,
     27830, 27835, 27848, 27888, 27908, 27934, 27952, 27977, 28002, 28009, 28025, 28039, 28063,
     28159, 28161, 28193, 28268, 28310, 28320, 28333, 28356, 28384, 28387, 28430, 28447, 28464,
     28466, 28501, 28518, 28521, 28522, 28565, 28587, 28598, 28696, 28701, 28703, 28713, 28744,
     28773, 28774, 28786, 28800, 28865, 28980, 29026, 29043, 29052, 29054, 29079, 29089, 29115,
     29158, 29231, 29237, 29259, 29261, 29276, 29293, 29441, 29484, 29485, 29542, 29547, 29558,
     29598, 29778, 29891, 29907, 29913, 29927, 29941, 30002, 30010, 30045, 30068, 30101, 30202,
     30240, 30279, 30282, 30347, 30388, 30505, 30507, 30534, 30565, 30579, 30669, 30780, 30818,
     30842, 30907, 30914, 30934, 31013, 31029, 31081, 31100, 31126, 31201, 31222, 31256, 31302,
     31329, 31374, 31377, 31382, 31432, 31463, 31477, 31493, 31537, 31551, 31581, 31608, 31622,
     31624, 31632, 31653, 31710, 31886, 31903, 31918, 31936, 31946, 32083, 32101, 32162, 32209,
     32211, 32283, 32295, 32400, 32416, 32438, 32454, 32457, 32479, 32551, 32616, 32617, 32659,
     32663, 32664, 32670, 32726, 32754]"

lemma arrays_sorted: "sort bubble_a = bubble_a_ref" "sort select_a = select_a_ref" "sort quick_a = quick_a_ref"
  unfolding bubble_a_def bubble_a_ref_def select_a_def select_a_ref_def quick_a_def quick_a_ref_def
  by (simp_all only: sort_eval)

section \<open>The shells\<close>

text \<open>A C array read as a function: what lies past its end is a parameter.\<close>

definition arr :: "int list \<Rightarrow> (nat \<Rightarrow> int) \<Rightarrow> nat \<Rightarrow> int" where
  "arr xs past i = (if i < length xs then xs ! i else past i)"

text \<open>The comparison of the sorting shells stops at the first difference, that of shell 9 counts.\<close>

function sort_compare :: "int list \<Rightarrow> int list \<Rightarrow> int \<Rightarrow> int \<Rightarrow> int option" where
  "sort_compare result a_ref N j =
     (if j < N
      then do { x \<leftarrow> get result j; y \<leftarrow> get a_ref j;
                if x \<noteq> y then Some 1 else sort_compare result a_ref N (j + 1) }
      else Some 0)"
  by pat_completeness auto
termination
  by (relation "measure (\<lambda>(result, a_ref, N, j). nat (N - j))") auto

function stream_compare :: "int list \<Rightarrow> int list \<Rightarrow> int \<Rightarrow> int \<Rightarrow> int \<Rightarrow> int option" where
  "stream_compare c a N j err =
     (if j < N
      then do { x \<leftarrow> get c j; y \<leftarrow> get a j;
                stream_compare c a N (j + 1) (if x \<noteq> y then err + 1 else err) }
      else Some err)"
  by pat_completeness auto
termination
  by (relation "measure (\<lambda>(c, a, N, j, err). nat (N - j))") auto

declare sort_compare.simps [simp del] stream_compare.simps [simp del]

text \<open>One run of a sorting shell; the state is the static array \<open>result\<close> of the sort.\<close>

definition sort_run ::
    "((nat \<Rightarrow> int) \<Rightarrow> int \<Rightarrow> int list \<Rightarrow> int list option) \<Rightarrow> (nat \<Rightarrow> int) \<Rightarrow> int list \<Rightarrow> int \<Rightarrow> int list run" where
  "sort_run srt a a_ref N result =
     do { r \<leftarrow> srt a N result; e \<leftarrow> sort_compare r a_ref N 0; Some (r, [], e) }"

definition shell2 :: "device \<Rightarrow> mem \<Rightarrow> (nat \<Rightarrow> int) \<Rightarrow> int list \<Rightarrow> history \<Rightarrow> (int list \<times> history) option" where
  "shell2 d m past result h =
     shell d m ''bubble sort'' (printing (sort_run bubble_sort (arr bubble_a past) bubble_a_ref 200)) result h"

definition shell6 :: "device \<Rightarrow> mem \<Rightarrow> (nat \<Rightarrow> int) \<Rightarrow> int list \<Rightarrow> history \<Rightarrow> (int list \<times> history) option" where
  "shell6 d m past result h =
     shell d m ''quick sort'' (printing (sort_run quick_sort (arr quick_a past) quick_a_ref 1000)) result h"

definition shell7 :: "device \<Rightarrow> mem \<Rightarrow> (nat \<Rightarrow> int) \<Rightarrow> int list \<Rightarrow> history \<Rightarrow> (int list \<times> history) option" where
  "shell7 d m past result h =
     shell d m ''select sort'' (printing (sort_run select_sort (arr select_a past) select_a_ref 200)) result h"

text \<open>Shell 9 copies the array that shell 6 sorts; the state is the array \<open>c\<close>.\<close>

definition stream_run :: "(nat \<Rightarrow> int) \<Rightarrow> int list run" where
  "stream_run past c =
     do { c' \<leftarrow> stream_copy (arr quick_a past) c 1000; e \<leftarrow> stream_compare c' quick_a 1000 0 0; Some (c', [], e) }"

definition shell9 :: "device \<Rightarrow> mem \<Rightarrow> (nat \<Rightarrow> int) \<Rightarrow> int list \<Rightarrow> history \<Rightarrow> (int list \<times> history) option" where
  "shell9 d m past c h = shell d m ''stream copy'' (printing (stream_run past)) c h"

text \<open>Shell 8: the state is the memory and the table of files; \<open>sha_info\<close> is not initialised.\<close>

definition sha_run :: "SHA_INFO \<Rightarrow> addr \<Rightarrow> addr \<Rightarrow> (mem \<times> cfile list) run" where
  "sha_run s data str = (\<lambda>(m, files).
     do { (m', files', r, out) \<leftarrow> sha_driver m files s data str; Some ((m', files'), out, r) })"

definition shell8 ::
    "device \<Rightarrow> SHA_INFO \<Rightarrow> addr \<Rightarrow> addr \<Rightarrow> mem \<times> cfile list \<Rightarrow> history \<Rightarrow> ((mem \<times> cfile list) \<times> history) option" where
  "shell8 d s data str st h = shell d (fst st) ''sha'' (printing (sha_run s data str)) st h"

text \<open>Shell 10.\<close>

definition search_run :: "mem \<Rightarrow> addr \<Rightarrow> addr \<Rightarrow> addr list \<Rightarrow> addr list \<Rightarrow> unit run" where
  "search_run m none nots fs ss u =
     do { (out, err) \<leftarrow> search_small m none nots fs ss; Some ((), out, err) }"

definition shell10 ::
    "device \<Rightarrow> mem \<Rightarrow> addr \<Rightarrow> addr \<Rightarrow> addr list \<Rightarrow> addr list \<Rightarrow> history \<Rightarrow> (unit \<times> history) option" where
  "shell10 d m none nots fs ss h = shell d m ''string search'' (printing (search_run m none nots fs ss)) () h"

text \<open>Shell 4 does not clear the counters, and spells its error message in its own way.\<close>

definition crc_str :: "u8 list" where
  "crc_str =
    [37, 2, 27, 255, 143, 2, 85, 255, 229, 2, 212, 255, 21, 3, 195, 255, 94, 3, 22, 1, 152, 3, 36,
     1, 176, 3, 42, 1, 244, 3, 254, 255, 79, 4, 253, 255, 148, 4, 193, 255, 251, 4, 157, 255, 147,
     5, 105, 255, 43, 6, 63, 255, 193, 6, 4, 255, 145, 7, 250, 254, 139, 8, 183, 254, 86, 9, 141,
     254, 5, 10, 72, 254, 223, 10, 39, 254, 156, 11, 4, 254, 15, 12, 227, 253, 132, 12, 228, 253,
     240, 12, 18, 254, 46, 13, 38, 254, 105, 13, 152, 254, 154, 13, 187, 254, 158, 13, 69, 255,
     129, 13, 136, 255, 69, 13, 246, 255, 233, 12, 107, 1, 109, 12, 238, 1, 203, 11, 122, 1, 53,
     11, 24, 2, 183, 10, 138, 2, 60, 10, 62, 3, 222, 9, 156, 3, 140, 9, 72, 4, 47, 9, 177, 4, 2, 9,
     38, 5, 249, 8, 135, 5, 228, 8, 224, 5, 5, 9, 219, 5, 108, 9, 107, 6, 239, 9, 32, 6, 154, 10,
     118, 6, 71, 11, 113, 6, 219, 11, 104, 6, 137, 12, 46, 6, 50, 13, 37, 6, 161, 13, 240, 5]"

definition crc_run :: "mem \<Rightarrow> addr \<Rightarrow> cfile list run" where
  "crc_run m str files = do { (files', err, out) \<leftarrow> crc32 m files str; Some (files', out, err) }"

definition shell4 :: "device \<Rightarrow> mem \<Rightarrow> addr \<Rightarrow> cfile list \<Rightarrow> history \<Rightarrow> (cfile list \<times> history) option" where
  "shell4 d m str files h =
     do { h1 \<leftarrow> say m (ln ''crc32 test begin.'') [] h;
          (files', err, total_count, total_count_my, h2) \<leftarrow> timed_runs d (printing (crc_run m str)) files h1;
          h3 \<leftarrow> verdict m (ln ''crc32 PASS!'') (ln ''crc32 ERROE!!!'') err h2;
          h4 \<leftarrow> report m ''crc32'' total_count total_count_my h3;
          Some (files', h4) }"

text \<open>Shell 1: the state is \<open>n\<close>, which it also prints, after a verdict without a line end.\<close>

definition bitcnts_test :: "int run" where
  "bitcnts_test n = do { (out, n') \<leftarrow> bitcnts 100; Some (n', out, if n' \<noteq> 811 then 1 else 0) }"

definition shell1 :: "device \<Rightarrow> mem \<Rightarrow> int \<Rightarrow> history \<Rightarrow> history option" where
  "shell1 d m n h =
     do { let h1 = clear_counts h;
          h2 \<leftarrow> say m (ln ''bitcount test begin.'') [] h1;
          (n', err, total_count, total_count_my, h3) \<leftarrow> timed_runs d (printing bitcnts_test) n h2;
          h4 \<leftarrow> verdict m ''bitcount PASS!'' ''bitcount ERROR!!!'' err h3;
          h5 \<leftarrow> say m (ln ''Bits: %ld'') [word_of_int n'] h4;
          report m ''bitcount'' total_count total_count_my h5 }"

section \<open>The benchmarks keep their contracts\<close>

lemma sort_compare_eq:
  "j \<le> n \<Longrightarrow> n \<le> length r \<Longrightarrow> n \<le> length ref \<Longrightarrow>
   sort_compare r ref (int n) (int j) = Some (if drop j (take n r) = drop j (take n ref) then 0 else 1)"
proof (induction "n - j" arbitrary: j)
  case 0
  then show ?case by (subst sort_compare.simps) simp
next
  case (Suc k)
  then have j: "j < n" "j < length r" "j < length ref" by simp_all
  have d: "drop j (take n r) = r ! j # drop (Suc j) (take n r)" "drop j (take n ref) = ref ! j # drop (Suc j) (take n ref)"
    using j by (simp_all add: Cons_nth_drop_Suc [symmetric])
  have s: "int j + 1 = int (Suc j)" by simp
  have "sort_compare r ref (int n) (int (Suc j)) =
      Some (if drop (Suc j) (take n r) = drop (Suc j) (take n ref) then 0 else 1)"
    using Suc.hyps(2) j Suc.prems by (intro Suc.hyps(1)) simp_all
  then show ?case
    unfolding d using j by (subst sort_compare.simps) (simp add: get_def s del: of_nat_Suc)
qed

lemma stream_compare_same:
  "j \<le> n \<Longrightarrow> n \<le> length a \<Longrightarrow> n \<le> length c \<Longrightarrow> take n c = take n a \<Longrightarrow>
   stream_compare c a (int n) (int j) err = Some err"
proof (induction "n - j" arbitrary: j)
  case 0
  then show ?case by (subst stream_compare.simps) simp
next
  case (Suc k)
  then have j: "j < n" "j < length c" "j < length a" by simp_all
  have "c ! j = a ! j" using Suc.prems(4) j(1) by (metis nth_take)
  moreover have "stream_compare c a (int n) (int (Suc j)) err = Some err"
    using Suc.hyps(2) j Suc.prems by (intro Suc.hyps(1)) simp_all
  ultimately show ?case using j by (subst stream_compare.simps) (simp add: get_def add.commute)
qed

lemma arr_map: "n \<le> length xs \<Longrightarrow> map (arr xs past) [0..<n] = take n xs"
  by (rule nth_equalityI) (simp_all add: arr_def)

lemma sort_run_ok:
  assumes "\<And>result. length result = 1000 \<Longrightarrow>
      \<exists>r. srt (arr xs past) (int n) result = Some r \<and> length r = 1000 \<and> take n r = sort (map (arr xs past) [0..<n])"
    and "n = length xs" "n \<le> 1000" "sort xs = ref" "length result = 1000"
  shows "\<exists>r. sort_run srt (arr xs past) ref (int n) result = Some (r, [], 0) \<and> length r = 1000"
proof -
  obtain r where r: "srt (arr xs past) (int n) result = Some r" "length r = 1000" "take n r = sort (map (arr xs past) [0..<n])"
    using assms(1) [OF assms(5)] by blast
  have t: "take n r = ref" using r(3) assms(2,4) by (simp add: arr_map)
  have l: "length ref = n" using assms(2,4) by (metis length_sort)
  then have "take n ref = ref" by simp
  then have "sort_compare r ref (int n) 0 = Some 0"
    using sort_compare_eq [of 0 n r ref] r(2) assms(3) t l by simp
  with r show ?thesis by (simp add: sort_run_def)
qed

lemma array_lengths: "length bubble_a = 200" "length select_a = 200" "length quick_a = 1000"
  by (simp_all add: bubble_a_def select_a_def quick_a_def)


lemma crc_str_checksum: "crc_of crc_str = 1601645211"
  by (simp add: crc_of_def crc_str_def crc_byte_def crc_bits_8 crc_bit_numeral)

section \<open>The shells\<close>

interpretation bubble_shell: benchmark "sort_run bubble_sort (arr bubble_a past) bubble_a_ref 200"
    "\<lambda>r. length r = 1000" "\<lambda>out. out = []" 0 for past
proof
  fix r :: "int list" assume l: "length r = 1000"
  have "\<exists>r'. sort_run bubble_sort (arr bubble_a past) bubble_a_ref (int 200) r = Some (r', [], 0) \<and> length r' = 1000"
  proof (rule sort_run_ok)
    show "\<exists>r. bubble_sort (arr bubble_a past) (int 200) result = Some r \<and> length r = 1000 \<and>
        take 200 r = sort (map (arr bubble_a past) [0..<200])" if "length result = 1000" for result
      using that by (intro bubble.sorts) simp
  qed (use l array_lengths arrays_sorted in simp_all)
  then show "\<exists>s' out. sort_run bubble_sort (arr bubble_a past) bubble_a_ref 200 r = Some (s', out, 0) \<and> length s' = 1000 \<and> out = []"
    by simp
qed

interpretation select_shell: benchmark "sort_run select_sort (arr select_a past) select_a_ref 200"
    "\<lambda>r. length r = 1000" "\<lambda>out. out = []" 0 for past
proof
  fix r :: "int list" assume l: "length r = 1000"
  have "\<exists>r'. sort_run select_sort (arr select_a past) select_a_ref (int 200) r = Some (r', [], 0) \<and> length r' = 1000"
  proof (rule sort_run_ok)
    show "\<exists>r. select_sort (arr select_a past) (int 200) result = Some r \<and> length r = 1000 \<and>
        take 200 r = sort (map (arr select_a past) [0..<200])" if "length result = 1000" for result
      using that by (intro select.sorts) simp
  qed (use l array_lengths arrays_sorted in simp_all)
  then show "\<exists>s' out. sort_run select_sort (arr select_a past) select_a_ref 200 r = Some (s', out, 0) \<and> length s' = 1000 \<and> out = []"
    by simp
qed

interpretation quick_shell: benchmark "sort_run quick_sort (arr quick_a past) quick_a_ref 1000"
    "\<lambda>r. length r = 1000" "\<lambda>out. out = []" 0 for past
proof
  fix r :: "int list" assume l: "length r = 1000"
  have "\<exists>r'. sort_run quick_sort (arr quick_a past) quick_a_ref (int 1000) r = Some (r', [], 0) \<and> length r' = 1000"
  proof (rule sort_run_ok)
    show "\<exists>r. quick_sort (arr quick_a past) (int 1000) result = Some r \<and> length r = 1000 \<and>
        take 1000 r = sort (map (arr quick_a past) [0..<1000])" if "length result = 1000" for result
      using that by (intro quick.sorts) simp
  qed (use l array_lengths arrays_sorted in simp_all)
  then show "\<exists>s' out. sort_run quick_sort (arr quick_a past) quick_a_ref 1000 r = Some (s', out, 0) \<and> length s' = 1000 \<and> out = []"
    by simp
qed

interpretation stream_shell: benchmark "stream_run past" "\<lambda>c. length c = 1000" "\<lambda>out. out = []" 0 for past
proof
  fix c :: "int list" assume c: "length c = 1000"
  have "map (arr quick_a past) [0..<1000] = quick_a" using arr_map [of 1000 quick_a past] array_lengths by simp
  then have "stream_copy (arr quick_a past) c 1000 = Some quick_a"
    using stream_copy_copies [of 1000 c "arr quick_a past"] c by simp
  moreover have "stream_compare quick_a quick_a 1000 0 0 = Some 0"
    using stream_compare_same [of 0 1000 quick_a quick_a 0] array_lengths by simp
  ultimately show "\<exists>s' out. stream_run past c = Some (s', out, 0) \<and> length s' = 1000 \<and> out = []"
    using array_lengths by (simp add: stream_run_def)
qed

text \<open>A table of files with a free entry, kept by the benchmarks that open one file and close it.\<close>

definition files_ok :: "cfile list \<Rightarrow> bool" where
  "files_ok files \<longleftrightarrow> length files = SIZE \<and> (\<exists>j<SIZE. fstr (files ! j) = 0)"

lemma files_ok_close: "files_ok files \<Longrightarrow> i < SIZE \<Longrightarrow> files_ok (files[i := \<lparr>fstr = 0, fpos = 0\<rparr>])"
  by (auto simp: files_ok_def nth_list_update)

lemma crc_run_ok:
  assumes "cstr m str bs" "files_ok files"
  shows "\<exists>files' out. crc_run m str files = Some (files', out, if crc_of bs = 1601645211 then 0 else 1) \<and> files_ok files'"
proof -
  obtain j where j: "length files = SIZE" "j < SIZE" "fstr (files ! j) = 0" using assms(2) by (auto simp: files_ok_def)
  then obtain i out where "crc32 m files str =
      Some (files[i := \<lparr>fstr = 0, fpos = 0\<rparr>], if crc_of bs = 1601645211 then 0 else 1, out)" "i < SIZE"
    using crc32_eq [OF assms(1) j] by auto
  with files_ok_close [OF assms(2)] show ?thesis by (auto simp: crc_run_def)
qed

text \<open>What \<open>sha_driver\<close> needs of the memory and the files of shell 8, and keeps.\<close>

definition sha_state_ok :: "SHA_INFO \<Rightarrow> addr \<Rightarrow> addr \<Rightarrow> u8 list \<Rightarrow> mem \<times> cfile list \<Rightarrow> bool" where
  "sha_state_ok s data str bs st \<longleftrightarrow> cstr (fst st) str bs \<and> files_ok (snd st) \<and>
     length (sha_data s) = 64 \<and> apart str (Suc (length bs)) data 512"

lemma sha_run_ok:
  assumes "sha_state_ok s data str bs st"
  shows "\<exists>st' out. sha_run s data str st = Some (st', out, if sha_of bs = sha_ans then 0 else 1) \<and>
    sha_state_ok s data str bs st'"
proof -
  obtain m files where st: "st = (m, files)" by (cases st)
  have h: "cstr m str bs" "files_ok files" "length (sha_data s) = 64" "apart str (Suc (length bs)) data 512"
    using assms by (simp_all add: st sha_state_ok_def)
  then obtain j where j: "length files = SIZE" "j < SIZE" "fstr (files ! j) = 0" by (auto simp: files_ok_def)
  obtain m' i out where r: "sha_driver m files s data str =
      Some (m', files[i := \<lparr>fstr = 0, fpos = 0\<rparr>], if sha_of bs = sha_ans then 0 else 1, out)"
      "i < SIZE" "\<forall>x. \<not> in_block x data 512 \<longrightarrow> m' x = m x"
    using sha_driver_eq [OF h(1) j h(3,4)] by blast
  have "cstr m' str bs = cstr m str bs"
  proof (rule cstr_cong)
    fix i assume "i \<le> length bs"
    then have "\<not> in_block (str + of_nat i) data 512" using h(4) by (simp add: apart_def)
    then show "m' (str + of_nat i) = m (str + of_nat i)" using r(3) by simp
  qed
  with r h files_ok_close [OF h(2)] show ?thesis by (auto simp: st sha_run_def sha_state_ok_def)
qed

lemma crc_benchmark: "cstr m str bs \<Longrightarrow> benchmark (crc_run m str) files_ok (\<lambda>_. True) (if crc_of bs = 1601645211 then 0 else 1)"
  by unfold_locales (use crc_run_ok in blast)

lemma sha_benchmark:
  "benchmark (sha_run s data str) (sha_state_ok s data str bs) (\<lambda>_. True) (if sha_of bs = sha_ans then 0 else 1)"
  by unfold_locales (use sha_run_ok in blast)

text \<open>The last run leaves 811 in \<open>n\<close>.\<close>

lemma bitcnts_runs:
  "all_runs k bitcnts_test n =
     Some (if k = 0 then n else 811, concat (replicate k (puts_text (ln ''Bit counter algorithm benchmark''))), 0)"
  by (induction k arbitrary: n) (simp_all add: bitcnts_test_def bitcnts_100)

lemma bits_said: "printf m (ln ''Bits: %ld'') [811] = Some (crlf (ascii (ln ''Bits: 811'')))"
  by (simp add: printf_eval printbase_def pb_digits.simps upt_rec putchar_def digit_char_def crlf_def)

lemma plain_names [simp]: "plain ''bubble sort''" "plain ''quick sort''" "plain ''select sort''" "plain ''stream copy''"
  "plain ''sha''" "plain ''string search''" "plain ''crc32''" "plain ''bitcount''"
  by (simp_all add: plain_def)

lemma silent: "list_all (\<lambda>out. out = []) outs \<Longrightarrow> concat outs = []"
  by (induction outs) simp_all

section \<open>Properties\<close>

text \<open>C26: shells 2, 6, 7 and 9 end and pass, whatever the counters and the flag read: their histories
  are the stores that clear the counters, the texts, the readings, the pass pattern on the LEDs and
  the differences of the readings.\<close>

theorem array_shells_pass:
  "length result = 1000 \<Longrightarrow>
   (\<exists>r flag t0 c0 c1 t1. shell2 d m past result h = Some (r, h @ shell_events ''bubble sort'' flag t0 c0 [] c1 t1 0)) \<and>
   (\<exists>r flag t0 c0 c1 t1. shell6 d m past result h = Some (r, h @ shell_events ''quick sort'' flag t0 c0 [] c1 t1 0)) \<and>
   (\<exists>r flag t0 c0 c1 t1. shell7 d m past result h = Some (r, h @ shell_events ''select sort'' flag t0 c0 [] c1 t1 0)) \<and>
   (\<exists>r flag t0 c0 c1 t1. shell9 d m past result h = Some (r, h @ shell_events ''stream copy'' flag t0 c0 [] c1 t1 0))"
proof -
  assume l: "length result = 1000"
  have "\<exists>r flag t0 c0 c1 t1. shell2 d m past result h = Some (r, h @ shell_events ''bubble sort'' flag t0 c0 [] c1 t1 0)"
    using bubble_shell.shell [of "''bubble sort''" result d m past h] l
    by (auto simp: shell2_def Let_def dest!: silent) blast
  moreover have "\<exists>r flag t0 c0 c1 t1. shell6 d m past result h = Some (r, h @ shell_events ''quick sort'' flag t0 c0 [] c1 t1 0)"
    using quick_shell.shell [of "''quick sort''" result d m past h] l
    by (auto simp: shell6_def Let_def dest!: silent) blast
  moreover have "\<exists>r flag t0 c0 c1 t1. shell7 d m past result h = Some (r, h @ shell_events ''select sort'' flag t0 c0 [] c1 t1 0)"
    using select_shell.shell [of "''select sort''" result d m past h] l
    by (auto simp: shell7_def Let_def dest!: silent) blast
  moreover have "\<exists>r flag t0 c0 c1 t1. shell9 d m past result h = Some (r, h @ shell_events ''stream copy'' flag t0 c0 [] c1 t1 0)"
    using stream_shell.shell [of "''stream copy''" result d m past h] l
    by (auto simp: shell9_def Let_def dest!: silent) blast
  ultimately show ?thesis by blast
qed

lemma array_shells_pass_witness:
  "\<exists>r flag t0 c0 c1 t1. shell6 \<lparr>mmio = \<lambda>h a. of_nat (length h), cp0 = \<lambda>h r. 1\<rparr> (\<lambda>_. 0) (\<lambda>_. 7) (replicate 1000 0) [] =
     Some (r, [] @ shell_events ''quick sort'' flag t0 c0 [] c1 t1 0)"
  using array_shells_pass [of "replicate 1000 0" "\<lparr>mmio = \<lambda>h a. of_nat (length h), cp0 = \<lambda>h r. 1\<rparr>" "\<lambda>_. 0" "\<lambda>_. 7" "[]"]
  by simp

text \<open>Shell 4, on its string and with a free entry in the table of files, passes: the checksum of
  the string is the expected one.  It does not clear the counters.\<close>

theorem crc_shell_passes:
  "cstr m str crc_str \<Longrightarrow> files_ok files \<Longrightarrow>
   \<exists>files' out flag t0 c0 c1 t1. shell4 d m str files h =
     Some (files', h @ map Uart (crlf (ascii (ln ''crc32 test begin.''))) @ timed_events flag t0 c0 out c1 t1 @
       verdict_events (ln ''crc32 PASS!'') (ln ''crc32 ERROE!!!'') 0 @ report_events ''crc32'' (t1 - t0) (c1 - c0)) \<and>
     files_ok files'"
proof -
  assume a: "cstr m str crc_str" "files_ok files"
  let ?b = "ln ''crc32 test begin.''"
  have p: "plain ?b" "plain (ln ''crc32 PASS!'')" "plain (ln ''crc32 ERROE!!!'')" by (simp_all add: plain_def)
  define h1 where "h1 = h @ map Uart (crlf (ascii ?b))"
  obtain files' outs flag t0 c0 c1 t1 where t:
      "timed_runs d (printing (crc_run m str)) files h1 = Some (files', 0, t1 - t0, c1 - c0, h1 @ timed_events flag t0 c0 (concat outs) c1 t1)"
      "files_ok files'"
    using benchmark.timed [OF crc_benchmark [OF a(1)] a(2), of d h1] by (auto simp: crc_str_checksum Let_def)
  show ?thesis
    using t say_plain [OF p(1), of m h] verdict_eq [OF p(2,3)] report_eq [of "''crc32''"]
    unfolding h1_def shell4_def by (intro exI [of _ files'] exI [of _ "concat outs"] exI [of _ flag] exI [of _ t0]
      exI [of _ c0] exI [of _ c1] exI [of _ t1]) simp
qed

lemma crc_shell_passes_witness:
  "\<exists>files' out flag t0 c0 c1 t1.
     shell4 \<lparr>mmio = \<lambda>h a. 0, cp0 = \<lambda>h r. 1\<rparr> (write_bytes (\<lambda>_. 0) 64 (crc_str @ [0])) 64 (replicate 10 \<lparr>fstr = 0, fpos = 0\<rparr>) [] =
     Some (files', [] @ map Uart (crlf (ascii (ln ''crc32 test begin.''))) @ timed_events flag t0 c0 out c1 t1 @
       verdict_events (ln ''crc32 PASS!'') (ln ''crc32 ERROE!!!'') 0 @ report_events ''crc32'' (t1 - t0) (c1 - c0)) \<and>
     files_ok files'"
proof (rule crc_shell_passes)
  show "cstr (write_bytes (\<lambda>_. 0) 64 (crc_str @ [0])) 64 crc_str" by (rule cstr_write) (simp_all add: crc_str_def)
  show "files_ok (replicate 10 \<lparr>fstr = 0, fpos = 0\<rparr>)" by (auto simp: files_ok_def SIZE_def intro: exI [of _ 0])
qed

text \<open>Shell 8 ends, and passes exactly if the hash of its string is the expected one; each wrong
  run counts once.\<close>

theorem sha_shell_result:
  "sha_state_ok s data str bs st \<Longrightarrow>
   \<exists>st' out flag t0 c0 c1 t1. shell8 d s data str st h =
     Some (st', h @ shell_events ''sha'' flag t0 c0 out c1 t1
       (if sha_of bs = sha_ans then 0 else if flag \<noteq> 0 then 1 else 10)) \<and>
     sha_state_ok s data str bs st'"
proof -
  assume a: "sha_state_ok s data str bs st"
  obtain st' outs flag t0 c0 c1 t1 where "let k = (if flag \<noteq> 0 then 1 else LOOPTIMES) in
      shell d (fst st) ''sha'' (printing (sha_run s data str)) st h =
        Some (st', h @ shell_events ''sha'' flag t0 c0 (concat outs) c1 t1 (int k * (if sha_of bs = sha_ans then 0 else 1))) \<and>
      sha_state_ok s data str bs st' \<and> length outs = k \<and> list_all (\<lambda>_. True) outs"
    using benchmark.shell [OF sha_benchmark plain_names(5) a, of d "fst st" h] by blast
  then show ?thesis
    by (intro exI [of _ st'] exI [of _ "concat outs"] exI [of _ flag] exI [of _ t0] exI [of _ c0] exI [of _ c1] exI [of _ t1])
      (simp add: shell8_def Let_def LOOPTIMES_def split: if_splits)
qed

lemma sha_shell_result_witness:
  "let s = \<lparr>digest = [], count_lo = 7, count_hi = 7, sha_data = replicate 64 9\<rparr>;
       st = (write_bytes (\<lambda>_. 0) 4 [97, 98, 99], replicate 10 \<lparr>fstr = 0, fpos = 0\<rparr>)
   in \<exists>st' out flag t0 c0 c1 t1. shell8 \<lparr>mmio = \<lambda>h a. 0, cp0 = \<lambda>h r. 1\<rparr> s 1024 4 st [] =
     Some (st', [] @ shell_events ''sha'' flag t0 c0 out c1 t1
       (if sha_of [97, 98, 99] = sha_ans then 0 else if flag \<noteq> 0 then 1 else 10)) \<and>
     sha_state_ok s 1024 4 [97, 98, 99] st'"
  unfolding Let_def
proof (rule sha_shell_result)
  have "apart 4 (Suc (length [97, 98, 99 :: u8])) 1024 512" by (intro apart_before) simp_all
  then show "sha_state_ok \<lparr>digest = [], count_lo = 7, count_hi = 7, sha_data = replicate 64 9\<rparr> 1024 4 [97, 98, 99]
      (write_bytes (\<lambda>_. 0) 4 [97, 98, 99], replicate 10 \<lparr>fstr = 0, fpos = 0\<rparr>)"
    by (auto simp: sha_state_ok_def files_ok_def SIZE_def intro: exI [of _ 0])
qed

text \<open>Shell 10 passes, with its strings anywhere in memory.\<close>

theorem search_shell_passes:
  "list_all2 (lit m) ps find_strings \<Longrightarrow> list_all2 (lit m) qs search_strings \<Longrightarrow>
   cstr m none [] \<Longrightarrow> cstr m nots (ascii '' not'') \<Longrightarrow>
   \<exists>out flag t0 c0 c1 t1. shell10 d m none nots (ps @ [0]) qs h =
     Some ((), h @ shell_events ''string search'' flag t0 c0 out c1 t1 0)"
proof -
  assume a: "list_all2 (lit m) ps find_strings" "list_all2 (lit m) qs search_strings"
    "cstr m none []" "cstr m nots (ascii '' not'')"
  have "benchmark (search_run m none nots (ps @ [0]) qs) (\<lambda>_. True) (\<lambda>_. True) 0"
    by unfold_locales (simp add: search_run_def search_small_eq [OF a])
  from benchmark.shell [OF this plain_names(6), where s = "()" and d = d and m = m and h = h] show ?thesis
    by (auto simp: shell10_def Let_def) blast
qed

lemma search_shell_passes_witness:
  "let m = write_bytes (\<lambda>_. 0) 4096 (lay_bytes ([[], '' not''] @ find_strings @ search_strings));
       as = lay_addrs 4096 ([[], '' not''] @ find_strings @ search_strings)
   in \<exists>out flag t0 c0 c1 t1. shell10 \<lparr>mmio = \<lambda>h a. 0, cp0 = \<lambda>h r. 1\<rparr> m (as ! 0) (as ! 1)
        (take 57 (drop 2 as) @ [0]) (drop 59 as) [] =
      Some ((), [] @ shell_events ''string search'' flag t0 c0 out c1 t1 0)"
  using search_shell_passes [OF search_layout, of "\<lparr>mmio = \<lambda>h a. 0, cp0 = \<lambda>h r. 1\<rparr>" "[]"] by (simp only: Let_def)

text \<open>Shell 1 passes: each run of the bit counters gives 811, which it prints.\<close>

theorem bitcount_shell_passes:
  "\<exists>out flag t0 c0 c1 t1. shell1 d m n h =
     Some (h @ [Store TIMER_ADDR 0, Mtc0 9 0] @ map Uart (crlf (ascii (ln ''bitcount test begin.''))) @
       timed_events flag t0 c0 out c1 t1 @ verdict_events ''bitcount PASS!'' ''bitcount ERROR!!!'' 0 @
       map Uart (crlf (ascii (ln ''Bits: 811''))) @ report_events ''bitcount'' (t1 - t0) (c1 - c0))"
proof -
  let ?b = "ln ''bitcount test begin.''"
  have p: "plain ?b" "plain ''bitcount PASS!''" "plain ''bitcount ERROR!!!''" by (simp_all add: plain_def)
  define line where "line = puts_text (ln ''Bit counter algorithm benchmark'')"
  define h1 where "h1 = clear_counts h @ map Uart (crlf (ascii ?b))"
  have "all_runs k bitcnts_test n = Some (811, concat (replicate k line), 0)" if "k \<in> {1, LOOPTIMES}" for k
    using that by (auto simp: bitcnts_runs line_def LOOPTIMES_def)
  from timed_runs_events [of bitcnts_test n "\<lambda>_. 811" "\<lambda>k. concat (replicate k line)" "\<lambda>_. 0" d h1, OF this]
  obtain flag t0 c0 c1 t1 out where t: "timed_runs d (printing bitcnts_test) n h1 =
      Some (811, 0, t1 - t0, c1 - c0, h1 @ timed_events flag t0 c0 out c1 t1)"
    unfolding Let_def by blast
  have h1: "say m ?b [] (clear_counts h) = Some h1" using say_plain [OF p(1)] by (simp only: h1_def)
  have bits: "say m (ln ''Bits: %ld'') [811] g = Some (g @ map Uart (crlf (ascii (ln ''Bits: 811''))))" for g
    unfolding say_def bits_said send_def by simp
  have n: "plain ''bitcount''" by simp
  have "shell1 d m n h = Some ((((h1 @ timed_events flag t0 c0 out c1 t1) @
      verdict_events ''bitcount PASS!'' ''bitcount ERROR!!!'' 0) @ map Uart (crlf (ascii (ln ''Bits: 811'')))) @
      report_events ''bitcount'' (t1 - t0) (c1 - c0))"
    unfolding shell1_def Let_def h1 verdict_eq [OF p(2,3)] report_eq [OF n] bind.bind_lunit t
    using bits by (simp add: h1 t)
  moreover have "h1 = h @ [Store TIMER_ADDR 0, Mtc0 9 0] @ map Uart (crlf (ascii ?b))"
    by (simp add: h1_def clear_counts_def store_def mtc0_def)
  ultimately show ?thesis by (simp only: append_assoc) blast
qed

end
