(* ===== verification/Dhry.thy ===== *)
theory Dhry
  imports Board Sorts "HOL-Library.Signed_Division"
begin

text \<open>
  The Dhrystone benchmark of \<^verbatim>\<open>bench/dhrystone\<close> (\<open>dhry_1.c\<close>, \<open>dhry_2.c\<close>) and shell 5.  The global
  variables are a record, the two records that pointers can point to are named, and character
  arrays lie in a memory at the addresses of a \<open>layout\<close>.  A procedure with a reference parameter
  returns the new value; variables that are read before they are set are parameters.
\<close>

unbundle bit_operations_syntax

section \<open>Data\<close>

datatype enumeration = Ident_1 | Ident_2 | Ident_3 | Ident_4 | Ident_5

primrec enum_int :: "enumeration \<Rightarrow> int" where
  "enum_int Ident_1 = 0"
| "enum_int Ident_2 = 1"
| "enum_int Ident_3 = 2"
| "enum_int Ident_4 = 3"
| "enum_int Ident_5 = 4"

text \<open>The static records; a pointer is one of them or null.\<close>

datatype rec_name = Rec_Glob | Next_Rec_Glob

record rec_type =
  Ptr_Comp :: "rec_name option"
  Discr :: enumeration
  Enum_Comp :: enumeration
  Int_Comp :: int

text \<open>The addresses of the character arrays and string literals, and of the records.\<close>

record layout =
  Str_Comp :: "rec_name \<Rightarrow> addr"
  Str_1_Loc :: addr
  Str_2_Loc :: addr
  lit_some :: addr
  lit_1st :: addr
  lit_2nd :: addr
  lit_3rd :: addr
  rec_addr :: "rec_name \<Rightarrow> u32"

record globals =
  heap :: "rec_name \<Rightarrow> rec_type"
  strs :: mem
  Ptr_Glob :: "rec_name option"
  Next_Ptr_Glob :: "rec_name option"
  Int_Glob :: int
  Bool_Glob :: int
  Ch_1_Glob :: int
  Ch_2_Glob :: int
  Arr_1_Glob :: "int list"
  Arr_2_Glob :: "int list list"

record locals =
  Int_1_Loc :: int
  Int_2_Loc :: int
  Int_3_Loc :: int
  Enum_Loc :: enumeration

text \<open>The value that a sum has as an \<open>int\<close> of 32 bits, as the build computes it (it wraps).\<close>

definition to_int :: "int \<Rightarrow> int" where
  "to_int x = sint (word_of_int x :: u32)"

definition deref :: "globals \<Rightarrow> rec_name option \<Rightarrow> rec_type option" where
  "deref g p = map_option (heap g) p"

definition assign :: "rec_name option \<Rightarrow> (rec_type \<Rightarrow> rec_type) \<Rightarrow> globals \<Rightarrow> globals option" where
  "assign p f g = map_option (\<lambda>r. g\<lparr>heap := (heap g)(r := f (heap g r))\<rparr>) p"

text \<open>\<open>structassign\<close>: the fields, and the 31 bytes of \<open>Str_Comp\<close>.\<close>

definition structassign :: "layout \<Rightarrow> rec_name option \<Rightarrow> rec_name option \<Rightarrow> globals \<Rightarrow> globals option" where
  "structassign l d s g =
     (case (d, s) of
        (Some r, Some r') \<Rightarrow> Some (g\<lparr>heap := (heap g)(r := heap g r'),
          strs := write_bytes (strs g) (Str_Comp l r) (read_bytes (strs g) (Str_Comp l r') 31)\<rparr>)
      | _ \<Rightarrow> None)"

definition get2 :: "int list list \<Rightarrow> int \<Rightarrow> int \<Rightarrow> int option" where
  "get2 a i j = (if 0 \<le> i \<and> i < int (length a) then get (a ! nat i) j else None)"

definition put2 :: "int list list \<Rightarrow> int \<Rightarrow> int \<Rightarrow> int \<Rightarrow> int list list option" where
  "put2 a i j v =
     (if 0 \<le> i \<and> i < int (length a) then do { row \<leftarrow> put (a ! nat i) j v; Some (a[nat i := row]) } else None)"

section \<open>dhry\_2.c\<close>

definition Func_3 :: "enumeration \<Rightarrow> int" where
  "Func_3 Enum_Par_Val = (if Enum_Par_Val = Ident_3 then 1 else 0)"

definition Proc_6 :: "globals \<Rightarrow> enumeration \<Rightarrow> enumeration" where
  "Proc_6 g Enum_Val_Par =
     (let r = (if Func_3 Enum_Val_Par = 0 then Ident_4 else Enum_Val_Par)
      in case Enum_Val_Par of
           Ident_1 \<Rightarrow> Ident_1
         | Ident_2 \<Rightarrow> (if Int_Glob g > 100 then Ident_1 else Ident_4)
         | Ident_3 \<Rightarrow> Ident_2
         | Ident_4 \<Rightarrow> r
         | Ident_5 \<Rightarrow> Ident_3)"

definition Proc_7 :: "int \<Rightarrow> int \<Rightarrow> int" where
  "Proc_7 Int_1_Par_Val Int_2_Par_Val = (let Int_Loc = Int_1_Par_Val + 2 in Int_2_Par_Val + Int_Loc)"

function proc_8_loop :: "int list list \<Rightarrow> int \<Rightarrow> int \<Rightarrow> int list list option" where
  "proc_8_loop arr2 Int_Loc Int_Index =
     (if Int_Index \<le> Int_Loc + 1
      then do { a \<leftarrow> put2 arr2 Int_Loc Int_Index Int_Loc; proc_8_loop a Int_Loc (Int_Index + 1) }
      else Some arr2)"
  by pat_completeness auto
termination
  by (relation "measure (\<lambda>(arr2, Int_Loc, Int_Index). nat (Int_Loc + 2 - Int_Index))") auto

declare proc_8_loop.simps [simp del]

definition Proc_8 :: "int \<Rightarrow> int \<Rightarrow> globals \<Rightarrow> globals option" where
  "Proc_8 Int_1_Par_Val Int_2_Par_Val g =
     do { let Int_Loc = Int_1_Par_Val + 5;
          a1 \<leftarrow> put (Arr_1_Glob g) Int_Loc Int_2_Par_Val;
          x \<leftarrow> get a1 Int_Loc;
          a1 \<leftarrow> put a1 (Int_Loc + 1) x;
          a1 \<leftarrow> put a1 (Int_Loc + 30) Int_Loc;
          a2 \<leftarrow> proc_8_loop (Arr_2_Glob g) Int_Loc Int_Loc;
          y \<leftarrow> get2 a2 Int_Loc (Int_Loc - 1);
          a2 \<leftarrow> put2 a2 Int_Loc (Int_Loc - 1) (to_int (y + 1));
          z \<leftarrow> get a1 Int_Loc;
          a2 \<leftarrow> put2 a2 (Int_Loc + 20) Int_Loc z;
          Some (g\<lparr>Arr_1_Glob := a1, Arr_2_Glob := a2, Int_Glob := 5\<rparr>) }"

definition Func_1 :: "int \<Rightarrow> int \<Rightarrow> globals \<Rightarrow> enumeration \<times> globals" where
  "Func_1 Ch_1_Par_Val Ch_2_Par_Val g =
     (let Ch_1_Loc = Ch_1_Par_Val; Ch_2_Loc = Ch_1_Loc
      in if Ch_2_Loc \<noteq> Ch_2_Par_Val then (Ident_1, g) else (Ident_2, g\<lparr>Ch_1_Glob := Ch_1_Loc\<rparr>))"

partial_function (option) func_2_loop ::
    "addr \<Rightarrow> addr \<Rightarrow> int \<Rightarrow> int \<Rightarrow> globals \<Rightarrow> (int \<times> int \<times> globals) option" where
  "func_2_loop s1 s2 Int_Loc Ch_Loc g =
     (if Int_Loc \<le> 2
      then (let (e, g') = Func_1 (schar (strs g (s1 + word_of_int Int_Loc)))
                            (schar (strs g (s2 + word_of_int (Int_Loc + 1)))) g
            in if e = Ident_1 then func_2_loop s1 s2 (Int_Loc + 1) 65 g' else func_2_loop s1 s2 Int_Loc Ch_Loc g')
      else Some (Int_Loc, Ch_Loc, g))"

declare func_2_loop.simps [code]

definition Func_2 :: "int \<Rightarrow> addr \<Rightarrow> addr \<Rightarrow> globals \<Rightarrow> (int \<times> globals) option" where
  "Func_2 ch s1 s2 g =
     do { (Int_Loc, Ch_Loc, g') \<leftarrow> func_2_loop s1 s2 2 ch g;
          let Int_Loc = (if Ch_Loc \<ge> 87 \<and> Ch_Loc < 90 then 7 else Int_Loc);
          if Ch_Loc = 82 then Some (1, g')
          else do { r \<leftarrow> strcmp (strs g') s1 s2;
                    if r > 0 then Some (1, g'\<lparr>Int_Glob := Int_Loc + 7\<rparr>) else Some (0, g') } }"

section \<open>dhry\_1.c\<close>

definition Proc_5 :: "globals \<Rightarrow> globals" where
  "Proc_5 g = g\<lparr>Ch_1_Glob := 65, Bool_Glob := 0\<rparr>"

definition Proc_4 :: "globals \<Rightarrow> globals" where
  "Proc_4 g =
     (let Bool_Loc = (if Ch_1_Glob g = 65 then 1 else 0)
      in g\<lparr>Bool_Glob := Bool_Loc OR Bool_Glob g, Ch_2_Glob := 66\<rparr>)"

text \<open>\<open>Proc_3\<close> with the pointer to \<open>Ptr_Comp\<close> of the record \<open>t\<close>.\<close>

definition Proc_3 :: "rec_name option \<Rightarrow> globals \<Rightarrow> globals option" where
  "Proc_3 t g =
     do { g1 \<leftarrow> (if Ptr_Glob g \<noteq> None
                  then do { r \<leftarrow> deref g (Ptr_Glob g); assign t (\<lambda>x. x\<lparr>Ptr_Comp := Ptr_Comp r\<rparr>) g }
                  else Some g);
          assign (Ptr_Glob g1) (\<lambda>x. x\<lparr>Int_Comp := Proc_7 10 (Int_Glob g1)\<rparr>) g1 }"

partial_function (option) proc_2_loop :: "globals \<Rightarrow> int \<Rightarrow> int \<Rightarrow> enumeration \<Rightarrow> int option" where
  "proc_2_loop g Int_Loc ref e =
     (let (i, r, e') = (if Ch_1_Glob g = 65 then (Int_Loc - 1, Int_Loc - 1 - Int_Glob g, Ident_1)
                        else (Int_Loc, ref, e))
      in if e' \<noteq> Ident_1 then proc_2_loop g i r e' else Some r)"

declare proc_2_loop.simps [code]

definition Proc_2 :: "enumeration \<Rightarrow> int \<Rightarrow> globals \<Rightarrow> int option" where
  "Proc_2 e ref g = proc_2_loop g (ref + 10) ref e"

definition Proc_1 :: "layout \<Rightarrow> rec_name option \<Rightarrow> globals \<Rightarrow> globals option" where
  "Proc_1 l Ptr_Val_Par g =
     do { r \<leftarrow> deref g Ptr_Val_Par;
          let Next_Record = Ptr_Comp r;
          g \<leftarrow> structassign l (Ptr_Comp r) (Ptr_Glob g) g;
          g \<leftarrow> assign Ptr_Val_Par (\<lambda>x. x\<lparr>Int_Comp := 5\<rparr>) g;
          r \<leftarrow> deref g Ptr_Val_Par;
          g \<leftarrow> assign Next_Record (\<lambda>x. x\<lparr>Int_Comp := Int_Comp r\<rparr>) g;
          r \<leftarrow> deref g Ptr_Val_Par;
          g \<leftarrow> assign Next_Record (\<lambda>x. x\<lparr>Ptr_Comp := Ptr_Comp r\<rparr>) g;
          g \<leftarrow> Proc_3 Next_Record g;
          n \<leftarrow> deref g Next_Record;
          if Discr n = Ident_1
          then do {
            g \<leftarrow> assign Next_Record (\<lambda>x. x\<lparr>Int_Comp := 6\<rparr>) g;
            r \<leftarrow> deref g Ptr_Val_Par;
            g \<leftarrow> assign Next_Record (\<lambda>x. x\<lparr>Enum_Comp := Proc_6 g (Enum_Comp r)\<rparr>) g;
            p \<leftarrow> deref g (Ptr_Glob g);
            g \<leftarrow> assign Next_Record (\<lambda>x. x\<lparr>Ptr_Comp := Ptr_Comp p\<rparr>) g;
            n \<leftarrow> deref g Next_Record;
            assign Next_Record (\<lambda>x. x\<lparr>Int_Comp := Proc_7 (Int_Comp n) 10\<rparr>) g }
          else do { r \<leftarrow> deref g Ptr_Val_Par; structassign l Ptr_Val_Par (Ptr_Comp r) g } }"

text \<open>\<open>strcpy\<close> into a character array.\<close>

definition copy_str :: "addr \<Rightarrow> addr \<Rightarrow> globals \<Rightarrow> globals option" where
  "copy_str d s g = do { (m, _) \<leftarrow> strcpy (strs g) d s; Some (g\<lparr>strs := m\<rparr>) }"

text \<open>The loops of the main procedure: over \<open>Int_1_Loc\<close> and \<open>Int_3_Loc\<close>, and over \<open>Ch_Index\<close>.\<close>

function dhry_while :: "int \<Rightarrow> int \<Rightarrow> int \<Rightarrow> int \<times> int" where
  "dhry_while Int_1 Int_2 Int_3 =
     (if Int_1 < Int_2
      then let Int_3 = 5 * Int_1 - Int_2; Int_3 = Proc_7 Int_1 Int_2 in dhry_while (Int_1 + 1) Int_2 Int_3
      else (Int_1, Int_3))"
  by pat_completeness auto
termination
  by (relation "measure (\<lambda>(i, j, k). nat (j - i))") auto

declare dhry_while.simps [simp del]

partial_function (option) dhry_chars ::
    "layout \<Rightarrow> int \<Rightarrow> u8 \<Rightarrow> globals \<Rightarrow> locals \<Rightarrow> (globals \<times> locals) option" where
  "dhry_chars l Run_Index Ch_Index g v =
     (if schar Ch_Index \<le> Ch_2_Glob g
      then let (e, g) = Func_1 (schar Ch_Index) 67 g
           in if Enum_Loc v = e
              then do {
                let v = v\<lparr>Enum_Loc := Proc_6 g Ident_1\<rparr>;
                g \<leftarrow> copy_str (Str_2_Loc l) (lit_3rd l) g;
                dhry_chars l Run_Index (Ch_Index + 1) (g\<lparr>Int_Glob := Run_Index\<rparr>) (v\<lparr>Int_2_Loc := Run_Index\<rparr>) }
              else dhry_chars l Run_Index (Ch_Index + 1) g v
      else Some (g, v))"

declare dhry_chars.simps [code]

text \<open>C division is undefined for a zero divisor.\<close>

definition cdiv :: "int \<Rightarrow> int \<Rightarrow> int option" where
  "cdiv a b = (if b = 0 then None else Some (a sdiv b))"

definition dhry_run :: "layout \<Rightarrow> int \<Rightarrow> enumeration \<Rightarrow> int \<Rightarrow> globals \<Rightarrow> locals \<Rightarrow> (globals \<times> locals) option" where
  "dhry_run l ch e Run_Index g v =
     do { let g = Proc_4 (Proc_5 g);
          let v = v\<lparr>Int_1_Loc := 2, Int_2_Loc := 3\<rparr>;
          g \<leftarrow> copy_str (Str_2_Loc l) (lit_2nd l) g;
          let v = v\<lparr>Enum_Loc := Ident_2\<rparr>;
          (b, g) \<leftarrow> Func_2 ch (Str_1_Loc l) (Str_2_Loc l) g;
          let g = g\<lparr>Bool_Glob := (if b = 0 then 1 else 0)\<rparr>;
          let (i1, i3) = dhry_while (Int_1_Loc v) (Int_2_Loc v) (Int_3_Loc v);
          let v = v\<lparr>Int_1_Loc := i1, Int_3_Loc := i3\<rparr>;
          g \<leftarrow> Proc_8 (Int_1_Loc v) (Int_3_Loc v) g;
          g \<leftarrow> Proc_1 l (Ptr_Glob g) g;
          (g, v) \<leftarrow> dhry_chars l Run_Index 65 g v;
          let v = v\<lparr>Int_2_Loc := Int_2_Loc v * Int_1_Loc v\<rparr>;
          q \<leftarrow> cdiv (Int_2_Loc v) (Int_3_Loc v);
          let v = v\<lparr>Int_1_Loc := q\<rparr>;
          let v = v\<lparr>Int_2_Loc := 7 * (Int_2_Loc v - Int_3_Loc v) - Int_1_Loc v\<rparr>;
          r \<leftarrow> Proc_2 e (Int_1_Loc v) g;
          Some (g, v\<lparr>Int_1_Loc := r\<rparr>) }"

text \<open>The loop of the runs, which need not end: \<open>Run_Index\<close> is an \<open>int\<close>.\<close>

partial_function (option) dhry_runs ::
    "layout \<Rightarrow> int \<Rightarrow> enumeration \<Rightarrow> int \<Rightarrow> int \<Rightarrow> globals \<Rightarrow> locals \<Rightarrow> (globals \<times> locals) option" where
  "dhry_runs l ch e Number_Of_Runs Run_Index g v =
     (if Run_Index \<le> Number_Of_Runs
      then do { (g, v) \<leftarrow> dhry_run l ch e Run_Index g v;
                dhry_runs l ch e Number_Of_Runs (to_int (Run_Index + 1)) g v }
      else Some (g, v))"

declare dhry_runs.simps [code]

definition Reg :: bool where
  "Reg = False"

definition banner :: "(string \<times> u32 list) list" where
  "banner = [(ln [], []), (ln ''Dhrystone Benchmark, Version 2.1 (Language: C)'', []), (ln [], [])]"

definition final_values :: "layout \<Rightarrow> int \<Rightarrow> globals \<Rightarrow> locals \<Rightarrow> (string \<times> u32 list) list option" where
  "final_values l n g v =
     do { p \<leftarrow> deref g (Ptr_Glob g);
          q \<leftarrow> deref g (Next_Ptr_Glob g);
          x \<leftarrow> get (Arr_1_Glob g) 8;
          y \<leftarrow> get2 (Arr_2_Glob g) 8 7;
          pc \<leftarrow> Ptr_Glob g;
          qc \<leftarrow> Next_Ptr_Glob g;
          let addr = (\<lambda>p. case p of Some r \<Rightarrow> rec_addr l r | None \<Rightarrow> 0);
          Some [(ln ''Execution ends'', []),
            (ln [], []),
            (ln ''Final values of the variables used in the benchmark:'', []),
            (ln [], []),
            (ln ''Int_Glob:            %d'', [word_of_int (Int_Glob g)]),
            (ln ''        should be:   %d'', [5]),
            (ln ''Bool_Glob:           %d'', [word_of_int (Bool_Glob g)]),
            (ln ''        should be:   %d'', [1]),
            (ln ''Ch_1_Glob:           %c'', [word_of_int (Ch_1_Glob g)]),
            (ln ''        should be:   %c'', [65]),
            (ln ''Ch_2_Glob:           %c'', [word_of_int (Ch_2_Glob g)]),
            (ln ''        should be:   %c'', [66]),
            (ln ''Arr_1_Glob[8]:       %d'', [word_of_int x]),
            (ln ''        should be:   %d'', [7]),
            (ln ''Arr_2_Glob[8][7]:    %d'', [word_of_int y]),
            (ln ''        should be:   %d'', [word_of_int (to_int (n + 10))]),
            (ln ''Ptr_Glob->'', []),
            (ln ''  Ptr_Comp:          %d'', [addr (Ptr_Comp p)]),
            (ln ''        should be:   (implementation-dependent)'', []),
            (ln ''  Discr:             %d'', [word_of_int (enum_int (Discr p))]),
            (ln ''        should be:   %d'', [0]),
            (ln ''  Enum_Comp:         %d'', [word_of_int (enum_int (Enum_Comp p))]),
            (ln ''        should be:   %d'', [2]),
            (ln ''  Int_Comp:          %d'', [word_of_int (Int_Comp p)]),
            (ln ''        should be:   %d'', [17]),
            (ln ''  Str_Comp:          %s'', [Str_Comp l pc]),
            (ln ''        should be:   DHRYSTONE PROGRAM, SOME STRING'', []),
            (ln ''Next_Ptr_Glob->'', []),
            (ln ''  Ptr_Comp:          %d'', [addr (Ptr_Comp q)]),
            (ln ''        should be:   (implementation-dependent), same as above'', []),
            (ln ''  Discr:             %d'', [word_of_int (enum_int (Discr q))]),
            (ln ''        should be:   %d'', [0]),
            (ln ''  Enum_Comp:         %d'', [word_of_int (enum_int (Enum_Comp q))]),
            (ln ''        should be:   %d'', [1]),
            (ln ''  Int_Comp:          %d'', [word_of_int (Int_Comp q)]),
            (ln ''        should be:   %d'', [18]),
            (ln ''  Str_Comp:          %s'', [Str_Comp l qc]),
            (ln ''        should be:   DHRYSTONE PROGRAM, SOME STRING'', []),
            (ln ''Int_1_Loc:           %d'', [word_of_int (Int_1_Loc v)]),
            (ln ''        should be:   %d'', [5]),
            (ln ''Int_2_Loc:           %d'', [word_of_int (Int_2_Loc v)]),
            (ln ''        should be:   %d'', [13]),
            (ln ''Int_3_Loc:           %d'', [word_of_int (Int_3_Loc v)]),
            (ln ''        should be:   %d'', [7]),
            (ln ''Enum_Loc:            %d'', [word_of_int (enum_int (Enum_Loc v))]),
            (ln ''        should be:   %d'', [1]),
            (ln ''Str_1_Loc:           %s'', [Str_1_Loc l]),
            (ln ''        should be:   DHRYSTONE PROGRAM, 1'ST STRING'', []),
            (ln ''Str_2_Loc:           %s'', [Str_2_Loc l]),
            (ln ''        should be:   DHRYSTONE PROGRAM, 2'ND STRING'', []),
            (ln [], [])] }"

text \<open>The value of \<open>pass\<close>: 0 if all variables have their final values.\<close>

definition dhry_check :: "layout \<Rightarrow> int \<Rightarrow> globals \<Rightarrow> locals \<Rightarrow> int option" where
  "dhry_check l n g v =
     do { p \<leftarrow> deref g (Ptr_Glob g);
          q \<leftarrow> deref g (Next_Ptr_Glob g);
          x \<leftarrow> get (Arr_1_Glob g) 8;
          y \<leftarrow> get2 (Arr_2_Glob g) 8 7;
          pc \<leftarrow> Ptr_Glob g;
          qc \<leftarrow> Next_Ptr_Glob g;
          s1 \<leftarrow> strcmp (strs g) (Str_Comp l pc) (lit_some l);
          s2 \<leftarrow> strcmp (strs g) (Str_Comp l qc) (lit_some l);
          s3 \<leftarrow> strcmp (strs g) (Str_1_Loc l) (lit_1st l);
          s4 \<leftarrow> strcmp (strs g) (Str_2_Loc l) (lit_2nd l);
          Some (if Int_Glob g = 5 \<and> Bool_Glob g = 1 \<and> Ch_1_Glob g = 65 \<and> Ch_2_Glob g = 66 \<and> x = 7 \<and>
              y = to_int (n + 10) \<and> Ptr_Comp p = Ptr_Comp q \<and> Discr p = Ident_1 \<and> Enum_Comp p = Ident_3 \<and>
              Int_Comp p = 17 \<and> s1 = 0 \<and> Discr q = Ident_1 \<and> Enum_Comp q = Ident_2 \<and> Int_Comp q = 18 \<and>
              s2 = 0 \<and> Int_1_Loc v = 5 \<and> Int_2_Loc v = 13 \<and> Int_3_Loc v = 7 \<and> Enum_Loc v = Ident_2 \<and>
              s3 = 0 \<and> s4 = 0 then 0 else 1) }"

definition dhry_init :: "layout \<Rightarrow> globals \<Rightarrow> globals option" where
  "dhry_init l g =
     do { let g = g\<lparr>Next_Ptr_Glob := Some Next_Rec_Glob, Ptr_Glob := Some Rec_Glob\<rparr>;
          g \<leftarrow> assign (Ptr_Glob g) (\<lambda>x. x\<lparr>Ptr_Comp := Next_Ptr_Glob g, Discr := Ident_1,
                 Enum_Comp := Ident_3, Int_Comp := 40\<rparr>) g;
          pc \<leftarrow> Ptr_Glob g;
          g \<leftarrow> copy_str (Str_Comp l pc) (lit_some l) g;
          g \<leftarrow> copy_str (Str_1_Loc l) (lit_1st l) g;
          a \<leftarrow> put2 (Arr_2_Glob g) 8 7 10;
          Some (g\<lparr>Arr_2_Glob := a\<rparr>) }"

definition dhry_time :: "mem \<Rightarrow> int \<Rightarrow> u32 \<Rightarrow> u32 \<Rightarrow> history \<Rightarrow> history option" where
  "dhry_time m n Begin_Time End_Time h =
     (let User_Time = End_Time - Begin_Time
      in do {
        h \<leftarrow> says m [(ln ''Begin ns: %lu'', [Begin_Time]), (ln ''End ns: %lu'', [End_Time]),
               (ln ''Total ns: %lu'', [User_Time])] h;
        if sint User_Time < 120
        then says m [(ln ''Measured time too small to obtain meaningful results'', []),
               (ln ''Please increase number of runs'', []), (ln [], [])] h
        else do {
          Microseconds \<leftarrow> cdiv (sint User_Time) n;
          Dhrystones_Per_Second \<leftarrow> cdiv (to_int (1000000 * n)) (sint User_Time);
          says m [(''Dhrystones per ms:                      '', []),
            (ln ''%1u '', [word_of_int Dhrystones_Per_Second]), (ln [], [])] h } })"

definition dhrystone ::
    "device \<Rightarrow> layout \<Rightarrow> int \<Rightarrow> int \<Rightarrow> enumeration \<Rightarrow> locals \<Rightarrow> globals test" where
  "dhrystone d l Number_Of_Runs ch e v g h =
     do { h \<leftarrow> says (strs g) banner h;
          g \<leftarrow> dhry_init l g;
          h \<leftarrow> says (strs g) banner h;
          h \<leftarrow> (if Reg then says (strs g) [(ln ''Program compiled with 'register' attribute'', []), (ln [], [])] h
                else says (strs g) [(ln ''Program compiled without 'register' attribute'', []), (ln [], [])] h);
          h \<leftarrow> say (strs g) (ln ''Execution starts, %d runs through Dhrystone'') [word_of_int Number_Of_Runs] h;
          let (Begin_Time, h) = get_ns d h;
          (g, v) \<leftarrow> dhry_runs l ch e Number_Of_Runs 1 g v;
          let (End_Time, h) = get_ns d h;
          texts \<leftarrow> final_values l Number_Of_Runs g v;
          h \<leftarrow> says (strs g) texts h;
          pass \<leftarrow> dhry_check l Number_Of_Runs g v;
          h \<leftarrow> dhry_time (strs g) Number_Of_Runs Begin_Time End_Time h;
          Some (g, pass, h) }"

text \<open>The build sets \<open>RUNNUMBERS\<close> to 10.\<close>

definition shell5 :: "device \<Rightarrow> layout \<Rightarrow> int \<Rightarrow> enumeration \<Rightarrow> locals \<Rightarrow> globals \<Rightarrow> history \<Rightarrow> (globals \<times> history) option" where
  "shell5 d l ch e v g h = shell d (strs g) ''dhrystone'' (dhrystone d l 10 ch e v) g h"

section \<open>The strings\<close>

definition blocks :: "layout \<Rightarrow> addr list" where
  "blocks l = [Str_Comp l Rec_Glob, Str_Comp l Next_Rec_Glob, Str_1_Loc l, Str_2_Loc l,
     lit_some l, lit_1st l, lit_2nd l, lit_3rd l]"

fun pairwise :: "('a \<Rightarrow> 'a \<Rightarrow> bool) \<Rightarrow> 'a list \<Rightarrow> bool" where
  "pairwise P [] = True"
| "pairwise P (x # xs) = (list_all (P x) xs \<and> pairwise P xs)"

text \<open>The blocks of 31 bytes do not overlap.\<close>

definition layout_ok :: "layout \<Rightarrow> bool" where
  "layout_ok l \<longleftrightarrow> pairwise (\<lambda>a b. apart a 31 b 31 \<and> apart b 31 a 31) (blocks l)"

definition str_at :: "globals \<Rightarrow> addr \<Rightarrow> string \<Rightarrow> bool" where
  "str_at g a s \<longleftrightarrow> read_bytes (strs g) a 31 = ascii s @ [0]"

definition some_string :: string where "some_string = ''DHRYSTONE PROGRAM, SOME STRING''"
definition first_string :: string where "first_string = ''DHRYSTONE PROGRAM, 1'ST STRING''"
definition second_string :: string where "second_string = ''DHRYSTONE PROGRAM, 2'ND STRING''"

lemmas dhry_strings = some_string_def first_string_def second_string_def

definition lits_ok :: "layout \<Rightarrow> globals \<Rightarrow> bool" where
  "lits_ok l g \<longleftrightarrow> str_at g (lit_some l) some_string \<and> str_at g (lit_1st l) first_string \<and>
     str_at g (lit_2nd l) second_string"

lemma cstr_of_str_at: "str_at g a s \<Longrightarrow> length s = 30 \<Longrightarrow> 0 \<notin> set (ascii s) \<Longrightarrow> cstr (strs g) a (ascii s)"
  by (simp add: cstr_iff str_at_def ascii_def del: read_bytes.simps read_bytes_numeral)

lemma dhry_string_facts:
  "length some_string = 30" "length first_string = 30" "length second_string = 30"
  "0 \<notin> set (ascii some_string)" "0 \<notin> set (ascii first_string)" "0 \<notin> set (ascii second_string)"
  by (simp_all add: dhry_strings)

lemma copy_str_eq:
  assumes "str_at g s t" "length t = 30" "0 \<notin> set (ascii t)" "apart s 31 d 31"
  shows "copy_str d s g = Some (g\<lparr>strs := write_bytes (strs g) d (ascii t @ [0])\<rparr>)"
  using strcpy_cstr [OF cstr_of_str_at [OF assms(1-3)], of d] assms(2,4) by (simp add: copy_str_def ascii_def)

lemma str_at_written:
  "length t = 30 \<Longrightarrow> str_at (g\<lparr>strs := write_bytes m d (ascii t @ [0])\<rparr>) d t"
  by (simp add: str_at_def ascii_def mem_simps del: read_bytes_numeral)

lemma str_at_kept:
  "length bs = 31 \<Longrightarrow> apart a 31 d 31 \<Longrightarrow>
   str_at (g\<lparr>strs := write_bytes (strs g) d bs\<rparr>) a s = str_at g a s"
  by (simp add: str_at_def mem_simps del: read_bytes_numeral)

lemma str_at_cong: "strs g = strs g' \<Longrightarrow> str_at g a s = str_at g' a s"
  by (simp add: str_at_def del: read_bytes_numeral)

lemma str_at_nth: "str_at g a s \<Longrightarrow> length s = 30 \<Longrightarrow> k < 30 \<Longrightarrow> strs g (a + of_nat k) = of_char (s ! k)"
proof -
  assume a: "str_at g a s" "length s = 30" "k < 30"
  then have "read_bytes (strs g) a 31 ! k = (ascii s @ [0]) ! k" by (simp only: str_at_def)
  with a show ?thesis by (simp add: nth_read_bytes nth_append ascii_def del: read_bytes_numeral)
qed

lemma strcmp_str_at:
  assumes "str_at g a s" "str_at g b t" "length s = 30" "length t = 30" "0 \<notin> set (ascii s)" "0 \<notin> set (ascii t)"
  shows "\<exists>r. strcmp (strs g) a b = Some r \<and> (r = 0 \<longleftrightarrow> s = t) \<and> (r < 0 \<longleftrightarrow> (ascii s, ascii t) \<in> byte_lex)"
proof -
  have "ascii s = ascii t \<longleftrightarrow> s = t" using inj_map_eq_map [OF inj_of_char] by (simp add: ascii_def)
  with strcmp_cstr [OF cstr_of_str_at [OF assms(1,3,5)] cstr_of_str_at [OF assms(2,4,6)]] show ?thesis by simp
qed

section \<open>The steps of a run\<close>

lemma to_int_small: "- 2147483648 \<le> x \<Longrightarrow> x < 2147483648 \<Longrightarrow> to_int x = x"
  unfolding to_int_def int_word_sint by simp

lemma to_int_bounds: "to_int x \<le> 2147483647"
  using sint_lt [of "word_of_int x :: u32"] by (simp add: to_int_def)

lemma to_int_plus: "to_int (to_int x + y) = to_int (x + y)"
  by (simp add: to_int_def)

lemma Func_2_strings:
  assumes "str_at g s1 first_string" "str_at g s2 second_string"
  shows "Func_2 ch s1 s2 g = Some (0, g)"
proof -
  have "strs g (s1 + 2) = of_char CHR ''R''" "strs g (s2 + 3) = of_char CHR ''Y''"
    using str_at_nth [OF assms(1), of 2] str_at_nth [OF assms(2), of 3] by (simp_all add: dhry_string_facts) (simp_all add: dhry_strings)
  then have l: "func_2_loop s1 s2 2 ch g = Some (3, 65, g)"
    by (subst func_2_loop.simps; subst func_2_loop.simps) (simp add: Func_1_def)
  have "(ascii first_string, ascii second_string) \<in> byte_lex"
    by (simp add: dhry_strings)
  then obtain r where "strcmp (strs g) s1 s2 = Some r" "r < 0"
    using strcmp_str_at [OF assms] dhry_string_facts by auto
  with l show ?thesis by (simp add: Func_2_def)
qed

lemma dhry_while_run: "dhry_while 2 3 x = (3, 7)"
  by (simp add: dhry_while.simps Proc_7_def)

definition square :: "int list list \<Rightarrow> bool" where
  "square a \<longleftrightarrow> length a = 50 \<and> list_all (\<lambda>row. length row = 50) a"

lemma square_row: "square a \<Longrightarrow> i < 50 \<Longrightarrow> length (a ! i) = 50"
  by (auto simp: square_def list_all_length)

lemma square_update: "square a \<Longrightarrow> i < 50 \<Longrightarrow> square (a[i := (a ! i)[j := v]])"
  by (auto simp: square_def list_all_length nth_list_update)

lemma put2_square: "square a \<Longrightarrow> 0 \<le> i \<Longrightarrow> i < 50 \<Longrightarrow> 0 \<le> j \<Longrightarrow> j < 50 \<Longrightarrow>
    put2 a i j v = Some (a[nat i := (a ! nat i)[nat j := v]])"
  using square_row [of a "nat i"] by (auto simp: put2_def put_def square_def)

lemma get2_square: "square a \<Longrightarrow> 0 \<le> i \<Longrightarrow> i < 50 \<Longrightarrow> 0 \<le> j \<Longrightarrow> j < 50 \<Longrightarrow> get2 a i j = Some (a ! nat i ! nat j)"
  using square_row [of a "nat i"] by (auto simp: get2_def get_def square_def)

lemma proc_8_loop_two: "proc_8_loop a i i = do { b \<leftarrow> put2 a i i i; put2 b i (i + 1) i }"
proof -
  have e: "proc_8_loop b i (i + 1 + 1) = Some b" for b by (subst proc_8_loop.simps) simp
  have "proc_8_loop b i (i + 1) = put2 b i (i + 1) i" for b
    using e by (subst proc_8_loop.simps) simp
  then show ?thesis by (subst proc_8_loop.simps) simp
qed

lemma Proc_8_run:
  assumes l: "length (Arr_1_Glob g) = 50" and sq: "square (Arr_2_Glob g)" and x: "Arr_2_Glob g ! 8 ! 7 = x"
  shows "\<exists>a1 a2. Proc_8 3 7 g = Some (g\<lparr>Arr_1_Glob := a1, Arr_2_Glob := a2, Int_Glob := 5\<rparr>) \<and>
    length a1 = 50 \<and> square a2 \<and> a1 ! 8 = 7 \<and> a2 ! 8 ! 7 = to_int (x + 1)"
proof -
  define b1 where "b1 = (Arr_1_Glob g)[8 := 7]"
  define b2 where "b2 = b1[9 := 7]"
  define b3 where "b3 = b2[38 := 8]"
  have b: "put (Arr_1_Glob g) 8 7 = Some b1" "get b1 8 = Some 7" "put b1 9 7 = Some b2" "put b2 38 8 = Some b3"
    "get b3 8 = Some 7" "length b3 = 50" "b3 ! 8 = 7"
    using l by (simp_all add: put_def get_def b1_def b2_def b3_def)
  let ?a = "Arr_2_Glob g"
  define c1 where "c1 = ?a[8 := (?a ! 8)[8 := 8]]"
  define c2 where "c2 = c1[8 := (c1 ! 8)[9 := 8]]"
  define c3 where "c3 = c2[8 := (c2 ! 8)[7 := to_int (x + 1)]]"
  define c4 where "c4 = c3[28 := (c3 ! 28)[8 := 7]]"
  have sq1: "square c1" using sq unfolding c1_def by (rule square_update) simp
  then have sq2: "square c2" unfolding c2_def by (rule square_update) simp
  then have sq3: "square c3" unfolding c3_def by (rule square_update) simp
  then have sq4: "square c4" unfolding c4_def by (rule square_update) simp
  have len: "length ?a = 50" "length (?a ! 8) = 50" "length c1 = 50" "length c2 = 50" "length (c1 ! 8) = 50"
    "length (c2 ! 8) = 50" "length c3 = 50"
    using sq sq1 sq2 sq3 square_row [of _ 8] by (simp_all add: square_def)
  have "c2 ! 8 ! 7 = x" using len x by (simp add: c2_def c1_def)
  moreover have "c4 ! 8 ! 7 = to_int (x + 1)" using len by (simp add: c4_def c3_def)
  ultimately show ?thesis
    using b sq4 put2_square [OF sq, of 8 8 8] put2_square [OF sq1, of 8 9 8] get2_square [OF sq2, of 8 7]
      put2_square [OF sq2, of 8 7 "to_int (x + 1)"] put2_square [OF sq3, of 28 8 7]
    by (simp add: Proc_8_def Let_def proc_8_loop_two flip: c1_def c2_def c3_def c4_def) blast
qed

lemma Proc_2_run: "Ch_1_Glob g = 65 \<Longrightarrow> Int_Glob g = 5 \<Longrightarrow> Proc_2 e 1 g = Some 5"
  by (simp add: Proc_2_def proc_2_loop.simps)

lemma dhry_chars_run: "Ch_2_Glob g = 66 \<Longrightarrow> Enum_Loc v = Ident_2 \<Longrightarrow> dhry_chars l i 65 g v = Some (g, v)"
  by (subst dhry_chars.simps; subst dhry_chars.simps; subst dhry_chars.simps) (simp add: Func_1_def)

lemma Proc_1_run:
  assumes "Ptr_Glob g = Some Rec_Glob" "Ptr_Comp (heap g Rec_Glob) = Some Next_Rec_Glob"
    "Discr (heap g Rec_Glob) = Ident_1" "Enum_Comp (heap g Rec_Glob) = Ident_3" "Int_Glob g = 5"
  shows "Proc_1 l (Ptr_Glob g) g = Some (g\<lparr>
    heap := (heap g)(Rec_Glob := (heap g Rec_Glob)\<lparr>Int_Comp := 17\<rparr>,
      Next_Rec_Glob := (heap g Rec_Glob)\<lparr>Enum_Comp := Ident_2, Int_Comp := 18\<rparr>),
    strs := write_bytes (strs g) (Str_Comp l Next_Rec_Glob) (read_bytes (strs g) (Str_Comp l Rec_Glob) 31)\<rparr>)"
  using assms
  by (simp add: Proc_1_def deref_def assign_def structassign_def Proc_3_def Proc_6_def Proc_7_def Func_3_def Let_def
    del: read_bytes_numeral) (auto simp: fun_eq_iff)

text \<open>What holds before each run (after \<open>k\<close> runs), and the final values that a run leaves.\<close>

definition dhry_pre :: "layout \<Rightarrow> int \<Rightarrow> globals \<Rightarrow> bool" where
  "dhry_pre l k g \<longleftrightarrow>
     Ptr_Glob g = Some Rec_Glob \<and> Next_Ptr_Glob g = Some Next_Rec_Glob \<and>
     Ptr_Comp (heap g Rec_Glob) = Some Next_Rec_Glob \<and> Discr (heap g Rec_Glob) = Ident_1 \<and>
     Enum_Comp (heap g Rec_Glob) = Ident_3 \<and>
     length (Arr_1_Glob g) = 50 \<and> square (Arr_2_Glob g) \<and> Arr_2_Glob g ! 8 ! 7 = to_int (k + 10) \<and>
     lits_ok l g \<and> str_at g (Str_Comp l Rec_Glob) some_string \<and> str_at g (Str_1_Loc l) first_string"

definition dhry_done :: "layout \<Rightarrow> globals \<Rightarrow> locals \<Rightarrow> bool" where
  "dhry_done l g v \<longleftrightarrow>
     Int_Glob g = 5 \<and> Bool_Glob g = 1 \<and> Ch_1_Glob g = 65 \<and> Ch_2_Glob g = 66 \<and> Arr_1_Glob g ! 8 = 7 \<and>
     Int_Comp (heap g Rec_Glob) = 17 \<and>
     heap g Next_Rec_Glob = (heap g Rec_Glob)\<lparr>Enum_Comp := Ident_2, Int_Comp := 18\<rparr> \<and>
     str_at g (Str_Comp l Next_Rec_Glob) some_string \<and> str_at g (Str_2_Loc l) second_string \<and>
     Int_1_Loc v = 5 \<and> Int_2_Loc v = 13 \<and> Int_3_Loc v = 7 \<and> Enum_Loc v = Ident_2"

lemma ascii_30: "length s = 30 \<Longrightarrow> length (ascii s @ [0]) = 31"
  by (simp add: ascii_def)

lemma dhry_run_ok:
  assumes lay: "layout_ok l" and pre: "dhry_pre l k g"
  shows "\<exists>g' v'. dhry_run l ch e i g v = Some (g', v') \<and> dhry_pre l (k + 1) g' \<and> dhry_done l g' v'"
proof -
  note ap = lay [unfolded layout_ok_def blocks_def, simplified]
  note p = pre [unfolded dhry_pre_def lits_ok_def]
  define g1 where "g1 = Proc_4 (Proc_5 g)"
  define g2 where "g2 = g1\<lparr>strs := write_bytes (strs g1) (Str_2_Loc l) (ascii second_string @ [0])\<rparr>"
  define g3 where "g3 = g2\<lparr>Bool_Glob := 1\<rparr>"
  have s1: "strs g1 = strs g" by (simp add: g1_def Proc_4_def Proc_5_def)
  have c: "copy_str (Str_2_Loc l) (lit_2nd l) g1 = Some g2"
    unfolding g2_def using p ap dhry_string_facts s1 str_at_cong [OF s1] by (intro copy_str_eq) simp_all
  have strs2: "str_at g2 a s = str_at g a s" if "apart a 31 (Str_2_Loc l) 31" for a s
    unfolding g2_def using str_at_kept [of "ascii second_string @ [0]" a "Str_2_Loc l" g1 s] that
      ascii_30 [OF dhry_string_facts(3)] str_at_cong [OF s1] by simp
  have second: "str_at g2 (Str_2_Loc l) second_string"
    unfolding g2_def using dhry_string_facts by (intro str_at_written)
  have f: "Func_2 ch (Str_1_Loc l) (Str_2_Loc l) g2 = Some (0, g2)"
    using p ap second by (intro Func_2_strings) (simp_all add: strs2)
  obtain a1 a2 where p8: "Proc_8 3 7 g3 = Some (g3\<lparr>Arr_1_Glob := a1, Arr_2_Glob := a2, Int_Glob := 5\<rparr>)"
      "length a1 = 50" "square a2" "a1 ! 8 = 7" "a2 ! 8 ! 7 = to_int (k + 1 + 10)"
    using Proc_8_run [of g3 "to_int (k + 10)"] p by (auto simp: g3_def g2_def g1_def Proc_4_def Proc_5_def to_int_plus)
  define g4 where "g4 = g3\<lparr>Arr_1_Glob := a1, Arr_2_Glob := a2, Int_Glob := 5\<rparr>"
  have h4: "heap g4 = heap g" "Ptr_Glob g4 = Some Rec_Glob" "Next_Ptr_Glob g4 = Some Next_Rec_Glob" "Int_Glob g4 = 5"
      "strs g4 = strs g2" "Ch_1_Glob g4 = 65" "Ch_2_Glob g4 = 66" "Bool_Glob g4 = 1" "Arr_1_Glob g4 = a1" "Arr_2_Glob g4 = a2"
    using p by (simp_all add: g4_def g3_def g2_def g1_def Proc_4_def Proc_5_def)
  define w where "w = read_bytes (strs g4) (Str_Comp l Rec_Glob) 31"
  define g5 where "g5 = g4\<lparr>heap := (heap g4)(Rec_Glob := (heap g4 Rec_Glob)\<lparr>Int_Comp := 17\<rparr>,
      Next_Rec_Glob := (heap g4 Rec_Glob)\<lparr>Enum_Comp := Ident_2, Int_Comp := 18\<rparr>),
    strs := write_bytes (strs g4) (Str_Comp l Next_Rec_Glob) w\<rparr>"
  have p1: "Proc_1 l (Ptr_Glob g4) g4 = Some g5"
    unfolding g5_def w_def using p h4 by (intro Proc_1_run) simp_all
  have rec2: "str_at g2 (Str_Comp l Rec_Glob) some_string" using p ap by (simp add: strs2)
  then have w: "w = ascii some_string @ [0]"
    unfolding w_def h4(5) str_at_def .
  have strs5: "str_at g5 a s = str_at g2 a s" if "apart a 31 (Str_Comp l Next_Rec_Glob) 31" for a s
    using that h4(5) w ascii_30 [OF dhry_string_facts(1)]
    by (simp add: g5_def str_at_def mem_simps del: read_bytes_numeral)
  have next5: "str_at g5 (Str_Comp l Next_Rec_Glob) some_string"
    using w by (simp add: g5_def str_at_def mem_simps dhry_string_facts ascii_def del: read_bytes_numeral)
  define v' where "v' = v\<lparr>Int_1_Loc := 5, Int_2_Loc := 13, Int_3_Loc := 7, Enum_Loc := Ident_2\<rparr>"
  have h5: "Ch_1_Glob g5 = 65" "Ch_2_Glob g5 = 66" "Int_Glob g5 = 5" using h4 by (simp_all add: g5_def)
  have run: "dhry_run l ch e i g v = Some (g5, v')"
    unfolding dhry_run_def Let_def g1_def [symmetric] c bind.bind_lunit
    using c f p8(1) p1 h5
    by (simp add: dhry_while_run dhry_chars_run Proc_2_run cdiv_def v'_def flip: g3_def g4_def)
  have "dhry_pre l (k + 1) g5"
    using p ap p8 rec2 h4 by (simp add: dhry_pre_def lits_ok_def strs5 strs2, simp add: g5_def)
  moreover have "dhry_done l g5 v'"
    using ap second next5 h4 p8 by (simp add: dhry_done_def strs5 v'_def, simp add: g5_def)
  ultimately show ?thesis using run by blast
qed

lemma dhry_runs_ok:
  "layout_ok l \<Longrightarrow> dhry_pre l k g \<Longrightarrow> i + int n < 2147483647 \<Longrightarrow> - 2147483648 \<le> i \<Longrightarrow>
   \<exists>g' v'. dhry_runs l ch e (i + int n) i g v = Some (g', v') \<and> dhry_pre l (k + int (Suc n)) g' \<and> dhry_done l g' v'"
proof (induction n arbitrary: k i g v)
  case 0
  obtain g1 v1 where r: "dhry_run l ch e i g v = Some (g1, v1)" "dhry_pre l (k + 1) g1" "dhry_done l g1 v1"
    using dhry_run_ok [OF 0(1,2)] by blast
  moreover have "to_int (i + 1) = i + 1" using 0 by (intro to_int_small) simp_all
  then have "dhry_runs l ch e i (to_int (i + 1)) g1 v1 = Some (g1, v1)" by (subst dhry_runs.simps) simp
  ultimately show ?case by (subst dhry_runs.simps) simp
next
  case (Suc n)
  obtain g1 v1 where r: "dhry_run l ch e i g v = Some (g1, v1)" "dhry_pre l (k + 1) g1"
    using dhry_run_ok [OF Suc.prems(1,2)] by blast
  have i: "to_int (i + 1) = i + 1" using Suc.prems(3,4) by (intro to_int_small) simp_all
  have n: "i + int (Suc n) = i + 1 + int n" by simp
  have "i + 1 + int n < 2147483647" "- 2147483648 \<le> i + 1" using Suc.prems(3,4) by simp_all
  from Suc.IH [OF Suc.prems(1) r(2) this]
  obtain g' v' where "dhry_runs l ch e (i + 1 + int n) (i + 1) g1 v1 = Some (g', v')" "dhry_pre l (k + 1 + int (Suc n)) g'" "dhry_done l g' v'"
    by blast
  with r i show ?case unfolding n by (subst dhry_runs.simps) (simp add: add.assoc)
qed

text \<open>No \<open>int\<close> is greater than the greatest one: that many runs do not end.\<close>

lemma dhry_runs_max: "i \<le> 2147483647 \<Longrightarrow> dhry_runs l ch e 2147483647 i g v = None"
proof -
  have "dhry_runs l ch e n i g v = Some r \<Longrightarrow> n = 2147483647 \<longrightarrow> i \<le> 2147483647 \<longrightarrow> False" for n r
  proof (rule dhry_runs.raw_induct [of "\<lambda>l ch e n i g v r. n = 2147483647 \<longrightarrow> i \<le> 2147483647 \<longrightarrow> False"])
    fix runs l ch e n i g v and r :: "globals \<times> locals"
    assume ih: "\<And>l ch e n i g v r. runs l ch e n i g v = Some r \<Longrightarrow> n = 2147483647 \<longrightarrow> i \<le> 2147483647 \<longrightarrow> False"
      and r: "(if i \<le> n then do { (g, v) \<leftarrow> dhry_run l ch e i g v; runs l ch e n (to_int (i + 1)) g v } else Some (g, v)) = Some r"
    show "n = 2147483647 \<longrightarrow> i \<le> 2147483647 \<longrightarrow> False"
    proof (intro impI)
      assume n: "n = 2147483647" "i \<le> 2147483647"
      then obtain g1 v1 where "runs l ch e n (to_int (i + 1)) g1 v1 = Some r" using r by (auto split: bind_splits)
      from ih [OF this] n(1) to_int_bounds show False by blast
    qed
  qed
  then show "i \<le> 2147483647 \<Longrightarrow> dhry_runs l ch e 2147483647 i g v = None"
    by (cases "dhry_runs l ch e 2147483647 i g v") auto
qed

definition arrays_ok :: "globals \<Rightarrow> bool" where
  "arrays_ok g \<longleftrightarrow> length (Arr_1_Glob g) = 50 \<and> square (Arr_2_Glob g)"

lemma dhry_init_ok:
  assumes lay: "layout_ok l" and a: "arrays_ok g" and lits: "lits_ok l g"
  shows "\<exists>g'. dhry_init l g = Some g' \<and> dhry_pre l 0 g'"
proof -
  note ap = lay [unfolded layout_ok_def blocks_def, simplified]
  note li = lits [unfolded lits_ok_def]
  define g1 where "g1 = g\<lparr>Next_Ptr_Glob := Some Next_Rec_Glob, Ptr_Glob := Some Rec_Glob,
    heap := (heap g)(Rec_Glob := (heap g Rec_Glob)\<lparr>Ptr_Comp := Some Next_Rec_Glob, Discr := Ident_1,
      Enum_Comp := Ident_3, Int_Comp := 40\<rparr>)\<rparr>"
  have s1: "strs g1 = strs g" by (simp add: g1_def)
  define g2 where "g2 = g1\<lparr>strs := write_bytes (strs g1) (Str_Comp l Rec_Glob) (ascii some_string @ [0])\<rparr>"
  define g3 where "g3 = g2\<lparr>strs := write_bytes (strs g2) (Str_1_Loc l) (ascii first_string @ [0])\<rparr>"
  have c1: "copy_str (Str_Comp l Rec_Glob) (lit_some l) g1 = Some g2"
    unfolding g2_def using li ap dhry_string_facts str_at_cong [OF s1] by (intro copy_str_eq) simp_all
  have k2: "str_at g2 a s = str_at g a s" if "apart a 31 (Str_Comp l Rec_Glob) 31" for a s
    unfolding g2_def using str_at_kept [OF ascii_30 [OF dhry_string_facts(1)] that, of g1] str_at_cong [OF s1] by simp
  have c2: "copy_str (Str_1_Loc l) (lit_1st l) g2 = Some g3"
    unfolding g3_def using li ap dhry_string_facts by (intro copy_str_eq) (simp_all add: k2)
  have k3: "str_at g3 a s = str_at g2 a s" if "apart a 31 (Str_1_Loc l) 31" for a s
    unfolding g3_def using str_at_kept [OF ascii_30 [OF dhry_string_facts(2)] that, of g2] .
  have w: "str_at g2 (Str_Comp l Rec_Glob) some_string" "str_at g3 (Str_1_Loc l) first_string"
    unfolding g2_def g3_def using dhry_string_facts by (auto intro!: str_at_written)
  define b where "b = (Arr_2_Glob g)[8 := (Arr_2_Glob g ! 8)[7 := 10]]"
  have sq: "square (Arr_2_Glob g)" using a by (simp add: arrays_ok_def)
  have b: "put2 (Arr_2_Glob g3) 8 7 10 = Some b" "square b" "b ! 8 ! 7 = 10"
  proof -
    have g3: "Arr_2_Glob g3 = Arr_2_Glob g" by (simp add: g3_def g2_def g1_def)
    show "put2 (Arr_2_Glob g3) 8 7 10 = Some b" using put2_square [OF sq, of 8 7 10] by (simp add: g3 b_def)
    show "square b" unfolding b_def using sq by (rule square_update) simp
    show "b ! 8 ! 7 = 10" using sq square_row [OF sq, of 8] by (simp add: b_def square_def)
  qed
  have "dhry_init l g = Some (g3\<lparr>Arr_2_Glob := b\<rparr>)"
    using c1 c2 b(1) by (simp add: dhry_init_def assign_def flip: g1_def) (simp add: g1_def g2_def)
  moreover have "dhry_pre l 0 (g3\<lparr>Arr_2_Glob := b\<rparr>)"
  proof -
    have "str_at (g3\<lparr>Arr_2_Glob := b\<rparr>) x s = str_at g3 x s" for x s by (rule str_at_cong) simp
    moreover have "to_int 10 = 10" by (rule to_int_small) simp_all
    ultimately show ?thesis
      using ap li w b a by (simp add: dhry_pre_def lits_ok_def k2 k3 arrays_ok_def, simp add: g3_def g2_def g1_def)
  qed
  ultimately show ?thesis by blast
qed

lemma dhry_check_ok:
  assumes "dhry_pre l n g" "dhry_done l g v"
  shows "dhry_check l n g v = Some 0"
proof -
  note p = assms(1) [unfolded dhry_pre_def lits_ok_def] and q = assms(2) [unfolded dhry_done_def]
  have s: "\<exists>r. strcmp (strs g) x y = Some r \<and> r = 0" if "str_at g x t" "str_at g y t" "t \<in> {some_string, first_string, second_string}" for x y t
    using strcmp_str_at [OF that(1,2)] that(3) dhry_string_facts by auto
  have e: "strcmp (strs g) (Str_Comp l Rec_Glob) (lit_some l) = Some 0"
    "strcmp (strs g) (Str_Comp l Next_Rec_Glob) (lit_some l) = Some 0"
    "strcmp (strs g) (Str_1_Loc l) (lit_1st l) = Some 0"
    "strcmp (strs g) (Str_2_Loc l) (lit_2nd l) = Some 0"
    using s [of "Str_Comp l Rec_Glob" some_string "lit_some l"] s [of "Str_Comp l Next_Rec_Glob" some_string "lit_some l"]
      s [of "Str_1_Loc l" first_string "lit_1st l"] s [of "Str_2_Loc l" second_string "lit_2nd l"] p q by auto
  have "get (Arr_1_Glob g) 8 = Some 7" "get2 (Arr_2_Glob g) 8 7 = Some (to_int (n + 10))"
    using p q get2_square [of "Arr_2_Glob g" 8 7] by (simp_all add: get_def)
  with p q e show ?thesis by (simp add: dhry_check_def deref_def)
qed

lemma final_values_said:
  assumes "dhry_pre l n g" "dhry_done l g v"
  shows "\<exists>texts out. final_values l n g v = Some texts \<and> says (strs g) texts h = Some (send out h)"
proof -
  note p = assms(1) [unfolded dhry_pre_def lits_ok_def] and q = assms(2) [unfolded dhry_done_def]
  have s: "\<exists>out. conv_spec (strs g) CHR ''s'' x = Some out" if "str_at g x t" "t \<in> {some_string, first_string, second_string}" for x t
    using conv_spec_string [OF cstr_of_str_at [OF that(1)]] that(2) dhry_string_facts by auto
  obtain o1 o2 o3 o4 where e: "conv_spec (strs g) CHR ''s'' (Str_Comp l Rec_Glob) = Some o1"
    "conv_spec (strs g) CHR ''s'' (Str_Comp l Next_Rec_Glob) = Some o2"
    "conv_spec (strs g) CHR ''s'' (Str_1_Loc l) = Some o3" "conv_spec (strs g) CHR ''s'' (Str_2_Loc l) = Some o4"
    using s [of "Str_Comp l Rec_Glob" some_string] s [of "Str_Comp l Next_Rec_Glob" some_string]
      s [of "Str_1_Loc l" first_string] s [of "Str_2_Loc l" second_string] p q by auto
  have "get (Arr_1_Glob g) 8 = Some 7" "get2 (Arr_2_Glob g) 8 7 = Some (to_int (n + 10))"
    using p q get2_square [of "Arr_2_Glob g" 8 7] by (simp_all add: get_def)
  then obtain texts where t: "final_values l n g v = Some texts"
    "list_all (\<lambda>(f, a). 0 \<notin> set (ascii f) \<and> (\<exists>out. fmt_spec (strs g) f a = Some out)) texts"
    using p q e by (simp add: final_values_def deref_def Let_def)
  then show ?thesis using says_ok [OF t(2)] by blast
qed

lemma dhry_time_said:
  assumes "1 \<le> n"
  shows "\<exists>out. dhry_time m n b e h = Some (send out h)"
proof -
  have a: "\<exists>out. says m [(ln ''Begin ns: %lu'', [b]), (ln ''End ns: %lu'', [e]), (ln ''Total ns: %lu'', [e - b])] h = Some (send out h)" for h
    by (rule says_ok) simp
  have s: "\<exists>out. says m [(ln ''Measured time too small to obtain meaningful results'', []),
               (ln ''Please increase number of runs'', []), (ln [], [])] h = Some (send out h)" for h
    by (rule says_ok) simp
  have d: "\<exists>out. says m [(''Dhrystones per ms:                      '', []), (ln ''%1u '', [x]), (ln [], [])] h = Some (send out h)" for h x
  proof -
    have "printf m (ln ''%1u '') [x] = Some (pb x 10 False @ [32, 13, 10])" by (simp add: printf_eval putchar_def)
    moreover have "printf m ''Dhrystones per ms:                      '' [] = Some (crlf (ascii ''Dhrystones per ms:                      ''))"
      "printf m (ln []) [] = Some [13, 10]" by (rule printf_fmt_spec, simp_all add: crlf_def)+
    ultimately show ?thesis by (simp add: say_def send_def flip: map_append) (metis append.assoc)
  qed
  obtain o1 where o1: "says m [(ln ''Begin ns: %lu'', [b]), (ln ''End ns: %lu'', [e]), (ln ''Total ns: %lu'', [e - b])] h = Some (send o1 h)"
    using a by blast
  have j: "send y (send x h) = send (x @ y) h" for x y by (simp add: send_def)
  show ?thesis
  proof (cases "sint (e - b) < 120")
    case True
    obtain o2 where "says m [(ln ''Measured time too small to obtain meaningful results'', []),
               (ln ''Please increase number of runs'', []), (ln [], [])] (send o1 h) = Some (send o2 (send o1 h))"
      using s by blast
    with o1 True show ?thesis unfolding dhry_time_def Let_def by (simp del: says.simps add: j) blast
  next
    case False
    then obtain x y where c: "cdiv (sint (e - b)) n = Some x" "cdiv (to_int (1000000 * n)) (sint (e - b)) = Some y"
      using assms by (simp add: cdiv_def)
    obtain o2 where "says m [(''Dhrystones per ms:                      '', []), (ln ''%1u '', [word_of_int y]), (ln [], [])] (send o1 h)
        = Some (send o2 (send o1 h))"
      using d by blast
    with o1 False c show ?thesis unfolding dhry_time_def Let_def by (simp del: says.simps add: j) blast
  qed
qed

lemma banner_said: "\<exists>out. says m banner h = Some (send out h)"
  by (rule says_ok) (simp add: banner_def)

lemma dhrystone_ok:
  assumes lay: "layout_ok l" and g: "arrays_ok g" "lits_ok l g" and n: "1 \<le> n" "n < 2147483647"
  shows "\<exists>g' o1 o2 t0 t1. dhrystone d l n ch e v g h =
      Some (g', 0, h @ map Uart o1 @ [Load TIMER_ADDR t0, Load TIMER_ADDR t1] @ map Uart o2) \<and>
    arrays_ok g' \<and> lits_ok l g'"
proof -
  obtain a1 where a1: "says (strs g) banner h = Some (send a1 h)" using banner_said by blast
  obtain g1 where g1: "dhry_init l g = Some g1" "dhry_pre l 0 g1" using dhry_init_ok [OF lay g] by blast
  define h1 where "h1 = send a1 h"
  obtain a2 where a2: "says (strs g1) banner h1 = Some (send a2 h1)" using banner_said by blast
  define h2 where "h2 = send a2 h1"
  have "\<exists>out. says (strs g1) [(ln ''Program compiled without 'register' attribute'', []), (ln [], [])] h2 = Some (send out h2)"
    by (rule says_ok) simp
  then obtain a3 where a3: "says (strs g1) [(ln ''Program compiled without 'register' attribute'', []), (ln [], [])] h2 = Some (send a3 h2)"
    by blast
  define h3 where "h3 = send a3 h2"
  have "\<exists>out. fmt_spec (strs g1) (ln ''Execution starts, %d runs through Dhrystone'') [word_of_int n] = Some out"
    by simp
  then obtain a4 where a4: "say (strs g1) (ln ''Execution starts, %d runs through Dhrystone'') [word_of_int n] h3 = Some (send a4 h3)"
    unfolding say_def using printf_fmt_spec by fastforce
  define h4 where "h4 = send a4 h3"
  define t0 where "t0 = mmio d h4 TIMER_ADDR"
  have k: "1 + int (nat (n - 1)) = n" "0 + int (Suc (nat (n - 1))) = n" using n(1) by simp_all
  obtain g2 v2 where r: "dhry_runs l ch e n 1 g1 v = Some (g2, v2)" "dhry_pre l n g2" "dhry_done l g2 v2"
    using dhry_runs_ok [OF lay g1(2), of 1 "nat (n - 1)" ch e v, unfolded k] n(2) by auto
  define h5 where "h5 = h4 @ [Load TIMER_ADDR t0]"
  define t1 where "t1 = mmio d h5 TIMER_ADDR"
  define h6 where "h6 = h5 @ [Load TIMER_ADDR t1]"
  obtain texts a5 where a5: "final_values l n g2 v2 = Some texts" "says (strs g2) texts h6 = Some (send a5 h6)"
    using final_values_said [OF r(2,3)] by blast
  define h7 where "h7 = send a5 h6"
  obtain a6 where a6: "dhry_time (strs g2) n (t0 * 10) (t1 * 10) h7 = Some (send a6 h7)"
    using dhry_time_said [OF n(1)] by blast
  have ns: "get_ns d h4 = (t0 * 10, h5)" "get_ns d h5 = (t1 * 10, h6)"
    by (simp_all add: get_ns_eq t0_def t1_def h5_def h6_def)
  have "dhrystone d l n ch e v g h = Some (g2, 0, send a6 h7)"
    unfolding dhrystone_def Reg_def
    using a1 a2 a3 a4 g1 ns r a5 a6 dhry_check_ok [OF r(2,3)]
    by (simp add: Let_def del: says.simps flip: h1_def h2_def h3_def h4_def h7_def)
  moreover have "send a6 h7 = h @ map Uart (a1 @ a2 @ a3 @ a4) @ [Load TIMER_ADDR t0, Load TIMER_ADDR t1] @ map Uart (a5 @ a6)"
    by (simp add: h7_def h6_def h5_def h4_def h3_def h2_def h1_def send_def)
  ultimately have "dhrystone d l n ch e v g h =
      Some (g2, 0, h @ map Uart (a1 @ a2 @ a3 @ a4) @ [Load TIMER_ADDR t0, Load TIMER_ADDR t1] @ map Uart (a5 @ a6))"
    by (simp only:)
  moreover have "arrays_ok g2" "lits_ok l g2" using r(2) by (simp_all add: dhry_pre_def arrays_ok_def)
  ultimately show ?thesis by blast
qed

lemma dhrystone_max: "dhrystone d l 2147483647 ch e v g h = None"
  unfolding dhrystone_def Reg_def
  by (simp add: dhry_runs_max Let_def split: prod.split del: says.simps cong: option.case_cong)

lemma dhrystone_test:
  "layout_ok l \<Longrightarrow> 1 \<le> n \<Longrightarrow> n < 2147483647 \<Longrightarrow> passing_test (dhrystone d l n ch e v) (\<lambda>g. arrays_ok g \<and> lits_ok l g)"
proof unfold_locales
  fix g h assume "layout_ok l" "1 \<le> n" "n < 2147483647" "arrays_ok g \<and> lits_ok l g"
  then obtain g' o1 o2 t0 t1 where "dhrystone d l n ch e v g h =
      Some (g', 0, h @ map Uart o1 @ [Load TIMER_ADDR t0, Load TIMER_ADDR t1] @ map Uart o2)" "arrays_ok g'" "lits_ok l g'"
    using dhrystone_ok [of l g n d ch e v h] by blast
  then show "\<exists>s' es. dhrystone d l n ch e v g h = Some (s', 0, h @ es) \<and> (arrays_ok s' \<and> lits_ok l s') \<and> no_store es"
    by (intro exI [of _ g'] exI [of _ "map Uart o1 @ [Load TIMER_ADDR t0, Load TIMER_ADDR t1] @ map Uart o2"]) simp
qed

section \<open>Properties\<close>

text \<open>C25: for every number of runs that is at least 1 and less than the greatest \<open>int\<close>, and whatever the variables
  held before and the locals that are not initialised, \<open>dhrystone\<close> ends and returns 0: all final values are as
  the benchmark says they should be.  It reads the timer twice and otherwise only prints.  For the
  greatest \<open>int\<close> the index of the loop wraps and it does not end.\<close>

theorem dhrystone_passes:
  "layout_ok l \<Longrightarrow> arrays_ok g \<Longrightarrow> lits_ok l g \<Longrightarrow> 1 \<le> n \<Longrightarrow> n \<le> 2147483647 \<Longrightarrow>
   if n = 2147483647 then dhrystone d l n ch e v g h = None
   else \<exists>g' o1 o2 t0 t1. dhrystone d l n ch e v g h =
      Some (g', 0, h @ map Uart o1 @ [Load TIMER_ADDR t0, Load TIMER_ADDR t1] @ map Uart o2) \<and>
    arrays_ok g' \<and> lits_ok l g'"
  using dhrystone_ok [of l g n d ch e v h] dhrystone_max [of d l ch e v g h] by simp

text \<open>A layout and initial variables, for the witnesses.\<close>

definition lay0 :: layout where
  "lay0 = \<lparr>Str_Comp = (\<lambda>r. case r of Rec_Glob \<Rightarrow> 0 | Next_Rec_Glob \<Rightarrow> 32), Str_1_Loc = 64, Str_2_Loc = 96,
     lit_some = 128, lit_1st = 160, lit_2nd = 192, lit_3rd = 224, rec_addr = (\<lambda>r. 0)\<rparr>"

definition glob0 :: globals where
  "glob0 = \<lparr>heap = (\<lambda>r. \<lparr>Ptr_Comp = None, Discr = Ident_5, Enum_Comp = Ident_5, Int_Comp = 0\<rparr>),
     strs = write_bytes (write_bytes (write_bytes (\<lambda>_. 0) 192 (ascii second_string @ [0])) 160 (ascii first_string @ [0]))
       128 (ascii some_string @ [0]),
     Ptr_Glob = None, Next_Ptr_Glob = None, Int_Glob = 0, Bool_Glob = 0, Ch_1_Glob = 0, Ch_2_Glob = 0,
     Arr_1_Glob = replicate 50 0, Arr_2_Glob = replicate 50 (replicate 50 0)\<rparr>"

lemma lay0_ok: "layout_ok lay0"
  by (simp add: layout_ok_def blocks_def lay0_def apart_before apart_after)

lemma glob0_ok: "arrays_ok glob0" "lits_ok lay0 glob0"
proof -
  show "arrays_ok glob0" by (simp add: arrays_ok_def square_def glob0_def list_all_length)
  have "apart 160 31 128 31" "apart 192 31 128 31" "apart 192 31 160 31" by (simp_all add: apart_after)
  moreover have "length (ascii some_string) = 30" "length (ascii first_string) = 30" "length (ascii second_string) = 30"
    by (simp_all add: ascii_def dhry_string_facts)
  ultimately show "lits_ok lay0 glob0"
    by (simp add: lits_ok_def str_at_def glob0_def lay0_def mem_simps del: read_bytes_numeral)
qed

lemma dhrystone_passes_witness:
  "\<exists>g' o1 o2 t0 t1. dhrystone \<lparr>mmio = \<lambda>h a. of_nat (length h), cp0 = \<lambda>h r. 0\<rparr> lay0 10 0 Ident_3
      \<lparr>Int_1_Loc = 9, Int_2_Loc = 9, Int_3_Loc = 9, Enum_Loc = Ident_4\<rparr> glob0 [] =
      Some (g', 0, [] @ map Uart o1 @ [Load TIMER_ADDR t0, Load TIMER_ADDR t1] @ map Uart o2) \<and>
    arrays_ok g' \<and> lits_ok lay0 g'"
  using dhrystone_passes [OF lay0_ok glob0_ok, of 10 "\<lparr>mmio = \<lambda>h a. of_nat (length h), cp0 = \<lambda>h r. 0\<rparr>" 0 Ident_3
      "\<lparr>Int_1_Loc = 9, Int_2_Loc = 9, Int_3_Loc = 9, Enum_Loc = Ident_4\<rparr>" "[]"]
  by (simp only: num.simps numeral_eq_iff if_False append_Nil)

text \<open>Shell 5 passes: its runs of Dhrystone store nothing to the board and have no errors.\<close>

theorem dhrystone_shell_passes:
  "layout_ok l \<Longrightarrow> arrays_ok g \<Longrightarrow> lits_ok l g \<Longrightarrow>
   \<exists>g' es flag t0 c0 c1 t1. shell5 d l ch e v g h = Some (g', h @
      [Store TIMER_ADDR 0, Mtc0 9 0] @ map Uart (crlf (ascii (ln ''dhrystone test begin.''))) @
      [Load TIMER_ADDR t0, Mfc0 9 c0, Load SIMU_FLAG_ADDR flag] @ es @ [Mfc0 9 c1, Load TIMER_ADDR t1] @
      verdict_events (ln ''dhrystone PASS!'') (ln ''dhrystone ERROR!!!'') 0 @
      report_events ''dhrystone'' (t1 - t0) (c1 - c0)) \<and> no_store es"
proof -
  assume a: "layout_ok l" "arrays_ok g" "lits_ok l g"
  have p: "plain ''dhrystone''" by (simp add: plain_def)
  have "passing_test (dhrystone d l 10 ch e v) (\<lambda>g. arrays_ok g \<and> lits_ok l g)"
    by (rule dhrystone_test [OF a(1)]) simp_all
  from passing_test.shell_ok [OF this p, of g d "strs g" h] a(2,3) show ?thesis
    unfolding shell5_def by (simp only: append.simps simp_thms) blast
qed

lemma dhrystone_shell_passes_witness:
  "\<exists>g' es flag t0 c0 c1 t1. shell5 \<lparr>mmio = \<lambda>h a. of_nat (length h), cp0 = \<lambda>h r. 0\<rparr> lay0 0 Ident_3
      \<lparr>Int_1_Loc = 9, Int_2_Loc = 9, Int_3_Loc = 9, Enum_Loc = Ident_4\<rparr> glob0 [] = Some (g', [] @
      [Store TIMER_ADDR 0, Mtc0 9 0] @ map Uart (crlf (ascii (ln ''dhrystone test begin.''))) @
      [Load TIMER_ADDR t0, Mfc0 9 c0, Load SIMU_FLAG_ADDR flag] @ es @ [Mfc0 9 c1, Load TIMER_ADDR t1] @
      verdict_events (ln ''dhrystone PASS!'') (ln ''dhrystone ERROR!!!'') 0 @
      report_events ''dhrystone'' (t1 - t0) (c1 - c0)) \<and> no_store es"
  by (rule dhrystone_shell_passes [OF lay0_ok glob0_ok])

end
