(* ===== verification/CoreUtil.thy ===== *)
theory CoreUtil
  imports Libstr Console
begin

text \<open>
  The helpers of CoreMark, \<^verbatim>\<open>bench/coremark/core_util.c\<close>: the parser of numeric
  arguments (the build selects \<open>SEED_ARG\<close>), the 16-bit checksum of the results, and the check of
  the data types.  \<open>ee_s16\<close> and \<open>ee_s32\<close> are words read signed; signed arithmetic wraps.
  The reference of the checksum is the shift register of the reflected polynomial \<open>0xA001\<close>.
\<close>

unbundle bit_operations_syntax

section \<open>Numeric arguments\<close>

definition is_dec :: "u8 \<Rightarrow> bool" where
  "is_dec c \<longleftrightarrow> schar c \<ge> 48 \<and> schar c \<le> 57"

definition is_hex :: "u8 \<Rightarrow> bool" where
  "is_hex c \<longleftrightarrow> is_dec c \<or> schar c \<ge> 97 \<and> schar c \<le> 102"

definition hex_digit :: "u8 \<Rightarrow> u32" where
  "hex_digit c = (let digit = schar c - 48 in word_of_int (if digit > 9 then 10 + schar c - 97 else digit))"

partial_function (option) parse_hex :: "mem \<Rightarrow> addr \<Rightarrow> u32 \<Rightarrow> (addr \<times> u32) option" where
  "parse_hex m p retval =
     (if is_hex (m p) then parse_hex m (p + 1) (retval * 16 + hex_digit (m p)) else Some (p, retval))"

declare parse_hex.simps [code]

partial_function (option) parse_dec :: "mem \<Rightarrow> addr \<Rightarrow> u32 \<Rightarrow> (addr \<times> u32) option" where
  "parse_dec m p retval =
     (if is_dec (m p) then parse_dec m (p + 1) (retval * 10 + word_of_int (schar (m p) - 48))
      else Some (p, retval))"

declare parse_dec.simps [code]

definition parseval :: "mem \<Rightarrow> addr \<Rightarrow> u32 option" where
  "parseval m valstring =
     do { let (neg, p) = (if m valstring = 0x2d then (-1, valstring + 1) else (1, valstring));
          let (hexmode, p) = (if m p = 0x30 \<and> m (p + 1) = 0x78 then (True, p + 2) else (False, p));
          (p, retval) \<leftarrow> (if hexmode then parse_hex m p 0 else parse_dec m p 0);
          let retval = (if m p = 0x4b then retval * 1024 else retval);
          let retval = (if m p = 0x4d then retval * 1024 * 1024 else retval);
          Some (retval * neg) }"

text \<open>\<open>argv\<close> is an array of pointers in memory.\<close>

definition get_seed_args :: "mem \<Rightarrow> int \<Rightarrow> int \<Rightarrow> addr \<Rightarrow> u32 option" where
  "get_seed_args m i argc argv =
     (if argc > i then parseval m (ld32 m (argv + word_of_int (4 * i))) else Some 0)"

section \<open>The checksum\<close>

definition crcu8_step :: "u8 \<Rightarrow> u16 \<Rightarrow> u8 \<times> u16" where
  "crcu8_step data crc =
     (let x16 = (data AND 1) XOR (ucast crc AND 1);
          data = drop_bit 1 data;
          (crc, carry) = (if x16 = 1 then (crc XOR 0x4002, 1 :: u8) else (crc, 0));
          crc = drop_bit 1 crc;
          crc = (if carry \<noteq> 0 then crc OR 0x8000 else crc AND 0x7fff)
      in (data, crc))"

fun crcu8_loop :: "nat \<Rightarrow> u8 \<Rightarrow> u16 \<Rightarrow> u16" where
  "crcu8_loop 0 data crc = crc"
| "crcu8_loop (Suc n) data crc = (let (data, crc) = crcu8_step data crc in crcu8_loop n data crc)"

definition crcu8 :: "u8 \<Rightarrow> u16 \<Rightarrow> u16" where
  "crcu8 data crc = crcu8_loop 8 data crc"

definition crcu16 :: "u16 \<Rightarrow> u16 \<Rightarrow> u16" where
  "crcu16 newval crc = crcu8 (ucast (drop_bit 8 newval)) (crcu8 (ucast newval) crc)"

definition crc16 :: "u16 \<Rightarrow> u16 \<Rightarrow> u16" where
  "crc16 newval crc = crcu16 newval crc"

definition crcu32 :: "u32 \<Rightarrow> u16 \<Rightarrow> u16" where
  "crcu32 newval crc = crc16 (ucast (drop_bit 16 newval)) (crc16 (ucast newval) crc)"

section \<open>The data types\<close>

text \<open>The seven sizes the compiler gives, and the number of errors with what is printed.\<close>

record type_sizes =
  size_ee_u8 :: nat
  size_ee_u16 :: nat
  size_ee_s16 :: nat
  size_ee_s32 :: nat
  size_ee_u32 :: nat
  size_ee_ptr_int :: nat
  size_pointer :: nat

definition check_size :: "mem \<Rightarrow> bool \<Rightarrow> string \<Rightarrow> u8 \<times> u8 list \<Rightarrow> (u8 \<times> u8 list) option" where
  "check_size m wrong msg st =
     (let (retval, out) = st
      in if wrong then do { o1 \<leftarrow> printf m msg []; Some (retval + 1, out @ o1) } else Some st)"

definition check_data_types :: "mem \<Rightarrow> type_sizes \<Rightarrow> (u8 \<times> u8 list) option" where
  "check_data_types m sz =
     do { s1 \<leftarrow> check_size m (size_ee_u8 sz \<noteq> 1) (ln ''ERROR: ee_u8 is not an 8b datatype!'') (0, []);
          s2 \<leftarrow> check_size m (size_ee_u16 sz \<noteq> 2) (ln ''ERROR: ee_u16 is not a 16b datatype!'') s1;
          s3 \<leftarrow> check_size m (size_ee_s16 sz \<noteq> 2) (ln ''ERROR: ee_s16 is not a 16b datatype!'') s2;
          s4 \<leftarrow> check_size m (size_ee_s32 sz \<noteq> 4) (ln ''ERROR: ee_s32 is not a 32b datatype!'') s3;
          s5 \<leftarrow> check_size m (size_ee_u32 sz \<noteq> 4) (ln ''ERROR: ee_u32 is not a 32b datatype!'') s4;
          (retval, out) \<leftarrow> check_size m (size_ee_ptr_int sz \<noteq> size_pointer sz)
             (ln ''ERROR: ee_ptr_int is not a datatype that holds an int pointer!'') s5;
          if retval > 0
          then do { o1 \<leftarrow> printf m (ln ''ERROR: Please modify the datatypes in core_portme.h!'') [];
                    Some (retval, out @ o1) }
          else Some (retval, out) }"

definition mips_sizes :: type_sizes where
  "mips_sizes = \<lparr>size_ee_u8 = 1, size_ee_u16 = 2, size_ee_s16 = 2, size_ee_s32 = 4, size_ee_u32 = 4,
     size_ee_ptr_int = 4, size_pointer = 4\<rparr>"

section \<open>What the parser returns\<close>

text \<open>The digits at the front of a string, then a unit.\<close>

definition digits_value :: "u32 \<Rightarrow> (u8 \<Rightarrow> u32) \<Rightarrow> u8 list \<Rightarrow> u32" where
  "digits_value base val ds = foldl (\<lambda>r c. r * base + val c) 0 ds"

definition unit_of :: "u8 list \<Rightarrow> u32" where
  "unit_of r = (if take 1 r = [0x4b] then 1024 else if take 1 r = [0x4d] then 1024 * 1024 else 1)"

definition unsigned_value :: "u8 list \<Rightarrow> u32" where
  "unsigned_value bs =
     (if take 2 bs = [0x30, 0x78]
      then digits_value 16 hex_digit (takeWhile is_hex (drop 2 bs)) * unit_of (dropWhile is_hex (drop 2 bs))
      else digits_value 10 (\<lambda>c. word_of_int (schar c - 48)) (takeWhile is_dec bs) * unit_of (dropWhile is_dec bs))"

definition arg_value :: "u8 list \<Rightarrow> u32" where
  "arg_value bs = (if take 1 bs = [0x2d] then - unsigned_value (drop 1 bs) else unsigned_value bs)"

lemma not_digit_0 [simp]: "\<not> is_dec 0" "\<not> is_hex 0"
  by (simp_all add: is_dec_def is_hex_def)

lemma parse_hex_eq:
  "cstr m p bs \<Longrightarrow> \<exists>q. parse_hex m p v = Some (q, foldl (\<lambda>r c. r * 16 + hex_digit c) v (takeWhile is_hex bs)) \<and>
     cstr m q (dropWhile is_hex bs)"
proof (induction bs arbitrary: p v)
  case Nil
  then show ?case by (simp add: parse_hex.simps [of m p])
next
  case (Cons b bs)
  then show ?case by (cases "is_hex b") (simp_all add: parse_hex.simps [of m p])
qed

lemma parse_dec_eq:
  "cstr m p bs \<Longrightarrow> \<exists>q. parse_dec m p v = Some (q, foldl (\<lambda>r c. r * 10 + word_of_int (schar c - 48)) v (takeWhile is_dec bs)) \<and>
     cstr m q (dropWhile is_dec bs)"
proof (induction bs arbitrary: p v)
  case Nil
  then show ?case by (simp add: parse_dec.simps [of m p])
next
  case (Cons b bs)
  then show ?case by (cases "is_dec b") (simp_all add: parse_dec.simps [of m p])
qed

lemma cstr_take1: "cstr m p bs \<Longrightarrow> c \<noteq> 0 \<Longrightarrow> m p = c \<longleftrightarrow> take 1 bs = [c]"
  by (cases bs) auto

lemma cstr_take2: "cstr m p bs \<Longrightarrow> c \<noteq> 0 \<Longrightarrow> d \<noteq> 0 \<Longrightarrow> m p = c \<and> m (p + 1) = d \<longleftrightarrow> take 2 bs = [c, d]"
  by (cases bs; cases "tl bs") auto

lemma cstr_tail: "cstr m p bs \<Longrightarrow> bs \<noteq> [] \<Longrightarrow> cstr m (p + 1) (drop 1 bs)"
  by (cases bs) auto

lemma cstr_tail2: "cstr m p bs \<Longrightarrow> take 2 bs = [c, d] \<Longrightarrow> cstr m (p + 2) (drop 2 bs)"
  by (cases bs; cases "tl bs") (auto simp: add.commute)

definition parse_unit :: "mem \<Rightarrow> addr \<Rightarrow> u32 \<Rightarrow> u32" where
  "parse_unit m p retval =
     (let retval = (if m p = 0x4b then retval * 1024 else retval)
      in if m p = 0x4d then retval * 1024 * 1024 else retval)"

lemma parse_unit_eq: "cstr m p bs \<Longrightarrow> parse_unit m p v = v * unit_of bs"
  using cstr_take1 [of m p bs "0x4b"] cstr_take1 [of m p bs "0x4d"] by (simp add: parse_unit_def unit_of_def Let_def)

definition parse_unsigned :: "mem \<Rightarrow> addr \<Rightarrow> u32 option" where
  "parse_unsigned m p =
     do { let (hexmode, p) = (if m p = 0x30 \<and> m (p + 1) = 0x78 then (True, p + 2) else (False, p));
          (p, retval) \<leftarrow> (if hexmode then parse_hex m p 0 else parse_dec m p 0);
          Some (parse_unit m p retval) }"

lemma parseval_unsigned:
  "parseval m p = (if m p = 0x2d then do { v \<leftarrow> parse_unsigned m (p + 1); Some (- v) } else parse_unsigned m p)"
  by (auto simp: parseval_def parse_unsigned_def parse_unit_def Let_def case_prod_unfold)

lemma parse_unsigned_eq:
  assumes "cstr m p bs"
  shows "parse_unsigned m p = Some (unsigned_value bs)"
proof (cases "take 2 bs = [0x30, 0x78]")
  case True
  then have x: "m p = 0x30 \<and> m (p + 1) = 0x78" using cstr_take2 [OF assms, of "0x30" "0x78"] by simp
  obtain q where "parse_hex m (p + 2) 0 = Some (q, digits_value 16 hex_digit (takeWhile is_hex (drop 2 bs)))"
    and "cstr m q (dropWhile is_hex (drop 2 bs))"
    using parse_hex_eq [OF cstr_tail2 [OF assms True]] unfolding digits_value_def by blast
  with x True show ?thesis
    by (simp add: parse_unsigned_def unsigned_value_def parse_unit_eq)
next
  case False
  then have x: "\<not> (m p = 0x30 \<and> m (p + 1) = 0x78)" using cstr_take2 [OF assms, of "0x30" "0x78"] by simp
  obtain q where "parse_dec m p 0 = Some (q, digits_value 10 (\<lambda>c. word_of_int (schar c - 48)) (takeWhile is_dec bs))"
    and "cstr m q (dropWhile is_dec bs)"
    using parse_dec_eq [OF assms] unfolding digits_value_def by blast
  with x False show ?thesis
    by (simp add: parse_unsigned_def unsigned_value_def parse_unit_eq del: de_Morgan_conj)
qed

lemma parseval_eq: "cstr m p bs \<Longrightarrow> parseval m p = Some (arg_value bs)"
proof -
  assume c: "cstr m p bs"
  show ?thesis
  proof (cases "take 1 bs = [0x2d]")
    case True
    then have "m p = 0x2d" "bs \<noteq> []" using cstr_take1 [OF c, of "0x2d"] by auto
    with parse_unsigned_eq [OF cstr_tail [OF c]] True show ?thesis
      by (simp add: parseval_unsigned arg_value_def)
  next
    case False
    then have "m p \<noteq> 0x2d" using cstr_take1 [OF c, of "0x2d"] by auto
    with parse_unsigned_eq [OF c] False show ?thesis
      by (simp add: parseval_unsigned arg_value_def)
  qed
qed

section \<open>The checksum as a shift register\<close>

definition arc_bit :: "u16 \<Rightarrow> u16" where
  "arc_bit c = drop_bit 1 c XOR (if bit c 0 then 0xA001 else 0)"

definition arc_byte :: "u16 \<Rightarrow> u8 \<Rightarrow> u16" where
  "arc_byte c b = (arc_bit ^^ 8) (c XOR ucast b)"

lemma arc_bit_xor: "arc_bit (x XOR y) = arc_bit x XOR arc_bit y"
  unfolding arc_bit_def by (cases "bit x 0"; cases "bit y 0") (simp_all add: bit_xor_iff drop_bit_xor ac_simps)

lemma arc_bits_xor: "(arc_bit ^^ n) (x XOR y) = (arc_bit ^^ n) x XOR (arc_bit ^^ n) y"
  by (induction n arbitrary: x y) (simp_all add: arc_bit_xor)

lemma arc_bit_0 [simp]: "arc_bit 0 = 0"
  by (simp add: arc_bit_def)

lemma arc_bits_0 [simp]: "(arc_bit ^^ n) 0 = 0"
  by (induction n) simp_all

lemma and_1_word: "x AND 1 = (if bit x 0 then 1 else 0)" for x :: "'a::len word"
  by (simp add: and_one_eq bit_0 odd_iff_mod_2_eq_one)

lemma top_bit: "bit (0x8000 :: u16) n \<longleftrightarrow> n = 15"
proof -
  have "bit (2 ^ 15 :: u16) n \<longleftrightarrow> n = 15" unfolding bit_exp_iff by auto
  then show ?thesis by simp
qed

lemma low_bits: "bit (0x7fff :: u16) n \<longleftrightarrow> n < 15"
proof -
  have "bit (mask 15 :: u16) n \<longleftrightarrow> n < 15" unfolding bit_mask_iff by auto
  then show ?thesis by (simp add: mask_eq_exp_minus_1)
qed

lemma or_top_bit: "drop_bit 1 x OR 0x8000 = drop_bit 1 x XOR 0x8000" for x :: u16
  by (rule bit_word_eqI) (auto simp: bit_or_iff bit_xor_iff bit_drop_bit_eq top_bit simp del: bit_numeral_word_iff dest: bit_imp_le_length)

lemma and_low_bits: "drop_bit 1 x AND 0x7fff = drop_bit 1 x" for x :: u16
  by (rule bit_word_eqI) (auto simp: bit_and_iff bit_drop_bit_eq low_bits simp del: bit_numeral_word_iff dest: bit_imp_le_length)

lemma poly_shifted: "drop_bit 1 (c XOR 0x4002) OR 0x8000 = drop_bit 1 c XOR 0xA001" for c :: u16
proof -
  have "drop_bit 1 (0x4002 :: u16) = 0x2001" by simp
  moreover have "(0x2001 :: u16) XOR 0x8000 = 0xA001" by simp
  ultimately show ?thesis
    using or_top_bit [of "c XOR 0x4002"] by (simp only: drop_bit_xor xor.assoc)
qed

lemma crcu8_step_eq: "crcu8_step d c = (drop_bit 1 d, drop_bit 1 c XOR (if bit c 0 \<noteq> bit d 0 then 0xA001 else 0))"
proof -
  have "(d AND 1) XOR (ucast c AND 1) = (if bit c 0 \<noteq> bit d 0 then 1 else 0)"
    by (simp add: and_1_word bit_simps)
  then show ?thesis
    by (simp only: crcu8_step_def Let_def) (simp add: poly_shifted [unfolded One_nat_def] and_low_bits [unfolded One_nat_def] del: drop_bit_xor)
qed

lemma ucast_drop1: "(ucast (drop_bit (Suc 0) d) :: u16) = drop_bit (Suc 0) (ucast d)" for d :: u8
  by (rule bit_word_eqI) (auto simp: bit_simps dest: bit_imp_le_length)

lemma crcu8_loop_eq: "crcu8_loop n d c = (arc_bit ^^ n) (c XOR ucast d) XOR ucast (drop_bit n d)"
proof (induction n arbitrary: d c)
  case 0
  then show ?case by (simp add: xor.assoc)
next
  case (Suc n)
  have "(drop_bit 1 c XOR (if bit c 0 \<noteq> bit d 0 then 0xA001 else 0)) XOR ucast (drop_bit 1 d)
      = arc_bit (c XOR ucast d)"
    by (simp add: arc_bit_def bit_xor_iff bit_ucast_iff ucast_drop1 drop_bit_xor ac_simps)
  then show ?case
    by (simp only: crcu8_loop.simps crcu8_step_eq Let_def prod.case Suc.IH funpow_Suc_right comp_apply
        drop_bit_drop_bit add_Suc_right add_0_right One_nat_def)
qed

lemma crcu8_eq: "crcu8 d c = arc_byte c d"
proof -
  have "drop_bit 8 d = 0" by (rule bit_word_eqI) (auto simp: bit_simps dest: bit_imp_le_length)
  then show ?thesis by (simp add: crcu8_def arc_byte_def crcu8_loop_eq)
qed

lemma arc_bits_split: "(\<And>i. i < n \<Longrightarrow> \<not> bit x i) \<Longrightarrow> (arc_bit ^^ n) x = drop_bit n x"
proof (induction n arbitrary: x)
  case 0
  then show ?case by simp
next
  case (Suc n)
  have "arc_bit x = drop_bit 1 x" using Suc.prems [of 0] by (simp add: arc_bit_def)
  moreover have "(arc_bit ^^ n) (drop_bit 1 x) = drop_bit n (drop_bit 1 x)"
    using Suc.prems by (intro Suc.IH) (simp add: bit_drop_bit_eq)
  ultimately show ?case by (simp add: funpow_Suc_right del: funpow.simps)
qed

lemma crcu16_eq: "crcu16 v c = (arc_bit ^^ 16) (c XOR v)"
proof -
  let ?lo = "ucast (ucast v :: u8) :: u16" and ?hi = "ucast (ucast (drop_bit 8 v) :: u8) :: u16"
  have z: "(arc_bit ^^ 8) (push_bit 8 ?hi) = ?hi"
  proof -
    have "(arc_bit ^^ 8) (push_bit 8 ?hi) = drop_bit 8 (push_bit 8 ?hi)"
      by (rule arc_bits_split) (simp add: bit_simps)
    also have "\<dots> = ?hi"
      by (rule bit_word_eqI) (auto simp: bit_simps dest: bit_imp_le_length)
    finally show ?thesis .
  qed
  have v: "v = ?lo XOR push_bit 8 ?hi"
    by (rule bit_word_eqI) (auto simp: bit_simps dest: bit_imp_le_length)
  have "crcu16 v c = (arc_bit ^^ 8) ((arc_bit ^^ 8) (c XOR ?lo) XOR ?hi)"
    by (simp add: crcu16_def crcu8_eq arc_byte_def)
  also have "\<dots> = (arc_bit ^^ 8) ((arc_bit ^^ 8) (c XOR ?lo) XOR (arc_bit ^^ 8) (push_bit 8 ?hi))"
    by (simp only: z)
  also have "\<dots> = (arc_bit ^^ (8 + 8)) (c XOR v)"
    by (subst (3) v) (simp only: arc_bits_xor xor.assoc funpow_add comp_apply)
  finally show ?thesis by simp
qed

lemma arc_bit_inj: "arc_bit x = arc_bit y \<Longrightarrow> x = y"
proof -
  assume e: "arc_bit x = arc_bit y"
  have t: "bit (arc_bit w) 15 = bit w 0" for w
    by (auto simp: arc_bit_def bit_simps dest: bit_imp_le_length)
  have z: "bit x 0 = bit y 0" using e t by metis
  have b: "drop_bit 1 w = arc_bit w XOR (if bit w 0 then 0xA001 else 0)" for w
    by (simp only: arc_bit_def xor.assoc bit.xor_self xor.right_neutral)
  have d: "drop_bit 1 x = drop_bit 1 y" unfolding b [of x] b [of y] e z ..
  show "x = y"
  proof (rule bit_word_eqI)
    fix n
    show "bit x n = bit y n"
      using z arg_cong [OF d, of "\<lambda>w. bit w (n - 1)"] by (cases n) (simp_all add: bit_drop_bit_eq)
  qed
qed

lemma arc_bits_inj: "(arc_bit ^^ n) x = (arc_bit ^^ n) y \<Longrightarrow> x = y"
  by (induction n) (auto dest: arc_bit_inj)

definition le_bytes :: "u32 \<Rightarrow> u8 list" where
  "le_bytes v = [ucast v, ucast (drop_bit 8 v), ucast (drop_bit 16 v), ucast (drop_bit 24 v)]"

definition arc :: "u16 \<Rightarrow> u8 list \<Rightarrow> u16" where
  "arc = foldl arc_byte"

lemma crcu16_bytes: "crcu16 v c = arc c [ucast v, ucast (drop_bit 8 v)]"
  by (simp add: crcu16_def crcu8_eq arc_def)

lemma crcu32_eq: "crcu32 v c = arc c (le_bytes v)"
proof -
  have "(ucast (ucast v :: u16) :: u8) = ucast v"
    "(ucast (drop_bit 8 (ucast v :: u16)) :: u8) = ucast (drop_bit 8 v)"
    "(ucast (ucast (drop_bit 16 v) :: u16) :: u8) = ucast (drop_bit 16 v)"
    "(ucast (drop_bit 8 (ucast (drop_bit 16 v) :: u16)) :: u8) = ucast (drop_bit 24 v)"
    by (rule bit_word_eqI; auto simp: bit_simps)+
  then show ?thesis
    by (simp add: crcu32_def crc16_def crcu16_bytes le_bytes_def arc_def)
qed

section \<open>Properties\<close>

text \<open>C40: the parser of arguments returns on every string, with the value of its digits, its unit
  and its sign; the hexadecimal digits are only those after \<open>0x\<close>.\<close>

theorem parseval_value: "cstr m p bs \<Longrightarrow> parseval m p = Some (arg_value bs)"
  by (rule parseval_eq)

theorem parseval_value_witness:
  "parseval (write_bytes (\<lambda>_. 0) 0x80001000 (ascii ''-0x1fK'')) 0x80001000 = Some (- 31744)"
proof -
  have "cstr (write_bytes (\<lambda>_. 0) 0x80001000 (ascii ''-0x1fK'')) 0x80001000 (ascii ''-0x1fK'')"
    by (simp add: ascii_def)
  then have "parseval (write_bytes (\<lambda>_. 0) 0x80001000 (ascii ''-0x1fK'')) 0x80001000 = Some (arg_value (ascii ''-0x1fK''))"
    by (rule parseval_value)
  then show ?thesis
    by (simp add: ascii_def arg_value_def unsigned_value_def digits_value_def unit_of_def is_hex_def is_dec_def
        hex_digit_def)
qed

text \<open>The checksum of a 32-bit value is the CRC-16 of its four bytes, lowest first, by the
  shift register of the reflected polynomial.\<close>

theorem crcu32_is_crc16: "crcu32 v crc = arc crc (le_bytes v)"
  by (rule crcu32_eq)

text \<open>From the same register, different 16-bit values give different checksums, and a value
  equal to the register clears it.\<close>

theorem crc16_detects: "(crc16 v crc = crc16 w crc) = (v = w) \<and> crc16 crc crc = 0"
proof -
  have "v = w" if "crc16 v crc = crc16 w crc"
  proof -
    have "crc XOR v = crc XOR w" using arc_bits_inj that by (simp add: crc16_def crcu16_eq)
    then have "crc XOR (crc XOR v) = crc XOR (crc XOR w)" by (simp only:)
    then show ?thesis by (simp flip: xor.assoc)
  qed
  then show ?thesis by (auto simp: crc16_def crcu16_eq)
qed

lemma check_data_types_mips: "check_data_types m mips_sizes = Some (0, [])"
  by (simp add: check_data_types_def mips_sizes_def check_size_def)

end
