(* ===== verification/CoreState.thy ===== *)
theory CoreState
  imports CoreUtil
begin

text \<open>
  The state machine benchmark of CoreMark, \<^verbatim>\<open>bench/coremark/core_state.c\<close>: the scanner that
  classifies numbers, the block of input it is given, and the benchmark that scans the block, corrupts
  it, scans it again and restores it.
  The scanner is compared with the grammar of the numbers it accepts.
\<close>

unbundle bit_operations_syntax

section \<open>The program\<close>

datatype core_state = CORE_START | CORE_INVALID | CORE_S1 | CORE_S2 | CORE_INT | CORE_FLOAT
  | CORE_EXPONENT | CORE_SCIENTIFIC

text \<open>The states in the order of the enumeration; arrays of \<open>NUM_CORE_STATES\<close> counters.\<close>

definition core_states :: "core_state list" where
  "core_states = [CORE_START, CORE_INVALID, CORE_S1, CORE_S2, CORE_INT, CORE_FLOAT, CORE_EXPONENT, CORE_SCIENTIFIC]"

type_synonym counts = "core_state \<Rightarrow> u32"

definition bump :: "core_state \<Rightarrow> counts \<Rightarrow> counts" where
  "bump s n = n(s := n s + 1)"

definition ee_isdigit :: "u8 \<Rightarrow> bool" where
  "ee_isdigit c \<longleftrightarrow> c \<ge> 48 \<and> c \<le> 57"

text \<open>The body of the loop of \<open>core_state_transition\<close> on a symbol that is not a comma.\<close>

fun core_switch :: "core_state \<Rightarrow> u8 \<Rightarrow> counts \<Rightarrow> core_state \<times> counts" where
  "core_switch CORE_START c n =
     (if ee_isdigit c then (CORE_INT, bump CORE_START n)
      else if c = 43 \<or> c = 45 then (CORE_S1, bump CORE_START n)
      else if c = 46 then (CORE_FLOAT, bump CORE_START n)
      else (CORE_INVALID, bump CORE_START (bump CORE_INVALID n)))"
| "core_switch CORE_S1 c n =
     (if ee_isdigit c then (CORE_INT, bump CORE_S1 n)
      else if c = 46 then (CORE_FLOAT, bump CORE_S1 n)
      else (CORE_INVALID, bump CORE_S1 n))"
| "core_switch CORE_INT c n =
     (if c = 46 then (CORE_FLOAT, bump CORE_INT n)
      else if \<not> ee_isdigit c then (CORE_INVALID, bump CORE_INT n)
      else (CORE_INT, n))"
| "core_switch CORE_FLOAT c n =
     (if c = 69 \<or> c = 101 then (CORE_S2, bump CORE_FLOAT n)
      else if \<not> ee_isdigit c then (CORE_INVALID, bump CORE_FLOAT n)
      else (CORE_FLOAT, n))"
| "core_switch CORE_S2 c n =
     (if c = 43 \<or> c = 45 then (CORE_EXPONENT, bump CORE_S2 n)
      else (CORE_INVALID, bump CORE_S2 n))"
| "core_switch CORE_EXPONENT c n =
     (if ee_isdigit c then (CORE_SCIENTIFIC, bump CORE_EXPONENT n)
      else (CORE_INVALID, bump CORE_EXPONENT n))"
| "core_switch CORE_SCIENTIFIC c n =
     (if \<not> ee_isdigit c then (CORE_INVALID, bump CORE_INVALID n) else (CORE_SCIENTIFIC, n))"
| "core_switch CORE_INVALID c n = (CORE_INVALID, n)"

partial_function (option) core_transition_loop ::
    "mem \<Rightarrow> addr \<Rightarrow> core_state \<Rightarrow> counts \<Rightarrow> (core_state \<times> addr \<times> counts) option" where
  "core_transition_loop m str state n =
     (if m str \<noteq> 0 \<and> state \<noteq> CORE_INVALID
      then let NEXT_SYMBOL = m str
           in if NEXT_SYMBOL = 44 then Some (state, str + 1, n)
              else let (state', n') = core_switch state NEXT_SYMBOL n
                   in core_transition_loop m (str + 1) state' n'
      else Some (state, str, n))"

declare core_transition_loop.simps [code]

text \<open>The end state, the new \<open>*instr\<close> and the counters.\<close>

definition core_state_transition :: "mem \<Rightarrow> addr \<Rightarrow> counts \<Rightarrow> (core_state \<times> addr \<times> counts) option" where
  "core_state_transition m str transition_count = core_transition_loop m str CORE_START transition_count"

partial_function (option) bench_scan :: "mem \<Rightarrow> addr \<Rightarrow> counts \<Rightarrow> counts \<Rightarrow> (counts \<times> counts) option" where
  "bench_scan m p final_counts track_counts =
     (if m p \<noteq> 0
      then do { (fstate, p', track') \<leftarrow> core_state_transition m p track_counts;
                bench_scan m p' (bump fstate final_counts) track' }
      else Some (final_counts, track_counts))"

declare bench_scan.simps [code]

partial_function (option) bench_corrupt :: "mem \<Rightarrow> addr \<Rightarrow> addr \<Rightarrow> u16 \<Rightarrow> u16 \<Rightarrow> mem option" where
  "bench_corrupt m p limit seed step =
     (if p < limit
      then bench_corrupt (if m p \<noteq> 44 then m(p := m p XOR ucast seed) else m) (p + scast step) limit seed step
      else Some m)"

declare bench_corrupt.simps [code]

fun bench_crc :: "core_state list \<Rightarrow> counts \<Rightarrow> counts \<Rightarrow> u16 \<Rightarrow> u16" where
  "bench_crc [] final_counts track_counts crc = crc"
| "bench_crc (i # is) final_counts track_counts crc =
     bench_crc is final_counts track_counts (crcu32 (track_counts i) (crcu32 (final_counts i) crc))"

definition core_bench_state ::
    "mem \<Rightarrow> u32 \<Rightarrow> addr \<Rightarrow> u16 \<Rightarrow> u16 \<Rightarrow> u16 \<Rightarrow> u16 \<Rightarrow> (mem \<times> u16) option" where
  "core_bench_state m blksize memblock seed1 seed2 step crc =
     do { (final_counts, track_counts) \<leftarrow> bench_scan m memblock (\<lambda>_. 0) (\<lambda>_. 0);
          m1 \<leftarrow> bench_corrupt m memblock (memblock + blksize) seed1 step;
          (final_counts, track_counts) \<leftarrow> bench_scan m1 memblock final_counts track_counts;
          m2 \<leftarrow> bench_corrupt m1 memblock (memblock + blksize) seed2 step;
          Some (m2, bench_crc core_states final_counts track_counts crc) }"

definition intpat :: "string list" where "intpat = [''5012'', ''1234'', ''-874'', ''+122'']"
definition floatpat :: "string list" where "floatpat = [''35.54400'', ''.1234500'', ''-110.700'', ''+0.64400'']"
definition scipat :: "string list" where "scipat = [''5.500e+3'', ''-.123e-2'', ''-87e+832'', ''+0.6e-12'']"
definition errpat :: "string list" where "errpat = [''T0.3e-1F'', ''-T.T++Tq'', ''1T3.4e4z'', ''34.0e-T^'']"

text \<open>The string chosen by the seed, and \<open>next\<close>.\<close>

definition choose_pattern :: "u16 \<Rightarrow> string \<times> u32" where
  "choose_pattern seed =
     (let k = seed AND 7; i = unat (drop_bit 3 seed AND 3)
      in if k = 0 \<or> k = 1 \<or> k = 2 then (intpat ! i, 4)
         else if k = 3 \<or> k = 4 then (floatpat ! i, 8)
         else if k = 5 \<or> k = 6 then (scipat ! i, 8)
         else (errpat ! i, 8))"

text \<open>The copy of a pattern and its comma, and the loop that places the patterns.\<close>

function put_pattern :: "mem \<Rightarrow> addr \<Rightarrow> string \<Rightarrow> u32 \<Rightarrow> u32 \<Rightarrow> mem" where
  "put_pattern m p buf next i =
     (if i < next then put_pattern (m(p + i := of_char (buf ! unat i))) p buf next (i + 1)
      else m(p + i := 44))"
  by pat_completeness auto
termination
  by (relation "measure (\<lambda>(m, p, buf, next, i). unat next - unat i)")
     (auto simp: unat_plus_one_less word_less_nat_alt)

partial_function (option) init_patterns ::
    "mem \<Rightarrow> addr \<Rightarrow> u32 \<Rightarrow> u16 \<Rightarrow> u32 \<Rightarrow> string \<Rightarrow> u32 \<Rightarrow> (mem \<times> u32) option" where
  "init_patterns m p sz seed tot buf next =
     (if tot + next + 1 < sz
      then let (m', tot') = (if next > 0 then (put_pattern m (p + tot) buf next 0, tot + (next + 1)) else (m, tot));
               (buf', next') = choose_pattern (seed + 1)
           in init_patterns m' p sz (seed + 1) tot' buf' next'
      else Some (m, tot))"

declare init_patterns.simps [code]

function init_zeros :: "mem \<Rightarrow> addr \<Rightarrow> u32 \<Rightarrow> u32 \<Rightarrow> mem" where
  "init_zeros m p sz tot =
     (if tot < sz then init_zeros (m(p + tot := 0)) p sz (tot + 1) else m)"
  by pat_completeness auto
termination
  by (relation "measure (\<lambda>(m, p, sz, tot). unat sz - unat tot)")
     (auto simp: unat_plus_one_less word_less_nat_alt)

definition core_init_state :: "mem \<Rightarrow> u32 \<Rightarrow> u16 \<Rightarrow> addr \<Rightarrow> mem option" where
  "core_init_state m sz seed p =
     do { (m', tot) \<leftarrow> init_patterns m p (sz - 1) seed 0 [] 0;
          Some (init_zeros m' p sz tot) }"

declare put_pattern.simps [simp del] init_zeros.simps [simp del]

lemmas core_state_unroll [unroll] = core_transition_loop.simps bench_scan.simps bench_corrupt.simps
  put_pattern.simps init_patterns.simps init_zeros.simps

section \<open>Scanning a list of symbols\<close>

fun scan :: "core_state \<Rightarrow> u8 list \<Rightarrow> counts \<Rightarrow> core_state \<times> u8 list \<times> counts" where
  "scan s [] n = (s, [], n)"
| "scan s (c # cs) n =
     (if s = CORE_INVALID then (s, c # cs, n)
      else if c = 44 then (s, cs, n)
      else let (s', n') = core_switch s c n in scan s' cs n')"

lemma scan_shorter: "scan s bs n = (s', r, n') \<Longrightarrow> length r \<le> length bs"
  by (induction s bs n rule: scan.induct) (auto split: if_splits prod.splits intro: le_SucI)

lemma scan_progress: "scan s bs n = (s', r, n') \<Longrightarrow> bs \<noteq> [] \<Longrightarrow> s \<noteq> CORE_INVALID \<Longrightarrow> length r < length bs"
  by (cases bs) (auto simp: less_Suc_eq_le split: if_splits prod.splits dest: scan_shorter)

lemma transition_scan:
  "cstr m p bs \<Longrightarrow> scan s bs n = (s', r, n') \<Longrightarrow>
   \<exists>q. core_transition_loop m p s n = Some (s', q, n') \<and> cstr m q r"
proof (induction s bs n arbitrary: p rule: scan.induct)
  case (1 s n)
  then show ?case by (simp add: core_transition_loop.simps [of m p])
next
  case (2 s c cs n)
  show ?case
  proof (cases "s = CORE_INVALID \<or> c = 44")
    case True
    with 2 show ?thesis by (auto simp: core_transition_loop.simps [of m p] split: if_splits)
  next
    case False
    with 2 show ?thesis
      by (cases "core_switch s c n") (simp add: core_transition_loop.simps [of m p])
  qed
qed

function scan_all :: "u8 list \<Rightarrow> counts \<Rightarrow> counts \<Rightarrow> counts \<times> counts" where
  "scan_all bs f t =
     (if bs = [] then (f, t)
      else let (s, r, t') = scan CORE_START bs t in scan_all r (bump s f) t')"
  by pat_completeness auto
termination
  by (relation "measure (\<lambda>(bs, f, t). length bs)") (auto dest: scan_progress [OF sym])

declare scan_all.simps [simp del]

lemma bench_scan_eq: "cstr m p bs \<Longrightarrow> bench_scan m p f t = Some (scan_all bs f t)"
proof (induction bs f t arbitrary: p rule: scan_all.induct)
  case (1 bs f t)
  show ?case
  proof (cases bs)
    case Nil
    with 1 show ?thesis by (simp add: bench_scan.simps [of m p] scan_all.simps)
  next
    case (Cons b cs)
    obtain s r t' where sc: "scan CORE_START bs t = (s, r, t')" by (cases "scan CORE_START bs t")
    obtain q where q: "core_state_transition m p t = Some (s, q, t')" "cstr m q r"
      using transition_scan [OF 1(2) sc] by (auto simp: core_state_transition_def)
    have "bench_scan m q (bump s f) t' = Some (scan_all r (bump s f) t')"
      using Cons sc q by (intro 1(1) [OF _ _ refl]) auto
    moreover have "bs \<noteq> []" using Cons by simp
    then have "scan_all bs f t = scan_all r (bump s f) t'"
      using sc by (subst scan_all.simps) (simp del: scan.simps)
    ultimately show ?thesis
      using q Cons 1(2) by (simp add: bench_scan.simps [of m p])
  qed
qed

section \<open>The grammar of the numbers\<close>

definition is_sign :: "u8 \<Rightarrow> bool" where
  "is_sign c \<longleftrightarrow> c = 43 \<or> c = 45"

definition is_exp :: "u8 \<Rightarrow> bool" where
  "is_exp c \<longleftrightarrow> c = 69 \<or> c = 101"

definition unsign :: "u8 list \<Rightarrow> u8 list" where
  "unsign w = (case w of [] \<Rightarrow> [] | c # r \<Rightarrow> if is_sign c then r else w)"

abbreviation all_digits :: "u8 list \<Rightarrow> bool" where
  "all_digits \<equiv> list_all ee_isdigit"

definition int_form :: "u8 list \<Rightarrow> bool" where
  "int_form w \<longleftrightarrow> unsign w \<noteq> [] \<and> all_digits (unsign w)"

text \<open>What follows the digits and the point, and what follows those digits and the \<open>e\<close>.\<close>

definition fraction :: "u8 list \<Rightarrow> u8 list option" where
  "fraction w = (case dropWhile ee_isdigit w of [] \<Rightarrow> None | c # r \<Rightarrow> if c = 46 then Some r else None)"

definition exponent :: "u8 list \<Rightarrow> u8 list option" where
  "exponent w = (case dropWhile ee_isdigit w of [] \<Rightarrow> None | c # r \<Rightarrow> if is_exp c then Some r else None)"

definition signed_digits :: "u8 list \<Rightarrow> bool" where
  "signed_digits w \<longleftrightarrow> (case w of [] \<Rightarrow> False | c # r \<Rightarrow> is_sign c \<and> r \<noteq> [] \<and> all_digits r)"

definition float_form :: "u8 list \<Rightarrow> bool" where
  "float_form w \<longleftrightarrow> (case fraction (unsign w) of None \<Rightarrow> False | Some r \<Rightarrow> all_digits r)"

definition sci_form :: "u8 list \<Rightarrow> bool" where
  "sci_form w \<longleftrightarrow> (case fraction (unsign w) of None \<Rightarrow> False
     | Some r \<Rightarrow> (case exponent r of None \<Rightarrow> False | Some e \<Rightarrow> signed_digits e))"

text \<open>The end state, without the counters.\<close>

definition next_state :: "core_state \<Rightarrow> u8 \<Rightarrow> core_state" where
  "next_state s c = fst (core_switch s c (\<lambda>_. 0))"

definition end_state :: "core_state \<Rightarrow> u8 list \<Rightarrow> core_state" where
  "end_state = foldl next_state"

lemma core_switch_state [simp]: "fst (core_switch s c n) = next_state s c"
  by (cases s) (simp_all add: next_state_def)

lemma next_state_simps:
  "next_state CORE_START c = (if ee_isdigit c then CORE_INT else if is_sign c then CORE_S1
     else if c = 46 then CORE_FLOAT else CORE_INVALID)"
  "next_state CORE_S1 c = (if ee_isdigit c then CORE_INT else if c = 46 then CORE_FLOAT else CORE_INVALID)"
  "next_state CORE_INT c = (if c = 46 then CORE_FLOAT else if \<not> ee_isdigit c then CORE_INVALID else CORE_INT)"
  "next_state CORE_FLOAT c = (if is_exp c then CORE_S2 else if \<not> ee_isdigit c then CORE_INVALID else CORE_FLOAT)"
  "next_state CORE_S2 c = (if is_sign c then CORE_EXPONENT else CORE_INVALID)"
  "next_state CORE_EXPONENT c = (if ee_isdigit c then CORE_SCIENTIFIC else CORE_INVALID)"
  "next_state CORE_SCIENTIFIC c = (if \<not> ee_isdigit c then CORE_INVALID else CORE_SCIENTIFIC)"
  "next_state CORE_INVALID c = CORE_INVALID"
  by (auto simp: next_state_def is_sign_def is_exp_def)

lemma end_state_simps [simp]:
  "end_state s [] = s" "end_state s (c # w) = end_state (next_state s c) w"
  by (simp_all add: end_state_def)

lemma end_invalid [simp]: "end_state CORE_INVALID w = CORE_INVALID"
  by (induction w) (simp_all add: next_state_simps)

lemma special_not_digit [simp]: "\<not> ee_isdigit 46" "is_sign c \<Longrightarrow> \<not> ee_isdigit c" "is_exp c \<Longrightarrow> \<not> ee_isdigit c"
  "is_sign c \<Longrightarrow> c \<noteq> 46" "ee_isdigit c \<Longrightarrow> c \<noteq> 44"
  by (auto simp: ee_isdigit_def is_sign_def is_exp_def)

lemma end_scientific: "end_state CORE_SCIENTIFIC w = (if all_digits w then CORE_SCIENTIFIC else CORE_INVALID)"
  by (induction w) (auto simp: next_state_simps)

lemma end_s2: "end_state CORE_S2 w = CORE_SCIENTIFIC \<longleftrightarrow> signed_digits w"
  "end_state CORE_S2 w \<noteq> CORE_INT" "end_state CORE_S2 w \<noteq> CORE_FLOAT"
  by (cases w; cases "tl w"; auto simp: signed_digits_def next_state_simps end_scientific split: if_splits)+

lemma end_float:
  "end_state CORE_FLOAT w \<noteq> CORE_INT"
  "end_state CORE_FLOAT w = CORE_FLOAT \<longleftrightarrow> all_digits w"
  "end_state CORE_FLOAT w = CORE_SCIENTIFIC \<longleftrightarrow> (case exponent w of None \<Rightarrow> False | Some e \<Rightarrow> signed_digits e)"
  by (induction w) (auto simp: next_state_simps exponent_def end_s2)

lemma end_int:
  "end_state CORE_INT w = CORE_INT \<longleftrightarrow> all_digits w"
  "end_state CORE_INT w = CORE_FLOAT \<longleftrightarrow> (case fraction w of None \<Rightarrow> False | Some r \<Rightarrow> all_digits r)"
  "end_state CORE_INT w = CORE_SCIENTIFIC \<longleftrightarrow> (case fraction w of None \<Rightarrow> False
     | Some r \<Rightarrow> (case exponent r of None \<Rightarrow> False | Some e \<Rightarrow> signed_digits e))"
  by (induction w) (auto simp: next_state_simps fraction_def end_float)

lemma end_s1:
  "end_state CORE_S1 w = CORE_INT \<longleftrightarrow> w \<noteq> [] \<and> all_digits w"
  "end_state CORE_S1 w = CORE_FLOAT \<longleftrightarrow> (case fraction w of None \<Rightarrow> False | Some r \<Rightarrow> all_digits r)"
  "end_state CORE_S1 w = CORE_SCIENTIFIC \<longleftrightarrow> (case fraction w of None \<Rightarrow> False
     | Some r \<Rightarrow> (case exponent r of None \<Rightarrow> False | Some e \<Rightarrow> signed_digits e))"
  by (cases w; auto simp: next_state_simps fraction_def end_float end_int)+

lemma end_start:
  "end_state CORE_START w = CORE_INT \<longleftrightarrow> int_form w"
  "end_state CORE_START w = CORE_FLOAT \<longleftrightarrow> float_form w"
  "end_state CORE_START w = CORE_SCIENTIFIC \<longleftrightarrow> sci_form w"
proof -
  have s1: "end_state CORE_START w = end_state CORE_S1 (unsign w)" if "w \<noteq> []" "is_sign (hd w)"
    using that by (cases w) (auto simp: unsign_def next_state_simps)
  have s2: "end_state CORE_START w = end_state CORE_S1 (unsign w)" if "w \<noteq> []" "\<not> is_sign (hd w)"
    using that by (cases w) (auto simp: unsign_def next_state_simps)
  show "end_state CORE_START w = CORE_INT \<longleftrightarrow> int_form w"
    "end_state CORE_START w = CORE_FLOAT \<longleftrightarrow> float_form w"
    "end_state CORE_START w = CORE_SCIENTIFIC \<longleftrightarrow> sci_form w"
    using s1 s2 by (cases "w = []"; cases "is_sign (hd w)";
      simp add: end_s1 int_form_def float_form_def sci_form_def unsign_def fraction_def)+
qed

text \<open>A token, followed by a comma or by the end, is scanned to its end state.\<close>

lemma core_switch_pair: "\<exists>n'. core_switch s c n = (next_state s c, n')"
  by (metis core_switch_state prod.collapse)

lemma scan_token:
  assumes "44 \<notin> set w" and "r = [] \<or> (\<exists>r'. r = 44 # r')"
  shows "end_state s w \<noteq> CORE_INVALID \<Longrightarrow> \<exists>n'. scan s (w @ r) n = (end_state s w, drop 1 r, n')"
    and "fst (scan s (w @ r) n) = end_state s w"
proof -
  show "end_state s w \<noteq> CORE_INVALID \<Longrightarrow> \<exists>n'. scan s (w @ r) n = (end_state s w, drop 1 r, n')"
    using assms
  proof (induction w arbitrary: s n)
    case Nil
    then show ?case by auto
  next
    case (Cons c w)
    obtain n' where "core_switch s c n = (next_state s c, n')" using core_switch_pair by blast
    moreover have "s \<noteq> CORE_INVALID" using Cons.prems(1) by (auto simp: next_state_simps)
    ultimately show ?case using Cons by simp
  qed
  show "fst (scan s (w @ r) n) = end_state s w"
    using assms
  proof (induction w arbitrary: s n)
    case Nil
    then show ?case by auto
  next
    case (Cons c w)
    obtain n' where "core_switch s c n = (next_state s c, n')" using core_switch_pair by blast
    then show ?case using Cons by (auto simp: next_state_simps)
  qed
qed

lemma transition_token:
  assumes c: "cstr m p (w @ r)" and w: "44 \<notin> set w" and r: "r = [] \<or> (\<exists>r'. r = 44 # r')"
  shows "\<exists>q n'. core_state_transition m p n = Some (end_state CORE_START w, q, n') \<and>
    (end_state CORE_START w \<noteq> CORE_INVALID \<longrightarrow> cstr m q (drop 1 r))"
proof -
  obtain s u n' where sc: "scan CORE_START (w @ r) n = (s, u, n')" by (cases "scan CORE_START (w @ r) n")
  then have "s = end_state CORE_START w"
    using scan_token(2) [OF w r, of CORE_START n] by simp
  moreover have "u = drop 1 r" if "end_state CORE_START w \<noteq> CORE_INVALID"
    using scan_token(1) [OF w r that, of n] sc by auto
  ultimately show ?thesis
    using transition_scan [OF c sc] by (auto simp: core_state_transition_def)
qed

section \<open>Corruption\<close>

definition flip :: "u16 \<Rightarrow> u8 \<Rightarrow> u8" where
  "flip seed c = (if c \<noteq> 44 then c XOR ucast seed else c)"

text \<open>The addresses \<open>p\<close>, \<open>p + d\<close>, and so on, below the limit.\<close>

definition every :: "nat \<Rightarrow> addr \<Rightarrow> addr \<Rightarrow> addr \<Rightarrow> bool" where
  "every d p limit x \<longleftrightarrow> p \<le> x \<and> x < limit \<and> (unat x - unat p) mod d = 0"

definition corrupted :: "mem \<Rightarrow> nat \<Rightarrow> addr \<Rightarrow> addr \<Rightarrow> u16 \<Rightarrow> mem" where
  "corrupted m d p limit seed = (\<lambda>x. if every d p limit x then flip seed (m x) else m x)"

lemma every_next:
  assumes "p < limit" "unat q = unat p + d" "0 < d"
  shows "every d p limit x \<longleftrightarrow> x = p \<or> every d q limit x"
proof -
  consider "unat x < unat p" | "x = p" | "unat p < unat x" "unat x < unat p + d" | "unat p + d \<le> unat x"
    by (metis linorder_not_le nat_neq_iff word_unat_eq_iff)
  then show ?thesis
  proof cases
    case 4
    then have "unat x - unat p = d + (unat x - unat q)" using assms(2) by simp
    then have "(unat x - unat p) mod d = (unat x - unat q) mod d" by (metis mod_add_self1)
    with 4 assms show ?thesis
      by (auto simp: every_def word_le_nat_alt word_less_nat_alt)
  qed (use assms in \<open>auto simp: every_def word_le_nat_alt word_less_nat_alt\<close>)
qed

lemma scast_step: "step < 0x8000 \<Longrightarrow> unat (scast step :: u32) = unat step" for step :: u16
proof -
  assume s: "step < 0x8000"
  then have l: "unat step < 32768" by (simp add: word_less_nat_alt)
  have "uint step < 2 ^ 15" using s by (simp add: word_less_def)
  moreover have "- (2 ^ 15) \<le> uint step" by (rule order_trans [of _ 0]) simp_all
  ultimately have "signed_take_bit 15 (uint step) = uint step" by (intro signed_take_bit_int_eq_self)
  then have "sint step = uint step" by (simp add: sint_uint)
  then have "(scast step :: u32) = of_nat (unat step)" by (simp add: scast_eq)
  then show ?thesis
    using l unat_of_nat32 [of "unat step"] by simp
qed

lemma bench_corrupt_eq:
  "0 < step \<Longrightarrow> step < 0x8000 \<Longrightarrow> unat limit + unat step \<le> 4294967296 \<Longrightarrow>
   bench_corrupt m p limit seed step = Some (corrupted m (unat step) p limit seed)"
proof (induction "unat limit - unat p" arbitrary: m p rule: less_induct)
  case less
  show ?case
  proof (cases "p < limit")
    case False
    then have "\<not> every d p limit x" for d x by (auto simp: every_def)
    then have "corrupted m (unat step) p limit seed = m" by (simp add: corrupted_def)
    with False show ?thesis by (simp add: bench_corrupt.simps [of m p])
  next
    case True
    let ?q = "p + scast step" and ?m = "if m p \<noteq> 44 then m(p := m p XOR ucast seed) else m"
    have d: "0 < unat step" using less.prems(1) by (simp add: word_less_nat_alt)
    have q: "unat ?q = unat p + unat step"
      using True less.prems scast_step [of step] by (subst unat_add_small) (auto simp: word_less_nat_alt)
    have m: "?m = m(p := flip seed (m p))" by (auto simp: flip_def fun_eq_iff)
    have "\<not> every (unat step) ?q limit p" using q d by (simp add: every_def word_le_nat_alt)
    then have "corrupted ?m (unat step) ?q limit seed = corrupted m (unat step) p limit seed"
      unfolding m by (auto simp: corrupted_def fun_eq_iff every_next [OF True q d])
    moreover have "bench_corrupt ?m ?q limit seed step = Some (corrupted ?m (unat step) ?q limit seed)"
      using True q d less.prems by (intro less.hyps) (auto simp: word_less_nat_alt)
    ultimately show ?thesis using True by (simp add: bench_corrupt.simps [of m p])
  qed
qed

lemma flip_flip: "c XOR ucast seed \<noteq> 44 \<or> c = 44 \<Longrightarrow> flip seed (flip seed c) = c"
  by (auto simp: flip_def xor.assoc)

lemma corrupted_twice:
  "corrupted (corrupted m d p limit seed) d p limit seed = m \<longleftrightarrow>
   (\<forall>x. every d p limit x \<longrightarrow> m x = 44 \<or> m x XOR ucast seed \<noteq> 44)"
proof -
  have "flip seed (flip seed c) = c \<longleftrightarrow> c = 44 \<or> c XOR ucast seed \<noteq> 44" for c
    by (auto simp: flip_def xor.assoc)
  then show ?thesis by (auto simp: corrupted_def fun_eq_iff)
qed

lemma cstr_exists: "m (p + of_nat k) = 0 \<Longrightarrow> \<exists>cs. cstr m p cs \<and> length cs \<le> k"
proof (induction k arbitrary: p)
  case 0
  then show ?case by (intro exI [of _ "[]"]) simp
next
  case (Suc k)
  show ?case
  proof (cases "m p = 0")
    case True
    then show ?thesis by (intro exI [of _ "[]"]) simp
  next
    case False
    from Suc have "m (p + 1 + of_nat k) = 0" by (simp add: add.assoc)
    then obtain cs where "cstr m (p + 1) cs" "length cs \<le> k" using Suc.IH by blast
    with False show ?thesis by (intro exI [of _ "m p # cs"]) simp
  qed
qed

lemma two_zeros:
  assumes "m x = 0" "m (x + 1) = 0" "unat x + 1 < 4294967296" "1 < d"
  shows "corrupted m d p limit seed x = 0 \<or> corrupted m d p limit seed (x + 1) = 0"
proof -
  have u: "unat (x + 1) = unat x + 1" using assms(3) unat_add_small [of x 1] by simp
  have "\<not> (every d p limit x \<and> every d p limit (x + 1))"
  proof
    assume e: "every d p limit x \<and> every d p limit (x + 1)"
    then have "unat p \<le> unat x" by (simp add: every_def word_le_nat_alt)
    then have "Suc (unat x) - unat p = Suc (unat x - unat p)" by simp
    with e u have "Suc (unat x - unat p) mod d = 0" "(unat x - unat p) mod d = 0"
      by (simp_all add: every_def)
    with assms(4) show False by (metis mod_Suc One_nat_def less_irrefl_nat nat.simps(3))
  qed
  with assms show ?thesis by (auto simp: corrupted_def)
qed

lemma core_bench_state_eq:
  assumes s: "1 < step" "step < 0x8000" and l: "unat p + unat blksize + unat step \<le> 4294967296"
    and z: "k + 1 < unat blksize" "m (p + of_nat k) = 0" "m (p + of_nat (k + 1)) = 0"
  shows "\<exists>crc'. core_bench_state m blksize p seed1 seed2 step crc =
     Some (corrupted (corrupted m (unat step) p (p + blksize) seed1) (unat step) p (p + blksize) seed2, crc')"
proof -
  let ?m1 = "corrupted m (unat step) p (p + blksize) seed1"
  have d: "1 < unat step" "0 < step" using s by (simp_all add: word_less_nat_alt)
  have lim: "unat (p + blksize) + unat step \<le> 4294967296"
    using l d by (subst unat_add_small) auto
  note c = bench_corrupt_eq [OF d(2) s(2) lim]
  have k: "unat (p + of_nat k) = unat p + k"
    using z(1) l by (subst unat_add_small) (simp_all add: unat_of_nat32)
  obtain bs where bs: "cstr m p bs" using cstr_exists [of m p k] z(2) by blast
  have "?m1 (p + of_nat k) = 0 \<or> ?m1 (p + of_nat k + 1) = 0"
    using z l k d by (intro two_zeros) (simp_all add: add.assoc add.commute [of 1])
  then obtain cs where cs: "cstr ?m1 p cs"
    using cstr_exists [of ?m1 p k] cstr_exists [of ?m1 p "k + 1"] by (auto simp: add.assoc add.commute [of 1])
  obtain f t where ft: "scan_all bs (\<lambda>_. 0) (\<lambda>_. 0) = (f, t)" by fastforce
  obtain f' t' where ft': "scan_all cs f t = (f', t')" by fastforce
  show ?thesis
    using bench_scan_eq [OF bs] bench_scan_eq [OF cs] c ft ft'
    by (simp add: core_bench_state_def)
qed

lemma write_bytes_snoc: "write_bytes m a (bs @ [b]) = (write_bytes m a bs)(a + of_nat (length bs) := b)"
  by (simp add: write_bytes_append)

section \<open>The block of patterns\<close>

definition all_patterns :: "string list" where
  "all_patterns = intpat @ floatpat @ scipat @ errpat"

lemma choose_pattern_in:
  "fst (choose_pattern seed) \<in> set all_patterns" "unat (snd (choose_pattern seed)) = length (fst (choose_pattern seed))"
proof -
  define i where "i = unat (drop_bit 3 seed AND 3)"
  have "drop_bit 3 seed AND 3 \<le> 3" by (rule word_and_le1)
  then have "i < 4" by (simp add: i_def word_le_nat_alt)
  then have "i = 0 \<or> i = 1 \<or> i = 2 \<or> i = 3" by auto
  then show "fst (choose_pattern seed) \<in> set all_patterns" "unat (snd (choose_pattern seed)) = length (fst (choose_pattern seed))"
    unfolding choose_pattern_def Let_def i_def [symmetric] all_patterns_def intpat_def floatpat_def scipat_def errpat_def
    by (elim disjE; simp)+
qed

lemma pattern_lengths: "b \<in> set all_patterns \<Longrightarrow> length b = 4 \<or> length b = 8"
  by (auto simp: all_patterns_def intpat_def floatpat_def scipat_def errpat_def)

lemma put_pattern_eq:
  "i \<le> next \<Longrightarrow> unat next = length b \<Longrightarrow>
   put_pattern m p b next i = write_bytes m (p + i) (ascii (drop (unat i) b) @ [44])"
proof (induction m p b "next" i rule: put_pattern.induct)
  case (1 m p b "next" i)
  show ?case
  proof (cases "i < next")
    case True
    then have i: "unat i < length b" "unat (i + 1) = Suc (unat i)" "i + 1 \<le> next"
      using 1(3) using unat_plus_one_less [OF True] by (simp_all add: word_less_nat_alt inc_le)
    have "drop (unat i) b = b ! unat i # drop (Suc (unat i)) b" using i(1) by (rule Cons_nth_drop_Suc [symmetric])
    with 1(1) [OF True i(3) 1(3)] True i show ?thesis
      by (simp add: put_pattern.simps [of m] ascii_def add.assoc del: fun_upd_apply)
  next
    case False
    with 1 show ?thesis by (simp add: put_pattern.simps [of m] ascii_def)
  qed
qed

text \<open>The patterns that fit into \<open>k\<close> bytes, less one.\<close>

function placed :: "nat \<Rightarrow> u16 \<Rightarrow> u8 list" where
  "placed k seed =
     (let b = fst (choose_pattern (seed + 1))
      in if length b + 1 < k then ascii b @ 44 # placed (k - (length b + 1)) (seed + 1) else [])"
  by pat_completeness auto
termination
  by (relation "measure (\<lambda>(k, seed). k)") auto

declare placed.simps [simp del]

lemma length_ascii [simp]: "length (ascii b) = length b"
  by (simp add: ascii_def)

lemma length_placed: "placed k seed = [] \<or> length (placed k seed) < k"
proof (induction k seed rule: placed.induct)
  case (1 k seed)
  then show ?case by (auto simp: placed.simps [of k] Let_def)
qed

lemma init_patterns_eq:
  "k = unat sz - unat tot \<Longrightarrow> unat sz \<le> 4294967280 \<Longrightarrow> tot \<le> sz \<Longrightarrow>
   init_patterns m p sz (seed + 1) tot (fst (choose_pattern (seed + 1))) (snd (choose_pattern (seed + 1)))
     = Some (write_bytes m (p + tot) (placed k seed), tot + of_nat (length (placed k seed)))"
proof (induction k seed arbitrary: m tot rule: placed.induct)
  case (1 k seed)
  define b where "b = fst (choose_pattern (seed + 1))"
  define l where "l = snd (choose_pattern (seed + 1))"
  have b: "unat l = length b" "length b = 4 \<or> length b = 8"
    using choose_pattern_in [of "seed + 1"] by (auto simp: b_def l_def dest: pattern_lengths)
  then have l: "0 < l" "l = of_nat (length b)" by (auto simp: word_less_nat_alt word_unat_eq_iff unat_of_nat32)
  have tot: "unat tot \<le> unat sz" using 1(4) by (simp add: word_le_nat_alt)
  have u: "unat (tot + (l + 1)) = unat tot + (length b + 1)"
    using b tot 1(3) by (subst unat_add_small; subst unat_add_small) auto
  have c: "tot + l + 1 < sz \<longleftrightarrow> length b + 1 < k"
    using u tot 1(2) by (simp add: word_less_nat_alt add.assoc) linarith
  obtain b' l' where p: "choose_pattern (seed + 1 + 1) = (b', l')" by fastforce
  show ?case
  proof (cases "length b + 1 < k")
    case False
    with c show ?thesis
      by (simp add: init_patterns.simps [of m] placed.simps [of k] flip: b_def l_def)
  next
    case True
    have "init_patterns (put_pattern m (p + tot) b l 0) p sz (seed + 1 + 1) (tot + (l + 1)) b' l' =
      Some (write_bytes (put_pattern m (p + tot) b l 0) (p + (tot + (l + 1))) (placed (k - (length b + 1)) (seed + 1)),
        tot + (l + 1) + of_nat (length (placed (k - (length b + 1)) (seed + 1))))"
      using 1(1) [OF b_def True, of "tot + (l + 1)" "put_pattern m (p + tot) b l 0"] u True 1(2,3) p
      by (simp add: word_le_nat_alt)
    moreover have "put_pattern m (p + tot) b l 0 = write_bytes m (p + tot) (ascii b @ [44])"
      using put_pattern_eq [of 0 l b m "p + tot"] b by simp
    moreover have "placed k seed = (ascii b @ [44]) @ placed (k - (length b + 1)) (seed + 1)"
      using True by (simp add: placed.simps [of k seed] flip: b_def)
    moreover have "p + tot + of_nat (length (ascii b @ [44])) = p + (tot + (l + 1))"
      using l by (simp add: add.assoc)
    ultimately show ?thesis
      using c True l p
      by (simp add: init_patterns.simps [of m] write_bytes_append [of m _ "ascii b @ [44]"] add.assoc add.commute [of 1 "of_nat (length b) :: u32"] flip: b_def l_def
        del: write_bytes.simps append.simps append_assoc)
  qed
qed

lemma init_zeros_eq:
  "k = unat sz - unat tot \<Longrightarrow> tot \<le> sz \<Longrightarrow> init_zeros m p sz tot = write_bytes m (p + tot) (replicate k 0)"
proof (induction k arbitrary: m tot)
  case 0
  then have "\<not> tot < sz" by (simp add: word_le_nat_alt word_less_nat_alt)
  with 0 show ?case by (simp add: init_zeros.simps)
next
  case (Suc k)
  then have lt: "tot < sz" by (simp add: word_less_nat_alt)
  then have u: "unat (tot + 1) = Suc (unat tot)" "tot + 1 \<le> sz" by (simp_all add: unat_plus_one_less inc_le)
  have "init_zeros (m(p + tot := 0)) p sz (tot + 1) = write_bytes (m(p + tot := 0)) (p + (tot + 1)) (replicate k 0)"
    using Suc.prems u by (intro Suc.IH) simp_all
  with lt show ?case by (simp add: init_zeros.simps [of m] add.assoc del: fun_upd_apply)
qed

text \<open>The block that \<open>core_init_state\<close> writes.\<close>

definition state_block :: "nat \<Rightarrow> u16 \<Rightarrow> u8 list" where
  "state_block n seed = (let w = placed (n - 1) seed in w @ replicate (n - length w) 0)"

lemma length_state_block [simp]: "length (state_block n seed) = n"
  using length_placed [of "n - 1" seed] by (auto simp: state_block_def Let_def)

lemma core_init_state_eq:
  assumes "0 < sz" "unat sz \<le> 4294967280"
  shows "core_init_state m sz seed p = Some (write_bytes m p (state_block (unat sz) seed))"
proof -
  let ?w = "placed (unat (sz - 1)) seed"
  have u: "unat (sz - 1) = unat sz - 1" using assms(1) by (intro unat_minus_one_nz) auto
  have "0 < unat sz" using assms(1) by (simp add: word_less_nat_alt)
  then have lw: "length ?w < unat sz" using length_placed [of "unat (sz - 1)" seed] u by auto
  then have lu: "unat (of_nat (length ?w) :: u32) = length ?w" using assms(2) by (intro unat_of_nat32) simp
  have small: "placed k seed = []" if "k \<le> 1" for k
    using that by (simp add: placed.simps [of k] Let_def)
  have i: "init_patterns m p (sz - 1) seed 0 [] 0 = Some (write_bytes m p ?w, of_nat (length ?w))"
  proof (cases "1 < sz - 1")
    case False
    then have "unat (sz - 1) \<le> 1" by (simp add: word_less_nat_alt)
    with False small show ?thesis by (simp add: init_patterns.simps [of m])
  next
    case True
    then show ?thesis
      using init_patterns_eq [of "unat (sz - 1)" "sz - 1" 0 m p seed] u assms(2)
      by (cases "choose_pattern (seed + 1)") (simp add: init_patterns.simps [of m])
  qed
  have "init_zeros (write_bytes m p ?w) p sz (of_nat (length ?w)) =
      write_bytes (write_bytes m p ?w) (p + of_nat (length ?w)) (replicate (unat sz - length ?w) 0)"
    using lw lu by (intro init_zeros_eq) (simp_all add: word_le_nat_alt)
  with i show ?thesis
    by (simp add: core_init_state_def state_block_def Let_def write_bytes_append u)
qed

lemma state_block_zeros:
  "1 < n \<Longrightarrow> state_block n seed ! (n - 2) = 0 \<and> state_block n seed ! (n - 1) = 0"
  using length_placed [of "n - 1" seed] by (auto simp: state_block_def Let_def nth_append)

definition pattern_bytes :: "u8 list" where
  "pattern_bytes = concat (map ascii all_patterns)"

lemma set_placed: "set (placed k seed) \<subseteq> set pattern_bytes \<union> {44}"
proof (induction k seed rule: placed.induct)
  case (1 k seed)
  let ?b = "fst (choose_pattern (seed + 1))"
  have "set (ascii ?b) \<subseteq> set pattern_bytes"
    using choose_pattern_in(1) [of "seed + 1"] unfolding pattern_bytes_def set_concat set_map by blast
  with 1 show ?case by (auto simp: placed.simps [of k seed] Let_def)
qed

lemma set_state_block: "set (state_block n seed) \<subseteq> insert 0 (set pattern_bytes) \<union> {44}"
  using set_placed [of "n - 1" seed] by (auto simp: state_block_def Let_def)

text \<open>Seeds that turn no byte of the block into a comma.\<close>

definition safe_seed :: "u16 \<Rightarrow> bool" where
  "safe_seed seed \<longleftrightarrow> list_all (\<lambda>c. c XOR ucast seed \<noteq> 44) (0 # pattern_bytes)"

lemma safe_seeds: "safe_seed 0" "safe_seed 0x3415"
  by (simp_all add: safe_seed_def pattern_bytes_def all_patterns_def intpat_def floatpat_def scipat_def errpat_def ascii_def)

lemma safe_seed_block:
  assumes "safe_seed s" "c \<in> set (state_block n seed)"
  shows "c = 44 \<or> c XOR ucast s \<noteq> 44"
  using assms set_state_block [of n seed] by (auto simp: safe_seed_def list_all_iff)

lemma core_bench_state_block:
  assumes sz: "1 < sz" "unat sz \<le> 4294967280" and step: "1 < step" "step < 0x8000"
    and l: "unat p + unat sz + unat step \<le> 4294967296" and s: "safe_seed s"
    and m1_def: "m1 = write_bytes m p (state_block (unat sz) seed)"
  shows "\<exists>crc'. core_bench_state m1 sz p s s step crc = Some (m1, crc')"
proof -
  let ?b = "state_block (unat sz) seed"
  have n: "1 < unat sz" using sz(1) by (simp add: word_less_nat_alt)
  have i: "m1 (p + of_nat k) = ?b ! k" if "k < unat sz" for k
    using that sz by (simp add: m1_def write_bytes_inside)
  have k: "unat sz - 2 + 1 = unat sz - 1" using n by simp
  have z: "m1 (p + of_nat (unat sz - 2)) = 0" "m1 (p + of_nat (unat sz - 2 + 1)) = 0"
    unfolding k using state_block_zeros [OF n, of seed] n by (simp_all only: i)
  have "unat sz - 2 + 1 < unat sz" using n by simp
  from core_bench_state_eq [OF step l this z] obtain crc' where
    e: "core_bench_state m1 sz p s s step crc =
      Some (corrupted (corrupted m1 (unat step) p (p + sz) s) (unat step) p (p + sz) s, crc')" by blast
  have "m1 x = 44 \<or> m1 x XOR ucast s \<noteq> 44" if "every (unat step) p (p + sz) x" for x
  proof -
    have ps: "unat (p + sz) = unat p + unat sz"
      using l step by (intro unat_add_small) (auto simp: word_less_nat_alt)
    with that have x: "unat p \<le> unat x" "unat x - unat p < unat sz"
      by (auto simp: every_def word_le_nat_alt word_less_nat_alt)
    have "x = p + of_nat (unat x - unat p)"
      using x by (simp add: word_unat_eq_iff of_nat_diff)
    then have "m1 x = ?b ! (unat x - unat p)" using i [OF x(2)] by simp
    then have "m1 x \<in> set ?b" using x(2) by simp
    with s show ?thesis by (rule safe_seed_block)
  qed
  then have "corrupted (corrupted m1 (unat step) p (p + sz) s) (unat step) p (p + sz) s = m1"
    by (simp only: corrupted_twice) blast
  with e show ?thesis by auto
qed

section \<open>Properties\<close>

text \<open>C38: on a token that a comma or the end of the string follows, the scanner returns
  \<open>CORE_INT\<close>, \<open>CORE_FLOAT\<close> or \<open>CORE_SCIENTIFIC\<close> exactly when the token has the form of an integer,
  a number with a point, or such a number with a signed exponent; unless the token is invalid,
  \<open>*instr\<close> is then behind its comma.\<close>

theorem scanner_grammar:
  assumes "cstr m p (w @ r)" and "44 \<notin> set w" and "r = [] \<or> (\<exists>r'. r = 44 # r')"
  shows "\<exists>s q n'. core_state_transition m p n = Some (s, q, n')
    \<and> (s = CORE_INT) = int_form w \<and> (s = CORE_FLOAT) = float_form w \<and> (s = CORE_SCIENTIFIC) = sci_form w
    \<and> (s = CORE_INVALID \<or> cstr m q (drop 1 r))"
  using transition_token [OF assms, of n] end_start [of w] by blast

theorem scanner_grammar_witness:
  "\<exists>s q n'. core_state_transition (write_bytes (\<lambda>_. 0) 0x80001000 (ascii ''+0.6e-12,T'')) 0x80001000 (\<lambda>_. 0) = Some (s, q, n')
    \<and> s = CORE_SCIENTIFIC"
proof -
  let ?m = "write_bytes (\<lambda>_. 0) 0x80001000 (ascii ''+0.6e-12,T'')"
  have "cstr ?m 0x80001000 (ascii ''+0.6e-12'' @ ascii '',T'')"
    by (simp add: ascii_def)
  then have "\<exists>s q n'. core_state_transition ?m 0x80001000 (\<lambda>_. 0) = Some (s, q, n')
      \<and> (s = CORE_INT) = int_form (ascii ''+0.6e-12'') \<and> (s = CORE_FLOAT) = float_form (ascii ''+0.6e-12'')
      \<and> (s = CORE_SCIENTIFIC) = sci_form (ascii ''+0.6e-12'')
      \<and> (s = CORE_INVALID \<or> cstr ?m q (drop 1 (ascii '',T'')))"
    by (rule scanner_grammar) (simp_all add: ascii_def)
  moreover have "sci_form (ascii ''+0.6e-12'')"
    by (simp add: ascii_def sci_form_def fraction_def exponent_def signed_digits_def unsign_def
        is_sign_def is_exp_def ee_isdigit_def)
  ultimately show ?thesis by blast
qed

text \<open>\<open>core_init_state\<close> writes exactly the bytes of its block, patterns with commas and then
  zeros, at least two.\<close>

theorem core_init_state_block:
  assumes "1 < sz" and "unat sz \<le> 4294967280"
  shows "core_init_state m sz seed p = Some (write_bytes m p (state_block (unat sz) seed))
    \<and> length (state_block (unat sz) seed) = unat sz
    \<and> set (state_block (unat sz) seed) \<subseteq> insert 0 (set pattern_bytes) \<union> {44}
    \<and> drop (unat sz - 2) (state_block (unat sz) seed) = [0, 0]"
proof -
  let ?b = "state_block (unat sz) seed"
  have n: "1 < unat sz" using assms(1) by (simp add: word_less_nat_alt)
  have "drop (unat sz - 2) ?b = [?b ! (unat sz - 2), ?b ! (unat sz - 1)]"
    using n by (intro nth_equalityI) (auto simp: less_Suc_eq nth_Cons' numeral_2_eq_2)
  with state_block_zeros [OF n, of seed] have "drop (unat sz - 2) ?b = [0, 0]" by simp
  moreover have "0 < sz" using assms(1) by (rule le_less_trans [rotated]) simp
  ultimately show ?thesis using assms(2) set_state_block by (simp add: core_init_state_eq)
qed

theorem core_init_state_block_witness:
  "core_init_state (\<lambda>_. 7) 666 0x66 0x80001000 = Some (write_bytes (\<lambda>_. 7) 0x80001000 (state_block 666 0x66))
    \<and> drop 664 (state_block 666 0x66) = [0, 0]"
  using core_init_state_block [of 666 "\<lambda>_. 7" "0x66" "0x80001000"] by (simp del: fun_upd_apply)

text \<open>Corrupting a block twice with one seed restores it exactly when the first corruption
  made no comma: the commas are skipped by the second.\<close>

theorem corrupt_twice_restores:
  assumes "0 < step" and "step < 0x8000" and "unat limit + unat step \<le> 4294967296"
  shows "\<exists>m1 m2. bench_corrupt m p limit seed step = Some m1 \<and> bench_corrupt m1 p limit seed step = Some m2
    \<and> (m2 = m) = (\<forall>x. every (unat step) p limit x \<longrightarrow> m x = 44 \<or> m x XOR ucast seed \<noteq> 44)"
  using bench_corrupt_eq [OF assms] corrupted_twice by blast

theorem corrupt_twice_restores_witness:
  "\<exists>m1 m2. bench_corrupt (\<lambda>_. 57) 0x80001000 0x80001010 0x3415 4 = Some m1
    \<and> bench_corrupt m1 0x80001000 0x80001010 0x3415 4 = Some m2 \<and> m2 \<noteq> (\<lambda>_. 57)"
proof -
  have "every 4 0x80001000 0x80001010 0x80001000" by (simp add: every_def)
  then show ?thesis
    using corrupt_twice_restores [of 4 "0x80001010" "\<lambda>_. 57" "0x80001000" "0x3415"] by fastforce
qed

text \<open>C39: after \<open>core_init_state\<close>, the benchmark returns and leaves the block as it was, for equal
  seeds that are safe (those of the performance and of the validation run are).\<close>

theorem core_bench_state_restores:
  assumes "1 < sz" and "unat sz \<le> 4294967280" and "1 < step" and "step < 0x8000"
    and "unat p + unat sz + unat step \<le> 4294967296" and "safe_seed s"
  shows "\<exists>m1 crc'. core_init_state m sz seed p = Some m1 \<and> core_bench_state m1 sz p s s step crc = Some (m1, crc')"
proof -
  have "0 < sz" using assms(1) by (rule le_less_trans [rotated]) simp
  then show ?thesis
    using core_bench_state_block [OF assms refl] core_init_state_eq [OF _ assms(2)] by blast
qed

theorem core_bench_state_restores_witness:
  "\<exists>m1 crc'. core_init_state (\<lambda>_. 7) 666 0x66 0x80001000 = Some m1
    \<and> core_bench_state m1 666 0x80001000 0x3415 0x3415 0x22 0 = Some (m1, crc')"
  using safe_seeds core_bench_state_restores [of 666 "0x22" "0x80001000" "0x3415" "\<lambda>_. 7" "0x66" 0] by simp

end
