(* ===== verification/CoreMatrix.thy ===== *)
theory CoreMatrix
  imports CoreUtil "HOL-Library.Signed_Division"
begin

text \<open>
  The matrix benchmark of CoreMark, \<^verbatim>\<open>bench/coremark/core_matrix.c\<close>.  The matrices are
  arrays with checked bounds: \<open>None\<close> is an access outside.  An element of \<open>MATDAT\<close> is a
  16-bit word read signed, one of \<open>MATRES\<close> a 32-bit word, and arithmetic wraps.  The results
  are compared with sums over rows and columns.
\<close>

unbundle bit_operations_syntax

section \<open>Arrays and loops\<close>

definition rd :: "'a list \<Rightarrow> u32 \<Rightarrow> 'a option" where
  "rd a i = (if unat i < length a then Some (a ! unat i) else None)"

definition wr :: "'a list \<Rightarrow> u32 \<Rightarrow> 'a \<Rightarrow> 'a list option" where
  "wr a i v = (if unat i < length a then Some (a[unat i := v]) else None)"

text \<open>\<open>for (; i < n; i++)\<close> with an \<open>ee_u32\<close> counter.\<close>

function for_up :: "u32 \<Rightarrow> u32 \<Rightarrow> (u32 \<Rightarrow> 's \<Rightarrow> 's option) \<Rightarrow> 's \<Rightarrow> 's option" where
  "for_up i n body s = (if i < n then do { s' \<leftarrow> body i s; for_up (i + 1) n body s' } else Some s)"
  by pat_completeness auto
termination
  by (relation "measure (\<lambda>(i, n, body, s). unat n - unat i)")
     (auto simp: unat_plus_one_less word_less_nat_alt)

declare for_up.simps [simp del]

section \<open>The program\<close>

type_synonym matdat = u16
type_synonym matres = u32

definition matrix_clip :: "matdat \<Rightarrow> bool \<Rightarrow> matdat" where
  "matrix_clip x y = (if y then x AND 0x0ff else x AND 0xffff)"

definition matrix_big :: "matdat \<Rightarrow> matdat" where
  "matrix_big x = 0xf000 OR x"

definition bit_extract :: "matres \<Rightarrow> nat \<Rightarrow> nat \<Rightarrow> matres" where
  "bit_extract x from to = signed_drop_bit from x AND NOT (push_bit to 0xffffffff)"

definition matrix_sum :: "u32 \<Rightarrow> matres list \<Rightarrow> matdat \<Rightarrow> u16 option" where
  "matrix_sum N C clipval =
     do { (tmp, prev, ret) \<leftarrow> for_up 0 N (\<lambda>i. for_up 0 N (\<lambda>j (tmp, prev, ret).
            do { cur \<leftarrow> rd C (i * N + j);
                 let tmp = tmp + cur;
                 let (tmp, ret) = (if sint tmp > sint clipval then (0, ret + 10)
                                   else (tmp, ret + (if sint cur > sint prev then 1 else 0)));
                 Some (tmp, cur, ret) })) (0, 0 :: matres, 0);
          Some ret }"

definition matrix_mul_const :: "u32 \<Rightarrow> matres list \<Rightarrow> matdat list \<Rightarrow> matdat \<Rightarrow> matres list option" where
  "matrix_mul_const N C A val =
     for_up 0 N (\<lambda>i. for_up 0 N (\<lambda>j C.
       do { x \<leftarrow> rd A (i * N + j); wr C (i * N + j) (scast x * scast val) })) C"

definition matrix_add_const :: "u32 \<Rightarrow> matdat list \<Rightarrow> matdat \<Rightarrow> matdat list option" where
  "matrix_add_const N A val =
     for_up 0 N (\<lambda>i. for_up 0 N (\<lambda>j A.
       do { x \<leftarrow> rd A (i * N + j); wr A (i * N + j) (x + val) })) A"

definition matrix_mul_vect :: "u32 \<Rightarrow> matres list \<Rightarrow> matdat list \<Rightarrow> matdat list \<Rightarrow> matres list option" where
  "matrix_mul_vect N C A B =
     for_up 0 N (\<lambda>i C. do { C \<leftarrow> wr C i 0;
       for_up 0 N (\<lambda>j C.
         do { c \<leftarrow> rd C i; x \<leftarrow> rd A (i * N + j); y \<leftarrow> rd B j; wr C i (c + scast x * scast y) }) C }) C"

definition matrix_mul_matrix :: "u32 \<Rightarrow> matres list \<Rightarrow> matdat list \<Rightarrow> matdat list \<Rightarrow> matres list option" where
  "matrix_mul_matrix N C A B =
     for_up 0 N (\<lambda>i. for_up 0 N (\<lambda>j C. do { C \<leftarrow> wr C (i * N + j) 0;
       for_up 0 N (\<lambda>k C.
         do { c \<leftarrow> rd C (i * N + j); x \<leftarrow> rd A (i * N + k); y \<leftarrow> rd B (k * N + j);
              wr C (i * N + j) (c + scast x * scast y) }) C })) C"

definition matrix_mul_matrix_bitextract :: "u32 \<Rightarrow> matres list \<Rightarrow> matdat list \<Rightarrow> matdat list \<Rightarrow> matres list option" where
  "matrix_mul_matrix_bitextract N C A B =
     for_up 0 N (\<lambda>i. for_up 0 N (\<lambda>j C. do { C \<leftarrow> wr C (i * N + j) 0;
       for_up 0 N (\<lambda>k C.
         do { x \<leftarrow> rd A (i * N + k); y \<leftarrow> rd B (k * N + j);
              let tmp = scast x * scast y;
              c \<leftarrow> rd C (i * N + j);
              wr C (i * N + j) (c + bit_extract tmp 2 4 * bit_extract tmp 5 7) }) C })) C"

text \<open>The matrices \<open>A\<close> and \<open>C\<close> afterwards, and the checksum.\<close>

definition matrix_test ::
    "u32 \<Rightarrow> matres list \<Rightarrow> matdat list \<Rightarrow> matdat list \<Rightarrow> matdat \<Rightarrow> (matdat list \<times> matres list \<times> u16) option" where
  "matrix_test N C A B val =
     do { let crc = 0;
          let clipval = matrix_big val;
          A \<leftarrow> matrix_add_const N A val;
          C \<leftarrow> matrix_mul_const N C A val;
          s \<leftarrow> matrix_sum N C clipval;
          let crc = crc16 s crc;
          C \<leftarrow> matrix_mul_vect N C A B;
          s \<leftarrow> matrix_sum N C clipval;
          let crc = crc16 s crc;
          C \<leftarrow> matrix_mul_matrix N C A B;
          s \<leftarrow> matrix_sum N C clipval;
          let crc = crc16 s crc;
          C \<leftarrow> matrix_mul_matrix_bitextract N C A B;
          s \<leftarrow> matrix_sum N C clipval;
          let crc = crc16 s crc;
          A \<leftarrow> matrix_add_const N A (- val);
          Some (A, C, crc) }"

record mat_params =
  mat_N :: u32
  mat_A :: "matdat list"
  mat_B :: "matdat list"
  mat_C :: "matres list"

definition core_bench_matrix :: "mat_params \<Rightarrow> u16 \<Rightarrow> u16 \<Rightarrow> (mat_params \<times> u16) option" where
  "core_bench_matrix p seed crc =
     do { (A, C, r) \<leftarrow> matrix_test (mat_N p) (mat_C p) (mat_A p) (mat_B p) seed;
          Some (p\<lparr>mat_A := A, mat_C := C\<rparr>, crc16 r crc) }"

text \<open>\<open>core_init_matrix\<close>: the dimension, the values, and the addresses of the three matrices.\<close>

partial_function (option) init_dim :: "u32 \<Rightarrow> u32 \<Rightarrow> u32 \<Rightarrow> u32 option" where
  "init_dim blksize i j =
     (if j < blksize then init_dim blksize (i + 1) ((i + 1) * (i + 1) * 2 * 4) else Some (i - 1))"

declare init_dim.simps [code]

definition init_value :: "u32 \<Rightarrow> u32 \<Rightarrow> u32 \<times> matdat \<times> matdat" where
  "init_value seed order =
     (let seed = word_of_int (sint (order * seed) smod 65536);
          val = matrix_clip (ucast (seed + order)) False;
          val2 = matrix_clip (ucast (scast val + order)) True
      in (seed, val, val2))"

definition init_values :: "u32 \<Rightarrow> u32 \<Rightarrow> matdat list \<Rightarrow> matdat list \<Rightarrow> (matdat list \<times> matdat list) option" where
  "init_values N seed A B =
     do { (A, B, seed, order) \<leftarrow> for_up 0 N (\<lambda>i. for_up 0 N (\<lambda>j (A, B, seed, order).
            do { let (seed, b, a) = init_value seed order;
                 B \<leftarrow> wr B (i * N + j) b;
                 A \<leftarrow> wr A (i * N + j) a;
                 Some (A, B, seed, order + 1) })) (A, B, seed, 1);
          Some (A, B) }"

definition align_mem :: "addr \<Rightarrow> addr" where
  "align_mem x = 4 + ((x - 1) AND NOT 3)"

text \<open>The arrays as they lie in memory, and the parameters with the addresses of the matrices.\<close>

definition ld16 :: "mem \<Rightarrow> addr \<Rightarrow> u16" where
  "ld16 m a = ucast (m a) OR push_bit 8 (ucast (m (a + 1)))"

definition shorts_at :: "mem \<Rightarrow> addr \<Rightarrow> nat \<Rightarrow> u16 list" where
  "shorts_at m a n = map (\<lambda>i. ld16 m (a + 2 * of_nat i)) [0..<n]"

definition words_at :: "mem \<Rightarrow> addr \<Rightarrow> nat \<Rightarrow> u32 list" where
  "words_at m a n = map (\<lambda>i. ld32 m (a + 4 * of_nat i)) [0..<n]"

definition core_init_matrix :: "mem \<Rightarrow> u32 \<Rightarrow> addr \<Rightarrow> u32 \<Rightarrow> (mat_params \<times> addr \<times> addr \<times> addr) option" where
  "core_init_matrix m blksize memblk seed =
     do { let seed = (if seed = 0 then 1 else seed);
          N \<leftarrow> init_dim blksize 0 0;
          let a = align_mem memblk;
          let b = a + 2 * (N * N);
          let c = align_mem (b + 2 * (N * N));
          let len = unat (N * N);
          (A, B) \<leftarrow> init_values N seed (shorts_at m a len) (shorts_at m b len);
          Some (\<lparr>mat_N = N, mat_A = A, mat_B = B, mat_C = words_at m c len\<rparr>, a, b, c) }"

section \<open>Loops over a matrix\<close>

lemma for_up_rule:
  assumes body: "\<And>k s. k < unat n \<Longrightarrow> P k s \<Longrightarrow> \<exists>s'. body (of_nat k) s = Some s' \<and> P (Suc k) s'"
    and "P 0 s"
  shows "\<exists>s'. for_up 0 n body s = Some s' \<and> P (unat n) s'"
proof -
  have "\<exists>s'. for_up i n body s = Some s' \<and> P (unat n) s'" if "d = unat n - unat i" "i \<le> n" "P (unat i) s" for d i s
    using that
  proof (induction d arbitrary: i s)
    case 0
    then have "i = n" by (simp add: word_le_nat_alt word_unat_eq_iff)
    with 0 show ?case by (simp add: for_up.simps)
  next
    case (Suc d)
    then have lt: "i < n" by (simp add: word_less_nat_alt)
    then have u: "unat (i + 1) = Suc (unat i)" "i + 1 \<le> n" by (simp_all add: unat_plus_one_less inc_le)
    obtain s' where s': "body i s = Some s'" "P (Suc (unat i)) s'"
      using body [of "unat i" s] lt Suc.prems(3) by (auto simp: word_less_nat_alt)
    then have "\<exists>s''. for_up (i + 1) n body s' = Some s'' \<and> P (unat n) s''"
      using Suc.prems(1) u by (intro Suc.IH) simp_all
    with lt s' show ?case by (simp add: for_up.simps [of i])
  qed
  from this [of "unat n" 0 s] assms(2) show ?thesis by simp
qed

lemma index_less: "i < n \<Longrightarrow> j < n \<Longrightarrow> i * n + j < n * n" for i j n :: nat
proof -
  assume "i < n" "j < n"
  then have "i * n + j < i * n + n" by simp
  also have "\<dots> = Suc i * n" by simp
  also have "\<dots> \<le> n * n" using \<open>i < n\<close> by (intro mult_le_mono1) simp
  finally show ?thesis .
qed

lemma square_bound: "n \<le> 65535 \<Longrightarrow> n * n < 4294967296" for n :: nat
proof -
  assume n: "n \<le> 65535"
  have "n * n \<le> 65535 * 65535" using n n by (rule mult_le_mono)
  then show ?thesis by simp
qed

lemma index_word:
  "N \<le> 65535 \<Longrightarrow> i < unat N \<Longrightarrow> j < unat N \<Longrightarrow> unat (of_nat i * N + of_nat j) = i * unat N + j" for N :: u32
proof -
  assume b: "N \<le> 65535" "i < unat N" "j < unat N"
  then have "i * unat N + j < 4294967296"
    using index_less [OF b(2,3)] square_bound [of "unat N"] by (simp add: word_le_nat_alt)
  then have "unat (of_nat (i * unat N + j) :: u32) = i * unat N + j" by (rule unat_of_nat32)
  then show ?thesis by simp
qed

lemma grid_rule:
  assumes body: "\<And>i j s. i < unat N \<Longrightarrow> j < unat N \<Longrightarrow> P (i * unat N + j) s \<Longrightarrow>
      \<exists>s'. body (of_nat i) (of_nat j) s = Some s' \<and> P (Suc (i * unat N + j)) s'"
    and P0: "P 0 s"
  shows "\<exists>s'. for_up 0 N (\<lambda>i. for_up 0 N (\<lambda>j. body i j)) s = Some s' \<and> P (unat N * unat N) s'"
proof (rule for_up_rule [of N "\<lambda>i. P (i * unat N)"])
  fix i s
  assume i: "i < unat N" and s: "P (i * unat N) s"
  have "\<exists>s'. for_up 0 N (body (of_nat i)) s = Some s' \<and> P (i * unat N + unat N) s'"
    using body i s by (intro for_up_rule [of N "\<lambda>j. P (i * unat N + j)"]) simp_all
  then show "\<exists>s'. for_up 0 N (body (of_nat i)) s = Some s' \<and> P (Suc i * unat N) s'"
    by (simp add: add.commute)
qed (use P0 in simp)

text \<open>An array whose first \<open>k\<close> elements are those of \<open>f\<close>.\<close>

definition filled :: "(nat \<Rightarrow> 'a) \<Rightarrow> nat \<Rightarrow> 'a list \<Rightarrow> 'a list" where
  "filled f k a = map f [0..<k] @ drop k a"

lemma filled_0 [simp]: "filled f 0 a = a"
  by (simp add: filled_def)

lemma length_filled [simp]: "k \<le> length a \<Longrightarrow> length (filled f k a) = length a"
  by (simp add: filled_def)

lemma filled_nth: "k \<le> i \<Longrightarrow> i < length a \<Longrightarrow> filled f k a ! i = a ! i"
  by (simp add: filled_def nth_append)

lemma filled_nth_less: "i < k \<Longrightarrow> filled f k a ! i = f i"
  by (simp add: filled_def nth_append)

lemma filled_Suc: "k < length a \<Longrightarrow> v = f k \<Longrightarrow> (filled f k a)[k := v] = filled f (Suc k) a"
  by (simp add: filled_def list_update_append flip: Cons_nth_drop_Suc)

lemma filled_take: "take k (filled f k a) = map f [0..<k]" "drop k (filled f k a) = drop k a"
  by (simp_all add: filled_def)

lemma map_as_filled: "n \<le> length a \<Longrightarrow> filled (\<lambda>k. g (a ! k)) n a = map g (take n a) @ drop n a"
proof -
  assume "n \<le> length a"
  then have "map (\<lambda>k. g (a ! k)) [0..<n] = map g (take n a)" by (simp add: list_eq_iff_nth_eq)
  then show ?thesis by (simp add: filled_def)
qed

section \<open>The operations as functions of the elements\<close>

lemma matrix_add_const_eq:
  assumes N: "N \<le> 65535" and A: "unat N * unat N \<le> length A"
  shows "matrix_add_const N A v = Some (filled (\<lambda>k. A ! k + v) (unat N * unat N) A)"
proof -
  let ?f = "\<lambda>k. A ! k + v"
  have "\<exists>s'. matrix_add_const N A v = Some s' \<and> s' = filled ?f (unat N * unat N) A"
    unfolding matrix_add_const_def
  proof (rule grid_rule [of N "\<lambda>k s. s = filled ?f k A"])
    fix i j s
    assume ij: "i < unat N" "j < unat N" and s: "s = filled ?f (i * unat N + j) A"
    have l: "i * unat N + j < length A" using index_less [OF ij] A by simp
    with s show "\<exists>s'. (do { x \<leftarrow> rd s (of_nat i * N + of_nat j); wr s (of_nat i * N + of_nat j) (x + v) }) = Some s'
        \<and> s' = filled ?f (Suc (i * unat N + j)) A"
      by (simp add: rd_def wr_def index_word [OF N ij] filled_nth filled_Suc)
  qed simp
  then show ?thesis by blast
qed

lemma matrix_mul_const_eq:
  assumes N: "N \<le> 65535" and A: "unat N * unat N \<le> length A" and C: "unat N * unat N \<le> length C"
  shows "matrix_mul_const N C A v = Some (filled (\<lambda>k. scast (A ! k) * scast v) (unat N * unat N) C)"
proof -
  let ?f = "\<lambda>k. scast (A ! k) * scast v :: u32"
  have "\<exists>s'. matrix_mul_const N C A v = Some s' \<and> s' = filled ?f (unat N * unat N) C"
    unfolding matrix_mul_const_def
  proof (rule grid_rule [of N "\<lambda>k s. s = filled ?f k C"])
    fix i j s
    assume ij: "i < unat N" "j < unat N" and s: "s = filled ?f (i * unat N + j) C"
    have l: "i * unat N + j < length C" "i * unat N + j < length A" using index_less [OF ij] A C by simp_all
    with s show "\<exists>s'. (do { x \<leftarrow> rd A (of_nat i * N + of_nat j); wr s (of_nat i * N + of_nat j) (scast x * scast v) }) = Some s'
        \<and> s' = filled ?f (Suc (i * unat N + j)) C"
      by (simp add: rd_def wr_def index_word [OF N ij] filled_Suc)
  qed simp
  then show ?thesis by blast
qed

lemma acc_rule:
  assumes body: "\<And>k c. k < unat N \<Longrightarrow> length c = length C \<Longrightarrow> body (of_nat k) c = Some (c[ix := c ! ix + g k])"
    and ix: "ix < length C"
  shows "for_up 0 N body C = Some (C[ix := C ! ix + (\<Sum>k<unat N. g k)])"
proof -
  have "\<exists>s'. for_up 0 N body C = Some s' \<and> s' = C[ix := C ! ix + (\<Sum>k<unat N. g k)]"
  proof (rule for_up_rule [of N "\<lambda>k s. s = C[ix := C ! ix + (\<Sum>k<k. g k)]"])
    fix k s
    assume "k < unat N" "s = C[ix := C ! ix + (\<Sum>k<k. g k)]"
    with body ix show "\<exists>s'. body (of_nat k) s = Some s' \<and> s' = C[ix := C ! ix + (\<Sum>k<Suc k. g k)]"
      by (simp add: add.assoc)
  qed simp
  then show ?thesis by blast
qed

definition dot :: "(matres \<Rightarrow> matres) \<Rightarrow> matdat list \<Rightarrow> matdat list \<Rightarrow> nat \<Rightarrow> nat \<Rightarrow> nat \<Rightarrow> matres" where
  "dot g A B n i j = (\<Sum>k<n. g (scast (A ! (i * n + k)) * scast (B ! (k * n + j))))"

definition product_entry :: "(matres \<Rightarrow> matres) \<Rightarrow> matdat list \<Rightarrow> matdat list \<Rightarrow> nat \<Rightarrow> nat \<Rightarrow> matres" where
  "product_entry g A B n k = dot g A B n (k div n) (k mod n)"

lemma product_entry_at: "j < n \<Longrightarrow> product_entry g A B n (i * n + j) = dot g A B n i j"
  by (simp add: product_entry_def)

lemma product_rule:
  assumes N: "N \<le> 65535" and A: "unat N * unat N \<le> length A" and B: "unat N * unat N \<le> length B"
    and C: "unat N * unat N \<le> length C"
    and body: "\<And>i j k c. i < unat N \<Longrightarrow> j < unat N \<Longrightarrow> k < unat N \<Longrightarrow> i * unat N + j < length c \<Longrightarrow>
      body (of_nat i) (of_nat j) (of_nat k) c =
        Some (c[i * unat N + j := c ! (i * unat N + j) + g (scast (A ! (i * unat N + k)) * scast (B ! (k * unat N + j)))])"
  shows "for_up 0 N (\<lambda>i. for_up 0 N (\<lambda>j C. do { C \<leftarrow> wr C (i * N + j) 0; for_up 0 N (\<lambda>k. body i j k) C })) C
    = Some (filled (product_entry g A B (unat N)) (unat N * unat N) C)"
proof -
  let ?f = "product_entry g A B (unat N)"
  have "\<exists>s'. for_up 0 N (\<lambda>i. for_up 0 N (\<lambda>j C. do { C \<leftarrow> wr C (i * N + j) 0; for_up 0 N (\<lambda>k. body i j k) C })) C = Some s'
    \<and> s' = filled ?f (unat N * unat N) C"
  proof (rule grid_rule [of N "\<lambda>k s. s = filled ?f k C"])
    fix i j s
    assume ij: "i < unat N" "j < unat N" and s: "s = filled ?f (i * unat N + j) C"
    let ?ix = "i * unat N + j"
    have l: "?ix < length C" using index_less [OF ij] C by simp
    with s have ls: "length s = length C" by simp
    have "for_up 0 N (\<lambda>k. body (of_nat i) (of_nat j) k) (s[?ix := 0])
        = Some ((s[?ix := 0])[?ix := s[?ix := 0] ! ?ix + dot g A B (unat N) i j])"
      unfolding dot_def using body ij l ls by (intro acc_rule) simp_all
    also have "(s[?ix := 0])[?ix := s[?ix := 0] ! ?ix + dot g A B (unat N) i j] = filled ?f (Suc ?ix) C"
      using l ls s ij by (simp add: filled_Suc product_entry_at)
    finally show "\<exists>s'. (do { C \<leftarrow> wr s (of_nat i * N + of_nat j) 0; for_up 0 N (\<lambda>k. body (of_nat i) (of_nat j) k) C }) = Some s'
        \<and> s' = filled ?f (Suc ?ix) C"
      using l ls by (simp add: wr_def index_word [OF N ij])
  qed simp
  then show ?thesis by blast
qed

lemma matrix_mul_matrix_eq:
  assumes N: "N \<le> 65535" and A: "unat N * unat N \<le> length A" and B: "unat N * unat N \<le> length B"
    and C: "unat N * unat N \<le> length C"
  shows "matrix_mul_matrix N C A B = Some (filled (product_entry (\<lambda>x. x) A B (unat N)) (unat N * unat N) C)"
  unfolding matrix_mul_matrix_def
proof (rule product_rule [OF assms])
  fix i j k c
  assume i: "i < unat N" and j: "j < unat N" and k: "k < unat N" and l: "i * unat N + j < length (c :: matres list)"
  have "i * unat N + k < length A" "k * unat N + j < length B"
    using index_less [OF i k] index_less [OF k j] A B by simp_all
  with l show "(do { c' \<leftarrow> rd c (of_nat i * N + of_nat j); x \<leftarrow> rd A (of_nat i * N + of_nat k); y \<leftarrow> rd B (of_nat k * N + of_nat j);
        wr c (of_nat i * N + of_nat j) (c' + scast x * scast y) })
    = Some (c[i * unat N + j := c ! (i * unat N + j) + scast (A ! (i * unat N + k)) * scast (B ! (k * unat N + j))])"
    by (simp add: rd_def wr_def index_word [OF N i j] index_word [OF N i k] index_word [OF N k j])
qed

definition extract_product :: "matres \<Rightarrow> matres" where
  "extract_product tmp = bit_extract tmp 2 4 * bit_extract tmp 5 7"

lemma matrix_mul_matrix_bitextract_eq:
  assumes N: "N \<le> 65535" and A: "unat N * unat N \<le> length A" and B: "unat N * unat N \<le> length B"
    and C: "unat N * unat N \<le> length C"
  shows "matrix_mul_matrix_bitextract N C A B = Some (filled (product_entry extract_product A B (unat N)) (unat N * unat N) C)"
  unfolding matrix_mul_matrix_bitextract_def
proof (rule product_rule [OF assms])
  fix i j k c
  assume i: "i < unat N" and j: "j < unat N" and k: "k < unat N" and l: "i * unat N + j < length (c :: matres list)"
  have "i * unat N + k < length A" "k * unat N + j < length B"
    using index_less [OF i k] index_less [OF k j] A B by simp_all
  with l show "(do { x \<leftarrow> rd A (of_nat i * N + of_nat k); y \<leftarrow> rd B (of_nat k * N + of_nat j);
        let tmp = scast x * scast y;
        c' \<leftarrow> rd c (of_nat i * N + of_nat j);
        wr c (of_nat i * N + of_nat j) (c' + bit_extract tmp 2 4 * bit_extract tmp 5 7) })
    = Some (c[i * unat N + j := c ! (i * unat N + j) + extract_product (scast (A ! (i * unat N + k)) * scast (B ! (k * unat N + j)))])"
    by (simp add: rd_def wr_def Let_def extract_product_def index_word [OF N i j] index_word [OF N i k] index_word [OF N k j])
qed

lemma matrix_mul_vect_eq:
  assumes N: "N \<le> 65535" and A: "unat N * unat N \<le> length A" and B: "unat N \<le> length B"
    and C: "unat N \<le> length C"
  shows "matrix_mul_vect N C A B =
    Some (filled (\<lambda>i. \<Sum>j<unat N. scast (A ! (i * unat N + j)) * scast (B ! j)) (unat N) C)"
proof -
  let ?f = "\<lambda>i. \<Sum>j<unat N. scast (A ! (i * unat N + j)) * scast (B ! j) :: matres"
  have "\<exists>s'. matrix_mul_vect N C A B = Some s' \<and> s' = filled ?f (unat N) C"
    unfolding matrix_mul_vect_def
  proof (rule for_up_rule [of N "\<lambda>k s. s = filled ?f k C"])
    fix i s
    assume i: "i < unat N" and s: "s = filled ?f i C"
    have iu: "unat (of_nat i :: u32) = i"
      using i N by (intro unat_of_nat32) (simp add: word_le_nat_alt)
    have l: "i < length C" using i C by simp
    with s have ls: "length s = length C" by simp
    have "for_up 0 N (\<lambda>j C. do { c \<leftarrow> rd C (of_nat i); x \<leftarrow> rd A (of_nat i * N + j); y \<leftarrow> rd B j;
         wr C (of_nat i) (c + scast x * scast y) }) (s[i := 0]) = Some ((s[i := 0])[i := s[i := 0] ! i + ?f i])"
    proof (rule acc_rule)
      fix k c
      assume k: "k < unat N" and c: "length (c :: matres list) = length (s[i := 0])"
      have ku: "unat (of_nat k :: u32) = k"
        using k N by (intro unat_of_nat32) (simp add: word_le_nat_alt)
      have "i * unat N + k < length A" "k < length B" "i < length c"
        using index_less [OF i k] A B k l ls c by simp_all
      then show "(do { c' \<leftarrow> rd c (of_nat i); x \<leftarrow> rd A (of_nat i * N + of_nat k); y \<leftarrow> rd B (of_nat k);
         wr c (of_nat i) (c' + scast x * scast y) }) = Some (c[i := c ! i + scast (A ! (i * unat N + k)) * scast (B ! k)])"
        by (simp add: rd_def wr_def iu ku index_word [OF N i k])
    qed (use l ls in simp)
    moreover have "(s[i := 0])[i := s[i := 0] ! i + ?f i] = filled ?f (Suc i) C"
      using l ls s by (simp add: filled_Suc)
    ultimately show "\<exists>s'. (do { C \<leftarrow> wr s (of_nat i) 0;
       for_up 0 N (\<lambda>j C. do { c \<leftarrow> rd C (of_nat i); x \<leftarrow> rd A (of_nat i * N + j); y \<leftarrow> rd B j;
         wr C (of_nat i) (c + scast x * scast y) }) C }) = Some s' \<and> s' = filled ?f (Suc i) C"
      using l ls by (simp add: wr_def iu)
  qed simp
  then show ?thesis by blast
qed

definition sum_step :: "matdat \<Rightarrow> matres \<times> matres \<times> u16 \<Rightarrow> matres \<Rightarrow> matres \<times> matres \<times> u16" where
  "sum_step clipval st cur =
     (let (tmp, prev, ret) = st; t = tmp + cur
      in if sint t > sint clipval then (0, cur, ret + 10)
         else (t, cur, ret + (if sint cur > sint prev then 1 else 0)))"

definition sum_of :: "matdat \<Rightarrow> matres list \<Rightarrow> u16" where
  "sum_of clipval cs = snd (snd (foldl (sum_step clipval) (0, 0, 0) cs))"

lemma matrix_sum_eq:
  assumes N: "N \<le> 65535" and C: "unat N * unat N \<le> length C"
  shows "matrix_sum N C clipval = Some (sum_of clipval (take (unat N * unat N) C))"
proof -
  let ?P = "\<lambda>k s. s = foldl (sum_step clipval) (0, 0, 0) (take k C)"
  let ?body = "\<lambda>i j (tmp, prev, ret). do { cur \<leftarrow> rd C (i * N + j);
     let tmp = tmp + cur;
     let (tmp, ret) = (if sint tmp > sint clipval then (0, ret + 10)
                       else (tmp, ret + (if sint cur > sint prev then 1 else 0)));
     Some (tmp, cur, ret) }"
  have "\<exists>s'. for_up 0 N (\<lambda>i. for_up 0 N (\<lambda>j. ?body i j)) (0, 0, 0) = Some s' \<and> ?P (unat N * unat N) s'"
  proof (rule grid_rule [of N ?P])
    fix i j s
    assume ij: "i < unat N" "j < unat N" and s: "?P (i * unat N + j) s"
    have l: "i * unat N + j < length C" using index_less [OF ij] C by simp
    obtain tmp prev ret where t: "s = (tmp, prev, ret)" by (cases s)
    have "?body (of_nat i) (of_nat j) s = Some (sum_step clipval s (C ! (i * unat N + j)))"
      using l by (simp add: t rd_def index_word [OF N ij] sum_step_def Let_def)
    moreover have "sum_step clipval s (C ! (i * unat N + j)) =
        foldl (sum_step clipval) (0, 0, 0) (take (Suc (i * unat N + j)) C)"
      using s l by (simp add: take_Suc_conv_app_nth)
    ultimately show "\<exists>s'. ?body (of_nat i) (of_nat j) s = Some s' \<and> ?P (Suc (i * unat N + j)) s'" by blast
  qed simp
  then show ?thesis
    by (cases "foldl (sum_step clipval) (0, 0, 0) (take (unat N * unat N) C)")
       (simp add: matrix_sum_def sum_of_def)
qed

text \<open>The results of the four steps of \<open>matrix_test\<close> on a matrix \<open>A\<close> that has the constant added.\<close>

definition const_matrix :: "nat \<Rightarrow> matdat list \<Rightarrow> matdat \<Rightarrow> matres list" where
  "const_matrix n A v = map (\<lambda>k. scast (A ! k) * scast v) [0..<n * n]"

definition product_matrix :: "(matres \<Rightarrow> matres) \<Rightarrow> nat \<Rightarrow> matdat list \<Rightarrow> matdat list \<Rightarrow> matres list" where
  "product_matrix g n A B = map (product_entry g A B n) [0..<n * n]"

definition vect_matrix :: "nat \<Rightarrow> matdat list \<Rightarrow> matdat list \<Rightarrow> matres list" where
  "vect_matrix n A B = map (\<lambda>i. \<Sum>j<n. scast (A ! (i * n + j)) * scast (B ! j)) [0..<n]"

definition test_crc :: "nat \<Rightarrow> matdat list \<Rightarrow> matdat list \<Rightarrow> matdat \<Rightarrow> u16" where
  "test_crc n A B v =
     (let A1 = filled (\<lambda>k. A ! k + v) (n * n) A; clip = matrix_big v; c1 = const_matrix n A1 v;
          c2 = vect_matrix n A1 B @ drop n c1
      in crc16 (sum_of clip (product_matrix extract_product n A1 B))
          (crc16 (sum_of clip (product_matrix (\<lambda>x. x) n A1 B))
            (crc16 (sum_of clip c2) (crc16 (sum_of clip c1) 0))))"

lemma matrix_add_back:
  assumes "N \<le> 65535" "unat N * unat N \<le> length A"
  shows "matrix_add_const N (filled (\<lambda>k. A ! k + v) (unat N * unat N) A) (- v) = Some A"
proof -
  let ?A = "filled (\<lambda>k. A ! k + v) (unat N * unat N) A"
  have "filled (\<lambda>k. ?A ! k + - v) (unat N * unat N) ?A = A"
    using assms(2) by (intro nth_equalityI) (auto simp: filled_def nth_append)
  with matrix_add_const_eq [OF assms(1), of ?A "- v"] assms(2) show ?thesis by simp
qed

lemma matrix_test_eq:
  assumes N: "N \<le> 65535" and A: "unat N * unat N \<le> length A" and B: "unat N * unat N \<le> length B"
    and C: "unat N * unat N \<le> length C"
  shows "matrix_test N C A B v =
    Some (A, product_matrix extract_product (unat N) (filled (\<lambda>k. A ! k + v) (unat N * unat N) A) B
        @ drop (unat N * unat N) C, test_crc (unat N) A B v)"
proof -
  let ?n = "unat N" let ?A = "filled (\<lambda>k. A ! k + v) (?n * ?n) A"
  have nn: "?n \<le> ?n * ?n" by (cases ?n) simp_all
  have A1: "?n * ?n \<le> length ?A" using A by simp
  have mc: "matrix_mul_const N c ?A v = Some (const_matrix ?n ?A v @ drop (?n * ?n) c)" if "?n * ?n \<le> length c" for c
    using matrix_mul_const_eq [OF N A1 that] by (simp add: filled_def const_matrix_def)
  have mv: "matrix_mul_vect N c ?A B = Some (vect_matrix ?n ?A B @ drop ?n c)" if "?n \<le> length c" for c
    using matrix_mul_vect_eq [OF N A1 _ that, of B] nn B by (simp add: filled_def vect_matrix_def)
  have mm: "matrix_mul_matrix N c ?A B = Some (product_matrix (\<lambda>x. x) ?n ?A B @ drop (?n * ?n) c)" if "?n * ?n \<le> length c" for c
    using matrix_mul_matrix_eq [OF N A1 B that] by (simp add: filled_def product_matrix_def)
  have mx: "matrix_mul_matrix_bitextract N c ?A B = Some (product_matrix extract_product ?n ?A B @ drop (?n * ?n) c)"
    if "?n * ?n \<le> length c" for c
    using matrix_mul_matrix_bitextract_eq [OF N A1 B that] by (simp add: filled_def product_matrix_def)
  have l [simp]: "length (const_matrix ?n ?A v) = ?n * ?n" "length (vect_matrix ?n ?A B) = ?n"
    "length (product_matrix g ?n ?A B) = ?n * ?n" for g
    by (simp_all add: const_matrix_def vect_matrix_def product_matrix_def)
  have nC: "?n \<le> length C" using nn C by (rule order_trans)
  show ?thesis
    using C nC
    by (simp add: matrix_test_def Let_def matrix_add_const_eq [OF N A] mc mv mm mx matrix_sum_eq [OF N]
        matrix_add_back [OF N A] test_crc_def)
qed

section \<open>The dimension and the layout\<close>

lemma init_dim_step:
  "unat blk \<le> 2147483648 \<Longrightarrow> 8 * i * i < unat blk \<Longrightarrow>
   \<exists>n. init_dim blk (of_nat (Suc i)) (of_nat (8 * Suc i * Suc i)) = Some (of_nat n)
     \<and> 8 * n * n < unat blk \<and> unat blk \<le> 8 * Suc n * Suc n"
proof (induction "unat blk - 8 * i * i" arbitrary: i rule: less_induct)
  case less
  have "i < 16384"
  proof (rule ccontr)
    assume "\<not> i < 16384"
    then have "16384 * 16384 \<le> i * i" by (intro mult_le_mono) simp_all
    with less.prems show False by simp
  qed
  then have "Suc i * Suc i \<le> 16384 * 16384" by (intro mult_le_mono) simp_all
  then have u: "unat (of_nat (8 * Suc i * Suc i) :: u32) = 8 * Suc i * Suc i"
    by (intro unat_of_nat32) (simp add: algebra_simps)
  show ?case
  proof (cases "8 * Suc i * Suc i < unat blk")
    case False
    then have "\<not> of_nat (8 * Suc i * Suc i) < blk" by (subst word_less_nat_alt, subst u) (rule False)
    then have "init_dim blk (of_nat (Suc i)) (of_nat (8 * Suc i * Suc i)) = Some (of_nat (Suc i) - 1)"
      by (subst init_dim.simps) (simp only: if_False)
    also have "(of_nat (Suc i) - 1 :: u32) = of_nat i" by simp
    finally show ?thesis using less.prems False by (intro exI [of _ i]) simp
  next
    case True
    have "\<exists>n. init_dim blk (of_nat (Suc (Suc i))) (of_nat (8 * Suc (Suc i) * Suc (Suc i))) = Some (of_nat n)
        \<and> 8 * n * n < unat blk \<and> unat blk \<le> 8 * Suc n * Suc n"
      using True less.prems by (intro less.hyps) (simp_all add: algebra_simps)
    moreover have "of_nat (8 * Suc i * Suc i) < blk" by (subst word_less_nat_alt, subst u) (rule True)
    then have "init_dim blk (of_nat (Suc i)) (of_nat (8 * Suc i * Suc i)) =
        init_dim blk (of_nat (Suc i) + 1) ((of_nat (Suc i) + 1) * (of_nat (Suc i) + 1) * 2 * 4)"
      by (subst init_dim.simps) (simp only: if_True)
    moreover have "(of_nat (Suc i) + 1 :: u32) = of_nat (Suc (Suc i))"
      "of_nat (Suc (Suc i)) * of_nat (Suc (Suc i)) * 2 * 4 = (of_nat (8 * Suc (Suc i) * Suc (Suc i)) :: u32)"
      by (simp_all add: algebra_simps)
    ultimately show ?thesis by simp
  qed
qed

lemma init_dim_eq:
  assumes "0 < blk" "unat blk \<le> 2147483648"
  shows "\<exists>n. init_dim blk 0 0 = Some (of_nat n) \<and> 8 * n * n < unat blk \<and> unat blk \<le> 8 * Suc n * Suc n"
proof -
  have "init_dim blk 0 0 = init_dim blk (of_nat (Suc 0)) (of_nat (8 * Suc 0 * Suc 0))"
    using assms(1) by (subst init_dim.simps) simp
  then show ?thesis
    using init_dim_step [of blk 0] assms by (simp add: word_less_nat_alt)
qed

lemma init_value_small: "init_value seed order = (s, b, a) \<Longrightarrow> a \<le> 255"
proof -
  assume "init_value seed order = (s, b, a)"
  then obtain x where "a = x AND 0xff" by (auto simp: init_value_def matrix_clip_def Let_def)
  then show ?thesis using word_and_le1 [of x 255] by simp
qed

lemma init_values_eq:
  assumes N: "N \<le> 65535" and A: "length A = unat N * unat N" and B: "length B = unat N * unat N"
  shows "\<exists>A' B'. init_values N seed A B = Some (A', B') \<and> length A' = unat N * unat N \<and> length B' = unat N * unat N
    \<and> (\<forall>x\<in>set A'. x \<le> 255)"
proof -
  let ?P = "\<lambda>k (A', B' :: matdat list, seed :: u32, order :: u32). length A' = unat N * unat N \<and> length B' = unat N * unat N
    \<and> (\<forall>i<k. A' ! i \<le> (255 :: matdat))"
  let ?body = "\<lambda>i j (A, B, seed, order). do { let (seed, b, a) = init_value seed order;
     B \<leftarrow> wr B (i * N + j) b; A \<leftarrow> wr A (i * N + j) a; Some (A, B, seed, order + 1) }"
  have "\<exists>s'. for_up 0 N (\<lambda>i. for_up 0 N (\<lambda>j. ?body i j)) (A, B, seed, 1) = Some s' \<and> ?P (unat N * unat N) s'"
  proof (rule grid_rule [of N ?P])
    fix i j s
    assume ij: "i < unat N" "j < unat N" and s: "?P (i * unat N + j) s"
    obtain A' B' sd or' where t: "s = (A', B', sd, or')" by (cases s)
    obtain sd' b a where v: "init_value sd or' = (sd', b, a)" by (cases "init_value sd or'")
    have l: "i * unat N + j < unat N * unat N" using index_less [OF ij] .
    with s v show "\<exists>s'. ?body (of_nat i) (of_nat j) s = Some s' \<and> ?P (Suc (i * unat N + j)) s'"
      by (auto simp: t wr_def index_word [OF N ij] nth_list_update less_Suc_eq dest: init_value_small)
  qed (use A B in simp)
  then show ?thesis
    by (auto simp: init_values_def in_set_conv_nth)
qed

lemma low_two_bits: "unat (x AND 3) = unat x mod 4" for x :: u32
proof -
  have "x AND 3 = take_bit 2 x" by (simp add: take_bit_eq_mask mask_eq_exp_minus_1)
  then have "unat (x AND 3) = take_bit 2 (unat x)" by (simp only: unsigned_take_bit_eq)
  then show ?thesis by (simp add: take_bit_eq_mod)
qed

lemma mod4_pred: "n mod 4 = 0 \<Longrightarrow> 0 < n \<Longrightarrow> (n - 1) mod 4 = 3" for n :: nat
  by (cases n) (auto simp: mod_Suc split: if_splits)

lemma align_mem_aligned: "x AND 3 = 0 \<Longrightarrow> align_mem x = x"
proof -
  assume x: "x AND 3 = 0"
  then have x4: "unat x mod 4 = 0" using low_two_bits [of x] by simp
  have r: "unat ((x - 1) AND 3) = 3"
  proof (cases "x = 0")
    case True
    have "unat (- 1 :: u32) = 4294967295" by (simp add: unsigned_minus_1_eq_mask mask_eq_exp_minus_1)
    with True show ?thesis using low_two_bits [of "- 1"] by simp
  next
    case False
    then have "unat (x - 1) = unat x - 1" "0 < unat x" by (simp_all add: unat_minus_one_nz unat_gt_0)
    then have "unat (x - 1) mod 4 = 3" using mod4_pred [OF x4] by (simp only:)
    then show ?thesis by (simp only: low_two_bits)
  qed
  have "((x - 1) AND 3) + ((x - 1) AND NOT 3) = ((x - 1) AND 3) OR ((x - 1) AND NOT 3)"
    by (rule disjunctive_add) (auto simp: bit_simps)
  also have "\<dots> = x - 1" by (rule bit_word_eqI) (auto simp: bit_simps)
  moreover have "(x - 1) AND 3 = 3" using r by (simp add: word_unat_eq_iff)
  ultimately have "3 + ((x - 1) AND NOT 3) = x - 1" by (simp only:)
  then have "1 + (3 + ((x - 1) AND NOT 3)) = 1 + (x - 1)" by (simp only:)
  then show ?thesis by (simp add: align_mem_def)
qed

lemma core_init_matrix_some:
  assumes blk: "0 < blksize" "unat blksize \<le> 2147483648"
  shows "\<exists>p n. core_init_matrix m blksize memblk seed =
      Some (p, align_mem memblk, align_mem memblk + of_nat (2 * n * n), align_mem (align_mem memblk + of_nat (4 * n * n)))
    \<and> mat_N p = of_nat n \<and> n < 16384 \<and> 8 * n * n < unat blksize \<and> unat blksize \<le> 8 * Suc n * Suc n
    \<and> length (mat_A p) = n * n \<and> length (mat_B p) = n * n \<and> length (mat_C p) = n * n
    \<and> (\<forall>x\<in>set (mat_A p). x \<le> 255)"
proof -
  obtain n where n: "init_dim blksize 0 0 = Some (of_nat n)" "8 * n * n < unat blksize"
    "unat blksize \<le> 8 * Suc n * Suc n" using init_dim_eq [OF blk] by blast
  have n': "n < 16384"
  proof (rule ccontr)
    assume "\<not> n < 16384"
    then have "16384 * 16384 \<le> n * n" by (intro mult_le_mono) simp_all
    with n(2) blk show False by simp
  qed
  define N where "N = (of_nat n :: u32)"
  have N: "unat N = n" "N \<le> 65535"
    using n' unat_of_nat32 [of n] by (simp_all add: N_def word_le_nat_alt)
  have NN: "N * N = of_nat (n * n)" by (simp add: N_def)
  have un: "unat (N * N) = n * n" unfolding NN using n(2) blk by (intro unat_of_nat32) simp
  let ?a = "align_mem memblk"
  let ?b = "?a + 2 * (N * N)"
  let ?c = "align_mem (?a + of_nat (4 * n * n))"
  have b: "?b = ?a + of_nat (2 * n * n)" "?b + 2 * (N * N) = ?a + of_nat (4 * n * n)"
    by (simp_all add: N_def algebra_simps)
  let ?sd = "if seed = 0 then 1 else seed"
  obtain A B where AB: "init_values N ?sd (shorts_at m ?a (n * n)) (shorts_at m ?b (n * n)) = Some (A, B)"
    "length A = n * n" "length B = n * n" "\<forall>x\<in>set A. x \<le> 255"
    using init_values_eq [OF N(2), of "shorts_at m ?a (n * n)" "shorts_at m ?b (n * n)" ?sd] N(1)
    by (auto simp: shorts_at_def)
  let ?p = "\<lparr>mat_N = N, mat_A = A, mat_B = B, mat_C = words_at m ?c (n * n)\<rparr>"
  have "core_init_matrix m blksize memblk seed = Some (?p, ?a, ?b, ?c)"
    unfolding core_init_matrix_def Let_def n(1) N_def [symmetric] un
    by (simp only: un b(2) AB(1) bind.bind_lunit prod.case)
  then show ?thesis
    using n n' AB unfolding b by (intro exI [of _ ?p] exI [of _ n]) (simp add: N_def words_at_def)
qed

lemma mod4_add: "unat x mod 4 = 0 \<Longrightarrow> unat (x + of_nat (4 * k)) mod 4 = 0" for x :: u32
proof -
  assume x: "unat x mod 4 = 0"
  have "unat (x + of_nat (4 * k)) mod 4 = (unat x + 4 * k) mod 4294967296 mod 4"
    by (simp add: unat_word_ariths unsigned_of_nat take_bit_eq_mod mod_simps)
  also have "\<dots> = (unat x + 4 * k) mod 4" by (rule mod_mod_cancel) simp
  finally show ?thesis using x by simp
qed

text \<open>\<open>align_mem\<close> rounds up to a multiple of four.\<close>

lemma align_mem_up: "align_mem x AND 3 = 0" "unat (align_mem x - x) < 4"
proof -
  define q where "q = x - 1"
  define y where "y = q AND NOT 3"
  have "unat (y AND 3) = 0" by (simp add: y_def and.assoc)
  then have "unat (4 + y) mod 4 = 0" using mod4_add [of y 1] low_two_bits [of y] by (simp add: add.commute)
  then show "align_mem x AND 3 = 0"
    using low_two_bits [of "4 + y"] by (simp add: align_mem_def q_def y_def word_unat_eq_iff)
  have "(q AND 3) + y = (q AND 3) OR (q AND NOT 3)"
    unfolding y_def by (rule disjunctive_add) (auto simp: bit_simps)
  also have "\<dots> = q" by (rule bit_word_eqI) (auto simp: bit_simps)
  finally have "align_mem x - x = 3 - (q AND 3)"
    by (simp add: align_mem_def q_def y_def algebra_simps)
  moreover have r: "unat (q AND 3) < 4" using low_two_bits [of q] by simp
  then have "unat (3 - (q AND 3)) = 3 - unat (q AND 3)" by (simp add: unat_sub_if_size word_le_nat_alt)
  ultimately show "unat (align_mem x - x) < 4" by simp
qed

lemma core_init_matrix_eq:
  assumes blk: "0 < blksize" "unat blksize \<le> 2147483648"
  shows "\<exists>p n a. core_init_matrix m blksize memblk seed = Some (p, a, a + of_nat (2 * n * n), a + of_nat (4 * n * n))
    \<and> a AND 3 = 0 \<and> unat (a - memblk) < 4
    \<and> mat_N p = of_nat n \<and> 8 * n * n < unat blksize \<and> unat blksize \<le> 8 * Suc n * Suc n
    \<and> length (mat_A p) = n * n \<and> length (mat_B p) = n * n \<and> length (mat_C p) = n * n
    \<and> (\<forall>x\<in>set (mat_A p). x \<le> 255)"
proof -
  let ?a = "align_mem memblk"
  have "unat ?a mod 4 = 0" using align_mem_up(1) [of memblk] low_two_bits [of ?a] by simp
  then have "(?a + of_nat (4 * (n * n))) AND 3 = 0" for n
    using mod4_add [of ?a "n * n"] low_two_bits [of "?a + of_nat (4 * (n * n))"] by (simp add: word_unat_eq_iff del: of_nat_mult)
  then have "align_mem (?a + of_nat (4 * n * n)) = ?a + of_nat (4 * n * n)" for n
    unfolding mult.assoc by (rule align_mem_aligned)
  then show ?thesis
    using core_init_matrix_some [OF blk, of m memblk seed] align_mem_up [of memblk] by (auto simp del: of_nat_mult)
qed

section \<open>Properties\<close>

text \<open>C35: the product of two matrices: every element of \<open>C\<close> is the sum, modulo \<open>2 ^ 32\<close>, over a row of
  \<open>A\<close> and a column of \<open>B\<close>, and nothing else of \<open>C\<close> changes.\<close>

theorem matrix_mul_matrix_product:
  assumes "N \<le> 65535" and "unat N * unat N \<le> length A" and "unat N * unat N \<le> length B"
    and "unat N * unat N \<le> length C"
  shows "\<exists>C'. matrix_mul_matrix N C A B = Some C' \<and> length C' = length C
    \<and> (\<forall>i<unat N. \<forall>j<unat N. C' ! (i * unat N + j) =
         (\<Sum>k<unat N. scast (A ! (i * unat N + k)) * scast (B ! (k * unat N + j))))
    \<and> drop (unat N * unat N) C' = drop (unat N * unat N) C"
  using matrix_mul_matrix_eq [OF assms] assms(4)
  by (auto simp: filled_take filled_nth_less index_less product_entry_at dot_def)

theorem matrix_mul_matrix_product_witness:
  "\<exists>C'. matrix_mul_matrix 2 [7, 7, 7, 7] [1, 2, 3, 4] [5, 6, 0xffff, 8] = Some C' \<and> C' ! 1 = 22 \<and> C' ! 2 = 11"
proof -
  obtain C' where C': "matrix_mul_matrix 2 [7, 7, 7, 7] [1, 2, 3, 4] [5, 6, 0xffff, 8] = Some C'"
    and e: "\<And>i j. i < 2 \<Longrightarrow> j < 2 \<Longrightarrow> C' ! (i * 2 + j) =
      (\<Sum>k<2. scast ([1, 2, 3, 4 :: u16] ! (i * 2 + k)) * scast ([5, 6, 0xffff, 8 :: u16] ! (k * 2 + j)))"
    using matrix_mul_matrix_product [of 2 "[1, 2, 3, 4]" "[5, 6, 0xffff, 8]" "[7, 7, 7, 7]"] by auto
  have "C' ! 1 = 22" using e [of 0 1] by (simp add: numeral_2_eq_2 lessThan_Suc)
  moreover have "C' ! 2 = 11" using e [of 1 0] by (simp add: numeral_2_eq_2 lessThan_Suc)
  ultimately show ?thesis using C' by blast
qed

text \<open>C36: \<open>matrix_test\<close> returns and leaves \<open>A\<close> as it was, whatever the constant: adding it and its
  negative cancel although both wrap; the checksum is that of its four results in order.\<close>

theorem matrix_test_restores:
  assumes "N \<le> 65535" and "unat N * unat N \<le> length A" and "unat N * unat N \<le> length B"
    and "unat N * unat N \<le> length C"
  shows "\<exists>C'. matrix_test N C A B v = Some (A, C', test_crc (unat N) A B v) \<and> length C' = length C"
  using matrix_test_eq [OF assms, of v] assms(4) by (simp add: product_matrix_def)

theorem matrix_test_restores_witness:
  "\<exists>C'. matrix_test 2 [0, 0, 0, 0] [1, 2, 3, 0x7fff] [5, 6, 7, 8] 3 =
     Some ([1, 2, 3, 0x7fff], C', test_crc 2 [1, 2, 3, 0x7fff] [5, 6, 7, 8] 3)"
  using matrix_test_restores [of 2 "[1, 2, 3, 0x7fff]" "[5, 6, 7, 8]" "[0, 0, 0, 0]" 3] by auto

text \<open>C37: \<open>core_init_matrix\<close> chooses the largest dimension whose three matrices take less than the block,
  and places them one behind the other at the first multiple of four in the block, wherever the block is (the
  blocks of \<open>core_main\<close> are not aligned); the elements of \<open>A\<close> are below 256.\<close>

theorem core_init_matrix_layout:
  assumes "0 < blksize" and "unat blksize \<le> 2147483648"
  shows "\<exists>p n a. core_init_matrix m blksize memblk seed = Some (p, a, a + of_nat (2 * n * n), a + of_nat (4 * n * n))
    \<and> a AND 3 = 0 \<and> unat (a - memblk) < 4
    \<and> mat_N p = of_nat n \<and> 8 * n * n < unat blksize \<and> unat blksize \<le> 8 * Suc n * Suc n
    \<and> length (mat_A p) = n * n \<and> length (mat_B p) = n * n \<and> length (mat_C p) = n * n
    \<and> (\<forall>x\<in>set (mat_A p). x \<le> 255)"
  using assms by (rule core_init_matrix_eq)

text \<open>The block that \<open>core_main\<close> passes when its own begins at \<open>0x80001000\<close>.\<close>

theorem core_init_matrix_layout_witness:
  "\<exists>p n a. core_init_matrix (\<lambda>_. 0) 666 0x8000129a 0 = Some (p, a, a + of_nat (2 * n * n), a + of_nat (4 * n * n))
    \<and> a AND 3 = 0 \<and> unat (a - 0x8000129a) < 4 \<and> 8 * n * n < 666 \<and> 666 \<le> 8 * Suc n * Suc n"
  using core_init_matrix_layout [of 666 "\<lambda>_. 0" "0x8000129a" 0] by fastforce

text \<open>The benchmark on parameters of any size that fits leaves all of them but the result.\<close>

lemma core_bench_matrix_eq:
  assumes "mat_N p \<le> 65535" "unat (mat_N p) * unat (mat_N p) \<le> length (mat_A p)"
    "unat (mat_N p) * unat (mat_N p) \<le> length (mat_B p)" "unat (mat_N p) * unat (mat_N p) \<le> length (mat_C p)"
  shows "\<exists>C'. core_bench_matrix p seed crc =
      Some (p\<lparr>mat_C := C'\<rparr>, crc16 (test_crc (unat (mat_N p)) (mat_A p) (mat_B p) seed) crc)
    \<and> length C' = length (mat_C p)"
  using matrix_test_eq [OF assms, of seed] assms(4)
  by (cases p) (simp add: core_bench_matrix_def product_matrix_def)

lemma empty_block_dimension: "init_dim 0 0 0 = Some 0xFFFFFFFF"
  by (simp add: init_dim.simps)

end
