(* ===== verification/CoreList.thy ===== *)
theory CoreList
  imports CBase
begin

text \<open>
  The linked lists of CoreMark, \<^verbatim>\<open>bench/coremark/core_list_join.c\<close>: the operations on
  pointers and the merge sort in place.  The heap is split by field: a list cell \<open>p\<close> has the
  fields \<open>next\<close> and \<open>info\<close>, functions of the address \<open>p\<close>, a data cell the record
  \<open>list_data\<close>; \<open>NULL\<close> is 0.  The cells, of different types, do not overlap.
  The sort is written over an arbitrary comparison, a function that may change a state; it is shown
  to be the stable sort of the list of cells, and to compare every cell.
\<close>

unbundle bit_operations_syntax

section \<open>The program\<close>

record list_data =
  data16 :: u16
  idx :: u16

type_synonym ptrs = "addr \<Rightarrow> addr"

text \<open>The pointers \<open>next\<close> and \<open>info\<close> of the list cells.\<close>

record list_heap =
  hnext :: ptrs
  hinfo :: ptrs

partial_function (option) find_idx :: "list_heap \<Rightarrow> (addr \<Rightarrow> list_data) \<Rightarrow> addr \<Rightarrow> u16 \<Rightarrow> addr option" where
  "find_idx h d list i =
     (if list \<noteq> 0 \<and> idx (d (hinfo h list)) \<noteq> i then find_idx h d (hnext h list) i else Some list)"

declare find_idx.simps [code]

partial_function (option) find_data :: "list_heap \<Rightarrow> (addr \<Rightarrow> list_data) \<Rightarrow> addr \<Rightarrow> u16 \<Rightarrow> addr option" where
  "find_data h d list v =
     (if list \<noteq> 0 \<and> data16 (d (hinfo h list)) AND 0xff \<noteq> v then find_data h d (hnext h list) v else Some list)"

declare find_data.simps [code]

definition core_list_find :: "list_heap \<Rightarrow> (addr \<Rightarrow> list_data) \<Rightarrow> addr \<Rightarrow> list_data \<Rightarrow> addr option" where
  "core_list_find h d list info =
     (if sint (idx info) \<ge> 0 then find_idx h d list (idx info) else find_data h d list (data16 info))"

partial_function (option) reverse_loop :: "ptrs \<Rightarrow> addr \<Rightarrow> addr \<Rightarrow> (ptrs \<times> addr) option" where
  "reverse_loop nx list prev =
     (if list \<noteq> 0 then let tmp = nx list in reverse_loop (nx(list := prev)) tmp list
      else Some (nx, prev))"

declare reverse_loop.simps [code]

definition core_list_reverse :: "list_heap \<Rightarrow> addr \<Rightarrow> (list_heap \<times> addr) option" where
  "core_list_reverse h list =
     do { (nx, r) \<leftarrow> reverse_loop (hnext h) list 0; Some (h\<lparr>hnext := nx\<rparr>, r) }"

definition core_list_remove :: "list_heap \<Rightarrow> addr \<Rightarrow> list_heap \<times> addr" where
  "core_list_remove h item =
     (let ret = hnext h item;
          tmp = hinfo h item;
          h = h\<lparr>hinfo := (hinfo h)(item := hinfo h ret)\<rparr>;
          h = h\<lparr>hinfo := (hinfo h)(ret := tmp)\<rparr>;
          h = h\<lparr>hnext := (hnext h)(item := hnext h (hnext h item))\<rparr>;
          h = h\<lparr>hnext := (hnext h)(ret := 0)\<rparr>
      in (h, ret))"

definition core_list_undo_remove :: "list_heap \<Rightarrow> addr \<Rightarrow> addr \<Rightarrow> list_heap \<times> addr" where
  "core_list_undo_remove h item_removed item_modified =
     (let tmp = hinfo h item_removed;
          h = h\<lparr>hinfo := (hinfo h)(item_removed := hinfo h item_modified)\<rparr>;
          h = h\<lparr>hinfo := (hinfo h)(item_modified := tmp)\<rparr>;
          h = h\<lparr>hnext := (hnext h)(item_removed := hnext h item_modified)\<rparr>;
          h = h\<lparr>hnext := (hnext h)(item_modified := item_removed)\<rparr>
      in (h, item_removed))"

definition copy_info :: "(addr \<Rightarrow> list_data) \<Rightarrow> addr \<Rightarrow> list_data \<Rightarrow> (addr \<Rightarrow> list_data)" where
  "copy_info d to from = d(to := \<lparr>data16 = data16 from, idx = idx from\<rparr>)"

text \<open>Cells of 8 bytes are taken from \<open>memblock\<close>, data of 4 bytes from \<open>datablock\<close>; the new
  item, or \<open>NULL\<close>, is returned with the moved pointers.\<close>

definition core_list_insert_new ::
    "list_heap \<Rightarrow> (addr \<Rightarrow> list_data) \<Rightarrow> addr \<Rightarrow> list_data \<Rightarrow> addr \<Rightarrow> addr \<Rightarrow> addr \<Rightarrow> addr \<Rightarrow>
     list_heap \<times> (addr \<Rightarrow> list_data) \<times> addr \<times> addr \<times> addr" where
  "core_list_insert_new h d insert_point info memblock datablock memblock_end datablock_end =
     (if memblock + 8 \<ge> memblock_end then (h, d, 0, memblock, datablock)
      else if datablock + 4 \<ge> datablock_end then (h, d, 0, memblock, datablock)
      else let newitem = memblock;
               memblock = memblock + 8;
               h = h\<lparr>hnext := (hnext h)(newitem := hnext h insert_point)\<rparr>;
               h = h\<lparr>hnext := (hnext h)(insert_point := newitem)\<rparr>;
               h = h\<lparr>hinfo := (hinfo h)(newitem := datablock)\<rparr>;
               datablock = datablock + 4;
               d = copy_info d (hinfo h newitem) info
           in (h, d, newitem, memblock, datablock))"

text \<open>The comparison of two data cells: a signed result and the state it leaves.\<close>

type_synonym 's list_cmp = "addr \<Rightarrow> addr \<Rightarrow> 's \<Rightarrow> (int \<times> 's) option"

text \<open>\<open>core_list_mergesort\<close>: stepping \<open>insize\<close> places along, one merge, one pass and the passes.
  The counters, bounded by the length of the list and twice \<open>insize\<close>, are natural numbers.\<close>

fun ms_advance :: "ptrs \<Rightarrow> nat \<Rightarrow> addr \<Rightarrow> nat \<Rightarrow> addr \<times> nat" where
  "ms_advance nx 0 q psize = (q, psize)"
| "ms_advance nx (Suc n) q psize =
     (let psize = psize + 1; q = nx q in if q = 0 then (q, psize) else ms_advance nx n q psize)"

text \<open>The next element \<open>e\<close> of a merge, with what is left of the two lists.\<close>

definition ms_choose ::
    "'s list_cmp \<Rightarrow> ptrs \<Rightarrow> ptrs \<Rightarrow> addr \<Rightarrow> nat \<Rightarrow> addr \<Rightarrow> nat \<Rightarrow> 's \<Rightarrow> (addr \<times> addr \<times> nat \<times> addr \<times> nat \<times> 's) option" where
  "ms_choose cmp info nx p psize q qsize s =
     (if psize = 0 then Some (q, p, psize, nx q, qsize - 1, s)
      else if qsize = 0 \<or> q = 0 then Some (p, nx p, psize - 1, q, qsize, s)
      else do { (c, s) \<leftarrow> cmp (info p) (info q) s;
                if c \<le> 0 then Some (p, nx p, psize - 1, q, qsize, s)
                else Some (q, p, psize, nx q, qsize - 1, s) })"

partial_function (option) ms_merge ::
    "'s list_cmp \<Rightarrow> ptrs \<Rightarrow> ptrs \<Rightarrow> addr \<Rightarrow> nat \<Rightarrow> addr \<Rightarrow> nat \<Rightarrow> addr \<Rightarrow> addr \<Rightarrow> 's \<Rightarrow>
     (ptrs \<times> addr \<times> addr \<times> addr \<times> 's) option" where
  "ms_merge cmp info nx p psize q qsize list tail s =
     (if psize > 0 \<or> qsize > 0 \<and> q \<noteq> 0
      then do { (e, p, psize, q, qsize, s) \<leftarrow> ms_choose cmp info nx p psize q qsize s;
                let (nx, list) = (if tail \<noteq> 0 then (nx(tail := e), list) else (nx, e));
                ms_merge cmp info nx p psize q qsize list e s }
      else Some (nx, q, list, tail, s))"

declare ms_merge.simps [code]

partial_function (option) ms_pass ::
    "'s list_cmp \<Rightarrow> ptrs \<Rightarrow> nat \<Rightarrow> ptrs \<Rightarrow> addr \<Rightarrow> addr \<Rightarrow> addr \<Rightarrow> nat \<Rightarrow> 's \<Rightarrow>
     (ptrs \<times> addr \<times> addr \<times> nat \<times> 's) option" where
  "ms_pass cmp info insize nx p list tail nmerges s =
     (if p \<noteq> 0
      then do { let nmerges = nmerges + 1;
                let (q, psize) = ms_advance nx insize p 0;
                (nx, q, list, tail, s) \<leftarrow> ms_merge cmp info nx p psize q insize list tail s;
                ms_pass cmp info insize nx q list tail nmerges s }
      else Some (nx, list, tail, nmerges, s))"

declare ms_pass.simps [code]

partial_function (option) ms_loop ::
    "'s list_cmp \<Rightarrow> ptrs \<Rightarrow> nat \<Rightarrow> ptrs \<Rightarrow> addr \<Rightarrow> 's \<Rightarrow> (ptrs \<times> addr \<times> 's) option" where
  "ms_loop cmp info insize nx list s =
     do { (nx, list, tail, nmerges, s) \<leftarrow> ms_pass cmp info insize nx list 0 0 0 s;
          let nx = nx(tail := 0);
          if nmerges \<le> 1 then Some (nx, list, s)
          else ms_loop cmp info (insize * 2) nx list s }"

declare ms_loop.simps [code]

definition core_list_mergesort ::
    "'s list_cmp \<Rightarrow> list_heap \<Rightarrow> addr \<Rightarrow> 's \<Rightarrow> (list_heap \<times> addr \<times> 's) option" where
  "core_list_mergesort cmp h list s =
     do { (nx, list, s) \<leftarrow> ms_loop cmp (hinfo h) 1 (hnext h) list s; Some (h\<lparr>hnext := nx\<rparr>, list, s) }"

section \<open>Segments of a list\<close>

abbreviation clist :: "list_heap \<Rightarrow> addr \<Rightarrow> addr list \<Rightarrow> bool" where
  "clist h p xs \<equiv> lseg (hnext h) p xs 0"

section \<open>Finding, reversing, removing\<close>

definition first_of :: "(addr \<Rightarrow> bool) \<Rightarrow> addr list \<Rightarrow> addr" where
  "first_of P xs = (case filter P xs of [] \<Rightarrow> 0 | x # _ \<Rightarrow> x)"

lemma find_idx_eq: "lseg (hnext h) p xs 0 \<Longrightarrow> find_idx h d p i = Some (first_of (\<lambda>x. idx (d (hinfo h x)) = i) xs)"
proof (induction xs arbitrary: p)
  case Nil
  then show ?case by (simp add: find_idx.simps [of h] first_of_def)
next
  case (Cons x xs)
  then show ?case by (simp add: find_idx.simps [of h d x] first_of_def)
qed

lemma find_data_eq:
  "lseg (hnext h) p xs 0 \<Longrightarrow> find_data h d p v = Some (first_of (\<lambda>x. data16 (d (hinfo h x)) AND 0xff = v) xs)"
proof (induction xs arbitrary: p)
  case Nil
  then show ?case by (simp add: find_data.simps [of h] first_of_def)
next
  case (Cons x xs)
  then show ?case by (simp add: find_data.simps [of h d x] first_of_def)
qed

lemma reverse_loop_eq:
  "lseg nx p xs 0 \<Longrightarrow> lseg nx r ys 0 \<Longrightarrow> set xs \<inter> set ys = {} \<Longrightarrow>
   \<exists>nx'. reverse_loop nx p r = Some (nx', if xs = [] then r else last xs)
     \<and> lseg nx' (if xs = [] then r else last xs) (rev xs @ ys) 0 \<and> (\<forall>a. a \<notin> set xs \<longrightarrow> nx' a = nx a)"
proof (induction xs arbitrary: nx p r ys)
  case Nil
  then show ?case by (simp add: reverse_loop.simps)
next
  case (Cons x xs)
  have d: "x \<notin> set xs" using lseg_distinct [OF Cons.prems(1)] by simp
  let ?nx = "nx(x := r)"
  have "\<exists>nx'. reverse_loop ?nx (nx x) x = Some (nx', if xs = [] then x else last xs)
     \<and> lseg nx' (if xs = [] then x else last xs) (rev xs @ x # ys) 0 \<and> (\<forall>a. a \<notin> set xs \<longrightarrow> nx' a = ?nx a)"
    using Cons.prems d by (intro Cons.IH) (auto simp del: fun_upd_apply simp: fun_upd_same)
  with Cons.prems show ?case by (auto simp: reverse_loop.simps [of nx])
qed

lemma core_list_reverse_eq:
  "clist h p xs \<Longrightarrow> \<exists>h' p'. core_list_reverse h p = Some (h', p') \<and> clist h' p' (rev xs)
    \<and> hinfo h' = hinfo h \<and> (\<forall>a. a \<notin> set xs \<longrightarrow> hnext h' a = hnext h a)"
  using reverse_loop_eq [of "hnext h" p xs 0 "[]"] by (auto simp: core_list_reverse_def)

lemma undo_remove:
  assumes "core_list_remove h item = (h1, ret)" "hnext h item \<noteq> item"
  shows "core_list_undo_remove h1 ret item = (h, ret)"
proof -
  define ret' where "ret' = hnext h item"
  have r: "ret = ret'" "item \<noteq> ret'" using assms by (auto simp: core_list_remove_def Let_def ret'_def)
  have h1: "hnext h1 = (hnext h)(item := hnext h ret', ret' := 0)"
    "hinfo h1 = (hinfo h)(item := hinfo h ret', ret' := hinfo h item)"
    using assms(1) r by (auto simp: core_list_remove_def Let_def ret'_def)
  show ?thesis
    using r ret'_def by (auto simp: core_list_undo_remove_def Let_def h1 fun_eq_iff intro!: list_heap.equality)
qed

section \<open>The sort on lists\<close>

text \<open>The lists of cells that the passes produce, with the state of the comparison.\<close>

fun lmerge :: "'s list_cmp \<Rightarrow> ptrs \<Rightarrow> addr list \<Rightarrow> addr list \<Rightarrow> 's \<Rightarrow> (addr list \<times> 's) option" where
  "lmerge cmp info [] ys s = Some (ys, s)"
| "lmerge cmp info (x # xs) [] s = Some (x # xs, s)"
| "lmerge cmp info (x # xs) (y # ys) s =
     do { (c, s) \<leftarrow> cmp (info x) (info y) s;
          if c \<le> 0 then do { (r, s) \<leftarrow> lmerge cmp info xs (y # ys) s; Some (x # r, s) }
          else do { (r, s) \<leftarrow> lmerge cmp info (x # xs) ys s; Some (y # r, s) } }"

text \<open>One pass over chunks of \<open>k\<close> elements, with the number of merges, and the passes.\<close>

partial_function (option) lpass :: "'s list_cmp \<Rightarrow> ptrs \<Rightarrow> nat \<Rightarrow> addr list \<Rightarrow> 's \<Rightarrow> (addr list \<times> nat \<times> 's) option" where
  "lpass cmp info k xs s =
     (if xs = [] then Some ([], 0, s)
      else do { (m, s) \<leftarrow> lmerge cmp info (take k xs) (take k (drop k xs)) s;
                (r, n, s) \<leftarrow> lpass cmp info k (drop (2 * k) xs) s;
                Some (m @ r, Suc n, s) })"

declare lpass.simps [code]

partial_function (option) lsort :: "'s list_cmp \<Rightarrow> ptrs \<Rightarrow> nat \<Rightarrow> addr list \<Rightarrow> 's \<Rightarrow> (addr list \<times> 's) option" where
  "lsort cmp info k xs s =
     do { (r, n, s) \<leftarrow> lpass cmp info k xs s;
          if n \<le> 1 then Some (r, s) else lsort cmp info (k * 2) r s }"

declare lsort.simps [code]

section \<open>The sort in place is the sort on lists\<close>

lemma ms_advance_eq:
  "lseg nx q xs 0 \<Longrightarrow> q \<noteq> 0 \<Longrightarrow> 0 < k \<Longrightarrow>
   ms_advance nx k q n = (if k < length xs then xs ! k else 0, n + min k (length xs))"
proof (induction k arbitrary: q xs n)
  case 0
  then show ?case by simp
next
  case (Suc k)
  then obtain ys where xs: "xs = q # ys" and ys: "lseg nx (nx q) ys 0" by (cases xs) auto
  show ?case
  proof (cases "nx q = 0 \<or> k = 0")
    case True
    with ys show ?thesis by (cases ys) (auto simp: xs)
  next
    case False
    then have "ys \<noteq> []" using ys by (cases ys) auto
    moreover have "ms_advance nx k (nx q) (n + 1) = (if k < length ys then ys ! k else 0, n + 1 + min k (length ys))"
      using False ys by (intro Suc.IH) simp_all
    ultimately show ?thesis using False by (simp add: xs)
  qed
qed

text \<open>What has been merged: a segment whose last cell is \<open>tail\<close>.\<close>

definition merged :: "ptrs \<Rightarrow> addr \<Rightarrow> addr \<Rightarrow> addr list \<Rightarrow> bool" where
  "merged nx list tail ds \<longleftrightarrow>
     (if ds = [] then list = 0 \<and> tail = 0 else tail = last ds \<and> (\<exists>t. lseg nx list ds t))"

lemma merged_upd: "a \<notin> set ds \<Longrightarrow> merged (nx(a := b)) list tail ds = merged nx list tail ds"
  by (auto simp: merged_def simp del: fun_upd_apply)

lemma merged_add:
  assumes "merged nx list tail ds" "distinct ds" "e \<noteq> 0" "e \<notin> set ds" "0 \<notin> set ds"
  shows "merged (fst (if tail \<noteq> 0 then (nx(tail := e), list) else (nx, e)))
    (snd (if tail \<noteq> 0 then (nx(tail := e), list) else (nx, e))) e (ds @ [e])"
proof (cases "ds = []")
  case True
  with assms show ?thesis by (auto simp: merged_def)
next
  case False
  then obtain bs x where ds: "ds = bs @ [x]" by (meson rev_exhaust)
  with assms obtain t where t: "tail = x" "lseg nx list (bs @ [x]) t" by (auto simp: merged_def)
  have "lseg (nx(x := e)) list (bs @ [x]) e" using t assms ds by (intro lseg_relink) auto
  then have "lseg (nx(x := e)) list ((bs @ [x]) @ [e]) ((nx(x := e)) e)"
    using assms(3) unfolding lseg_append [of _ _ "bs @ [x]"] by (intro exI [of _ e]) simp
  with t assms ds show ?thesis by (auto simp: merged_def)
qed

lemma lseg_head: "lseg nx p xs 0 \<Longrightarrow> p = (case xs of [] \<Rightarrow> 0 | x # _ \<Rightarrow> x)"
  by (cases xs) auto

lemma ms_merge_eq:
  "lmerge cmp info xs ys s = Some (ms, s') \<Longrightarrow>
   lseg nx p xs q0 \<Longrightarrow> lseg nx q (ys @ zs) 0 \<Longrightarrow> length ys = qsize \<or> length ys < qsize \<and> zs = [] \<Longrightarrow>
   merged nx list tail ds \<Longrightarrow> distinct (ds @ xs @ ys @ zs) \<Longrightarrow> 0 \<notin> set ds \<Longrightarrow>
   \<exists>nx' q' list'. ms_merge cmp info nx p (length xs) q qsize list tail s =
       Some (nx', q', list', if ms = [] then tail else last ms, s')
     \<and> lseg nx' q' zs 0 \<and> merged nx' list' (if ms = [] then tail else last ms) (ds @ ms)
     \<and> set ms = set xs \<union> set ys \<and> distinct ms
     \<and> (\<forall>a. a \<notin> set (ds @ xs @ ys) \<longrightarrow> nx' a = nx a)"
proof (induction "length xs + length ys" arbitrary: xs ys s ms nx p q qsize list tail ds rule: less_induct)
  case less
  note prems = less.prems
  show ?case
  proof (cases "xs = [] \<and> ys = []")
    case True
    then have "qsize = 0 \<or> q = 0" "ms = []" "s' = s" using prems(1,3,4) by auto
    with True prems show ?thesis by (subst ms_merge.simps) (auto intro!: exI [of _ nx])
  next
    case False
    text \<open>The element chosen, and the lists that remain.\<close>
    have "\<exists>e xs' ys' p' q' qsize' s1 ms'. ms_choose cmp info nx p (length xs) q qsize s = Some (e, p', length xs', q', qsize', s1)
      \<and> ms = e # ms' \<and> lmerge cmp info xs' ys' s1 = Some (ms', s')
      \<and> (xs = e # xs' \<and> ys' = ys \<and> p' = nx e \<and> q' = q \<and> qsize' = qsize
         \<or> xs' = xs \<and> ys = e # ys' \<and> p' = p \<and> q' = nx e \<and> qsize' = qsize - 1)"
    proof (cases xs)
      case Nil
      with False obtain y ys' where ys: "ys = y # ys'" by (cases ys) auto
      with Nil prems show ?thesis by (auto simp: ms_choose_def)
    next
      case (Cons x xs')
      show ?thesis
      proof (cases ys)
        case Nil
        then have "qsize = 0 \<or> q = 0" using prems(3,4) by auto
        with Cons Nil prems show ?thesis by (cases xs') (auto simp: ms_choose_def)
      next
        case (Cons y ys')
        have q: "qsize \<noteq> 0" "q = y" "q \<noteq> 0" using Cons prems(3,4) by auto
        note q
        moreover obtain c s1 where c: "cmp (info x) (info y) s = Some (c, s1)"
          using Cons \<open>xs = x # xs'\<close> prems(1) by (auto simp: bind_eq_Some_conv)
        moreover have "p = x" using \<open>xs = x # xs'\<close> prems(2) by simp
        ultimately have ch: "ms_choose cmp info nx p (length xs) q qsize s =
            (if c \<le> 0 then Some (x, nx x, length xs', y, qsize, s1) else Some (y, x, length xs, nx y, qsize - 1, s1))"
          using \<open>xs = x # xs'\<close> by (simp add: ms_choose_def)
        show ?thesis
        proof (cases "c \<le> 0")
          case True
          then obtain ms' where "ms = x # ms'" "lmerge cmp info xs' ys s1 = Some (ms', s')"
            using Cons \<open>xs = x # xs'\<close> prems(1) c by (auto simp: bind_eq_Some_conv)
          with True ch \<open>xs = x # xs'\<close> q(2) show ?thesis by auto
        next
          case False
          then obtain ms' where "ms = y # ms'" "lmerge cmp info xs ys' s1 = Some (ms', s')"
            using Cons \<open>xs = x # xs'\<close> prems(1) c by (auto simp: bind_eq_Some_conv)
          with False ch Cons \<open>p = x\<close> show ?thesis by auto
        qed
      qed
    qed
    then obtain e xs' ys' p' q' qsize' s1 ms' where ch: "ms_choose cmp info nx p (length xs) q qsize s = Some (e, p', length xs', q', qsize', s1)"
      and ms: "ms = e # ms'" and lm: "lmerge cmp info xs' ys' s1 = Some (ms', s')"
      and alt: "xs = e # xs' \<and> ys' = ys \<and> p' = nx e \<and> q' = q \<and> qsize' = qsize
         \<or> xs' = xs \<and> ys = e # ys' \<and> p' = p \<and> q' = nx e \<and> qsize' = qsize - 1" by blast
    define nl where "nl = (if tail \<noteq> 0 then (nx(tail := e), list) else (nx, e))"
    have e: "e \<noteq> 0" "e \<notin> set ds" "e \<notin> set xs'" "e \<notin> set ys'" "e \<notin> set zs" using alt prems(2,3,6) by auto
    have tl: "tail \<noteq> 0 \<Longrightarrow> tail \<in> set ds" using prems(5) by (auto simp: merged_def split: if_splits)
    have frame: "fst nl a = nx a" if "a \<notin> set ds" for a using tl that by (auto simp: nl_def)
    have seg: "lseg (fst nl) b us r = lseg nx b us r" if "set us \<inter> set ds = {}" for b us r
    proof -
      have "tail \<noteq> 0 \<Longrightarrow> tail \<notin> set us" using tl that by auto
      then show ?thesis by (simp add: nl_def del: fun_upd_apply)
    qed
    have m: "merged (fst nl) (snd nl) e (ds @ [e])"
      unfolding nl_def using prems(5,6,7) e by (intro merged_add) auto
    have "\<exists>nx' q'' list'. ms_merge cmp info (fst nl) p' (length xs') q' qsize' (snd nl) e s1 =
         Some (nx', q'', list', if ms' = [] then e else last ms', s')
       \<and> lseg nx' q'' zs 0 \<and> merged nx' list' (if ms' = [] then e else last ms') ((ds @ [e]) @ ms')
       \<and> set ms' = set xs' \<union> set ys' \<and> distinct ms'
       \<and> (\<forall>a. a \<notin> set ((ds @ [e]) @ xs' @ ys') \<longrightarrow> nx' a = fst nl a)"
    proof (rule less.hyps [OF _ lm])
      show "length xs' + length ys' < length xs + length ys" using alt by auto
      show "lseg (fst nl) p' xs' q0" using alt prems(2,6) e by (subst seg) auto
      show "lseg (fst nl) q' (ys' @ zs) 0" using alt prems(3,6) e by (subst seg) auto
      show "length ys' = qsize' \<or> length ys' < qsize' \<and> zs = []" using alt prems(4) by auto
      show "distinct ((ds @ [e]) @ xs' @ ys' @ zs)" using alt prems(6) by auto
      show "0 \<notin> set (ds @ [e])" using prems(7) e by simp
    qed (rule m)
    then obtain nx' q'' list' where r: "ms_merge cmp info (fst nl) p' (length xs') q' qsize' (snd nl) e s1 =
         Some (nx', q'', list', if ms' = [] then e else last ms', s')"
       "lseg nx' q'' zs 0" "merged nx' list' (if ms' = [] then e else last ms') ((ds @ [e]) @ ms')"
       "set ms' = set xs' \<union> set ys'" "distinct ms'" "\<forall>a. a \<notin> set ((ds @ [e]) @ xs' @ ys') \<longrightarrow> nx' a = fst nl a" by blast
    have c: "length xs > 0 \<or> qsize > 0 \<and> q \<noteq> 0" using False prems(3,4) by (cases ys) auto
    have "ms_merge cmp info nx p (length xs) q qsize list tail s = Some (nx', q'', list', last ms, s')"
      using c ch r(1) ms by (subst ms_merge.simps) (simp add: nl_def split: if_splits)
    moreover have "nx' a = nx a" if "a \<notin> set (ds @ xs @ ys)" for a
      using that r(6) alt frame [of a] by auto
    moreover have "distinct ms" using ms r(4,5) e by simp
    moreover have "set ms = set xs \<union> set ys" using alt ms r(4) by (elim disjE conjE) simp_all
    ultimately show ?thesis using r(2,3) ms by auto
  qed
qed

lemma ms_pass_eq:
  "lpass cmp info k xs s = Some (r, n, s') \<Longrightarrow> 0 < k \<Longrightarrow> lseg nx p xs 0 \<Longrightarrow>
   merged nx list tail ds \<Longrightarrow> distinct (ds @ xs) \<Longrightarrow> 0 \<notin> set ds \<Longrightarrow>
   \<exists>nx' list'. ms_pass cmp info k nx p list tail c s = Some (nx', list', if r = [] then tail else last r, c + n, s')
     \<and> merged nx' list' (if r = [] then tail else last r) (ds @ r) \<and> set r = set xs \<and> distinct r
     \<and> (\<forall>a. a \<notin> set (ds @ xs) \<longrightarrow> nx' a = nx a)"
proof (induction "length xs" arbitrary: xs s r n nx p list tail ds c rule: less_induct)
  case less
  note prems = less.prems
  show ?case
  proof (cases xs)
    case Nil
    with prems show ?thesis by (auto simp: ms_pass.simps [of cmp info k nx] lpass.simps [of cmp info k "[]"])
  next
    case (Cons x xs1)
    define us vs ws where "us = take k xs" and "vs = take k (drop k xs)" and "ws = drop (2 * k) xs"
    have "drop k (drop k xs) = ws" by (simp add: ws_def mult_2)
    then have "vs @ ws = drop k xs" using append_take_drop_id [of k "drop k xs"] by (simp add: vs_def)
    then have split: "xs = us @ vs @ ws" by (simp add: us_def)
    have p: "p \<noteq> 0" using Cons prems(3) by auto
    obtain m s1 r2 n2 where lm: "lmerge cmp info us vs s = Some (m, s1)"
      and lp: "lpass cmp info k ws s1 = Some (r2, n2, s')" and rn: "r = m @ r2" "n = Suc n2"
      using prems(1) Cons unfolding us_def vs_def ws_def
      by (subst (asm) lpass.simps) (auto simp: bind_eq_Some_conv)
    obtain q where q: "lseg nx p us q" "lseg nx q (vs @ ws) 0"
      using prems(3) unfolding split lseg_append [of _ _ us] by blast
    have adv: "ms_advance nx k p 0 = (q, length us)"
    proof -
      have "q = (if k < length xs then xs ! k else 0)"
      proof (cases "k < length xs")
        case True
        then have "drop k xs = xs ! k # drop (Suc k) xs" by (simp add: Cons_nth_drop_Suc)
        moreover have "vs @ ws = drop k xs" using split by (metis append_eq_conv_conj us_def append_take_drop_id same_append_eq)
        ultimately show ?thesis using q(2) True by simp
      next
        case False
        then show ?thesis using q(2) by (simp add: vs_def ws_def)
      qed
      then show ?thesis using ms_advance_eq [OF prems(3) p prems(2), of 0] by (simp add: us_def min.commute)
    qed
    have lv: "length vs = k \<or> length vs < k \<and> ws = []" by (auto simp: vs_def ws_def)
    have d: "distinct (ds @ us @ vs @ ws)" using prems(5) split by simp
    obtain nx1 q1 list1 where mg: "ms_merge cmp info nx p (length us) q k list tail s =
         Some (nx1, q1, list1, if m = [] then tail else last m, s1)"
      "lseg nx1 q1 ws 0" "merged nx1 list1 (if m = [] then tail else last m) (ds @ m)"
      "set m = set us \<union> set vs" "distinct m" "\<forall>a. a \<notin> set (ds @ us @ vs) \<longrightarrow> nx1 a = nx a"
      using ms_merge_eq [OF lm q lv prems(4) d prems(6)] by blast
    have "length ws < length xs" using Cons prems(2) by (simp add: ws_def)
    moreover have "distinct ((ds @ m) @ ws)" using d mg(4,5) by auto
    moreover have "0 \<notin> set (ds @ m)" using prems(6) mg(4) lseg_nonzero [OF prems(3)] split by auto
    ultimately have "\<exists>nx' list'. ms_pass cmp info k nx1 q1 list1 (if m = [] then tail else last m) (c + 1) s1 =
        Some (nx', list', if r2 = [] then (if m = [] then tail else last m) else last r2, c + 1 + n2, s')
      \<and> merged nx' list' (if r2 = [] then (if m = [] then tail else last m) else last r2) ((ds @ m) @ r2)
      \<and> set r2 = set ws \<and> distinct r2 \<and> (\<forall>a. a \<notin> set ((ds @ m) @ ws) \<longrightarrow> nx' a = nx1 a)"
      using lp prems(2) mg(2,3) by (intro less.hyps) auto
    then obtain nx' list' where ih: "ms_pass cmp info k nx1 q1 list1 (if m = [] then tail else last m) (c + 1) s1 =
        Some (nx', list', if r2 = [] then (if m = [] then tail else last m) else last r2, c + 1 + n2, s')"
      "merged nx' list' (if r2 = [] then (if m = [] then tail else last m) else last r2) ((ds @ m) @ r2)"
      "set r2 = set ws" "distinct r2" "\<forall>a. a \<notin> set ((ds @ m) @ ws) \<longrightarrow> nx' a = nx1 a" by blast
    have t: "(if r2 = [] then (if m = [] then tail else last m) else last r2) = (if r = [] then tail else last r)"
      by (simp add: rn)
    have "ms_pass cmp info k nx p list tail c s = Some (nx', list', if r = [] then tail else last r, c + n, s')"
      using p adv mg(1) ih(1) unfolding t by (subst ms_pass.simps) (simp add: rn)
    moreover have "nx' a = nx a" if "a \<notin> set (ds @ xs)" for a
      using that ih(5) mg(4,6) split by auto
    moreover have "set r = set xs" "distinct r" using rn mg(4,5) ih(3,4) split d by auto
    ultimately show ?thesis using ih(2) unfolding t rn by auto
  qed
qed

lemma merged_close: "merged nx list tail r \<Longrightarrow> r \<noteq> [] \<Longrightarrow> distinct r \<Longrightarrow> lseg (nx(tail := 0)) list r 0"
proof -
  assume m: "merged nx list tail r" "r \<noteq> []" "distinct r"
  then obtain bs x where r: "r = bs @ [x]" by (meson rev_exhaust)
  with m obtain t where "lseg nx list (bs @ [x]) t" "tail = x" by (auto simp: merged_def)
  then show ?thesis using m(3) r lseg_relink [of nx list bs x t 0] by simp
qed

lemma lmerge_length: "lmerge cmp info xs ys s = Some (ms, s') \<Longrightarrow> length ms = length xs + length ys"
proof (induction cmp info xs ys s arbitrary: ms s' rule: lmerge.induct)
  case (3 cmp info x xs y ys s)
  then obtain c s1 where c: "cmp (info x) (info y) s = Some (c, s1)" by (auto simp: bind_eq_Some_conv)
  show ?case
  proof (cases "c \<le> 0")
    case True
    with 3(1) [OF c refl True] 3(3) c show ?thesis by (auto simp: bind_eq_Some_conv)
  next
    case False
    with 3(2) [OF c refl False] 3(3) c show ?thesis by (auto simp: bind_eq_Some_conv)
  qed
qed simp_all

lemma lpass_length:
  "lpass cmp info k xs s = Some (r, n, s') \<Longrightarrow> 0 < k \<Longrightarrow> length r = length xs \<and> (n \<le> 1 \<longleftrightarrow> length xs \<le> 2 * k) \<and> (n = 0 \<longleftrightarrow> xs = [])"
proof (induction "length xs" arbitrary: xs s r n rule: less_induct)
  case less
  show ?case
  proof (cases "xs = []")
    case True
    with less show ?thesis by (simp add: lpass.simps)
  next
    case False
    then obtain m s1 r2 n2 where lm: "lmerge cmp info (take k xs) (take k (drop k xs)) s = Some (m, s1)"
      and lp: "lpass cmp info k (drop (2 * k) xs) s1 = Some (r2, n2, s')" and rn: "r = m @ r2" "n = Suc n2"
      using less.prems(1) by (subst (asm) lpass.simps) (auto simp: bind_eq_Some_conv)
    have "length (drop (2 * k) xs) < length xs" using False less.prems(2) by simp
    with lp less.prems(2) have "length r2 = length (drop (2 * k) xs) \<and> (n2 = 0 \<longleftrightarrow> drop (2 * k) xs = [])"
      using less.hyps by blast
    with lmerge_length [OF lm] rn False show ?thesis by (auto simp: mult_2 min_def)
  qed
qed

lemma ms_loop_eq:
  "lsort cmp info k xs s = Some (r, s') \<Longrightarrow> 0 < k \<Longrightarrow> xs \<noteq> [] \<Longrightarrow> lseg nx p xs 0 \<Longrightarrow>
   \<exists>nx' p'. ms_loop cmp info k nx p s = Some (nx', p', s') \<and> lseg nx' p' r 0 \<and> set r = set xs
     \<and> (\<forall>a. a \<notin> set xs \<longrightarrow> nx' a = nx a)"
proof (induction "length xs - k" arbitrary: k xs s nx p rule: less_induct)
  case less
  note prems = less.prems
  obtain r1 n s1 where lp: "lpass cmp info k xs s = Some (r1, n, s1)"
    and rest: "if n \<le> 1 then r = r1 \<and> s' = s1 else lsort cmp info (k * 2) r1 s1 = Some (r, s')"
    using prems(1) by (subst (asm) lsort.simps) (auto simp: bind_eq_Some_conv split: if_splits)
  note len = lpass_length [OF lp prems(2)]
  have r1: "r1 \<noteq> []" using len prems(3) by auto
  obtain nx1 p1 where ps: "ms_pass cmp info k nx p 0 0 0 s = Some (nx1, p1, last r1, n, s1)"
    "merged nx1 p1 (last r1) r1" "set r1 = set xs" "distinct r1" "\<forall>a. a \<notin> set xs \<longrightarrow> nx1 a = nx a"
    using ms_pass_eq [OF lp prems(2,4), of 0 0 "[]" 0] lseg_distinct [OF prems(4)] r1 by (auto simp: merged_def)
  have seg: "lseg (nx1(last r1 := 0)) p1 r1 0" using ps(2,4) r1 by (intro merged_close) auto
  have frame: "(nx1(last r1 := 0)) a = nx a" if "a \<notin> set xs" for a
    using that ps(3,5) r1 by auto
  show ?case
  proof (cases "n \<le> 1")
    case True
    with rest ps(1,3) seg frame show ?thesis by (subst ms_loop.simps) auto
  next
    case False
    have "length r1 - k * 2 < length xs - k" using False len prems(2) by (auto simp: not_le intro: diff_less_mono2)
    then have "\<exists>nx' p'. ms_loop cmp info (k * 2) (nx1(last r1 := 0)) p1 s1 = Some (nx', p', s') \<and> lseg nx' p' r 0 \<and> set r = set r1
       \<and> (\<forall>a. a \<notin> set r1 \<longrightarrow> nx' a = (nx1(last r1 := 0)) a)"
      using False rest prems(2) r1 seg by (intro less.hyps) simp_all
    then obtain nx' p' where "ms_loop cmp info (k * 2) (nx1(last r1 := 0)) p1 s1 = Some (nx', p', s')" "lseg nx' p' r 0"
      "set r = set r1" "\<forall>a. a \<notin> set r1 \<longrightarrow> nx' a = (nx1(last r1 := 0)) a" by blast
    with False ps(1,3) frame show ?thesis by (subst ms_loop.simps) auto
  qed
qed

section \<open>Comparisons that return, and comparisons by a key\<close>

text \<open>What the sort asks of a comparison to return a permutation, and to sort.\<close>

locale comparison =
  fixes cmp :: "'s list_cmp" and inv :: "'s \<Rightarrow> bool"
  assumes cmp_returns: "inv s \<Longrightarrow> \<exists>c s'. cmp a b s = Some (c, s') \<and> inv s'"

locale key_comparison = comparison cmp inv
  for cmp :: "'s list_cmp" and inv :: "'s \<Rightarrow> bool" +
  fixes key :: "addr \<Rightarrow> int"
  assumes cmp_key: "inv s \<Longrightarrow> cmp a b s = Some (c, s') \<Longrightarrow> c \<le> 0 \<longleftrightarrow> key a \<le> key b"

text \<open>Lists with the same elements of every key, in the same order.\<close>

definition same_order :: "('a \<Rightarrow> int) \<Rightarrow> 'a list \<Rightarrow> 'a list \<Rightarrow> bool" where
  "same_order k xs ys \<longleftrightarrow> (\<forall>v. filter (\<lambda>x. k x = v) xs = filter (\<lambda>x. k x = v) ys)"

lemma same_order_append: "same_order k xs xs' \<Longrightarrow> same_order k ys ys' \<Longrightarrow> same_order k (xs @ ys) (xs' @ ys')"
  by (simp add: same_order_def)

lemma same_order_sorted: "same_order k ys xs \<Longrightarrow> mset ys = mset xs \<Longrightarrow> sorted (map k ys) \<Longrightarrow> sort_key k xs = ys"
  by (rule properties_for_sort_key) (auto simp: same_order_def eq_commute)

text \<open>Every chunk of \<open>n\<close> elements is sorted.\<close>

definition chunked :: "('a \<Rightarrow> int) \<Rightarrow> nat \<Rightarrow> 'a list \<Rightarrow> bool" where
  "chunked k n xs \<longleftrightarrow> (\<forall>i. sorted (map k (take n (drop (i * n) xs))))"

lemma chunked_1: "chunked k 1 xs"
proof -
  have "sorted (map k (take 1 ys))" for ys :: "'a list" by (cases ys) simp_all
  then show ?thesis by (simp add: chunked_def)
qed

lemma chunked_Nil [simp]: "chunked k n []"
  by (simp add: chunked_def)

lemma chunked_drop: "chunked k n xs \<Longrightarrow> chunked k n (drop (2 * n) xs)"
proof -
  assume c: "chunked k n xs"
  have "i * n + 2 * n = (i + 2) * n" for i by (simp add: algebra_simps)
  then show ?thesis using c unfolding chunked_def drop_drop by metis
qed

lemma chunked_first: "chunked k n xs \<Longrightarrow> sorted (map k (take n xs))" "chunked k n xs \<Longrightarrow> sorted (map k (take n (drop n xs)))"
  unfolding chunked_def by (metis mult_0 drop_0) (metis mult_1)

lemma chunked_append:
  assumes "sorted (map k m)" "length m = n \<or> length m \<le> n \<and> r = []" "chunked k n r"
  shows "chunked k n (m @ r)"
  unfolding chunked_def
proof
  fix i
  show "sorted (map k (take n (drop (i * n) (m @ r))))"
  proof (cases i)
    case 0
    with assms show ?thesis by auto
  next
    case (Suc j)
    have "drop (i * n) (m @ r) = drop (j * n) r"
      using assms(2) Suc by (auto simp: drop_append)
    with assms(3) show ?thesis by (simp add: chunked_def)
  qed
qed

context comparison
begin

lemma lmerge_returns:
  "inv s \<Longrightarrow> \<exists>ms s'. lmerge cmp info xs ys s = Some (ms, s') \<and> inv s' \<and> mset ms = mset xs + mset ys"
proof (induction "length xs + length ys" arbitrary: xs ys s rule: less_induct)
  case less
  show ?case
  proof (cases "xs = [] \<or> ys = []")
    case True
    with less show ?thesis by (cases xs) auto
  next
    case False
    then obtain x xs' y ys' where xy: "xs = x # xs'" "ys = y # ys'" by (meson neq_Nil_conv)
    obtain c s1 where c: "cmp (info x) (info y) s = Some (c, s1)" "inv s1" using cmp_returns less.prems by blast
    obtain m1 t1 where 1: "lmerge cmp info xs' ys s1 = Some (m1, t1)" "inv t1" "mset m1 = mset xs' + mset ys"
      using less.hyps [of xs' ys s1] c(2) xy by auto
    obtain m2 t2 where 2: "lmerge cmp info xs ys' s1 = Some (m2, t2)" "inv t2" "mset m2 = mset xs + mset ys'"
      using less.hyps [of xs ys' s1] c(2) xy by auto
    show ?thesis using c 1 2 by (cases "c \<le> 0") (simp_all add: xy)
  qed
qed

lemma lpass_returns:
  "inv s \<Longrightarrow> 0 < k \<Longrightarrow> \<exists>r n s'. lpass cmp info k xs s = Some (r, n, s') \<and> inv s' \<and> mset r = mset xs"
proof (induction "length xs" arbitrary: xs s rule: less_induct)
  case less
  show ?case
  proof (cases "xs = []")
    case True
    with less show ?thesis by (simp add: lpass.simps)
  next
    case False
    obtain m s1 where m: "lmerge cmp info (take k xs) (take k (drop k xs)) s = Some (m, s1)" "inv s1"
      "mset m = mset (take k xs) + mset (take k (drop k xs))" using lmerge_returns less.prems(1) by blast
    obtain r n s' where r: "lpass cmp info k (drop (2 * k) xs) s1 = Some (r, n, s')" "inv s'" "mset r = mset (drop (2 * k) xs)"
      using less.hyps [of "drop (2 * k) xs" s1] False less.prems(2) m(2) by auto
    have "mset xs = mset (take k xs) + (mset (take k (drop k xs)) + mset (drop k (drop k xs)))"
      by (simp only: append_take_drop_id flip: mset_append)
    then have "mset (m @ r) = mset xs" using m(3) r(3) by (simp add: mult_2 add.assoc)
    with False m(1) r(1,2) show ?thesis by (subst lpass.simps) simp
  qed
qed

lemma lsort_returns:
  "inv s \<Longrightarrow> 0 < k \<Longrightarrow> \<exists>r s'. lsort cmp info k xs s = Some (r, s') \<and> inv s' \<and> mset r = mset xs"
proof (induction "length xs - k" arbitrary: k xs s rule: less_induct)
  case less
  obtain r1 n s1 where p: "lpass cmp info k xs s = Some (r1, n, s1)" "inv s1" "mset r1 = mset xs"
    using lpass_returns less.prems by blast
  show ?case
  proof (cases "n \<le> 1")
    case True
    with p show ?thesis by (subst lsort.simps) simp
  next
    case False
    then have "length r1 - k * 2 < length xs - k"
      using lpass_length [OF p(1) less.prems(2)] less.prems(2) by (auto simp: not_le intro: diff_less_mono2)
    then obtain r s' where "lsort cmp info (k * 2) r1 s1 = Some (r, s')" "inv s'" "mset r = mset r1"
      using less.hyps [of r1 "k * 2" s1] p(2) less.prems(2) by auto
    with False p show ?thesis by (subst lsort.simps) simp
  qed
qed

text \<open>The sort in place returns, with the same cells in the list and all other cells as they were.\<close>

lemma mergesort_returns:
  assumes "inv s" "clist h p xs" "xs \<noteq> []"
  shows "\<exists>h' p' r s'. core_list_mergesort cmp h p s = Some (h', p', s') \<and> clist h' p' r \<and> mset r = mset xs
    \<and> lsort cmp (hinfo h) 1 xs s = Some (r, s') \<and> inv s' \<and> hinfo h' = hinfo h \<and> (\<forall>a. a \<notin> set xs \<longrightarrow> hnext h' a = hnext h a)"
proof -
  obtain r s' where r: "lsort cmp (hinfo h) 1 xs s = Some (r, s')" "inv s'" "mset r = mset xs"
    using lsort_returns [OF assms(1) zero_less_one] by blast
  obtain nx' p' where "ms_loop cmp (hinfo h) 1 (hnext h) p s = Some (nx', p', s')" "lseg nx' p' r 0"
    "\<forall>a. a \<notin> set xs \<longrightarrow> nx' a = hnext h a"
    using ms_loop_eq [OF r(1) _ assms(3,2)] by auto
  with r show ?thesis by (simp add: core_list_mergesort_def)
qed

end

context key_comparison
begin

lemma lmerge_sorts:
  assumes "inv s" "lmerge cmp info xs ys s = Some (ms, s')" "sorted (map (key \<circ> info) xs)" "sorted (map (key \<circ> info) ys)"
  shows "sorted (map (key \<circ> info) ms) \<and> same_order (key \<circ> info) ms (xs @ ys)"
  using assms
proof (induction "length xs + length ys" arbitrary: xs ys s ms rule: less_induct)
  case less
  note prems = less.prems
  show ?case
  proof (cases "xs = [] \<or> ys = []")
    case True
    with prems show ?thesis by (cases xs) (auto simp: same_order_def)
  next
    case False
    then obtain x xs' y ys' where xy: "xs = x # xs'" "ys = y # ys'" by (meson neq_Nil_conv)
    obtain c s1 where c: "cmp (info x) (info y) s = Some (c, s1)" "inv s1" using cmp_returns prems(1) by blast
    have key: "c \<le> 0 \<longleftrightarrow> key (info x) \<le> key (info y)" using cmp_key prems(1) c(1) by blast
    have perm: "set m = set us \<union> set vs" if "lmerge cmp info us vs s1 = Some (m, s')" for us vs m
    proof -
      have "mset m = mset us + mset vs" using lmerge_returns [OF c(2), of info us vs] that by auto
      then show ?thesis by (metis set_mset_mset set_mset_union)
    qed
    show ?thesis
    proof (cases "c \<le> 0")
      case True
      then obtain m where m: "lmerge cmp info xs' ys s1 = Some (m, s')" "ms = x # m"
        using prems(2) c(1) xy by (auto simp: bind_eq_Some_conv)
      have "sorted (map (key \<circ> info) m) \<and> same_order (key \<circ> info) m (xs' @ ys)"
        using m(1) c(2) prems(3,4) xy by (intro less.hyps [of xs' ys s1 m]) auto
      moreover have "\<forall>z\<in>set m. key (info x) \<le> key (info z)"
        using perm [OF m(1)] prems(3,4) True key xy by (auto intro: order_trans)
      ultimately show ?thesis using m(2) xy by (auto simp: same_order_def)
    next
      case False
      then obtain m where m: "lmerge cmp info xs ys' s1 = Some (m, s')" "ms = y # m"
        using prems(2) c(1) xy by (auto simp: bind_eq_Some_conv)
      have ih: "sorted (map (key \<circ> info) m) \<and> same_order (key \<circ> info) m (xs @ ys')"
        using m(1) c(2) prems(3,4) xy by (intro less.hyps [of xs ys' s1 m]) auto
      have lt: "\<forall>z\<in>set xs. key (info y) < key (info z)"
        using prems(3) False key xy by auto
      then have "\<forall>z\<in>set m. key (info y) \<le> key (info z)"
        using perm [OF m(1)] prems(4) xy by auto
      moreover have "filter (\<lambda>z. (key \<circ> info) z = (key \<circ> info) y) xs = []"
        using lt by (auto simp: filter_empty_conv)
      ultimately show ?thesis using m(2) xy(2) ih by (auto simp: same_order_def)
    qed
  qed
qed


lemma lpass_sorts:
  assumes "inv s" "0 < k" "lpass cmp info k xs s = Some (r, n, s')" "chunked (key \<circ> info) k xs"
  shows "chunked (key \<circ> info) (2 * k) r \<and> same_order (key \<circ> info) r xs"
  using assms
proof (induction "length xs" arbitrary: xs s r n rule: less_induct)
  case less
  note prems = less.prems
  show ?case
  proof (cases "xs = []")
    case True
    with prems(3) show ?thesis by (simp add: lpass.simps same_order_def)
  next
    case False
    obtain m s1 r2 n2 where m: "lmerge cmp info (take k xs) (take k (drop k xs)) s = Some (m, s1)"
      and r2: "lpass cmp info k (drop (2 * k) xs) s1 = Some (r2, n2, s')" and r: "r = m @ r2"
      using prems(3) False by (subst (asm) lpass.simps) (auto simp: bind_eq_Some_conv)
    have s1: "inv s1" using lmerge_returns [OF prems(1), of info "take k xs" "take k (drop k xs)"] m by auto
    have sm: "sorted (map (key \<circ> info) m)" "same_order (key \<circ> info) m (take k xs @ take k (drop k xs))"
      using lmerge_sorts [OF prems(1) m] chunked_first [OF prems(4)] by blast+
    have ih: "chunked (key \<circ> info) (2 * k) r2 \<and> same_order (key \<circ> info) r2 (drop (2 * k) xs)"
      using False prems(2) s1 r2 chunked_drop [OF prems(4)] by (intro less.hyps [of "drop (2 * k) xs"]) auto
    have "length m = 2 * k \<or> length m \<le> 2 * k \<and> r2 = []"
      using lmerge_length [OF m] lpass_length [OF r2 prems(2)] by auto
    then have "chunked (key \<circ> info) (2 * k) r" unfolding r using sm(1) ih by (intro chunked_append) auto
    moreover have "xs = (take k xs @ take k (drop k xs)) @ drop (2 * k) xs"
      using append_take_drop_id [of k "drop k xs"] by (simp add: mult_2)
    then have "same_order (key \<circ> info) r xs"
      unfolding r using sm(2) ih same_order_append by metis
    ultimately show ?thesis by blast
  qed
qed

lemma lsort_sorts:
  assumes "inv s" "0 < k" "lsort cmp info k xs s = Some (r, s')" "chunked (key \<circ> info) k xs"
  shows "sort_key (key \<circ> info) xs = r"
  using assms
proof (induction "length xs - k" arbitrary: k xs s rule: less_induct)
  case less
  note prems = less.prems
  obtain r1 n s1 where p: "lpass cmp info k xs s = Some (r1, n, s1)"
    and rest: "if n \<le> 1 then r = r1 else lsort cmp info (k * 2) r1 s1 = Some (r, s')"
    using prems(3) by (subst (asm) lsort.simps) (auto simp: bind_eq_Some_conv split: if_splits)
  have s1: "inv s1" "mset r1 = mset xs" using lpass_returns [OF prems(1,2), of info xs] p by auto
  note len = lpass_length [OF p prems(2)]
  note srt = lpass_sorts [OF prems(1,2) p prems(4)]
  show ?case
  proof (cases "n \<le> 1")
    case True
    then have "sorted (map (key \<circ> info) r1)"
      using srt len chunked_first(1) [of "key \<circ> info" "2 * k" r1] by simp
    then show ?thesis using True rest srt s1(2) by (simp add: same_order_sorted)
  next
    case False
    then have "length r1 - k * 2 < length xs - k" using len prems(2) by (auto simp: not_le intro: diff_less_mono2)
    then have e: "sort_key (key \<circ> info) r1 = r"
      using False rest s1(1) srt prems(2) by (intro less.hyps [of r1 "k * 2" s1]) (auto simp: mult.commute)
    have "same_order (key \<circ> info) (sort_key (key \<circ> info) r1) xs"
      using srt by (simp only: same_order_def sort_key_stable) simp
    then show ?thesis using e s1(2) by (intro same_order_sorted) auto
  qed
qed

text \<open>The sort in place is the stable sort by the key.\<close>

lemma mergesort_sorts:
  assumes "inv s" "clist h p xs" "xs \<noteq> []"
  shows "\<exists>h' p' s'. core_list_mergesort cmp h p s = Some (h', p', s') \<and> clist h' p' (sort_key (key \<circ> hinfo h) xs)
    \<and> inv s' \<and> hinfo h' = hinfo h \<and> (\<forall>a. a \<notin> set xs \<longrightarrow> hnext h' a = hnext h a)"
proof -
  obtain h' p' r s' where m: "core_list_mergesort cmp h p s = Some (h', p', s')" "clist h' p' r"
    "lsort cmp (hinfo h) 1 xs s = Some (r, s')" "inv s'" "hinfo h' = hinfo h" "\<forall>a. a \<notin> set xs \<longrightarrow> hnext h' a = hnext h a"
    using mergesort_returns [OF assms] by blast
  have "sort_key (key \<circ> hinfo h) xs = r"
    using lsort_sorts [OF assms(1) zero_less_one m(3) chunked_1] .
  with m show ?thesis by blast
qed

end

text \<open>A comparison that leaves a mark on the data it has seen, which later comparisons do not take away.\<close>

locale visiting = comparison cmp inv
  for cmp :: "'s list_cmp" and inv :: "'s \<Rightarrow> bool" +
  fixes seen :: "addr \<Rightarrow> 's \<Rightarrow> bool"
  assumes cmp_sees: "inv s \<Longrightarrow> cmp a b s = Some (c, s') \<Longrightarrow> seen a s' \<and> seen b s'"
    and seen_stays: "inv s \<Longrightarrow> cmp a b s = Some (c, s') \<Longrightarrow> seen x s \<Longrightarrow> seen x s'"

context visiting
begin

text \<open>What has not been seen before a pass over chunks of \<open>k\<close> cells is alone in its chunk.\<close>

definition alone :: "ptrs \<Rightarrow> nat \<Rightarrow> addr list \<Rightarrow> 's \<Rightarrow> bool" where
  "alone info k xs s \<longleftrightarrow> (\<forall>i<length xs. \<not> seen (info (xs ! i)) s \<longrightarrow> i mod k = 0 \<and> (k = 1 \<or> Suc i = length xs))"

lemma lmerge_sees:
  assumes "inv s" "lmerge cmp info xs ys s = Some (ms, s')"
  shows "inv s' \<and> (\<forall>x. seen x s \<longrightarrow> seen x s')
    \<and> (xs \<noteq> [] \<longrightarrow> ys \<noteq> [] \<longrightarrow> seen (info (hd xs)) s' \<and> seen (info (hd ys)) s')"
  using assms
proof (induction "length xs + length ys" arbitrary: xs ys s ms rule: less_induct)
  case less
  show ?case
  proof (cases "xs = [] \<or> ys = []")
    case True
    with less.prems show ?thesis by (cases xs) auto
  next
    case False
    then obtain x xs' y ys' where xy: "xs = x # xs'" "ys = y # ys'" by (meson neq_Nil_conv)
    obtain c s1 where c: "cmp (info x) (info y) s = Some (c, s1)" "inv s1" using cmp_returns less.prems(1) by blast
    note sees = cmp_sees [OF less.prems(1) c(1)] seen_stays [OF less.prems(1) c(1)]
    have "\<exists>us vs m. lmerge cmp info us vs s1 = Some (m, s') \<and> length us + length vs < length xs + length ys"
      using less.prems(2) c(1) xy by (auto simp: bind_eq_Some_conv split: if_splits) force+
    then obtain us vs m where "lmerge cmp info us vs s1 = Some (m, s')" "length us + length vs < length xs + length ys" by blast
    with less.hyps [of us vs s1 m] c(2) have "inv s' \<and> (\<forall>x. seen x s1 \<longrightarrow> seen x s')" by blast
    with sees xy show ?thesis by simp
  qed
qed

lemma alone_chunks:
  assumes "alone info k xs s" "0 < k" "take k (drop k xs) \<noteq> []" "x \<in> set (take k xs) \<union> set (take k (drop k xs))"
  shows "seen (info x) s \<or> x = hd (take k xs) \<or> x = hd (take k (drop k xs))"
proof (rule disjCI)
  assume n: "\<not> (x = hd (take k xs) \<or> x = hd (take k (drop k xs)))"
  have l: "k < length xs" using assms(3) by simp
  from assms(4) obtain i where i: "i < length xs" "xs ! i = x" "i < k \<or> k \<le> i \<and> i < 2 * k"
  proof
    assume "x \<in> set (take k xs)"
    then obtain i where "i < length (take k xs)" "take k xs ! i = x" by (auto simp: in_set_conv_nth)
    then show ?thesis using that [of i] by simp
  next
    assume "x \<in> set (take k (drop k xs))"
    then obtain i where "i < length (take k (drop k xs))" "take k (drop k xs) ! i = x" by (auto simp: in_set_conv_nth)
    moreover from this have "drop k xs ! i = xs ! (k + i)" using l by (intro nth_drop) simp
    ultimately show ?thesis using that [of "k + i"] by (simp add: less_diff_conv add.commute)
  qed
  have hd: "hd (take k xs) = xs ! 0" "hd (take k (drop k xs)) = xs ! k"
  proof -
    have "xs \<noteq> []" using l by auto
    with assms(2) show "hd (take k xs) = xs ! 0" by (simp add: hd_conv_nth)
    from assms(2) l show "hd (take k (drop k xs)) = xs ! k" by (simp add: hd_drop_conv_nth)
  qed
  show "seen (info x) s"
  proof (rule ccontr)
    assume "\<not> seen (info x) s"
    then have "i mod k = 0" using assms(1) i(1,2) by (auto simp: alone_def)
    then have "i = 0 \<or> i = k" using i(3) assms(2) by (auto simp: le_mod_geq)
    with n hd i(2) show False by auto
  qed
qed

lemma lpass_sees:
  assumes "inv s" "0 < k" "lpass cmp info k xs s = Some (r, n, s')"
  shows "inv s' \<and> (\<forall>x. seen x s \<longrightarrow> seen x s') \<and> (alone info k xs s \<longrightarrow> alone info (2 * k) r s')"
  using assms
proof (induction "length xs" arbitrary: xs s r n rule: less_induct)
  case less
  note prems = less.prems
  show ?case
  proof (cases "xs = []")
    case True
    with prems(1,3) show ?thesis by (simp add: lpass.simps alone_def)
  next
    case False
    let ?us = "take k xs" and ?vs = "take k (drop k xs)" and ?ws = "drop (2 * k) xs"
    obtain m s1 r2 n2 where m: "lmerge cmp info ?us ?vs s = Some (m, s1)"
      and r2: "lpass cmp info k ?ws s1 = Some (r2, n2, s')" and r: "r = m @ r2"
      using prems(3) False by (subst (asm) lpass.simps) (auto simp: bind_eq_Some_conv)
    note sm = lmerge_sees [OF prems(1) m]
    have ih: "inv s' \<and> (\<forall>x. seen x s1 \<longrightarrow> seen x s') \<and> (alone info k ?ws s1 \<longrightarrow> alone info (2 * k) r2 s')"
      using False prems(2) r2 sm by (intro less.hyps) auto
    have "alone info (2 * k) r s'" if al: "alone info k xs s"
    proof (cases "?vs = []")
      case True
      then have "length xs \<le> k" using prems(2) by auto
      moreover from this have "m = xs" "s1 = s" using m False prems(2) by (cases xs; simp)+
      moreover have "r2 = []" using lpass_length [OF r2 prems(2)] \<open>length xs \<le> k\<close> by simp
      ultimately show ?thesis using al ih prems(2) r unfolding alone_def by (cases "k = 1") (auto simp: mod_less)
    next
      case vs: False
      have all: "seen (info x) s'" if "x \<in> set m" for x
      proof -
        have "mset m = mset ?us + mset ?vs" using lmerge_returns [OF prems(1), of info ?us ?vs] m by auto
        then have "x \<in> set ?us \<union> set ?vs" using that by (metis set_mset_mset set_mset_union)
        from alone_chunks [OF al prems(2) vs this] sm False vs prems(2) ih show ?thesis by auto
      qed
      have "alone info k ?ws s1"
        unfolding alone_def
      proof (intro allI impI)
        fix i assume i: "i < length ?ws" "\<not> seen (info (?ws ! i)) s1"
        then have "\<not> seen (info (xs ! (2 * k + i))) s" "2 * k + i < length xs" using sm by auto
        then have "(2 * k + i) mod k = 0 \<and> (k = 1 \<or> Suc (2 * k + i) = length xs)" using al unfolding alone_def by blast
        then show "i mod k = 0 \<and> (k = 1 \<or> Suc i = length ?ws)" using i(1) by auto
      qed
      then have al2: "alone info (2 * k) r2 s'" using ih by blast
      have lm: "length m = 2 * k \<or> r2 = []"
        using lmerge_length [OF m] lpass_length [OF r2 prems(2)] by auto
      show ?thesis
        unfolding alone_def
      proof (intro allI impI)
        fix i assume i: "i < length r" "\<not> seen (info (r ! i)) s'"
        then have ge: "length m \<le> i" using all [of "m ! i"] r by (auto simp: nth_append split: if_splits)
        then have "length m = 2 * k" using lm i(1) r by auto
        moreover have "\<not> seen (info (r2 ! (i - length m))) s'" "i - length m < length r2"
          using i ge r by (auto simp: nth_append)
        then have "(i - length m) mod (2 * k) = 0 \<and> (2 * k = 1 \<or> Suc (i - length m) = length r2)"
          using al2 unfolding alone_def by blast
        ultimately show "i mod (2 * k) = 0 \<and> (2 * k = 1 \<or> Suc i = length r)"
          using ge r by (auto simp: le_mod_geq)
      qed
    qed
    with sm ih show ?thesis by blast
  qed
qed

lemma lsort_sees:
  assumes "inv s" "0 < k" "lsort cmp info k xs s = Some (r, s')" "alone info k xs s" "k < length xs" "x \<in> set r"
  shows "seen (info x) s'"
  using assms
proof (induction "length xs - k" arbitrary: k xs s rule: less_induct)
  case less
  note prems = less.prems
  obtain r1 n s1 where p: "lpass cmp info k xs s = Some (r1, n, s1)"
    and rest: "if n \<le> 1 then r = r1 \<and> s' = s1 else lsort cmp info (k * 2) r1 s1 = Some (r, s')"
    using prems(3) by (subst (asm) lsort.simps) (auto simp: bind_eq_Some_conv split: if_splits)
  note len = lpass_length [OF p prems(2)]
  have al: "inv s1" "alone info (k * 2) r1 s1" using lpass_sees [OF prems(1,2) p] prems(4) by (simp_all add: mult.commute)
  show ?case
  proof (cases "n \<le> 1")
    case True
    show ?thesis
    proof (rule ccontr)
      assume n: "\<not> seen (info x) s'"
      obtain i where i: "i < length r1" "r1 ! i = x" using prems(6) True rest by (auto simp: in_set_conv_nth)
      then have "i mod (k * 2) = 0 \<and> (k * 2 = 1 \<or> Suc i = length r1)" using al(2) n True rest unfolding alone_def by auto
      moreover have "i < k * 2" using i(1) len True by simp
      ultimately show False using len prems(2,5) by (auto simp: mod_less)
    qed
  next
    case False
    then have "length r1 - k * 2 < length xs - k" "k * 2 < length r1" using len prems(2) by (auto simp: not_le intro: diff_less_mono2)
    then show ?thesis using False rest al prems(2,6) by (intro less.hyps [of r1 "k * 2" s1]) simp_all
  qed
qed

text \<open>The sort of a list of two or more cells compares every one of them.\<close>

lemma mergesort_sees:
  assumes "inv s" "clist h p xs" "2 \<le> length xs" "core_list_mergesort cmp h p s = Some (h', p', s')"
  shows "inv s' \<and> (\<forall>x\<in>set xs. seen (hinfo h x) s')"
proof -
  have "xs \<noteq> []" using assms(3) by auto
  then obtain r where r: "lsort cmp (hinfo h) 1 xs s = Some (r, s')" "mset r = mset xs" "inv s'"
    using mergesort_returns [OF assms(1,2)] assms(4) by auto
  have "alone (hinfo h) 1 xs s" by (simp add: alone_def)
  with lsort_sees [OF assms(1) _ r(1)] assms(3) mset_eq_setD [OF r(2)] r(3) show ?thesis by auto
qed

end

end
