(* ===== verification/CoreBench.thy ===== *)
theory CoreBench
  imports CoreState CoreMatrix CoreList
begin

text \<open>
  The list benchmark of CoreMark and its iteration: \<open>calc_func\<close> and what follows it in
  \<^verbatim>\<open>bench/coremark/core_list_join.c\<close>, and \<open>iterate\<close> of \<^verbatim>\<open>core_main.c\<close>.  The list, the
  data cells, the block of the state benchmark and the matrices lie in different parts of the memory
  block and are separate parts of the state.  Shown: the benchmark returns and leaves the list as it was.
\<close>

unbundle bit_operations_syntax

section \<open>The program\<close>

record core_results =
  res_seed1 :: u16
  res_seed2 :: u16
  res_seed3 :: u16
  res_block3 :: addr
  res_size :: u32
  res_iterations :: u32
  res_execs :: u32
  res_list :: addr
  res_mat :: mat_params
  res_crc :: u16
  res_crclist :: u16
  res_crcmatrix :: u16
  res_crcstate :: u16
  res_err :: u16

text \<open>The data cells, the memory with the block of the state benchmark, and the results.  \<open>b_undef\<close> is what the
  local variable \<open>info.data16\<close> of \<open>core_bench_list\<close>, which is not initialised, holds at its next calls.\<close>

record bench_state =
  b_data :: "addr \<Rightarrow> list_data"
  b_mem :: mem
  b_res :: core_results
  b_undef :: "nat \<Rightarrow> u16"

text \<open>The call of the state or the matrix benchmark for the value \<open>data\<close>: \<open>retval\<close> and the state.\<close>

definition calc_dtype :: "u16 \<Rightarrow> u16" where
  "calc_dtype data = (let dtype = drop_bit 3 data AND 0xf in dtype OR push_bit 4 dtype)"

definition calc_value :: "u16 \<Rightarrow> bench_state \<Rightarrow> (u16 \<times> bench_state) option" where
  "calc_value data st =
     (let flag = data AND 7; dtype = calc_dtype data; res = b_res st
      in if flag = 0
         then do { let dtype = (if sint dtype < 0x22 then 0x22 else dtype);
                   (m, retval) \<leftarrow> core_bench_state (b_mem st) (res_size res) (res_block3 res)
                      (res_seed1 res) (res_seed2 res) dtype (res_crc res);
                   let res = (if res_crcstate res = 0 then res\<lparr>res_crcstate := retval\<rparr> else res);
                   Some (retval, st\<lparr>b_mem := m, b_res := res\<rparr>) }
         else if flag = 1
         then do { (mat, retval) \<leftarrow> core_bench_matrix (res_mat res) dtype (res_crc res);
                   let res = res\<lparr>res_mat := mat\<rparr>;
                   let res = (if res_crcmatrix res = 0 then res\<lparr>res_crcmatrix := retval\<rparr> else res);
                   Some (retval, st\<lparr>b_res := res\<rparr>) }
         else Some (data, st))"

definition calc_func :: "addr \<Rightarrow> bench_state \<Rightarrow> (u16 \<times> bench_state) option" where
  "calc_func pdata st =
     (let data = data16 (b_data st pdata); optype = drop_bit 7 data AND 1
      in if optype \<noteq> 0 then Some (data AND 0x7f, st)
         else do { (retval, st) \<leftarrow> calc_value data st;
                   let st = st\<lparr>b_res := (b_res st)\<lparr>res_crc := crcu16 retval (res_crc (b_res st))\<rparr>\<rparr>;
                   let retval = retval AND 0x7f;
                   let d = b_data st;
                   let st = st\<lparr>b_data := d(pdata := (d pdata)\<lparr>data16 := (data AND 0xff00) OR 0x80 OR retval\<rparr>)\<rparr>;
                   Some (retval, st) })"

definition cmp_complex :: "bench_state list_cmp" where
  "cmp_complex a b st =
     do { (val1, st) \<leftarrow> calc_func a st; (val2, st) \<leftarrow> calc_func b st; Some (sint val1 - sint val2, st) }"

text \<open>\<open>cmp_idx\<close>, with the argument that tells whether \<open>res\<close> is \<open>NULL\<close>.\<close>

definition regen :: "list_data \<Rightarrow> list_data" where
  "regen a = a\<lparr>data16 := (data16 a AND 0xff00) OR (0xff AND drop_bit 8 (data16 a))\<rparr>"

definition cmp_idx :: "bool \<Rightarrow> (addr \<Rightarrow> list_data) list_cmp" where
  "cmp_idx res_null a b d =
     (let d = (if res_null then d(a := regen (d a)) else d);
          d = (if res_null then d(b := regen (d b)) else d)
      in Some (sint (idx (d a)) - sint (idx (d b)), d))"

text \<open>What one search adds to \<open>retval\<close>, \<open>found\<close> and \<open>missed\<close>, and the item it moves.\<close>

definition find_result ::
    "(addr \<Rightarrow> list_data) \<Rightarrow> list_heap \<Rightarrow> addr \<Rightarrow> addr \<Rightarrow> u16 \<times> u16 \<times> u16 \<Rightarrow> list_heap \<times> u16 \<times> u16 \<times> u16" where
  "find_result d h list this_find acc =
     (let (retval, found, missed) = acc
      in if this_find = 0
         then (h, retval + (drop_bit 8 (data16 (d (hinfo h (hnext h list)))) AND 1), found, missed + 1)
         else let dat = data16 (d (hinfo h this_find));
                  retval = (if dat AND 1 \<noteq> 0 then retval + (drop_bit 9 dat AND 1) else retval);
                  h = (if hnext h this_find \<noteq> 0
                       then let finder = hnext h this_find;
                                h = h\<lparr>hnext := (hnext h)(this_find := hnext h finder)\<rparr>;
                                h = h\<lparr>hnext := (hnext h)(finder := hnext h list)\<rparr>
                            in h\<lparr>hnext := (hnext h)(list := finder)\<rparr>
                       else h)
              in (h, retval, found + 1, missed))"

partial_function (option) bench_finds ::
    "(addr \<Rightarrow> list_data) \<Rightarrow> u16 \<Rightarrow> u16 \<Rightarrow> list_heap \<Rightarrow> addr \<Rightarrow> list_data \<Rightarrow> u16 \<times> u16 \<times> u16 \<Rightarrow>
     (list_heap \<times> addr \<times> list_data \<times> u16 \<times> u16 \<times> u16) option" where
  "bench_finds d find_num i h list info acc =
     (if sint i < sint find_num
      then do { let info = info\<lparr>data16 := i AND 0xff\<rparr>;
                this_find \<leftarrow> core_list_find h d list info;
                (h, list) \<leftarrow> core_list_reverse h list;
                let (h, acc) = find_result d h list this_find acc;
                let info = (if sint (idx info) \<ge> 0 then info\<lparr>idx := idx info + 1\<rparr> else info);
                bench_finds d find_num (i + 1) h list info acc }
      else Some (h, list, info, acc))"

declare bench_finds.simps [code]

text \<open>\<open>crc16\<close> of the data of the list's head, once for every item from \<open>finder\<close> on.\<close>

partial_function (option) bench_list_crc :: "list_heap \<Rightarrow> u16 \<Rightarrow> addr \<Rightarrow> u16 \<Rightarrow> u16 option" where
  "bench_list_crc h head_data finder retval =
     (if finder \<noteq> 0 then bench_list_crc h head_data (hnext h finder) (crc16 head_data retval)
      else Some retval)"

declare bench_list_crc.simps [code]

definition core_bench_list :: "list_heap \<Rightarrow> bench_state \<Rightarrow> u16 \<Rightarrow> (list_heap \<times> bench_state \<times> u16) option" where
  "core_bench_list h st finder_idx =
     do { let list = res_list (b_res st);
          let data0 = b_undef st 0;
          let st = st\<lparr>b_undef := b_undef st \<circ> Suc\<rparr>;
          (h, list, info, retval, found, missed) \<leftarrow>
            bench_finds (b_data st) (res_seed3 (b_res st)) 0 h list \<lparr>data16 = data0, idx = finder_idx\<rparr> (0, 0, 0);
          let retval = retval + (found * 4 - missed);
          (h, list, st) \<leftarrow> (if sint finder_idx > 0 then core_list_mergesort cmp_complex h list st else Some (h, list, st));
          let (h, remover) = core_list_remove h (hnext h list);
          finder \<leftarrow> core_list_find h (b_data st) list info;
          let finder = (if finder = 0 then hnext h list else finder);
          retval \<leftarrow> bench_list_crc h (data16 (b_data st (hinfo h list))) finder retval;
          let (h, remover) = core_list_undo_remove h remover (hnext h list);
          (h, list, d) \<leftarrow> core_list_mergesort (cmp_idx True) h list (b_data st);
          let st = st\<lparr>b_data := d\<rparr>;
          retval \<leftarrow> bench_list_crc h (data16 (b_data st (hinfo h list))) (hnext h list) retval;
          Some (h, st, retval) }"

text \<open>\<open>core_list_init\<close>: the inserts after the head, and the numbers given to the items.\<close>

definition init_data :: "u16 \<Rightarrow> u32 \<Rightarrow> u16" where
  "init_data seed i =
     (let datpat = ucast ((scast seed XOR i) AND 0xf) :: u16;
          dat = push_bit 3 datpat OR ucast (i AND 7)
      in push_bit 8 dat OR dat)"

function init_inserts ::
    "u16 \<Rightarrow> u32 \<Rightarrow> u32 \<Rightarrow> addr \<Rightarrow> addr \<Rightarrow> addr \<Rightarrow> list_data \<Rightarrow> list_heap \<Rightarrow> (addr \<Rightarrow> list_data) \<Rightarrow> addr \<Rightarrow> addr \<Rightarrow>
     list_heap \<times> (addr \<Rightarrow> list_data)" where
  "init_inserts seed sz i list memblock_end datablock_end info h d memblock datablock =
     (if i < sz
      then let info = info\<lparr>data16 := init_data seed i\<rparr>;
               (h, d, newitem, memblock, datablock) =
                 core_list_insert_new h d list info memblock datablock memblock_end datablock_end
           in init_inserts seed sz (i + 1) list memblock_end datablock_end info h d memblock datablock
      else (h, d))"
  by pat_completeness auto
termination
  by (relation "measure (\<lambda>(seed, sz, i, r). unat sz - unat i)")
     (auto simp: unat_plus_one_less word_less_nat_alt)

partial_function (option) init_index ::
    "u16 \<Rightarrow> u32 \<Rightarrow> u32 \<Rightarrow> list_heap \<Rightarrow> (addr \<Rightarrow> list_data) \<Rightarrow> addr \<Rightarrow> (addr \<Rightarrow> list_data) option" where
  "init_index seed sz i h d finder =
     (if hnext h finder \<noteq> 0
      then let a = hinfo h finder;
               (v, i) = (if i < sz div 5 then (ucast i, i + 1)
                         else let pat = ucast (i XOR scast seed) :: u16; i = i + 1
                              in (0x3fff AND (ucast (push_bit 8 (i AND 7)) OR pat), i))
           in init_index seed sz i h (d(a := (d a)\<lparr>idx := v\<rparr>)) (hnext h finder)
      else Some d)"

declare init_index.simps [code]

definition core_list_init ::
    "list_heap \<Rightarrow> (addr \<Rightarrow> list_data) \<Rightarrow> u32 \<Rightarrow> addr \<Rightarrow> u16 \<Rightarrow> (list_heap \<times> (addr \<Rightarrow> list_data) \<times> addr) option" where
  "core_list_init h d blksize memblock seed =
     do { let per_item = 16 + 4;
          let sz = blksize div per_item - 2;
          let memblock_end = memblock + 8 * sz;
          let datablock = memblock_end;
          let datablock_end = datablock + 4 * sz;
          let list = memblock;
          let h = h\<lparr>hnext := (hnext h)(list := 0), hinfo := (hinfo h)(list := datablock)\<rparr>;
          let d = d(datablock := \<lparr>data16 = 0x8080, idx = 0\<rparr>);
          let memblock = memblock + 8;
          let datablock = datablock + 4;
          let info = \<lparr>data16 = 0xffff, idx = 0x7fff\<rparr>;
          let (h, d, newitem, memblock, datablock) =
            core_list_insert_new h d list info memblock datablock memblock_end datablock_end;
          let (h, d) = init_inserts seed sz 0 list memblock_end datablock_end info h d memblock datablock;
          d \<leftarrow> init_index seed sz 1 h d (hnext h list);
          (h, list, d) \<leftarrow> core_list_mergesort (cmp_idx True) h list d;
          Some (h, d, list) }"

text \<open>\<open>iterate\<close>.\<close>

definition iterate_once :: "bool \<Rightarrow> list_heap \<Rightarrow> bench_state \<Rightarrow> (list_heap \<times> bench_state) option" where
  "iterate_once first h st =
     do { (h, st, crc) \<leftarrow> core_bench_list h st 1;
          let st = st\<lparr>b_res := (b_res st)\<lparr>res_crc := crcu16 crc (res_crc (b_res st))\<rparr>\<rparr>;
          (h, st, crc) \<leftarrow> core_bench_list h st (- 1);
          let st = st\<lparr>b_res := (b_res st)\<lparr>res_crc := crcu16 crc (res_crc (b_res st))\<rparr>\<rparr>;
          let st = (if first then st\<lparr>b_res := (b_res st)\<lparr>res_crclist := res_crc (b_res st)\<rparr>\<rparr> else st);
          Some (h, st) }"

definition iterate :: "list_heap \<Rightarrow> bench_state \<Rightarrow> (list_heap \<times> bench_state) option" where
  "iterate h st =
     for_up 0 (res_iterations (b_res st)) (\<lambda>i (h, st). iterate_once (i = 0) h st)
       (h, st\<lparr>b_res := (b_res st)\<lparr>res_crc := 0, res_crclist := 0, res_crcmatrix := 0, res_crcstate := 0\<rparr>\<rparr>)"

declare init_inserts.simps [simp del]

section \<open>The comparisons\<close>

lemma regen_idx [simp]: "idx (regen a) = idx a"
  by (simp add: regen_def)

lemma bit_bytes: "bit (0xff :: u16) k \<longleftrightarrow> k < 8" "bit (0xff00 :: u16) k \<longleftrightarrow> 8 \<le> k \<and> k < 16"
  "bit (0x80 :: u16) k \<longleftrightarrow> k = 7" "bit (0x7f :: u16) k \<longleftrightarrow> k < 7"
proof -
  have e: "(0xff :: u16) = mask 8" "(0xff00 :: u16) = push_bit 8 (mask 8)" "(0x80 :: u16) = push_bit 7 1" "(0x7f :: u16) = mask 7"
    by (simp_all add: mask_eq_exp_minus_1)
  show "bit (0xff :: u16) k \<longleftrightarrow> k < 8" "bit (0xff00 :: u16) k \<longleftrightarrow> 8 \<le> k \<and> k < 16"
    "bit (0x80 :: u16) k \<longleftrightarrow> k = 7" "bit (0x7f :: u16) k \<longleftrightarrow> k < 7"
    unfolding e by (simp_all only: bit_push_bit_iff bit_mask_iff bit_1_iff possible_bit_word) auto
qed

lemma regen_bit: "bit (data16 (regen x)) k \<longleftrightarrow> k < 16 \<and> bit (data16 x) (if k < 8 then k + 8 else k)"
proof -
  have "bit (data16 x) k \<Longrightarrow> k < 16" for k using bit_imp_le_length [of "data16 x" k] by simp
  moreover have "data16 (regen x) = (data16 x AND 0xff00) OR (0xff AND drop_bit 8 (data16 x))" by (simp add: regen_def)
  ultimately show ?thesis
    by (simp only: bit_or_iff bit_and_iff bit_drop_bit_eq bit_bytes o_apply) (auto simp: add.commute)
qed

lemma regen_eq_iff: "regen x = regen y \<longleftrightarrow> idx x = idx y \<and> (\<forall>k<8. bit (data16 x) (k + 8) = bit (data16 y) (k + 8))"
proof -
  have "data16 (regen x) = data16 (regen y) \<longleftrightarrow> (\<forall>k<8. bit (data16 x) (k + 8) = bit (data16 y) (k + 8))"
  proof
    assume "data16 (regen x) = data16 (regen y)"
    then have "bit (data16 (regen x)) k = bit (data16 (regen y)) k" for k by simp
    note b = this [unfolded regen_bit]
    show "\<forall>k<8. bit (data16 x) (k + 8) = bit (data16 y) (k + 8)"
    proof (intro allI impI)
      fix k :: nat assume "k < 8"
      then show "bit (data16 x) (k + 8) = bit (data16 y) (k + 8)" using b [of k] by simp
    qed
  next
    assume a: "\<forall>k<8. bit (data16 x) (k + 8) = bit (data16 y) (k + 8)"
    show "data16 (regen x) = data16 (regen y)"
    proof (rule bit_word_eqI)
      fix n assume "n < LENGTH(16)"
      then show "bit (data16 (regen x)) n = bit (data16 (regen y)) n"
        using a spec [of _ "n - 8", OF a] unfolding regen_bit by (cases "n < 8") auto
    qed
  qed
  moreover have "x = y \<longleftrightarrow> data16 x = data16 y \<and> idx x = idx y" for x y :: list_data
    by (cases x; cases y) simp
  ultimately show ?thesis by auto
qed

lemma regen_regen [simp]: "regen (regen x) = regen x"
  unfolding regen_eq_iff by (simp add: regen_bit)

lemma regen_fixed: "\<forall>a. regen (d a) = D a \<Longrightarrow> regen (D x) = D x"
  by (metis regen_regen)

text \<open>A comparison by index with \<open>res\<close> null regenerates both data.\<close>

interpretation fresh: visiting "cmp_idx True" "\<lambda>d. \<forall>a. regen (d a) = D a" "\<lambda>a d. regen (d a) = d a" for D
  by unfold_locales (auto simp: cmp_idx_def Let_def intro: regen_fixed)

interpretation idx: key_comparison "cmp_idx n" "\<lambda>d. \<forall>a. idx (d a) = i a" "\<lambda>a. sint (i a)" for n i
  by unfold_locales (auto simp: cmp_idx_def Let_def split: if_splits)

lemma calc_dtype_le: "calc_dtype data \<le> 255"
proof -
  have e: "(0xf :: u16) = mask 4" by (simp add: mask_eq_exp_minus_1)
  have "calc_dtype data = calc_dtype data AND mask 8"
    unfolding calc_dtype_def Let_def e by (rule bit_word_eqI) (auto simp: bit_simps)
  moreover have "(mask 8 :: u16) = 255" by (simp add: mask_eq_exp_minus_1)
  ultimately show ?thesis by (metis word_and_le1)
qed

lemma calc_step:
  fixes x :: u16
  assumes "x \<le> 255"
  defines "y \<equiv> if sint x < 0x22 then 0x22 else x"
  shows "1 < y" "y < 0x8000" "unat y \<le> 255"
proof -
  have "uint x \<le> 255" using assms(1) by (simp add: word_le_def)
  then have "sint x = uint x"
    using order_trans [of "- (2 ^ 15)" 0 "uint x"] by (simp add: sint_uint signed_take_bit_int_eq_self)
  with \<open>uint x \<le> 255\<close> show "1 < y" "y < 0x8000"
    unfolding y_def by (auto simp: word_less_def)
  show "unat y \<le> 255" using assms(1) by (simp add: y_def word_le_nat_alt)
qed

text \<open>What stays of the results: seeds, sizes, the list, and the matrices but the result matrix.\<close>

definition same_setup :: "core_results \<Rightarrow> core_results \<Rightarrow> bool" where
  "same_setup r r' \<longleftrightarrow>
     res_seed1 r' = res_seed1 r \<and> res_seed2 r' = res_seed2 r \<and> res_seed3 r' = res_seed3 r \<and> res_block3 r' = res_block3 r
     \<and> res_size r' = res_size r \<and> res_iterations r' = res_iterations r \<and> res_execs r' = res_execs r \<and> res_list r' = res_list r
     \<and> mat_N (res_mat r') = mat_N (res_mat r) \<and> mat_A (res_mat r') = mat_A (res_mat r) \<and> mat_B (res_mat r') = mat_B (res_mat r)
     \<and> length (mat_C (res_mat r')) = length (mat_C (res_mat r))"

text \<open>A setup as \<open>core_mark\<close> makes it: equal safe seeds, the block as \<open>core_init_state\<close> fills it, and
  matrices of the dimension.\<close>

definition setup_ok :: "mem \<Rightarrow> core_results \<Rightarrow> bool" where
  "setup_ok M r \<longleftrightarrow>
     res_seed1 r = res_seed2 r \<and> safe_seed (res_seed1 r)
     \<and> 1 < res_size r \<and> unat (res_block3 r) + unat (res_size r) + 255 \<le> 4294967296 \<and> unat (res_size r) \<le> 4294967280
     \<and> (\<exists>m seed. M = write_bytes m (res_block3 r) (state_block (unat (res_size r)) seed))
     \<and> mat_N (res_mat r) \<le> 65535
     \<and> unat (mat_N (res_mat r)) * unat (mat_N (res_mat r)) \<le> length (mat_A (res_mat r))
     \<and> unat (mat_N (res_mat r)) * unat (mat_N (res_mat r)) \<le> length (mat_B (res_mat r))
     \<and> unat (mat_N (res_mat r)) * unat (mat_N (res_mat r)) \<le> length (mat_C (res_mat r))"

text \<open>\<open>D\<close>: the data of the cells, after they are regenerated.\<close>

definition bench_ok :: "(addr \<Rightarrow> list_data) \<Rightarrow> mem \<Rightarrow> core_results \<Rightarrow> bench_state \<Rightarrow> bool" where
  "bench_ok D M r st \<longleftrightarrow> (\<forall>a. regen (b_data st a) = D a) \<and> b_mem st = M \<and> same_setup r (b_res st) \<and> setup_ok M (b_res st)"

lemma bench_ok_idx: "bench_ok D M r st \<Longrightarrow> idx (b_data st a) = idx (D a)"
  by (metis bench_ok_def regen_idx)

lemma setup_ok_same: "same_setup r r' \<Longrightarrow> setup_ok M r \<Longrightarrow> setup_ok M r'"
  by (auto simp: same_setup_def setup_ok_def)

lemma bench_okI:
  "bench_ok D M r st \<Longrightarrow> same_setup (b_res st) r' \<Longrightarrow> b_data st' = b_data st \<Longrightarrow> b_mem st' = b_mem st \<Longrightarrow> b_res st' = r' \<Longrightarrow>
   bench_ok D M r st'"
  by (auto simp: bench_ok_def same_setup_def intro: setup_ok_same [of "b_res st"])

lemma calc_value_returns:
  assumes "bench_ok D M r st"
  shows "\<exists>v st'. calc_value data st = Some (v, st') \<and> bench_ok D M r st' \<and> b_data st' = b_data st"
proof -
  let ?res = "b_res st"
  have ok: "setup_ok M ?res" "b_mem st = M" using assms by (auto simp: bench_ok_def)
  consider "data AND 7 = 0" | "data AND 7 = 1" | "data AND 7 \<noteq> 0" "data AND 7 \<noteq> 1" by blast
  then show ?thesis
  proof cases
    case 1
    define step where "step = (if sint (calc_dtype data) < 0x22 then 0x22 else calc_dtype data)"
    have s: "1 < step" "step < 0x8000" "unat step \<le> 255"
      unfolding step_def by (rule calc_step [OF calc_dtype_le])+
    obtain m seed where M: "M = write_bytes m (res_block3 ?res) (state_block (unat (res_size ?res)) seed)"
      using ok by (auto simp: setup_ok_def)
    have "\<exists>crc'. core_bench_state M (res_size ?res) (res_block3 ?res) (res_seed1 ?res) (res_seed1 ?res) step (res_crc ?res) = Some (M, crc')"
      using ok(1) s M by (intro core_bench_state_block) (auto simp: setup_ok_def)
    moreover have "res_seed2 ?res = res_seed1 ?res" using ok(1) by (simp add: setup_ok_def)
    ultimately obtain v where v: "core_bench_state (b_mem st) (res_size ?res) (res_block3 ?res) (res_seed1 ?res) (res_seed2 ?res) step (res_crc ?res) = Some (M, v)"
      using ok(2) by auto
    let ?r' = "if res_crcstate ?res = 0 then ?res\<lparr>res_crcstate := v\<rparr> else ?res"
    have "calc_value data st = Some (v, st\<lparr>b_mem := M, b_res := ?r'\<rparr>)"
      using 1 v by (simp add: calc_value_def Let_def flip: step_def)
    moreover have "bench_ok D M r (st\<lparr>b_mem := M, b_res := ?r'\<rparr>)"
      by (rule bench_okI [OF assms, of ?r']) (use ok(2) in \<open>auto simp: same_setup_def\<close>)
    ultimately show ?thesis by auto
  next
    case 2
    obtain C v where b: "core_bench_matrix (res_mat ?res) (calc_dtype data) (res_crc ?res) = Some ((res_mat ?res)\<lparr>mat_C := C\<rparr>, v)"
      and l: "length C = length (mat_C (res_mat ?res))"
    proof -
      have "\<exists>C'. core_bench_matrix (res_mat ?res) (calc_dtype data) (res_crc ?res) =
          Some ((res_mat ?res)\<lparr>mat_C := C'\<rparr>, crc16 (test_crc (unat (mat_N (res_mat ?res))) (mat_A (res_mat ?res)) (mat_B (res_mat ?res)) (calc_dtype data)) (res_crc ?res))
        \<and> length C' = length (mat_C (res_mat ?res))"
        using ok(1) by (intro core_bench_matrix_eq) (auto simp: setup_ok_def)
      then show ?thesis using that by blast
    qed
    define r' where "r' = (let q = ?res\<lparr>res_mat := (res_mat ?res)\<lparr>mat_C := C\<rparr>\<rparr> in if res_crcmatrix q = 0 then q\<lparr>res_crcmatrix := v\<rparr> else q)"
    have "calc_value data st = Some (v, st\<lparr>b_res := r'\<rparr>)"
      using 2 b by (simp add: calc_value_def Let_def r'_def)
    moreover have "bench_ok D M r (st\<lparr>b_res := r'\<rparr>)"
      using l by (intro bench_okI [OF assms, of r']) (auto simp: same_setup_def r'_def Let_def)
    ultimately show ?thesis by auto
  next
    case 3
    with assms show ?thesis by (simp add: calc_value_def Let_def)
  qed
qed

text \<open>The result that \<open>calc_func\<close> stores is in the low byte.\<close>

lemma regen_cached: "regen (d\<lparr>data16 := (data16 d AND 0xff00) OR 0x80 OR (x AND 0x7f)\<rparr>) = regen d"
proof -
  have "data16 (d\<lparr>data16 := v\<rparr>) = v" "idx (d\<lparr>data16 := v\<rparr>) = idx d" for v by simp_all
  then show ?thesis unfolding regen_eq_iff by (simp only: bit_or_iff bit_and_iff bit_bytes) auto
qed

lemma calc_func_returns:
  assumes "bench_ok D M r st"
  shows "\<exists>v st'. calc_func a st = Some (v, st') \<and> bench_ok D M r st'"
proof (cases "drop_bit 7 (data16 (b_data st a)) AND 1 = 0")
  case False
  with assms show ?thesis by (simp add: calc_func_def Let_def)
next
  case True
  obtain v st1 where v: "calc_value (data16 (b_data st a)) st = Some (v, st1)" "bench_ok D M r st1" "b_data st1 = b_data st"
    using calc_value_returns [OF assms] by blast
  let ?st2 = "st1\<lparr>b_res := (b_res st1)\<lparr>res_crc := crcu16 v (res_crc (b_res st1))\<rparr>\<rparr>"
  have "bench_ok D M r ?st2"
    by (rule bench_okI [OF v(2), of "(b_res st1)\<lparr>res_crc := crcu16 v (res_crc (b_res st1))\<rparr>"]) (simp_all add: same_setup_def)
  moreover have "regen ((b_data st1 a)\<lparr>data16 := (data16 (b_data st1 a) AND 0xff00) OR 0x80 OR (x AND 0x7f)\<rparr>) = regen (b_data st1 a)" for x
    by (rule regen_cached)
  ultimately have "bench_ok D M r (?st2\<lparr>b_data := (b_data ?st2)(a := (b_data ?st2 a)\<lparr>data16 :=
      (data16 (b_data st1 a) AND 0xff00) OR 0x80 OR (x AND 0x7f)\<rparr>)\<rparr>)" for x
    by (auto simp: bench_ok_def)
  with True v show ?thesis by (simp add: calc_func_def Let_def)
qed

interpretation complex: comparison cmp_complex "bench_ok D M r" for D M r
proof
  fix s a b
  assume "bench_ok D M r s"
  then obtain v1 s1 where 1: "calc_func a s = Some (v1, s1)" "bench_ok D M r s1" using calc_func_returns by blast
  then obtain v2 s2 where "calc_func b s1 = Some (v2, s2)" "bench_ok D M r s2" using calc_func_returns by blast
  with 1 show "\<exists>c s'. cmp_complex a b s = Some (c, s') \<and> bench_ok D M r s'" by (simp add: cmp_complex_def)
qed

section \<open>The list benchmark\<close>

lemma first_of_in: "first_of P xs = 0 \<or> first_of P xs \<in> set xs"
proof (cases "filter P xs")
  case (Cons x ys)
  then have "x \<in> set xs" by (metis filter_is_subset list.set_intros(1) subsetD)
  with Cons show ?thesis by (simp add: first_of_def)
qed (simp add: first_of_def)

lemma core_list_find_in:
  "clist h p xs \<Longrightarrow> \<exists>q. core_list_find h d p info = Some q \<and> (q = 0 \<or> q \<in> set xs)"
  by (cases "sint (idx info) \<ge> 0")
     (use first_of_in in \<open>auto simp: core_list_find_def find_idx_eq find_data_eq\<close>)

text \<open>The item behind the one found moves behind the head.\<close>

lemma move_behind_head:
  assumes s: "lseg nx l (l # xs @ t # f # ys) 0"
  shows "lseg (nx(t := nx f, f := nx l, l := f)) l (l # f # xs @ t # ys) 0"
proof -
  let ?nx = "nx(t := nx f, f := nx l, l := f)"
  have d: "distinct (l # xs @ t # f # ys)" using s by (rule lseg_distinct)
  have "lseg nx (nx l) ((xs @ [t]) @ f # ys) 0" using s by simp
  then have 1: "lseg nx (nx l) (xs @ [t]) f" "lseg nx (nx f) ys 0" unfolding lseg_append by auto
  have "lseg (nx(t := nx f)) (nx l) (xs @ [t]) (nx f)" using 1(1) d by (intro lseg_relink) auto
  moreover have "f \<notin> set (xs @ [t])" "l \<notin> set (xs @ [t])" using d by auto
  ultimately have "lseg ?nx (nx l) (xs @ [t]) (nx f)" by (simp del: fun_upd_apply set_append)
  moreover have "lseg ?nx (nx f) ys 0" using 1(2) d by (simp del: fun_upd_apply)
  ultimately have "lseg ?nx (nx l) ((xs @ [t]) @ ys) 0" unfolding lseg_append by blast
  moreover have "l \<noteq> 0" "f \<noteq> 0" using lseg_nonzero [OF s] by auto
  moreover have "?nx l = f" "?nx f = nx l" using d by auto
  ultimately show ?thesis by simp
qed

lemma find_result_list:
  assumes s: "clist h l (l # xs)" and t: "t = 0 \<or> t \<in> set (l # xs)"
  shows "\<exists>h' acc' ys. find_result d h l t acc = (h', acc') \<and> clist h' l (l # ys) \<and> mset ys = mset xs
    \<and> hinfo h' = hinfo h \<and> (\<forall>a. a \<notin> set (l # xs) \<longrightarrow> hnext h' a = hnext h a)"
proof (cases "t = 0 \<or> hnext h t = 0")
  case True
  with s show ?thesis by (cases acc) (auto simp: find_result_def Let_def)
next
  case False
  define f where "f = hnext h t"
  obtain us vs where uv: "l # xs = us @ t # vs" using t False by (metis split_list)
  then have "lseg (hnext h) f vs 0" using s unfolding uv lseg_append by (auto simp: f_def)
  then obtain ws where vs: "vs = f # ws" using False by (cases vs) (auto simp: f_def)
  have f: "f \<in> set (l # xs)" using uv vs by auto
  let ?nx = "(hnext h)(t := hnext h f)"
  have r: "\<exists>acc'. find_result d h l t acc = (h\<lparr>hnext := ?nx(f := ?nx l, l := f)\<rparr>, acc')"
    using False by (cases acc) (simp add: find_result_def Let_def f_def)
  have t': "t \<in> set (l # xs)" using t False by blast
  have frame: "(?nx(f := ?nx l, l := f)) a = hnext h a" if "a \<notin> set (l # xs)" for a
    using that f t' by auto
  show ?thesis
  proof (cases us)
    case Nil
    then have tl: "t = l" "xs = f # ws" using uv vs by auto
    have "l \<noteq> f" using lseg_distinct [OF s] tl by auto
    then have "?nx(f := ?nx l, l := f) = hnext h"
      using tl(1) f_def by (auto simp: fun_eq_iff)
    with r s show ?thesis by auto
  next
    case (Cons u us')
    then have xs: "u = l" "xs = us' @ t # f # ws" using uv vs by auto
    have "t \<noteq> l" using lseg_distinct [OF s] xs by auto
    then have e: "?nx(f := ?nx l, l := f) = (hnext h)(t := hnext h f, f := hnext h l, l := f)" by simp
    have "lseg (?nx(f := ?nx l, l := f)) l (l # f # us' @ t # ws) 0"
      unfolding e using s xs by (intro move_behind_head) simp
    moreover have "mset (f # us' @ t # ws) = mset xs" by (simp add: xs(2))
    moreover obtain acc' where "find_result d h l t acc = (h\<lparr>hnext := ?nx(f := ?nx l, l := f)\<rparr>, acc')" using r by blast
    ultimately show ?thesis
      using frame
      by (intro exI [of _ "h\<lparr>hnext := ?nx(f := ?nx l, l := f)\<rparr>"] exI [of _ acc'] exI [of _ "f # us' @ t # ws"])
         (simp del: fun_upd_apply lseg.simps)
  qed
qed

lemma sint_next16: "sint i < sint n \<Longrightarrow> sint (i + 1) = sint i + 1" for i n :: u16
proof -
  assume "sint i < sint n"
  moreover have "sint n < 2 ^ 15" "- (2 ^ 15) \<le> sint i" using sint_lt [of n] sint_ge [of i] by simp_all
  ultimately have "- (2 ^ 15) \<le> sint i + 1" "sint i + 1 < 2 ^ 15" by auto
  then have "signed_take_bit 15 (sint i + 1) = sint i + 1" by (rule signed_take_bit_int_eq_self)
  then show ?thesis by (simp add: sint_word_ariths)
qed

lemma bench_finds_list:
  assumes "clist h p xs" "xs \<noteq> []"
  shows "\<exists>h' p' info' acc' ys. bench_finds d n i h p info acc = Some (h', p', info', acc') \<and> clist h' p' ys \<and> mset ys = mset xs
    \<and> hinfo h' = hinfo h \<and> (\<forall>a. a \<notin> set xs \<longrightarrow> hnext h' a = hnext h a)"
  using assms
proof (induction "nat (sint n - sint i)" arbitrary: i h p xs info acc rule: less_induct)
  case less
  show ?case
  proof (cases "sint i < sint n")
    case False
    with less.prems show ?thesis by (cases acc) (subst bench_finds.simps, auto)
  next
    case True
    define info1 where "info1 = info\<lparr>data16 := i AND 0xff\<rparr>"
    obtain t where t: "core_list_find h d p info1 = Some t" "t = 0 \<or> t \<in> set xs"
      using core_list_find_in [OF less.prems(1)] by blast
    obtain h1 p1 where r: "core_list_reverse h p = Some (h1, p1)" "clist h1 p1 (rev xs)" "hinfo h1 = hinfo h"
      "\<forall>a. a \<notin> set xs \<longrightarrow> hnext h1 a = hnext h a" using core_list_reverse_eq [OF less.prems(1)] by blast
    obtain l zs where z: "rev xs = l # zs" using less.prems(2) by (cases "rev xs") auto
    have sz: "set xs = set (l # zs)" "mset xs = mset (l # zs)" using z by (metis set_rev, metis mset_rev)
    have "p1 = l" using r(2) z by simp
    then obtain h2 acc2 ys where f: "find_result d h1 p1 t acc = (h2, acc2)" "clist h2 p1 (l # ys)" "mset ys = mset zs"
      "hinfo h2 = hinfo h1" "\<forall>a. a \<notin> set (l # zs) \<longrightarrow> hnext h2 a = hnext h1 a"
      using find_result_list [of h1 l zs t d acc] r(2) t(2) z sz(1) by auto
    have perm: "mset (l # ys) = mset xs" using f(3) sz(2) by simp
    define info2 where "info2 = (if sint (idx info1) \<ge> 0 then info1\<lparr>idx := idx info1 + 1\<rparr> else info1)"
    have "nat (sint n - sint (i + 1)) < nat (sint n - sint i)" using True sint_next16 [OF True] by simp
    then have "\<exists>h' p' info' acc' us. bench_finds d n (i + 1) h2 p1 info2 acc2 = Some (h', p', info', acc') \<and> clist h' p' us
      \<and> mset us = mset (l # ys) \<and> hinfo h' = hinfo h2 \<and> (\<forall>a. a \<notin> set (l # ys) \<longrightarrow> hnext h' a = hnext h2 a)"
      using f(2) by (intro less.hyps) simp_all
    then obtain h' p' info' acc' us where ih: "bench_finds d n (i + 1) h2 p1 info2 acc2 = Some (h', p', info', acc')" "clist h' p' us"
      "mset us = mset (l # ys)" "hinfo h' = hinfo h2" "\<forall>a. a \<notin> set (l # ys) \<longrightarrow> hnext h' a = hnext h2 a" by blast
    have "bench_finds d n i h p info acc = Some (h', p', info', acc')"
      using True t(1) r(1) f(1) ih(1) by (subst bench_finds.simps) (simp add: Let_def flip: info1_def info2_def)
    moreover have "set (l # ys) = set xs" using perm by (rule mset_eq_setD)
    then have "hnext h' a = hnext h a" if "a \<notin> set xs" for a
      using that ih(5) f(5) r(4) sz(1) by simp
    ultimately show ?thesis using ih(2,3,4) f(4) r(3) perm by (cases acc') auto
  qed
qed

lemma bench_list_crc_returns: "lseg (hnext h) q ys 0 \<Longrightarrow> \<exists>v'. bench_list_crc h v q c = Some v'"
  by (induction ys arbitrary: q c) (simp_all add: bench_list_crc.simps [of h])

lemma lseg_suffix: "lseg nx p xs 0 \<Longrightarrow> q \<in> set xs \<Longrightarrow> \<exists>ys. lseg nx q ys 0"
proof -
  assume s: "lseg nx p xs 0" "q \<in> set xs"
  then obtain us vs where "xs = us @ q # vs" by (meson split_list)
  with s(1) have "lseg nx q (q # vs) 0" by (auto simp: lseg_append)
  then show ?thesis ..
qed

text \<open>Two heaps with the same cells in the same list, and the same cells outside, are equal.\<close>

lemma lseg_next_unique: "lseg nx p xs 0 \<Longrightarrow> lseg nx' p xs 0 \<Longrightarrow> a \<in> set xs \<Longrightarrow> nx a = nx' a"
proof (induction xs arbitrary: p)
  case (Cons x xs)
  then show ?case by (cases xs) auto
qed simp

lemma same_list_heap:
  "clist h p xs \<Longrightarrow> clist h' p xs \<Longrightarrow> hinfo h' = hinfo h \<Longrightarrow> (\<forall>a. a \<notin> set xs \<longrightarrow> hnext h' a = hnext h a) \<Longrightarrow> h' = h"
  by (intro list_heap.equality) (auto simp: fun_eq_iff dest: lseg_next_unique)

lemma remove_list:
  assumes "clist h p (l # item # ret # xs)"
  shows "core_list_remove h (hnext h l) = (fst (core_list_remove h item), ret)"
    and "clist (fst (core_list_remove h item)) l (l # item # xs)"
    and "hnext (fst (core_list_remove h item)) l = item"
    and "core_list_undo_remove (fst (core_list_remove h item)) ret item = (h, ret)"
proof -
  have n: "p = l" "hnext h l = item" "hnext h item = ret" using assms by auto
  have d: "distinct (l # item # ret # xs)" using assms by (rule lseg_distinct)
  show r: "core_list_remove h (hnext h l) = (fst (core_list_remove h item), ret)"
    by (simp add: n core_list_remove_def Let_def)
  let ?h = "fst (core_list_remove h item)"
  have h1: "hnext ?h = (hnext h)(item := hnext h ret, ret := 0)"
    by (simp add: n core_list_remove_def Let_def)
  show "hnext ?h l = item" using d n by (simp add: h1)
  have "lseg (hnext h) (hnext h ret) xs 0" using assms by simp
  then have "lseg (hnext ?h) (hnext h ret) xs 0" using d by (simp add: h1 del: fun_upd_apply)
  moreover have "hnext ?h item = hnext h ret" "hnext ?h l = item" "item \<noteq> 0" "l \<noteq> 0"
    using d n assms by (auto simp: h1)
  ultimately show "clist ?h l (l # item # xs)" by simp
  show "core_list_undo_remove ?h ret item = (h, ret)"
    using r n d by (intro undo_remove) auto
qed

lemma three_cells: "3 \<le> length ys \<Longrightarrow> \<exists>l item ret zs. ys = l # item # ret # zs"
  by (auto simp: numeral_3_eq_3 Suc_le_length_iff)

lemma core_bench_list_eq:
  assumes ok: "bench_ok D M r st" and l: "clist h (res_list (b_res st)) xs" "3 \<le> length xs"
    and srt: "sorted (map (\<lambda>x. sint (idx (D (hinfo h x)))) xs)" "inj_on (\<lambda>x. sint (idx (D (hinfo h x)))) (set xs)"
  shows "\<exists>st' v. core_bench_list h st fi = Some (h, st', v) \<and> bench_ok D M r st'
    \<and> (\<forall>x\<in>set xs. b_data st' (hinfo h x) = D (hinfo h x))"
proof -
  let ?info = "\<lparr>data16 = b_undef st 0, idx = fi\<rparr>" and ?st = "st\<lparr>b_undef := b_undef st \<circ> Suc\<rparr>"
  have ok: "bench_ok D M r ?st" using ok by (simp add: bench_ok_def)
  have ne: "xs \<noteq> []" using l(2) by auto
  obtain h1 p1 info rt fnd msd ys where 1: "bench_finds (b_data st) (res_seed3 (b_res st)) 0 h (res_list (b_res st)) ?info (0, 0, 0)
      = Some (h1, p1, info, rt, fnd, msd)" "clist h1 p1 ys" "mset ys = mset xs" "hinfo h1 = hinfo h"
      "\<forall>a. a \<notin> set xs \<longrightarrow> hnext h1 a = hnext h a"
    using bench_finds_list [OF l(1) ne, of "b_data st" "res_seed3 (b_res st)" 0 "?info" "(0, 0, 0)"] by auto
  have "\<exists>h2 p2 st2 zs. (if sint fi > 0 then core_list_mergesort cmp_complex h1 p1 ?st else Some (h1, p1, ?st)) = Some (h2, p2, st2)
      \<and> clist h2 p2 zs \<and> mset zs = mset xs \<and> hinfo h2 = hinfo h \<and> (\<forall>a. a \<notin> set xs \<longrightarrow> hnext h2 a = hnext h a) \<and> bench_ok D M r st2"
  proof (cases "sint fi > 0")
    case True
    have "ys \<noteq> []" using 1(3) ne by auto
    from complex.mergesort_returns [OF ok 1(2) this] True 1(3,4,5) mset_eq_setD [OF 1(3)] show ?thesis by auto
  next
    case False
    with 1 ok show ?thesis by auto
  qed
  then obtain h2 p2 st2 zs where 2: "(if sint fi > 0 then core_list_mergesort cmp_complex h1 p1 ?st else Some (h1, p1, ?st)) = Some (h2, p2, st2)"
      "clist h2 p2 zs" "mset zs = mset xs" "hinfo h2 = hinfo h" "\<forall>a. a \<notin> set xs \<longrightarrow> hnext h2 a = hnext h a" "bench_ok D M r st2" by blast
  have "3 \<le> length zs" using l(2) 2(3) mset_eq_length by metis
  then obtain l1 item ret us where z: "zs = l1 # item # ret # us" using three_cells by blast
  have p2: "p2 = l1" using 2(2) z by simp
  note rm = remove_list [OF 2(2) [unfolded z]]
  define h3 where "h3 = fst (core_list_remove h2 item)"
  note rm = rm [folded h3_def]
  obtain q where q: "core_list_find h3 (b_data st2) l1 info = Some q" "q = 0 \<or> q \<in> set (l1 # item # us)"
    using core_list_find_in [OF rm(2)] by blast
  define q' where "q' = (if q = 0 then hnext h3 l1 else q)"
  have "\<exists>vs. lseg (hnext h3) q' vs 0"
    using q(2) lseg_suffix [OF rm(2)] rm(3) by (auto simp: q'_def)
  then obtain v1 where v1: "bench_list_crc h3 (data16 (b_data st2 (hinfo h3 l1))) q' (rt + (fnd * 4 - msd)) = Some v1"
    using bench_list_crc_returns by blast
  have "zs \<noteq> []" using z by simp
  moreover have "\<forall>a. idx (b_data st2 a) = idx (D a)" using bench_ok_idx [OF 2(6)] by simp
  ultimately obtain h4 p4 d where 4: "core_list_mergesort (cmp_idx True) h2 l1 (b_data st2) = Some (h4, p4, d)"
      "clist h4 p4 (sort_key ((\<lambda>a. sint (idx (D a))) \<circ> hinfo h2) zs)" "\<forall>a. idx (d a) = idx (D a)" "hinfo h4 = hinfo h2"
      "\<forall>a. a \<notin> set zs \<longrightarrow> hnext h4 a = hnext h2 a"
    using idx.mergesort_sorts [of "b_data st2" "\<lambda>a. idx (D a)" h2 p2 zs True] 2(2) p2 by auto
  have "sort_key ((\<lambda>a. sint (idx (D a))) \<circ> hinfo h2) zs = xs"
    using srt 2(3,4) mset_eq_setD [OF 2(3)] by (intro sort_key_inj_key_eq) (auto simp: comp_def)
  then have c4: "clist h4 p4 xs" using 4(2) by simp
  have "p4 = res_list (b_res st)" using c4 l(1) ne by (cases xs) auto
  then have h4: "h4 = h"
    using c4 l(1) 4(4,5) 2(4,5) mset_eq_setD [OF 2(3)] by (intro same_list_heap [of h "res_list (b_res st)" xs]) auto
  obtain x xs' where x: "xs = x # xs'" using ne by (cases xs) auto
  have pl: "res_list (b_res st) = x" using l(1) x by simp
  have "lseg (hnext h) (hnext h x) xs' 0" using l(1) x by simp
  then obtain v2 where v2: "bench_list_crc h (data16 (d (hinfo h x))) (hnext h x) v1 = Some v2"
    using bench_list_crc_returns by blast
  have "core_bench_list h st fi = Some (h, st2\<lparr>b_data := d\<rparr>, v2)"
    using 1(1) 2(1) rm(1,3,4) q(1) v1 4(1) h4 v2 \<open>p4 = res_list (b_res st)\<close> pl p2
    by (simp add: core_bench_list_def Let_def flip: q'_def h3_def)
  moreover have "\<forall>a. regen (b_data st2 a) = D a" using 2(6) by (simp add: bench_ok_def)
  then have f: "(\<forall>a. regen (d a) = D a) \<and> (\<forall>x\<in>set zs. regen (d (hinfo h2 x)) = d (hinfo h2 x))"
    using 2(2) p2 4(1) \<open>3 \<le> length zs\<close> by (intro fresh.mergesort_sees [of "b_data st2" D h2 l1 zs h4 p4 d]) simp_all
  then have "bench_ok D M r (st2\<lparr>b_data := d\<rparr>)"
    using 2(6) by (simp add: bench_ok_def)
  moreover have "\<forall>x\<in>set xs. d (hinfo h x) = D (hinfo h x)"
    using f 2(4) mset_eq_setD [OF 2(3)] by metis
  ultimately show ?thesis by (intro exI [of _ "st2\<lparr>b_data := d\<rparr>"] exI [of _ v2]) simp
qed

lemma iterate_once_eq:
  assumes ok: "bench_ok D M r st" and l: "clist h (res_list r) xs" "3 \<le> length xs"
    and srt: "sorted (map (\<lambda>x. sint (idx (D (hinfo h x)))) xs)" "inj_on (\<lambda>x. sint (idx (D (hinfo h x)))) (set xs)"
  shows "\<exists>st'. iterate_once first h st = Some (h, st') \<and> bench_ok D M r st'"
proof -
  have crc: "bench_ok D M r (st\<lparr>b_res := (b_res st)\<lparr>res_crc := c\<rparr>\<rparr>)" if "bench_ok D M r st" for st c
    by (rule bench_okI [OF that, of "(b_res st)\<lparr>res_crc := c\<rparr>"]) (simp_all add: same_setup_def)
  have crcl: "bench_ok D M r (st\<lparr>b_res := (b_res st)\<lparr>res_crclist := c\<rparr>\<rparr>)" if "bench_ok D M r st" for st c
    by (rule bench_okI [OF that, of "(b_res st)\<lparr>res_crclist := c\<rparr>"]) (simp_all add: same_setup_def)
  have b: "\<exists>st' v. core_bench_list h st fi = Some (h, st', v) \<and> bench_ok D M r st'" if "bench_ok D M r st" for st fi
  proof -
    have "res_list (b_res st) = res_list r" using that by (simp add: bench_ok_def same_setup_def)
    then show ?thesis using core_bench_list_eq [OF that _ l(2) srt] l(1) by (simp only:) blast
  qed
  obtain st1 v1 where 1: "core_bench_list h st 1 = Some (h, st1, v1)" "bench_ok D M r st1" using b [OF ok] by blast
  let ?st1 = "st1\<lparr>b_res := (b_res st1)\<lparr>res_crc := crcu16 v1 (res_crc (b_res st1))\<rparr>\<rparr>"
  obtain st2 v2 where 2: "core_bench_list h ?st1 (- 1) = Some (h, st2, v2)" "bench_ok D M r st2" using b [OF crc [OF 1(2)]] by blast
  from 1(1) 2(1) crc [OF 2(2)] crcl [OF crc [OF 2(2)]] show ?thesis
    by (simp add: iterate_once_def Let_def)
qed

lemma iterate_eq:
  assumes ok: "bench_ok D M r st" and l: "clist h (res_list r) xs" "3 \<le> length xs"
    and srt: "sorted (map (\<lambda>x. sint (idx (D (hinfo h x)))) xs)" "inj_on (\<lambda>x. sint (idx (D (hinfo h x)))) (set xs)"
  shows "\<exists>st'. iterate h st = Some (h, st') \<and> bench_ok D M r st'"
proof -
  let ?st = "st\<lparr>b_res := (b_res st)\<lparr>res_crc := 0, res_crclist := 0, res_crcmatrix := 0, res_crcstate := 0\<rparr>\<rparr>"
  have "bench_ok D M r ?st"
    by (rule bench_okI [OF ok, of "b_res ?st"]) (simp_all add: same_setup_def)
  then have "\<exists>s'. for_up 0 (res_iterations (b_res st)) (\<lambda>i (h, st). iterate_once (i = 0) h st) (h, ?st) = Some s'
      \<and> (fst s' = h \<and> bench_ok D M r (snd s'))"
    using iterate_once_eq [OF _ l srt]
    by (intro for_up_rule [of _ "\<lambda>k s. fst s = h \<and> bench_ok D M r (snd s)"]) fastforce+
  then show ?thesis by (auto simp: iterate_def)
qed

section \<open>The initial list\<close>

definition cell :: "addr \<Rightarrow> nat \<Rightarrow> addr" where
  "cell b j = b + of_nat (8 * j)"

definition data_cell :: "addr \<Rightarrow> nat \<Rightarrow> addr" where
  "data_cell b j = b + of_nat (4 * j)"

text \<open>After \<open>k\<close> inserts: the head, the cells from the newest to the oldest, and their data.\<close>

definition list_built :: "addr \<Rightarrow> addr \<Rightarrow> nat \<Rightarrow> list_heap \<Rightarrow> bool" where
  "list_built b c k h \<longleftrightarrow> clist h b (cell b 0 # map (cell b) (rev [1..<Suc k]))
     \<and> (\<forall>j\<le>k. hinfo h (cell b j) = data_cell c j)"

lemma unat_cell: "unat b + 8 * j < 4294967296 \<Longrightarrow> unat (cell b j) = unat b + 8 * j"
proof -
  assume "unat b + 8 * j < 4294967296"
  then have "unat (b + of_nat (8 * j)) = unat b + unat (of_nat (8 * j) :: u32)"
    by (subst unat_add_small) (simp_all only: unat_of_nat32)
  with \<open>unat b + 8 * j < 4294967296\<close> show ?thesis by (simp only: cell_def unat_of_nat32)
qed

lemma unat_data_cell: "unat b + 4 * j < 4294967296 \<Longrightarrow> unat (data_cell b j) = unat b + 4 * j"
proof -
  assume "unat b + 4 * j < 4294967296"
  then have "unat (b + of_nat (4 * j)) = unat b + unat (of_nat (4 * j) :: u32)"
    by (subst unat_add_small) (simp_all only: unat_of_nat32)
  with \<open>unat b + 4 * j < 4294967296\<close> show ?thesis by (simp only: data_cell_def unat_of_nat32)
qed

lemma cell_0: "cell b 0 = b"
  by (simp add: cell_def)

lemma cell_Suc: "cell b j + 8 = cell b (Suc j)" "data_cell c j + 4 = data_cell c (Suc j)"
  by (simp_all add: cell_def data_cell_def)

lemma insert_new_step:
  assumes b: "0 < b" "unat b + 8 * n < 4294967296" and c: "unat c + 4 * n < 4294967296"
    and k: "k + 2 \<le> n" and inv: "list_built b c k h"
  shows "\<exists>h' d' q k'. core_list_insert_new h d b info (cell b (Suc k)) (data_cell c (Suc k)) (cell b n) (data_cell c n)
      = (h', d', q, cell b (Suc k'), data_cell c (Suc k')) \<and> list_built b c k' h' \<and> k' = (if k + 2 < n then Suc k else k)
      \<and> (\<forall>j\<le>k. d' (data_cell c j) = d (data_cell c j)) \<and> (k + 2 < n \<longrightarrow> idx (d' (data_cell c (Suc k))) = idx info)"
proof -
  have u: "unat (cell b j) = unat b + 8 * j" "unat (data_cell c j) = unat c + 4 * j" if "j \<le> n" for j
    using b c that by (auto intro!: unat_cell unat_data_cell)
  have full: "cell b (Suc k) + 8 \<ge> cell b n \<longleftrightarrow> \<not> k + 2 < n" "data_cell c (Suc k) + 4 \<ge> data_cell c n \<longleftrightarrow> \<not> k + 2 < n"
    unfolding cell_Suc word_le_nat_alt using u [of "Suc (Suc k)"] u [of n] k by auto
  show ?thesis
  proof (cases "k + 2 < n")
    case False
    with full inv show ?thesis by (simp add: core_list_insert_new_def)
  next
    case True
    have new: "cell b (Suc k) \<noteq> cell b j" if "j \<le> k" for j
    proof
      assume "cell b (Suc k) = cell b j"
      then have "unat (cell b (Suc k)) = unat (cell b j)" by simp
      with u(1) [of "Suc k"] u(1) [of j] that True show False by simp
    qed
    have b0: "cell b 0 = b" by (simp add: cell_def)
    let ?m = "cell b (Suc k)" and ?ds = "map (cell b) (rev [1..<Suc k])"
    let ?nx = "(hnext h)(?m := hnext h b, b := ?m)"
    have nz: "?m \<noteq> 0"
    proof
      assume "?m = 0"
      then have "unat ?m = 0" by simp
      with u(1) [of "Suc k"] True show False by simp
    qed
    have ds: "?m \<notin> set ?ds" "b \<notin> set ?ds" "?m \<noteq> b"
    proof -
      show "?m \<notin> set ?ds"
      proof
        assume "?m \<in> set ?ds"
        then obtain j where "j \<le> k" "?m = cell b j" by (auto simp: less_Suc_eq_le simp del: upt_Suc)
        with new show False by blast
      qed
      have "cell b j \<noteq> b" if "1 \<le> j" "j \<le> k" for j
      proof
        assume "cell b j = b"
        then have "unat (cell b j) = unat b" by simp
        with u(1) [of j] that True show False by simp
      qed
      then have "b \<noteq> cell b j" if "1 \<le> j" "j \<le> k" for j using that by metis
      then show "b \<notin> set ?ds" by (auto simp: less_Suc_eq_le simp del: upt_Suc)
      show "?m \<noteq> b" using new [of 0] by (simp add: b0)
    qed
    have "lseg (hnext h) (hnext h b) ?ds 0" using inv by (simp add: list_built_def b0)
    then have "lseg ?nx (hnext h b) ?ds 0" using ds by (simp del: fun_upd_apply)
    moreover have "?nx ?m = hnext h b" "?nx b = ?m" "b \<noteq> 0" using ds(3) b(1) by auto
    ultimately have "lseg ?nx b (cell b 0 # map (cell b) (rev [1..<Suc (Suc k)])) 0"
      using nz by (simp add: b0)
    moreover have "((hinfo h)(?m := data_cell c (Suc k))) (cell b j) = data_cell c j" if "j \<le> Suc k" for j
    proof (cases "j = Suc k")
      case False
      then have "j \<le> k" using that by simp
      moreover from this have "cell b j \<noteq> ?m" using new by metis
      ultimately show ?thesis using inv by (simp add: list_built_def)
    qed simp
    ultimately have "list_built b c (Suc k) (h\<lparr>hnext := ?nx, hinfo := (hinfo h)(?m := data_cell c (Suc k))\<rparr>)"
      by (simp add: list_built_def b0 del: upt_Suc fun_upd_apply)
    moreover have "data_cell c j \<noteq> data_cell c (Suc k)" if "j \<le> k" for j
    proof
      assume "data_cell c j = data_cell c (Suc k)"
      then have "unat (data_cell c j) = unat (data_cell c (Suc k))" by simp
      with u(2) [of "Suc k"] u(2) [of j] that True show False by simp
    qed
    ultimately show ?thesis
      using True full by (simp add: core_list_insert_new_def copy_info_def Let_def cell_Suc ds(3)[symmetric])
  qed
qed

lemma init_inserts_built:
  assumes b: "0 < b" "unat b + 8 * unat n < 4294967296" and c: "unat c + 4 * unat n < 4294967296"
  shows "list_built b c k h \<Longrightarrow> k + 2 \<le> unat n \<Longrightarrow> unat n \<le> k + 2 + (unat n - unat i) \<Longrightarrow>
    \<exists>h' d'. init_inserts seed n i b (cell b (unat n)) (data_cell c (unat n)) info h d (cell b (Suc k)) (data_cell c (Suc k)) = (h', d')
      \<and> list_built b c (unat n - 2) h' \<and> (\<forall>j\<le>k. d' (data_cell c j) = d (data_cell c j))"
proof (induction "unat n - unat i" arbitrary: i k h d info rule: less_induct)
  case less
  show ?case
  proof (cases "i < n")
    case False
    then have "k = unat n - 2" using less.prems(2,3) by (simp add: word_less_nat_alt)
    with False less.prems(1) show ?thesis by (simp add: init_inserts.simps [of seed n i])
  next
    case True
    then have u: "unat (i + 1) = Suc (unat i)" "unat i < unat n"
      by (simp_all add: unat_plus_one_less word_less_nat_alt)
    define info' where "info' = info\<lparr>data16 := init_data seed i\<rparr>"
    obtain h1 d1 q k' where 1: "core_list_insert_new h d b info' (cell b (Suc k)) (data_cell c (Suc k)) (cell b (unat n)) (data_cell c (unat n))
        = (h1, d1, q, cell b (Suc k'), data_cell c (Suc k'))" "list_built b c k' h1" "k' = (if k + 2 < unat n then Suc k else k)"
        "\<forall>j\<le>k. d1 (data_cell c j) = d (data_cell c j)"
      using insert_new_step [OF b c less.prems(2,1)] by blast
    have "\<exists>h' d'. init_inserts seed n (i + 1) b (cell b (unat n)) (data_cell c (unat n)) info' h1 d1 (cell b (Suc k')) (data_cell c (Suc k')) = (h', d')
      \<and> list_built b c (unat n - 2) h' \<and> (\<forall>j\<le>k'. d' (data_cell c j) = d1 (data_cell c j))"
      using 1(2,3) u less.prems(2,3) by (intro less.hyps) auto
    then obtain h' d' where 2: "init_inserts seed n (i + 1) b (cell b (unat n)) (data_cell c (unat n)) info' h1 d1 (cell b (Suc k')) (data_cell c (Suc k')) = (h', d')"
      "list_built b c (unat n - 2) h'" "\<forall>j\<le>k'. d' (data_cell c j) = d1 (data_cell c j)" by blast
    have "k \<le> k'" using 1(3) by simp
    with 1(4) 2(3) have "\<forall>j\<le>k. d' (data_cell c j) = d (data_cell c j)" by simp
    with True 1(1) 2(1,2) show ?thesis
      by (simp add: init_inserts.simps [of seed n i] Let_def flip: info'_def)
  qed
qed

text \<open>The number given to the item at position \<open>i\<close>, and the items numbered in a row.\<close>

definition item_idx :: "u16 \<Rightarrow> u32 \<Rightarrow> u32 \<Rightarrow> u16" where
  "item_idx seed sz i =
     (if i < sz div 5 then ucast i
      else 0x3fff AND (ucast (push_bit 8 ((i + 1) AND 7)) OR ucast (i XOR scast seed)))"

fun number_items :: "(nat \<Rightarrow> u16) \<Rightarrow> nat \<Rightarrow> (addr \<Rightarrow> list_data) \<Rightarrow> addr list \<Rightarrow> (addr \<Rightarrow> list_data)" where
  "number_items f i d [] = d"
| "number_items f i d (a # as) = number_items f (Suc i) (d(a := (d a)\<lparr>idx := f i\<rparr>)) as"

lemma number_items_outside: "a \<notin> set as \<Longrightarrow> number_items f i d as a = d a"
  by (induction as arbitrary: i d) auto

lemma number_items_idx: "distinct as \<Longrightarrow> k < length as \<Longrightarrow> idx (number_items f i d as (as ! k)) = f (i + k)"
proof (induction as arbitrary: i d k)
  case (Cons a as)
  then show ?case by (cases k) (auto simp: number_items_outside)
qed simp

lemma number_items_rev:
  assumes inj: "\<And>i j. i < n \<Longrightarrow> j < n \<Longrightarrow> c i = c j \<longleftrightarrow> i = j" and j: "j < n - 1"
  shows "idx (number_items f 1 d (map c (rev [2..<n - 1])) (c j)) = (if j < 2 then idx (d (c j)) else f (n - 1 - j))"
proof (cases "j < 2")
  case True
  then have "c j \<notin> set (map c (rev [2..<n - 1]))" using inj j by force
  with True show ?thesis by (simp add: number_items_outside)
next
  case False
  let ?k = "n - 2 - j"
  have "2 + (length [2..<n - 1] - Suc ?k) = j" using False j by simp
  then have "map c (rev [2..<n - 1]) ! ?k = c j" using False j by (simp add: rev_nth del: upt_Suc)
  moreover have "inj_on c {2..<n - 1}" using inj by (auto intro!: inj_onI)
  then have "distinct (map c (rev [2..<n - 1]))" by (simp add: distinct_map)
  ultimately show ?thesis
    using number_items_idx [of "map c (rev [2..<n - 1])" ?k f 1 d] False j by (simp add: Suc_diff_Suc)
qed

lemma init_index_eq:
  "lseg (hnext h) q (xs @ [t]) 0 \<Longrightarrow>
   init_index seed sz (of_nat i) h d q = Some (number_items (\<lambda>i. item_idx seed sz (of_nat i)) i d (map (hinfo h) xs))"
proof (induction xs arbitrary: q i d)
  case Nil
  then show ?case by (simp add: init_index.simps [of _ _ _ h])
next
  case (Cons x xs)
  have "hnext h x \<noteq> 0" using Cons.prems by (cases xs) auto
  moreover have "init_index seed sz (of_nat (Suc i)) h d' (hnext h x) =
      Some (number_items (\<lambda>i. item_idx seed sz (of_nat i)) (Suc i) d' (map (hinfo h) xs))" for d'
    using Cons.prems by (intro Cons.IH) simp
  ultimately show ?case
    using Cons.prems by (subst init_index.simps) (simp add: item_idx_def Let_def add.commute)
qed

text \<open>The index of the data of cell \<open>j\<close> in a list of \<open>n - 1\<close> cells.\<close>

definition list_idx :: "u16 \<Rightarrow> nat \<Rightarrow> nat \<Rightarrow> u16" where
  "list_idx seed n j =
     (if j = 0 then 0 else if j = 1 then 0x7fff else item_idx seed (of_nat n) (of_nat (n - 1 - j)))"

lemma core_list_init_eq:
  assumes m: "0 < b" "unat b + 12 * n < 4294967296" and n: "3 \<le> n" "n = unat blksize div 20 - 2"
  shows "\<exists>h' d' p xs. core_list_init h d blksize b seed = Some (h', d', p) \<and> clist h' p xs
    \<and> set xs = cell b ` {..<n - 1} \<and> length xs = n - 1 \<and> (\<forall>j<n - 1. hinfo h' (cell b j) = data_cell (cell b n) j)
    \<and> (\<forall>j<n - 1. idx (d' (data_cell (cell b n) j)) = list_idx seed n j)
    \<and> sorted (map (\<lambda>x. sint (idx (d' (hinfo h' x)))) xs)
    \<and> (\<forall>x\<in>set xs. regen (d' (hinfo h' x)) = d' (hinfo h' x))"
proof -
  define sz where "sz = blksize div (16 + 4) - 2"
  have "unat (blksize div 20) = unat blksize div 20" by (simp add: unat_div)
  then have sz: "unat sz = n" using n by (simp add: sz_def unat_sub_if_size word_le_nat_alt)
  let ?c = "cell b n"
  have c: "unat ?c = unat b + 8 * n" using m by (intro unat_cell) simp
  have bs: "b + 8 * sz = cell b n" "?c + 4 * sz = data_cell ?c n"
    unfolding cell_def data_cell_def sz [symmetric] by simp_all
  have b1: "b + 8 = cell b (Suc 0)" "?c + 4 = data_cell ?c (Suc 0)" by (simp_all add: cell_def data_cell_def)
  have cu: "unat ?c + 4 * n < 4294967296" using c m by simp
  define h0 where "h0 = h\<lparr>hnext := (hnext h)(b := 0), hinfo := (hinfo h)(b := ?c)\<rparr>"
  have "list_built b ?c 0 h0" using m(1) by (simp add: list_built_def h0_def cell_def data_cell_def)
  then obtain h1 d1 q k1 where 1: "core_list_insert_new h0 (d(?c := \<lparr>data16 = 0x8080, idx = 0\<rparr>)) b \<lparr>data16 = 0xffff, idx = 0x7fff\<rparr>
      (cell b (Suc 0)) (data_cell ?c (Suc 0)) (cell b n) (data_cell ?c n) = (h1, d1, q, cell b (Suc k1), data_cell ?c (Suc k1))"
      "list_built b ?c k1 h1" "k1 = (if 0 + 2 < n then Suc 0 else 0)"
      "\<forall>j\<le>0. d1 (data_cell ?c j) = (d(?c := \<lparr>data16 = 0x8080, idx = 0\<rparr>)) (data_cell ?c j)"
      "0 + 2 < n \<longrightarrow> idx (d1 (data_cell ?c (Suc 0))) = 0x7fff"
    using insert_new_step [of b n ?c 0 h0 "d(?c := \<lparr>data16 = 0x8080, idx = 0\<rparr>)" "\<lparr>data16 = 0xffff, idx = 0x7fff\<rparr>"] m cu n(1)
    by (simp del: fun_upd_apply) blast
  have k1: "k1 = 1" using 1(3) n(1) by simp
  have d1: "idx (d1 (data_cell ?c 0)) = 0" "idx (d1 (data_cell ?c 1)) = 0x7fff"
    using 1(4,5) n(1) by (simp_all add: data_cell_def)
  have "\<exists>h2 d2. init_inserts seed sz 0 b (cell b n) (data_cell ?c n) \<lparr>data16 = 0xffff, idx = 0x7fff\<rparr> h1 d1 (cell b (Suc k1)) (data_cell ?c (Suc k1)) = (h2, d2)
      \<and> list_built b ?c (n - 2) h2 \<and> (\<forall>j\<le>k1. d2 (data_cell ?c j) = d1 (data_cell ?c j))"
    using init_inserts_built [of b sz ?c k1 h1 0 seed "\<lparr>data16 = 0xffff, idx = 0x7fff\<rparr>" d1] 1(2) m cu n(1) k1 by (simp add: sz)
  then obtain h2 d2 where 2: "init_inserts seed sz 0 b (cell b n) (data_cell ?c n) \<lparr>data16 = 0xffff, idx = 0x7fff\<rparr> h1 d1 (cell b (Suc k1)) (data_cell ?c (Suc k1)) = (h2, d2)"
      "list_built b ?c (n - 2) h2" "\<forall>j\<le>k1. d2 (data_cell ?c j) = d1 (data_cell ?c j)" by blast
  define ys where "ys = map (cell b) (rev [1..<n - 1])"
  have n2: "Suc (n - 2) = n - 1" using n(1) by simp
  have l2: "clist h2 b (cell b 0 # ys)" "\<forall>j\<le>n - 2. hinfo h2 (cell b j) = data_cell ?c j"
    using 2(2) unfolding list_built_def n2 ys_def by (simp_all add: cell_0)
  define js where "js = rev [2..<n - 1]"
  have "[1..<n - 1] = 1 # [2..<n - 1]" using n(1) by (simp add: upt_conv_Cons numeral_2_eq_2)
  then have ys: "ys = map (cell b) js @ [cell b 1]" by (simp add: ys_def js_def)
  have "lseg (hnext h2) (hnext h2 b) ys 0" using l2(1) by auto
  then have 3: "init_index seed sz 1 h2 d2 (hnext h2 b) =
      Some (number_items (\<lambda>i. item_idx seed sz (of_nat i)) 1 d2 (map (hinfo h2) (map (cell b) js)))" (is "_ = Some ?d3")
    unfolding ys using init_index_eq [of h2 "hnext h2 b" "map (cell b) js" "cell b 1" seed sz 1 d2] by simp
  define d3 where "d3 = ?d3"
  have "map (hinfo h2) (map (cell b) js) = map (data_cell ?c) js"
    using l2(2) n(1) by (auto simp: js_def)
  moreover have "of_nat n = sz" unfolding sz [symmetric] by simp
  ultimately have d3: "d3 = number_items (\<lambda>i. item_idx seed (of_nat n) (of_nat i)) 1 d2 (map (data_cell ?c) (rev [2..<n - 1]))"
    by (simp only: d3_def js_def)
  have inj: "data_cell ?c i = data_cell ?c j \<longleftrightarrow> i = j" if "i < n" "j < n" for i j
  proof -
    have "unat (data_cell ?c i) = unat ?c + 4 * i" "unat (data_cell ?c j) = unat ?c + 4 * j"
      using that cu by (auto intro!: unat_data_cell)
    then show ?thesis by (metis add_left_cancel mult_cancel1 zero_neq_numeral)
  qed
  have idx3: "idx (d3 (data_cell ?c j)) = list_idx seed n j" if "j < n - 1" for j
    using number_items_rev [of n "data_cell ?c" j "\<lambda>i. item_idx seed (of_nat n) (of_nat i)" d2, OF inj that, folded d3] d1 2(3) k1
    by (auto simp: list_idx_def less_2_cases_iff)
  have "\<forall>a. idx (d3 a) = (\<lambda>a. idx (d3 a)) a" by simp
  from idx.mergesort_sorts [OF this l2(1), of True]
  obtain h4 p4 d4 where 4: "core_list_mergesort (cmp_idx True) h2 b d3 = Some (h4, p4, d4)"
      "clist h4 p4 (sort_key ((\<lambda>a. sint (idx (d3 a))) \<circ> hinfo h2) (cell b 0 # ys))" "\<forall>a. idx (d4 a) = idx (d3 a)" "hinfo h4 = hinfo h2"
    by auto
  have "(\<forall>a. regen (d4 a) = regen (d3 a)) \<and> (\<forall>x\<in>set (cell b 0 # ys). regen (d4 (hinfo h2 x)) = d4 (hinfo h2 x))"
    by (rule fresh.mergesort_sees [OF _ l2(1) _ 4(1)]) (use n(1) in \<open>simp_all add: ys_def\<close>)
  then have fr: "\<forall>x\<in>set (cell b 0 # ys). regen (d4 (hinfo h4 x)) = d4 (hinfo h4 x)" unfolding 4(4) by (rule conjunct2)
  have "core_list_init h d blksize b seed = Some (h4, d4, p4)"
    by (simp only: core_list_init_def Let_def bs b1 1(1) 2(1) 3 4(1)[unfolded d3_def] prod.case bind.bind_lunit flip: sz_def h0_def)
  moreover have "{..<n - 1} = insert 0 {1..<n - 1}" using n(1) by auto
  then have "set (sort_key ((\<lambda>a. sint (idx (d3 a))) \<circ> hinfo h2) (cell b 0 # ys)) = cell b ` {..<n - 1}"
    by (simp add: ys_def del: sort_key_simps)
  moreover have "length (cell b 0 # ys) = n - 1" using n(1) by (simp add: ys_def)
  ultimately show ?thesis
    using 4 l2(2) n2 idx3 fr by (intro exI conjI) (auto simp: comp_def simp del: sort_key_simps)
qed

section \<open>Properties\<close>

text \<open>A list of three cells, for the witnesses.\<close>

definition demo_heap :: list_heap where
  "demo_heap = \<lparr>hnext = (\<lambda>_. 0)(0x1000 := 0x1008, 0x1008 := 0x1010), hinfo = (\<lambda>a. a)\<rparr>"

definition demo_state :: bench_state where
  "demo_state = \<lparr>b_data = (\<lambda>a. \<lparr>data16 = 0, idx = ucast a\<rparr>), b_mem = write_bytes (\<lambda>_. 0) 0x2000 (state_block 666 0),
     b_res = \<lparr>res_seed1 = 0, res_seed2 = 0, res_seed3 = 0x66, res_block3 = 0x2000, res_size = 666, res_iterations = 10,
       res_execs = 7, res_list = 0x1000, res_mat = \<lparr>mat_N = 0, mat_A = [], mat_B = [], mat_C = []\<rparr>,
       res_crc = 0, res_crclist = 0, res_crcmatrix = 0, res_crcstate = 0, res_err = 0\<rparr>, b_undef = (\<lambda>_. 0)\<rparr>"

lemma demo_list: "clist demo_heap 0x1000 [0x1000, 0x1008, 0x1010]"
  by (simp add: demo_heap_def)

lemma demo_ok:
  "bench_ok (\<lambda>a. regen (b_data demo_state a)) (b_mem demo_state) (b_res demo_state) demo_state"
  using safe_seeds(1)
  by (auto simp: bench_ok_def same_setup_def setup_ok_def demo_state_def)

lemma demo_sorted:
  "sorted (map (\<lambda>x. sint (idx (b_data demo_state (hinfo demo_heap x)))) [0x1000, 0x1008, 0x1010])"
  "inj_on (\<lambda>x. sint (idx (b_data demo_state (hinfo demo_heap x)))) (set [0x1000, 0x1008, 0x1010])"
  by (simp_all add: demo_heap_def demo_state_def)

text \<open>C33: \<open>core_list_mergesort\<close> with \<open>cmp_idx\<close> returns the list of the same cells in the order of the
  stable sort by the signed index; no index, no \<open>info\<close> pointer and no other cell changes.\<close>

theorem mergesort_by_idx:
  assumes "clist h p xs" and "xs \<noteq> []"
  shows "\<exists>h' p' d'. core_list_mergesort (cmp_idx n) h p d = Some (h', p', d')
    \<and> clist h' p' (sort_key (\<lambda>x. sint (idx (d (hinfo h x)))) xs)
    \<and> (\<forall>a. idx (d' a) = idx (d a)) \<and> hinfo h' = hinfo h \<and> (\<forall>a. a \<notin> set xs \<longrightarrow> hnext h' a = hnext h a)"
  using idx.mergesort_sorts [of d "\<lambda>a. idx (d a)" h p xs n] assms by (simp add: comp_def)

theorem mergesort_by_idx_witness:
  "\<exists>h' p' d'. core_list_mergesort (cmp_idx True) demo_heap 0x1000 (\<lambda>a. \<lparr>data16 = 0, idx = - ucast a\<rparr>) = Some (h', p', d')
    \<and> clist h' p' [0x1010, 0x1008, 0x1000]"
proof -
  let ?d = "\<lambda>a :: addr. \<lparr>data16 = 0, idx = - ucast a\<rparr>"
  obtain h' p' d' where m: "core_list_mergesort (cmp_idx True) demo_heap 0x1000 ?d = Some (h', p', d')"
    and l: "clist h' p' (sort_key (\<lambda>x. sint (idx (?d (hinfo demo_heap x)))) [0x1000, 0x1008, 0x1010])"
    using mergesort_by_idx [OF demo_list, of True ?d] by auto
  have "sort_key (\<lambda>x. sint (idx (?d (hinfo demo_heap x)))) [0x1000, 0x1008, 0x1010] = [0x1010, 0x1008, 0x1000 :: addr]"
    by (simp add: demo_heap_def)
  with m l show ?thesis by auto
qed

text \<open>\<open>core_list_reverse\<close> reverses the list in place.\<close>

theorem core_list_reverse_reverses:
  assumes "clist h p xs"
  shows "\<exists>h' p'. core_list_reverse h p = Some (h', p') \<and> clist h' p' (rev xs)
    \<and> hinfo h' = hinfo h \<and> (\<forall>a. a \<notin> set xs \<longrightarrow> hnext h' a = hnext h a)"
  using assms by (rule core_list_reverse_eq)

theorem core_list_reverse_reverses_witness:
  "\<exists>h' p'. core_list_reverse demo_heap 0x1000 = Some (h', p') \<and> clist h' p' [0x1010, 0x1008, 0x1000]"
  using core_list_reverse_reverses [OF demo_list] by auto

text \<open>C30: the list benchmark returns, for every index to find and whatever its uninitialised variable holds, and
  at its end the list is back in its original state: the heap of cells is as it was, and so are the data and the index of
  every cell, which the last sort regenerates.  The block of the state benchmark, the matrices \<open>A\<close> and \<open>B\<close>, the seeds and
  the sizes are as they were; the matrix \<open>C\<close> and the checksums change.  The list must be in the order
  of distinct indices with regenerated data, as \<open>core_list_init\<close> returns it, and the seeds equal and safe.\<close>

theorem core_bench_list_restores:
  assumes "setup_ok (b_mem st) (b_res st)" and "clist h (res_list (b_res st)) xs" and "3 \<le> length xs"
    and "sorted (map (\<lambda>x. sint (idx (b_data st (hinfo h x)))) xs)" and "inj_on (\<lambda>x. sint (idx (b_data st (hinfo h x)))) (set xs)"
    and "\<forall>x\<in>set xs. regen (b_data st (hinfo h x)) = b_data st (hinfo h x)"
  shows "\<exists>st' v. core_bench_list h st finder_idx = Some (h, st', v)
    \<and> (\<forall>x\<in>set xs. b_data st' (hinfo h x) = b_data st (hinfo h x))
    \<and> b_mem st' = b_mem st \<and> same_setup (b_res st) (b_res st')"
proof -
  have "bench_ok (\<lambda>a. regen (b_data st a)) (b_mem st) (b_res st) st"
    using assms(1) by (simp add: bench_ok_def same_setup_def)
  from core_bench_list_eq [OF this assms(2,3), of finder_idx] assms(4-6) show ?thesis
    by (auto simp: bench_ok_def)
qed

theorem core_bench_list_restores_witness:
  "\<exists>st' v. core_bench_list demo_heap demo_state 1 = Some (demo_heap, st', v) \<and> b_mem st' = b_mem demo_state
    \<and> b_data st' 0x1008 = b_data demo_state 0x1008"
proof -
  have l: "clist demo_heap (res_list (b_res demo_state)) [0x1000, 0x1008, 0x1010]"
    using demo_list by (simp add: demo_state_def)
  have s: "setup_ok (b_mem demo_state) (b_res demo_state)" using demo_ok by (simp add: bench_ok_def)
  have "regen (b_data demo_state a) = b_data demo_state a" for a by (simp add: regen_def demo_state_def)
  then have "\<forall>x\<in>set [0x1000, 0x1008, 0x1010]. regen (b_data demo_state (hinfo demo_heap x)) = b_data demo_state (hinfo demo_heap x)"
    by blast
  from core_bench_list_restores [OF s l _ demo_sorted this, of 1] obtain st' v where
    "core_bench_list demo_heap demo_state 1 = Some (demo_heap, st', v)" "b_mem st' = b_mem demo_state"
    "\<forall>x\<in>set [0x1000, 0x1008, 0x1010]. b_data st' (hinfo demo_heap x) = b_data demo_state (hinfo demo_heap x)" by auto
  moreover from this(3) have "b_data st' 0x1008 = b_data demo_state 0x1008" by (simp add: demo_heap_def)
  ultimately show ?thesis by blast
qed

text \<open>\<open>iterate\<close> returns for every number of iterations, with the list as it was.\<close>

theorem iterate_returns:
  assumes "bench_ok D M r st" and "clist h (res_list r) xs" and "3 \<le> length xs"
    and "sorted (map (\<lambda>x. sint (idx (D (hinfo h x)))) xs)" and "inj_on (\<lambda>x. sint (idx (D (hinfo h x)))) (set xs)"
  shows "\<exists>st'. iterate h st = Some (h, st') \<and> bench_ok D M r st'"
  using assms by (rule iterate_eq)

theorem iterate_returns_witness: "\<exists>st'. iterate demo_heap demo_state = Some (demo_heap, st')"
proof -
  have "clist demo_heap (res_list (b_res demo_state)) [0x1000, 0x1008, 0x1010]"
    using demo_list by (simp add: demo_state_def)
  from iterate_returns [OF demo_ok this] demo_sorted show ?thesis by auto
qed

text \<open>C34: \<open>core_list_init\<close> returns the list of all its cells, one less than the number of data that fit,
  every cell with its own data and the index of its place, in the order of the indices, all data regenerated.  The
  indices of the mixed items need not be greater than those of the items in sequence (see the witness), and the
  last inserts find no room.\<close>

theorem core_list_init_list:
  assumes "0 < b" and "unat b + 12 * n < 4294967296" and "3 \<le> n" and "n = unat blksize div 20 - 2"
  shows "\<exists>h' d' p xs. core_list_init h d blksize b seed = Some (h', d', p) \<and> clist h' p xs
    \<and> set xs = cell b ` {..<n - 1} \<and> length xs = n - 1 \<and> (\<forall>j<n - 1. hinfo h' (cell b j) = data_cell (cell b n) j)
    \<and> (\<forall>j<n - 1. idx (d' (data_cell (cell b n) j)) = list_idx seed n j)
    \<and> sorted (map (\<lambda>x. sint (idx (d' (hinfo h' x)))) xs)
    \<and> (\<forall>x\<in>set xs. regen (d' (hinfo h' x)) = d' (hinfo h' x))"
  using assms by (rule core_list_init_eq)

text \<open>With the seed 14 item 15 of the list, a mixed one, has the index 1, before the 5 of item 5 in sequence.\<close>

theorem core_list_init_list_witness:
  "\<exists>h' d' p xs. core_list_init demo_heap (b_data demo_state) 666 0x80001000 14 = Some (h', d', p) \<and> clist h' p xs \<and> length xs = 30
    \<and> idx (d' (data_cell (cell 0x80001000 31) 15)) = 1 \<and> idx (d' (data_cell (cell 0x80001000 31) 25)) = 5"
proof -
  have p: "(0 :: u32) < 0x80001000" "unat (0x80001000 :: u32) + 12 * 31 < 4294967296" "3 \<le> (31 :: nat)"
    "(31 :: nat) = unat (666 :: u32) div 20 - 2" by simp_all
  obtain h' d' p xs where r: "core_list_init demo_heap (b_data demo_state) 666 0x80001000 14 = Some (h', d', p)" "clist h' p xs"
    and l: "length xs = 31 - 1"
    and i: "\<forall>j<31 - 1. idx (d' (data_cell (cell 0x80001000 31) j)) = list_idx 14 31 j"
    using core_list_init_list [OF p, of demo_heap "b_data demo_state" 14] by blast
  have "list_idx 14 31 15 = 1" "list_idx 14 31 25 = 5" by (simp_all add: list_idx_def item_idx_def)
  then have "idx (d' (data_cell (cell 0x80001000 31) 15)) = 1" "idx (d' (data_cell (cell 0x80001000 31) 25)) = 5"
    using mp [OF spec [OF i, of 15]] mp [OF spec [OF i, of 25]] by simp_all
  moreover have "length xs = 30" using l by simp
  ultimately show ?thesis using r by blast
qed

end
