(* ===== verification/CoreMain.thy ===== *)
theory CoreMain
  imports CoreBench Board
begin

text \<open>
  The main program of CoreMark, \<^verbatim>\<open>bench/coremark/core_main.c\<close>, the timing functions of
  \<^verbatim>\<open>core_portme.c\<close> and the shell \<^verbatim>\<open>shell3.c\<close>, for the settings of the build: one context,
  seeds from arguments, the memory block on the stack, no floating point.  The world holds the list
  cells and the state of the benchmarks; its results are, before \<open>core_mark\<close> sets them, what was on the
  stack.
\<close>

unbundle bit_operations_syntax

section \<open>The program\<close>

record cm_world =
  cw_heap :: list_heap
  cw_state :: bench_state

text \<open>The addresses of the strings \<open>COMPILER_VERSION\<close>, \<open>COMPILER_FLAGS\<close> and \<open>MEM_LOCATION\<close>, of
  \<open>stack_memblock\<close>, and the value of the variable \<open>total_time\<close>, which is never set.\<close>

record cm_env =
  compiler_version :: u32
  compiler_flags :: u32
  mem_location :: u32
  stack_memblock :: addr
  total_time :: u32

definition TOTAL_DATA_SIZE :: u32 where "TOTAL_DATA_SIZE = 2000"

definition list_known_crc :: "u16 list" where
  "list_known_crc = [0xd4b0, 0x3340, 0x6a79, 0xe714, 0xe3c1]"

definition matrix_known_crc :: "u16 list" where
  "matrix_known_crc = [0xbe52, 0x1199, 0x5608, 0x1fd7, 0x0747]"

definition state_known_crc :: "u16 list" where
  "state_known_crc = [0x5e47, 0x39bf, 0xe5a4, 0x8e3a, 0x8d84]"

definition get_time :: "timespec \<Rightarrow> timespec \<Rightarrow> u32" where
  "get_time stop_time_val start_time_val =
     (tv_sec stop_time_val - tv_sec start_time_val) * (1000000000 div 1000000)
     + (tv_nsec stop_time_val - tv_nsec start_time_val) div 1000000"

definition time_in_secs :: "u32 \<Rightarrow> u32" where
  "time_in_secs ticks = ticks div (1000000000 div 1000000)"

text \<open>The seeds, the number of iterations and the algorithms from the first five arguments.\<close>

definition cm_seeds :: "u32 list \<Rightarrow> core_results \<Rightarrow> core_results" where
  "cm_seeds argv r =
     (let r = r\<lparr>res_seed1 := ucast (argv ! 0), res_seed2 := ucast (argv ! 1), res_seed3 := ucast (argv ! 2),
                res_iterations := argv ! 3, res_execs := argv ! 4\<rparr>;
          r = (if res_execs r = 0 then r\<lparr>res_execs := 7\<rparr> else r);
          r = (if res_seed1 r = 0 \<and> res_seed2 r = 0 \<and> res_seed3 r = 0
               then r\<lparr>res_seed1 := 0, res_seed2 := 0, res_seed3 := 0x66\<rparr> else r);
          r = (if res_seed1 r = 1 \<and> res_seed2 r = 0 \<and> res_seed3 r = 0
               then r\<lparr>res_seed1 := 0x3415, res_seed2 := 0x3415, res_seed3 := 0x66\<rparr> else r)
      in r\<lparr>res_err := 0\<rparr>)"

text \<open>The algorithms with a number below \<open>i\<close>, the size of a part and where part \<open>i\<close> lies.\<close>

definition cm_selected :: "u32 \<Rightarrow> nat \<Rightarrow> nat" where
  "cm_selected execs i = length (filter (bit execs) [0..<i])"

definition cm_size :: "u32 \<Rightarrow> u32 option" where
  "cm_size execs = (if cm_selected execs 3 = 0 then None else Some (TOTAL_DATA_SIZE div of_nat (cm_selected execs 3)))"

definition cm_block :: "cm_env \<Rightarrow> u32 \<Rightarrow> u32 \<Rightarrow> nat \<Rightarrow> addr" where
  "cm_block env sz execs i = stack_memblock env + sz * of_nat (cm_selected execs i)"

definition cm_inits :: "cm_env \<Rightarrow> core_results \<Rightarrow> cm_world \<Rightarrow> cm_world option" where
  "cm_inits env r w =
     do { sz \<leftarrow> cm_size (res_execs r);
          let r = r\<lparr>res_size := sz\<rparr>;
          let st = cw_state w;
          let block = cm_block env sz (res_execs r);
          (h, d, list) \<leftarrow> (if bit (res_execs r) 0 then core_list_init (cw_heap w) (b_data st) sz (block 0) (res_seed1 r)
                           else Some (cw_heap w, b_data st, res_list r));
          mat \<leftarrow> (if bit (res_execs r) 1
                  then do { (p, _) \<leftarrow> core_init_matrix (b_mem st) sz (block 1)
                               (scast (res_seed1 r) OR push_bit 16 (scast (res_seed2 r)));
                            Some p }
                  else Some (res_mat r));
          (m, block3) \<leftarrow> (if bit (res_execs r) 2
                          then do { m \<leftarrow> core_init_state (b_mem st) sz (res_seed1 r) (block 2); Some (m, block 2) }
                          else Some (b_mem st, res_block3 r));
          Some \<lparr>cw_heap = h, cw_state = \<lparr>b_data = d, b_mem = m,
                 b_res = r\<lparr>res_list := list, res_mat := mat, res_block3 := block3\<rparr>, b_undef = b_undef st\<rparr>\<rparr> }"

definition cm_iterate :: "cm_world \<Rightarrow> cm_world option" where
  "cm_iterate w = do { (h, st) \<leftarrow> iterate (cw_heap w) (cw_state w); Some \<lparr>cw_heap = h, cw_state = st\<rparr> }"

definition set_iterations :: "u32 \<Rightarrow> cm_world \<Rightarrow> cm_world" where
  "set_iterations n w = w\<lparr>cw_state := (cw_state w)\<lparr>b_res := (b_res (cw_state w))\<lparr>res_iterations := n\<rparr>\<rparr>\<rparr>"

text \<open>The number of iterations is determined by ten, a hundred, \dots{} iterations until a second has passed.\<close>

partial_function (option) cm_auto_loop ::
    "device \<Rightarrow> mem \<Rightarrow> u32 \<Rightarrow> cm_world \<Rightarrow> history \<Rightarrow> (u32 \<times> cm_world \<times> history) option" where
  "cm_auto_loop d strs secs_passed w h =
     (if secs_passed < 1
      then do { let w = set_iterations (res_iterations (b_res (cw_state w)) * 10) w;
                (start, _, h) \<leftarrow> clock_gettime d strs h;
                w \<leftarrow> cm_iterate w;
                (stop, _, h) \<leftarrow> clock_gettime d strs h;
                cm_auto_loop d strs (time_in_secs (get_time stop start)) w h }
      else Some (secs_passed, w, h))"

declare cm_auto_loop.simps [code]

definition cm_auto :: "device \<Rightarrow> mem \<Rightarrow> cm_world \<Rightarrow> history \<Rightarrow> (cm_world \<times> history) option" where
  "cm_auto d strs w h =
     (if res_iterations (b_res (cw_state w)) = 0
      then do { (secs_passed, w, h) \<leftarrow> cm_auto_loop d strs 0 (set_iterations 1 w) h;
                let divisor = (if secs_passed = 0 then 1 else secs_passed);
                Some (set_iterations (res_iterations (b_res (cw_state w)) * (1 + 10 div divisor)) w, h) }
      else Some (w, h))"

definition cm_seedcrc :: "core_results \<Rightarrow> u16" where
  "cm_seedcrc r = crc16 (ucast (res_size r)) (crc16 (res_seed3 r) (crc16 (res_seed2 r) (crc16 (res_seed1 r) 0)))"

definition cm_known :: "u16 \<Rightarrow> (nat \<times> string) option" where
  "cm_known seedcrc =
     (if seedcrc = 0x8a02 then Some (0, ln ''6k performance run parameters for coremark.'')
      else if seedcrc = 0x7b05 then Some (1, ln ''6k validation run parameters for coremark.'')
      else if seedcrc = 0x4eaf then Some (2, ln ''Profile generation run parameters for coremark.'')
      else if seedcrc = 0xe9f5 then Some (3, ln ''2K performance run parameters for coremark.'')
      else if seedcrc = 0x18f2 then Some (4, ln ''2K validation run parameters for coremark.'')
      else None)"

text \<open>One of the three comparisons, with what it prints when it fails.\<close>

definition cm_compare :: "mem \<Rightarrow> bool \<Rightarrow> string \<Rightarrow> u16 \<Rightarrow> u16 \<Rightarrow> int \<times> history \<Rightarrow> (int \<times> history) option" where
  "cm_compare strs selected name got known eh =
     (let (err, h) = eh
      in if selected \<and> got \<noteq> known
         then do { h \<leftarrow> say strs (ln (''[%u]ERROR! '' @ name @ '' crc 0x%04x - should be 0x%04x'')) [0, ucast got, ucast known] h;
                   Some (err + 1, h) }
         else Some (err, h))"

definition cm_check :: "mem \<Rightarrow> core_results \<Rightarrow> history \<Rightarrow> (int \<times> history) option" where
  "cm_check strs r h =
     (case cm_known (cm_seedcrc r) of
        None \<Rightarrow> Some (-1, h)
      | Some (known_id, text) \<Rightarrow>
          do { h \<leftarrow> say strs text [] h;
               e1 \<leftarrow> cm_compare strs (bit (res_execs r) 0) ''list'' (res_crclist r) (list_known_crc ! known_id) (0, h);
               e2 \<leftarrow> cm_compare strs (bit (res_execs r) 1) ''matrix'' (res_crcmatrix r) (matrix_known_crc ! known_id) e1;
               cm_compare strs (bit (res_execs r) 2) ''state'' (res_crcstate r) (state_known_crc ! known_id) e2 })"

definition udiv :: "u32 \<Rightarrow> u32 \<Rightarrow> u32 option" where
  "udiv x y = (if y = 0 then None else Some (x div y))"

text \<open>The lines of the report, in order; \<open>default_num_contexts\<close> is 1.\<close>

definition cm_lines :: "cm_env \<Rightarrow> core_results \<Rightarrow> u32 \<Rightarrow> u32 \<Rightarrow> int \<Rightarrow> (string \<times> u32 list) list" where
  "cm_lines env r total_ns rate total_errors =
     [(ln ''CoreMark Size    : %lu'', [res_size r]), (ln ''Total ns : %lu'', [total_ns]),
      (ln ''Iterations/Sec : %lu'', [rate]),
      (ln ''COREMARK/MHZ = (1000000.0/CPU_COUNT_PER_US)*NSEC_PER_USEC*results[0].iterations/total_ns'', []),
      (ln ''It equals to 1000*1000*iteration/total_ns'', []),
      (ln (ln ''In this run, iterate=%lu, total_ns=%lu''), [res_iterations r, total_ns]),
      (ln ''Total ticks      : %lu'', [total_time env]),
      (ln ''Total time (secs): %d'', [time_in_secs (total_time env)])]
     @ (if time_in_secs (total_time env) > 0
        then [(ln ''Iterations/Sec   : %d'', [res_iterations r div time_in_secs (total_time env)])] else [])
     @ [(ln ''Iterations       : %lu'', [res_iterations r]),
        (ln ''Compiler version : %s'', [compiler_version env]),
        (ln ''Compiler flags   : %s'', [compiler_flags env]),
        (ln ''Memory location  : %s'', [mem_location env]),
        (ln ''seedcrc          : 0x%04x'', [ucast (cm_seedcrc r)])]
     @ (if bit (res_execs r) 0 then [(ln ''[%d]crclist       : 0x%04x'', [0, ucast (res_crclist r)])] else [])
     @ (if bit (res_execs r) 1 then [(ln ''[%d]crcmatrix     : 0x%04x'', [0, ucast (res_crcmatrix r)])] else [])
     @ (if bit (res_execs r) 2 then [(ln ''[%d]crcstate      : 0x%04x'', [0, ucast (res_crcstate r)])] else [])
     @ [(ln ''[%d]crcfinal      : 0x%04x'', [0, ucast (res_crc r)])]
     @ (if total_errors = 0 then [(ln ''Correct operation validated. See readme.txt for run and reporting rules.'', [])] else [])
     @ (if total_errors > 0 then [(ln ''Errors detected'', [])] else [])
     @ (if total_errors < 0 then [(ln ''Cannot validate operation for these seed values, please compare with results on a known platform.'', [])] else [])"

definition core_mark :: "device \<Rightarrow> mem \<Rightarrow> cm_env \<Rightarrow> u32 list \<Rightarrow> cm_world test" where
  "core_mark d strs env argv w h =
     do { h \<leftarrow> say strs (ln ''arg : %ld, %ld, %ld, %ld, %ld, %ld, %ld '') argv h;
          w \<leftarrow> cm_inits env (cm_seeds argv (b_res (cw_state w))) w;
          (w, h) \<leftarrow> cm_auto d strs w h;
          h \<leftarrow> say strs (ln ''test start'') [] h;
          let (start_ns, h) = get_ns d h;
          w \<leftarrow> cm_iterate w;
          let (stop_ns, h) = get_ns d h;
          let total_ns = stop_ns - start_ns;
          h \<leftarrow> say strs (ln ''computation done '') [] h;
          let r = b_res (cw_state w);
          (total_errors, h) \<leftarrow> cm_check strs r h;
          (retval, out) \<leftarrow> check_data_types strs mips_sizes;
          let h = send out h;
          let total_errors = total_errors + uint retval;
          rate \<leftarrow> udiv (res_iterations r * 1000000000) total_ns;
          h \<leftarrow> says strs (cm_lines env r total_ns rate total_errors) h;
          Some (w, total_errors, h) }"

text \<open>\<open>COREMARK_LOOP\<close> is 1.\<close>

definition shell3 :: "device \<Rightarrow> mem \<Rightarrow> cm_env \<Rightarrow> cm_world \<Rightarrow> history \<Rightarrow> (cm_world \<times> history) option" where
  "shell3 d strs env w h = shell d strs ''coremark'' (core_mark d strs env [0, 0, 0x66, 1, 7, 1, 2000]) w h"

section \<open>What is printed\<close>

text \<open>What \<open>%04x\<close> prints.\<close>

definition hex4 :: "u32 \<Rightarrow> u8 list" where
  "hex4 v = (case printbase v 4 16 False of Some out \<Rightarrow> out | None \<Rightarrow> [])"

lemma printbase_hex4: "printbase v 4 16 False = Some (hex4 v)"
  using printbase_total [of 16 v 4 False] by (auto simp: hex4_def)

lemma printed_spec: "0 \<notin> set (ascii f) \<Longrightarrow> fmt_spec m f a = Some out \<Longrightarrow> \<exists>out. printf m f a = Some out"
  using printf_fmt_spec by blast

lemma hex_lines:
  "\<exists>out. printf m (ln ''seedcrc          : 0x%04x'') [v] = Some out"
  "\<exists>out. printf m (ln ''[%d]crclist       : 0x%04x'') [w, v] = Some out"
  "\<exists>out. printf m (ln ''[%d]crcmatrix     : 0x%04x'') [w, v] = Some out"
  "\<exists>out. printf m (ln ''[%d]crcstate      : 0x%04x'') [w, v] = Some out"
  "\<exists>out. printf m (ln ''[%d]crcfinal      : 0x%04x'') [w, v] = Some out"
  by (simp_all add: printf_eval printbase_hex4)

lemma error_lines:
  "\<exists>out. printf m (ln ''[%u]ERROR! list crc 0x%04x - should be 0x%04x'') [w, v, u] = Some out"
  "\<exists>out. printf m (ln ''[%u]ERROR! matrix crc 0x%04x - should be 0x%04x'') [w, v, u] = Some out"
  "\<exists>out. printf m (ln ''[%u]ERROR! state crc 0x%04x - should be 0x%04x'') [w, v, u] = Some out"
  by (simp_all add: printf_eval printbase_hex4)

lemma number_lines:
  "\<exists>out. printf m (ln ''CoreMark Size    : %lu'') [v] = Some out"
  "\<exists>out. printf m (ln ''Total ns : %lu'') [v] = Some out"
  "\<exists>out. printf m (ln ''Iterations/Sec : %lu'') [v] = Some out"
  "\<exists>out. printf m (ln (ln ''In this run, iterate=%lu, total_ns=%lu'')) [v, w] = Some out"
  "\<exists>out. printf m (ln ''Total ticks      : %lu'') [v] = Some out"
  "\<exists>out. printf m (ln ''Total time (secs): %d'') [v] = Some out"
  "\<exists>out. printf m (ln ''Iterations/Sec   : %d'') [v] = Some out"
  "\<exists>out. printf m (ln ''Iterations       : %lu'') [v] = Some out"
  by (rule printed_spec, simp, simp)+

lemma string_lines:
  assumes "putstring m p = Some s"
  shows "\<exists>out. printf m (ln ''Compiler version : %s'') [p] = Some out"
    "\<exists>out. printf m (ln ''Compiler flags   : %s'') [p] = Some out"
    "\<exists>out. printf m (ln ''Memory location  : %s'') [p] = Some out"
  by (rule printed_spec, simp, simp add: conv_spec_putstring [OF assms])+

lemma text_lines:
  "\<exists>out. printf m (ln ''COREMARK/MHZ = (1000000.0/CPU_COUNT_PER_US)*NSEC_PER_USEC*results[0].iterations/total_ns'') [] = Some out"
  "\<exists>out. printf m (ln ''It equals to 1000*1000*iteration/total_ns'') [] = Some out"
  "\<exists>out. printf m (ln ''Correct operation validated. See readme.txt for run and reporting rules.'') [] = Some out"
  "\<exists>out. printf m (ln ''Errors detected'') [] = Some out"
  "\<exists>out. printf m (ln ''Cannot validate operation for these seed values, please compare with results on a known platform.'') [] = Some out"
  "\<exists>out. printf m (ln ''2K performance run parameters for coremark.'') [] = Some out"
  "\<exists>out. printf m (ln ''2K validation run parameters for coremark.'') [] = Some out"
  "\<exists>out. printf m (ln ''test start'') [] = Some out"
  "\<exists>out. printf m (ln ''computation done '') [] = Some out"
  by (rule printed_spec, simp, simp)+

lemma args_line: "\<exists>out. printf m (ln ''arg : %ld, %ld, %ld, %ld, %ld, %ld, %ld '') [a1, a2, a3, a4, a5, a6, a7] = Some out"
  by (rule printed_spec, simp, simp)

lemma say_printed: "\<exists>out. printf m f a = Some out \<Longrightarrow> \<exists>out. say m f a h = Some (send out h)"
  by (auto simp: say_def)

text \<open>The three strings that are printed are terminated.\<close>

definition env_strings :: "mem \<Rightarrow> cm_env \<Rightarrow> bool" where
  "env_strings strs env \<longleftrightarrow> (\<exists>s. cstr strs (compiler_version env) s) \<and> (\<exists>s. cstr strs (compiler_flags env) s)
     \<and> (\<exists>s. cstr strs (mem_location env) s)"

lemma list_all_if: "list_all P (if b then xs else []) \<longleftrightarrow> (b \<longrightarrow> list_all P xs)"
  by simp

lemma cm_lines_said:
  assumes "env_strings strs env"
  shows "\<exists>out. says strs (cm_lines env r ns rate e) h = Some (send out h)"
proof (rule says_printed)
  obtain s1 s2 s3 where "putstring strs (compiler_version env) = Some s1" "putstring strs (compiler_flags env) = Some s2"
    "putstring strs (mem_location env) = Some s3"
    using assms putstring_cstr unfolding env_strings_def by blast
  from string_lines [OF this(1)] string_lines [OF this(2)] string_lines [OF this(3)]
  show "list_all (\<lambda>(f, a). \<exists>out. printf strs f a = Some out) (cm_lines env r ns rate e)"
    by (simp only: cm_lines_def list_all_append list.pred_inject list_all_if prod.case hex_lines number_lines text_lines simp_thms)
qed

text \<open>The number of checksums that are not the known ones.\<close>

definition cm_mismatches :: "core_results \<Rightarrow> nat \<Rightarrow> int" where
  "cm_mismatches r k = of_bool (res_crclist r \<noteq> list_known_crc ! k) + of_bool (res_crcmatrix r \<noteq> matrix_known_crc ! k)
     + of_bool (res_crcstate r \<noteq> state_known_crc ! k)"

lemma cm_compare_list: "\<exists>out. cm_compare strs True ''list'' g k (e, h) = Some (e + of_bool (g \<noteq> k), send out h)"
  using say_printed [OF error_lines(1) [of strs 0 "ucast g" "ucast k"], of h]
  by (auto simp: cm_compare_def send_def intro: exI [of _ "[]"])

lemma cm_compare_matrix: "\<exists>out. cm_compare strs True ''matrix'' g k (e, h) = Some (e + of_bool (g \<noteq> k), send out h)"
  using say_printed [OF error_lines(2) [of strs 0 "ucast g" "ucast k"], of h]
  by (auto simp: cm_compare_def send_def intro: exI [of _ "[]"])

lemma cm_compare_state: "\<exists>out. cm_compare strs True ''state'' g k (e, h) = Some (e + of_bool (g \<noteq> k), send out h)"
  using say_printed [OF error_lines(3) [of strs 0 "ucast g" "ucast k"], of h]
  by (auto simp: cm_compare_def send_def intro: exI [of _ "[]"])

lemma send_send: "send y (send x h) = send (x @ y) h"
  by (simp add: send_def)

lemma cm_check_all:
  assumes known: "cm_known (cm_seedcrc r) = Some (k, text)" and t: "\<exists>out. printf strs text [] = Some out"
    and all: "res_execs r = 7"
  shows "\<exists>out. cm_check strs r h = Some (cm_mismatches r k, send out h)"
proof -
  have b: "bit (7 :: u32) 0" "bit (7 :: u32) 1" "bit (7 :: u32) 2" by simp_all
  obtain o0 where 0: "say strs text [] h = Some (send o0 h)" using say_printed [OF t] by blast
  obtain o1 where 1: "cm_compare strs True ''list'' (res_crclist r) (list_known_crc ! k) (0, send o0 h)
    = Some (of_bool (res_crclist r \<noteq> list_known_crc ! k), send o1 (send o0 h))"
    using cm_compare_list [of strs "res_crclist r" "list_known_crc ! k" 0 "send o0 h"] by auto
  obtain o2 where 2: "cm_compare strs True ''matrix'' (res_crcmatrix r) (matrix_known_crc ! k)
      (of_bool (res_crclist r \<noteq> list_known_crc ! k), send o1 (send o0 h))
    = Some (of_bool (res_crclist r \<noteq> list_known_crc ! k) + of_bool (res_crcmatrix r \<noteq> matrix_known_crc ! k), send o2 (send o1 (send o0 h)))"
    using cm_compare_matrix by blast
  obtain o3 where 3: "cm_compare strs True ''state'' (res_crcstate r) (state_known_crc ! k)
      (of_bool (res_crclist r \<noteq> list_known_crc ! k) + of_bool (res_crcmatrix r \<noteq> matrix_known_crc ! k), send o2 (send o1 (send o0 h)))
    = Some (cm_mismatches r k, send o3 (send o2 (send o1 (send o0 h))))"
    unfolding cm_mismatches_def using cm_compare_state by blast
  show ?thesis
    unfolding cm_check_def by (simp only: known option.case prod.case 0 1 2 3 all b bind.bind_lunit) (simp only: send_send, blast)
qed

section \<open>The setup\<close>

lemma cm_size_all: "cm_size 7 = Some 666" "cm_selected 7 0 = 0" "cm_selected 7 1 = 1" "cm_selected 7 2 = 2"
  by (simp_all add: cm_size_def cm_selected_def upt_rec TOTAL_DATA_SIZE_def)

lemma list_idx_distinct:
  "distinct (map (\<lambda>j. sint (list_idx 0 31 j)) [0..<30])" "distinct (map (\<lambda>j. sint (list_idx 0x3415 31 j)) [0..<30])"
  by (simp_all add: upt_rec list_idx_def item_idx_def)

lemma cm_seedcrc_2K:
  "cm_seedcrc (r\<lparr>res_seed1 := 0, res_seed2 := 0, res_seed3 := 0x66, res_size := 666\<rparr>) = 0xe9f5"
  "cm_seedcrc (r\<lparr>res_seed1 := 0x3415, res_seed2 := 0x3415, res_seed3 := 0x66, res_size := 666\<rparr>) = 0x18f2"
  by (simp_all add: cm_seedcrc_def crc16_def crcu16_def) (code_simp+)

text \<open>The memory block lies in the address space, with room behind it.\<close>

definition room :: "cm_env \<Rightarrow> bool" where
  "room env \<longleftrightarrow> 0 < stack_memblock env \<and> unat (stack_memblock env) + 2500 \<le> 4294967296"

text \<open>The world after the setup: the list is whole and sorted by indices that differ, and the benchmarks find
  what they need.\<close>

definition ready :: "core_results \<Rightarrow> cm_world \<Rightarrow> addr list \<Rightarrow> bool" where
  "ready r w xs \<longleftrightarrow>
     (let st = cw_state w; f = (\<lambda>x. sint (idx (b_data st (hinfo (cw_heap w) x))))
      in clist (cw_heap w) (res_list (b_res st)) xs \<and> sorted (map f xs) \<and> inj_on f (set xs)
         \<and> setup_ok (b_mem st) (b_res st)
         \<and> res_seed1 (b_res st) = res_seed1 r \<and> res_seed2 (b_res st) = res_seed2 r \<and> res_seed3 (b_res st) = res_seed3 r
         \<and> res_size (b_res st) = 666 \<and> res_iterations (b_res st) = res_iterations r \<and> res_execs (b_res st) = res_execs r)"

lemma cm_inits_ready:
  assumes s: "res_seed1 r = s" "res_seed2 r = s" "s = 0 \<or> s = 0x3415" and all: "res_execs r = 7" and env: "room env"
  shows "\<exists>w' xs. cm_inits env r w = Some w' \<and> ready r w' xs \<and> length xs = 30"
proof -
  let ?b = "stack_memblock env" and ?st = "cw_state w"
  have bits: "bit (7 :: u32) 0" "bit (7 :: u32) 1" "bit (7 :: u32) 2" by simp_all
  have block: "cm_block env 666 7 0 = ?b" "cm_block env 666 7 1 = ?b + 666" "cm_block env 666 7 2 = ?b + 1332"
    by (simp_all add: cm_block_def cm_size_all cm_size_all(3)[unfolded One_nat_def])
  have u: "0 < ?b" "unat ?b + 2500 \<le> 4294967296" using env by (simp_all add: room_def)
  have "unat ?b + 12 * 31 < 4294967296" "3 \<le> (31 :: nat)" "(31 :: nat) = unat (666 :: u32) div 20 - 2" using u by simp_all
  from core_list_init_eq [OF u(1) this, of "cw_heap w" "b_data ?st" s]
  obtain h d p xs where l: "core_list_init (cw_heap w) (b_data ?st) 666 ?b s = Some (h, d, p)" "clist h p xs"
    "set xs = cell ?b ` {..<30}" "length xs = 30" "\<And>j. j < 30 \<Longrightarrow> hinfo h (cell ?b j) = data_cell (cell ?b 31) j"
    "\<And>j. j < 30 \<Longrightarrow> idx (d (data_cell (cell ?b 31) j)) = list_idx s 31 j" "sorted (map (\<lambda>x. sint (idx (d (hinfo h x)))) xs)"
    by auto
  have f: "sint (idx (d (hinfo h (cell ?b j)))) = sint (list_idx s 31 j)" if "j < 30" for j using l(5,6) that by simp
  have "distinct (map (\<lambda>j. sint (list_idx s 31 j)) [0..<30])" using s(3) list_idx_distinct by auto
  then have "inj_on (\<lambda>j. sint (list_idx s 31 j)) {..<30}" by (simp add: distinct_map atLeast0LessThan)
  then have inj: "inj_on (\<lambda>x. sint (idx (d (hinfo h x)))) (set xs)"
    unfolding l(3) using f by (auto simp: inj_on_def)
  obtain q n a b c where m: "core_init_matrix (b_mem ?st) 666 (?b + 666) (scast s OR push_bit 16 (scast s)) = Some (q, a, b, c)"
    "mat_N q = of_nat n" "n < 16384" "length (mat_A q) = n * n" "length (mat_B q) = n * n" "length (mat_C q) = n * n"
    using core_init_matrix_some [of 666 "b_mem ?st" "?b + 666" "scast s OR push_bit 16 (scast s)"] by auto
  have N: "unat (mat_N q) = n" "mat_N q \<le> 65535"
    using m(2,3) unat_of_nat32 [of n] by (simp_all add: word_le_nat_alt)
  have t: "core_init_state (b_mem ?st) 666 s (?b + 1332) = Some (write_bytes (b_mem ?st) (?b + 1332) (state_block 666 s))"
    using core_init_state_eq [of 666 "b_mem ?st" s "?b + 1332"] by simp
  define r' where "r' = r\<lparr>res_size := 666, res_list := p, res_mat := q, res_block3 := ?b + 1332\<rparr>"
  define w' where "w' = \<lparr>cw_heap = h, cw_state = \<lparr>b_data = d, b_mem = write_bytes (b_mem ?st) (?b + 1332) (state_block 666 s), b_res = r', b_undef = b_undef ?st\<rparr>\<rparr>"
  have "cm_inits env r w = Some w'"
    by (simp add: cm_inits_def all cm_size_all bits block block(2)[unfolded One_nat_def] s(1,2) l(1) m(1) t w'_def r'_def Let_def)
  moreover have "unat (?b + 1332) = unat ?b + 1332" using u by (subst unat_add_small) simp_all
  then have "setup_ok (b_mem (cw_state w')) r'"
    using safe_seeds s N m(4-6) u by (auto simp: setup_ok_def w'_def r'_def)
  then have "ready r w' xs" using l(2,7) inj by (simp add: ready_def w'_def r'_def Let_def)
  ultimately show ?thesis using l(4) by blast
qed

lemma cm_iterate_ready:
  assumes "ready r w xs" "3 \<le> length xs"
  shows "\<exists>w'. cm_iterate w = Some w' \<and> cw_heap w' = cw_heap w \<and> ready r w' xs"
proof -
  let ?st = "cw_state w" and ?h = "cw_heap w"
  have ok: "bench_ok (\<lambda>a. regen (b_data ?st a)) (b_mem ?st) (b_res ?st) ?st"
    using assms(1) by (simp add: bench_ok_def ready_def Let_def same_setup_def)
  obtain st' where st': "iterate ?h ?st = Some (?h, st')" "bench_ok (\<lambda>a. regen (b_data ?st a)) (b_mem ?st) (b_res ?st) st'"
    using iterate_eq [OF ok _ assms(2)] assms(1) by (auto simp: ready_def Let_def)
  then have "ready r \<lparr>cw_heap = ?h, cw_state = st'\<rparr> xs"
    using assms(1) bench_ok_idx [OF st'(2)] by (auto simp: ready_def Let_def bench_ok_def same_setup_def)
  with st'(1) show ?thesis by (simp add: cm_iterate_def)
qed

text \<open>Two readings of the timer in a row differ (after the multiplication).\<close>

definition timer_moves :: "device \<Rightarrow> bool" where
  "timer_moves d \<longleftrightarrow> (\<forall>h. mmio d (h @ [Load TIMER_ADDR (mmio d h TIMER_ADDR)]) TIMER_ADDR * 10 \<noteq> mmio d h TIMER_ADDR * 10)"

lemma core_mark_eq:
  assumes s: "s = 0 \<or> s = 0x3415" and it: "n \<noteq> 0" and ex: "e = 0 \<or> e = 7"
    and env: "room env" "env_strings strs env" and tm: "timer_moves d"
  shows "\<exists>w' xs o1 o2 t1 t2. core_mark d strs env [s, s, 0x66, n, e, x, y] w h =
      Some (w', cm_mismatches (b_res (cw_state w')) (if s = 0 then 3 else 4),
            h @ map Uart o1 @ [Load TIMER_ADDR t1, Load TIMER_ADDR t2] @ map Uart o2)
    \<and> clist (cw_heap w') (res_list (b_res (cw_state w'))) xs \<and> length xs = 30
    \<and> sorted (map (\<lambda>a. sint (idx (b_data (cw_state w') (hinfo (cw_heap w') a)))) xs)
    \<and> res_iterations (b_res (cw_state w')) = n"
proof -
  define r where "r = cm_seeds [s, s, 0x66, n, e, x, y] (b_res (cw_state w))"
  have r: "res_seed1 r = ucast s" "res_seed2 r = ucast s" "res_seed3 r = 0x66" "res_iterations r = n" "res_execs r = 7"
    using s ex by (auto simp: r_def cm_seeds_def Let_def)
  have s': "(ucast s :: u16) = 0 \<or> (ucast s :: u16) = 0x3415" using s by auto
  obtain w1 xs where 1: "cm_inits env r w = Some w1" "ready r w1 xs" "length xs = 30"
    using cm_inits_ready [OF r(1,2) s' r(5) env(1)] by blast
  then obtain w2 where 2: "cm_iterate w1 = Some w2" "ready r w2 xs" using cm_iterate_ready [OF 1(2)] by auto
  let ?r = "b_res (cw_state w2)" and ?k = "if s = 0 then 3 else 4 :: nat"
  have n1: "res_iterations (b_res (cw_state w1)) = n" using 1(2) r by (simp add: ready_def Let_def)
  have r2: "res_seed1 ?r = ucast s" "res_seed2 ?r = ucast s" "res_seed3 ?r = 0x66" "res_size ?r = 666"
    "res_iterations ?r = n" "res_execs ?r = 7"
    using 2(2) r by (simp_all add: ready_def Let_def)
  have "cm_seedcrc ?r = (if s = 0 then 0xe9f5 else 0x18f2)"
    using s cm_seedcrc_2K [of ?r] r2 by (auto simp: cm_seedcrc_def)
  then obtain tx where k: "cm_known (cm_seedcrc ?r) = Some (?k, tx)" "\<exists>out. printf strs tx [] = Some out"
    using text_lines(6,7) [of strs] s by (auto simp: cm_known_def)
  obtain o1 where o1: "say strs (ln ''arg : %ld, %ld, %ld, %ld, %ld, %ld, %ld '') [s, s, 0x66, n, e, x, y] h = Some (send o1 h)"
    using say_printed [OF args_line] by blast
  obtain o2 where o2: "say strs (ln ''test start'') [] (send o1 h) = Some (send o2 (send o1 h))"
    using say_printed [OF text_lines(8)] by blast
  let ?h1 = "send o2 (send o1 h)"
  let ?t1 = "mmio d ?h1 TIMER_ADDR"
  let ?h2 = "?h1 @ [Load TIMER_ADDR ?t1]"
  let ?t2 = "mmio d ?h2 TIMER_ADDR"
  let ?h3 = "?h2 @ [Load TIMER_ADDR ?t2]"
  have "?t2 * 10 - ?t1 * 10 \<noteq> 0" using tm by (simp add: timer_moves_def)
  then obtain rate where rate: "udiv (res_iterations ?r * 1000000000) (?t2 * 10 - ?t1 * 10) = Some rate"
    by (simp add: udiv_def)
  obtain o3 where o3: "say strs (ln ''computation done '') [] ?h3 = Some (send o3 ?h3)"
    using say_printed [OF text_lines(9)] by blast
  obtain o4 where o4: "cm_check strs ?r (send o3 ?h3) = Some (cm_mismatches ?r ?k, send o4 (send o3 ?h3))"
    using cm_check_all [OF k r2(6)] by blast
  obtain o5 where o5: "says strs (cm_lines env ?r (?t2 * 10 - ?t1 * 10) rate (cm_mismatches ?r ?k)) (send [] (send o4 (send o3 ?h3)))
      = Some (send o5 (send [] (send o4 (send o3 ?h3))))"
    using cm_lines_said [OF env(2)] by blast
  have "core_mark d strs env [s, s, 0x66, n, e, x, y] w h
      = Some (w2, cm_mismatches ?r ?k, send o5 (send [] (send o4 (send o3 ?h3))))"
    unfolding core_mark_def o1 cm_auto_def
    using it n1 by (simp only: r_def [symmetric] 1(1) 2(1) o2 o3 o4 o5 rate get_ns_eq check_data_types_mips Let_def if_False
        bind.bind_lunit prod.case uint_0_eq add_0_right refl)
  moreover have "send o5 (send [] (send o4 (send o3 ?h3))) =
      h @ map Uart (o1 @ o2) @ [Load TIMER_ADDR ?t1, Load TIMER_ADDR ?t2] @ map Uart (o3 @ o4 @ o5)"
    by (simp add: send_def)
  ultimately show ?thesis using 2(2) 1(3) r2(5) unfolding ready_def Let_def by metis
qed

section \<open>Properties\<close>

text \<open>An environment and a device for the witnesses.\<close>

definition demo_env :: cm_env where
  "demo_env = \<lparr>compiler_version = 16, compiler_flags = 16, mem_location = 16, stack_memblock = 0x80001000, total_time = 0\<rparr>"

definition demo_device :: device where
  "demo_device = \<lparr>mmio = (\<lambda>h a. of_nat (length h)), cp0 = (\<lambda>h n. 0)\<rparr>"

text \<open>C31: \<open>core_mark\<close> with the seeds of the two runs of 2K and any number of iterations but 0 ends; it returns
  the number of the three checksums that are not the known ones, and leaves the list whole and in the
  order of its indices, provided that the timer moves between the two readings.\<close>

theorem core_mark_result:
  assumes "s = 0 \<or> s = 0x3415" and "n \<noteq> 0" and "e = 0 \<or> e = 7"
    and "room env" and "env_strings strs env" and "timer_moves d"
  shows "\<exists>w' xs o1 o2 t1 t2. core_mark d strs env [s, s, 0x66, n, e, x, y] w h =
      Some (w', cm_mismatches (b_res (cw_state w')) (if s = 0 then 3 else 4),
            h @ map Uart o1 @ [Load TIMER_ADDR t1, Load TIMER_ADDR t2] @ map Uart o2)
    \<and> clist (cw_heap w') (res_list (b_res (cw_state w'))) xs \<and> length xs = 30
    \<and> sorted (map (\<lambda>a. sint (idx (b_data (cw_state w') (hinfo (cw_heap w') a)))) xs)
    \<and> res_iterations (b_res (cw_state w')) = n"
  using assms by (rule core_mark_eq)

theorem core_mark_result_witness:
  "\<exists>w' e h'. core_mark demo_device (\<lambda>_. 0) demo_env [0, 0, 0x66, 10, 7, 1, 2000] \<lparr>cw_heap = demo_heap, cw_state = demo_state\<rparr> []
     = Some (w', e, h') \<and> e \<le> 3"
proof -
  have e: "room demo_env" by (simp add: room_def demo_env_def)
  have "cstr (\<lambda>_. 0) 16 []" by (simp only: cstr.simps)
  then have st: "env_strings (\<lambda>_. 0) demo_env" unfolding env_strings_def demo_env_def cm_env.simps by blast
  have "(x + 1) * 10 \<noteq> x * 10" for x :: u32
  proof
    assume "(x + 1) * 10 = x * 10"
    then have "x * 10 + 10 = x * 10 + 0" by (simp only: distrib_right mult_1 add_0_right)
    then have "(10 :: u32) = 0" by (simp only: add_left_cancel)
    then show False by simp
  qed
  then have t: "timer_moves demo_device" by (simp add: timer_moves_def demo_device_def add.commute)
  have "cm_mismatches r k \<le> 3" for r k by (simp add: cm_mismatches_def)
  moreover have "(0 :: u32) = 0 \<or> (0 :: u32) = 0x3415" "(10 :: u32) \<noteq> 0" "(7 :: u32) = 0 \<or> (7 :: u32) = 7" by simp_all
  ultimately show ?thesis
    using core_mark_result [OF _ _ _ e st t, of 0 10 7 1 2000 "\<lparr>cw_heap = demo_heap, cw_state = demo_state\<rparr>" "[]"] by fastforce
qed

lemma clock_gettime_fields:
  assumes "clock_gettime d strs h = Some (t, v, h')"
  shows "tv_sec t = 0 \<and> unat (tv_nsec t) < 1000"
proof -
  obtain n where t: "tv_sec t = n div 100 div 1000000000" "tv_nsec t = n * 10 mod 1000"
    using assms by (auto simp: clock_gettime_def Let_def split: prod.splits bind_splits)
  have "unat n < 4294967296" using unsigned_less [of n, where 'a = nat] by simp
  then have "unat (tv_sec t) = 0" by (simp add: t unat_div)
  then show ?thesis by (simp add: t unat_mod unat_eq_zero)
qed

text \<open>C32: measured with \<open>clock_gettime\<close>, whose seconds are 0 and whose nanoseconds are below 1000, the time
  of any run is 0 or 4 seconds: 0 if the microseconds, modulo 1000, have not decreased and 4 if they have.
  So \<open>core_mark\<close> does not measure the time its number of iterations is to be chosen by.\<close>

theorem measured_seconds:
  assumes "clock_gettime d strs h = Some (start, v, h1)" and "clock_gettime d strs h2 = Some (stop, v2, h3)"
  shows "time_in_secs (get_time stop start) = (if tv_nsec stop < tv_nsec start then 4 else 0)"
proof -
  have f: "tv_sec start = 0" "tv_sec stop = 0" "unat (tv_nsec start) < 1000" "unat (tv_nsec stop) < 1000"
    using clock_gettime_fields [OF assms(1)] clock_gettime_fields [OF assms(2)] by auto
  let ?x = "tv_nsec stop - tv_nsec start"
  have "unat (time_in_secs (get_time stop start)) = unat ?x div 1000000 div 1000"
    by (simp add: time_in_secs_def get_time_def f(1,2) unat_div)
  also have "\<dots> = (if tv_nsec stop < tv_nsec start then 4 else 0)"
  proof (cases "tv_nsec stop < tv_nsec start")
    case True
    then have "unat ?x = 4294967296 - (unat (tv_nsec start) - unat (tv_nsec stop))" "unat (tv_nsec stop) < unat (tv_nsec start)"
      using f(3,4) by (auto simp: unat_sub_if_size word_size word_less_nat_alt word_le_nat_alt)
    then have "4294000000 \<le> unat ?x" "unat ?x < 4295000000" using f(3,4) by linarith+
    then have "unat ?x div 1000000 = 4294" by linarith
    with True show ?thesis by simp
  next
    case False
    then have "unat ?x < 1000" using f(3,4) by (simp add: unat_sub_if_size word_less_nat_alt word_le_nat_alt)
    with False show ?thesis by simp
  qed
  finally show ?thesis by (simp add: word_unat_eq_iff)
qed

lemma demo_clock:
  "\<exists>t h'. clock_gettime demo_device (\<lambda>_. 0) h = Some (t, 0, h') \<and> tv_nsec t = of_nat (length h) * 10 mod 1000"
proof -
  obtain out where "say (\<lambda>_. 0) (ln ''clock ns=%d,sec=%d'') [of_nat (length h) * 10 mod 1000, of_nat (length h) div 100 div 1000000000]
      (h @ [Load TIMER_ADDR (of_nat (length h))]) = Some (send out (h @ [Load TIMER_ADDR (of_nat (length h))]))"
    using clock_said by blast
  then show ?thesis by (simp add: clock_gettime_def uget_count_eq demo_device_def Let_def)
qed

theorem measured_seconds_witness:
  "\<exists>start stop h1 h3. clock_gettime demo_device (\<lambda>_. 0) [Store 0 0] = Some (start, 0, h1)
    \<and> clock_gettime demo_device (\<lambda>_. 0) [] = Some (stop, 0, h3) \<and> time_in_secs (get_time stop start) = 4"
proof -
  obtain start h1 where 1: "clock_gettime demo_device (\<lambda>_. 0) [Store 0 0] = Some (start, 0, h1)" "tv_nsec start = 10"
    using demo_clock [of "[Store 0 0]"] by auto
  obtain stop h3 where 2: "clock_gettime demo_device (\<lambda>_. 0) [] = Some (stop, 0, h3)" "tv_nsec stop = 0"
    using demo_clock [of "[]"] by auto
  show ?thesis using 1 2 measured_seconds [OF 1(1) 2(1)] by auto
qed

end
