(* ===== verification/Malloc.thy ===== *)
theory Malloc
  imports CBase
begin

text \<open>
  The allocator of \<^verbatim>\<open>lib/malloc.c\<close>: \<open>sbrk\<close>, \<open>morecore\<close>, \<open>malloc\<close> and
  \<open>free\<close>.  The state holds the two fields of every header and the two static pointers; \<open>base\<close> is the
  address of the static header.  Shown: from the first call on the free blocks form one ring in the
  order of their addresses, free and live blocks tile the heap, no two free blocks touch, every call
  ends, and live blocks never overlap.
\<close>

section \<open>The program\<close>

record heap =
  hdr_ptr :: "addr \<Rightarrow> addr"
  hdr_size :: "addr \<Rightarrow> u32"
  allocp :: addr
  membase :: addr

definition NALLOC :: u32 where "NALLOC = 128"

definition sbrk :: "u32 \<Rightarrow> heap \<Rightarrow> addr \<times> heap" where
  "sbrk n s = (membase s, s\<lparr>membase := membase s + n\<rparr>)"

text \<open>A header has 8 bytes; \<open>header_at p n\<close> is \<open>p + n\<close> for a pointer to headers.\<close>

definition header_at :: "addr \<Rightarrow> u32 \<Rightarrow> addr" where
  "header_at p n = p + 8 * n"

partial_function (option) free_loop :: "heap \<Rightarrow> addr \<Rightarrow> addr \<Rightarrow> addr option" where
  "free_loop s p q =
     (if q = 0 then None
      else if q < p \<and> p < hdr_ptr s q then Some q
      else if hdr_ptr s q \<le> q \<and> (q < p \<or> p < hdr_ptr s q) then Some q
      else free_loop s p (hdr_ptr s q))"

declare free_loop.simps [code]

definition join_upper :: "addr \<Rightarrow> addr \<Rightarrow> heap \<Rightarrow> heap" where
  "join_upper p q s =
     (let n = hdr_ptr s q
      in if header_at p (hdr_size s p) = n
         then s\<lparr>hdr_size := (hdr_size s)(p := hdr_size s p + hdr_size s n), hdr_ptr := (hdr_ptr s)(p := hdr_ptr s n)\<rparr>
         else s\<lparr>hdr_ptr := (hdr_ptr s)(p := n)\<rparr>)"

definition join_lower :: "addr \<Rightarrow> addr \<Rightarrow> heap \<Rightarrow> heap" where
  "join_lower p q s =
     (if header_at q (hdr_size s q) = p
      then s\<lparr>hdr_size := (hdr_size s)(q := hdr_size s q + hdr_size s p), hdr_ptr := (hdr_ptr s)(q := hdr_ptr s p)\<rparr>
      else s\<lparr>hdr_ptr := (hdr_ptr s)(q := p)\<rparr>)"

definition free :: "addr \<Rightarrow> heap \<Rightarrow> heap option" where
  "free ap s =
     do { let p = ap - 8;
          q \<leftarrow> free_loop s p (allocp s);
          Some ((join_lower p q (join_upper p q s))\<lparr>allocp := q\<rparr>) }"

definition more_units :: "u32 \<Rightarrow> u32" where
  "more_units nu = NALLOC * ((nu + NALLOC - 1) div NALLOC)"

definition morecore :: "u32 \<Rightarrow> heap \<Rightarrow> (addr \<times> heap) option" where
  "morecore nu s =
     do { let rnu = more_units nu;
          let (cp, s) = sbrk (rnu * 8) s;
          if cp = 0 then Some (0, s)
          else do { let s = s\<lparr>hdr_size := (hdr_size s)(cp := rnu)\<rparr>;
                    s \<leftarrow> free (cp + 8) s;
                    Some (allocp s, s) } }"

definition malloc_units :: "u32 \<Rightarrow> u32" where
  "malloc_units nbytes = (nbytes + 8 - 1) div 8 + 1"

text \<open>The block that is big enough, or its tail end.\<close>

definition take_block :: "u32 \<Rightarrow> addr \<Rightarrow> addr \<Rightarrow> heap \<Rightarrow> addr \<times> heap" where
  "take_block nunits p q s =
     (if hdr_size s p = nunits
      then (p + 8, s\<lparr>hdr_ptr := (hdr_ptr s)(q := hdr_ptr s p), allocp := q\<rparr>)
      else let rest = hdr_size s p - nunits; r = header_at p rest
           in (r + 8, s\<lparr>hdr_size := (hdr_size s)(p := rest, r := nunits), allocp := q\<rparr>))"

partial_function (option) malloc_loop :: "u32 \<Rightarrow> addr \<Rightarrow> addr \<Rightarrow> heap \<Rightarrow> (addr \<times> heap) option" where
  "malloc_loop nunits p q s =
     (if nunits \<le> hdr_size s p then Some (take_block nunits p q s)
      else if p = allocp s
      then do { (p', s') \<leftarrow> morecore nunits s;
                if p' = 0 then Some (0, s') else malloc_loop nunits (hdr_ptr s' p') p' s' }
      else malloc_loop nunits (hdr_ptr s p) p s)"

declare malloc_loop.simps [code]

definition malloc :: "addr \<Rightarrow> u32 \<Rightarrow> heap \<Rightarrow> (addr \<times> heap) option" where
  "malloc base nbytes s =
     (let nunits = malloc_units nbytes;
          s = (if allocp s = 0
               then s\<lparr>hdr_ptr := (hdr_ptr s)(base := base), allocp := base, hdr_size := (hdr_size s)(base := 0)\<rparr>
               else s);
          q = allocp s
      in malloc_loop nunits (hdr_ptr s q) q s)"

section \<open>Rings\<close>

text \<open>\<open>b\<close> follows \<open>a\<close> in \<open>F\<close>: the next greater element, or the least one if there is none.\<close>

definition follows :: "'a::linorder set \<Rightarrow> 'a \<Rightarrow> 'a \<Rightarrow> bool" where
  "follows F a b \<longleftrightarrow> b \<in> F \<and>
     (a < b \<and> (\<forall>x\<in>F. a < x \<longrightarrow> b \<le> x) \<or> (\<forall>x\<in>F. x \<le> a) \<and> (\<forall>x\<in>F. b \<le> x))"

definition ring :: "('a::linorder \<Rightarrow> 'a) \<Rightarrow> 'a set \<Rightarrow> bool" where
  "ring f F \<longleftrightarrow> finite F \<and> F \<noteq> {} \<and> (\<forall>a\<in>F. follows F a (f a))"

text \<open>\<open>p\<close> lies between \<open>q\<close> and its follower \<open>n\<close>, on the ring of addresses.\<close>

definition fits :: "'a::linorder \<Rightarrow> 'a \<Rightarrow> 'a \<Rightarrow> bool" where
  "fits q n p \<longleftrightarrow> q < p \<and> p < n \<or> n \<le> q \<and> (q < p \<or> p < n)"

lemma followsE:
  assumes "follows F a b"
  obtains "b \<in> F" "a < b" "\<And>x. x \<in> F \<Longrightarrow> x \<le> a \<or> b \<le> x"
    | "b \<in> F" "\<And>x. x \<in> F \<Longrightarrow> x \<le> a" "\<And>x. x \<in> F \<Longrightarrow> b \<le> x"
  using assms unfolding follows_def by (metis not_le)

lemma follows_up: "b \<in> F \<Longrightarrow> a < b \<Longrightarrow> (\<And>x. x \<in> F \<Longrightarrow> x \<le> a \<or> b \<le> x) \<Longrightarrow> follows F a b"
  unfolding follows_def by (metis not_le)

lemma follows_wrap: "b \<in> F \<Longrightarrow> (\<And>x. x \<in> F \<Longrightarrow> x \<le> a) \<Longrightarrow> (\<And>x. x \<in> F \<Longrightarrow> b \<le> x) \<Longrightarrow> follows F a b"
  unfolding follows_def by blast

lemma follows_inj:
  assumes "follows F a c" "follows F b c" "a \<in> F" "b \<in> F"
  shows "a = b"
  using assms(1)
proof (cases rule: followsE)
  case 1
  from assms(2) show ?thesis
    using 1 assms(3,4) by (cases rule: followsE) (metis antisym leD)+
next
  case 2
  from assms(2) show ?thesis
    using 2 assms(3,4) by (cases rule: followsE) (metis antisym leD)+
qed

lemma follows_insert_before:
  assumes "follows F q n" "q \<in> F" "p \<notin> F" "fits q n p"
  shows "follows (insert p F) q p \<and> follows (insert p F) p n"
  using assms(1)
proof (cases rule: followsE)
  case 1
  then have "q < p" "p < n" using assms(4) unfolding fits_def by auto
  with 1 show ?thesis by (auto intro!: follows_up) (metis le_less_trans less_imp_le order.trans)+
next
  case 2
  then have nq: "n \<le> q" using assms(2) by blast
  then consider "q < p" | "p < n" using assms(4) unfolding fits_def by auto
  then show ?thesis
  proof cases
    assume "q < p"
    with 2 nq have "follows (insert p F) q p" by (intro follows_up) auto
    moreover have "x \<le> p \<and> n \<le> p" if "x \<in> F" for x using 2(2) [OF that] nq \<open>q < p\<close> by auto
    then have "follows (insert p F) p n" using 2 by (intro follows_wrap) auto
    ultimately show ?thesis by blast
  next
    assume "p < n"
    with 2 nq have "follows (insert p F) p n" by (intro follows_up) auto
    moreover have "p \<le> x \<and> p \<le> q" if "x \<in> F" for x using 2(3) [OF that] nq \<open>p < n\<close> by auto
    then have "follows (insert p F) q p" using 2 by (intro follows_wrap) auto
    ultimately show ?thesis by blast
  qed
qed

lemma follows_insert_other:
  assumes a: "follows F a b" "a \<in> F" "a \<noteq> q" and q: "follows F q n" "q \<in> F" and p: "p \<notin> F" "fits q n p"
  shows "follows (insert p F) a b"
  using a(1)
proof (cases rule: followsE)
  case 1
  have "p \<le> a \<or> b \<le> p"
    using q(1)
  proof (cases rule: followsE)
    case g: 1
    then have "q < p" "p < n" using p(2) unfolding fits_def by auto
    then show ?thesis using g(3) [OF a(2)] 1(3) [OF q(2)] a(3) by auto
  next
    case g: 2
    then have "q < p \<or> p < n" using p(2) unfolding fits_def by auto
    then show ?thesis using g(2) [OF 1(1)] g(3) [OF a(2)] by auto
  qed
  with 1 show ?thesis by (intro follows_up) auto
next
  case 2
  from q(1) have "p \<le> a \<and> b \<le> p"
  proof (cases rule: followsE)
    case g: 1
    then have "q < p" "p < n" using p(2) unfolding fits_def by auto
    then show ?thesis using 2(2) [OF g(1)] 2(3) [OF q(2)] by auto
  next
    case g: 2
    then show ?thesis using g(2) [OF a(2)] 2(2) [OF q(2)] a(3) by auto
  qed
  with 2 show ?thesis by (intro follows_wrap) auto
qed

lemma follows_remove:
  assumes a: "follows F a n" and n: "follows F n m" and "a \<in> F" "n \<noteq> a"
  shows "follows (F - {n}) a m"
  using a
proof (cases rule: followsE)
  case 1
  from n show ?thesis
  proof (cases rule: followsE)
    case g: 1
    have "m \<le> x" if "x \<in> F" "x \<noteq> n" "\<not> x \<le> a" for x
      using 1(3) [OF that(1)] g(3) [OF that(1)] that by auto
    with 1 g show ?thesis by (intro follows_up) auto
  next
    case g: 2
    have "x \<le> a" if "x \<in> F" "x \<noteq> n" for x
      using 1(3) [OF that(1)] g(2) [OF that(1)] that by auto
    moreover have "m \<noteq> n" using g(3) [OF \<open>a \<in> F\<close>] 1(2) by auto
    ultimately show ?thesis using g by (intro follows_wrap) auto
  qed
next
  case 2
  from n show ?thesis
  proof (cases rule: followsE)
    case g: 1
    have "m \<le> x" if "x \<in> F" "x \<noteq> n" for x
      using 2(3) [OF that(1)] g(3) [OF that(1)] that by auto
    with 2 g show ?thesis by (intro follows_wrap) auto
  next
    case g: 2
    then show ?thesis using 2(3) [OF \<open>a \<in> F\<close>] g(2) [OF \<open>a \<in> F\<close>] \<open>n \<noteq> a\<close> by auto
  qed
qed

lemma follows_remove_other:
  assumes "follows F a b" "b \<noteq> n"
  shows "follows (F - {n}) a b"
  using assms unfolding follows_def by blast

text \<open>Walking along a ring one meets every element.\<close>

lemma ring_induct [consumes 3, case_names here step]:
  assumes r: "ring f F" and t: "t \<in> F" and a: "a \<in> F"
    and here: "P t" and step: "\<And>a. a \<in> F \<Longrightarrow> a \<noteq> t \<Longrightarrow> P (f a) \<Longrightarrow> P a"
  shows "P a"
proof -
  have fin: "finite F" using r by (simp add: ring_def)
  have low: "P a" if "a \<in> F" "a \<le> t" for a
    using that
  proof (induction "card {x \<in> F. a < x \<and> x \<le> t}" arbitrary: a rule: less_induct)
    case less
    show ?case
    proof (cases "a = t")
      case False
      then have lt: "a < t" using less.prems by simp
      have "follows F a (f a)" using r less.prems by (simp add: ring_def)
      then have f: "f a \<in> F" "a < f a" "f a \<le> t"
        using lt t by (auto elim!: followsE dest: leD)
      have "{x \<in> F. f a < x \<and> x \<le> t} \<subset> {x \<in> F. a < x \<and> x \<le> t}" using f by auto
      then have "card {x \<in> F. f a < x \<and> x \<le> t} < card {x \<in> F. a < x \<and> x \<le> t}"
        using fin by (intro psubset_card_mono) auto
      then have "P (f a)" using less.hyps f by blast
      with less.prems False show ?thesis by (auto intro: step)
    qed (use here in simp)
  qed
  have "P a" if "a \<in> F" "t < a" for a
    using that
  proof (induction "card {x \<in> F. a < x}" arbitrary: a rule: less_induct)
    case less
    have "follows F a (f a)" using r less.prems by (simp add: ring_def)
    then have f: "f a \<in> F" "a < f a \<or> f a \<le> t" using t by (auto elim!: followsE)
    from f(2) have "P (f a)"
    proof
      assume "a < f a"
      then have "{x \<in> F. f a < x} \<subset> {x \<in> F. a < x}" using f by auto
      then have "card {x \<in> F. f a < x} < card {x \<in> F. a < x}" using fin by (intro psubset_card_mono) auto
      then show ?thesis using less.hyps less.prems f \<open>a < f a\<close> by auto
    qed (use low f in blast)
    with less.prems show ?case by (auto intro: step)
  qed
  with low a show ?thesis by (meson le_less_linear)
qed

lemma ring_cong: "(\<And>a. a \<in> F \<Longrightarrow> f a = g a) \<Longrightarrow> ring f F \<longleftrightarrow> ring g F"
  unfolding ring_def by auto

lemma ring_insert:
  assumes "ring f F" "q \<in> F" "p \<notin> F" "fits q (f q) p"
  shows "ring (f(p := f q, q := p)) (insert p F)"
proof -
  have q: "follows F q (f q)" using assms by (simp add: ring_def)
  have "follows (insert p F) a ((f(p := f q, q := p)) a)" if "a \<in> insert p F" for a
    using follows_insert_before [OF q assms(2-4)] follows_insert_other [OF _ _ _ q assms(2-4), of a "f a"] assms that
    by (auto simp: ring_def)
  then show ?thesis using assms(1) by (auto simp: ring_def)
qed

lemma ring_remove:
  assumes r: "ring f F" and a: "a \<in> F" "f a \<noteq> a"
  shows "ring (f(a := f (f a))) (F - {f a})"
proof -
  have n: "f a \<in> F" using r a by (auto simp: ring_def follows_def)
  have "follows (F - {f a}) b ((f(a := f (f a))) b)" if "b \<in> F" "b \<noteq> f a" for b
  proof (cases "b = a")
    case True
    then show ?thesis using r a n by (auto simp: ring_def intro: follows_remove)
  next
    case False
    then have "f b \<noteq> f a" using follows_inj [of F b "f a" a] r a that by (auto simp: ring_def)
    then show ?thesis using False r that by (auto simp: ring_def intro: follows_remove_other)
  qed
  then show ?thesis using r a by (auto simp: ring_def)
qed

lemma ring_closed: "ring f F \<Longrightarrow> a \<in> F \<Longrightarrow> f a \<in> F"
  by (auto simp: ring_def follows_def)

text \<open>There is exactly one place for an element.\<close>

lemma ring_fits:
  assumes "ring f F" "p \<notin> F"
  shows "\<exists>q\<in>F. fits q (f q) p"
proof -
  have fin: "finite F" and ne: "F \<noteq> {}" and f: "\<And>a. a \<in> F \<Longrightarrow> follows F a (f a)" using assms(1) by (auto simp: ring_def)
  show ?thesis
  proof (cases "\<exists>x\<in>F. x < p")
    case True
    define q where "q = Max {x \<in> F. x < p}"
    have "{x \<in> F. x < p} \<noteq> {}" "finite {x \<in> F. x < p}" using fin True by auto
    then have "q \<in> {x \<in> F. x < p}" unfolding q_def by (rule Max_in [rotated])
    then have q: "q \<in> F" "q < p" "\<And>x. x \<in> F \<Longrightarrow> x < p \<Longrightarrow> x \<le> q" using fin by (auto simp: q_def)
    have "fits q (f q) p"
      using f [OF q(1)]
    proof (cases rule: followsE)
      case 1
      then have "p \<noteq> f q" "\<not> f q < p" using q assms(2) by fastforce+
      then show ?thesis using q(2) by (auto simp: fits_def)
    next
      case 2
      then show ?thesis using q by (auto simp: fits_def)
    qed
    with q(1) show ?thesis ..
  next
    case False
    define q where "q = Max F"
    have q: "q \<in> F" "\<And>x. x \<in> F \<Longrightarrow> x \<le> q" using fin ne by (auto simp: q_def)
    have "p < f q" using ring_closed [OF assms(1) q(1)] assms(2) False by (metis linorder_neqE)
    moreover have "f q \<le> q" using q ring_closed [OF assms(1) q(1)] by simp
    ultimately show ?thesis using q(1) by (auto simp: fits_def)
  qed
qed

lemma ring_fits_unique:
  assumes "ring f F" "p \<notin> F" "q \<in> F" "r \<in> F" "fits q (f q) p" "fits r (f r) p"
  shows "q = r"
proof -
  have "follows (insert p F) q p" "follows (insert p F) r p"
    using assms follows_insert_before [of F _ "f _" p] by (auto simp: ring_def)
  with assms show ?thesis using follows_inj by blast
qed

section \<open>The heap\<close>

definition heap_start :: nat where "heap_start = 0x80010000"

definition block_end :: "heap \<Rightarrow> addr \<Rightarrow> nat" where
  "block_end s a = unat a + 8 * unat (hdr_size s a)"

text \<open>\<open>F\<close> are the headers of the ring, \<open>A\<close> those of the live blocks.\<close>

definition blocks :: "addr \<Rightarrow> addr set \<Rightarrow> addr set \<Rightarrow> addr set" where
  "blocks base F A = (F - {base}) \<union> A"

definition heap_ok :: "addr \<Rightarrow> addr set \<Rightarrow> addr set \<Rightarrow> heap \<Rightarrow> bool" where
  "heap_ok base F A s \<longleftrightarrow>
     ring (hdr_ptr s) F \<and> base \<in> F \<and> base \<notin> A \<and> F \<inter> A = {} \<and> hdr_size s base = 0 \<and> base \<noteq> 0
     \<and> heap_start \<le> unat (membase s)
     \<and> (unat base < heap_start \<or> unat (membase s) < unat base)
     \<and> (\<forall>a\<in>blocks base F A. 0 < hdr_size s a \<and> heap_start \<le> unat a \<and> block_end s a \<le> unat (membase s))
     \<and> (\<forall>a\<in>blocks base F A. \<forall>b\<in>blocks base F A. a \<noteq> b \<longrightarrow> block_end s a \<le> unat b \<or> block_end s b \<le> unat a)
     \<and> (\<forall>x. heap_start \<le> x \<and> x < unat (membase s) \<longrightarrow> (\<exists>a\<in>blocks base F A. unat a \<le> x \<and> x < block_end s a))"

text \<open>No two free blocks touch.\<close>

definition coalesced :: "addr \<Rightarrow> addr set \<Rightarrow> heap \<Rightarrow> bool" where
  "coalesced base F s \<longleftrightarrow> (\<forall>a\<in>F - {base}. header_at a (hdr_size s a) \<notin> F)"

definition heap_inv :: "addr \<Rightarrow> addr set \<Rightarrow> addr set \<Rightarrow> heap \<Rightarrow> bool" where
  "heap_inv base F A s \<longleftrightarrow> heap_ok base F A s \<and> coalesced base F s \<and> allocp s \<in> F"

lemma heap_okD:
  assumes "heap_ok base F A s"
  shows "ring (hdr_ptr s) F" "base \<in> F" "base \<notin> A" "F \<inter> A = {}" "hdr_size s base = 0" "base \<noteq> 0"
    "unat base < heap_start \<or> unat (membase s) < unat base"
    "\<And>a. a \<in> blocks base F A \<Longrightarrow> 0 < unat (hdr_size s a)"
    "\<And>a. a \<in> blocks base F A \<Longrightarrow> heap_start \<le> unat a"
    "\<And>a. a \<in> blocks base F A \<Longrightarrow> block_end s a \<le> unat (membase s)"
    "\<And>a b. a \<in> blocks base F A \<Longrightarrow> b \<in> blocks base F A \<Longrightarrow> a \<noteq> b \<Longrightarrow> block_end s a \<le> unat b \<or> block_end s b \<le> unat a"
    "\<And>x. heap_start \<le> x \<Longrightarrow> x < unat (membase s) \<Longrightarrow> \<exists>a\<in>blocks base F A. unat a \<le> x \<and> x < block_end s a"
    "heap_start \<le> unat (membase s)"
  using assms unfolding heap_ok_def by (auto simp: word_less_nat_alt)

lemma heap_okI:
  assumes "ring (hdr_ptr s) F" "base \<in> F" "base \<notin> A" "F \<inter> A = {}" "hdr_size s base = 0" "base \<noteq> 0"
    "unat base < heap_start \<or> unat (membase s) < unat base"
    "\<And>a. a \<in> blocks base F A \<Longrightarrow> 0 < unat (hdr_size s a) \<and> heap_start \<le> unat a \<and> block_end s a \<le> unat (membase s)"
    "\<And>a b. a \<in> blocks base F A \<Longrightarrow> b \<in> blocks base F A \<Longrightarrow> a \<noteq> b \<Longrightarrow> block_end s a \<le> unat b \<or> block_end s b \<le> unat a"
    "\<And>x. heap_start \<le> x \<Longrightarrow> x < unat (membase s) \<Longrightarrow> \<exists>a\<in>blocks base F A. unat a \<le> x \<and> x < block_end s a"
    "heap_start \<le> unat (membase s)"
  shows "heap_ok base F A s"
  using assms unfolding heap_ok_def by (auto simp: word_less_nat_alt)

lemma unat_header_at:
  assumes "unat a + 8 * unat n < 4294967296"
  shows "unat (header_at a n) = unat a + 8 * unat n"
proof -
  have "unat (8 * n) = 8 * unat n" using assms by (simp add: unat_word_ariths)
  then show ?thesis using assms unfolding header_at_def by (subst unat_add_small) auto
qed

lemma block_end_less: "heap_ok base F A s \<Longrightarrow> a \<in> blocks base F A \<Longrightarrow> unat a < block_end s a \<and> block_end s a < 4294967296"
  using heap_okD(8,10) [of base F A s a] unsigned_less [of "membase s", where 'a = nat] by (simp add: block_end_def)

lemma touch_iff:
  assumes "heap_ok base F A s" "a \<in> blocks base F A"
  shows "header_at a (hdr_size s a) = b \<longleftrightarrow> block_end s a = unat b"
  using unat_header_at [of a "hdr_size s a"] block_end_less [OF assms] by (auto simp: block_end_def word_unat_eq_iff)

lemma heap_ok_link:
  assumes ok: "heap_ok base F (insert p A) s" and p: "p \<notin> A" and q: "q \<in> F" "fits q (hdr_ptr s q) p"
  shows "heap_ok base (insert p F) A (s\<lparr>hdr_ptr := (hdr_ptr s)(p := hdr_ptr s q, q := p)\<rparr>)"
proof -
  note d = heap_okD [OF ok]
  have "p \<notin> F" "p \<noteq> base" using d(3,4) by auto
  then have "blocks base (insert p F) A = blocks base F (insert p A)" by (auto simp: blocks_def)
  moreover have "ring ((hdr_ptr s)(p := hdr_ptr s q, q := p)) (insert p F)"
    using ring_insert [OF d(1) q(1) \<open>p \<notin> F\<close> q(2)] .
  ultimately show ?thesis
    using ok p by (simp add: heap_ok_def block_end_def)
qed

definition merge :: "addr \<Rightarrow> heap \<Rightarrow> heap" where
  "merge a s = s\<lparr>hdr_size := (hdr_size s)(a := hdr_size s a + hdr_size s (hdr_ptr s a)),
                 hdr_ptr := (hdr_ptr s)(a := hdr_ptr s (hdr_ptr s a))\<rparr>"

lemma heap_ok_merge:
  assumes ok: "heap_ok base F A s" and a: "a \<in> F" "a \<noteq> base" and t: "header_at a (hdr_size s a) = hdr_ptr s a"
  shows "heap_ok base (F - {hdr_ptr s a}) A (merge a s) \<and> hdr_ptr s a \<noteq> base \<and> hdr_ptr s a \<noteq> a
    \<and> hdr_ptr s a \<in> blocks base F A \<and> block_end (merge a s) a = block_end s (hdr_ptr s a)
    \<and> unat (hdr_size (merge a s) a) = unat (hdr_size s a) + unat (hdr_size s (hdr_ptr s a))"
proof -
  let ?n = "hdr_ptr s a"
  note d = heap_okD [OF ok]
  have A: "a \<in> blocks base F A" using a by (simp add: blocks_def)
  have e: "block_end s a = unat ?n" using t touch_iff [OF ok A] by simp
  have nb: "?n \<noteq> base" using e d(7) d(9,10) [OF A] block_end_less [OF ok A] by auto
  have na: "?n \<noteq> a" using e block_end_less [OF ok A] by auto
  have N: "?n \<in> blocks base F A" using ring_closed [OF d(1) a(1)] nb by (simp add: blocks_def)
  have "unat (hdr_size s a) + unat (hdr_size s ?n) < 4294967296"
    using e block_end_less [OF ok N] by (simp add: block_end_def)
  then have u: "unat (hdr_size s a + hdr_size s ?n) = unat (hdr_size s a) + unat (hdr_size s ?n)"
    by (subst unat_add_small) auto
  have ea: "block_end (merge a s) a = block_end s ?n" using e u by (simp add: block_end_def merge_def)
  have eo: "block_end (merge a s) b = block_end s b" if "b \<noteq> a" for b using that by (simp add: block_end_def merge_def)
  have B: "blocks base (F - {?n}) A = blocks base F A - {?n}" using d(4) N ring_closed [OF d(1) a(1)] by (auto simp: blocks_def)
  have ring: "ring (hdr_ptr (merge a s)) (F - {?n})" using ring_remove [OF d(1) a(1) na] by (simp add: merge_def)
  have size: "unat (hdr_size (merge a s) b) > 0" if "b \<in> blocks base F A" for b
    using d(8) [OF that] d(8) [OF A] u by (cases "b = a") (auto simp: merge_def)
  have sep: "block_end (merge a s) b \<le> unat c \<or> block_end (merge a s) c \<le> unat b"
    if "b \<in> blocks base F A" "c \<in> blocks base F A" "b \<noteq> ?n" "c \<noteq> ?n" "b \<noteq> c" for b c
    using d(11) [OF that(1,2,5)] d(11) [OF N that(1)] d(11) [OF N that(2)] that ea eo e block_end_less [OF ok that(1)]
      block_end_less [OF ok that(2)] block_end_less [OF ok N] by (cases "b = a"; cases "c = a") auto
  have cover: "\<exists>b\<in>blocks base F A - {?n}. unat b \<le> x \<and> x < block_end (merge a s) b"
    if x: "heap_start \<le> x" "x < unat (membase s)" for x
  proof -
    obtain b where b: "b \<in> blocks base F A" "unat b \<le> x" "x < block_end s b" using d(12) [OF x] by blast
    show ?thesis
    proof (cases "b = ?n \<or> b = a")
      case True
      have le: "unat a \<le> unat ?n" "block_end s a \<le> block_end s ?n"
        unfolding e [symmetric] using block_end_less [OF ok A] block_end_less [OF ok N] e by linarith+
      from True have "unat a \<le> x \<and> x < block_end s ?n"
      proof
        assume "b = ?n"
        then show ?thesis using le(1) b(2,3) by simp
      next
        assume "b = a"
        then show ?thesis using le(2) b(2,3) by simp
      qed
      then show ?thesis using A na by (intro bexI [of _ a]) (auto simp: ea)
    next
      case False
      with b eo show ?thesis by auto
    qed
  qed
  have "heap_ok base (F - {?n}) A (merge a s)"
  proof (rule heap_okI)
    show "unat base < heap_start \<or> unat (membase (merge a s)) < unat base" using d(7) by (simp add: merge_def)
    show "0 < unat (hdr_size (merge a s) b) \<and> heap_start \<le> unat b \<and> block_end (merge a s) b \<le> unat (membase (merge a s))"
      if "b \<in> blocks base (F - {?n}) A" for b
      using that size [of b] d(9,10) [of b] d(10) [OF N] ea eo [of b] unfolding B by (cases "b = a") (auto simp: merge_def)
    show "\<exists>b\<in>blocks base (F - {?n}) A. unat b \<le> x \<and> x < block_end (merge a s) b"
      if "heap_start \<le> x" "x < unat (membase (merge a s))" for x
      using that cover [of x] unfolding B by (simp add: merge_def)
  qed (use ring d(2-6,13) nb a(2) sep in \<open>auto simp: B merge_def\<close>)
  moreover have "unat (hdr_size (merge a s) a) = unat (hdr_size s a) + unat (hdr_size s ?n)" using u by (simp add: merge_def)
  ultimately show ?thesis using nb na ea N by blast
qed

section \<open>Giving back a block\<close>

lemma free_loop_ring:
  assumes r: "ring (hdr_ptr s) F" and p: "p \<notin> F" "0 \<notin> F" and a: "a \<in> F"
  shows "\<exists>q\<in>F. free_loop s p a = Some q \<and> fits q (hdr_ptr s q) p"
proof -
  obtain t where t: "t \<in> F" "fits t (hdr_ptr s t) p" using ring_fits [OF r p(1)] by blast
  have "free_loop s p a = Some t"
    using r t(1) a
  proof (induction rule: ring_induct)
    case here
    have "t \<noteq> 0" using t(1) p(2) by blast
    with t(2) show ?case by (subst free_loop.simps) (auto simp: fits_def)
  next
    case (step a)
    then have "\<not> fits a (hdr_ptr s a) p" "a \<noteq> 0" using ring_fits_unique [OF r p(1) t(1) _ t(2)] p(2) by auto
    with step show ?case by (subst free_loop.simps) (auto simp: fits_def)
  qed
  with t show ?thesis by blast
qed

text \<open>What \<open>free\<close> does with the headers: the block is linked, then two neighbours are merged.\<close>

definition linked :: "addr \<Rightarrow> addr \<Rightarrow> heap \<Rightarrow> heap" where
  "linked p q s = s\<lparr>hdr_ptr := (hdr_ptr s)(p := hdr_ptr s q, q := p)\<rparr>"

definition merge_if :: "addr \<Rightarrow> heap \<Rightarrow> heap" where
  "merge_if a s = (if header_at a (hdr_size s a) = hdr_ptr s a then merge a s else s)"

lemma join_linked:
  assumes "p \<noteq> q" "hdr_ptr s q \<noteq> p" "hdr_ptr s q \<noteq> q \<or> header_at p (hdr_size s p) \<noteq> q"
  shows "join_lower p q (join_upper p q s) = merge_if q (merge_if p (linked p q s))"
  using assms unfolding join_lower_def join_upper_def merge_if_def merge_def linked_def Let_def
  by (auto simp: fun_upd_twist)

text \<open>The free blocks that end where another begins.\<close>

definition touching :: "addr \<Rightarrow> addr set \<Rightarrow> heap \<Rightarrow> addr set" where
  "touching base F s = {a \<in> F - {base}. header_at a (hdr_size s a) \<in> F}"

lemma coalesced_touching: "coalesced base F s \<longleftrightarrow> touching base F s = {}"
  by (auto simp: coalesced_def touching_def)

lemma touching_follower:
  assumes ok: "heap_ok base F A s" and a: "a \<in> touching base F s"
  shows "header_at a (hdr_size s a) = hdr_ptr s a"
proof -
  let ?b = "header_at a (hdr_size s a)" and ?n = "hdr_ptr s a"
  note d = heap_okD [OF ok]
  have F: "a \<in> F" "?b \<in> F" and A: "a \<in> blocks base F A" using a by (auto simp: touching_def blocks_def)
  have e: "block_end s a = unat ?b" using touch_iff [OF ok A, THEN iffD1, OF refl] .
  have ab: "a < ?b" using e block_end_less [OF ok A] by (simp add: word_less_nat_alt)
  have "follows F a ?n" using d(1) F(1) by (simp add: ring_def)
  then show ?thesis
  proof (cases rule: followsE)
    case 1
    then have "?n \<le> ?b" using F ab by fastforce
    moreover have "\<not> ?n < ?b"
    proof
      assume lt: "?n < ?b"
      have "?n \<noteq> base" using d(7) d(9,10) [OF A] lt 1(2) e by (auto simp: word_less_nat_alt)
      then have N: "?n \<in> blocks base F A" using 1(1) by (simp add: blocks_def)
      then show False using d(11) [OF A N less_imp_neq [OF 1(2)]] lt 1(2) e block_end_less [OF ok N] by (auto simp: word_less_nat_alt)
    qed
    ultimately show ?thesis by simp
  next
    case 2
    then show ?thesis using F(2) ab by fastforce
  qed
qed

lemma touching_merge:
  assumes ok: "heap_ok base F A s" and a: "a \<in> F" "a \<noteq> base" and t: "header_at a (hdr_size s a) = hdr_ptr s a"
  shows "touching base (F - {hdr_ptr s a}) (merge a s) \<subseteq>
    (touching base F s - {a}) \<union> (if hdr_ptr s a \<in> touching base F s then {a} else {})"
proof -
  let ?n = "hdr_ptr s a"
  note m = heap_ok_merge [OF ok a t]
  have A: "a \<in> blocks base (F - {?n}) A" using a m by (auto simp: blocks_def)
  have "header_at a (hdr_size (merge a s) a) = header_at ?n (hdr_size s ?n)"
    using touch_iff [of base "F - {?n}" A "merge a s" a] touch_iff [OF ok, of ?n "header_at ?n (hdr_size s ?n)"] m A by auto
  moreover have "hdr_size (merge a s) b = hdr_size s b" if "b \<noteq> a" for b using that by (simp add: merge_def)
  moreover have "?n \<in> F - {base}" using m ring_closed [OF heap_okD(1) [OF ok] a(1)] by simp
  ultimately have "x \<in> touching base F s - {a} \<or> x = a \<and> ?n \<in> touching base F s"
    if "x \<in> touching base (F - {?n}) (merge a s)" for x
    using that by (cases "x = a") (simp_all add: touching_def)
  then show ?thesis by auto
qed

lemma ring_self: "ring f F \<Longrightarrow> a \<in> F \<Longrightarrow> f a = a \<Longrightarrow> F = {a}"
  unfolding ring_def follows_def by (metis antisym less_irrefl singletonI subsetI subset_singletonD ex_in_conv)

lemma heap_ok_allocp [simp]: "heap_ok base F A (s\<lparr>allocp := q\<rparr>) \<longleftrightarrow> heap_ok base F A s"
  by (simp add: heap_ok_def block_end_def)

lemma coalesced_allocp [simp]: "coalesced base F (s\<lparr>allocp := q\<rparr>) \<longleftrightarrow> coalesced base F s"
  by (simp add: coalesced_def)

lemma zero_not_in_ring: "heap_ok base F A s \<Longrightarrow> 0 \<notin> F"
  using heap_okD(6) [of base F A s] heap_okD(9) [of base F A s 0] by (auto simp: blocks_def heap_start_def)

lemma header_at_0 [simp]: "header_at a 0 = a"
  by (simp add: header_at_def)

text \<open>The merge of the block with the free block above it.\<close>

lemma merge_upper:
  assumes ok: "heap_ok base F A t" and p: "p \<in> F" "p \<noteq> base" "p \<notin> A" and q: "q \<in> F" "q \<noteq> p" "hdr_ptr t q = p"
    and to: "touching base F t \<subseteq> {p, q}" and n: "header_at p (hdr_size t p) \<noteq> q \<or> hdr_ptr t p \<noteq> q"
  shows "\<exists>F'. heap_ok base F' A (merge_if p t) \<and> p \<in> F' \<and> q \<in> F' \<and> touching base F' (merge_if p t) \<subseteq> {q}
    \<and> hdr_ptr (merge_if p t) q = p \<and> hdr_size t p \<le> hdr_size (merge_if p t) p
    \<and> (\<forall>a. a \<noteq> p \<longrightarrow> hdr_size (merge_if p t) a = hdr_size t a)"
proof (cases "header_at p (hdr_size t p) = hdr_ptr t p")
  case True
  note m = heap_ok_merge [OF ok p(1,2) True]
  have nq: "hdr_ptr t p \<noteq> q" using n True by auto
  then have "hdr_ptr t p \<notin> touching base F t" using to m by blast
  then have "touching base (F - {hdr_ptr t p}) (merge p t) \<subseteq> {q}"
    using touching_merge [OF ok p(1,2) True] to by auto
  moreover have "hdr_size t p \<le> hdr_size (merge p t) p" using m by (simp add: word_le_nat_alt)
  ultimately show ?thesis
    using True nq m p q by (intro exI [of _ "F - {hdr_ptr t p}"]) (auto simp: merge_if_def merge_def)
next
  case False
  then have "p \<notin> touching base F t" using touching_follower [OF ok] by blast
  with False ok p q to show ?thesis by (intro exI [of _ F]) (auto simp: merge_if_def)
qed

text \<open>Then the free block below it with the block.\<close>

lemma merge_lower:
  assumes ok: "heap_ok base F A t" and p: "p \<in> F" "p \<noteq> base" "p \<notin> A" and q: "q \<in> F" "q \<noteq> p" "hdr_ptr t q = p"
    and to: "touching base F t \<subseteq> {q}"
  shows "\<exists>F'. heap_ok base F' A (merge_if q t) \<and> q \<in> F' \<and> coalesced base F' (merge_if q t)
    \<and> (hdr_size t p \<le> hdr_size (merge_if q t) q \<or> hdr_size t p \<le> hdr_size (merge_if q t) (hdr_ptr (merge_if q t) q))
    \<and> (\<forall>a. a \<noteq> q \<longrightarrow> hdr_size (merge_if q t) a = hdr_size t a)"
proof (cases "header_at q (hdr_size t q) = p")
  case True
  then have qb: "q \<noteq> base" using heap_okD(5) [OF ok] q(2) by auto
  note m = heap_ok_merge [OF ok q(1) qb, unfolded q(3), OF True]
  have "touching base (F - {p}) (merge q t) = {}"
    using touching_merge [OF ok q(1) qb] to True q(2,3) by (auto split: if_splits)
  moreover have "hdr_size t p \<le> hdr_size (merge q t) q" using m by (simp add: word_le_nat_alt)
  ultimately show ?thesis
    using True m p q by (intro exI [of _ "F - {p}"]) (auto simp: merge_if_def merge_def coalesced_touching)
next
  case False
  then have "q \<notin> touching base F t" using touching_follower [OF ok, of q] q(3) by auto
  with False ok p q to show ?thesis by (intro exI [of _ F]) (auto simp: merge_if_def coalesced_touching)
qed

lemma free_inv:
  assumes ok: "heap_ok base F (insert p A) s" and pA: "p \<notin> A" and co: "coalesced base F s" and ap: "allocp s \<in> F"
  shows "\<exists>s' F'. free (p + 8) s = Some s' \<and> heap_inv base F' A s' \<and> membase s' = membase s
    \<and> (\<forall>a\<in>A. hdr_size s' a = hdr_size s a)
    \<and> (hdr_size s p \<le> hdr_size s' (allocp s') \<or> hdr_size s p \<le> hdr_size s' (hdr_ptr s' (allocp s')))"
proof -
  note d = heap_okD [OF ok]
  have p: "p \<notin> F" "p \<noteq> base" using d(3,4) by auto
  obtain q where q: "q \<in> F" "free_loop s p (allocp s) = Some q" "fits q (hdr_ptr s q) p"
    using free_loop_ring [OF d(1) p(1) zero_not_in_ring [OF ok] ap] by blast
  have pq: "p \<noteq> q" "hdr_ptr s q \<noteq> p" using p(1) q(1) ring_closed [OF d(1) q(1)] by auto
  define t where "t = linked p q s"
  have ok0: "heap_ok base (insert p F) A t" using heap_ok_link [OF ok pA q(1,3)] by (simp add: t_def linked_def)
  have t: "hdr_ptr t p = hdr_ptr s q" "hdr_ptr t q = p" "hdr_size t = hdr_size s" "membase t = membase s"
    using pq by (auto simp: t_def linked_def)
  have to: "touching base (insert p F) t \<subseteq> {p, q}"
  proof
    fix a assume a: "a \<in> touching base (insert p F) t"
    show "a \<in> {p, q}"
    proof (rule ccontr)
      assume n: "a \<notin> {p, q}"
      then have "a \<in> F - {base}" "header_at a (hdr_size s a) = hdr_ptr s a"
        using a touching_follower [OF ok0 a] t(3) by (auto simp: touching_def t_def linked_def)
      moreover from this have "header_at a (hdr_size s a) \<in> F" using ring_closed [OF d(1), of a] by simp
      ultimately show False using co unfolding coalesced_def by blast
    qed
  qed
  have n: "header_at p (hdr_size s p) \<noteq> q \<or> hdr_ptr s q \<noteq> q"
  proof (rule ccontr)
    assume "\<not> ?thesis"
    then have q': "header_at p (hdr_size t p) = hdr_ptr t p" "hdr_ptr s q = q" using t by auto
    then have "hdr_ptr t p = base" using ring_self [OF d(1) q(1)] d(2) t(1) by auto
    then show False using heap_ok_merge [OF ok0 _ p(2) q'(1)] by simp
  qed
  obtain F1 where 1: "heap_ok base F1 A (merge_if p t)" "p \<in> F1" "q \<in> F1" "touching base F1 (merge_if p t) \<subseteq> {q}"
    "hdr_ptr (merge_if p t) q = p" "hdr_size t p \<le> hdr_size (merge_if p t) p"
    "\<forall>a. a \<noteq> p \<longrightarrow> hdr_size (merge_if p t) a = hdr_size t a"
    using merge_upper [OF ok0 _ p(2) pA _ _ t(2) to, unfolded t] n q(1) pq(1) by (auto simp: t)
  let ?t1 = "merge_if p t" and ?t2 = "merge_if q (merge_if p t)"
  obtain F2 where 2: "heap_ok base F2 A ?t2" "q \<in> F2" "coalesced base F2 ?t2"
    "hdr_size ?t1 p \<le> hdr_size ?t2 q \<or> hdr_size ?t1 p \<le> hdr_size ?t2 (hdr_ptr ?t2 q)"
    "\<forall>a. a \<noteq> q \<longrightarrow> hdr_size ?t2 a = hdr_size ?t1 a"
    using merge_lower [OF 1(1,2) p(2) pA 1(3) pq(1)[symmetric] 1(5,4)] by auto
  have "free (p + 8) s = Some (?t2\<lparr>allocp := q\<rparr>)"
    using q(2) n by (simp add: free_def t_def join_linked [OF pq] disj_commute)
  moreover have "heap_inv base F2 A (?t2\<lparr>allocp := q\<rparr>)" using 2(1-3) by (simp add: heap_inv_def)
  moreover have "membase ?t2 = membase s" by (simp add: merge_if_def merge_def t(4))
  moreover have "hdr_size ?t2 a = hdr_size s a" if "a \<in> A" for a
    using that pA q(1) d(4) 1(7) 2(5) t(3) by (auto dest!: spec [of _ a])
  moreover have "hdr_size s p \<le> hdr_size ?t2 q \<or> hdr_size s p \<le> hdr_size ?t2 (hdr_ptr ?t2 q)"
    using 1(6) 2(4) unfolding t(3) by (meson order.trans)
  ultimately show ?thesis by (intro exI [of _ "?t2\<lparr>allocp := q\<rparr>"] exI [of _ F2]) simp
qed

section \<open>Taking a block\<close>

lemma take_block_inv:
  assumes inv: "heap_inv base F A s" and q: "q \<in> F" and n: "0 < n" "n \<le> hdr_size s (hdr_ptr s q)"
  shows "\<exists>r s' F'. take_block n (hdr_ptr s q) q s = (r + 8, s') \<and> heap_inv base F' (insert r A) s' \<and> r \<notin> A
    \<and> hdr_size s' r = n \<and> membase s' = membase s \<and> (\<forall>a\<in>A. hdr_size s' a = hdr_size s a)"
proof -
  let ?p = "hdr_ptr s q"
  have ok: "heap_ok base F A s" and co: "coalesced base F s" using inv by (auto simp: heap_inv_def)
  note d = heap_okD [OF ok]
  have p: "?p \<in> F" "?p \<noteq> base" using ring_closed [OF d(1) q] n d(5) by (auto simp: word_less_nat_alt word_le_nat_alt)
  then have P: "?p \<in> blocks base F A" and pA: "?p \<notin> A" using d(4) by (auto simp: blocks_def)
  have pq: "?p \<noteq> q"
  proof
    assume "?p = q"
    then have "F = {q}" using ring_self [OF d(1) q] by simp
    then show False using d(2) p by auto
  qed
  show ?thesis
  proof (cases "hdr_size s ?p = n")
    case True
    let ?s = "s\<lparr>hdr_ptr := (hdr_ptr s)(q := hdr_ptr s ?p), allocp := q\<rparr>"
    have B: "blocks base (F - {?p}) (insert ?p A) = blocks base F A" using p by (auto simp: blocks_def)
    have "heap_ok base (F - {?p}) (insert ?p A) ?s"
      using ring_remove [OF d(1) q pq] ok p by (auto simp: heap_ok_def B block_end_def)
    moreover have "coalesced base (F - {?p}) ?s" using co by (auto simp: coalesced_def)
    ultimately have "heap_inv base (F - {?p}) (insert ?p A) ?s" using q pq by (auto simp: heap_inv_def)
    then show ?thesis
      using True pA by (intro exI [of _ ?p] exI [of _ ?s] exI [of _ "F - {?p}"]) (simp add: take_block_def)
  next
    case False
    let ?rest = "hdr_size s ?p - n"
    let ?r = "header_at ?p ?rest"
    let ?s = "s\<lparr>hdr_size := (hdr_size s)(?p := ?rest, ?r := n), allocp := q\<rparr>"
    have lt: "unat n < unat (hdr_size s ?p)" "0 < unat n"
      using n False by (auto simp: word_less_nat_alt word_le_nat_alt le_less word_unat_eq_iff)
    have rest: "unat ?rest = unat (hdr_size s ?p) - unat n" using n by (simp add: unat_sub word_le_nat_alt)
    note e = block_end_less [OF ok P]
    have r: "unat ?r = unat ?p + 8 * unat ?rest" using e rest lt by (intro unat_header_at) (simp only: block_end_def, linarith)
    then have rp: "unat ?p < unat ?r" "unat ?r + 8 * unat n = block_end s ?p" using rest lt by (auto simp: block_end_def)
    have rB: "?r \<notin> blocks base F A"
    proof
      assume R: "?r \<in> blocks base F A"
      have "?p \<noteq> ?r" using rp(1) by auto
      from d(11) [OF P R this] show False using rp lt block_end_less [OF ok R] by auto
    qed
    have rb: "?r \<noteq> base" using d(7) d(9,10) [OF P] rp lt by auto
    have rF: "?r \<notin> F" "?r \<notin> A" "?p \<noteq> ?r" using rB rb rp by (auto simp: blocks_def)
    have B: "blocks base F (insert ?r A) = insert ?r (blocks base F A)" by (auto simp: blocks_def)
    have be: "block_end ?s ?p = unat ?r" "block_end ?s ?r = block_end s ?p"
      "\<And>b. b \<noteq> ?p \<Longrightarrow> b \<noteq> ?r \<Longrightarrow> block_end ?s b = block_end s b"
      using r rp rF by (auto simp: block_end_def)
    have sep: "block_end ?s b \<le> unat c \<or> block_end ?s c \<le> unat b"
      if "b \<in> blocks base F A" "c \<in> blocks base F A" "b \<noteq> c" for b c
    proof -
      have "b \<noteq> ?r" "c \<noteq> ?r" using that rB by auto
      then have "block_end ?s b \<le> block_end s b" "block_end ?s c \<le> block_end s c"
        using be(1) be(3) [of b] be(3) [of c] rp by (cases "b = ?p"; cases "c = ?p"; simp)+
      with d(11) [OF that] show ?thesis by linarith
    qed
    have sep_r: "block_end ?s ?r \<le> unat b \<or> block_end ?s b \<le> unat ?r" if "b \<in> blocks base F A" for b
    proof (cases "b = ?p")
      case False
      moreover have "b \<noteq> ?r" using that rB by auto
      ultimately show ?thesis using d(11) [OF that P] be rp lt by auto
    qed (use be in simp)
    have "heap_ok base F (insert ?r A) ?s"
    proof (rule heap_okI)
      show "0 < unat (hdr_size ?s a) \<and> heap_start \<le> unat a \<and> block_end ?s a \<le> unat (membase ?s)"
        if "a \<in> blocks base F (insert ?r A)" for a
      proof -
        have "a = ?r \<or> a \<in> blocks base F A" using that unfolding B by blast
        then show ?thesis
        proof
          assume "a = ?r"
          then show ?thesis using be(2) rp lt d(9,10) [OF P] by simp
        next
          assume a: "a \<in> blocks base F A"
          then have "a \<noteq> ?r" using rB by blast
          then show ?thesis using d(8-10) [OF a] be(1) be(3) [of a] rp rest lt rF(3) by (cases "a = ?p") simp_all
        qed
      qed
      show "block_end ?s a \<le> unat b \<or> block_end ?s b \<le> unat a"
        if "a \<in> blocks base F (insert ?r A)" "b \<in> blocks base F (insert ?r A)" "a \<noteq> b" for a b
        using that sep [of a b] sep_r [of a] sep_r [of b] unfolding B by auto
      show "\<exists>a\<in>blocks base F (insert ?r A). unat a \<le> x \<and> x < block_end ?s a"
        if x: "heap_start \<le> x" "x < unat (membase ?s)" for x
      proof -
        obtain b where b: "b \<in> blocks base F A" "unat b \<le> x" "x < block_end s b" using d(12) [of x] x by auto
        show ?thesis
        proof (cases "b = ?p")
          case True
          then show ?thesis using b be P unfolding B by (cases "x < unat ?r") auto
        next
          case False
          moreover have "b \<noteq> ?r" using b rB by auto
          ultimately show ?thesis using b be(3) unfolding B by auto
        qed
      qed
    qed (use d rF rb p in auto)
    moreover have "coalesced base F ?s" using co rF by (auto simp: coalesced_def)
    ultimately have "heap_inv base F (insert ?r A) ?s" using q by (auto simp: heap_inv_def)
    then show ?thesis
      using False rF pA by (intro exI [of _ ?r] exI [of _ ?s] exI [of _ F]) (auto simp: take_block_def Let_def)
  qed
qed

section \<open>Getting more from the system\<close>

text \<open>Where the heap must not grow to: the static header, if it lies above, or the end of the addresses.\<close>

definition heap_limit :: "addr \<Rightarrow> nat" where
  "heap_limit base = (if unat base < heap_start then 4294967296 else unat base)"

lemma more_units:
  assumes "unat n + 127 < 4294967296"
  shows "n \<le> more_units n" "unat (more_units n) \<le> unat n + 127"
proof -
  have "unat (n + 127) = unat n + 127" using assms by (subst unat_add_small) simp_all
  then have "unat ((n + 127) div 128) = (unat n + 127) div 128" by (simp add: unat_div)
  moreover have "128 * ((unat n + 127) div 128) < 4294967296" using assms by linarith
  ultimately have "unat (128 * ((n + 127) div 128)) = 128 * ((unat n + 127) div 128)"
    by (simp add: unat_word_ariths)
  moreover have "more_units n = 128 * ((n + 127) div 128)" by (simp add: more_units_def NALLOC_def add.commute)
  ultimately have "unat (more_units n) = 128 * ((unat n + 127) div 128)" by simp
  then show "n \<le> more_units n" "unat (more_units n) \<le> unat n + 127" by (simp_all add: word_le_nat_alt)
qed

lemma morecore_inv:
  assumes inv: "heap_inv base F A s" and n: "0 < n" "unat n + 127 < 4294967296"
    and room: "unat (membase s) + 8 * unat (more_units n) < heap_limit base"
  shows "\<exists>s' F'. morecore n s = Some (allocp s', s') \<and> heap_inv base F' A s'
    \<and> unat (membase s') = unat (membase s) + 8 * unat (more_units n) \<and> (\<forall>a\<in>A. hdr_size s' a = hdr_size s a)
    \<and> (n \<le> hdr_size s' (allocp s') \<or> n \<le> hdr_size s' (hdr_ptr s' (allocp s')))"
proof -
  have ok: "heap_ok base F A s" and co: "coalesced base F s" and ap: "allocp s \<in> F" using inv by (auto simp: heap_inv_def)
  note d = heap_okD [OF ok]
  let ?c = "membase s" and ?m = "more_units n"
  have lim: "heap_limit base \<le> 4294967296" using unsigned_less [of base, where 'a = nat] by (simp add: heap_limit_def)
  have m: "n \<le> ?m" "0 < unat ?m" using more_units(1) [OF n(2)] n(1) by (auto simp: word_le_nat_alt word_less_nat_alt)
  have "unat (?m * 8) = 8 * unat ?m" using room lim by (simp add: unat_word_ariths)
  then have mb: "unat (?c + ?m * 8) = unat ?c + 8 * unat ?m" using room lim by (subst unat_add_small) auto
  let ?s = "s\<lparr>membase := ?c + ?m * 8, hdr_size := (hdr_size s)(?c := ?m)\<rparr>"
  have cB: "?c \<notin> blocks base F A" using block_end_less [OF ok, of ?c] d(10) [of ?c] by auto
  have cb: "?c \<noteq> base" "unat base < heap_start \<or> unat (?c + ?m * 8) < unat base"
    using d(7,13) room m mb by (auto simp: heap_limit_def split: if_splits)
  have c: "?c \<notin> F" "?c \<notin> A" using cB cb by (auto simp: blocks_def)
  have B: "blocks base F (insert ?c A) = insert ?c (blocks base F A)" by (auto simp: blocks_def)
  have be: "block_end ?s ?c = unat ?c + 8 * unat ?m" "\<And>b. b \<noteq> ?c \<Longrightarrow> block_end ?s b = block_end s b"
    by (auto simp: block_end_def)
  have ok': "heap_ok base F (insert ?c A) ?s"
  proof (rule heap_okI)
    show "0 < unat (hdr_size ?s a) \<and> heap_start \<le> unat a \<and> block_end ?s a \<le> unat (membase ?s)"
      if "a \<in> blocks base F (insert ?c A)" for a
      using that d(8-10) [of a] d(13) m be mb cB unfolding B by (cases "a = ?c") auto
    show "block_end ?s a \<le> unat b \<or> block_end ?s b \<le> unat a"
      if "a \<in> blocks base F (insert ?c A)" "b \<in> blocks base F (insert ?c A)" "a \<noteq> b" for a b
      using that d(11) [of a b] d(10) [of a] d(10) [of b] be cB unfolding B by (cases "a = ?c"; cases "b = ?c") auto
    show "\<exists>a\<in>blocks base F (insert ?c A). unat a \<le> x \<and> x < block_end ?s a"
      if x: "heap_start \<le> x" "x < unat (membase ?s)" for x
    proof (cases "x < unat ?c")
      case True
      then obtain a where "a \<in> blocks base F A" "unat a \<le> x" "x < block_end s a" using d(12) x(1) by blast
      moreover from this have "a \<noteq> ?c" using cB by blast
      ultimately show ?thesis using be(2) [of a] unfolding B by (intro bexI [of _ a]) simp_all
    next
      case False
      then show ?thesis using x be(1) mb unfolding B by (intro bexI [of _ ?c]) auto
    qed
  qed (use d(1-6,13) c cb mb in auto)
  have co': "coalesced base F ?s" using co c by (auto simp: coalesced_def)
  have "allocp ?s \<in> F" using ap by simp
  from free_inv [OF ok' c(2) co' this] obtain s' F' where s': "free (?c + 8) ?s = Some s'" "heap_inv base F' A s'"
    "membase s' = ?c + ?m * 8" "\<forall>a\<in>A. hdr_size s' a = hdr_size ?s a"
    "?m \<le> hdr_size s' (allocp s') \<or> ?m \<le> hdr_size s' (hdr_ptr s' (allocp s'))"
    by auto
  have "?c \<noteq> 0" using d(13) by (auto simp: heap_start_def)
  then have "morecore n s = Some (allocp s', s')" using s'(1) by (simp add: morecore_def sbrk_def)
  moreover have "n \<le> hdr_size s' (allocp s') \<or> n \<le> hdr_size s' (hdr_ptr s' (allocp s'))"
    using s'(5) m(1) by (meson order.trans)
  moreover have "\<forall>a\<in>A. hdr_size s' a = hdr_size s a" using s'(4) c(2) by auto
  ultimately show ?thesis using s'(2,3) mb by metis
qed

section \<open>The search for a block\<close>

lemma malloc_loop_walk:
  assumes r: "ring (hdr_ptr s) F" and ap: "allocp s \<in> F" and q: "q \<in> F"
  shows "(\<exists>q'\<in>F. n \<le> hdr_size s (hdr_ptr s q') \<and> malloc_loop n (hdr_ptr s q) q s = Some (take_block n (hdr_ptr s q') q' s))
    \<or> \<not> n \<le> hdr_size s (allocp s) \<and> malloc_loop n (hdr_ptr s q) q s =
        do { (p', s') \<leftarrow> morecore n s; if p' = 0 then Some (0, s') else malloc_loop n (hdr_ptr s' p') p' s' }"
    (is "?P q")
proof -
  have "\<forall>q\<in>F. hdr_ptr s q = p \<longrightarrow> ?P q" if "p \<in> F" for p
    using r ap that
  proof (induction rule: ring_induct)
    case here
    show ?case
    proof (intro ballI impI)
      fix q assume "q \<in> F" "hdr_ptr s q = allocp s"
      then show "?P q" by (cases "n \<le> hdr_size s (allocp s)") (auto simp: malloc_loop.simps intro!: bexI [of _ q])
    qed
  next
    case (step p)
    have "?P p" using step by blast
    show ?case
    proof (intro ballI impI)
      fix q assume q: "q \<in> F" "hdr_ptr s q = p"
      show "?P q"
      proof (cases "n \<le> hdr_size s p")
        case True
        with q show ?thesis by (auto simp: malloc_loop.simps intro!: bexI [of _ q])
      next
        case False
        with step(2) q have "malloc_loop n (hdr_ptr s q) q s = malloc_loop n (hdr_ptr s p) p s" by (simp add: malloc_loop.simps)
        with \<open>?P p\<close> show ?thesis by simp
      qed
    qed
  qed
  with ring_closed [OF r q] q show ?thesis by blast
qed

lemma malloc_loop_inv:
  assumes inv: "heap_inv base F A s" and q: "q \<in> F" and n: "0 < n" "unat n + 127 < 4294967296"
    and room: "unat (membase s) + 8 * unat (more_units n) < heap_limit base"
  shows "\<exists>r s' F'. malloc_loop n (hdr_ptr s q) q s = Some (r + 8, s') \<and> heap_inv base F' (insert r A) s' \<and> r \<notin> A
    \<and> hdr_size s' r = n \<and> unat (membase s') \<le> unat (membase s) + 8 * unat (more_units n) \<and> (\<forall>a\<in>A. hdr_size s' a = hdr_size s a)"
proof -
  have taken: "\<exists>r s' F'. Some (take_block n (hdr_ptr t x) x t) = Some (r + 8, s') \<and> heap_inv base F' (insert r A) s' \<and> r \<notin> A
    \<and> hdr_size s' r = n \<and> membase s' = membase t \<and> (\<forall>a\<in>A. hdr_size s' a = hdr_size t a)"
    if "heap_inv base G A t" "x \<in> G" "n \<le> hdr_size t (hdr_ptr t x)" for t G x
    using take_block_inv [OF that(1,2) n(1) that(3)] by simp
  have r: "ring (hdr_ptr s) F" and ap: "allocp s \<in> F" using inv by (auto simp: heap_inv_def heap_ok_def)
  from malloc_loop_walk [OF r ap q, of n] show ?thesis
  proof
    assume "\<exists>q'\<in>F. n \<le> hdr_size s (hdr_ptr s q') \<and> malloc_loop n (hdr_ptr s q) q s = Some (take_block n (hdr_ptr s q') q' s)"
    then show ?thesis using taken [OF inv] by fastforce
  next
    assume m: "\<not> n \<le> hdr_size s (allocp s) \<and> malloc_loop n (hdr_ptr s q) q s =
        do { (p', s') \<leftarrow> morecore n s; if p' = 0 then Some (0, s') else malloc_loop n (hdr_ptr s' p') p' s' }"
    obtain t G where t: "morecore n s = Some (allocp t, t)" "heap_inv base G A t"
      "unat (membase t) = unat (membase s) + 8 * unat (more_units n)" "\<forall>a\<in>A. hdr_size t a = hdr_size s a"
      "n \<le> hdr_size t (allocp t) \<or> n \<le> hdr_size t (hdr_ptr t (allocp t))"
      using morecore_inv [OF inv n room] by blast
    have tG: "ring (hdr_ptr t) G" "allocp t \<in> G" "0 \<notin> G"
      using t(2) zero_not_in_ring [of base G A t] by (auto simp: heap_inv_def heap_ok_def)
    then have l: "malloc_loop n (hdr_ptr s q) q s = malloc_loop n (hdr_ptr t (allocp t)) (allocp t) t" using m t(1) by auto
    have "\<exists>q'\<in>G. n \<le> hdr_size t (hdr_ptr t q') \<and> malloc_loop n (hdr_ptr t (allocp t)) (allocp t) t = Some (take_block n (hdr_ptr t q') q' t)"
      using t(5)
    proof
      assume "n \<le> hdr_size t (allocp t)"
      then show ?thesis using malloc_loop_walk [OF tG(1,2,2), of n] by blast
    next
      assume "n \<le> hdr_size t (hdr_ptr t (allocp t))"
      then show ?thesis using tG(2) by (intro bexI [of _ "allocp t"]) (auto simp: malloc_loop.simps)
    qed
    then obtain q' where q': "q' \<in> G" "n \<le> hdr_size t (hdr_ptr t q')" "malloc_loop n (hdr_ptr s q) q s = Some (take_block n (hdr_ptr t q') q' t)"
      unfolding l by blast
    from taken [OF t(2) q'(1,2)] show ?thesis unfolding q'(3) using t(3,4) by fastforce
  qed
qed

section \<open>Calls\<close>

definition has_room :: "addr \<Rightarrow> u32 \<Rightarrow> heap \<Rightarrow> bool" where
  "has_room base n s \<longleftrightarrow> unat (membase s) + unat n + 1040 < heap_limit base"

lemma malloc_units:
  assumes "unat n + 7 < 4294967296"
  shows "unat (malloc_units n) = (unat n + 7) div 8 + 1"
proof -
  have "unat (n + 7) = unat n + 7" using assms by (subst unat_add_small) simp_all
  then have u: "unat ((n + 7) div 8) = (unat n + 7) div 8" by (simp add: unat_div)
  have "(unat n + 7) div 8 + 1 < 4294967296" using assms by linarith
  then have "unat ((n + 7) div 8 + 1) = (unat n + 7) div 8 + 1" using u by (subst unat_add_small) simp_all
  moreover have "malloc_units n = (n + 7) div 8 + 1" by (simp add: malloc_units_def add.commute)
  ultimately show ?thesis by simp
qed

lemma malloc_units_wrap: "0xfffffff8 < n \<Longrightarrow> malloc_units n = 1"
proof -
  assume n: "0xfffffff8 < n"
  have "unat n < 4294967296" using unsigned_less [of n, where 'a = nat] by simp
  then have "unat (n + 7) = unat n + 7 - 4294967296" "unat n + 7 - 4294967296 < 8"
    using n by (auto simp: unat_word_ariths word_less_nat_alt mod_if)
  then have "unat ((n + 7) div 8) = 0" by (simp add: unat_div)
  then have "(n + 7) div 8 = 0" by (simp add: unat_eq_zero)
  then show ?thesis by (simp add: malloc_units_def add.commute)
qed

text \<open>Before the first call: no ring.\<close>

definition unused :: "heap \<Rightarrow> bool" where
  "unused s \<longleftrightarrow> allocp s = 0 \<and> unat (membase s) = heap_start"

lemma first_ring:
  assumes "unused s" "base \<noteq> 0" "unat (membase s) < heap_limit base"
  shows "heap_inv base {base} {} (s\<lparr>hdr_ptr := (hdr_ptr s)(base := base), allocp := base, hdr_size := (hdr_size s)(base := 0)\<rparr>)"
  using assms by (auto simp: heap_inv_def heap_ok_def coalesced_def blocks_def ring_def follows_def unused_def heap_limit_def split: if_splits)

lemma malloc_units_inv:
  assumes inv: "heap_inv base F A s \<or> unused s \<and> A = {}" and b: "base \<noteq> 0" and u: "0 < malloc_units n" "unat (malloc_units n) + 127 < 4294967296"
    and room: "unat (membase s) + 8 * unat (more_units (malloc_units n)) < heap_limit base"
  shows "\<exists>r s' F'. malloc base n s = Some (r + 8, s') \<and> heap_inv base F' (insert r A) s' \<and> r \<notin> A
    \<and> hdr_size s' r = malloc_units n \<and> (\<forall>a\<in>A. hdr_size s' a = hdr_size s a)
    \<and> unat (membase s') \<le> unat (membase s) + 8 * unat (more_units (malloc_units n))"
  using inv
proof
  assume i: "heap_inv base F A s"
  then have a: "allocp s \<in> F" "allocp s \<noteq> 0" using zero_not_in_ring [of base F A s] by (auto simp: heap_inv_def)
  then show ?thesis using malloc_loop_inv [OF i a(1) u room] by (auto simp: malloc_def Let_def)
next
  assume i: "unused s \<and> A = {}"
  let ?s = "s\<lparr>hdr_ptr := (hdr_ptr s)(base := base), allocp := base, hdr_size := (hdr_size s)(base := 0)\<rparr>"
  have "heap_inv base {base} A ?s" using first_ring [of s base] i b room by auto
  from malloc_loop_inv [OF this, of base, OF _ u] show ?thesis
    using room i by (auto simp: malloc_def Let_def unused_def)
qed

lemma malloc_inv:
  assumes inv: "heap_inv base F A s \<or> unused s \<and> A = {}" and b: "base \<noteq> 0" and room: "has_room base n s"
  shows "\<exists>r s' F'. malloc base n s = Some (r + 8, s') \<and> heap_inv base F' (insert r A) s' \<and> r \<notin> A
    \<and> unat n + 8 \<le> 8 * unat (hdr_size s' r) \<and> (\<forall>a\<in>A. hdr_size s' a = hdr_size s a)
    \<and> unat (membase s') \<le> unat (membase s) + unat n + 1031"
proof -
  have lim: "heap_limit base \<le> 4294967296" using unsigned_less [of base, where 'a = nat] by (simp add: heap_limit_def)
  then have n: "unat n + 1040 < 4294967296" using room by (simp add: has_room_def)
  then have u: "unat (malloc_units n) = (unat n + 7) div 8 + 1" by (intro malloc_units) simp
  then have u': "0 < malloc_units n" "unat (malloc_units n) + 127 < 4294967296" "unat n + 8 \<le> 8 * unat (malloc_units n)"
    using n by (auto simp: word_less_nat_alt)
  have "8 * unat (malloc_units n) \<le> unat n + 15" using u by linarith
  then have g: "8 * unat (more_units (malloc_units n)) \<le> unat n + 1031" using more_units(2) [OF u'(2)] by linarith
  then have "unat (membase s) + 8 * unat (more_units (malloc_units n)) < heap_limit base"
    using room unfolding has_room_def by linarith
  from malloc_units_inv [OF inv b u'(1,2) this] obtain r s' F' where r: "malloc base n s = Some (r + 8, s')"
    "heap_inv base F' (insert r A) s'" "r \<notin> A" "hdr_size s' r = malloc_units n" "\<forall>a\<in>A. hdr_size s' a = hdr_size s a"
    "unat (membase s') \<le> unat (membase s) + 8 * unat (more_units (malloc_units n))" by blast
  have "unat n + 8 \<le> 8 * unat (hdr_size s' r)" using u'(3) r(4) by simp
  moreover have "unat (membase s') \<le> unat (membase s) + unat n + 1031" using r(6) g by linarith
  ultimately show ?thesis using r by blast
qed

text \<open>With all blocks given back the heap is one free block again.\<close>

lemma all_free:
  assumes inv: "heap_inv base F {} s" and m: "heap_start < unat (membase s)"
  shows "F = {base, 0x80010000} \<and> block_end s 0x80010000 = unat (membase s) \<and> base \<noteq> 0x80010000"
proof -
  have ok: "heap_ok base F {} s" and co: "coalesced base F s" using inv by (auto simp: heap_inv_def)
  note d = heap_okD [OF ok]
  have B: "blocks base F {} = F - {base}" by (simp add: blocks_def)
  obtain h where h: "h \<in> F - {base}" "unat h \<le> heap_start" using d(12) [of heap_start] m B by auto
  then have "unat h = heap_start" using d(9) [of h] B by auto
  then have h0: "h = 0x80010000" by (simp add: word_unat_eq_iff heap_start_def)
  have hB: "h \<in> blocks base F {}" using h B by simp
  have e: "block_end s h = unat (membase s)"
  proof (rule ccontr)
    assume "block_end s h \<noteq> unat (membase s)"
    then have lt: "block_end s h < unat (membase s)" using d(10) [OF hB] by simp
    moreover have "heap_start \<le> block_end s h" using block_end_less [OF ok hB] \<open>unat h = heap_start\<close> by simp
    ultimately obtain b where b: "b \<in> blocks base F {}" "unat b \<le> block_end s h" "block_end s h < block_end s b"
      using d(12) [of "block_end s h"] by blast
    then have "b \<noteq> h" by auto
    then have "block_end s h = unat b" using d(11) [OF hB b(1)] b block_end_less [OF ok hB] by auto
    then have "header_at h (hdr_size s h) = b" using touch_iff [OF ok hB] by simp
    then show False using co h b(1) B by (auto simp: coalesced_def)
  qed
  have "a = h" if "a \<in> F - {base}" for a
  proof (rule ccontr)
    assume "a \<noteq> h"
    moreover have "a \<in> blocks base F {}" using that B by simp
    ultimately show False
      using d(11) [OF _ hB, of a] d(9,10) [of a] e block_end_less [OF ok, of a] \<open>unat h = heap_start\<close> by auto
  qed
  then show ?thesis using h h0 d(2) e by auto
qed

section \<open>Histories of calls\<close>

text \<open>\<open>M\<close> maps the pointers that are in use to the numbers of bytes they were requested with.  The program
  writes to the bytes of its blocks only, so that the headers change in the calls only.\<close>

inductive heap_reach :: "addr \<Rightarrow> (addr \<Rightarrow> nat option) \<Rightarrow> heap \<Rightarrow> bool" for base where
  start: "unused s \<Longrightarrow> heap_reach base Map.empty s"
| alloc: "heap_reach base M s \<Longrightarrow> has_room base n s \<Longrightarrow> malloc base n s = Some (p, s') \<Longrightarrow> heap_reach base (M(p \<mapsto> unat n)) s'"
| release: "heap_reach base M s \<Longrightarrow> M p = Some n \<Longrightarrow> free p s = Some s' \<Longrightarrow> heap_reach base (M(p := None)) s'"

definition live :: "(addr \<Rightarrow> nat option) \<Rightarrow> addr set" where
  "live M = (\<lambda>p. p - 8) ` dom M"

definition sized :: "(addr \<Rightarrow> nat option) \<Rightarrow> heap \<Rightarrow> bool" where
  "sized M s \<longleftrightarrow> (\<forall>p n. M p = Some n \<longrightarrow> n + 8 \<le> 8 * unat (hdr_size s (p - 8)))"

lemma heap_reach_inv:
  assumes "heap_reach base M s" "base \<noteq> 0"
  shows "(\<exists>F. heap_inv base F (live M) s) \<and> sized M s \<or> unused s \<and> M = Map.empty"
  using assms
proof (induction rule: heap_reach.induct)
  case (start s)
  then show ?case by simp
next
  case (alloc M s n p s')
  then obtain F where "heap_inv base F (live M) s \<or> unused s \<and> live M = {}" "sized M s"
    by (auto simp: live_def sized_def)
  from malloc_inv [OF this(1) alloc.prems alloc.hyps(2)] obtain r t G where r: "malloc base n s = Some (r + 8, t)"
    "heap_inv base G (insert r (live M)) t" "r \<notin> live M" "unat n + 8 \<le> 8 * unat (hdr_size t r)" "\<forall>a\<in>live M. hdr_size t a = hdr_size s a"
    by auto
  then have p: "p = r + 8" "s' = t" using alloc.hyps(3) by auto
  have "live (M(p \<mapsto> unat n)) = insert r (live M)" by (auto simp: live_def p(1))
  moreover have "sized (M(p \<mapsto> unat n)) s'"
    using \<open>sized M s\<close> r(4,5) unfolding sized_def p live_def by (auto simp: domI)
  ultimately show ?case using r(2) unfolding p(2) by metis
next
  case (release M s p n s')
  then obtain F where F: "heap_inv base F (live M) s" "sized M s" by auto
  define A where "A = live (M(p := None))"
  have A: "live M = insert (p - 8) A" "p - 8 \<notin> A" using release.hyps(2) by (auto simp: A_def live_def image_iff)
  obtain t G where t: "free p s = Some t" "heap_inv base G A t" "\<forall>a\<in>A. hdr_size t a = hdr_size s a"
    using free_inv [of base F "p - 8" A s] F(1) A by (auto simp: heap_inv_def)
  have "sized (M(p := None)) t"
    using F(2) t(3) unfolding sized_def A_def live_def by (auto simp: domI)
  moreover have "s' = t" using t(1) release.hyps(3) by simp
  ultimately show ?case using t(2) unfolding A_def by metis
qed

lemma heap_reach_alloc:
  assumes r: "heap_reach base M s" and b: "base \<noteq> 0" and room: "has_room base n s"
  shows "\<exists>p s'. malloc base n s = Some (p, s') \<and> p \<noteq> 0 \<and> M p = None \<and> heap_reach base (M(p \<mapsto> unat n)) s'
    \<and> unat (membase s') \<le> unat (membase s) + unat n + 1031"
proof -
  obtain F where "heap_inv base F (live M) s \<or> unused s \<and> live M = {}"
    using heap_reach_inv [OF r b] by (auto simp: live_def)
  from malloc_inv [OF this b room] obtain x t G where x: "malloc base n s = Some (x + 8, t)"
    "heap_inv base G (insert x (live M)) t" "x \<notin> live M" "unat (membase t) \<le> unat (membase s) + unat n + 1031"
    by blast
  have "x \<in> blocks base G (insert x (live M))" by (simp add: blocks_def)
  then have "heap_start \<le> unat x" "block_end t x < 4294967296" "0 < unat (hdr_size t x)"
    using heap_okD(8,9) [of base G _ t x] block_end_less [of base G _ t x] x(2) by (auto simp: heap_inv_def)
  then have "unat (x + 8) = unat x + 8" by (subst unat_add_small) (auto simp: block_end_def)
  then have "x + 8 \<noteq> 0" by (auto simp: word_unat_eq_iff)
  moreover have "M (x + 8) = None" using x(3) by (force simp: live_def image_iff)
  ultimately show ?thesis using x(1,4) heap_reach.alloc [OF r room x(1)] by blast
qed

lemma heap_reach_release:
  assumes r: "heap_reach base M s" and b: "base \<noteq> 0" and p: "M p = Some n"
  shows "\<exists>s'. free p s = Some s' \<and> heap_reach base (M(p := None)) s' \<and> membase s' = membase s"
proof -
  obtain F where F: "heap_inv base F (live M) s" using heap_reach_inv [OF r b] p by auto
  define A where "A = live (M(p := None))"
  have A: "live M = insert (p - 8) A" "p - 8 \<notin> A" using p by (auto simp: A_def live_def image_iff)
  obtain t where "free p s = Some t" "membase t = membase s"
    using free_inv [of base F "p - 8" A s] F A by (auto simp: heap_inv_def)
  with heap_reach.release [OF r p] show ?thesis by blast
qed

lemma heap_reach_block:
  assumes r: "heap_reach base M s" and b: "base \<noteq> 0" and p: "M p = Some n"
  shows "heap_start + 8 \<le> unat p \<and> unat p + n \<le> unat (membase s) \<and> unat (membase s) < heap_limit base"
proof -
  obtain F where F: "heap_ok base F (live M) s" "sized M s" using heap_reach_inv [OF r b] p by (auto simp: heap_inv_def)
  have B: "p - 8 \<in> blocks base F (live M)" using p by (force simp: blocks_def live_def)
  have "unat (p - 8) + 8 < 4294967296"
    using block_end_less [OF F(1) B] heap_okD(8) [OF F(1) B] by (simp add: block_end_def)
  then have "unat (p - 8 + 8) = unat (p - 8) + 8" by (subst unat_add_small) simp_all
  then have u: "unat p = unat (p - 8) + 8" by simp
  then have "unat p + n \<le> block_end s (p - 8)" using F(2) p by (force simp: sized_def block_end_def)
  moreover have "unat (membase s) < heap_limit base"
    using heap_okD(7) [OF F(1)] unsigned_less [of "membase s", where 'a = nat] by (auto simp: heap_limit_def)
  ultimately show ?thesis using heap_okD(9,10) [OF F(1) B] u by linarith
qed

section \<open>Properties\<close>

text \<open>C2: in every history of calls of \<open>malloc\<close> and \<open>free\<close> in which every \<open>malloc\<close> has room (\<open>has_room\<close>: the size and
  1040 bytes more lie below the limit of the heap) the bytes of blocks in use lie in the heap and never
  overlap; between any two there is the header of the upper one.  Without room they can: \<open>sbrk\<close> goes on
  above the limit, and the rounding of a size near \<open>2 ^ 32\<close> wraps.\<close>

theorem live_blocks_disjoint:
  assumes "heap_reach base M s" and "base \<noteq> 0" and "M p = Some n" and "M q = Some m" and "p \<noteq> q"
  shows "heap_start + 8 \<le> unat p \<and> unat p + n \<le> unat (membase s)
    \<and> (unat p + n + 8 \<le> unat q \<or> unat q + m + 8 \<le> unat p)"
proof -
  obtain F where F: "heap_ok base F (live M) s" "sized M s"
    using heap_reach_inv [OF assms(1,2)] assms(3) by (auto simp: heap_inv_def)
  have B: "x - 8 \<in> blocks base F (live M)" if "M x = Some k" for x k using that by (force simp: blocks_def live_def)
  have x: "unat x = unat (x - 8) + 8" "heap_start \<le> unat (x - 8)" "unat x + k \<le> block_end s (x - 8)"
    "block_end s (x - 8) \<le> unat (membase s)" if "M x = Some k" for x k
  proof -
    show "heap_start \<le> unat (x - 8)" "block_end s (x - 8) \<le> unat (membase s)" using heap_okD(9,10) [OF F(1) B [OF that]] .
    have "unat (x - 8) + 8 < 4294967296"
      using block_end_less [OF F(1) B [OF that]] heap_okD(8) [OF F(1) B [OF that]] by (simp add: block_end_def)
    then have "unat (x - 8 + 8) = unat (x - 8) + 8" by (subst unat_add_small) simp_all
    then show "unat x = unat (x - 8) + 8" by simp
    then show "unat x + k \<le> block_end s (x - 8)" using F(2) that by (force simp: sized_def block_end_def)
  qed
  have "p - 8 \<noteq> q - 8" using assms(5) by simp
  from heap_okD(11) [OF F(1) B [OF assms(3)] B [OF assms(4)] this] x [OF assms(3)] x [OF assms(4)]
  show ?thesis by linarith
qed

definition demo_start :: heap where
  "demo_start = \<lparr>hdr_ptr = (\<lambda>_. 0), hdr_size = (\<lambda>_. 0), allocp = 0, membase = 0x80010000\<rparr>"

lemma demo_reach: "heap_reach 0x9fd00000 Map.empty demo_start"
  by (rule heap_reach.start) (simp add: unused_def heap_start_def demo_start_def)

lemma demo_room: "unat (membase s) \<le> 0x80100000 \<Longrightarrow> unat n \<le> 1000 \<Longrightarrow> has_room 0x9fd00000 n s"
  by (simp add: has_room_def heap_limit_def heap_start_def)

lemma demo_one:
  "\<exists>p s. heap_reach 0x9fd00000 [p \<mapsto> 10] s \<and> unat (membase s) \<le> heap_start + 1041"
proof -
  have "has_room 0x9fd00000 10 demo_start" by (rule demo_room) (simp_all add: demo_start_def)
  from heap_reach_alloc [OF demo_reach _ this] show ?thesis by (auto simp: demo_start_def heap_start_def)
qed

lemma demo_two:
  "\<exists>p q M s. heap_reach 0x9fd00000 M s \<and> M p = Some 10 \<and> M q = Some 20 \<and> p \<noteq> q"
proof -
  obtain p s where p: "heap_reach 0x9fd00000 [p \<mapsto> 10] s" "unat (membase s) \<le> heap_start + 1041" using demo_one by blast
  then have "has_room 0x9fd00000 20 s" by (intro demo_room) (simp_all add: heap_start_def)
  from heap_reach_alloc [OF p(1) _ this] obtain q s' where q: "heap_reach 0x9fd00000 ([p \<mapsto> 10](q \<mapsto> 20)) s'" "[p \<mapsto> (10 :: nat)] q = None"
    by fastforce
  then have "p \<noteq> q" "([p \<mapsto> 10](q \<mapsto> 20)) p = Some 10" "([p \<mapsto> 10](q \<mapsto> 20)) q = Some (20 :: nat)" by (auto split: if_splits)
  with q(1) show ?thesis by metis
qed

theorem live_blocks_disjoint_witness:
  "\<exists>p q M s. heap_reach 0x9fd00000 M s \<and> M p = Some 10 \<and> M q = Some 20
    \<and> (unat p + 18 \<le> unat q \<or> unat q + 28 \<le> unat p)"
proof -
  obtain p q M s where r: "heap_reach 0x9fd00000 M s" "M p = Some 10" "M q = Some 20" "p \<noteq> q" using demo_two by blast
  then have "unat p + 10 + 8 \<le> unat q \<or> unat q + 20 + 8 \<le> unat p" using live_blocks_disjoint [OF r(1) _ r(2-4)] by simp
  then have "unat p + 18 \<le> unat q \<or> unat q + 28 \<le> unat p" by linarith
  with r show ?thesis by blast
qed

text \<open>C3: as long as the heap is at least 1040 bytes and the request away from the static header, \<open>malloc\<close> ends
  and returns a pointer that is not null and not in use, and the heap grows by at most 1031 bytes more
  than were requested; \<open>free\<close> ends for every pointer in use.\<close>

theorem malloc_and_free_return:
  assumes "heap_reach base M s" and "base \<noteq> 0"
  shows "(has_room base n s \<longrightarrow> (\<exists>p s'. malloc base n s = Some (p, s') \<and> p \<noteq> 0 \<and> M p = None
      \<and> heap_reach base (M(p \<mapsto> unat n)) s' \<and> unat (membase s') \<le> unat (membase s) + unat n + 1031))
    \<and> (\<forall>p\<in>dom M. \<exists>s'. free p s = Some s' \<and> heap_reach base (M(p := None)) s')"
  using heap_reach_alloc [OF assms, of n] heap_reach_release [OF assms] by blast

theorem malloc_and_free_return_witness:
  "\<exists>p s'. malloc 0x9fd00000 10 demo_start = Some (p, s') \<and> p \<noteq> 0"
proof -
  have "has_room 0x9fd00000 10 demo_start" by (rule demo_room) (simp_all add: demo_start_def)
  with malloc_and_free_return [OF demo_reach, of 10] show ?thesis by auto
qed

text \<open>C4: when every block has been given back the heap is a single free block again, in a ring with the static
  header: nothing is lost and all neighbours have been merged.\<close>

theorem free_merges_all:
  assumes "heap_reach base Map.empty s" and "base \<noteq> 0" and "heap_start < unat (membase s)"
  shows "hdr_ptr s base = 0x80010000 \<and> hdr_ptr s 0x80010000 = base
    \<and> heap_start + 8 * unat (hdr_size s 0x80010000) = unat (membase s)"
proof -
  have l: "live Map.empty = {}" by (simp add: live_def)
  have "\<not> unused s" using assms(3) by (simp add: unused_def)
  then obtain F where F: "heap_inv base F {} s" using heap_reach_inv [OF assms(1,2)] l by auto
  note a = all_free [OF F assms(3)]
  then have "ring (hdr_ptr s) {base, 0x80010000}" using F by (auto simp: heap_inv_def heap_ok_def)
  then have f: "follows {base, 0x80010000} base (hdr_ptr s base)" "follows {base, 0x80010000} 0x80010000 (hdr_ptr s 0x80010000)"
    by (auto simp: ring_def)
  have "hdr_ptr s base = 0x80010000" using f(1) a by (auto simp: follows_def)
  moreover have "hdr_ptr s 0x80010000 = base" using f(2) a by (auto simp: follows_def)
  moreover have "heap_start + 8 * unat (hdr_size s 0x80010000) = unat (membase s)" using a by (simp add: block_end_def heap_start_def)
  ultimately show ?thesis by blast
qed

theorem free_merges_all_witness:
  "\<exists>s. heap_reach 0x9fd00000 Map.empty s \<and> hdr_ptr s 0x9fd00000 = 0x80010000 \<and> hdr_ptr s 0x80010000 = 0x9fd00000
    \<and> heap_start + 8 * unat (hdr_size s 0x80010000) = unat (membase s)"
proof -
  obtain p s where r: "heap_reach 0x9fd00000 [p \<mapsto> 10] s" using demo_one by blast
  then obtain F where "heap_inv 0x9fd00000 F (live [p \<mapsto> 10]) s" using heap_reach_inv [OF r] by auto
  then have "heap_ok 0x9fd00000 F (live [p \<mapsto> 10]) s" "p - 8 \<in> blocks 0x9fd00000 F (live [p \<mapsto> 10])"
    by (auto simp: heap_inv_def blocks_def live_def)
  then have m: "heap_start < unat (membase s)"
    using heap_okD(9,10) [of "0x9fd00000" F "live [p \<mapsto> 10]" s "p - 8"] block_end_less [of "0x9fd00000" F "live [p \<mapsto> 10]" s "p - 8"] by auto
  obtain t where t: "heap_reach 0x9fd00000 ([p \<mapsto> 10](p := None)) t" "membase t = membase s"
    using heap_reach_release [OF r, of p 10] by auto
  then have "heap_reach 0x9fd00000 Map.empty t" by simp
  from free_merges_all [OF this] this m t(2) show ?thesis by auto
qed

text \<open>The number of bytes is rounded up modulo \<open>2 ^ 32\<close>: a request of \<open>0xfffffff9\<close> or more bytes gets a
  block that is a header and no byte.\<close>

theorem malloc_wraps:
  assumes "heap_reach base M s" and "base \<noteq> 0" and "has_room base 0 s" and "0xfffffff8 < n"
  shows "\<exists>p s'. malloc base n s = Some (p, s') \<and> hdr_size s' (p - 8) = 1"
proof -
  obtain F where F: "heap_inv base F (live M) s \<or> unused s \<and> live M = {}"
    using heap_reach_inv [OF assms(1,2)] by (auto simp: live_def)
  have u: "malloc_units n = 1" using malloc_units_wrap [OF assms(4)] .
  have "more_units 1 = 128" by (simp add: more_units_def NALLOC_def)
  then have "unat (membase s) + 8 * unat (more_units (malloc_units n)) < heap_limit base"
    using assms(3) by (simp add: u has_room_def)
  from malloc_units_inv [OF F assms(2) _ _ this] show ?thesis by (auto simp: u)
qed

theorem malloc_wraps_witness:
  "\<exists>p s'. malloc 0x9fd00000 0xfffffffc demo_start = Some (p, s') \<and> hdr_size s' (p - 8) = 1"
proof -
  have "has_room 0x9fd00000 0 demo_start" by (rule demo_room) (simp_all add: demo_start_def)
  from malloc_wraps [OF demo_reach _ this, of "0xfffffffc"] show ?thesis by simp
qed

end
