(* ===== verification/Irq.thy ===== *)
theory Irq
  imports Board Malloc
begin

text \<open>
  The interrupts of \<^verbatim>\<open>lib/irq.c\<close> with \<^verbatim>\<open>include/irq.h\<close>: the table of descriptors, the two
  interrupt controllers, the chains of actions that handlers are registered in, and the dispatch from
  the cause register to the handlers.  Function pointers of the file are a datatype, those of handlers
  are addresses with a meaning \<open>hnd\<close> on histories of device events; \<open>request_irq\<close> gets its cells from
  \<open>malloc\<close>.  Shown: \<open>ffs\<close> finds the lowest bit; after the initialisation and any requests the chains are
  whole, and an interrupt runs the handlers that were requested for it, in that order, masked and
  acknowledged before and unmasked after.
\<close>

unbundle bit_operations_syntax

section \<open>The program\<close>

definition clz :: "u32 \<Rightarrow> nat" where
  "clz w = length (takeWhile (\<lambda>i. \<not> bit w (31 - i)) [0..<32])"

definition fls :: "u32 \<Rightarrow> nat" where
  "fls w = 32 - clz w"

definition ffs :: "u32 \<Rightarrow> nat" where
  "ffs w = (if w = 0 then 0 else fls (w AND - w))"

text \<open>The functions that the controllers point to, the descriptors and the actions.\<close>

datatype chip_fn =
    Ack_sb2f | Disable_sb2f | Enable_sb2f | Set_type_sb2f
  | Ack_dma | Disable_dma | Enable_dma | End_dma
  | Default_enable | Default_disable | Default_startup

record irq_chip =
  chip_startup :: "chip_fn option"
  chip_shutdown :: "chip_fn option"
  chip_enable :: "chip_fn option"
  chip_disable :: "chip_fn option"
  chip_ack :: "chip_fn option"
  chip_mask :: "chip_fn option"
  chip_unmask :: "chip_fn option"
  chip_eoi :: "chip_fn option"
  chip_end :: "chip_fn option"
  chip_set_type :: "chip_fn option"

datatype chip_id = Sb2f_chip | Dma_chip

datatype flow_handler = Handle_level_irq

record irq_desc =
  handle_irq :: "flow_handler option"
  desc_chip :: "chip_id option"
  desc_action :: addr

record irqaction =
  act_handler :: addr
  act_flags :: u32
  act_name :: addr
  act_irq :: u32
  act_dev :: addr

record irq_state =
  descs :: "irq_desc list"
  chips :: "chip_id \<Rightarrow> irq_chip"
  actions :: "addr \<Rightarrow> irqaction"
  act_next :: "addr \<Rightarrow> addr"
  tick_cnt :: u32

definition sb2f_board_irq_chip :: irq_chip where
  "sb2f_board_irq_chip = \<lparr>chip_startup = None, chip_shutdown = None, chip_enable = None, chip_disable = None,
     chip_ack = Some Ack_sb2f, chip_mask = Some Disable_sb2f, chip_unmask = Some Enable_sb2f,
     chip_eoi = Some Enable_sb2f, chip_end = None, chip_set_type = Some Set_type_sb2f\<rparr>"

definition ls1gp_dma_irq_chip :: irq_chip where
  "ls1gp_dma_irq_chip = \<lparr>chip_startup = None, chip_shutdown = None, chip_enable = None, chip_disable = None,
     chip_ack = Some Ack_dma, chip_mask = Some Disable_dma, chip_unmask = Some Enable_dma,
     chip_eoi = Some Enable_dma, chip_end = Some End_dma, chip_set_type = None\<rparr>"

text \<open>The registers of the controllers.\<close>

definition icreg :: "u32 \<Rightarrow> u32 \<Rightarrow> addr" where
  "icreg n offset = 0xbfd01040 + 24 * n + offset"

definition dmareg :: "u32 \<Rightarrow> addr" where
  "dmareg offset = 0xbc000000 + offset"

definition irq_bit :: "u32 \<Rightarrow> u32" where
  "irq_bit i = push_bit (unat (i AND 0x1f)) 1"

definition modify :: "device \<Rightarrow> addr \<Rightarrow> (u32 \<Rightarrow> u32) \<Rightarrow> history \<Rightarrow> history" where
  "modify d a f h = (let (v, h1) = load d a h in store a (f v) h1)"

definition ack_sb2f_board_irq :: "device \<Rightarrow> u32 \<Rightarrow> history \<Rightarrow> history" where
  "ack_sb2f_board_irq d i = modify d (icreg (drop_bit 5 i) 12) (\<lambda>v. v OR irq_bit i)"

definition disable_sb2f_board_irq :: "device \<Rightarrow> u32 \<Rightarrow> history \<Rightarrow> history" where
  "disable_sb2f_board_irq d i = modify d (icreg (drop_bit 5 i) 4) (\<lambda>v. v AND NOT (irq_bit i))"

definition enable_sb2f_board_irq :: "device \<Rightarrow> u32 \<Rightarrow> history \<Rightarrow> history" where
  "enable_sb2f_board_irq d i = modify d (icreg (drop_bit 5 i) 4) (\<lambda>v. v OR irq_bit i)"

definition DMA_IRQ_BASE :: u32 where "DMA_IRQ_BASE = 168"

definition disable_ls1gp_dma_irq :: "device \<Rightarrow> u32 \<Rightarrow> history \<Rightarrow> history" where
  "disable_ls1gp_dma_irq d i =
     (if i < DMA_IRQ_BASE + 8 then modify d (dmareg 4) (\<lambda>v. v AND NOT (irq_bit (i - DMA_IRQ_BASE)))
      else modify d (dmareg 8) (\<lambda>v. v AND NOT (irq_bit (i - DMA_IRQ_BASE - 8))))"

definition enable_ls1gp_dma_irq :: "device \<Rightarrow> mem \<Rightarrow> u32 \<Rightarrow> history \<Rightarrow> history option" where
  "enable_ls1gp_dma_irq d strs i h =
     (if i < DMA_IRQ_BASE + 8
      then do { h1 \<leftarrow> say strs (ln ''rd irq_nr %d'') [i - DMA_IRQ_BASE] h;
                Some (modify d (dmareg 4) (\<lambda>v. v OR irq_bit (i - DMA_IRQ_BASE)) h1) }
      else Some (modify d (dmareg 8) (\<lambda>v. v OR irq_bit (i - DMA_IRQ_BASE - 8)) h))"

definition ack_ls1gp_dma_irq :: "u32 \<Rightarrow> history \<Rightarrow> history" where
  "ack_ls1gp_dma_irq i h =
     (if i < DMA_IRQ_BASE + 8 then store (dmareg 12) (irq_bit (i - DMA_IRQ_BASE)) h
      else store (dmareg 16) (irq_bit (i - DMA_IRQ_BASE - 8)) h)"

text \<open>A call through a pointer of a controller; \<open>None\<close> when a pointer on the way is null.\<close>

definition irq_desc_at :: "irq_state \<Rightarrow> u32 \<Rightarrow> irq_desc option" where
  "irq_desc_at st i = (if i < 256 then Some (descs st ! unat i) else None)"

definition irq_chip_of :: "irq_state \<Rightarrow> u32 \<Rightarrow> irq_chip option" where
  "irq_chip_of st i = do { desc \<leftarrow> irq_desc_at st i; c \<leftarrow> desc_chip desc; Some (chips st c) }"

partial_function (option) call_fn :: "device \<Rightarrow> mem \<Rightarrow> irq_state \<Rightarrow> chip_fn \<Rightarrow> u32 \<Rightarrow> history \<Rightarrow> history option" where
  "call_fn d strs st f i h =
     (case f of
        Ack_sb2f \<Rightarrow> Some (ack_sb2f_board_irq d i h)
      | Disable_sb2f \<Rightarrow> Some (disable_sb2f_board_irq d i h)
      | Enable_sb2f \<Rightarrow> Some (enable_sb2f_board_irq d i h)
      | Set_type_sb2f \<Rightarrow> Some h
      | Ack_dma \<Rightarrow> Some (ack_ls1gp_dma_irq i h)
      | Disable_dma \<Rightarrow> Some (disable_ls1gp_dma_irq d i h)
      | Enable_dma \<Rightarrow> enable_ls1gp_dma_irq d strs i h
      | End_dma \<Rightarrow> enable_ls1gp_dma_irq d strs i h
      | Default_enable \<Rightarrow> do { c \<leftarrow> irq_chip_of st i; g \<leftarrow> chip_unmask c; call_fn d strs st g i h }
      | Default_disable \<Rightarrow> Some h
      | Default_startup \<Rightarrow> do { c \<leftarrow> irq_chip_of st i; g \<leftarrow> chip_enable c; call_fn d strs st g i h })"

declare call_fn.simps [code]

text \<open>The handlers: \<open>no_action\<close> does nothing, the others are not in the file.\<close>

record irq_layout =
  cascade_irqaction :: addr
  no_action :: addr

type_synonym handlers = "addr \<Rightarrow> addr \<Rightarrow> history \<Rightarrow> history option"

definition call_handler :: "irq_layout \<Rightarrow> handlers \<Rightarrow> irqaction \<Rightarrow> history \<Rightarrow> history option" where
  "call_handler l hnd a h = (if act_handler a = no_action l then Some h else hnd (act_handler a) (act_dev a) h)"

partial_function (option) handle_IRQ_event :: "irq_layout \<Rightarrow> handlers \<Rightarrow> irq_state \<Rightarrow> addr \<Rightarrow> history \<Rightarrow> history option" where
  "handle_IRQ_event l hnd st a h =
     (if a = 0 then None
      else do { h1 \<leftarrow> call_handler l hnd (actions st a) h;
                if act_next st a = 0 then Some h1 else handle_IRQ_event l hnd st (act_next st a) h1 })"

declare handle_IRQ_event.simps [code]

definition handle_level_irq :: "irq_layout \<Rightarrow> device \<Rightarrow> mem \<Rightarrow> handlers \<Rightarrow> irq_state \<Rightarrow> u32 \<Rightarrow> history \<Rightarrow> history option" where
  "handle_level_irq l d strs hnd st i h =
     do { desc \<leftarrow> irq_desc_at st i; c \<leftarrow> irq_chip_of st i;
          msk \<leftarrow> chip_mask c; h \<leftarrow> call_fn d strs st msk i h;
          ack \<leftarrow> chip_ack c; h \<leftarrow> call_fn d strs st ack i h;
          h \<leftarrow> handle_IRQ_event l hnd st (desc_action desc) h;
          unmsk \<leftarrow> chip_unmask c; call_fn d strs st unmsk i h }"

definition generic_handle_irq :: "irq_layout \<Rightarrow> device \<Rightarrow> mem \<Rightarrow> handlers \<Rightarrow> irq_state \<Rightarrow> u32 \<Rightarrow> history \<Rightarrow> history option" where
  "generic_handle_irq l d strs hnd st i h =
     do { desc \<leftarrow> irq_desc_at st i;
          flow \<leftarrow> handle_irq desc;
          case flow of Handle_level_irq \<Rightarrow> handle_level_irq l d strs hnd st i h }"

definition ls1gp_board_dma_irqdispatch :: "irq_layout \<Rightarrow> device \<Rightarrow> mem \<Rightarrow> handlers \<Rightarrow> irq_state \<Rightarrow> history \<Rightarrow> history option" where
  "ls1gp_board_dma_irqdispatch l d strs hnd st h =
     (let (wr, h) = load d (dmareg 16) h; (rd, h) = load d (dmareg 12) h;
          intstatus = push_bit 8 (wr AND 0xff) OR (rd AND 0xff); irq = ffs intstatus
      in if irq = 0 then say strs (ln ''Unknow dma interrupt status %x '') [intstatus] h
         else generic_handle_irq l d strs hnd st (DMA_IRQ_BASE + of_nat irq - 1) h)"

definition ls1b_board_hw_irqdispatch ::
    "irq_layout \<Rightarrow> device \<Rightarrow> mem \<Rightarrow> handlers \<Rightarrow> irq_state \<Rightarrow> u32 \<Rightarrow> history \<Rightarrow> history option" where
  "ls1b_board_hw_irqdispatch l d strs hnd st n h =
     (let (intstatus, h) = load d (icreg n 0) h; irq = ffs intstatus
      in if irq = 0 then say strs (ln ''Unknow interrpt intstatus %x'') [intstatus] h
         else if n = 1 \<and> irq = 11 then ls1gp_board_dma_irqdispatch l d strs hnd st h
         else generic_handle_irq l d strs hnd st (n * 32 + of_nat irq - 1) h)"

definition ST0_IM :: u32 where "ST0_IM = 0x0000ff00"

text \<open>\<open>MYOPROFILE\<close> is not defined.  Registers of coprocessor 0: 9 is the count, 11 the compare register,
  12 the status and 13 the cause.\<close>

definition timer_tick :: "device \<Rightarrow> mem \<Rightarrow> irq_state \<Rightarrow> history \<Rightarrow> (irq_state \<times> history) option" where
  "timer_tick d strs st h =
     do { h \<leftarrow> say strs (ln ''cnt %d'') [tick_cnt st] h;
          let (count, h) = mfc0 d 9 h;
          Some (st\<lparr>tick_cnt := tick_cnt st + 1\<rparr>, mtc0 11 (count + 100000000 div 100) h) }"

definition plat_irq_dispatch ::
    "irq_layout \<Rightarrow> device \<Rightarrow> mem \<Rightarrow> handlers \<Rightarrow> irq_state \<Rightarrow> history \<Rightarrow> (irq_state \<times> history) option" where
  "plat_irq_dispatch l d strs hnd st h =
     (let (cause, h) = mfc0 d 13 h; (status, h) = mfc0 d 12 h;
          pending = (cause AND ST0_IM) AND (status AND ST0_IM);
          bank = (\<lambda>n. do { h \<leftarrow> ls1b_board_hw_irqdispatch l d strs hnd st n h; Some (st, h) })
      in if bit pending 15 then timer_tick d strs st h
         else if bit pending 10 then bank 0
         else if bit pending 11 then bank 1
         else if bit pending 12 then bank 2
         else if bit pending 13 then bank 3
         else if bit pending 14 then bank 4
         else do { h \<leftarrow> say strs (ln ''spurious interrupt'') [] h; Some (st, h) })"

section \<open>Registration\<close>

definition irq_chip_set_defaults :: "irq_chip \<Rightarrow> irq_chip" where
  "irq_chip_set_defaults c =
     (let c = (if chip_enable c = None then c\<lparr>chip_enable := Some Default_enable\<rparr> else c);
          c = (if chip_disable c = None then c\<lparr>chip_disable := Some Default_disable\<rparr> else c);
          c = (if chip_startup c = None then c\<lparr>chip_startup := Some Default_startup\<rparr> else c)
      in if chip_shutdown c = None then c\<lparr>chip_shutdown := chip_disable c\<rparr> else c)"

definition set_irq_chip_and_handler :: "u32 \<Rightarrow> chip_id \<Rightarrow> flow_handler \<Rightarrow> irq_state \<Rightarrow> irq_state option" where
  "set_irq_chip_and_handler i c flow st =
     (if i < 256
      then Some (st\<lparr>chips := (chips st)(c := irq_chip_set_defaults (chips st c)),
                    descs := (descs st)[unat i := (descs st ! unat i)\<lparr>desc_chip := Some c, handle_irq := Some flow\<rparr>]\<rparr>)
      else None)"

fun set_irq_range :: "u32 \<Rightarrow> nat \<Rightarrow> chip_id \<Rightarrow> irq_state \<Rightarrow> irq_state option" where
  "set_irq_range i 0 c st = Some st"
| "set_irq_range i (Suc n) c st = do { st \<leftarrow> set_irq_chip_and_handler i c Handle_level_irq st; set_irq_range (i + 1) n c st }"

definition ls1gp_dma_irq_init :: "irq_state \<Rightarrow> irq_state option" where
  "ls1gp_dma_irq_init = set_irq_range DMA_IRQ_BASE 16 Dma_chip"

definition sb2f_board_irq_init :: "irq_state \<Rightarrow> irq_state option" where
  "sb2f_board_irq_init = set_irq_range 0 160 Sb2f_chip"

partial_function (option) last_action :: "irq_state \<Rightarrow> addr \<Rightarrow> addr option" where
  "last_action st a = (if act_next st a = 0 then Some a else last_action st (act_next st a))"

declare last_action.simps [code]

definition IRQF_TRIGGER_MASK :: u32 where "IRQF_TRIGGER_MASK = 0xf"

definition setup_irq :: "device \<Rightarrow> mem \<Rightarrow> u32 \<Rightarrow> addr \<Rightarrow> irq_state \<Rightarrow> history \<Rightarrow> (irq_state \<times> history) option" where
  "setup_irq d strs i new st h =
     do { desc \<leftarrow> irq_desc_at st i;
          if desc_action desc \<noteq> 0
          then do { a \<leftarrow> last_action st (desc_action desc); Some (st\<lparr>act_next := (act_next st)(a := new)\<rparr>, h) }
          else do {
            let st = st\<lparr>descs := (descs st)[unat i := desc\<lparr>desc_action := new\<rparr>]\<rparr>;
            c \<leftarrow> desc_chip desc;
            let st = st\<lparr>chips := (chips st)(c := irq_chip_set_defaults (chips st c))\<rparr>;
            h \<leftarrow> (if act_flags (actions st new) AND IRQF_TRIGGER_MASK \<noteq> 0
                  then (case chip_set_type (chips st c) of None \<Rightarrow> Some h | Some f \<Rightarrow> call_fn d strs st f i h)
                  else Some h);
            h \<leftarrow> (case chip_startup (chips st c) of
                    Some f \<Rightarrow> call_fn d strs st f i h
                  | None \<Rightarrow> do { f \<leftarrow> chip_enable (chips st c); call_fn d strs st f i h });
            Some (st, h) } }"

definition EINVAL :: int where "EINVAL = 22"
definition ENOMEM :: int where "ENOMEM = 12"

text \<open>On success no value is returned.\<close>

definition request_irq ::
    "device \<Rightarrow> mem \<Rightarrow> addr \<Rightarrow> u32 \<Rightarrow> addr \<Rightarrow> u32 \<Rightarrow> addr \<Rightarrow> addr \<Rightarrow> irq_state \<Rightarrow> heap \<Rightarrow> history
     \<Rightarrow> (int option \<times> irq_state \<times> heap \<times> history) option" where
  "request_irq d strs base i handler irqflags devname dev_id st hp h =
     (if handler = 0 then Some (Some (- EINVAL), st, hp, h)
      else do { (action, hp) \<leftarrow> malloc base 24 hp;
                if action = 0 then Some (Some (- ENOMEM), st, hp, h)
                else do {
                  let st = st\<lparr>actions := (actions st)(action := \<lparr>act_handler = handler, act_flags = irqflags, act_name = devname,
                                act_irq = i, act_dev = dev_id\<rparr>), act_next := (act_next st)(action := 0)\<rparr>;
                  (st, h) \<leftarrow> setup_irq d strs i action st h;
                  Some (None, st, hp, h) } })"

fun init_banks :: "nat \<Rightarrow> u32 \<Rightarrow> history \<Rightarrow> history" where
  "init_banks 0 n h = h"
| "init_banks (Suc k) n h =
     init_banks k (n + 1) (store (icreg n 12) 0xffffffff (store (icreg n 20) 0 (store (icreg n 16) (- 1) h)))"

definition clear_c0_status :: "device \<Rightarrow> u32 \<Rightarrow> history \<Rightarrow> history" where
  "clear_c0_status d m h = (let (res, h) = mfc0 d 12 h in mtc0 12 (res AND NOT m) h)"

definition set_c0_status :: "device \<Rightarrow> u32 \<Rightarrow> history \<Rightarrow> history" where
  "set_c0_status d m h = (let (res, h) = mfc0 d 12 h in mtc0 12 (res OR m) h)"

definition init_IRQ :: "irq_layout \<Rightarrow> device \<Rightarrow> mem \<Rightarrow> irq_state \<Rightarrow> history \<Rightarrow> (irq_state \<times> history) option" where
  "init_IRQ l d strs st h =
     do { let h = init_banks 5 0 h;
          st \<leftarrow> sb2f_board_irq_init st;
          st \<leftarrow> ls1gp_dma_irq_init st;
          (st, h) \<leftarrow> setup_irq d strs (32 + 10) (cascade_irqaction l) st h;
          Some (st, set_c0_status d 0x7f01 (clear_c0_status d ST0_IM h)) }"

text \<open>The state that the program starts with.\<close>

definition irq_start :: "irq_layout \<Rightarrow> irq_state \<Rightarrow> bool" where
  "irq_start l st \<longleftrightarrow>
     descs st = replicate 256 \<lparr>handle_irq = None, desc_chip = None, desc_action = 0\<rparr>
     \<and> chips st = (\<lambda>c. case c of Sb2f_chip \<Rightarrow> sb2f_board_irq_chip | Dma_chip \<Rightarrow> ls1gp_dma_irq_chip)
     \<and> act_handler (actions st (cascade_irqaction l)) = no_action l \<and> act_flags (actions st (cascade_irqaction l)) = 0
     \<and> act_dev (actions st (cascade_irqaction l)) = 0
     \<and> act_next st (cascade_irqaction l) = 0"

section \<open>The lowest bit\<close>

lemma odd_and_minus: "odd (v :: u32) \<Longrightarrow> v AND - v = 1"
proof -
  assume o: "odd v"
  have "bit (v - 1) i = (0 < i \<and> bit v i)" for i
    using o even_bit_succ_iff [of "v - 1" i] by (cases "i = 0") (auto simp: bit_0)
  then have b: "bit (v - 1) = (\<lambda>i. 0 < i \<and> bit v i)" by blast
  have "- v = NOT (v - 1)" by (rule minus_eq_not_minus_1)
  then have "bit (v AND - v) i = bit (1 :: u32) i" for i
    using o by (auto simp: bit_and_iff bit_not_iff b bit_1_iff bit_0 dest: bit_imp_le_length)
  then show ?thesis by (rule bit_eqI)
qed

lemma and_minus_lowest:
  assumes "bit (w :: u32) b" "\<And>c. c < b \<Longrightarrow> \<not> bit w c"
  shows "w AND - w = push_bit b 1"
proof -
  define v where "v = drop_bit b w"
  have w: "w = push_bit b v"
  proof (rule bit_eqI)
    fix n
    have "b \<le> n" if "bit w n" using assms(2) that by (meson not_le)
    then show "bit w n = bit (push_bit b v) n" by (auto simp: v_def bit_simps dest: bit_imp_le_length)
  qed
  have "odd v" using assms(1) by (simp add: v_def bit_iff_odd_drop_bit)
  have "w AND - w = push_bit b v AND push_bit b (- v)" by (simp add: w push_bit_minus)
  then show ?thesis by (simp add: odd_and_minus [OF \<open>odd v\<close>] flip: push_bit_and)
qed

lemma fls_push_bit: "b < 32 \<Longrightarrow> fls (push_bit b 1) = b + 1"
proof -
  assume b: "b < 32"
  have "[0..<32] = [0..<31 - b] @ [31 - b..<32]"
    using upt_add_eq_append [of 0 "31 - b" "Suc b"] b by simp
  also have "[31 - b..<32] = (31 - b) # [Suc (31 - b)..<32]" using b by (simp add: upt_conv_Cons)
  finally have "takeWhile (\<lambda>i. \<not> bit (push_bit b 1 :: u32) (31 - i)) [0..<32] = [0..<31 - b]"
    using b by (auto simp: takeWhile_append bit_simps)
  then show ?thesis using b by (simp add: fls_def clz_def)
qed

lemma ffs_lowest:
  assumes "bit w b" "\<And>c. c < b \<Longrightarrow> \<not> bit w c"
  shows "ffs w = b + 1"
proof -
  have "b < 32" using bit_imp_le_length [OF assms(1)] by simp
  moreover have "w \<noteq> 0" using assms(1) by auto
  ultimately show ?thesis using and_minus_lowest [OF assms] using fls_push_bit [of b] by (simp add: ffs_def)
qed

section \<open>Chains of actions\<close>

text \<open>Which controller an interrupt belongs to, and the controllers after the initialisation.\<close>

definition chip_of :: "nat \<Rightarrow> chip_id option" where
  "chip_of k = (if k < 160 then Some Sb2f_chip else if 168 \<le> k \<and> k < 184 then Some Dma_chip else None)"

definition first_chip :: "chip_id \<Rightarrow> irq_chip" where
  "first_chip c = (case c of Sb2f_chip \<Rightarrow> sb2f_board_irq_chip | Dma_chip \<Rightarrow> ls1gp_dma_irq_chip)"

definition ready_chip :: "chip_id \<Rightarrow> irq_chip" where
  "ready_chip c = irq_chip_set_defaults (first_chip c)"

definition wired :: "irq_state \<Rightarrow> bool" where
  "wired st \<longleftrightarrow> length (descs st) = 256 \<and> chips st = ready_chip
     \<and> (\<forall>k<256. desc_chip (descs st ! k) = chip_of k
          \<and> handle_irq (descs st ! k) = map_option (\<lambda>_. Handle_level_irq) (chip_of k))"

text \<open>\<open>R i\<close>: the handlers requested for \<open>i\<close>, with their arguments; \<open>X i\<close>: the cells of its chain.\<close>

type_synonym requests = "u32 \<Rightarrow> (addr \<times> addr) list"

definition chained :: "requests \<Rightarrow> (u32 \<Rightarrow> addr list) \<Rightarrow> addr set \<Rightarrow> irq_state \<Rightarrow> bool" where
  "chained R X K st \<longleftrightarrow>
     (\<forall>i<256. lseg (act_next st) (desc_action (descs st ! unat i)) (X i) 0
        \<and> map (\<lambda>a. (act_handler (actions st a), act_dev (actions st a))) (X i) = R i \<and> set (X i) \<subseteq> K)
     \<and> (\<forall>i<256. \<forall>j<256. i \<noteq> j \<longrightarrow> set (X i) \<inter> set (X j) = {})"

lemma set_defaults_idem [simp]: "irq_chip_set_defaults (irq_chip_set_defaults c) = irq_chip_set_defaults c"
  by (cases "chip_enable c"; cases "chip_disable c"; cases "chip_startup c"; cases "chip_shutdown c")
     (simp_all add: irq_chip_set_defaults_def)

lemma ready_chip_fields [simp]:
  "chip_startup (ready_chip c) = Some Default_startup"
  "chip_enable (ready_chip c) = Some Default_enable"
  "chip_mask (ready_chip c) = chip_mask (first_chip c)"
  "chip_ack (ready_chip c) = chip_ack (first_chip c)"
  "chip_unmask (ready_chip c) = chip_unmask (first_chip c)"
  "chip_set_type (ready_chip c) = chip_set_type (first_chip c)"
  by (cases c; simp add: ready_chip_def first_chip_def irq_chip_set_defaults_def sb2f_board_irq_chip_def ls1gp_dma_irq_chip_def)+

lemma set_defaults_ready [simp]: "irq_chip_set_defaults (ready_chip c) = ready_chip c"
  by (simp add: ready_chip_def)

lemma word_of_256: "(i :: u32) < 256 \<longleftrightarrow> unat i < 256"
  by (simp add: word_less_nat_alt)

lemma call_fn_direct [simp]:
  "call_fn d strs st Ack_sb2f i h = Some (ack_sb2f_board_irq d i h)"
  "call_fn d strs st Disable_sb2f i h = Some (disable_sb2f_board_irq d i h)"
  "call_fn d strs st Enable_sb2f i h = Some (enable_sb2f_board_irq d i h)"
  "call_fn d strs st Set_type_sb2f i h = Some h"
  "call_fn d strs st Ack_dma i h = Some (ack_ls1gp_dma_irq i h)"
  "call_fn d strs st Disable_dma i h = Some (disable_ls1gp_dma_irq d i h)"
  "call_fn d strs st Enable_dma i h = enable_ls1gp_dma_irq d strs i h"
  by (subst call_fn.simps, simp)+

lemma first_chip_fields [simp]:
  "chip_mask (first_chip Sb2f_chip) = Some Disable_sb2f" "chip_mask (first_chip Dma_chip) = Some Disable_dma"
  "chip_ack (first_chip Sb2f_chip) = Some Ack_sb2f" "chip_ack (first_chip Dma_chip) = Some Ack_dma"
  "chip_unmask (first_chip Sb2f_chip) = Some Enable_sb2f" "chip_unmask (first_chip Dma_chip) = Some Enable_dma"
  "chip_set_type (first_chip Sb2f_chip) = Some Set_type_sb2f" "chip_set_type (first_chip Dma_chip) = None"
  by (simp_all add: first_chip_def sb2f_board_irq_chip_def ls1gp_dma_irq_chip_def)

lemma enable_dma_total: "\<exists>h'. enable_ls1gp_dma_irq d strs i h = Some h'"
proof -
  obtain out where "printbase (i - DMA_IRQ_BASE) 0 10 True = Some out"
    using printbase_total [of 10 "i - DMA_IRQ_BASE" 0 True] by auto
  then have "\<exists>out. printf strs (ln ''rd irq_nr %d'') [i - DMA_IRQ_BASE] = Some out" by (simp add: printf_eval)
  then show ?thesis by (auto simp: enable_ls1gp_dma_irq_def say_def)
qed

lemma chip_unmask_total:
  assumes "chip_unmask (first_chip c) = Some f"
  shows "\<exists>h'. call_fn d strs st f i h = Some h'"
  using assms enable_dma_total [of d strs i h] by (cases c) auto

lemma chip_unmask_some: "\<exists>f. chip_unmask (first_chip c) = Some f"
  by (cases c) auto

text \<open>Starting an interrupt unmasks it at its controller.\<close>

definition unmasked :: "device \<Rightarrow> mem \<Rightarrow> u32 \<Rightarrow> history \<Rightarrow> history option" where
  "unmasked d strs i h = (if i < 160 then Some (enable_sb2f_board_irq d i h) else enable_ls1gp_dma_irq d strs i h)"

lemma chip_unmask_unmasked:
  assumes "chip_of (unat i) = Some c" "chip_unmask (first_chip c) = Some f"
  shows "call_fn d strs st f i h = unmasked d strs i h"
proof -
  have "i < 160 \<longleftrightarrow> unat i < 160" by (simp add: word_less_nat_alt)
  with assms show ?thesis by (cases c) (auto simp: chip_of_def unmasked_def split: if_splits)
qed

lemma startup_total:
  assumes w: "wired st" and i: "unat i < 256" "chip_of (unat i) = Some c"
  shows "\<exists>h'. unmasked d strs i h = Some h' \<and> call_fn d strs st Default_startup i h = Some h'"
proof -
  have c: "irq_chip_of st i = Some (ready_chip c)"
    using w i by (simp add: irq_chip_of_def irq_desc_at_def wired_def word_of_256)
  obtain f where f: "chip_unmask (first_chip c) = Some f" using chip_unmask_some by blast
  then obtain h' where "call_fn d strs st f i h = Some h'" using chip_unmask_total by blast
  with chip_unmask_unmasked [OF i(2) f] have u: "unmasked d strs i h = Some h'" "call_fn d strs st f i h = Some h'" by simp_all
  with c f have "call_fn d strs st Default_enable i h = Some h'" by (subst call_fn.simps) simp
  with c have "call_fn d strs st Default_startup i h = Some h'" by (subst call_fn.simps) simp
  with u show ?thesis by blast
qed

lemma last_action_lseg: "lseg (act_next st) p (xs @ [x]) 0 \<Longrightarrow> last_action st p = Some x"
proof (induction xs arbitrary: p)
  case Nil
  then show ?case by (subst last_action.simps) auto
next
  case (Cons y xs)
  then have "act_next st y \<noteq> 0" by (cases xs) auto
  with Cons show ?case by (subst last_action.simps) auto
qed

lemma chainedD:
  assumes "chained R X K st" "unat i < 256"
  shows "lseg (act_next st) (desc_action (descs st ! unat i)) (X i) 0"
    "map (\<lambda>a. (act_handler (actions st a), act_dev (actions st a))) (X i) = R i" "set (X i) \<subseteq> K"
    "\<And>j. unat j < 256 \<Longrightarrow> i \<noteq> j \<Longrightarrow> set (X i) \<inter> set (X j) = {}"
  using assms unfolding chained_def word_of_256 by blast+

lemma chainedI:
  assumes "\<And>i. unat i < 256 \<Longrightarrow> lseg (act_next st) (desc_action (descs st ! unat i)) (X i) 0"
    "\<And>i. unat i < 256 \<Longrightarrow> map (\<lambda>a. (act_handler (actions st a), act_dev (actions st a))) (X i) = R i"
    "\<And>i. unat i < 256 \<Longrightarrow> set (X i) \<subseteq> K"
    "\<And>i j. unat i < 256 \<Longrightarrow> unat j < 256 \<Longrightarrow> i \<noteq> j \<Longrightarrow> set (X i) \<inter> set (X j) = {}"
  shows "chained R X K st"
  using assms unfolding chained_def word_of_256 by blast

text \<open>A cell outside of the chains is appended to one of them.\<close>

lemma chained_append:
  assumes ch: "chained R X K st" and p: "p \<notin> K" "p \<noteq> 0" and i: "unat i < 256"
    and seg: "lseg nx (desc_action (ds ! unat i)) (X i @ [p]) 0"
    and other: "\<And>j. unat j < 256 \<Longrightarrow> j \<noteq> i \<Longrightarrow> lseg nx (desc_action (ds ! unat j)) (X j) 0"
    and st': "actions st' = actions st" "act_next st' = nx" "descs st' = ds"
  shows "chained (R(i := R i @ [(act_handler (actions st p), act_dev (actions st p))])) (X(i := X i @ [p])) (insert p K) st'"
proof (rule chainedI)
  fix j :: u32 assume j: "unat j < 256"
  show "lseg (act_next st') (desc_action (descs st' ! unat j)) ((X(i := X i @ [p])) j) 0"
    using seg other [OF j] by (simp add: st')
  show "map (\<lambda>a. (act_handler (actions st' a), act_dev (actions st' a))) ((X(i := X i @ [p])) j)
      = (R(i := R i @ [(act_handler (actions st p), act_dev (actions st p))])) j"
    using chainedD(2) [OF ch j] by (auto simp: st')
  show "set ((X(i := X i @ [p])) j) \<subseteq> insert p K" using chainedD(3) [OF ch j] by auto
  fix k :: u32 assume k: "unat k < 256" "j \<noteq> k"
  have "p \<notin> set (X j)" "p \<notin> set (X k)" using chainedD(3) [OF ch j] chainedD(3) [OF ch k(1)] p(1) by auto
  then show "set ((X(i := X i @ [p])) j) \<inter> set ((X(i := X i @ [p])) k) = {}"
    using chainedD(4) [OF ch j k] k(2) by auto
qed

lemma setup_irq_first:
  assumes w: "wired st" and i: "unat i < 256" "chip_of (unat i) = Some c" and a: "desc_action (descs st ! unat i) = 0"
  shows "\<exists>h'. unmasked d strs i h = Some h' \<and> setup_irq d strs i p st h = Some (st\<lparr>descs := (descs st)[unat i := (descs st ! unat i)\<lparr>desc_action := p\<rparr>]\<rparr>, h')"
proof -
  let ?st = "st\<lparr>descs := (descs st)[unat i := (descs st ! unat i)\<lparr>desc_action := p\<rparr>]\<rparr>"
  have desc: "irq_desc_at st i = Some (descs st ! unat i)" using i by (simp add: irq_desc_at_def word_of_256)
  have c: "desc_chip (descs st ! unat i) = Some c" "chips st = ready_chip" using w i by (auto simp: wired_def)
  have ch: "(chips ?st)(c := irq_chip_set_defaults (chips ?st c)) = chips ?st" by (simp add: c(2))
  have "wired ?st" using w i by (auto simp: wired_def nth_list_update)
  note start = startup_total [OF this i, of d strs]
  have h1: "(if act_flags (actions ?st p) AND IRQF_TRIGGER_MASK \<noteq> 0
      then (case chip_set_type (chips ?st c) of None \<Rightarrow> Some h | Some f \<Rightarrow> call_fn d strs ?st f i h) else Some h) = Some h"
    by (cases c) (simp_all add: c(2))
  obtain h2 where u: "unmasked d strs i h = Some h2" and h2: "call_fn d strs ?st Default_startup i h = Some h2"
    using start by blast
  have upd: "?st\<lparr>chips := (chips ?st)(c := irq_chip_set_defaults (chips ?st c))\<rparr> = ?st" unfolding ch by simp
  have "chip_startup (chips ?st c) = Some Default_startup" by (simp add: c(2))
  then show ?thesis
    by (simp only: setup_irq_def desc Option.bind.simps Let_def a c(1) upd h1 h2 u option.case refl if_False) simp
qed

lemma setup_irq_chain:
  assumes w: "wired st" and ch: "chained R X K st" and p: "p \<notin> K" "p \<noteq> 0" "act_next st p = 0"
    and i: "unat i < 256" "chip_of (unat i) = Some c"
  shows "\<exists>st' h'. setup_irq d strs i p st h = Some (st', h') \<and> wired st' \<and> actions st' = actions st \<and> tick_cnt st' = tick_cnt st
    \<and> (if R i = [] then unmasked d strs i h else Some h) = Some h'
    \<and> chained (R(i := R i @ [(act_handler (actions st p), act_dev (actions st p))])) (X(i := X i @ [p])) (insert p K) st'"
proof (cases "X i" rule: rev_cases)
  case Nil
  note n = chainedD(1) [OF ch i(1), unfolded Nil]
  then have a: "desc_action (descs st ! unat i) = 0" by simp
  let ?ds = "(descs st)[unat i := (descs st ! unat i)\<lparr>desc_action := p\<rparr>]"
  have len: "length (descs st) = 256" using w by (simp add: wired_def)
  have "wired (st\<lparr>descs := ?ds\<rparr>)" using w i by (auto simp: wired_def nth_list_update)
  moreover have "chained (R(i := R i @ [(act_handler (actions st p), act_dev (actions st p))])) (X(i := X i @ [p])) (insert p K) (st\<lparr>descs := ?ds\<rparr>)"
  proof (rule chained_append [OF ch p(1,2) i(1)])
    show "lseg (act_next st) (desc_action (?ds ! unat i)) (X i @ [p]) 0" using Nil p i len by simp
    show "lseg (act_next st) (desc_action (?ds ! unat j)) (X j) 0" if "unat j < 256" "j \<noteq> i" for j :: u32
      using chainedD(1) [OF ch that(1)] that len by (simp add: nth_list_update word_unat_eq_iff)
  qed simp_all
  moreover have "R i = []" using chainedD(2) [OF ch i(1)] Nil by simp
  ultimately show ?thesis using setup_irq_first [OF w i a, of d strs h p] by auto
next
  case (snoc ys y)
  note n = chainedD(1) [OF ch i(1), unfolded snoc]
  then have y: "last_action st (desc_action (descs st ! unat i)) = Some y" "desc_action (descs st ! unat i) \<noteq> 0" "y \<in> K"
    using last_action_lseg [OF n] chainedD(3) [OF ch i(1)] by (cases ys; auto simp: snoc)+
  have "y \<notin> set ys" using lseg_distinct [OF n] by simp
  let ?nx = "(act_next st)(y := p)"
  have s: "setup_irq d strs i p st h = Some (st\<lparr>act_next := ?nx\<rparr>, h)"
    using y i by (simp add: setup_irq_def irq_desc_at_def word_of_256)
  have "chained (R(i := R i @ [(act_handler (actions st p), act_dev (actions st p))])) (X(i := X i @ [p])) (insert p K) (st\<lparr>act_next := ?nx\<rparr>)"
  proof (rule chained_append [OF ch p(1,2) i(1)])
    have "lseg ?nx (desc_action (descs st ! unat i)) (X i) p"
      unfolding snoc by (rule lseg_relink [OF n \<open>y \<notin> set ys\<close>])
    moreover have "lseg ?nx p [p] 0" using p y(3) by auto
    ultimately show "lseg ?nx (desc_action (descs st ! unat i)) (X i @ [p]) 0" unfolding lseg_append by blast
    show "lseg ?nx (desc_action (descs st ! unat j)) (X j) 0" if j: "unat j < 256" "j \<noteq> i" for j :: u32
      using chainedD(1) [OF ch j(1)] chainedD(4) [OF ch i(1) j(1)] j(2) by (subst lseg_upd) (auto simp: snoc)
  qed simp_all
  moreover have "R i \<noteq> []" using chainedD(2) [OF ch i(1)] snoc by auto
  ultimately show ?thesis using s w by (auto simp: wired_def)
qed

text \<open>The initialisation.\<close>

lemma set_irq_range_eq:
  assumes "unat i + n \<le> 256" "length (descs st) = 256"
  shows "\<exists>st'. set_irq_range i n c st = Some st' \<and> length (descs st') = 256
    \<and> (\<forall>k<256. descs st' ! k = (if unat i \<le> k \<and> k < unat i + n
         then (descs st ! k)\<lparr>desc_chip := Some c, handle_irq := Some Handle_level_irq\<rparr> else descs st ! k))
    \<and> chips st' = (if n = 0 then chips st else (chips st)(c := irq_chip_set_defaults (chips st c)))
    \<and> actions st' = actions st \<and> act_next st' = act_next st \<and> tick_cnt st' = tick_cnt st"
  using assms
proof (induction n arbitrary: i st)
  case 0
  then show ?case by auto
next
  case (Suc n)
  let ?d = "(descs st ! unat i)\<lparr>desc_chip := Some c, handle_irq := Some Handle_level_irq\<rparr>"
  let ?st = "st\<lparr>chips := (chips st)(c := irq_chip_set_defaults (chips st c)), descs := (descs st)[unat i := ?d]\<rparr>"
  have i: "unat i < 256" "unat (i + 1) = unat i + 1" using Suc.prems(1) by (auto simp: unat_add_small)
  then have step: "set_irq_chip_and_handler i c Handle_level_irq st = Some ?st"
    by (simp add: set_irq_chip_and_handler_def word_of_256)
  obtain st' where st': "set_irq_range (i + 1) n c ?st = Some st'" "length (descs st') = 256"
    "\<And>k. k < 256 \<Longrightarrow> descs st' ! k = (if unat (i + 1) \<le> k \<and> k < unat (i + 1) + n
         then (descs ?st ! k)\<lparr>desc_chip := Some c, handle_irq := Some Handle_level_irq\<rparr> else descs ?st ! k)"
    "chips st' = (if n = 0 then chips ?st else (chips ?st)(c := irq_chip_set_defaults (chips ?st c)))"
    "actions st' = actions st" "act_next st' = act_next st" "tick_cnt st' = tick_cnt st"
    using Suc.IH [of "i + 1" ?st] Suc.prems i by auto
  have "descs st' ! k = (if unat i \<le> k \<and> k < unat i + Suc n
         then (descs st ! k)\<lparr>desc_chip := Some c, handle_irq := Some Handle_level_irq\<rparr> else descs st ! k)" if "k < 256" for k
    using st'(3) [OF that] i Suc.prems(2) that by (cases "k = unat i") (auto simp: nth_list_update)
  moreover have "chips st' = (chips st)(c := irq_chip_set_defaults (chips st c))" using st'(4) by simp
  ultimately show ?case using st' step by (auto simp: fun_upd_def)
qed

definition cascade_request :: "irq_layout \<Rightarrow> requests" where
  "cascade_request l i = (if i = 42 then [(no_action l, 0)] else [])"

lemma init_IRQ_ready:
  assumes s: "irq_start l st" and c: "cascade_irqaction l \<noteq> 0"
  shows "\<exists>st' h'. init_IRQ l d strs st h = Some (st', h') \<and> wired st' \<and> tick_cnt st' = tick_cnt st
    \<and> chained (cascade_request l) ((\<lambda>_. [])(42 := [cascade_irqaction l])) {cascade_irqaction l} st'"
proof -
  have len: "length (descs st) = 256" using s by (simp add: irq_start_def)
  obtain st1 where st1: "sb2f_board_irq_init st = Some st1" "length (descs st1) = 256"
    "\<And>k. k < 256 \<Longrightarrow> descs st1 ! k = (if k < 160
         then (descs st ! k)\<lparr>desc_chip := Some Sb2f_chip, handle_irq := Some Handle_level_irq\<rparr> else descs st ! k)"
    "chips st1 = (chips st)(Sb2f_chip := irq_chip_set_defaults (chips st Sb2f_chip))"
    "actions st1 = actions st" "act_next st1 = act_next st" "tick_cnt st1 = tick_cnt st"
    using set_irq_range_eq [of 0 160 st Sb2f_chip] len unfolding sb2f_board_irq_init_def by auto
  obtain st2 where st2: "ls1gp_dma_irq_init st1 = Some st2" "length (descs st2) = 256"
    "\<And>k. k < 256 \<Longrightarrow> descs st2 ! k = (if 168 \<le> k \<and> k < 184
         then (descs st1 ! k)\<lparr>desc_chip := Some Dma_chip, handle_irq := Some Handle_level_irq\<rparr> else descs st1 ! k)"
    "chips st2 = (chips st1)(Dma_chip := irq_chip_set_defaults (chips st1 Dma_chip))"
    "actions st2 = actions st" "act_next st2 = act_next st" "tick_cnt st2 = tick_cnt st"
    using set_irq_range_eq [of DMA_IRQ_BASE 16 st1 Dma_chip] st1 unfolding ls1gp_dma_irq_init_def by (auto simp: DMA_IRQ_BASE_def)
  have "chips st2 x = ready_chip x" for x
    using s st1(4) st2(4) by (cases x) (simp_all add: irq_start_def ready_chip_def first_chip_def)
  moreover have "descs st ! k = \<lparr>handle_irq = None, desc_chip = None, desc_action = 0\<rparr>" if "k < 256" for k
    using s that by (simp add: irq_start_def)
  ultimately have w: "wired st2" "\<And>k. k < 256 \<Longrightarrow> desc_action (descs st2 ! k) = 0"
    using st2(2,3) st1(3) by (auto simp: wired_def chip_of_def)
  have "chained (\<lambda>_. []) (\<lambda>_. []) {} st2" by (rule chainedI) (simp_all add: w(2))
  from setup_irq_chain [OF w(1) this, of "cascade_irqaction l" 42 Sb2f_chip d strs "init_banks 5 0 h"] obtain st3 h3 where st3:
    "setup_irq d strs 42 (cascade_irqaction l) st2 (init_banks 5 0 h) = Some (st3, h3)" "wired st3" "tick_cnt st3 = tick_cnt st2"
    "chained ((\<lambda>_. [])(42 := [(act_handler (actions st2 (cascade_irqaction l)), act_dev (actions st2 (cascade_irqaction l)))]))
       ((\<lambda>_. [])(42 := [cascade_irqaction l])) {cascade_irqaction l} st3"
    using c s st2(5,6) by (simp add: irq_start_def chip_of_def) metis
  have "(\<lambda>_. [])(42 := [(act_handler (actions st2 (cascade_irqaction l)), act_dev (actions st2 (cascade_irqaction l)))]) = cascade_request l"
    using s st2(5) by (auto simp: irq_start_def cascade_request_def)
  then show ?thesis using st1(1,7) st2(1,7) st3 by (simp add: init_IRQ_def Let_def)
qed

section \<open>Dispatch\<close>

text \<open>The handlers of a list of requests, in its order.\<close>

fun run_handlers :: "irq_layout \<Rightarrow> handlers \<Rightarrow> (addr \<times> addr) list \<Rightarrow> history \<Rightarrow> history option" where
  "run_handlers l hnd [] h = Some h"
| "run_handlers l hnd ((f, x) # r) h = do { h1 \<leftarrow> (if f = no_action l then Some h else hnd f x h); run_handlers l hnd r h1 }"

lemma run_handlers_Nil: "run_handlers l hnd [] = Some"
  by (rule ext) simp

lemma handle_IRQ_event_eq:
  "lseg (act_next st) a xs 0 \<Longrightarrow> xs \<noteq> [] \<Longrightarrow>
   handle_IRQ_event l hnd st a h = run_handlers l hnd (map (\<lambda>a. (act_handler (actions st a), act_dev (actions st a))) xs) h"
proof (induction xs arbitrary: a h)
  case (Cons x xs)
  have "(act_next st x = 0) = (xs = [])" using Cons.prems(1) by (cases xs) auto
  with Cons show ?case
    by (subst handle_IRQ_event.simps) (auto simp: call_handler_def run_handlers_Nil)
qed simp

lemma generic_handle_irq_eq:
  assumes w: "wired st" and ch: "chained R X K st" and i: "unat i < 256" "chip_of (unat i) = Some c" and r: "R i \<noteq> []"
  shows "generic_handle_irq l d strs hnd st i h =
    (case c of
       Sb2f_chip \<Rightarrow> do { h \<leftarrow> run_handlers l hnd (R i) (ack_sb2f_board_irq d i (disable_sb2f_board_irq d i h));
                      Some (enable_sb2f_board_irq d i h) }
     | Dma_chip \<Rightarrow> do { h \<leftarrow> run_handlers l hnd (R i) (ack_ls1gp_dma_irq i (disable_ls1gp_dma_irq d i h));
                     enable_ls1gp_dma_irq d strs i h })"
proof -
  have desc: "irq_desc_at st i = Some (descs st ! unat i)" using i by (simp add: irq_desc_at_def word_of_256)
  have k: "irq_chip_of st i = Some (ready_chip c)" "handle_irq (descs st ! unat i) = Some Handle_level_irq"
    using w i by (auto simp: irq_chip_of_def desc wired_def)
  have "X i \<noteq> []" using chainedD(2) [OF ch i(1)] r by auto
  note e = handle_IRQ_event_eq [OF chainedD(1) [OF ch i(1)] this, unfolded chainedD(2) [OF ch i(1)], of l hnd]
  show ?thesis
    by (cases c) (simp_all add: generic_handle_irq_def handle_level_irq_def desc k e)
qed

lemma pending_bit: "k \<in> {10..15} \<Longrightarrow> bit ((cause AND ST0_IM) AND (status AND ST0_IM)) k = bit (cause AND status) k"
proof -
  assume "k \<in> {10..15}"
  then have "k \<in> {10, 11, 12, 13, 14, 15}" by auto
  then have "bit ST0_IM k" by (auto simp: ST0_IM_def)
  then show ?thesis by (auto simp: bit_and_iff)
qed

lemma dispatch_bank:
  assumes "mfc0 d 13 h = (cause, h1)" "mfc0 d 12 h1 = (status, h2)"
    "n < 5" "bit (cause AND status) (10 + n)" "\<forall>k<n. \<not> bit (cause AND status) (10 + k)" "\<not> bit (cause AND status) 15"
  shows "plat_irq_dispatch l d strs hnd st h = do { h \<leftarrow> ls1b_board_hw_irqdispatch l d strs hnd st (of_nat n) h2; Some (st, h) }"
proof -
  have p: "bit ((cause AND ST0_IM) AND (status AND ST0_IM)) 10 = bit (cause AND status) 10"
    "bit ((cause AND ST0_IM) AND (status AND ST0_IM)) 11 = bit (cause AND status) 11"
    "bit ((cause AND ST0_IM) AND (status AND ST0_IM)) 12 = bit (cause AND status) 12"
    "bit ((cause AND ST0_IM) AND (status AND ST0_IM)) 13 = bit (cause AND status) 13"
    "bit ((cause AND ST0_IM) AND (status AND ST0_IM)) 14 = bit (cause AND status) 14"
    "bit ((cause AND ST0_IM) AND (status AND ST0_IM)) 15 = bit (cause AND status) 15"
    by (rule pending_bit, simp)+
  have s: "plat_irq_dispatch l d strs hnd st h =
      (if bit (cause AND status) 15 then timer_tick d strs st h2
       else if bit (cause AND status) 10 then do { h \<leftarrow> ls1b_board_hw_irqdispatch l d strs hnd st 0 h2; Some (st, h) }
       else if bit (cause AND status) 11 then do { h \<leftarrow> ls1b_board_hw_irqdispatch l d strs hnd st 1 h2; Some (st, h) }
       else if bit (cause AND status) 12 then do { h \<leftarrow> ls1b_board_hw_irqdispatch l d strs hnd st 2 h2; Some (st, h) }
       else if bit (cause AND status) 13 then do { h \<leftarrow> ls1b_board_hw_irqdispatch l d strs hnd st 3 h2; Some (st, h) }
       else if bit (cause AND status) 14 then do { h \<leftarrow> ls1b_board_hw_irqdispatch l d strs hnd st 4 h2; Some (st, h) }
       else do { h \<leftarrow> say strs (ln ''spurious interrupt'') [] h2; Some (st, h) })"
    unfolding plat_irq_dispatch_def assms(1,2) Let_def prod.case by (simp only: p)
  have e: "\<not> bit (cause AND status) (10 + k)" if "k < n" for k using assms(5) that by blast
  consider "n = 0" | "n = 1" | "n = 2" | "n = 3" | "n = 4" using assms(3) by linarith
  then show ?thesis
  proof cases
    case 1 then show ?thesis using assms(4,6) by (simp only: s) simp
  next
    case 2 then show ?thesis using assms(4,6) e [of 0] by (simp only: s) simp
  next
    case 3 then show ?thesis using assms(4,6) e [of 0] e [of 1] by (simp only: s) simp
  next
    case 4 then show ?thesis using assms(4,6) e [of 0] e [of 1] e [of 2] by (simp only: s) simp
  next
    case 5 then show ?thesis using assms(4,6) e [of 0] e [of 1] e [of 2] e [of 3] by (simp only: s) simp
  qed
qed

section \<open>Histories of requests\<close>

text \<open>After \<open>init_IRQ\<close> the program requests handlers, allocates and frees other blocks, and takes interrupts.
  \<open>K\<close> are the cells of the requests, \<open>M\<close> the blocks in use.\<close>

inductive irq_reach :: "irq_layout \<Rightarrow> device \<Rightarrow> mem \<Rightarrow> addr \<Rightarrow> requests \<Rightarrow> addr set \<Rightarrow> (addr \<Rightarrow> nat option) \<Rightarrow> irq_state \<Rightarrow> heap \<Rightarrow> bool"
  for l d strs base where
  start: "irq_start l st \<Longrightarrow> init_IRQ l d strs st h = Some (st', h') \<Longrightarrow> heap_reach base M hp \<Longrightarrow>
    irq_reach l d strs base (cascade_request l) {} M st' hp"
| request: "irq_reach l d strs base R K M st hp \<Longrightarrow> handler \<noteq> 0 \<Longrightarrow> has_room base 24 hp \<Longrightarrow> malloc base 24 hp = Some (p, hp') \<Longrightarrow>
    request_irq d strs base i handler flags name dev st hp h = Some (r, st', hp', h') \<Longrightarrow>
    irq_reach l d strs base (R(i := R i @ [(handler, dev)])) (insert p K) (M(p \<mapsto> 24)) st' hp'"
| alloc: "irq_reach l d strs base R K M st hp \<Longrightarrow> has_room base n hp \<Longrightarrow> malloc base n hp = Some (p, hp') \<Longrightarrow>
    irq_reach l d strs base R K (M(p \<mapsto> unat n)) st hp'"
| release: "irq_reach l d strs base R K M st hp \<Longrightarrow> M p = Some n \<Longrightarrow> p \<notin> K \<Longrightarrow> free p hp = Some hp' \<Longrightarrow>
    irq_reach l d strs base R K (M(p := None)) st hp'"
| interrupt: "irq_reach l d strs base R K M st hp \<Longrightarrow> plat_irq_dispatch l d strs hnd st h = Some (st', h') \<Longrightarrow>
    irq_reach l d strs base R K M st' hp"

text \<open>The static action is no block of the heap.\<close>

definition off_heap :: "addr \<Rightarrow> addr \<Rightarrow> bool" where
  "off_heap base a \<longleftrightarrow> a \<noteq> 0 \<and> base \<noteq> 0 \<and> (unat a < heap_start \<or> heap_limit base \<le> unat a)"

lemma dispatch_state: "plat_irq_dispatch l d strs hnd st h = Some (st', h') \<Longrightarrow> \<exists>t. st' = st\<lparr>tick_cnt := t\<rparr>"
proof -
  assume a: "plat_irq_dispatch l d strs hnd st h = Some (st', h')"
  have "\<exists>t. st = st\<lparr>tick_cnt := t\<rparr>" by (rule exI [of _ "tick_cnt st"]) simp
  with a show ?thesis
    by (auto simp: plat_irq_dispatch_def timer_tick_def Let_def split: prod.splits if_splits bind_splits)
qed

lemma request_irq_chain:
  assumes w: "wired st" and ch: "chained R X (insert (cascade_irqaction l) K) st" and off: "off_heap base (cascade_irqaction l)"
    and hp: "heap_reach base M hp" "has_room base 24 hp" "K \<subseteq> dom M" and f: "handler \<noteq> 0"
    and i: "unat i < 256" "chip_of (unat i) = Some c"
  shows "\<exists>p st' hp' h' X'. malloc base 24 hp = Some (p, hp')
    \<and> request_irq d strs base i handler flags name dev st hp h = Some (None, st', hp', h')
    \<and> heap_reach base (M(p \<mapsto> 24)) hp' \<and> wired st' \<and> tick_cnt st' = tick_cnt st
    \<and> chained (R(i := R i @ [(handler, dev)])) X' (insert (cascade_irqaction l) (insert p K)) st'
    \<and> (if R i = [] then unmasked d strs i h else Some h) = Some h'
    \<and> unat (membase hp') \<le> unat (membase hp) + 1055"
proof -
  have b: "base \<noteq> 0" using off by (simp add: off_heap_def)
  obtain p hp' where p: "malloc base 24 hp = Some (p, hp')" "p \<noteq> 0" "M p = None" "heap_reach base (M(p \<mapsto> 24)) hp'"
    "unat (membase hp') \<le> unat (membase hp) + 1055"
    using heap_reach_alloc [OF hp(1) b hp(2)] by auto
  have "p \<noteq> cascade_irqaction l" using heap_reach_block [OF p(4) b, of p 24] off by (auto simp: off_heap_def)
  then have new: "p \<notin> insert (cascade_irqaction l) K" using p(3) hp(3) by auto
  let ?a = "\<lparr>act_handler = handler, act_flags = flags, act_name = name, act_irq = i, act_dev = dev\<rparr>"
  let ?st = "st\<lparr>actions := (actions st)(p := ?a), act_next := (act_next st)(p := 0)\<rparr>"
  have "chained R X (insert (cascade_irqaction l) K) ?st"
  proof (rule chainedI)
    fix j :: u32 assume j: "unat j < 256"
    note c = chainedD [OF ch j]
    have np: "p \<notin> set (X j)" using c(3) new by blast
    then show "lseg (act_next ?st) (desc_action (descs ?st ! unat j)) (X j) 0" using c(1) by simp
    have "map (\<lambda>a. (act_handler (actions ?st a), act_dev (actions ?st a))) (X j)
        = map (\<lambda>a. (act_handler (actions st a), act_dev (actions st a))) (X j)"
      by (rule map_cong) (use np in auto)
    then show "map (\<lambda>a. (act_handler (actions ?st a), act_dev (actions ?st a))) (X j) = R j" using c(2) by simp
    show "set (X j) \<subseteq> insert (cascade_irqaction l) K" by (rule c(3))
    show "set (X j) \<inter> set (X k) = {}" if "unat k < 256" "j \<noteq> k" for k using c(4) that by blast
  qed
  moreover have "wired ?st" using w by (simp add: wired_def)
  moreover have "act_next ?st p = 0" "(act_handler (actions ?st p), act_dev (actions ?st p)) = (handler, dev)" by simp_all
  moreover have "tick_cnt ?st = tick_cnt st" by simp
  ultimately obtain st' h' where s: "setup_irq d strs i p ?st h = Some (st', h')" "wired st'" "tick_cnt st' = tick_cnt st"
    "(if R i = [] then unmasked d strs i h else Some h) = Some h'"
    "chained (R(i := R i @ [(handler, dev)])) (X(i := X i @ [p])) (insert p (insert (cascade_irqaction l) K)) st'"
    using setup_irq_chain [of ?st R X "insert (cascade_irqaction l) K" p i c d strs h] new p(2) i by metis
  have "request_irq d strs base i handler flags name dev st hp h = Some (None, st', hp', h')"
    using f p(1,2) s(1) by (simp add: request_irq_def Let_def)
  with p s(2-5) show ?thesis unfolding insert_commute [of p] by blast
qed

lemma request_irq_wired:
  assumes w: "wired st" and ch: "chained R X K st" and un: "R i \<noteq> [] \<Longrightarrow> chip_of (unat i) \<noteq> None"
    and f: "handler \<noteq> 0" and m: "malloc base 24 hp = Some (p, hp')" "p \<noteq> 0"
    and q: "request_irq d strs base i handler flags name dev st hp h = Some z"
  shows "unat i < 256 \<and> (\<exists>c. chip_of (unat i) = Some c)"
proof -
  let ?a = "\<lparr>act_handler = handler, act_flags = flags, act_name = name, act_irq = i, act_dev = dev\<rparr>"
  let ?st = "st\<lparr>actions := (actions st)(p := ?a), act_next := (act_next st)(p := 0)\<rparr>"
  obtain y where y: "setup_irq d strs i p ?st h = Some y"
    using q f m by (auto simp: request_irq_def Let_def split: bind_splits)
  then have i: "unat i < 256"
    by (auto simp: setup_irq_def irq_desc_at_def word_of_256 split: bind_splits if_splits)
  moreover have "chip_of (unat i) \<noteq> None"
  proof
    assume n: "chip_of (unat i) = None"
    then have "R i = []" using un by blast
    then have "X i = []" using chainedD(2) [OF ch i] by simp
    then have "desc_action (descs st ! unat i) = 0" using chainedD(1) [OF ch i] by simp
    moreover have "desc_chip (descs st ! unat i) = None" using w i n by (simp add: wired_def)
    ultimately show False using y i by (simp add: setup_irq_def irq_desc_at_def word_of_256 Let_def)
  qed
  ultimately show ?thesis by blast
qed

lemma irq_reach_inv:
  assumes "irq_reach l d strs base R K M st hp" "off_heap base (cascade_irqaction l)"
  shows "wired st \<and> (\<exists>X. chained R X (insert (cascade_irqaction l) K) st) \<and> heap_reach base M hp \<and> K \<subseteq> dom M
    \<and> (\<forall>i. unat i < 256 \<longrightarrow> R i \<noteq> [] \<longrightarrow> chip_of (unat i) \<noteq> None)"
  using assms
proof (induction rule: irq_reach.induct)
  case (start st h st' h' M hp)
  have "chip_of 42 \<noteq> None" by (simp add: chip_of_def)
  then have "\<forall>i. unat i < 256 \<longrightarrow> cascade_request l i \<noteq> [] \<longrightarrow> chip_of (unat i) \<noteq> None" by (simp add: cascade_request_def)
  moreover obtain st2 h2 where "init_IRQ l d strs st h = Some (st2, h2)" "wired st2"
    "chained (cascade_request l) ((\<lambda>_. [])(42 := [cascade_irqaction l])) {cascade_irqaction l} st2"
    using init_IRQ_ready [OF start.hyps(1)] start.prems by (metis off_heap_def)
  ultimately show ?case using start.hyps by auto
next
  case (request R K M st hp handler p hp' i flags name dev h r st' h')
  then obtain X where inv: "wired st" "chained R X (insert (cascade_irqaction l) K) st" "heap_reach base M hp" "K \<subseteq> dom M"
    "\<forall>i. unat i < 256 \<longrightarrow> R i \<noteq> [] \<longrightarrow> chip_of (unat i) \<noteq> None" by blast
  have "base \<noteq> 0" using request.prems by (simp add: off_heap_def)
  then have "p \<noteq> 0" using heap_reach_alloc [OF inv(3) _ request.hyps(3)] request.hyps(4) by auto
  have un: "R i \<noteq> [] \<Longrightarrow> chip_of (unat i) \<noteq> None \<or> 256 \<le> unat i" using inv(5) by (meson not_le)
  have "unat i < 256"
    using request.hyps(2,4,5) \<open>p \<noteq> 0\<close>
    by (auto simp: request_irq_def setup_irq_def irq_desc_at_def word_of_256 Let_def split: bind_splits if_splits)
  then obtain c where c: "unat i < 256" "chip_of (unat i) = Some c"
    using request_irq_wired [OF inv(1,2) _ request.hyps(2,4) \<open>p \<noteq> 0\<close> request.hyps(5)] un by fastforce
  from request_irq_chain [OF inv(1,2) request.prems inv(3) request.hyps(3) inv(4) request.hyps(2) c, of d strs flags name dev h]
    request.hyps(4,5)
  obtain X' where "heap_reach base (M(p \<mapsto> 24)) hp'" "wired st'"
    "chained (R(i := R i @ [(handler, dev)])) X' (insert (cascade_irqaction l) (insert p K)) st'"
    by auto
  moreover have "insert p K \<subseteq> dom (M(p \<mapsto> 24))" using inv(4) by auto
  moreover have "\<forall>j. unat j < 256 \<longrightarrow> (R(i := R i @ [(handler, dev)])) j \<noteq> [] \<longrightarrow> chip_of (unat j) \<noteq> None"
    using inv(5) c(2) by simp
  ultimately show ?case by blast
next
  case (alloc R K M st hp n p hp')
  then show ?case using heap_reach.alloc [of base M hp n p hp'] by (auto simp del: fun_upd_apply)
next
  case (release R K M st hp p n hp')
  then show ?case using heap_reach.release [of base M hp p n hp'] by (auto simp del: fun_upd_apply)
next
  case (interrupt R K M st hp hnd h st' h')
  obtain t where "st' = st\<lparr>tick_cnt := t\<rparr>" using dispatch_state [OF interrupt.hyps(2)] by blast
  then show ?case using interrupt by (auto simp: wired_def chained_def)
qed

text \<open>The table of requests as a reader of the descriptors finds it: the handlers and arguments of the cells from
  \<open>action\<close> of descriptor \<open>i\<close> along \<open>next\<close>.\<close>

partial_function (option) requests_from :: "irq_state \<Rightarrow> addr \<Rightarrow> (addr \<times> addr) list option" where
  "requests_from st a =
     (if a = 0 then Some []
      else do { r \<leftarrow> requests_from st (act_next st a); Some ((act_handler (actions st a), act_dev (actions st a)) # r) })"

declare requests_from.simps [code]

definition requests_of :: "irq_state \<Rightarrow> u32 \<Rightarrow> (addr \<times> addr) list option" where
  "requests_of st i = requests_from st (desc_action (descs st ! unat i))"

lemma requests_from_lseg:
  "lseg (act_next st) a xs 0 \<Longrightarrow> requests_from st a = Some (map (\<lambda>a. (act_handler (actions st a), act_dev (actions st a))) xs)"
proof (induction xs arbitrary: a)
  case Nil
  then show ?case by (subst requests_from.simps) simp
next
  case (Cons x xs)
  then show ?case by (subst requests_from.simps) auto
qed

lemma requests_of_chained: "chained R X K st \<Longrightarrow> i < 256 \<Longrightarrow> requests_of st i = Some (R i)"
  unfolding word_of_256 using chainedD(1,2) [of R X K st i] requests_from_lseg by (simp add: requests_of_def)

section \<open>Properties\<close>

text \<open>C9: \<open>request_irq\<close> implements the table of requests, which \<open>requests_of\<close> reads off the descriptors and
  the chained cells: for every interrupt of a controller, and while the allocator has room, it returns, its chain has one more cell at the end, with
  the handler and its argument, and every other chain is as it was.  The first request of an interrupt
  unmasks it at its controller, a later one does nothing to the board.  The allocator keeps its blocks.\<close>

theorem request_irq_registers:
  assumes "irq_reach l d strs base R K M st hp" and "off_heap base (cascade_irqaction l)"
    and "has_room base 24 hp" and "handler \<noteq> 0" and "i < 160 \<or> 168 \<le> i \<and> i < 184"
  shows "\<exists>p st' hp' h' rs. request_irq d strs base i handler flags name dev st hp h = Some (None, st', hp', h')
    \<and> requests_of st i = Some rs \<and> requests_of st' i = Some (rs @ [(handler, dev)])
    \<and> (\<forall>j<256. j \<noteq> i \<longrightarrow> requests_of st j \<noteq> None \<and> requests_of st' j = requests_of st j)
    \<and> (if rs = [] then unmasked d strs i h else Some h) = Some h'
    \<and> rs = R i \<and> irq_reach l d strs base (R(i := R i @ [(handler, dev)])) (insert p K) (M(p \<mapsto> 24)) st' hp'
    \<and> unat (membase hp') \<le> unat (membase hp) + 1055"
proof -
  obtain X where inv: "wired st" "chained R X (insert (cascade_irqaction l) K) st" "heap_reach base M hp" "K \<subseteq> dom M"
    using irq_reach_inv [OF assms(1,2)] by blast
  obtain c where c: "unat i < 256" "chip_of (unat i) = Some c"
    using assms(5) by (auto simp: chip_of_def word_less_nat_alt word_le_nat_alt split: if_splits)
  from request_irq_chain [OF inv(1,2) assms(2) inv(3) assms(3) inv(4) assms(4) c, of d strs flags name dev h]
  obtain p st' hp' h' X' where p: "malloc base 24 hp = Some (p, hp')"
    "request_irq d strs base i handler flags name dev st hp h = Some (None, st', hp', h')"
    "chained (R(i := R i @ [(handler, dev)])) X' (insert (cascade_irqaction l) (insert p K)) st'"
    "(if R i = [] then unmasked d strs i h else Some h) = Some h'"
    "unat (membase hp') \<le> unat (membase hp) + 1055" by blast
  note r = requests_of_chained [OF inv(2)] requests_of_chained [OF p(3)]
  have "i < 256" using c(1) by (simp only: word_of_256)
  with p irq_reach.request [OF assms(1,4,3) p(1,2)] show ?thesis
    by (intro exI [of _ p] exI [of _ st'] exI [of _ hp'] exI [of _ h'] exI [of _ "R i"]) (simp add: r)
qed

definition demo_device :: "addr \<Rightarrow> u32 \<Rightarrow> addr \<Rightarrow> u32 \<Rightarrow> u32 \<Rightarrow> device" where
  "demo_device a v b w p = \<lparr>mmio = (\<lambda>h x. if x = a then v else if x = b then w else 0), cp0 = (\<lambda>h r. p)\<rparr>"

definition demo_layout :: irq_layout where
  "demo_layout = \<lparr>cascade_irqaction = 0x9fd00100, no_action = 0x9fc00000\<rparr>"

definition demo_irq :: irq_state where
  "demo_irq = \<lparr>descs = replicate 256 \<lparr>handle_irq = None, desc_chip = None, desc_action = 0\<rparr>,
     chips = (\<lambda>c. case c of Sb2f_chip \<Rightarrow> sb2f_board_irq_chip | Dma_chip \<Rightarrow> ls1gp_dma_irq_chip),
     actions = (\<lambda>_. \<lparr>act_handler = 0x9fc00000, act_flags = 0, act_name = 0, act_irq = 0, act_dev = 0\<rparr>),
     act_next = (\<lambda>_. 0), tick_cnt = 0\<rparr>"

lemma demo_irq_start: "irq_start demo_layout demo_irq"
  by (simp add: irq_start_def demo_irq_def demo_layout_def)

lemma demo_off_heap: "off_heap 0x9fd00000 (cascade_irqaction demo_layout)"
  by (simp add: off_heap_def demo_layout_def heap_limit_def heap_start_def)

lemma demo_irq_reach:
  "\<exists>st. irq_reach demo_layout d strs 0x9fd00000 (cascade_request demo_layout) {} Map.empty st demo_start"
proof -
  have "cascade_irqaction demo_layout \<noteq> 0" by (simp add: demo_layout_def)
  from init_IRQ_ready [OF demo_irq_start this, of d strs "[]"] obtain st h where
    "init_IRQ demo_layout d strs demo_irq [] = Some (st, h)" by blast
  from irq_reach.start [OF demo_irq_start this demo_reach] show ?thesis by blast
qed

lemma demo_requested:
  assumes "i < 160 \<or> 168 \<le> i \<and> i < 184"
  shows "\<exists>K M st hp. irq_reach demo_layout d strs 0x9fd00000 ((cascade_request demo_layout)(i := cascade_request demo_layout i @ [(0x9fc00100, 7)])) K M st hp"
proof -
  obtain st where st: "irq_reach demo_layout d strs 0x9fd00000 (cascade_request demo_layout) {} Map.empty st demo_start"
    using demo_irq_reach by blast
  have room: "has_room 0x9fd00000 24 demo_start" by (rule demo_room) (simp_all add: demo_start_def)
  obtain X where inv: "wired st" "chained (cascade_request demo_layout) X (insert (cascade_irqaction demo_layout) {}) st"
    "heap_reach 0x9fd00000 Map.empty demo_start"
    using irq_reach_inv [OF st demo_off_heap] by blast
  obtain c where c: "unat i < 256" "chip_of (unat i) = Some c"
    using assms by (auto simp: chip_of_def word_less_nat_alt word_le_nat_alt split: if_splits)
  have f: "(0x9fc00100 :: addr) \<noteq> 0" by simp
  from request_irq_chain [OF inv(1,2) demo_off_heap inv(3) room _ f c, of d strs 0 0 7 "[]"]
  obtain p st' hp' h' where "malloc 0x9fd00000 24 demo_start = Some (p, hp')"
    "request_irq d strs 0x9fd00000 i 0x9fc00100 0 0 7 st demo_start [] = Some (None, st', hp', h')"
    by auto
  from irq_reach.request [OF st f room this] show ?thesis by blast
qed

theorem request_irq_registers_witness:
  "\<exists>st st' hp' h'. request_irq (demo_device 0 0 0 0 0) (\<lambda>_. 0) 0x9fd00000 5 0x9fc00100 0 0 7 st demo_start [] = Some (None, st', hp', h')
    \<and> requests_of st 5 = Some [] \<and> requests_of st' 5 = Some [(0x9fc00100, 7)]
    \<and> requests_of st' 42 = requests_of st 42 \<and> h' = enable_sb2f_board_irq (demo_device 0 0 0 0 0) 5 []"
proof -
  obtain st where st: "irq_reach demo_layout (demo_device 0 0 0 0 0) (\<lambda>_. 0) 0x9fd00000 (cascade_request demo_layout) {} Map.empty st demo_start"
    using demo_irq_reach by blast
  have room: "has_room 0x9fd00000 24 demo_start" by (rule demo_room) (simp_all add: demo_start_def)
  have r: "cascade_request demo_layout 5 = []" by (simp add: cascade_request_def)
  from request_irq_registers [OF st demo_off_heap room, of "0x9fc00100" 5 0 0 7 "[]"] obtain p st' hp' h' where
    "request_irq (demo_device 0 0 0 0 0) (\<lambda>_. 0) 0x9fd00000 5 0x9fc00100 0 0 7 st demo_start [] = Some (None, st', hp', h')"
    "requests_of st 5 = Some []" "requests_of st' 5 = Some ([] @ [(0x9fc00100, 7)])" "unmasked (demo_device 0 0 0 0 0) (\<lambda>_. 0) 5 [] = Some h'"
    and k: "\<forall>j<256. j \<noteq> 5 \<longrightarrow> requests_of st' j = requests_of st j"
    unfolding r by auto
  moreover have "requests_of st' 42 = requests_of st 42" using k by simp
  ultimately show ?thesis by (intro exI [of _ st] exI [of _ st'] exI [of _ hp'] exI [of _ h']) (simp add: unmasked_def)
qed

text \<open>C8: an interrupt of bank \<open>n\<close> is acknowledged and masked, then the handlers that were requested for the
  lowest bit that the bank shows are called, all of them, once each and in the order of their requests,
  then it is unmasked.  The timer comes before every bank and a lower bank before a higher one.\<close>

theorem interrupt_runs_handlers:
  assumes "irq_reach l d strs base R K M st hp" and "off_heap base (cascade_irqaction l)"
    and "mfc0 d 13 h = (cause, h1)" and "mfc0 d 12 h1 = (status, h2)" and "load d (icreg (of_nat n) 0) h2 = (isr, h3)"
    and "n < 5" and "bit (cause AND status) (10 + n)" and "\<forall>k<n. \<not> bit (cause AND status) (10 + k)" and "\<not> bit (cause AND status) 15"
    and "bit isr b" and "\<forall>c<b. \<not> bit isr c" and "(n, b) \<noteq> (1, 10)" and "R (of_nat (32 * n + b)) \<noteq> []"
  shows "plat_irq_dispatch l d strs hnd st h =
    do { h \<leftarrow> run_handlers l hnd (R (of_nat (32 * n + b)))
           (ack_sb2f_board_irq d (of_nat (32 * n + b)) (disable_sb2f_board_irq d (of_nat (32 * n + b)) h3));
         Some (st, enable_sb2f_board_irq d (of_nat (32 * n + b)) h) }"
proof -
  obtain X where inv: "wired st" "chained R X (insert (cascade_irqaction l) K) st"
    using irq_reach_inv [OF assms(1,2)] by blast
  have b: "b < 32" using bit_imp_le_length [OF assms(10)] by simp
  have f: "ffs isr = b + 1" using ffs_lowest [of isr b] assms(10,11) by blast
  have i: "unat (of_nat (32 * n + b) :: u32) = 32 * n + b"
    using b assms(6) unat_of_nat32 [of "32 * n + b"] by (simp del: of_nat_add of_nat_mult)
  then have c: "unat (of_nat (32 * n + b) :: u32) < 256" "chip_of (unat (of_nat (32 * n + b) :: u32)) = Some Sb2f_chip"
    using b assms(6) by (auto simp: chip_of_def)
  have "of_nat n * 32 + of_nat (b + 1) - 1 = (of_nat (32 * n + b) :: u32)" by (simp add: mult.commute [of _ 32])
  then have one: "ls1b_board_hw_irqdispatch l d strs hnd st (of_nat n) h2 = generic_handle_irq l d strs hnd st (of_nat (32 * n + b)) h3"
    using assms(5,6,12) f by (auto simp: ls1b_board_hw_irqdispatch_def word_unat_eq_iff unat_of_nat32 mult.commute [of _ 32])
  have "plat_irq_dispatch l d strs hnd st h = do { h \<leftarrow> ls1b_board_hw_irqdispatch l d strs hnd st (of_nat n) h2; Some (st, h) }"
    using dispatch_bank [OF assms(3,4) assms(6-9)] .
  then show ?thesis unfolding one by (simp add: generic_handle_irq_eq [OF inv c assms(13)] del: of_nat_add of_nat_mult)
qed

text \<open>Interrupt 5, with one handler that writes its argument to the leds.\<close>

theorem interrupt_runs_handlers_witness:
  "\<exists>st. plat_irq_dispatch demo_layout (demo_device (icreg 0 0) 0x60 0 0 0x1400) (\<lambda>_. 0)
      (\<lambda>f x h. Some (store LED_ADDR x h)) st [] =
    Some (st, [Mfc0 13 0x1400, Mfc0 12 0x1400, Load (icreg 0 0) 0x60, Load (icreg 0 4) 0, Store (icreg 0 4) 0,
      Load (icreg 0 12) 0, Store (icreg 0 12) 0x20, Store LED_ADDR 7, Load (icreg 0 4) 0, Store (icreg 0 4) 0x20])"
proof -
  let ?d = "demo_device (icreg 0 0) 0x60 0 0 0x1400"
  have "(5 :: u32) < 160 \<or> 168 \<le> (5 :: u32) \<and> (5 :: u32) < 184" by simp
  then obtain K M st hp where r: "irq_reach demo_layout ?d (\<lambda>_. 0) 0x9fd00000
      ((cascade_request demo_layout)(5 := cascade_request demo_layout 5 @ [(0x9fc00100, 7)])) K M st hp"
    using demo_requested by blast
  have c: "c \<in> {0, 1, 2, 3, 4}" if "c < 5" for c :: nat using that by auto
  have "\<forall>c<5. \<not> bit (0x60 :: u32) c" using c by fastforce
  then show ?thesis
    using interrupt_runs_handlers [OF r demo_off_heap, of "[]" "0x1400" "[Mfc0 13 0x1400]" "0x1400"
        "[Mfc0 13 0x1400, Mfc0 12 0x1400]" 0 "0x60" "[Mfc0 13 0x1400, Mfc0 12 0x1400, Load (icreg 0 0) 0x60]" 5 "\<lambda>f x h. Some (store LED_ADDR x h)"]
    by (simp add: demo_device_def mfc0_def load_def Let_def cascade_request_def demo_layout_def disable_sb2f_board_irq_def
        ack_sb2f_board_irq_def enable_sb2f_board_irq_def modify_def irq_bit_def store_def icreg_def) blast
qed

text \<open>C10: bit 10 of bank 1 stands for the controller of DMA: its lowest interrupt is acknowledged and masked, its
  handlers are called in their order, and it is unmasked.  The registers of bank 1 are only read: interrupt
  42 itself, to which \<open>init_IRQ\<close> attaches an action, is neither masked nor acknowledged.  The two status
  registers are at the offsets that the fields of the struct have: reads at 12, writes at 16 (a comment in \<open>irq.c\<close>
  has 16 for the reads).\<close>

theorem dma_interrupt_runs_handlers:
  assumes "irq_reach l d strs base R K M st hp" and "off_heap base (cascade_irqaction l)"
    and "load d (icreg 1 0) h = (isr, h1)" and "load d (dmareg 16) h1 = (wr, h2)" and "load d (dmareg 12) h2 = (rd, h3)"
    and "bit isr 10" and "\<forall>c<10. \<not> bit isr c"
    and "b < 8 \<and> bit rd b \<or> 8 \<le> b \<and> b < 16 \<and> bit wr (b - 8)"
    and "\<forall>c<min b 8. \<not> bit rd c" and "\<forall>c<b - 8. \<not> bit wr c" and "R (of_nat (168 + b)) \<noteq> []"
  shows "ls1b_board_hw_irqdispatch l d strs hnd st 1 h =
    do { h \<leftarrow> run_handlers l hnd (R (of_nat (168 + b)))
           (ack_ls1gp_dma_irq (of_nat (168 + b)) (disable_ls1gp_dma_irq d (of_nat (168 + b)) h3));
         enable_ls1gp_dma_irq d strs (of_nat (168 + b)) h }"
proof -
  obtain X where inv: "wired st" "chained R X (insert (cascade_irqaction l) K) st"
    using irq_reach_inv [OF assms(1,2)] by blast
  have b: "b < 16" using assms(8) by auto
  have i: "unat (of_nat (168 + b) :: u32) = 168 + b"
    using b unat_of_nat32 [of "168 + b"] by (simp del: of_nat_add)
  then have c: "unat (of_nat (168 + b) :: u32) < 256" "chip_of (unat (of_nat (168 + b) :: u32)) = Some Dma_chip"
    using b by (auto simp: chip_of_def)
  have m: "bit (0xff :: u32) k = (k < 8)" for k
    using bit_mask_iff [of 8 k, where 'a = u32] by (auto simp: mask_eq_exp_minus_1)
  have s: "bit (push_bit 8 (wr AND 0xff) OR (rd AND 0xff)) k = (k < 8 \<and> bit rd k \<or> 8 \<le> k \<and> k < 16 \<and> bit wr (k - 8))" for k
    by (simp only: bit_or_iff bit_push_bit_iff bit_and_iff m) (auto dest: bit_imp_le_length)
  have f: "ffs (push_bit 8 (wr AND 0xff) OR (rd AND 0xff)) = b + 1"
  proof (rule ffs_lowest)
    show "bit (push_bit 8 (wr AND 0xff) OR (rd AND 0xff)) b" using assms(8) by (simp only: s)
    fix c assume "c < b"
    then show "\<not> bit (push_bit 8 (wr AND 0xff) OR (rd AND 0xff)) c" using assms(9,10) unfolding s by auto
  qed
  have "ffs isr = 11" using ffs_lowest [of isr 10] assms(6,7) by simp
  then have "ls1b_board_hw_irqdispatch l d strs hnd st 1 h = generic_handle_irq l d strs hnd st (of_nat (168 + b)) h3"
    using assms(3-5) f by (simp add: ls1b_board_hw_irqdispatch_def ls1gp_board_dma_irqdispatch_def DMA_IRQ_BASE_def)
  then show ?thesis by (simp add: generic_handle_irq_eq [OF inv c assms(11)] del: of_nat_add)
qed

theorem dma_interrupt_runs_handlers_witness:
  "\<exists>st. ls1b_board_hw_irqdispatch demo_layout (demo_device (icreg 1 0) 0x400 (dmareg 16) 4 0) (\<lambda>_. 0)
      (\<lambda>f x h. Some (store LED_ADDR x h)) st 1 [] =
    Some [Load (icreg 1 0) 0x400, Load (dmareg 16) 4, Load (dmareg 12) 0, Load (dmareg 8) 0, Store (dmareg 8) 0,
      Store (dmareg 16) 4, Store LED_ADDR 7, Load (dmareg 8) 0, Store (dmareg 8) 4]"
proof -
  let ?d = "demo_device (icreg 1 0) 0x400 (dmareg 16) 4 0"
  have "(178 :: u32) < 160 \<or> 168 \<le> (178 :: u32) \<and> (178 :: u32) < 184" by simp
  then obtain K M st hp where r: "irq_reach demo_layout ?d (\<lambda>_. 0) 0x9fd00000
      ((cascade_request demo_layout)(178 := cascade_request demo_layout 178 @ [(0x9fc00100, 7)])) K M st hp"
    using demo_requested by blast
  have c: "c \<in> {0, 1, 2, 3, 4, 5, 6, 7, 8, 9}" if "c < 10" for c :: nat using that by auto
  have "\<forall>c<10. \<not> bit (0x400 :: u32) c" using c by fastforce
  moreover have "c = 0 \<or> c = 1" if "c < 2" for c :: nat using that by auto
  then have "\<forall>c<2. \<not> bit (4 :: u32) c" by fastforce
  ultimately show ?thesis
    using dma_interrupt_runs_handlers [OF r demo_off_heap, of "[]" "0x400" "[Load (icreg 1 0) 0x400]" 4
        "[Load (icreg 1 0) 0x400, Load (dmareg 16) 4]" 0 "[Load (icreg 1 0) 0x400, Load (dmareg 16) 4, Load (dmareg 12) 0]" 10
        "\<lambda>f x h. Some (store LED_ADDR x h)"]
    by (simp add: demo_device_def load_def Let_def cascade_request_def demo_layout_def disable_ls1gp_dma_irq_def
        ack_ls1gp_dma_irq_def enable_ls1gp_dma_irq_def DMA_IRQ_BASE_def modify_def irq_bit_def store_def icreg_def dmareg_def) blast
qed

end
