(* ===== verification/Scan.thy ===== *)
theory Scan
  imports Console "HOL-Library.Signed_Division" "HOL-Library.Sublist"
begin

text \<open>
  Reading and writing values by a format: \<^verbatim>\<open>lib/sscanf.c\<close>.  The macros that generate readers and
  printers are taken at the types that the file instantiates them with.  A \<open>va_list\<close> is a pointer that is
  passed by value (\<^verbatim>\<open>typedef void * va_list\<close> in \<^verbatim>\<open>include/common.h\<close>), the arguments are a list here: a
  callee that takes one does not move its caller's list on.  Shown: \<open>sscanf\<close> is a recursion over the two
  strings and stores all its conversions through its first pointer; what the printers print is read back;
  printers stay within the length they are given.
\<close>

section \<open>Reading numbers\<close>

definition is_space :: "u8 \<Rightarrow> bool" where
  "is_space c \<longleftrightarrow> c = 32 \<or> c = 9 \<or> c = 11 \<or> c = 12 \<or> c = 13 \<or> c = 10"

partial_function (option) skip_spaces :: "mem \<Rightarrow> addr \<Rightarrow> addr option" where
  "skip_spaces m str = (if is_space (m str) then skip_spaces m (str + 1) else Some str)"

declare skip_spaces.simps [code]

text \<open>\<open>value\<close> and \<open>isempty\<close>; \<open>long\<close> arithmetic wraps.\<close>

partial_function (option) dec_loop :: "mem \<Rightarrow> addr \<Rightarrow> u32 \<Rightarrow> bool \<Rightarrow> (addr \<times> u32 \<times> bool) option" where
  "dec_loop m cur val isempty =
     (if m cur \<noteq> 0 \<and> schar (m cur) \<ge> 48 \<and> schar (m cur) \<le> 57
      then dec_loop m (cur + 1) (val * 10 + word_of_int (schar (m cur) - 48)) False
      else Some (cur, val, isempty))"

declare dec_loop.simps [code]

definition hex_step :: "u32 \<Rightarrow> u8 \<Rightarrow> u32 option" where
  "hex_step val c =
     (if schar c \<ge> 48 \<and> schar c \<le> 57 then Some (val * 16 + word_of_int (schar c - 48))
      else if schar c \<ge> 97 \<and> schar c \<le> 102 then Some (val * 16 + 10 + word_of_int (schar c - 97))
      else if schar c \<ge> 65 \<and> schar c \<le> 70 then Some (val * 16 + 10 + word_of_int (schar c - 65))
      else None)"

partial_function (option) hex_loop :: "mem \<Rightarrow> addr \<Rightarrow> u32 \<Rightarrow> bool \<Rightarrow> (addr \<times> u32 \<times> bool) option" where
  "hex_loop m cur val isempty =
     (if m cur \<noteq> 0
      then (case hex_step val (m cur) of
              Some v \<Rightarrow> hex_loop m (cur + 1) v False
            | None \<Rightarrow> Some (cur, val, isempty))
      else Some (cur, val, isempty))"

declare hex_loop.simps [code]

definition read_sign :: "mem \<Rightarrow> addr \<Rightarrow> addr \<times> bool" where
  "read_sign m cur = (if m cur = 43 then (cur + 1, False) else if m cur = 45 then (cur + 1, True) else (cur, False))"

definition hex_prefix :: "mem \<Rightarrow> addr \<Rightarrow> addr" where
  "hex_prefix m cur = (if m cur = 48 \<and> m (cur + 1) = 120 then cur + 2 else cur)"

text \<open>The pointer after the number and the value stored in \<open>*out\<close>; \<open>str\<close> and no value on error.\<close>

definition dec_to_signed :: "mem \<Rightarrow> addr \<Rightarrow> (addr \<times> u32 option) option" where
  "dec_to_signed m str =
     do { cur \<leftarrow> skip_spaces m str;
          let (cur, isneg) = read_sign m cur;
          (cur, val, isempty) \<leftarrow> dec_loop m cur 0 True;
          Some (if isempty then (str, None) else (cur, Some (if isneg then - val else val))) }"

definition dec_to_unsigned :: "mem \<Rightarrow> addr \<Rightarrow> (addr \<times> u32 option) option" where
  "dec_to_unsigned m str =
     do { cur \<leftarrow> skip_spaces m str;
          (cur, val, isempty) \<leftarrow> dec_loop m cur 0 True;
          Some (if isempty then (str, None) else (cur, Some val)) }"

definition hex_to_signed :: "mem \<Rightarrow> addr \<Rightarrow> (addr \<times> u32 option) option" where
  "hex_to_signed m str =
     do { cur \<leftarrow> skip_spaces m str;
          let (cur, isneg) = read_sign m cur;
          (cur, val, isempty) \<leftarrow> hex_loop m (hex_prefix m cur) 0 True;
          Some (if isempty then (str, None) else (cur, Some (if isneg then - val else val))) }"

definition hex_to_unsigned :: "mem \<Rightarrow> addr \<Rightarrow> (addr \<times> u32 option) option" where
  "hex_to_unsigned m str =
     do { cur \<leftarrow> skip_spaces m str;
          (cur, val, isempty) \<leftarrow> hex_loop m (hex_prefix m cur) 0 True;
          Some (if isempty then (str, None) else (cur, Some val)) }"

text \<open>The macros: \<open>*out\<close> is stored if the pointer moved.\<close>

definition moved :: "addr \<Rightarrow> addr \<times> u32 option \<Rightarrow> addr \<times> u32 option" where
  "moved str r = (case r of (cur, v) \<Rightarrow> (cur, if cur \<noteq> str then v else None))"

definition dec_to_int :: "mem \<Rightarrow> addr \<Rightarrow> (addr \<times> u32 option) option" where
  "dec_to_int m str = do { r \<leftarrow> dec_to_signed m str; Some (moved str r) }"

definition hex_to_int :: "mem \<Rightarrow> addr \<Rightarrow> (addr \<times> u32 option) option" where
  "hex_to_int m str = do { r \<leftarrow> hex_to_signed m str; Some (moved str r) }"

definition dec_to_uint :: "mem \<Rightarrow> addr \<Rightarrow> (addr \<times> u32 option) option" where
  "dec_to_uint m str = do { r \<leftarrow> dec_to_unsigned m str; Some (moved str r) }"

definition hex_to_uint :: "mem \<Rightarrow> addr \<Rightarrow> (addr \<times> u32 option) option" where
  "hex_to_uint m str = do { r \<leftarrow> hex_to_unsigned m str; Some (moved str r) }"

section \<open>sscanf\<close>

text \<open>\<open>va_arg\<close> on the list that the callee was given.\<close>

definition va_arg :: "u32 list \<Rightarrow> u32 option" where
  "va_arg args = (case args of [] \<Rightarrow> None | a # _ \<Rightarrow> Some a)"

partial_function (option) copy_chars :: "mem \<Rightarrow> addr \<Rightarrow> addr \<Rightarrow> u32 \<Rightarrow> u32 \<Rightarrow> (mem \<times> addr \<times> u32) option" where
  "copy_chars m charp cur uintv width =
     (if m cur \<noteq> 0 \<and> uintv < width
      then copy_chars (m(charp + uintv := m cur)) charp (cur + 1) (uintv + 1) width
      else Some (m, cur, uintv))"

declare copy_chars.simps [code]

partial_function (option) copy_word :: "mem \<Rightarrow> addr \<Rightarrow> addr \<Rightarrow> u32 \<Rightarrow> u32 \<Rightarrow> (mem \<times> addr \<times> u32) option" where
  "copy_word m charp cur uintv width =
     (if m cur \<noteq> 0 \<and> \<not> is_space (m cur) \<and> (width = 0 \<or> uintv < width)
      then copy_word (m(charp + uintv := m cur)) charp (cur + 1) (uintv + 1) width
      else Some (m, cur, uintv))"

declare copy_word.simps [code]

definition store_arg :: "mem \<Rightarrow> u32 list \<Rightarrow> addr \<times> u32 option \<Rightarrow> (mem \<times> addr) option" where
  "store_arg m args r =
     (case r of
        (cur, None) \<Rightarrow> Some (m, cur)
      | (cur, Some v) \<Rightarrow> do { p \<leftarrow> va_arg args; Some (st32 m p v, cur) })"

definition parse_arg :: "mem \<Rightarrow> addr \<Rightarrow> addr \<Rightarrow> u32 list \<Rightarrow> (mem \<times> addr) option" where
  "parse_arg m fmt str args =
     do { (fmt, w) \<leftarrow> dec_to_uint m fmt;
          let width = (case w of None \<Rightarrow> 0 | Some v \<Rightarrow> v);
          if m fmt = 100 then do { r \<leftarrow> dec_to_int m str; store_arg m args r }
          else if m fmt = 117 then do { r \<leftarrow> dec_to_uint m str; store_arg m args r }
          else if m fmt = 120 \<or> m fmt = 88 then do { r \<leftarrow> hex_to_uint m str; store_arg m args r }
          else if m fmt = 99
          then do { charp \<leftarrow> va_arg args;
                    (m', cur, uintv) \<leftarrow> copy_chars m charp str 0 (if width = 0 then 1 else width);
                    Some (m', cur) }
          else if m fmt = 115
          then do { charp \<leftarrow> va_arg args;
                    (m', cur, uintv) \<leftarrow> copy_word m charp str 0 width;
                    Some (m'(charp + uintv := 0), cur) }
          else if m fmt = 37 \<and> m str = 37 then Some (m, str + 1)
          else Some (m, str) }"

partial_function (option) skip_digits :: "mem \<Rightarrow> addr \<Rightarrow> addr option" where
  "skip_digits m fmt =
     (if schar (m fmt) \<ge> 48 \<and> schar (m fmt) \<le> 57 then skip_digits m (fmt + 1) else Some fmt)"

declare skip_digits.simps [code]

partial_function (option) sscanf_loop :: "mem \<Rightarrow> addr \<Rightarrow> addr \<Rightarrow> u32 list \<Rightarrow> int \<Rightarrow> (mem \<times> int) option" where
  "sscanf_loop m str fmt args ret =
     (if m fmt \<noteq> 0 \<and> m str \<noteq> 0
      then (if m fmt = 37
            then do { (m', tmp) \<leftarrow> parse_arg m (fmt + 1) str args;
                      if tmp = str then Some (m', ret)
                      else do { fmt' \<leftarrow> skip_digits m' (fmt + 1);
                                sscanf_loop m' tmp (fmt' + 1) args (if m' (fmt + 1) \<noteq> 37 then ret + 1 else ret) } }
            else if is_space (m fmt) then do { str' \<leftarrow> skip_spaces m str; sscanf_loop m str' (fmt + 1) args ret }
            else if m fmt = m str then sscanf_loop m (str + 1) (fmt + 1) args ret
            else Some (m, ret))
      else Some (m, ret))"

declare sscanf_loop.simps [code]

definition sscanf :: "mem \<Rightarrow> addr \<Rightarrow> addr \<Rightarrow> u32 list \<Rightarrow> (mem \<times> int) option" where
  "sscanf m str fmt args = sscanf_loop m str fmt args 0"

section \<open>Printing\<close>

text \<open>\<open>buf\<close>: the digits, least significant first; \<open>%\<close> and \<open>/\<close> of \<open>int\<close> round towards zero.\<close>

partial_function (option) int_digits :: "int \<Rightarrow> u32 \<Rightarrow> u8 list option" where
  "int_digits base val =
     (let d = word_of_int (sint val smod base); val' = word_of_int (sint val sdiv base)
      in do { ds \<leftarrow> (if val' \<noteq> 0 then int_digits base val' else Some []); Some (d # ds) })"

declare int_digits.simps [code]

partial_function (option) uint_digits :: "u32 \<Rightarrow> u32 \<Rightarrow> u8 list option" where
  "uint_digits base val =
     (let d = ucast (val mod base); val' = val div base
      in do { ds \<leftarrow> (if val' \<noteq> 0 then uint_digits base val' else Some []); Some (d # ds) })"

declare uint_digits.simps [code]

text \<open>The padding for \<open>used\<close> characters: the memory, the pointer and the length that is left.\<close>

definition put_pad :: "mem \<Rightarrow> u8 \<Rightarrow> u32 \<Rightarrow> u32 \<Rightarrow> u32 \<Rightarrow> addr \<Rightarrow> mem \<times> addr \<times> u32" where
  "put_pad m padchar padlen used len str =
     (if padlen > used
      then let padlen = padlen - used; padlen = (if padlen < len then padlen else len)
           in (fst (memset m str padchar padlen), str + padlen, len - padlen)
      else (m, str, len))"

definition put_sign :: "bool \<Rightarrow> mem \<times> addr \<times> u32 \<Rightarrow> mem \<times> addr \<times> u32" where
  "put_sign isneg s = (case s of (m, str, len) \<Rightarrow> if isneg \<and> len > 0 then (m(str := 45), str + 1, len - 1) else s)"

fun put_digits :: "(u8 \<Rightarrow> u8) \<Rightarrow> u8 list \<Rightarrow> mem \<times> addr \<times> u32 \<Rightarrow> mem \<times> addr" where
  "put_digits f [] (m, str, len) = (m, str)"
| "put_digits f (d # ds) (m, str, len) =
     (if len > 0 then put_digits f ds (m(str := f d), str + 1, len - 1) else (m, str))"

definition dec_char :: "u8 \<Rightarrow> u8" where
  "dec_char d = d + 48"

definition hex_char :: "bool \<Rightarrow> u8 \<Rightarrow> u8" where
  "hex_char uppercase d = (if schar d < 10 then d + 48 else d - 10 + (if uppercase then 65 else 97))"

definition int_to_dec :: "mem \<Rightarrow> u32 \<Rightarrow> u8 \<Rightarrow> u32 \<Rightarrow> u32 \<Rightarrow> addr \<Rightarrow> (mem \<times> addr) option" where
  "int_to_dec m val padchar padlen len str =
     (let isneg = sint val < 0; val = (if isneg then - val else val)
      in do { buf \<leftarrow> int_digits 10 val;
              Some (put_digits dec_char (rev buf)
                (put_sign isneg (put_pad m padchar padlen ((if isneg then 1 else 0) + of_nat (length buf)) len str))) })"

definition int_to_hex :: "mem \<Rightarrow> u32 \<Rightarrow> bool \<Rightarrow> u8 \<Rightarrow> u32 \<Rightarrow> u32 \<Rightarrow> addr \<Rightarrow> (mem \<times> addr) option" where
  "int_to_hex m val uppercase padchar padlen len str =
     (let isneg = sint val < 0; val = (if isneg then - val else val)
      in do { buf \<leftarrow> int_digits 16 val;
              Some (put_digits (hex_char uppercase) (rev buf)
                (put_sign isneg (put_pad m padchar padlen ((if isneg then 1 else 0) + of_nat (length buf)) len str))) })"

definition uint_to_dec :: "mem \<Rightarrow> u32 \<Rightarrow> u8 \<Rightarrow> u32 \<Rightarrow> u32 \<Rightarrow> addr \<Rightarrow> (mem \<times> addr) option" where
  "uint_to_dec m val padchar padlen len str =
     do { buf \<leftarrow> uint_digits 10 val;
          Some (put_digits dec_char (rev buf) (put_pad m padchar padlen (of_nat (length buf)) len str)) }"

definition uint_to_hex :: "mem \<Rightarrow> u32 \<Rightarrow> bool \<Rightarrow> u8 \<Rightarrow> u32 \<Rightarrow> u32 \<Rightarrow> addr \<Rightarrow> (mem \<times> addr) option" where
  "uint_to_hex m val uppercase padchar padlen len str =
     do { buf \<leftarrow> uint_digits 16 val;
          Some (put_digits (hex_char uppercase) (rev buf) (put_pad m padchar padlen (of_nat (length buf)) len str)) }"

text \<open>\<open>size_t\<close> is \<open>unsigned int\<close>.\<close>

definition siz_to_hex :: "mem \<Rightarrow> u32 \<Rightarrow> bool \<Rightarrow> u8 \<Rightarrow> u32 \<Rightarrow> u32 \<Rightarrow> addr \<Rightarrow> (mem \<times> addr) option" where
  "siz_to_hex = uint_to_hex"

text \<open>Blanks before a character or a string: \<open>padlen\<close> of them, as far as they fit.\<close>

definition put_blanks :: "mem \<Rightarrow> u32 \<Rightarrow> u32 \<Rightarrow> addr \<Rightarrow> mem \<times> addr \<times> u32" where
  "put_blanks m padlen len str =
     (let padlen = (if padlen < len then padlen else len)
      in (fst (memset m str 32 padlen), str + padlen, len - padlen))"

definition print_arg :: "mem \<Rightarrow> addr \<Rightarrow> addr \<Rightarrow> u32 \<Rightarrow> u32 list \<Rightarrow> (mem \<times> addr) option" where
  "print_arg m fmt str len args =
     (let padchar = (if m fmt = 48 then 48 else 32)
      in do {
        (fmt, w) \<leftarrow> dec_to_uint m fmt;
        let width = (case w of None \<Rightarrow> 0 | Some v \<Rightarrow> v);
        if m fmt = 100 \<or> m fmt = 105 then do { a \<leftarrow> va_arg args; int_to_dec m a padchar width len str }
        else if m fmt = 117 then do { a \<leftarrow> va_arg args; uint_to_dec m a padchar width len str }
        else if m fmt = 120 \<or> m fmt = 88 then do { a \<leftarrow> va_arg args; uint_to_hex m a (m fmt = 88) padchar width len str }
        else if m fmt = 112 then do { a \<leftarrow> va_arg args; siz_to_hex m a False padchar width len str }
        else if m fmt = 99
        then do { a \<leftarrow> va_arg args;
                  let (m1, str1, len1) = (if width > 1 then put_blanks m (width - 1) len str else (m, str, len));
                  Some (if len1 > 0 then (m1(str1 := ucast a), str1 + 1) else (m1, str1)) }
        else if m fmt = 115
        then do { charp \<leftarrow> va_arg args;
                  charplen \<leftarrow> strlen m charp;
                  let (m1, str1, len1) = (if width > 0 \<and> width > charplen then put_blanks m (width - charplen) len str else (m, str, len));
                  let charplen1 = (if charplen < len1 then charplen else len1);
                  Some (fst (memcpy m1 str1 charp charplen1), str1 + charplen1) }
        else if m fmt = 37 then Some (m(str := 37), str + 1)
        else Some (m, str) })"

section \<open>Reading, on lists of bytes\<close>

definition dec_digit :: "u8 \<Rightarrow> bool" where
  "dec_digit c \<longleftrightarrow> schar c \<ge> 48 \<and> schar c \<le> 57"

definition hex_digit_char :: "u8 \<Rightarrow> bool" where
  "hex_digit_char c \<longleftrightarrow> hex_step 0 c \<noteq> None"

definition dec_value :: "u32 \<Rightarrow> u8 list \<Rightarrow> u32" where
  "dec_value = foldl (\<lambda>v c. v * 10 + word_of_int (schar c - 48))"

definition hex_value :: "u32 \<Rightarrow> u8 list \<Rightarrow> u32" where
  "hex_value = foldl (\<lambda>v c. the (hex_step v c))"

definition take_sign :: "u8 list \<Rightarrow> bool \<times> u8 list" where
  "take_sign bs = (case bs of b # cs \<Rightarrow> if b = 43 then (False, cs) else if b = 45 then (True, cs) else (False, bs) | [] \<Rightarrow> (False, bs))"

definition take_0x :: "u8 list \<Rightarrow> u8 list" where
  "take_0x bs = (case bs of b # c # cs \<Rightarrow> if b = 48 \<and> c = 120 then cs else bs | _ \<Rightarrow> bs)"

text \<open>The value and the rest; \<open>sg\<close>: a sign is allowed.\<close>

definition read_dec :: "bool \<Rightarrow> u8 list \<Rightarrow> (u32 \<times> u8 list) option" where
  "read_dec sg bs =
     (let cs = dropWhile is_space bs; (neg, ds) = (if sg then take_sign cs else (False, cs));
          v = dec_value 0 (takeWhile dec_digit ds)
      in if takeWhile dec_digit ds = [] then None else Some (if neg then - v else v, dropWhile dec_digit ds))"

definition read_hex :: "bool \<Rightarrow> u8 list \<Rightarrow> (u32 \<times> u8 list) option" where
  "read_hex sg bs =
     (let cs = dropWhile is_space bs; (neg, ds) = (if sg then take_sign cs else (False, cs)); es = take_0x ds;
          v = hex_value 0 (takeWhile hex_digit_char es)
      in if takeWhile hex_digit_char es = [] then None else Some (if neg then - v else v, dropWhile hex_digit_char es))"

text \<open>\<open>at a bs r\<close>: where the rest \<open>r\<close> of the string \<open>bs\<close> at \<open>a\<close> begins.\<close>

definition at_rest :: "addr \<Rightarrow> u8 list \<Rightarrow> u8 list \<Rightarrow> addr" where
  "at_rest a bs r = a + of_nat (length bs - length r)"

lemma at_rest_refl [simp]: "at_rest a bs bs = a"
  by (simp add: at_rest_def)

lemma at_rest_drop: "length r \<le> length cs \<Longrightarrow> length cs \<le> length bs \<Longrightarrow> at_rest (at_rest a bs cs) cs r = at_rest a bs r"
  by (simp add: at_rest_def of_nat_diff algebra_simps)

lemma at_rest_tl [simp]: "at_rest a (b # bs) bs = a + 1"
  by (simp add: at_rest_def)

lemma cstr_suffix:
  assumes "cstr m a bs" "suffix r bs"
  shows "cstr m (at_rest a bs r) r"
proof -
  obtain ps where "bs = ps @ r" using assms(2) by (auto simp: suffix_def)
  then show ?thesis using assms(1) by (simp add: at_rest_def cstr_append)
qed

lemma at_rest_Cons: "length r \<le> length bs \<Longrightarrow> at_rest (a + 1) bs r = at_rest a (b # bs) r"
  by (simp add: at_rest_def Suc_diff_le algebra_simps)

lemma at_rest_dropWhile: "at_rest (a + 1) bs (dropWhile P bs) = at_rest a (b # bs) (dropWhile P bs)"
  by (rule at_rest_Cons) (rule length_dropWhile_le)

lemma skip_spaces_cstr: "cstr m a bs \<Longrightarrow> skip_spaces m a = Some (at_rest a bs (dropWhile is_space bs))"
proof (induction bs arbitrary: a)
  case Nil
  then show ?case by (subst skip_spaces.simps) (simp add: is_space_def)
next
  case (Cons b bs)
  then show ?case by (subst skip_spaces.simps) (auto simp: at_rest_dropWhile)
qed

lemma dec_loop_step: "dec_loop m a v e = (if m a \<noteq> 0 \<and> dec_digit (m a)
    then dec_loop m (a + 1) (v * 10 + word_of_int (schar (m a) - 48)) False else Some (a, v, e))"
  unfolding dec_digit_def by (rule dec_loop.simps)

lemma dec_loop_cstr:
  "cstr m a bs \<Longrightarrow> dec_loop m a v e = Some (at_rest a bs (dropWhile dec_digit bs), dec_value v (takeWhile dec_digit bs),
     e \<and> takeWhile dec_digit bs = [])"
proof (induction bs arbitrary: a v e)
  case Nil
  then show ?case by (subst dec_loop_step) (simp add: dec_value_def)
next
  case (Cons b bs)
  then show ?case by (subst dec_loop_step) (auto simp: dec_value_def at_rest_dropWhile)
qed

lemma hex_step_digit: "hex_step v c = None \<longleftrightarrow> \<not> hex_digit_char c"
  by (auto simp: hex_digit_char_def hex_step_def)

lemma hex_loop_cstr:
  "cstr m a bs \<Longrightarrow> hex_loop m a v e = Some (at_rest a bs (dropWhile hex_digit_char bs), hex_value v (takeWhile hex_digit_char bs),
     e \<and> takeWhile hex_digit_char bs = [])"
proof (induction bs arbitrary: a v e)
  case Nil
  then show ?case by (subst hex_loop.simps) (simp add: hex_value_def)
next
  case (Cons b bs)
  then have c: "m a = b" "b \<noteq> 0" "cstr m (a + 1) bs" by auto
  show ?case
  proof (cases "hex_step v b")
    case None
    then have "\<not> hex_digit_char b" using hex_step_digit by blast
    with None c show ?thesis by (subst hex_loop.simps) (simp add: hex_value_def)
  next
    case (Some w)
    then have "hex_digit_char b" using hex_step_digit [of v b] by auto
    with Some c Cons.IH [OF c(3), of w False] show ?thesis
      by (subst hex_loop.simps) (simp add: hex_value_def at_rest_dropWhile)
  qed
qed

lemma read_sign_cstr: "cstr m a bs \<Longrightarrow> read_sign m a = (at_rest a bs (snd (take_sign bs)), fst (take_sign bs))"
  by (cases bs) (auto simp: read_sign_def take_sign_def)

lemma hex_prefix_cstr: "cstr m a bs \<Longrightarrow> hex_prefix m a = at_rest a bs (take_0x bs)"
  by (cases bs rule: remdups_adj.cases) (auto simp: hex_prefix_def take_0x_def at_rest_def)

lemma suffix_take_sign: "suffix (snd (take_sign bs)) bs"
  by (cases bs) (auto simp: take_sign_def suffix_ConsI)

lemma suffix_take_0x: "suffix (take_0x bs) bs"
  by (cases bs rule: remdups_adj.cases) (auto simp: take_0x_def suffix_ConsI)

lemma at_rest_trans: "suffix cs bs \<Longrightarrow> suffix r cs \<Longrightarrow> at_rest (at_rest a bs cs) cs r = at_rest a bs r"
  by (rule at_rest_drop) (auto dest: suffix_length_le)

lemma dropWhile_shorter: "takeWhile P bs \<noteq> [] \<Longrightarrow> length (dropWhile P bs) < length bs"
  using takeWhile_dropWhile_id [of P bs] by (metis length_0_conv length_append less_add_same_cancel2 neq0_conv)

lemma read_dec_suffix: "read_dec sg bs = Some (v, r) \<Longrightarrow> suffix r bs \<and> length r < length bs"
proof -
  define ds where "ds = (if sg then snd (take_sign (dropWhile is_space bs)) else dropWhile is_space bs)"
  assume "read_dec sg bs = Some (v, r)"
  then have "takeWhile dec_digit ds \<noteq> []" "r = dropWhile dec_digit ds"
    by (auto simp: read_dec_def ds_def Let_def split: prod.splits if_splits)
  then have r: "length r < length ds" "suffix r ds" using dropWhile_shorter by (auto simp: suffix_dropWhile)
  have "suffix ds (dropWhile is_space bs)" by (auto simp: ds_def suffix_take_sign)
  then have "suffix ds bs" using suffix_dropWhile suffix_order.trans by blast
  then show ?thesis using r suffix_length_le suffix_order.trans less_le_trans by blast
qed

lemma read_hex_suffix: "read_hex sg bs = Some (v, r) \<Longrightarrow> suffix r bs \<and> length r < length bs"
proof -
  define ds where "ds = (if sg then snd (take_sign (dropWhile is_space bs)) else dropWhile is_space bs)"
  assume "read_hex sg bs = Some (v, r)"
  then have "takeWhile hex_digit_char (take_0x ds) \<noteq> []" "r = dropWhile hex_digit_char (take_0x ds)"
    by (auto simp: read_hex_def ds_def Let_def split: prod.splits if_splits)
  then have r: "length r < length (take_0x ds)" "suffix r (take_0x ds)" using dropWhile_shorter by (auto simp: suffix_dropWhile)
  have "suffix ds (dropWhile is_space bs)" by (auto simp: ds_def suffix_take_sign)
  then have "suffix (take_0x ds) bs" using suffix_dropWhile suffix_order.trans suffix_take_0x by blast
  then show ?thesis using r suffix_length_le suffix_order.trans less_le_trans by blast
qed

lemma at_rest_moved: "cstr m a bs \<Longrightarrow> length r < length bs \<Longrightarrow> at_rest a bs r \<noteq> a"
  using cstr_length_bound [of m a bs] by (auto simp: at_rest_def of_nat_eq_iff32)

definition read_result :: "addr \<Rightarrow> u8 list \<Rightarrow> (u32 \<times> u8 list) option \<Rightarrow> addr \<times> u32 option" where
  "read_result a bs x = (case x of None \<Rightarrow> (a, None) | Some (v, r) \<Rightarrow> (at_rest a bs r, Some v))"

lemma moved_result: "cstr m a bs \<Longrightarrow> (\<And>v r. x = Some (v, r) \<Longrightarrow> length r < length bs) \<Longrightarrow> moved a (read_result a bs x) = read_result a bs x"
  using at_rest_moved by (auto simp: moved_def read_result_def split: option.splits)

lemma dec_to_unsigned_cstr: "cstr m a bs \<Longrightarrow> dec_to_unsigned m a = Some (read_result a bs (read_dec False bs))"
proof -
  assume c: "cstr m a bs"
  have s: "suffix (dropWhile is_space bs) bs" by (rule suffix_dropWhile)
  show ?thesis
    using dec_loop_cstr [OF cstr_suffix [OF c s], of 0 True]
    by (simp add: dec_to_unsigned_def skip_spaces_cstr [OF c] read_dec_def read_result_def at_rest_trans [OF s] suffix_dropWhile Let_def)
qed

lemma dec_to_signed_cstr: "cstr m a bs \<Longrightarrow> dec_to_signed m a = Some (read_result a bs (read_dec True bs))"
proof -
  assume c: "cstr m a bs"
  define cs where "cs = dropWhile is_space bs"
  have s: "suffix cs bs" unfolding cs_def by (rule suffix_dropWhile)
  note c1 = cstr_suffix [OF c s]
  have t: "suffix (snd (take_sign cs)) bs" using suffix_take_sign s suffix_order.trans by blast
  have "at_rest (at_rest a bs cs) cs (snd (take_sign cs)) = at_rest a bs (snd (take_sign cs))"
    by (rule at_rest_trans [OF s suffix_take_sign])
  then have sg: "read_sign m (at_rest a bs cs) = (at_rest a bs (snd (take_sign cs)), fst (take_sign cs))"
    using read_sign_cstr [OF c1] by simp
  show ?thesis
    using dec_loop_cstr [OF cstr_suffix [OF c t], of 0 True]
    by (simp add: dec_to_signed_def skip_spaces_cstr [OF c, folded cs_def] sg read_dec_def read_result_def at_rest_trans [OF t] suffix_dropWhile Let_def
        case_prod_beta flip: cs_def)
qed

lemma hex_to_unsigned_cstr: "cstr m a bs \<Longrightarrow> hex_to_unsigned m a = Some (read_result a bs (read_hex False bs))"
proof -
  assume c: "cstr m a bs"
  define cs where "cs = dropWhile is_space bs"
  have s: "suffix cs bs" unfolding cs_def by (rule suffix_dropWhile)
  note c1 = cstr_suffix [OF c s]
  have t: "suffix (take_0x cs) bs" using suffix_take_0x s suffix_order.trans by blast
  have p: "hex_prefix m (at_rest a bs cs) = at_rest a bs (take_0x cs)"
    using hex_prefix_cstr [OF c1] at_rest_trans [OF s suffix_take_0x] by simp
  show ?thesis
    using hex_loop_cstr [OF cstr_suffix [OF c t], of 0 True]
    by (simp add: hex_to_unsigned_def skip_spaces_cstr [OF c, folded cs_def] p read_hex_def read_result_def at_rest_trans [OF t] suffix_dropWhile Let_def
        flip: cs_def)
qed

lemma hex_to_signed_cstr: "cstr m a bs \<Longrightarrow> hex_to_signed m a = Some (read_result a bs (read_hex True bs))"
proof -
  assume c: "cstr m a bs"
  define cs where "cs = dropWhile is_space bs"
  define ds where "ds = snd (take_sign cs)"
  have s: "suffix cs bs" unfolding cs_def by (rule suffix_dropWhile)
  note c1 = cstr_suffix [OF c s]
  have t: "suffix ds bs" unfolding ds_def using suffix_take_sign s suffix_order.trans by blast
  have "at_rest (at_rest a bs cs) cs ds = at_rest a bs ds"
    unfolding ds_def by (rule at_rest_trans [OF s suffix_take_sign])
  then have sg: "read_sign m (at_rest a bs cs) = (at_rest a bs ds, fst (take_sign cs))"
    using read_sign_cstr [OF c1] by (simp add: ds_def)
  have u: "suffix (take_0x ds) bs" using suffix_take_0x t suffix_order.trans by blast
  have p: "hex_prefix m (at_rest a bs ds) = at_rest a bs (take_0x ds)"
    using hex_prefix_cstr [OF cstr_suffix [OF c t]] at_rest_trans [OF t suffix_take_0x] by simp
  show ?thesis
    using hex_loop_cstr [OF cstr_suffix [OF c u], of 0 True]
    by (simp add: hex_to_signed_def skip_spaces_cstr [OF c, folded cs_def] sg p read_hex_def read_result_def at_rest_trans [OF u] suffix_dropWhile Let_def
        case_prod_beta flip: cs_def ds_def)
qed

lemma readers_cstr:
  assumes "cstr m a bs"
  shows "dec_to_uint m a = Some (read_result a bs (read_dec False bs))" "dec_to_int m a = Some (read_result a bs (read_dec True bs))"
    "hex_to_uint m a = Some (read_result a bs (read_hex False bs))" "hex_to_int m a = Some (read_result a bs (read_hex True bs))"
  using moved_result [OF assms, of "read_dec False bs"] moved_result [OF assms, of "read_dec True bs"]
    moved_result [OF assms, of "read_hex False bs"] moved_result [OF assms, of "read_hex True bs"] read_dec_suffix read_hex_suffix
  by (auto simp: dec_to_uint_def dec_to_int_def hex_to_uint_def hex_to_int_def dec_to_unsigned_cstr [OF assms] dec_to_signed_cstr [OF assms]
      hex_to_unsigned_cstr [OF assms] hex_to_signed_cstr [OF assms])

section \<open>sscanf, on lists of bytes\<close>

text \<open>What a conversion stores.\<close>

datatype conv = Num u32 | Chars "u8 list"

definition store_conv :: "addr \<Rightarrow> conv \<Rightarrow> mem \<Rightarrow> mem" where
  "store_conv p cv m = (case cv of Num v \<Rightarrow> st32 m p v | Chars bs \<Rightarrow> write_bytes m p bs)"

definition num_result :: "u8 list \<Rightarrow> (u32 \<times> u8 list) option \<Rightarrow> conv option \<times> u8 list" where
  "num_result ss x = (case x of None \<Rightarrow> (None, ss) | Some (v, r) \<Rightarrow> (Some (Num v), r))"

definition parse_spec :: "u8 list \<Rightarrow> u8 list \<Rightarrow> conv option \<times> u8 list" where
  "parse_spec fs ss =
     (let (w, gs) = (case read_dec False fs of None \<Rightarrow> (0, fs) | Some x \<Rightarrow> x);
          c = (case gs of [] \<Rightarrow> 0 | c # _ \<Rightarrow> c)
      in if c = 100 then num_result ss (read_dec True ss)
         else if c = 117 then num_result ss (read_dec False ss)
         else if c = 120 \<or> c = 88 then num_result ss (read_hex False ss)
         else if c = 99 then let n = unat (if w = 0 then 1 else w) in (Some (Chars (take n ss)), drop n ss)
         else if c = 115
         then let ws = takeWhile (\<lambda>c. \<not> is_space c) ss; ws = (if w = 0 then ws else take (unat w) ws)
              in (Some (Chars (ws @ [0])), drop (length ws) ss)
         else if c = 37 \<and> ss \<noteq> [] \<and> hd ss = 37 then (None, tl ss)
         else (None, ss))"

text \<open>The number that \<open>sscanf\<close> returns and what it stores, in order.\<close>

function scan_spec :: "u8 list \<Rightarrow> u8 list \<Rightarrow> nat \<times> conv list" where
  "scan_spec [] ss = (0, [])"
| "scan_spec (c # fs) [] = (0, [])"
| "scan_spec (c # fs) (s # ss) =
     (if c = 37
      then (let (cv, r) = parse_spec fs (s # ss); cvs = (case cv of None \<Rightarrow> [] | Some x \<Rightarrow> [x])
            in if r = s # ss then (0, cvs)
               else let (n, xs) = scan_spec (tl (dropWhile dec_digit fs)) r
                    in (n + (if hd fs = 37 then 0 else 1), cvs @ xs))
      else if is_space c then scan_spec fs (dropWhile is_space (s # ss))
      else if c = s then scan_spec fs ss
      else (0, []))"
  by pat_completeness auto
termination
proof (relation "measure (\<lambda>(fs, ss). length fs)", goal_cases)
  case (2 c fs s ss)
  have "length (tl (dropWhile dec_digit fs)) \<le> length fs"
    using length_dropWhile_le [of dec_digit fs] by simp
  then show ?case by simp
qed simp_all

lemma apart_suffix: "apart a (Suc (length bs)) p N \<Longrightarrow> suffix r bs \<Longrightarrow> apart (at_rest a bs r) (Suc (length r)) p N"
proof -
  assume a: "apart a (Suc (length bs)) p N" and s: "suffix r bs"
  then have l: "length r \<le> length bs" by (rule_tac suffix_length_le)
  show ?thesis
    unfolding apart_def
  proof (intro allI impI)
    fix i assume "i < Suc (length r)"
    then have "length bs - length r + i < Suc (length bs)" using l by linarith
    then have "\<not> in_block (a + of_nat (length bs - length r + i)) p N" using a unfolding apart_def by blast
    then show "\<not> in_block (at_rest a bs r + of_nat i) p N" by (simp only: at_rest_def of_nat_add add.assoc not_False_eq_True)
  qed
qed

lemma copy_chars_eq:
  assumes "cstr m cur ss" "apart cur (Suc (length ss)) p N" "unat i + length ss \<le> N" "N \<le> 4294967295"
  shows "copy_chars m p cur i w = Some (write_bytes m (p + i) (take (unat w - unat i) ss),
    at_rest cur ss (drop (unat w - unat i) ss), i + of_nat (length (take (unat w - unat i) ss)))"
  using assms
proof (induction ss arbitrary: m cur i)
  case Nil
  then show ?case by (subst copy_chars.simps) simp
next
  case (Cons s ss)
  show ?case
  proof (cases "i < w")
    case True
    let ?m = "m(p + i := m cur)"
    have i: "unat (i + 1) = unat i + 1" using True unat_plus_one_less [of i w] by simp
    have "changed_in p N m ?m" using Cons.prems(3) by (auto simp: changed_in_def in_block_def)
    moreover have ap: "apart (cur + 1) (Suc (length ss)) p N" using apart_suffix [OF Cons.prems(2), of ss] by (simp add: suffix_ConsI)
    ultimately have c: "cstr ?m (cur + 1) ss" using Cons.prems(1) cstr_changed by auto
    have w: "unat w - unat i = Suc (unat w - unat (i + 1))" using True i by (simp add: word_less_nat_alt)
    have "at_rest (cur + 1) ss (drop k ss) = at_rest cur (s # ss) (drop k ss)" for k by (rule at_rest_Cons) simp
    then show ?thesis
      using Cons.IH [OF c ap, of "i + 1"] Cons.prems True i
      by (subst copy_chars.simps) (auto simp: w algebra_simps simp del: fun_upd_apply)
  next
    case False
    then show ?thesis by (subst copy_chars.simps) (auto simp: word_less_nat_alt)
  qed
qed

text \<open>\<open>copy_word\<close> stops at a space, and at the width unless that is 0.\<close>

definition word_of :: "u32 \<Rightarrow> nat \<Rightarrow> u8 list \<Rightarrow> u8 list" where
  "word_of w i ss = (let ws = takeWhile (\<lambda>c. \<not> is_space c) ss in if w = 0 then ws else take (unat w - i) ws)"

lemma word_of_Nil [simp]: "word_of w i [] = []"
  by (simp add: word_of_def)

lemma word_of_Cons: "word_of w i (s # ss) =
    (if \<not> is_space s \<and> (w = 0 \<or> i < unat w) then s # word_of w (Suc i) ss else [])"
  by (auto simp: word_of_def Let_def take_Cons' Suc_diff_Suc)

lemma copy_word_eq:
  assumes "cstr m cur ss" "apart cur (Suc (length ss)) p N" "unat i + length ss < N" "N \<le> 4294967295"
  shows "copy_word m p cur i w = Some (write_bytes m (p + i) (word_of w (unat i) ss),
    at_rest cur ss (drop (length (word_of w (unat i) ss)) ss), i + of_nat (length (word_of w (unat i) ss)))"
  using assms
proof (induction ss arbitrary: m cur i)
  case Nil
  then show ?case by (subst copy_word.simps) simp
next
  case (Cons s ss)
  show ?case
  proof (cases "\<not> is_space s \<and> (w = 0 \<or> unat i < unat w)")
    case True
    let ?m = "m(p + i := m cur)"
    have i: "unat (i + 1) = Suc (unat i)" using Cons.prems(3,4) by (subst unat_add_small) auto
    have "changed_in p N m ?m" using Cons.prems(3) by (auto simp: changed_in_def in_block_def)
    moreover have ap: "apart (cur + 1) (Suc (length ss)) p N" using apart_suffix [OF Cons.prems(2), of ss] by (simp add: suffix_ConsI)
    ultimately have c: "cstr ?m (cur + 1) ss" using Cons.prems(1) cstr_changed by auto
    have "at_rest (cur + 1) ss (drop k ss) = at_rest cur (s # ss) (drop k ss)" for k by (rule at_rest_Cons) simp
    then show ?thesis
      using Cons.IH [OF c ap, of "i + 1"] Cons.prems True i
      by (subst copy_word.simps) (auto simp: word_of_Cons word_less_nat_alt algebra_simps simp del: fun_upd_apply)
  next
    case False
    then show ?thesis using Cons.prems by (subst copy_word.simps) (auto simp: word_of_Cons word_less_nat_alt)
  qed
qed

lemma parse_spec_cases:
  defines "w \<equiv> \<lambda>fs. case read_dec False fs of None \<Rightarrow> 0 | Some x \<Rightarrow> fst x"
    and "c \<equiv> \<lambda>fs. case (case read_dec False fs of None \<Rightarrow> fs | Some x \<Rightarrow> snd x) of [] \<Rightarrow> 0 | c # _ \<Rightarrow> c"
  shows "parse_spec fs ss =
     (if c fs = 100 then num_result ss (read_dec True ss)
      else if c fs = 117 then num_result ss (read_dec False ss)
      else if c fs = 120 \<or> c fs = 88 then num_result ss (read_hex False ss)
      else if c fs = 99 then (Some (Chars (take (unat (if w fs = 0 then 1 else w fs)) ss)), drop (unat (if w fs = 0 then 1 else w fs)) ss)
      else if c fs = 115 then (Some (Chars (word_of (w fs) 0 ss @ [0])), drop (length (word_of (w fs) 0 ss)) ss)
      else if c fs = 37 \<and> ss \<noteq> [] \<and> hd ss = 37 then (None, tl ss)
      else (None, ss))"
  by (auto simp: parse_spec_def c_def w_def word_of_def Let_def split: option.splits)

lemma word_of_length: "length (word_of w i ss) \<le> length ss"
  unfolding word_of_def Let_def using length_takeWhile_le [of "\<lambda>c. \<not> is_space c" ss] by auto

lemma store_num: "store_arg m (p # ps) (read_result s ss x) =
    Some (case fst (num_result ss x) of None \<Rightarrow> m | Some cv \<Rightarrow> store_conv p cv m, at_rest s ss (snd (num_result ss x)))"
  by (auto simp: store_arg_def read_result_def num_result_def va_arg_def store_conv_def split: option.splits)

lemma parse_arg_eq:
  assumes f: "cstr m f fs" and s: "cstr m s ss" and ap: "apart s (Suc (length ss)) p N" and N: "length ss + 4 \<le> N" "N \<le> 4294967295"
  shows "parse_arg m f s (p # ps) = Some (case fst (parse_spec fs ss) of None \<Rightarrow> m | Some cv \<Rightarrow> store_conv p cv m,
    at_rest s ss (snd (parse_spec fs ss)))"
proof -
  define w where "w = (case read_dec False fs of None \<Rightarrow> 0 | Some x \<Rightarrow> fst x)"
  define gs where "gs = (case read_dec False fs of None \<Rightarrow> fs | Some x \<Rightarrow> snd x)"
  have gs: "suffix gs fs" using read_dec_suffix [of False fs] by (auto simp: gs_def split: option.splits)
  have r: "read_result f fs (read_dec False fs) = (at_rest f fs gs, map_option fst (read_dec False fs))"
    by (auto simp: read_result_def gs_def split: option.splits)
  have wd: "(case map_option fst (read_dec False fs) of None \<Rightarrow> 0 | Some v \<Rightarrow> v) = w"
    by (simp add: w_def split: option.splits)
  define c where "c = (case gs of [] \<Rightarrow> 0 | c # _ \<Rightarrow> c)"
  have mc: "m (at_rest f fs gs) = c" using cstr_suffix [OF f gs] by (cases gs) (auto simp: c_def)
  have ps: "parse_spec fs ss =
     (if c = 100 then num_result ss (read_dec True ss)
      else if c = 117 then num_result ss (read_dec False ss)
      else if c = 120 \<or> c = 88 then num_result ss (read_hex False ss)
      else if c = 99 then (Some (Chars (take (unat (if w = 0 then 1 else w)) ss)), drop (unat (if w = 0 then 1 else w)) ss)
      else if c = 115 then (Some (Chars (word_of w 0 ss @ [0])), drop (length (word_of w 0 ss)) ss)
      else if c = 37 \<and> ss \<noteq> [] \<and> hd ss = 37 then (None, tl ss)
      else (None, ss))"
    unfolding c_def w_def gs_def by (rule parse_spec_cases)
  have tl: "ss \<noteq> [] \<Longrightarrow> at_rest s ss (tl ss) = s + 1" by (cases ss) auto
  have pct: "(m s = 37) = (ss \<noteq> [] \<and> hd ss = 37)" using s by (cases ss) auto
  have "length (word_of w 0 ss) \<le> 4294967296" using word_of_length [of w 0 ss] N by simp
  then have wb: "(write_bytes m p (word_of w 0 ss))(p + of_nat (length (word_of w 0 ss)) := 0) = write_bytes m p (word_of w 0 ss @ [0])"
    by (simp add: write_bytes_append)
  show ?thesis
    unfolding parse_arg_def readers_cstr(1) [OF f] r Option.bind.simps Let_def prod.case wd mc ps
    using copy_chars_eq [OF s ap, of 0 "if w = 0 then 1 else w"] copy_word_eq [OF s ap, of 0 w] N wb
    by (simp add: readers_cstr [OF s] store_num va_arg_def store_conv_def pct tl)
qed

lemma num_result_suffix:
  "(\<And>v r. x = Some (v, r) \<Longrightarrow> suffix r ss \<and> length r < length ss) \<Longrightarrow> suffix (snd (num_result ss x)) ss"
  by (auto simp: num_result_def split: option.splits)

lemma parse_spec_suffix: "suffix (snd (parse_spec fs ss)) ss"
proof -
  have "suffix (snd (num_result ss (read_dec sg ss))) ss" "suffix (snd (num_result ss (read_hex sg ss))) ss" for sg
    using num_result_suffix read_dec_suffix read_hex_suffix by blast+
  moreover have "suffix (tl ss) ss" by (cases ss) (auto simp: suffix_ConsI)
  ultimately show ?thesis unfolding parse_spec_cases by (simp add: suffix_drop)
qed

lemma store_conv_changed:
  assumes "fst (parse_spec fs ss) = Some cv" "length ss + 4 \<le> N" "N \<le> 4294967295"
  shows "changed_in p N m (store_conv p cv m)"
proof -
  have "length bs \<le> N" if "cv = Chars bs" for bs
  proof -
    have "Suc (length (word_of w 0 ss)) \<le> N" for w using word_of_length [of w 0 ss] assms(2) by linarith
    then show ?thesis
      using assms(1,2) that unfolding parse_spec_cases by (auto simp: num_result_def split: option.splits if_splits)
  qed
  then show ?thesis
    using assms(2,3) by (cases cv) (auto simp: store_conv_def st32_def simp del: write_bytes.simps intro!: changed_in_write)
qed

lemma digit_not_space: "dec_digit c \<Longrightarrow> \<not> is_space c"
  by (auto simp: dec_digit_def is_space_def)

lemma parse_spec_end: "dropWhile dec_digit fs = [] \<Longrightarrow> parse_spec fs ss = (None, ss)"
proof -
  assume d: "dropWhile dec_digit fs = []"
  then have all: "\<forall>c\<in>set fs. dec_digit c" by (simp add: dropWhile_eq_Nil_conv)
  then have "dropWhile is_space fs = fs" using digit_not_space by (cases fs) auto
  moreover have t: "takeWhile dec_digit fs = fs" using all by (simp add: takeWhile_eq_all_conv)
  ultimately have "read_dec False fs = (if fs = [] then None else Some (dec_value 0 fs, []))"
    using d by (simp add: read_dec_def Let_def t del: takeWhile_eq_all_conv)
  then show ?thesis by (simp add: parse_spec_def Let_def)
qed

lemma skip_digits_cstr: "cstr m a bs \<Longrightarrow> skip_digits m a = Some (at_rest a bs (dropWhile dec_digit bs))"
proof (induction bs arbitrary: a)
  case Nil
  then show ?case by (subst skip_digits.simps) simp
next
  case (Cons b bs)
  then show ?case by (subst skip_digits.simps) (auto simp: at_rest_dropWhile dec_digit_def [of b, symmetric] dec_digit_def [of "m _", symmetric])
qed

lemma sscanf_loop_eq:
  assumes "cstr m f fs" "cstr m s ss" "apart f (Suc (length fs)) p N" "apart s (Suc (length ss)) p N"
    "length ss + 4 \<le> N" "N \<le> 4294967295"
  shows "sscanf_loop m s f (p # ps) ret = Some (fold (store_conv p) (snd (scan_spec fs ss)) m, ret + int (fst (scan_spec fs ss)))"
  using assms
proof (induction fs ss arbitrary: m f s ret rule: scan_spec.induct)
  case (1 ss)
  then show ?case by (subst sscanf_loop.simps) simp
next
  case (2 c fs)
  then show ?case by (subst sscanf_loop.simps) simp
next
  case (3 c fs x ss)
  let ?ss = "x # ss"
  have c: "m f = c" "c \<noteq> 0" "cstr m (f + 1) fs" "m s = x" "x \<noteq> 0" using 3(4,5) by auto
  have f1: "apart (f + 1) (Suc (length fs)) p N" using apart_suffix [OF 3(6), of fs] by (simp add: suffix_ConsI)
  consider (conv) "c = 37" | (space) "c \<noteq> 37" "is_space c" | (char) "c \<noteq> 37" "\<not> is_space c" by blast
  then show ?case
  proof cases
    case conv
    obtain cv r where pr: "parse_spec fs ?ss = (cv, r)" by fastforce
    let ?m = "case cv of None \<Rightarrow> m | Some y \<Rightarrow> store_conv p y m"
    have parse: "parse_arg m (f + 1) s (p # ps) = Some (?m, at_rest s ?ss r)"
      using parse_arg_eq [OF c(3) 3(5,7-9)] by (simp add: pr)
    have suf: "suffix r ?ss" using parse_spec_suffix [of fs ?ss] by (simp add: pr)
    have ch: "changed_in p N m ?m"
      using store_conv_changed [of fs ?ss _ N p m] 3(8,9) by (cases cv) (auto simp: pr)
    show ?thesis
    proof (cases "r = ?ss")
      case True
      then show ?thesis
        using c conv parse by (subst sscanf_loop.simps) (auto simp: pr Let_def split: option.splits)
    next
      case False
      then have "length r < length ?ss" using suf suffix_length_le suffix_length_less strict_suffix_def by blast
      then have mv: "at_rest s ?ss r \<noteq> s" using at_rest_moved [OF 3(5)] by simp
      have "dropWhile dec_digit fs \<noteq> []" using parse_spec_end [of fs ?ss] pr False by auto
      then obtain d gs where d: "dropWhile dec_digit fs = d # gs" by (cases "dropWhile dec_digit fs") auto
      have "suffix (d # gs) fs" using suffix_dropWhile [of dec_digit fs] d by simp
      then have g: "suffix gs fs" "suffix gs (d # gs)" using suffix_ConsD by (auto simp: suffix_ConsI)
      have fs: "cstr ?m (f + 1) fs" using cstr_changed [OF c(3) ch f1] .
      have hd: "(?m (f + 1) = 37) = (hd fs = 37)" using fs d by (cases fs) auto
      have skip: "skip_digits ?m (f + 1) = Some (at_rest (f + 1) fs (d # gs))" using skip_digits_cstr [OF fs] d by simp
      have nxt: "at_rest (f + 1) fs (d # gs) + 1 = at_rest (f + 1) fs gs"
        using at_rest_trans [OF \<open>suffix (d # gs) fs\<close> g(2), of "f + 1"] by simp
      have s': "cstr ?m (at_rest s ?ss r) r" using cstr_suffix [OF cstr_changed [OF 3(5) ch 3(7)] suf] .
      have len: "length r + 4 \<le> N" using suffix_length_le [OF suf] 3(8) by simp
      note IH = 3(1) [OF conv refl pr [symmetric] refl False, unfolded d list.sel(3),
          OF cstr_suffix [OF fs g(1)] s' apart_suffix [OF f1 g(1)] apart_suffix [OF 3(7) suf] len 3(9)]
      have spec: "scan_spec (c # fs) ?ss = (let (n, xs) = scan_spec gs r
          in (n + (if hd fs = 37 then 0 else 1), (case cv of None \<Rightarrow> [] | Some x \<Rightarrow> [x]) @ xs))"
        using conv False by (simp add: pr d Let_def)
      have st: "fold (store_conv p) (case cv of None \<Rightarrow> [] | Some x \<Rightarrow> [x]) m = ?m" by (cases cv) simp_all
      have "sscanf_loop m s f (p # ps) ret =
          sscanf_loop ?m (at_rest s ?ss r) (at_rest (f + 1) fs gs) (p # ps) (if ?m (f + 1) \<noteq> 37 then ret + 1 else ret)"
        using c conv mv by (subst sscanf_loop.simps) (simp add: parse skip nxt)
      also have "\<dots> = Some (fold (store_conv p) (snd (scan_spec (c # fs) ?ss)) m, ret + int (fst (scan_spec (c # fs) ?ss)))"
        unfolding IH spec hd by (simp add: case_prod_beta st)
      finally show ?thesis .
    qed
  next
    case space
    have s: "suffix (dropWhile is_space ?ss) ?ss" by (rule suffix_dropWhile)
    have len: "length (dropWhile is_space ?ss) + 4 \<le> N" using suffix_length_le [OF s] 3(8) by simp
    note IH = 3(2) [OF space c(3) cstr_suffix [OF 3(5) s] f1 apart_suffix [OF 3(7) s] len 3(9)]
    show ?thesis using c space IH by (subst sscanf_loop.simps) (simp add: skip_spaces_cstr [OF 3(5)])
  next
    case char
    have s1: "apart (s + 1) (Suc (length ss)) p N" using apart_suffix [OF 3(7), of ss] by (simp add: suffix_ConsI)
    show ?thesis
    proof (cases "c = x")
      case True
      have len: "length ss + 4 \<le> N" using 3(8) by simp
      note IH = 3(3) [OF char True c(3) _ f1 s1 len 3(9)]
      show ?thesis using c True char IH 3(5) by (subst sscanf_loop.simps) simp
    next
      case False
      then show ?thesis using c char by (subst sscanf_loop.simps) simp
    qed
  qed
qed

section \<open>Printing, as a text\<close>

text \<open>As much of a text as fits: the memory and the pointer after it.\<close>

definition put_text :: "mem \<Rightarrow> u8 list \<Rightarrow> u32 \<Rightarrow> addr \<Rightarrow> mem \<times> addr" where
  "put_text m text len str = (write_bytes m str (take (unat len) text), str + of_nat (length (take (unat len) text)))"

lemma put_digits_text: "put_digits f ds (m, str, len) = put_text m (map f ds) len str"
proof (induction ds arbitrary: m str len)
  case (Cons d ds)
  show ?case
  proof (cases "len = 0")
    case False
    then have "unat len = Suc (unat (len - 1))" by (simp add: word_pos_dec word_gt_0)
    with False Cons show ?thesis by (simp add: put_text_def word_gt_0 add.assoc)
  qed (simp add: put_text_def)
qed (simp add: put_text_def)

lemma put_text_append: "put_text m (xs @ ys) len str =
    (case put_text m xs len str of (m', str') \<Rightarrow> put_text m' ys (len - of_nat (length (take (unat len) xs))) str')"
proof (cases "length xs \<le> unat len")
  case True
  moreover have "length xs < 4294967296" using True unsigned_less [of len, where 'a = nat] by simp
  ultimately have "unat (len - of_nat (length xs)) = unat len - length xs"
    by (subst unat_sub) (auto simp: word_le_nat_alt unat_of_nat32)
  with True show ?thesis by (simp add: put_text_def write_bytes_append add.assoc)
qed (simp add: put_text_def)

lemma put_pad_text: "put_pad m c padlen used len str =
    (case put_text m (replicate (unat padlen - unat used) c) len str of (m', str') \<Rightarrow>
       (m', str', len - of_nat (length (take (unat len) (replicate (unat padlen - unat used) c)))))"
proof (cases "padlen > used")
  case True
  then have k: "unat (padlen - used) = unat padlen - unat used" by (subst unat_sub) simp_all
  have r: "of_nat (min (unat padlen - unat used) (unat len)) = (if padlen - used < len then padlen - used else len)"
    unfolding k [symmetric] by (simp add: word_less_nat_alt min_def)
  show ?thesis
    using True by (simp add: put_pad_def Let_def put_text_def memset_eq k r word_less_nat_alt min_def)
next
  case False
  then have "unat padlen - unat used = 0" by (simp add: not_less word_le_nat_alt)
  with False show ?thesis by (simp add: put_pad_def put_text_def)
qed

lemma put_sign_text: "put_sign isneg (m, str, len) =
    (case put_text m (if isneg then [45] else []) len str of (m', str') \<Rightarrow>
       (m', str', len - of_nat (length (take (unat len) (if isneg then [45 :: u8] else [])))))"
proof (cases "len = 0")
  case False
  then obtain k where "unat len = Suc k" by (cases "unat len") (auto simp: unat_eq_zero)
  with False show ?thesis by (simp add: put_sign_def put_text_def word_gt_0)
qed (simp add: put_sign_def put_text_def)

text \<open>What the printers print, without its limit.\<close>

definition padded :: "u8 \<Rightarrow> u32 \<Rightarrow> bool \<Rightarrow> u8 list \<Rightarrow> u8 list" where
  "padded c padlen isneg ds = replicate (unat padlen - ((if isneg then 1 else 0) + length ds)) c @ (if isneg then [45] else []) @ ds"

lemma printed_unsigned:
  assumes "length ds < 4294967295"
  shows "put_digits f ds (put_pad m c padlen (of_nat (length ds)) len str) = put_text m (padded c padlen False (map f ds)) len str"
  using assms by (simp add: put_pad_text padded_def put_text_append put_digits_text unat_of_nat32 split: prod.splits)

lemma printed_signed:
  assumes "length ds < 4294967295"
  shows "put_digits f ds (put_sign isneg (put_pad m c padlen ((if isneg then 1 else 0) + of_nat (length ds)) len str)) =
    put_text m (padded c padlen isneg (map f ds)) len str"
proof -
  have "unat ((if isneg then 1 else 0) + of_nat (length ds) :: u32) = (if isneg then 1 else 0) + length ds"
    using assms unat_of_nat32 [of "Suc (length ds)"] by (simp add: unat_of_nat32)
  then show ?thesis
    by (simp only: put_pad_text padded_def put_text_append put_sign_text put_digits_text length_map split: prod.splits) (auto split: prod.splits)
qed

text \<open>The digits.\<close>

lemma uint_digits_pb: "base \<noteq> 0 \<Longrightarrow> base \<noteq> 1 \<Longrightarrow> uint_digits base v = (if v = 0 then Some [0] else pb_digits v base)"
proof (induction "unat v" arbitrary: v rule: less_induct)
  case less
  have "unat base \<noteq> 0" "unat base \<noteq> 1" using less.prems by (simp_all add: word_unat_eq_iff)
  then have b: "2 \<le> unat base" by linarith
  show ?case
  proof (cases "v div base = 0")
    case True
    then show ?thesis by (subst uint_digits.simps, subst pb_digits.simps) (simp add: pb_digits.simps [of 0])
  next
    case False
    then have "v \<noteq> 0" by auto
    then have "unat (v div base) < unat v" using b by (simp add: unat_div unat_gt_0 div_less_dividend)
    from less.hyps [OF this less.prems] False \<open>v \<noteq> 0\<close> show ?thesis
      by (subst uint_digits.simps, subst pb_digits.simps) simp
  qed
qed

lemma low_first_less: "(\<forall>d\<in>set ds. unat d < b) \<Longrightarrow> 0 < b \<Longrightarrow> low_first b ds < b ^ length ds"
proof (induction ds)
  case (Cons d ds)
  then have "unat d < b" "Suc (low_first b ds) \<le> b ^ length ds" by auto
  then have "unat d + b * low_first b ds < b * Suc (low_first b ds)" by simp
  also have "\<dots> \<le> b * b ^ length ds" using \<open>Suc (low_first b ds) \<le> b ^ length ds\<close> by (rule mult_le_mono2)
  finally show ?case by (simp add: low_first_def)
qed (simp add: low_first_def)

text \<open>A number has at most as many digits as the power of the base that exceeds it: \<open>buf\<close> is long enough.\<close>

lemma pb_digits_length:
  assumes "2 \<le> unat base"
  shows "unat v < unat base ^ k \<Longrightarrow> pb_digits v base = Some ds \<Longrightarrow> length ds \<le> k"
proof (induction k arbitrary: v ds)
  case 0
  then have "v = 0" by (simp add: unat_eq_zero)
  with 0 show ?case by (simp add: pb_digits.simps [of 0])
next
  case (Suc k)
  show ?case
  proof (cases "v = 0")
    case False
    then obtain es where es: "pb_digits (v div base) base = Some es" "ds = ucast (v mod base) # es"
      using Suc.prems(2) by (subst (asm) pb_digits.simps) (auto split: bind_splits)
    have "unat (v div base) < unat base ^ k"
      using Suc.prems(1) assms by (simp add: unat_div less_mult_imp_div_less mult.commute)
    from Suc.IH [OF this es(1)] show ?thesis by (simp add: es(2))
  qed (use Suc.prems(2) in \<open>simp add: pb_digits.simps [of 0]\<close>)
qed

lemma uint_digits_correct:
  assumes b: "base = 10 \<or> base = 16"
  shows "\<exists>ds. uint_digits base v = Some ds \<and> ds \<noteq> [] \<and> length ds \<le> 10 \<and> (\<forall>d\<in>set ds. unat d < unat base)
    \<and> low_first (unat base) ds = unat v"
proof (cases "v = 0")
  case True
  have "base \<noteq> 0" "base \<noteq> 1" "0 < unat base" using b by auto
  then show ?thesis using uint_digits_pb [of base v] True by (simp add: low_first_def)
next
  case False
  have base: "base \<noteq> 0" "base \<noteq> 1" "2 \<le> unat base" "unat base \<le> 128" "10 \<le> unat base" using b by auto
  have v: "unat v < 2 ^ 32" using unsigned_less [of v, where 'a = nat] by simp
  obtain ds where ds: "pb_digits v base = Some ds" "\<forall>d\<in>set ds. unat d < unat base" "low_first (unat base) ds = unat v" "ds \<noteq> []"
    using pb_digits_correct [OF base(3,4) v] False by blast
  have "(10 :: nat) ^ 10 \<le> unat base ^ 10" using base(5) by (rule power_mono) simp
  then have "unat v < unat base ^ 10" using v by simp
  from pb_digits_length [OF base(3) this ds(1)] ds show ?thesis
    using uint_digits_pb [OF base(1,2), of v] False by auto
qed

lemma sint_nonneg: "0 \<le> sint v \<Longrightarrow> sint v = int (unat v)" for v :: u32
proof -
  assume v: "0 \<le> sint v"
  have e: "sint v = (uint v + 2147483648) mod 4294967296 - 2147483648" using int_word_sint [of "uint v", where 'a = 32] by simp
  have "0 \<le> uint v" "uint v < 4294967296" using uint_bounded [of v] by simp_all
  have "uint v < 2147483648"
  proof (rule ccontr)
    assume "\<not> uint v < 2147483648"
    then have "(uint v - 2147483648) mod 4294967296 = uint v - 2147483648"
      using \<open>uint v < 4294967296\<close> by (intro mod_pos_pos_trivial) simp_all
    then have "(uint v + 2147483648) mod 4294967296 = uint v - 2147483648"
      using mod_add_self2 [of "uint v - 2147483648" "4294967296 :: int"] by (simp add: add.commute)
    then have "sint v = uint v - 4294967296" using e by linarith
    then show False using v \<open>uint v < 4294967296\<close> by simp
  qed
  then show ?thesis using e \<open>0 \<le> uint v\<close> by simp
qed

lemma int_digits_uint:
  assumes b: "base = 10 \<or> base = 16" and v: "0 \<le> sint v"
  shows "int_digits base v = uint_digits (word_of_int base) v"
  using v
proof (induction "unat v" arbitrary: v rule: less_induct)
  case less
  have bb: "uint (word_of_int base :: u32) = base" "1 < base" "unat (word_of_int base :: u32) = nat base" using b by auto
  have s: "sint v = uint v" using sint_nonneg [OF less.prems] by simp
  have d: "word_of_int (sint v smod base) = (ucast (v mod word_of_int base) :: u8)"
    unfolding ucast_eq using bb(1,2) uint_ge_0 [of v] by (simp only: s uint_mod) (auto simp: smod_int_alt_def sgn_if less_le)
  have q: "word_of_int (sint v sdiv base) = v div word_of_int base"
    using bb(1,2) by (simp add: s signed_divide_int_def sgn_if word_div_def)
  show ?case
  proof (cases "v div word_of_int base = 0")
    case True
    then show ?thesis by (subst int_digits.simps, subst uint_digits.simps) (simp add: d q Let_def)
  next
    case False
    then have "v \<noteq> 0" by auto
    have n: "unat (v div word_of_int base) = unat v div nat base" by (simp add: unat_div bb(3))
    then have lt: "unat (v div word_of_int base) < unat v"
      using \<open>v \<noteq> 0\<close> bb(2) by (simp add: div_less_dividend unat_gt_0)
    have "unat (v div word_of_int base) < 2147483648"
    proof -
      have "sint v < 2147483648" using sint_lt [of v] by simp
      then show ?thesis using lt sint_nonneg [OF less.prems] by linarith
    qed
    then have "0 \<le> sint (v div word_of_int base)" using sint_of_nat32 [of "unat (v div word_of_int base)"] by simp
    from less.hyps [OF lt this] False show ?thesis
      by (subst int_digits.simps, subst uint_digits.simps) (simp add: d q Let_def)
  qed
qed

text \<open>The printers print the text of a number.\<close>

definition number_text :: "nat \<Rightarrow> (u8 \<Rightarrow> u8) \<Rightarrow> nat \<Rightarrow> u8 list \<Rightarrow> bool" where
  "number_text b f n text \<longleftrightarrow>
     (\<exists>ds. text = map f (rev ds) \<and> ds \<noteq> [] \<and> length ds \<le> 10 \<and> (\<forall>d\<in>set ds. unat d < b) \<and> low_first b ds = n)"

lemma uint_digits_text:
  assumes "base = 10 \<or> base = 16"
  shows "\<exists>buf. uint_digits base v = Some buf \<and> length (rev buf) < 4294967295 \<and> number_text (unat base) f (unat v) (map f (rev buf))"
  using uint_digits_correct [OF assms, of v] unfolding number_text_def by fastforce

lemma uint_to_dec_text: "\<exists>t. number_text 10 dec_char (unat v) t \<and> uint_to_dec m v c padlen len str = Some (put_text m (padded c padlen False t) len str)"
  using uint_digits_text [of 10 v dec_char] printed_unsigned by (fastforce simp: uint_to_dec_def)

lemma uint_to_hex_text: "\<exists>t. number_text 16 (hex_char up) (unat v) t \<and> uint_to_hex m v up c padlen len str = Some (put_text m (padded c padlen False t) len str)"
  using uint_digits_text [of 16 v "hex_char up"] printed_unsigned by (fastforce simp: uint_to_hex_def)

definition magnitude :: "u32 \<Rightarrow> u32" where
  "magnitude v = (if sint v < 0 then - v else v)"

lemma magnitude_nonneg: "v \<noteq> 0x80000000 \<Longrightarrow> 0 \<le> sint (magnitude v)"
proof -
  assume v: "v \<noteq> 0x80000000"
  show ?thesis
  proof (cases "sint v < 0")
    case True
    have "sint v \<noteq> - 2147483648"
    proof
      assume "sint v = - 2147483648"
      then have "(word_of_int (sint v) :: u32) = word_of_int (- 2147483648)" by simp
      then show False using v by simp
    qed
    moreover have "- 2147483648 \<le> sint v" using sint_ge [of v] by simp
    ultimately have "(- sint v + 2147483648) mod 4294967296 = - sint v + 2147483648"
      using True by (intro mod_pos_pos_trivial) simp_all
    then have "sint (word_of_int (- sint v) :: u32) = - sint v" unfolding int_word_sint by simp
    then have "sint (- v) = - sint v" by simp
    then show ?thesis using True unfolding magnitude_def by (simp only: if_True)
  qed (simp add: magnitude_def)
qed

lemma int_digits_text:
  assumes "base = 10 \<or> base = 16" "v \<noteq> 0x80000000"
  shows "\<exists>buf. int_digits base (magnitude v) = Some buf \<and> length (rev buf) < 4294967295
    \<and> number_text (nat base) f (unat (magnitude v)) (map f (rev buf))"
proof -
  have b: "(word_of_int base :: u32) = 10 \<or> (word_of_int base :: u32) = 16" "unat (word_of_int base :: u32) = nat base" using assms(1) by auto
  from uint_digits_text [OF b(1), of "magnitude v" f] show ?thesis
    unfolding int_digits_uint [OF assms(1) magnitude_nonneg [OF assms(2)]] b(2) .
qed

lemma int_to_dec_text:
  assumes "v \<noteq> 0x80000000"
  shows "\<exists>t. number_text 10 dec_char (unat (magnitude v)) t \<and> int_to_dec m v c padlen len str = Some (put_text m (padded c padlen (sint v < 0) t) len str)"
proof -
  obtain buf where buf: "int_digits 10 (magnitude v) = Some buf" "length (rev buf) < 4294967295"
    "number_text 10 dec_char (unat (magnitude v)) (map dec_char (rev buf))"
    using int_digits_text [of 10 v dec_char, OF _ assms] by auto
  show ?thesis
    using buf(3) unfolding int_to_dec_def Let_def magnitude_def [symmetric] buf(1) Option.bind.simps
    by (intro exI conjI, assumption) (simp only: printed_signed [OF buf(2), simplified length_rev])
qed

lemma int_to_hex_text:
  assumes "v \<noteq> 0x80000000"
  shows "\<exists>t. number_text 16 (hex_char up) (unat (magnitude v)) t \<and> int_to_hex m v up c padlen len str = Some (put_text m (padded c padlen (sint v < 0) t) len str)"
proof -
  obtain buf where buf: "int_digits 16 (magnitude v) = Some buf" "length (rev buf) < 4294967295"
    "number_text 16 (hex_char up) (unat (magnitude v)) (map (hex_char up) (rev buf))"
    using int_digits_text [of 16 v "hex_char up", OF _ assms] by auto
  show ?thesis
    using buf(3) unfolding int_to_hex_def Let_def magnitude_def [symmetric] buf(1) Option.bind.simps
    by (intro exI conjI, assumption) (simp only: printed_signed [OF buf(2), simplified length_rev])
qed

section \<open>What was printed is read back\<close>

lemma small_bytes: "unat (d :: u8) < 16 \<Longrightarrow> d \<in> {0, 1, 2, 3, 4, 5, 6, 7, 8, 9, 10, 11, 12, 13, 14, 15}"
proof -
  assume "unat d < 16"
  then have "unat d = 0 \<or> unat d = 1 \<or> unat d = 2 \<or> unat d = 3 \<or> unat d = 4 \<or> unat d = 5 \<or> unat d = 6 \<or> unat d = 7 \<or> unat d = 8 \<or> unat d = 9 \<or> unat d = 10 \<or> unat d = 11 \<or> unat d = 12 \<or> unat d = 13 \<or> unat d = 14 \<or> unat d = 15" by presburger
  then show ?thesis by (elim disjE) (simp_all add: word_unat_eq_iff)
qed

lemma dec_char_read:
  assumes "unat d < 10"
  shows "dec_digit (dec_char d)" "v * 10 + word_of_int (schar (dec_char d) - 48) = v * 10 + of_nat (unat d)"
    "dec_char d \<noteq> 0"
  using small_bytes [of d] assms by (auto simp: dec_char_def dec_digit_def)

lemma hex_char_read:
  assumes "unat d < 16"
  shows "hex_step v (hex_char up d) = Some (v * 16 + of_nat (unat d))" "hex_char up d \<noteq> 0" "hex_char up d \<noteq> 120" "\<not> is_space (hex_char up d)"
  using small_bytes [OF assms] by (elim insertE emptyE; simp add: hex_char_def hex_step_def is_space_def)+

lemma dec_value_digits:
  "\<forall>d\<in>set ds. unat d < 10 \<Longrightarrow> dec_value 0 (map dec_char (rev ds)) = of_nat (low_first 10 ds)"
proof (induction ds)
  case (Cons d ds)
  then show ?case
    by (simp add: dec_value_def dec_char_read(2) [simplified] low_first_def mult.commute)
qed (simp add: dec_value_def low_first_def)

lemma hex_value_digits:
  "\<forall>d\<in>set ds. unat d < 16 \<Longrightarrow> hex_value 0 (map (hex_char up) (rev ds)) = of_nat (low_first 16 ds)"
proof (induction ds)
  case (Cons d ds)
  then show ?case by (simp add: hex_value_def hex_char_read(1) low_first_def mult.commute)
qed (simp add: hex_value_def low_first_def)

lemma dec_value_zeros: "dec_value 0 (replicate k 48 @ xs) = dec_value 0 xs"
  by (induction k) (simp_all add: dec_value_def)

lemma hex_value_zeros: "hex_value 0 (replicate k 48 @ xs) = hex_value 0 xs"
  by (induction k) (simp_all add: hex_value_def hex_step_def)

lemma dropWhile_spaces: "(xs \<noteq> [] \<Longrightarrow> \<not> is_space (hd xs)) \<Longrightarrow> dropWhile is_space (replicate k 32 @ xs) = xs"
  by (induction k) (cases xs, auto simp: is_space_def)

text \<open>Digits after blanks or zeros, or after blanks and a sign.\<close>

lemma read_dec_padded:
  assumes t: "number_text 10 dec_char n t" and c: "c = 32 \<or> c = 48"
  shows "read_dec False (padded c w False t) = Some (of_nat n, []) \<and> 0 \<notin> set (padded c w False t)"
proof -
  obtain ds where ds: "t = map dec_char (rev ds)" "ds \<noteq> []" "\<forall>d\<in>set ds. unat d < 10" "low_first 10 ds = n"
    using t by (auto simp: number_text_def)
  have dig: "\<forall>x\<in>set t. dec_digit x \<and> x \<noteq> 0" using ds(1,3) dec_char_read by auto
  define k where "k = unat w - length t"
  have z: "dec_digit 48" by (simp add: dec_digit_def)
  have tk: "takeWhile dec_digit (replicate j 48 @ t) = replicate j 48 @ t" "dropWhile dec_digit (replicate j 48 @ t) = []" for j
    using dig z by (auto simp: takeWhile_eq_all_conv dropWhile_eq_Nil_conv)
  have v: "dec_value 0 t = of_nat n" using dec_value_digits [OF ds(3)] ds(1,4) by simp
  have "t \<noteq> []" using ds(1,2) by simp
  from c show ?thesis
  proof
    assume "c = 32"
    moreover have "dropWhile is_space (replicate k 32 @ t) = t"
      using dig digit_not_space by (intro dropWhile_spaces) (auto simp: hd_in_set)
    ultimately show ?thesis
      using tk [of 0] v \<open>t \<noteq> []\<close> dig by (auto simp: read_dec_def padded_def Let_def k_def simp del: takeWhile_eq_all_conv dropWhile_eq_Nil_conv)
  next
    assume "c = 48"
    moreover have "dropWhile is_space (replicate k 48 @ t) = replicate k 48 @ t"
      using dig digit_not_space z by (cases k; cases t) auto
    ultimately show ?thesis
      using tk [of k] v \<open>t \<noteq> []\<close> dig dec_value_zeros [of k t]
      by (auto simp: read_dec_def padded_def Let_def k_def simp del: takeWhile_eq_all_conv dropWhile_eq_Nil_conv)
  qed
qed

lemma read_signed_padded:
  assumes t: "number_text 10 dec_char n t"
  shows "read_dec True (padded 32 w neg t) = Some (if neg then - of_nat n else of_nat n, []) \<and> 0 \<notin> set (padded 32 w neg t)"
proof -
  obtain ds where ds: "t = map dec_char (rev ds)" "ds \<noteq> []" "\<forall>d\<in>set ds. unat d < 10" "low_first 10 ds = n"
    using t by (auto simp: number_text_def)
  have dig: "\<forall>x\<in>set t. dec_digit x \<and> x \<noteq> 0" using ds(1,3) dec_char_read by auto
  have tk: "takeWhile dec_digit t = t" "dropWhile dec_digit t = []" using dig by (auto simp: takeWhile_eq_all_conv dropWhile_eq_Nil_conv)
  have v: "dec_value 0 t = of_nat n" using dec_value_digits [OF ds(3)] ds(1,4) by simp
  have ne: "t \<noteq> []" using ds(1,2) by simp
  then have h: "dec_digit (hd t)" using dig by simp
  have sp: "dropWhile is_space (replicate k 32 @ (if neg then [45] else []) @ t) = (if neg then [45] else []) @ t" for k
    using h digit_not_space ne by (intro dropWhile_spaces) (auto simp: is_space_def)
  have "hd t \<noteq> 43" "hd t \<noteq> 45" using h by (auto simp: dec_digit_def)
  then have sg: "take_sign ((if neg then [45] else []) @ t) = (neg, t)" using ne by (cases t) (auto simp: take_sign_def)
  have "padded 32 w neg t = replicate (unat w - ((if neg then 1 else 0) + length t)) 32 @ (if neg then [45] else []) @ t"
    by (simp add: padded_def)
  moreover have "read_dec True (replicate k 32 @ (if neg then [45] else []) @ t) = Some (if neg then - of_nat n else of_nat n, [])" for k
    unfolding read_dec_def sp Let_def if_True sg prod.case tk v using ne by simp
  ultimately show ?thesis using dig by auto
qed

lemma read_hex_padded:
  assumes t: "number_text 16 (hex_char up) n t" and c: "c = 32 \<or> c = 48"
  shows "read_hex False (padded c w False t) = Some (of_nat n, []) \<and> 0 \<notin> set (padded c w False t)"
proof -
  obtain ds where ds: "t = map (hex_char up) (rev ds)" "ds \<noteq> []" "\<forall>d\<in>set ds. unat d < 16" "low_first 16 ds = n"
    using t by (auto simp: number_text_def)
  have dig: "\<forall>x\<in>set t. hex_digit_char x \<and> x \<noteq> 0 \<and> x \<noteq> 120 \<and> \<not> is_space x"
    using ds(1,3) hex_char_read by (auto simp: hex_digit_char_def)
  define k where "k = (if c = 48 then unat w - length t else 0)"
  define xs where "xs = replicate k 48 @ t"
  have z: "hex_digit_char 48" by (simp add: hex_digit_char_def hex_step_def)
  have z': "\<not> is_space 48" by (simp add: is_space_def)
  have ne: "t \<noteq> []" using ds(1,2) by simp
  have d2: "\<forall>x\<in>set xs. hex_digit_char x \<and> x \<noteq> 120 \<and> \<not> is_space x" using dig z z' by (auto simp: xs_def)
  have tk: "takeWhile hex_digit_char xs = xs" "dropWhile hex_digit_char xs = []"
    using d2 by (auto simp: takeWhile_eq_all_conv dropWhile_eq_Nil_conv)
  have v: "hex_value 0 xs = of_nat n" using hex_value_digits [OF ds(3), of up] ds(1,4) by (simp add: xs_def hex_value_zeros)
  have x: "take_0x xs = xs" using d2 by (cases xs rule: remdups_adj.cases) (auto simp: take_0x_def)
  have xne: "xs \<noteq> []" using ne by (simp add: xs_def)
  have sp: "dropWhile is_space (padded c w False t) = xs"
  proof (cases "c = 48")
    case True
    then have "padded c w False t = xs" by (simp add: padded_def xs_def k_def)
    then show ?thesis using d2 xne by (cases xs) auto
  next
    case False
    then have "padded c w False t = replicate (unat w - length t) 32 @ xs" using c by (simp add: padded_def xs_def k_def)
    then show ?thesis using d2 xne by (simp only:) (rule dropWhile_spaces, simp)
  qed
  have "read_hex False (padded c w False t) = Some (of_nat n, [])"
    unfolding read_hex_def sp Let_def prod.case if_False x tk v using xne by simp
  then show ?thesis using dig c by (auto simp: padded_def)
qed

lemma padded_length: "number_text b f n t \<Longrightarrow> length (padded c w neg t) \<le> max (unat w) 11"
  by (auto simp: number_text_def padded_def)

lemma put_text_cstr:
  assumes "put_text m tx len str = (m', q)" "length tx \<le> unat len" "0 \<notin> set tx"
  shows "cstr (m'(q := 0)) str tx \<and> q = at_rest str tx []"
proof -
  have l: "length tx < 4294967296" using assms(2) unsigned_less [of len, where 'a = nat] by simp
  have m: "m' = write_bytes m str tx" and q: "q = str + of_nat (length tx)" using assms(1,2) by (auto simp: put_text_def)
  have "m'(q := 0) = write_bytes m str (tx @ [0])" by (simp add: m q write_bytes_append)
  then show ?thesis using assms(3) l cstr_write [of tx m str] by (simp add: at_rest_def q)
qed

section \<open>Bounds\<close>

text \<open>\<open>within\<close>: only the \<open>len\<close> bytes from \<open>str\<close> on have changed, and the pointer is not behind them.\<close>

definition within :: "mem \<Rightarrow> u32 \<Rightarrow> addr \<Rightarrow> mem \<times> addr \<Rightarrow> bool" where
  "within m len str r \<longleftrightarrow> changed_in str (unat len) m (fst r) \<and> (\<exists>k\<le>unat len. snd r = str + of_nat k)"

lemma put_text_within: "within m len str (put_text m t len str)"
proof -
  have "unat len \<le> 4294967296" using unsigned_less [of len, where 'a = nat] by simp
  then have "changed_in str (unat len) m (write_bytes m str (take (unat len) t))" by (intro changed_in_write) simp_all
  then show ?thesis unfolding within_def put_text_def by (auto intro!: exI [of _ "min (length t) (unat len)"])
qed

lemma within_same: "within m len str (m, str)"
  by (auto simp: within_def intro: exI [of _ 0])

lemma copy_up_changed: "changed_in d (unat n) m (copy_up m d s n)"
proof (induction m d s n rule: copy_up.induct)
  case (1 m d s n)
  show ?case
  proof (cases "0 < n")
    case True
    then have n: "unat n = Suc (unat (n - 1))" by (rule word_pos_dec)
    have "changed_in d (unat n) m (m(d := m s))" using n by (auto simp: changed_in_def in_block_def)
    moreover have "changed_in d (unat n) (m(d := m s)) (copy_up (m(d := m s)) (d + 1) (s + 1) (n - 1))"
      using changed_in_shift [of d 1] 1 [OF True] n by (simp del: fun_upd_apply)
    ultimately show ?thesis using True changed_in_trans by (subst copy_up.simps) (auto simp del: fun_upd_apply)
  qed (subst copy_up.simps, simp)
qed

text \<open>What is written behind blanks stays within the length that the blanks leave.\<close>

lemma put_blanks_within:
  assumes "put_blanks m padlen len str = (m1, str1, len1)"
  shows "changed_in str (unat len) m m1 \<and> (\<exists>k. str1 = str + of_nat k \<and> k + unat len1 = unat len)"
proof -
  define k where "k = min (unat padlen) (unat len)"
  have b: "unat len < 4294967296" using unsigned_less [of len, where 'a = nat] by simp
  have u: "unat (of_nat k :: u32) = k" using b by (intro unat_of_nat32) (simp add: k_def)
  have w: "(if padlen < len then padlen else len) = of_nat k" by (simp add: k_def min_def word_less_nat_alt)
  then have e: "m1 = write_bytes m str (replicate k 32)" "str1 = str + of_nat k" "len1 = len - of_nat k"
    using assms by (auto simp: put_blanks_def memset_eq u Let_def)
  have "unat len1 = unat len - k" unfolding e(3) using u by (subst unat_sub) (simp_all add: word_le_nat_alt k_def)
  moreover have "changed_in str (unat len) m m1" unfolding e(1) using b by (intro changed_in_write) (simp_all add: k_def)
  moreover have "k \<le> unat len" by (simp add: k_def)
  ultimately show ?thesis using e(2) by auto
qed

lemma within_behind:
  assumes "changed_in str (unat len) m m1" "str1 = str + of_nat k" "k + unat len1 = unat len" "within m1 len1 str1 r"
  shows "within m len str r"
proof -
  obtain j where j: "j \<le> unat len1" "snd r = str1 + of_nat j" "changed_in str1 (unat len1) m1 (fst r)"
    using assms(4) by (auto simp: within_def)
  have "changed_in str (unat len) m1 (fst r)" using changed_in_shift [OF j(3) [unfolded assms(2)]] assms(3) by simp
  then have "changed_in str (unat len) m (fst r)" using assms(1) changed_in_trans by blast
  moreover have "snd r = str + of_nat (k + j)" using j(2) assms(2) by (simp add: add.assoc)
  moreover have "k + j \<le> unat len" using j(1) assms(3) by simp
  ultimately show ?thesis unfolding within_def by blast
qed

text \<open>The least number has digits below 0.\<close>

lemma int_digits_least: "int_digits 10 0x80000000 = Some [248, 252, 250, 253, 248, 252, 249, 252, 255, 254]"
  by (simp add: int_digits.simps Let_def)

lemma int_to_dec_within: "\<exists>r. int_to_dec m v c padlen len str = Some r \<and> within m len str r"
proof (cases "v = 0x80000000")
  case True
  let ?ds = "[248, 252, 250, 253, 248, 252, 249, 252, 255, 254] :: u8 list"
  have "int_to_dec m v c padlen len str = Some (put_digits dec_char (rev ?ds)
      (put_sign True (put_pad m c padlen ((if True then 1 else 0) + of_nat (length (rev ?ds))) len str)))"
  proof -
    have "sint (0x80000000 :: u32) < 0" "- (0x80000000 :: u32) = 0x80000000" by simp_all
    then show ?thesis by (simp only: True int_to_dec_def Let_def if_True int_digits_least Option.bind.simps length_rev)
  qed
  also have "\<dots> = Some (put_text m (padded c padlen True (map dec_char (rev ?ds))) len str)"
    by (subst printed_signed) simp_all
  finally show ?thesis using put_text_within by metis
next
  case False
  then show ?thesis using int_to_dec_text put_text_within by metis
qed

section \<open>Properties\<close>

text \<open>C12: a number that is printed is read back, by the readers of \<open>%u\<close>, \<open>%x\<close> and \<open>%d\<close>, up to its end, if the
  buffer has room for it: unsigned numbers after blanks or zeros, signed ones after blanks; all but the
  least number, whose negation overflows.\<close>

theorem printed_number_is_read:
  assumes "unat w \<le> unat len" and "11 \<le> unat len" and "c = 32 \<or> c = 48"
  shows "(\<exists>m' q. uint_to_dec m v c w len str = Some (m', q) \<and> dec_to_uint (m'(q := 0)) str = Some (q, Some v))
    \<and> (\<exists>m' q. uint_to_hex m v up c w len str = Some (m', q) \<and> hex_to_uint (m'(q := 0)) str = Some (q, Some v))
    \<and> (v \<noteq> 0x80000000 \<longrightarrow> (\<exists>m' q. int_to_dec m v 32 w len str = Some (m', q) \<and> dec_to_int (m'(q := 0)) str = Some (q, Some v)))"
proof (intro conjI impI)
  have len: "length (padded c' w neg t) \<le> unat len" if "number_text b f n t" for c' neg t b f n
    using padded_length [OF that, of c' w neg] assms(1,2) by linarith
  obtain t where t: "number_text 10 dec_char (unat v) t" "uint_to_dec m v c w len str = Some (put_text m (padded c w False t) len str)"
    using uint_to_dec_text by blast
  obtain m1 q1 where p: "put_text m (padded c w False t) len str = (m1, q1)" by fastforce
  note r = read_dec_padded [OF t(1) assms(3), of w]
  show "\<exists>m' q. uint_to_dec m v c w len str = Some (m', q) \<and> dec_to_uint (m'(q := 0)) str = Some (q, Some v)"
    using put_text_cstr [OF p len [OF t(1)]] r t(2) p readers_cstr(1) by (auto simp: read_result_def)
  obtain u where u: "number_text 16 (hex_char up) (unat v) u" "uint_to_hex m v up c w len str = Some (put_text m (padded c w False u) len str)"
    using uint_to_hex_text by blast
  obtain m2 q2 where p: "put_text m (padded c w False u) len str = (m2, q2)" by fastforce
  note r = read_hex_padded [OF u(1) assms(3), of w]
  show "\<exists>m' q. uint_to_hex m v up c w len str = Some (m', q) \<and> hex_to_uint (m'(q := 0)) str = Some (q, Some v)"
    using put_text_cstr [OF p len [OF u(1)]] r u(2) p readers_cstr(3) by (auto simp: read_result_def)
  assume "v \<noteq> 0x80000000"
  then obtain x where x: "number_text 10 dec_char (unat (magnitude v)) x"
    "int_to_dec m v 32 w len str = Some (put_text m (padded 32 w (sint v < 0) x) len str)"
    using int_to_dec_text by blast
  obtain m3 q3 where p: "put_text m (padded 32 w (sint v < 0) x) len str = (m3, q3)" by fastforce
  have "(if sint v < 0 then - of_nat (unat (magnitude v)) else of_nat (unat (magnitude v))) = v" by (simp add: magnitude_def)
  with read_signed_padded [OF x(1), of w "sint v < 0"]
  have r: "read_dec True (padded 32 w (sint v < 0) x) = Some (v, []) \<and> 0 \<notin> set (padded 32 w (sint v < 0) x)" by simp
  show "\<exists>m' q. int_to_dec m v 32 w len str = Some (m', q) \<and> dec_to_int (m'(q := 0)) str = Some (q, Some v)"
    using put_text_cstr [OF p len [OF x(1)]] r x(2) p readers_cstr(2) by (auto simp: read_result_def)
qed

theorem printed_number_is_read_witness:
  "\<exists>m' q. int_to_dec (\<lambda>_. 0) (- 123) 32 6 20 0x100 = Some (m', q) \<and> dec_to_int (m'(q := 0)) 0x100 = Some (q, Some (- 123))"
  using printed_number_is_read [of 6 20 32 "\<lambda>_. 0" "- 123" "0x100"] by simp

text \<open>C11: \<open>sscanf\<close> returns for every two strings and does what a recursion over them says, if what it stores to is
  apart from both: the number of conversions that the recursion counts, and all its values stored one
  after the other through the first pointer.\<close>

theorem sscanf_reference:
  assumes "cstr m f fs" and "cstr m s ss" and "apart f (Suc (length fs)) p N" and "apart s (Suc (length ss)) p N"
    and "length ss + 4 \<le> N" and "N \<le> 4294967295"
  shows "sscanf m s f (p # ps) = Some (fold (store_conv p) (snd (scan_spec fs ss)) m, int (fst (scan_spec fs ss)))"
  unfolding sscanf_def using sscanf_loop_eq [OF assms, of ps 0] by simp

definition demo_text :: "string \<Rightarrow> string \<Rightarrow> mem" where
  "demo_text f s = write_bytes (write_bytes (\<lambda>_. 0) 0x100 (ascii f)) 0x200 (ascii s)"

lemma demo_strings:
  "cstr (demo_text ''%d:%3c-%s'' ''-7:abc-xy z'') 0x100 (ascii ''%d:%3c-%s'')"
  "cstr (demo_text ''%d:%3c-%s'' ''-7:abc-xy z'') 0x200 (ascii ''-7:abc-xy z'')"
  by (simp_all add: demo_text_def ascii_def)

theorem sscanf_reference_witness:
  "\<exists>m'. sscanf (demo_text ''%d:%3c-%s'' ''-7:abc-xy z'') 0x200 0x100 [0x300, 0x400] = Some (m', 3)
    \<and> read_bytes m' 0x300 3 = [120, 121, 0] \<and> m' 0x400 = 0"
proof -
  let ?m = "demo_text ''%d:%3c-%s'' ''-7:abc-xy z''"
  have "scan_spec (ascii ''%d:%3c-%s'') (ascii ''-7:abc-xy z'') = (3, [Num (- 7), Chars [97, 98, 99], Chars [120, 121, 0]])"
    by (simp add: ascii_def parse_spec_def num_result_def read_dec_def take_sign_def is_space_def dec_digit_def dec_value_def)
  moreover have "apart 0x100 (Suc (length (ascii ''%d:%3c-%s''))) 0x300 20" "apart 0x200 (Suc (length (ascii ''-7:abc-xy z''))) 0x300 20"
    by (rule apart_before, simp_all add: ascii_def)+
  ultimately have "sscanf ?m 0x200 0x100 [0x300, 0x400] = Some (fold (store_conv 0x300) [Num (- 7), Chars [97, 98, 99], Chars [120, 121, 0]] ?m, 3)"
    using sscanf_reference [OF demo_strings, of "0x300" 20 "[0x400]"] by (simp add: ascii_def)
  then show ?thesis by (simp add: store_conv_def st32_def demo_text_def ascii_def)
qed

text \<open>The list of arguments is not moved on between conversions: of two numbers both are stored through the
  first pointer, the second over the first, and nothing is stored through the second, although 2 is
  returned.\<close>

theorem sscanf_overwrites:
  assumes "cstr m f (ascii ''%d %d'')" and "cstr m s (as @ 32 # bs)" and "as \<noteq> []" and "bs \<noteq> []"
    and "\<forall>c\<in>set (as @ bs). dec_digit c" and "apart f 6 p (length as + length bs + 5)"
    and "apart s (length as + length bs + 2) p (length as + length bs + 5)" and "length as + length bs + 5 < 4294967296"
  shows "\<exists>m'. sscanf m s f [p, q] = Some (m', 2) \<and> ld32 m' p = dec_value 0 bs \<and> (\<forall>x. \<not> in_block x p 4 \<longrightarrow> m' x = m x)"
proof -
  have no: "c \<noteq> 43 \<and> c \<noteq> 45 \<and> \<not> is_space c" if "dec_digit c" for c
    using that digit_not_space by (auto simp: dec_digit_def)
  have z: "\<not> dec_digit 32" "is_space 32" by (simp_all add: dec_digit_def is_space_def)
  obtain a as' b bs' where ab: "as = a # as'" "bs = b # bs'" using assms(3,4) by (cases as; cases bs) auto
  have da: "dec_digit a" "\<forall>c\<in>set as'. dec_digit c" "dec_digit b" "\<forall>c\<in>set bs'. dec_digit c" using assms(5) ab by auto
  have t: "takeWhile dec_digit bs' = bs'" "dropWhile dec_digit bs' = []" "takeWhile dec_digit (as' @ 32 # bs) = as'"
    "dropWhile dec_digit (as' @ 32 # bs) = 32 # bs"
    using da z by (auto simp: takeWhile_append dropWhile_append)
  have r1: "read_dec True (as @ 32 # bs) = Some (dec_value 0 as, 32 # bs)"
    using da(1) no [OF da(1)] z t by (simp add: read_dec_def take_sign_def ab Let_def takeWhile_append1 dropWhile_append1 del: takeWhile_eq_all_conv)
  have r2: "read_dec True bs = Some (dec_value 0 bs, [])"
    using da(3) no [OF da(3)] t by (simp add: read_dec_def take_sign_def ab Let_def del: takeWhile_eq_all_conv)
  have sp: "dropWhile is_space (32 # bs) = bs" using no [OF da(3)] z by (simp add: ab)
  have w: "read_dec False [100, 32, 37, 100] = None" "read_dec False [100] = None"
    by (simp_all add: read_dec_def is_space_def dec_digit_def)
  have "parse_spec [100, 32, 37, 100] (as @ 32 # bs) = (Some (Num (dec_value 0 as)), 32 # bs)" "parse_spec [100] bs = (Some (Num (dec_value 0 bs)), [])"
    unfolding parse_spec_def w by (simp_all add: r1 r2 num_result_def)
  then have "scan_spec (ascii ''%d %d'') (as @ 32 # bs) = (2, [Num (dec_value 0 as), Num (dec_value 0 bs)])"
    using sp by (simp add: ascii_def ab z dec_digit_def [of 100])
  moreover have ap: "apart f (Suc (length (ascii ''%d %d''))) p (length as + length bs + 5)"
    using assms(6) by (simp add: ascii_def eval_nat_numeral)
  ultimately have "sscanf m s f [p, q] = Some (st32 (st32 m p (dec_value 0 as)) p (dec_value 0 bs), 2)"
    using sscanf_loop_eq [OF assms(1,2) ap, of "[q]" 0] assms(7,8)
    by (simp add: sscanf_def store_conv_def ascii_def)
  moreover have "st32 m' p v x = m' x" if "\<not> in_block x p 4" for x v m'
    unfolding st32_def by (rule write_bytes_outside) (use that in \<open>simp_all add: in_block_def\<close>)
  ultimately show ?thesis by (simp add: ld32_st32)
qed

theorem sscanf_overwrites_witness:
  "\<exists>m'. sscanf (demo_text ''%d %d'' ''12 34'') 0x200 0x100 [0x300, 0x400] = Some (m', 2)
    \<and> ld32 m' 0x300 = 34 \<and> (\<forall>x. \<not> in_block x 0x300 4 \<longrightarrow> m' x = demo_text ''%d %d'' ''12 34'' x)"
proof -
  let ?m = "demo_text ''%d %d'' ''12 34''"
  have "cstr ?m 0x100 (ascii ''%d %d'')" "cstr ?m 0x200 ([49, 50] @ 32 # [51, 52])" by (simp_all add: demo_text_def ascii_def)
  note c = this
  have "apart 0x100 6 0x300 (length [49 :: u8, 50] + length [51 :: u8, 52] + 5)"
    "apart 0x200 (length [49 :: u8, 50] + length [51 :: u8, 52] + 2) 0x300 (length [49 :: u8, 50] + length [51 :: u8, 52] + 5)"
    by (rule apart_before, simp_all)+
  note sscanf_overwrites [OF c _ _ _ this, of "0x400"]
  moreover have "dec_value 0 [51, 52] = 34" by (simp add: dec_value_def)
  ultimately show ?thesis by (simp add: dec_digit_def)
qed

text \<open>\<open>print_arg\<close> changes no byte behind the \<open>len\<close> bytes it is given and returns a pointer that is at most
  behind them, for every conversion but \<open>%%\<close>: that writes a byte even if \<open>len\<close> is 0.\<close>

theorem print_arg_bounds:
  assumes "dec_to_uint m fmt = Some (f, w)" and "m f \<noteq> 37" and "print_arg m fmt str len args = Some r"
  shows "within m len str r"
proof -
  let ?width = "case w of None \<Rightarrow> 0 | Some v \<Rightarrow> v"
  note i = int_to_dec_within [of m]
  have u: "within m len str r" if "uint_to_dec m a c ?width len str = Some r \<or> uint_to_hex m a up c ?width len str = Some r" for a c up
    using that uint_to_dec_text [of a m c ?width len str] uint_to_hex_text [of up a m c ?width len str] put_text_within by auto
  have c: "within m len str r"
    if "(if ?width > 1 then put_blanks m (?width - 1) len str else (m, str, len)) = (m1, str1, len1)"
      "r = (if len1 > 0 then (m1(str1 := ucast a), str1 + 1) else (m1, str1))" for a :: u32 and m1 str1 len1
  proof -
    have b: "changed_in str (unat len) m m1 \<and> (\<exists>k. str1 = str + of_nat k \<and> k + unat len1 = unat len)"
      using that(1) put_blanks_within by (cases "?width > 1") (auto intro: exI [of _ 0])
    have "within m1 len1 str1 r"
    proof (cases "len1 > 0")
      case True
      then have "1 \<le> unat len1" by (simp add: word_less_nat_alt)
      then show ?thesis
        using True unfolding that(2) within_def by (auto simp: changed_in_def in_block_def intro!: exI [of _ 1])
    qed (simp add: that(2) within_same)
    then show ?thesis using b within_behind by blast
  qed
  have s: "within m len str r"
    if "(if ?width > 0 \<and> ?width > n then put_blanks m (?width - n) len str else (m, str, len)) = (m1, str1, len1)"
      "r = (fst (memcpy m1 str1 p (if n < len1 then n else len1)), str1 + (if n < len1 then n else len1))" for n p m1 str1 len1
  proof -
    have b: "changed_in str (unat len) m m1 \<and> (\<exists>k. str1 = str + of_nat k \<and> k + unat len1 = unat len)"
      using that(1) put_blanks_within by (cases "?width > 0 \<and> ?width > n") (auto intro: exI [of _ 0])
    define k where "k = (if n < len1 then n else len1)"
    have k: "unat k \<le> unat len1" by (simp add: k_def word_less_nat_alt)
    have "changed_in str1 (unat len1) m1 (copy_up m1 str1 p k)"
      using changed_in_shift [of str1 0 "unat k"] copy_up_changed [of str1 k m1 p] k by simp
    then have "within m1 len1 str1 r"
      using k unfolding that(2) within_def by (auto simp: memcpy_def k_def [symmetric] intro!: exI [of _ "unat k"])
    then show ?thesis using b within_behind by blast
  qed
  note p = assms(3) [unfolded print_arg_def assms(1) siz_to_hex_def Let_def Option.bind.simps prod.case]
  consider "m f = 100 \<or> m f = 105" | "m f = 117" | "m f = 120 \<or> m f = 88" | "m f = 112" | "m f = 99" | "m f = 115"
    | "m f \<notin> {100, 105, 117, 120, 88, 112, 99, 115}" by auto
  then show ?thesis
  proof cases
    case 1
    then obtain a where "int_to_dec m a (if m fmt = 48 then 48 else 32) ?width len str = Some r" using p by (auto split: bind_splits)
    then show ?thesis using i [of a "if m fmt = 48 then 48 else 32" ?width len str] by simp
  next
    case 2
    then obtain a where "uint_to_dec m a (if m fmt = 48 then 48 else 32) ?width len str = Some r" using p by (auto split: bind_splits)
    then show ?thesis using u by blast
  next
    case 3
    then obtain a where "uint_to_hex m a (m f = 88) (if m fmt = 48 then 48 else 32) ?width len str = Some r" using p by (auto split: bind_splits)
    then show ?thesis using u by blast
  next
    case 4
    then obtain a where "uint_to_hex m a False (if m fmt = 48 then 48 else 32) ?width len str = Some r" using p by (auto split: bind_splits)
    then show ?thesis using u by blast
  next
    case 5
    then show ?thesis using p c by (auto split: bind_splits prod.splits)
  next
    case 6
    then show ?thesis using p s by (auto split: bind_splits prod.splits)
  next
    case 7
    then show ?thesis using p assms(2) within_same by auto
  qed
qed

theorem print_arg_bounds_witness:
  "\<exists>r. print_arg (demo_text ''5d'' '''') 0x100 0x300 3 [1234] = Some r \<and> within (demo_text ''5d'' '''') 3 0x300 r"
proof -
  let ?m = "demo_text ''5d'' ''''"
  have c: "cstr ?m 0x100 (ascii ''5d'')" by (simp add: demo_text_def ascii_def)
  have "read_dec False (ascii ''5d'') = Some (5, [100])" by (simp add: read_dec_def ascii_def is_space_def dec_digit_def dec_value_def)
  then have d: "dec_to_uint ?m 0x100 = Some (0x101, Some 5)"
    using readers_cstr(1) [OF c] by (simp add: read_result_def at_rest_def ascii_def)
  have f: "?m 0x101 = 100" "?m 0x100 = 53" by (simp_all add: demo_text_def ascii_def)
  obtain r where "int_to_dec ?m 1234 32 5 3 0x300 = Some r" using int_to_dec_within by blast
  then have p: "print_arg ?m 0x100 0x300 3 [1234] = Some r" by (simp add: print_arg_def d f va_arg_def)
  moreover have "within ?m 3 0x300 r" using print_arg_bounds [OF d _ p] f by simp
  ultimately show ?thesis by blast
qed

end
