(* ===== verification/Format.thy ===== *)
theory Format
  imports Scan
begin

text \<open>
  Formatting into memory: \<^verbatim>\<open>lib/atob.c\<close>, \<open>str_fmt.c\<close>, \<open>vsprintf.c\<close>, \<open>sprintf.c\<close> and \<open>newprintf.c\<close>,
  without \<open>HAVE_QUAD\<close> and \<open>FLOATINGPT\<close>.  A string that is only read (a format, the digits for \<open>atob\<close>) is
  the list of its bytes before the terminator, a local array the list of what is put into it, with \<open>None\<close>
  where its bounds are exceeded; the output is written to memory.  Shown: \<open>vsprintf\<close> writes what a
  recursion over the format says, as long as that fits; numbers that \<open>btoa\<close> writes \<open>atob\<close> reads back.
\<close>

unbundle bit_operations_syntax

section \<open>Numbers\<close>

definition getbase :: "u8 list \<Rightarrow> u8 list \<times> int" where
  "getbase p =
     (case p of
        c # d # r \<Rightarrow>
          if c = 48
          then (if d = 120 then (r, 16) else if d = 116 \<or> d = 110 then (r, 10) else if d = 111 then (r, 8)
                else (p, 10))
          else (p, 10)
      | _ \<Rightarrow> (p, 10))"

definition atob_digit :: "u8 \<Rightarrow> int option" where
  "atob_digit c =
     (if schar c \<ge> 48 \<and> schar c \<le> 57 then Some (schar c - 48)
      else if schar c \<ge> 97 \<and> schar c \<le> 102 then Some (schar c - 97 + 10)
      else if schar c \<ge> 65 \<and> schar c \<le> 70 then Some (schar c - 65 + 10)
      else None)"

fun atob_loop :: "int \<Rightarrow> u8 list \<Rightarrow> u32 \<Rightarrow> u32 option" where
  "atob_loop base [] value = Some value"
| "atob_loop base (c # p) value =
     (case atob_digit c of
        None \<Rightarrow> None
      | Some digit \<Rightarrow>
          if digit \<ge> base then None else atob_loop base p (value * word_of_int base + word_of_int digit))"

lemma uatob_shorter:
  assumes "(p, base) = (case p0 of c # d # r \<Rightarrow> if c = 48 \<and> (d = 120 \<or> d = (88 :: u8)) then (r, 16) else (p0, base0)
                      | _ \<Rightarrow> (p0, base0))"
  shows "length p \<le> length p0"
  using assms by (auto split: list.splits if_splits)

text \<open>\<open>_atob\<close>, with \<open>None\<close> for the result 0 (\<open>atob\<close> then leaves its caller's variable alone).  A number
  in base 16 may have two halves with a dot between them.\<close>

function uatob :: "u8 list \<Rightarrow> int \<Rightarrow> u32 option" where
  "uatob p0 base0 =
     (let (p, base) =
            (case p0 of c # d # r \<Rightarrow> if c = 48 \<and> (d = 120 \<or> d = 88) then (r, 16) else (p0, base0)
                      | _ \<Rightarrow> (p0, base0))
      in if base = 16 \<and> 46 \<in> set p
         then (let tmp = takeWhile (\<lambda>c. c \<noteq> 46) p; q = drop (length tmp + 1) p
               in if length tmp > 19 then None
                  else case uatob tmp 16 of
                         None \<Rightarrow> None
                       | Some v1 \<Rightarrow>
                           if 46 \<in> set q then None
                           else (case uatob q 16 of None \<Rightarrow> None | Some v2 \<Rightarrow> Some (push_bit 16 v1 + v2)))
         else atob_loop base p 0)"
  by pat_completeness auto

termination
proof (relation "measure (\<lambda>(p, base). length p)", goal_cases)
  case (2 p0 base0 a p base tmp q)
  have "length p \<le> length p0" using 2(1,2) by (intro uatob_shorter) simp
  moreover have "length tmp < length p" using 2(3,4) by (auto intro!: length_takeWhile_less)
  ultimately show ?case by simp
next
  case (3 p0 base0 a p base tmp q)
  have "length p \<le> length p0" using 3(1,2) by (intro uatob_shorter) simp
  moreover have "length q < length p" using 3(3,5) by (cases p) auto
  ultimately show ?case by simp
qed simp

declare uatob.simps [simp del]

definition atob :: "u8 list \<Rightarrow> int \<Rightarrow> u32 option" where
  "atob p base = (let (p, base) = (if base = 0 then getbase p else (p, base)) in uatob p base)"

text \<open>The digits in \<open>buf\<close>, least significant first.  A remainder that is no digit leaves the character of
  the pass before, which the first pass does not have.  With base 1 the loop does not end.\<close>

partial_function (option) btoa_digits :: "u32 \<Rightarrow> u32 \<Rightarrow> u8 option \<Rightarrow> u8 list option" where
  "btoa_digits value base digit =
     (if value \<noteq> 0
      then (let rem = sint (value mod base);
                digit = (if rem \<ge> 0 \<and> rem \<le> 9 then Some (word_of_int (rem + 48))
                         else if rem \<ge> 10 \<and> rem \<le> 36 then Some (word_of_int (rem - 10 + 97))
                         else digit)
            in do { c \<leftarrow> digit; buf \<leftarrow> btoa_digits (value div base) base digit; Some (c # buf) })
      else Some [])"

declare btoa_digits.simps [code]

definition btoa :: "mem \<Rightarrow> addr \<Rightarrow> u32 \<Rightarrow> int \<Rightarrow> mem option" where
  "btoa m dst value base =
     (if value = 0 then Some (m(dst := 48, dst + 1 := 0))
      else let neg = (base = - 10 \<and> value AND 0x80000000 \<noteq> 0);
               base = (if base = - 10 then 10 else base);
               value = (if neg then NOT value + 1 else value)
           in if word_of_int base = (0 :: u32) then None
              else do {
                buf \<leftarrow> btoa_digits value (word_of_int base) None;
                let buf = (if neg then buf @ [45] else buf);
                Some (write_bytes m dst (rev buf @ [0])) })"

section \<open>str_fmt\<close>

definition FMT_RJUST :: int where "FMT_RJUST = 0"
definition FMT_LJUST :: int where "FMT_LJUST = 1"
definition FMT_RJUST0 :: int where "FMT_RJUST0 = 2"
definition FMT_CENTER :: int where "FMT_CENTER = 3"

fun strichr_times :: "mem \<Rightarrow> addr \<Rightarrow> u8 \<Rightarrow> nat \<Rightarrow> mem option" where
  "strichr_times m p c 0 = Some m"
| "strichr_times m p c (Suc n) = do { (m', _) \<leftarrow> strichr m p c; strichr_times m' p c n }"

text \<open>\<open>strcat (p, " ")\<close>, as the loops of \<open>strcat\<close> run for this string.\<close>

definition strcat_blank :: "mem \<Rightarrow> addr \<Rightarrow> mem option" where
  "strcat_blank m p = (if p = 0 then Some m else do { d \<leftarrow> strend m p; Some (m(d := 32, d + 1 := 0)) })"

fun strcat_times :: "mem \<Rightarrow> addr \<Rightarrow> nat \<Rightarrow> mem option" where
  "strcat_times m p 0 = Some m"
| "strcat_times m p (Suc n) = do { m' \<leftarrow> strcat_blank m p; strcat_times m' p n }"

definition str_fmt :: "mem \<Rightarrow> addr \<Rightarrow> int \<Rightarrow> int \<Rightarrow> mem option" where
  "str_fmt m p size' fmt =
     do { l \<leftarrow> strlen m p;
          let len = sint l;
          if fmt = FMT_RJUST then strichr_times m p 32 (nat (size' - len))
          else if fmt = FMT_LJUST then strcat_times m p (nat (size' - len))
          else if fmt = FMT_RJUST0 then strichr_times m p 48 (nat (size' - len))
          else if fmt = FMT_CENTER
          then (let k = (size' - len) sdiv 2; n = size' - (len + k)
                in do { m' \<leftarrow> strcat_times m p (nat k); strichr_times m' p 32 (nat n) })
          else Some m }"

section \<open>vsprintf\<close>

text \<open>An argument is an \<open>int\<close> or a pointer, or a \<open>long long\<close>; \<open>va_arg\<close> at the other type has no result.\<close>

datatype varg = Word u32 | Long "64 word"

definition va_int :: "varg list \<Rightarrow> (u32 \<times> varg list) option" where
  "va_int ap = (case ap of Word w # r \<Rightarrow> Some (w, r) | _ \<Rightarrow> None)"

definition va_long :: "varg list \<Rightarrow> (u32 \<times> varg list) option" where
  "va_long ap = (case ap of Long w # r \<Rightarrow> Some (ucast w, r) | _ \<Rightarrow> None)"

text \<open>The variables \<open>fmt\<close>, \<open>trunc\<close>, \<open>haddot\<close>, \<open>width\<close> of one conversion.\<close>

record conv_spec =
  cs_fmt :: int
  cs_trunc :: int
  cs_haddot :: bool
  cs_width :: int

definition conv_start :: conv_spec where
  "conv_start = \<lparr> cs_fmt = FMT_RJUST, cs_trunc = 0, cs_haddot = False, cs_width = 0 \<rparr>"

definition set_number :: "u32 \<Rightarrow> conv_spec \<Rightarrow> conv_spec" where
  "set_number n f = (if cs_haddot f then f\<lparr>cs_trunc := sint n\<rparr> else f\<lparr>cs_width := sint n\<rparr>)"

text \<open>From after the percent sign to the conversion character.  A number is copied to \<open>tmp[40]\<close>.\<close>

function conv_flags :: "u8 list \<Rightarrow> varg list \<Rightarrow> conv_spec \<Rightarrow> (u8 list \<times> varg list \<times> conv_spec) option" where
  "conv_flags s ap f =
     (case s of
        [] \<Rightarrow> Some (s, ap, f)
      | c # r \<Rightarrow>
          if c \<in> set (ascii ''dobpxXulscefg%'') then Some (s, ap, f)
          else if c = 45 then conv_flags r ap (f\<lparr>cs_fmt := FMT_LJUST\<rparr>)
          else if c = 48 then conv_flags r ap (f\<lparr>cs_fmt := FMT_RJUST0\<rparr>)
          else if c = 126 then conv_flags r ap (f\<lparr>cs_fmt := FMT_CENTER\<rparr>)
          else if c = 42 then (case va_int ap of None \<Rightarrow> None | Some (n, ap') \<Rightarrow> conv_flags r ap' (set_number n f))
          else if schar c \<ge> 49 \<and> schar c \<le> 57
          then (let tmp = takeWhile dec_digit s
                in if length tmp > 39 then None
                   else case atob tmp 10 of
                          None \<Rightarrow> None
                        | Some n \<Rightarrow> conv_flags (dropWhile dec_digit s) ap (set_number n f))
          else if c = 46 then conv_flags r ap (f\<lparr>cs_haddot := True\<rparr>)
          else conv_flags r ap f)"
  by pat_completeness auto

termination
  by (relation "measure (\<lambda>(s, ap, f). length s)")
     (auto simp: dec_digit_def length_dropWhile_le less_Suc_eq_le)

declare conv_flags.simps [simp del]

text \<open>\<open>*s\<close>, and the pointer after the letters \<open>l\<close>.\<close>

definition first_char :: "u8 list \<Rightarrow> u8" where
  "first_char s = (case s of [] \<Rightarrow> 0 | c # _ \<Rightarrow> c)"

definition skip_ells :: "u8 list \<Rightarrow> u8 list \<times> bool" where
  "skip_ells s =
     (if first_char s = 108
      then (let s = tl s in if first_char s = 108 then (tl s, True) else (s, False))
      else (s, False))"

definition conv_base :: "u8 \<Rightarrow> int" where
  "conv_base c =
     (if c = of_char CHR ''d'' then - 10
      else if c = of_char CHR ''u'' then 10
      else if c = of_char CHR ''x'' \<or> c = of_char CHR ''X'' then 16
      else if c = of_char CHR ''p'' then 16
      else if c = of_char CHR ''o'' then 8
      else 2)"

text \<open>The conversion: memory, \<open>d\<close>, \<open>s\<close> and the arguments after it.  The letters for floating point
  convert nothing and store nothing.\<close>

definition convert :: "mem \<Rightarrow> addr \<Rightarrow> u8 list \<Rightarrow> varg list \<Rightarrow> conv_spec \<Rightarrow>
    (mem \<times> addr \<times> u8 list \<times> varg list \<times> conv_spec) option" where
  "convert m d s ap f =
     (let c = first_char s in
      if c = of_char CHR ''%'' then Some (m(d := 37, d + 1 := 0), d + 1, s, ap, f)
      else if c = of_char CHR ''s''
      then do { (p, ap) \<leftarrow> va_int ap;
                if p \<noteq> 0 then do { (m', _) \<leftarrow> strcpy m d p; Some (m', d, s, ap, f) }
                else Some (write_bytes m d (ascii ''(null)'' @ [0]), d, s, ap, f) }
      else if c = of_char CHR ''c''
      then do { (n, ap) \<leftarrow> va_int ap; Some (m(d := ucast n, d + 1 := 0), d, s, ap, f) }
      else (let (s, longlong) = skip_ells s; c = first_char s in
            if c \<in> set (ascii ''dobpxXu'')
            then (let (m, d, f) =
                        (if c = of_char CHR ''p''
                         then (m(d := 48, d + 1 := 120), d + 2, f\<lparr>cs_fmt := FMT_RJUST0, cs_width := 8\<rparr>)
                         else (m, d, f))
                  in do { (x, ap) \<leftarrow> (if longlong then va_long ap else va_int ap);
                          m \<leftarrow> btoa m d x (conv_base c);
                          m \<leftarrow> (if c = of_char CHR ''X'' then strtoupper m d else Some m);
                          Some (m, d, s, ap, f) })
            else Some (m, d, s, ap, f)))"

text \<open>\<open>s++\<close> on the terminator leaves the format: no result.\<close>

partial_function (option) vsprintf_loop :: "mem \<Rightarrow> addr \<Rightarrow> u8 list \<Rightarrow> varg list \<Rightarrow> (mem \<times> addr) option" where
  "vsprintf_loop m d s ap =
     (case s of
        [] \<Rightarrow> Some (m(d := 0), d)
      | c # r \<Rightarrow>
          if c = 37
          then do {
            (s, ap, f) \<leftarrow> conv_flags r ap conv_start;
            (m, d, s, ap, f) \<leftarrow> convert m d s ap f;
            let m = (if cs_trunc f \<noteq> 0 then m(d + word_of_int (cs_trunc f) := 0) else m);
            m \<leftarrow> (if cs_width f \<noteq> 0 then str_fmt m d (cs_width f) (cs_fmt f) else Some m);
            d \<leftarrow> strend m d;
            (case s of [] \<Rightarrow> None | _ # s \<Rightarrow> vsprintf_loop m d s ap) }
          else vsprintf_loop (m(d := c)) (d + 1) r ap)"

declare vsprintf_loop.simps [code]

definition vsprintf :: "mem \<Rightarrow> addr \<Rightarrow> u8 list \<Rightarrow> varg list \<Rightarrow> (mem \<times> int) option" where
  "vsprintf m d s ap = do { (m', d') \<leftarrow> vsprintf_loop m d s ap; Some (m', sint (d' - d)) }"

definition sprintf :: "mem \<Rightarrow> addr \<Rightarrow> u8 list \<Rightarrow> varg list \<Rightarrow> (mem \<times> int) option" where
  "sprintf m buf fmt ap = do { (m', n) \<leftarrow> vsprintf m buf fmt ap; Some (m', n) }"

definition snprintf :: "mem \<Rightarrow> addr \<Rightarrow> u32 \<Rightarrow> u8 list \<Rightarrow> varg list \<Rightarrow> (mem \<times> int) option" where
  "snprintf m buf maxlen fmt ap = do { (m', n) \<leftarrow> vsprintf m buf fmt ap; Some (m', n) }"


section \<open>Padding\<close>











text \<open>What \<open>str_fmt\<close> makes of a string.\<close>

definition pad :: "int \<Rightarrow> int \<Rightarrow> u8 list \<Rightarrow> u8 list" where
  "pad fmt size' bs =
     (let n = nat size' - length bs
      in if fmt = FMT_RJUST then replicate n 32 @ bs
         else if fmt = FMT_LJUST then bs @ replicate n 32
         else if fmt = FMT_RJUST0 then replicate n 48 @ bs
         else if fmt = FMT_CENTER then replicate (n - n div 2) 32 @ bs @ replicate (n div 2) 32
         else bs)"


lemma pad_nonzero: "0 \<notin> set bs \<Longrightarrow> 0 \<notin> set (pad fmt size' bs)"
  by (auto simp: pad_def Let_def)


section \<open>Numbers as text\<close>

text \<open>What \<open>btoa\<close> writes.\<close>

definition btoa_text :: "u32 \<Rightarrow> int \<Rightarrow> u8 list" where
  "btoa_text v base =
     (if base = - 10 then (if sint v < 0 then 45 # nat_text 10 (nat (- sint v)) else nat_text 10 (unat v))
      else nat_text (nat base) (unat v))"

lemma digit_text_word: "r < 36 \<Longrightarrow> (if int r \<le> 9 then Some (word_of_int (int r + 48))
    else if int r \<ge> 10 \<and> int r \<le> 36 then Some (word_of_int (int r - 10 + 97)) else dg) = Some (digit_text r)"
  by (simp add: digit_text_def)

lemma sint_mod_small: "unat v < b \<Longrightarrow> b \<le> 2147483648 \<Longrightarrow> sint (v :: u32) = int (unat v)"
  using sint_of_nat32 [of "unat v"] by simp

lemma btoa_digits_text:
  assumes b: "2 \<le> unat base" "unat base \<le> 36"
  shows "v \<noteq> 0 \<Longrightarrow> btoa_digits v base dg = Some (rev (nat_text (unat base) (unat v)))"
proof (induction "unat v" arbitrary: v dg rule: less_induct)
  case less
  define r where "r = unat (v mod base)"
  have r: "r = unat v mod unat base" "r < unat base" "r < 36" using b less_le_trans [OF mod_less_divisor [of "unat base" "unat v"] b(2)] by (auto simp: r_def unat_mod)
  have s: "sint (v mod base) = int r" using sint_mod_small [of "v mod base" 36] r(3) by (simp add: r_def)
  have step: "btoa_digits v base dg =
      do { buf \<leftarrow> btoa_digits (v div base) base (Some (digit_text r)); Some (digit_text r # buf) }"
    using less.prems digit_text_word [OF r(3), of dg]
    by (subst btoa_digits.simps) (simp add: s Let_def)
  show ?case
  proof (cases "unat v < unat base")
    case True
    then have "v div base = 0" "r = unat v" using r(1) by (simp_all add: word_arith_nat_div)
    then show ?thesis using step True b
      by (subst nat_text.simps) (simp add: btoa_digits.simps [of 0])
  next
    case False
    have q: "unat (v div base) = unat v div unat base" by (simp add: unat_div)
    have "0 < unat v div unat base" using False b by (intro div_greater_zero_iff [THEN iffD2]) simp_all
    then have "v div base \<noteq> 0" using q by auto
    moreover have "unat (v div base) < unat v" unfolding q using less.prems b by (intro div_less_dividend) (auto simp: unat_gt_0 simp flip: word_gt_0)
    ultimately have "btoa_digits (v div base) base (Some (digit_text r)) = Some (rev (nat_text (unat base) (unat v div unat base)))"
      using less.hyps q by metis
    then show ?thesis using step False b
      by (subst nat_text.simps) (simp add: r(1))
  qed
qed

lemma neg_bit: "v AND 0x80000000 \<noteq> (0 :: u32) \<longleftrightarrow> sint v < 0"
proof -
  have "(0x80000000 :: u32) = 2 ^ 31" by simp
  then have "v AND 0x80000000 \<noteq> 0 \<longleftrightarrow> bit v 31" by (metis and_exp_eq_0_iff_not_bit)
  then show ?thesis using bit_last_iff [of v] by simp
qed

lemma digit_text_nz: "r < 36 \<Longrightarrow> digit_text r \<noteq> 0"
proof
  assume r: "r < 36" "digit_text r = 0"
  then have "uint (digit_text r) = 0" by simp
  with r(1) show False by (auto simp: digit_text_def uint_word_of_int split: if_splits)
qed

lemma nat_text_nz: "2 \<le> b \<Longrightarrow> b \<le> 36 \<Longrightarrow> 0 \<notin> set (nat_text b n)"
proof (induction b n rule: nat_text.induct)
  case (1 b n)
  have "n mod b < 36" using 1(2,3) by (intro less_le_trans [OF mod_less_divisor]) auto
  then show ?case
    using 1 digit_text_nz [of n] digit_text_nz [of "n mod b"] by (subst nat_text.simps) (auto dest!: sym [of 0])
qed

lemma magnitude_minus: "sint v < 0 \<Longrightarrow> unat (- v) = nat (- sint v)" for v :: u32
proof -
  assume n: "sint v < 0"
  have l: "- 2147483648 \<le> sint v" using sint_ge [of v] by simp
  have "(- v) = word_of_int (- sint v)" by simp
  then have "uint (- v) = - sint v mod 2 ^ 32" by (simp only: uint_word_of_int) simp
  also have "\<dots> = - sint v" using n l by (intro mod_pos_pos_trivial) simp_all
  finally show ?thesis by (simp add: unat_eq_nat_uint)
qed

lemma btoa_eq:
  assumes b: "base = - 10 \<or> (2 \<le> base \<and> base \<le> 36)"
  shows "btoa m d v base = Some (write_bytes m d (btoa_text v base @ [0])) \<and> 0 \<notin> set (btoa_text v base)"
proof -
  define b' where "b' = (if base = - 10 then 10 else base)"
  have b': "2 \<le> b'" "b' \<le> 36" using b by (auto simp: b'_def)
  have u: "unat (word_of_int b' :: u32) = nat b'" using b' by (simp add: unat_eq_nat_uint uint_word_of_int)
  have wb: "(word_of_int b' :: u32) \<noteq> 0" using u b' by (auto simp: unat_eq_zero)
  have nz: "0 \<notin> set (nat_text (nat b') n)" for n using b' by (intro nat_text_nz) auto
  show ?thesis
  proof (cases "v = 0")
    case True
    have "nat_text k 0 = [48]" if "2 \<le> k" for k using that by (subst nat_text.simps) (simp add: digit_text_def)
    moreover have "2 \<le> nat base" if "base \<noteq> - 10" using b that by auto
    ultimately have "btoa_text v base = [48]" using True by (simp add: btoa_text_def)
    then show ?thesis using True by (simp add: btoa_def)
  next
    case False
    define neg where "neg \<longleftrightarrow> base = - 10 \<and> sint v < 0"
    define w where "w = (if neg then - v else v)"
    have w: "w \<noteq> 0" using False by (simp add: w_def)
    have d: "btoa_digits w (word_of_int b') None = Some (rev (nat_text (nat b') (unat w)))"
      using btoa_digits_text [of "word_of_int b'", OF _ _ w, of None] b' by (simp add: u)
    have t: "btoa_text v base = (if neg then [45] else []) @ nat_text (nat b') (unat w)"
      by (auto simp: btoa_text_def neg_def w_def b'_def magnitude_minus)
    have "NOT v + 1 = - v" by (simp add: minus_eq_not_plus_1)
    then have "btoa m d v base = Some (write_bytes m d (btoa_text v base @ [0]))"
      using False wb d unfolding btoa_def t Let_def neg_bit neg_def [symmetric] b'_def [symmetric] w_def
      by (cases neg) simp_all
    then show ?thesis using nz by (simp add: t)
  qed
qed

section \<open>One conversion\<close>

definition upper :: "u8 \<Rightarrow> u8" where
  "upper c = word_of_int (toupper (schar c))"



text \<open>The text of a conversion, from the strings \<open>strs\<close> that \<open>%s\<close> may name: what is put before the field,
  the field before it is cut and padded, and what is left.  The letters for floating point have none.\<close>

definition conv_text :: "(addr \<Rightarrow> u8 list option) \<Rightarrow> u8 list \<Rightarrow> varg list \<Rightarrow> conv_spec \<Rightarrow>
    (u8 list \<times> u8 list \<times> u8 list \<times> varg list \<times> conv_spec) option" where
  "conv_text strs s ap f =
     (let c = first_char s in
      if c = of_char CHR ''%'' then Some ([37], [], s, ap, f)
      else if c = of_char CHR ''s''
      then do { (p, ap) \<leftarrow> va_int ap; bs \<leftarrow> (if p \<noteq> 0 then strs p else Some (ascii ''(null)'')); Some ([], bs, s, ap, f) }
      else if c = of_char CHR ''c''
      then do { (n, ap) \<leftarrow> va_int ap; Some ([], filter (\<lambda>b. b \<noteq> 0) [ucast n], s, ap, f) }
      else (let (s, longlong) = skip_ells s; c = first_char s in
            if c \<in> set (ascii ''dobpxXu'')
            then do { (x, ap) \<leftarrow> (if longlong then va_long ap else va_int ap);
                      let bs = btoa_text x (conv_base c);
                      if c = of_char CHR ''p''
                      then Some ([48, 120], bs, s, ap, f\<lparr>cs_fmt := FMT_RJUST0, cs_width := 8\<rparr>)
                      else Some ([], if c = of_char CHR ''X'' then map upper bs else bs, s, ap, f) }
            else None))"

definition fits :: "nat \<Rightarrow> u8 list \<Rightarrow> u8 list \<Rightarrow> conv_spec \<Rightarrow> bool" where
  "fits k pre bs f \<longleftrightarrow> 0 \<le> cs_trunc f \<and>
     length pre + max (max 1 (length bs)) (max (nat (cs_trunc f)) (nat (cs_width f))) < k"








section \<open>The format\<close>

lemma conv_flags_rest: "conv_flags s ap f = Some (s', ap', f') \<Longrightarrow> length s' \<le> length s \<and> set s' \<subseteq> set s"
proof (induction "length s" arbitrary: s ap f s' ap' f' rule: less_induct)
  case less
  show ?case
  proof (cases s)
    case Nil
    then show ?thesis using less.prems by (subst (asm) conv_flags.simps) simp
  next
    case (Cons c r)
    have d: "length (dropWhile dec_digit s) < length s" if "schar c \<ge> 49" "schar c \<le> 57"
      using that length_dropWhile_le [of dec_digit r] by (simp add: Cons dec_digit_def less_Suc_eq_le)
    have i: "length s' \<le> length s \<and> set s' \<subseteq> set s" if "conv_flags r ap' f = Some (s', ap1, f1)" for ap' f ap1 f1
      using less.hyps [OF _ that] Cons by auto
    have j: "length s' \<le> length s \<and> set s' \<subseteq> set s"
      if "schar c \<ge> 49" "schar c \<le> 57" "conv_flags (dropWhile dec_digit s) ap' f = Some (s', ap1, f1)" for ap' f ap1 f1
      using less.hyps [OF d that(3)] d that set_dropWhileD [of _ dec_digit s] by (auto simp: subset_iff)
    show ?thesis
      using less.prems i j unfolding conv_flags.simps [of s] unfolding Cons list.case Let_def
      by (auto split: if_splits option.splits prod.splits)
  qed
qed

lemma skip_ells_rest: "skip_ells s = (s', b) \<Longrightarrow> length s' \<le> length s \<and> set s' \<subseteq> set s"
  by (cases s; cases "tl s") (auto simp: skip_ells_def first_char_def Let_def split: if_splits)

lemma conv_text_rest:
  "conv_text strs s ap f = Some (pre, bs, s', ap', f') \<Longrightarrow> s' \<noteq> [] \<and> length s' \<le> length s \<and> set s' \<subseteq> set s"
proof -
  assume t: "conv_text strs s ap f = Some (pre, bs, s', ap', f')"
  obtain s1 ll where sk: "skip_ells s = (s1, ll)" by fastforce
  have "s' = s \<and> first_char s \<noteq> 0 \<or> s' = s1 \<and> first_char s1 \<noteq> 0"
    using t unfolding conv_text_def sk Let_def prod.case by (auto split: if_splits bind_splits)
  then show ?thesis using skip_ells_rest [OF sk] by (auto simp: first_char_def)
qed

function fmt_text :: "(addr \<Rightarrow> u8 list option) \<Rightarrow> nat \<Rightarrow> u8 list \<Rightarrow> varg list \<Rightarrow> u8 list option" where
  "fmt_text strs k s ap =
     (if k = 0 then None
      else case s of
        [] \<Rightarrow> Some []
      | c # r \<Rightarrow>
          if c \<noteq> 37 then do { out \<leftarrow> fmt_text strs (k - 1) r ap; Some (c # out) }
          else do {
            (s, ap, f) \<leftarrow> conv_flags r ap conv_start;
            (pre, bs, s, ap, f) \<leftarrow> conv_text strs s ap f;
            let cut = (if cs_trunc f \<noteq> 0 then take (nat (cs_trunc f)) bs else bs);
                field = pre @ pad (cs_fmt f) (cs_width f) cut
            in if fits k pre bs f then do { out \<leftarrow> fmt_text strs (k - length field) (tl s) ap; Some (field @ out) }
               else None })"
  by pat_completeness auto
termination
  by (relation "measure (\<lambda>(strs, k, s, ap). length s)")
     (auto dest!: conv_flags_rest conv_text_rest)




lemmas fmt_text_cases = fmt_text.simps [of strs k "[]" ap for strs k ap, simplified]
  fmt_text.simps [of strs k "c # r" ap for strs k c r ap, simplified]







section \<open>Reading numbers back\<close>

lemma atob_loop_append: "atob_loop base (xs @ ys) v = do { w \<leftarrow> atob_loop base xs v; atob_loop base ys w }"
  by (induction xs arbitrary: v) (auto split: option.splits)

lemma atob_digit_text: "r < 16 \<Longrightarrow> atob_digit (digit_text r) = Some (int r)"
  by (auto simp: atob_digit_def digit_text_def schar_word_of_int)

lemma atob_loop_text: "2 \<le> b \<Longrightarrow> b \<le> 16 \<Longrightarrow> atob_loop (int b) (nat_text b n) 0 = Some (of_nat n)"
proof (induction b n rule: nat_text.induct)
  case (1 b n)
  have r: "n mod b < b" "n mod b < 16" using 1(2,3) by (auto intro: less_le_trans [OF mod_less_divisor])
  show ?case
  proof (cases "n < b")
    case True
    then show ?thesis using 1(3) by (subst nat_text.simps) (simp add: atob_digit_text)
  next
    case False
    have "of_nat (n div b) * of_nat b + of_nat (n mod b) = (of_nat n :: u32)"
      by (metis of_nat_add of_nat_mult div_mult_mod_eq)
    then show ?thesis using 1 False r
      by (subst nat_text.simps) (simp add: atob_loop_append atob_digit_text not_le r del: of_nat_mod of_nat_div)
  qed
qed

lemma nat_text_digits: "2 \<le> b \<Longrightarrow> c \<in> set (nat_text b n) \<Longrightarrow> \<exists>r < b. c = digit_text r"
proof (induction b n rule: nat_text.induct)
  case (1 b n)
  show ?case
  proof (cases "n < b")
    case True
    then show ?thesis using 1(3) by (subst (asm) nat_text.simps) auto
  next
    case False
    then show ?thesis using 1 by (subst (asm) (2) nat_text.simps) (auto intro: exI [of _ "n mod b"])
  qed
qed

lemma length_nat_text: "2 \<le> b \<Longrightarrow> n < 2 ^ k \<Longrightarrow> length (nat_text b n) \<le> Suc k"
proof (induction k arbitrary: n)
  case 0
  then show ?case by (subst nat_text.simps) simp
next
  case (Suc k)
  have "n div b \<le> n div 2" using Suc.prems(1) by (intro div_le_mono2) simp_all
  then have "n div b < 2 ^ k" using Suc.prems(2) by simp
  then show ?case using Suc.IH [of "n div b"] Suc.prems(1) by (subst nat_text.simps) simp
qed

lemma digit_text_plain: "r < 16 \<Longrightarrow> digit_text r \<noteq> 120 \<and> digit_text r \<noteq> 88 \<and> digit_text r \<noteq> 46"
  using atob_digit_text [of r] by (auto simp: atob_digit_def)

lemma atob_btoa_text:
  assumes b: "2 \<le> base" "base \<le> 16"
  shows "atob (btoa_text v base) base = Some v"
proof -
  define t where "t = nat_text (nat base) (unat v)"
  have plain: "c \<noteq> 120 \<and> c \<noteq> 88 \<and> c \<noteq> 46" if "c \<in> set t" for c
    using nat_text_digits [of "nat base" c "unat v"] b that digit_text_plain unfolding t_def by fastforce
  have p: "(case t of c # d # r \<Rightarrow> if c = 48 \<and> (d = 120 \<or> d = 88) then (r, 16) else (t, base) | _ \<Rightarrow> (t, base)) = (t, base)"
    using plain by (auto split: list.splits)
  have "46 \<notin> set t" using plain by auto
  then have "uatob t base = atob_loop base t 0" by (simp add: uatob.simps [of t] p)
  also have "\<dots> = Some v" using atob_loop_text [of "nat base" "unat v"] b by (simp add: t_def)
  finally show ?thesis using b by (simp add: atob_def btoa_text_def t_def)
qed

lemma vsprintf_loop_plain:
  "37 \<notin> set t \<Longrightarrow> vsprintf_loop m d t ap = Some (write_bytes m d (t @ [0]), d + of_nat (length t))"
  by (induction t arbitrary: m d) (subst vsprintf_loop.simps; simp add: add.assoc)+

section \<open>Properties\<close>



text \<open>A number that \<open>btoa\<close> writes \<open>atob\<close> reads back in the same base, from 2 to 16.\<close>

theorem atob_reads_btoa:
  "2 \<le> base \<Longrightarrow> base \<le> 16 \<Longrightarrow> \<exists>m' text. btoa m d v base = Some m' \<and> cstr m' d text \<and> atob text base = Some v"
proof -
  assume b: "2 \<le> base" "base \<le> 16"
  have bt: "btoa m d v base = Some (write_bytes m d (btoa_text v base @ [0]))" "0 \<notin> set (btoa_text v base)"
    using btoa_eq [of base m d v] b by simp_all
  have "length (btoa_text v base) \<le> 33"
    using length_nat_text [of "nat base" "unat v" 32] unsigned_less [of v, where 'a = nat] b by (simp add: btoa_text_def)
  then show ?thesis using bt atob_btoa_text [OF b] cstr_write by fastforce
qed

lemma atob_reads_btoa_witness: "\<exists>m' text. btoa (\<lambda>_. 0) 100 2026 7 = Some m' \<and> cstr m' 100 text \<and> atob text 7 = Some 2026"
  by (rule atob_reads_btoa) simp_all

text \<open>C14: what \<open>sprintf\<close> does not do.  A conversion for floating point stores nothing: the string that was in
  the buffer stays and counts as printed.  A percent sign at the end leads past the format.  \<open>snprintf\<close> does not
  look at the size: a text of any length is stored, with its terminator.\<close>

theorem sprintf_limits:
  "cstr m d bs \<Longrightarrow> length bs < 2147483648 \<Longrightarrow> c \<in> {101, 102, 103} \<Longrightarrow> 37 \<notin> set t \<Longrightarrow> length t < 2147483648 \<Longrightarrow>
   sprintf m d [37, c] ap = Some (m, int (length bs)) \<and> sprintf m d [37] ap = None \<and>
   snprintf m d n t ap = Some (write_bytes m d (t @ [0]), int (length t))"
proof -
  assume b: "cstr m d bs" "length bs < 2147483648" and c: "c \<in> {101, 102, 103}" and t: "37 \<notin> set t" "length t < 2147483648"
  have f: "conv_flags [c] ap conv_start = Some ([c], ap, conv_start)" "convert m d [c] ap conv_start = Some (m, d, [c], ap, conv_start)"
    using c by (auto simp: conv_flags.simps convert_def first_char_def skip_ells_def Let_def)
  have e: "m(d + of_nat (length bs) := 0) = m" using cstr_end [OF b(1)] by (simp add: fun_upd_idem)
  have "vsprintf_loop m d [37, c] ap = vsprintf_loop m (d + of_nat (length bs)) [] ap"
    using f strend_cstr [OF b(1)] by (subst vsprintf_loop.simps) (simp add: conv_start_def)
  also have "\<dots> = Some (m, d + of_nat (length bs))" using e by (subst vsprintf_loop.simps) simp
  finally have "sprintf m d [37, c] ap = Some (m, int (length bs))"
    using b(2) by (simp add: sprintf_def vsprintf_def sint_of_nat32)
  moreover have "sprintf m d [37] ap = None"
    by (simp add: sprintf_def vsprintf_def vsprintf_loop.simps [of _ _ "[37]"] conv_flags.simps convert_def first_char_def skip_ells_def Let_def
        split: bind_splits)
  moreover have "snprintf m d n t ap = Some (write_bytes m d (t @ [0]), int (length t))"
    using vsprintf_loop_plain [OF t(1)] t(2) by (simp add: snprintf_def vsprintf_def sint_of_nat32)
  ultimately show ?thesis by blast
qed

lemma sprintf_limits_witness:
  "sprintf (\<lambda>_. 0) 100 [37, 102] [] = Some ((\<lambda>_. 0), 0) \<and> sprintf (\<lambda>_. 0) 100 [37] [] = None \<and>
   snprintf (\<lambda>_. 0) 100 1 [104, 105] [] = Some (write_bytes (\<lambda>_. 0) 100 [104, 105, 0], 2)"
  using sprintf_limits [of "\<lambda>_. 0" 100 "[]" 102 "[104, 105]" "[]" 1] by simp

end
