(* ===== verification/Cmdline.thy ===== *)
theory Cmdline
  imports Console
begin

text \<open>
  The command loop of \<^verbatim>\<open>lib/cmdline.c\<close>: the line editor, the splitting into arguments, the table of
  commands and their functions.  \<open>cmdbuffer\<close> is 64 bytes of memory at an address \<open>buf\<close>, \<open>argv\<close> a list of 8
  pointers, the typed characters a list (at its end \<open>getchar\<close> waits: no result), the string literals are
  where \<open>sl\<close> says.  A store outside \<open>cmdbuffer\<close> or \<open>argv\<close> has no result.  \<open>testguess\<close>
  (\<^verbatim>\<open>lib/guess.c\<close>, inline assembler) is a parameter.
\<close>

section \<open>The commands\<close>

definition V_NUM :: nat where "V_NUM = 8"
definition CMD_BUFF :: nat where "CMD_BUFF = 64"

datatype cmd_fn = Do_exit | Do_help | Testguess | Do_d4 | Do_nothing

record cmdline_t =
  cmdname :: addr
  cmd_func :: cmd_fn
  cmd_repeat :: int
  usage :: addr
  expression :: addr

definition cmd :: "(string \<Rightarrow> addr) \<Rightarrow> cmdline_t list" where
  "cmd sl =
     [\<lparr> cmdname = sl ''exit'', cmd_func = Do_exit, cmd_repeat = 0, usage = sl ''[exit]'', expression = sl ''--logout'' \<rparr>,
      \<lparr> cmdname = sl ''help'', cmd_func = Do_help, cmd_repeat = 1, usage = sl ''[help <command>]'', expression = sl ''--cmd list'' \<rparr>,
      \<lparr> cmdname = sl ''guess'', cmd_func = Testguess, cmd_repeat = 6, usage = sl '''', expression = sl ''guess from to mask stide mode'' \<rparr>,
      \<lparr> cmdname = sl ''d4'', cmd_func = Do_d4, cmd_repeat = 2, usage = sl '''', expression = sl ''d4 addr [count]'' \<rparr>,
      \<lparr> cmdname = 0, cmd_func = Do_nothing, cmd_repeat = 0, usage = sl '''', expression = sl '''' \<rparr>]"

text \<open>\<open>i\<close> counts up to \<open>num\<close>; a negative \<open>num\<close> prints nothing.\<close>

fun d4_loop :: "mem \<Rightarrow> u32 \<Rightarrow> nat \<Rightarrow> nat \<Rightarrow> u8 list option" where
  "d4_loop m addr i 0 = Some []"
| "d4_loop m addr i (Suc n) =
     do { o1 \<leftarrow> (if i mod 4 = 0 then printf m ([CHR 0x0A] @ ''0x%08x:'' @ [CHR 0x09]) [addr + of_nat i * 4] else Some []);
          o2 \<leftarrow> printf m '' %08x '' [ld32 m (addr + of_nat i * 4)];
          o3 \<leftarrow> d4_loop m addr (i + 1) n;
          Some (o1 @ o2 @ o3) }"

definition do_d4 :: "mem \<Rightarrow> nat \<Rightarrow> addr list \<Rightarrow> u8 list option" where
  "do_d4 m argc argv =
     (if argc < 2 then printf m ([CHR 0x0A] @ ''usage: d4 <addr> <num>'') []
      else do {
        (_, addr) \<leftarrow> strtoul m (argv ! 1) 0 0;
        num \<leftarrow> (if argc = 2 then Some 1 else do { (_, v) \<leftarrow> strtoul m (argv ! 2) 0 0; Some v });
        d4_loop m addr 0 (nat (sint num)) })"

definition help_fmt :: string where
  "help_fmt = [CHR 0x09] @ ''%s'' @ [CHR 0x09] @ ''%s'' @ [CHR 0x09] @ ''%s'' @ [CHR 0x0A]"

fun help_all :: "mem \<Rightarrow> cmdline_t list \<Rightarrow> u8 list option" where
  "help_all m [] = None"
| "help_all m (c # cs) =
     (if cmdname c = 0 then Some []
      else do { o1 \<leftarrow> printf m help_fmt [cmdname c, usage c, expression c]; o2 \<leftarrow> help_all m cs; Some (o1 @ o2) })"

text \<open>The first command from the \<open>k\<close>-th on with this name, or the end of the table.\<close>

fun find_cmd :: "mem \<Rightarrow> addr \<Rightarrow> cmdline_t list \<Rightarrow> nat \<Rightarrow> (nat \<times> cmdline_t option) option" where
  "find_cmd m s [] k = None"
| "find_cmd m s (c # cs) k =
     (if cmdname c = 0 then Some (k, None)
      else do { r \<leftarrow> strcmp m s (cmdname c); if r = 0 then Some (k, Some c) else find_cmd m s cs (k + 1) })"

definition undefine_msg :: string where
  "undefine_msg = [CHR 0x0A, CHR 0x09] @ ln ''ERROR: undefine command!!!''"

definition do_help :: "(string \<Rightarrow> addr) \<Rightarrow> mem \<Rightarrow> nat \<Rightarrow> addr list \<Rightarrow> u8 list option" where
  "do_help sl m argc argv =
     (if argc < 2
      then do { o1 \<leftarrow> printf m ([CHR 0x0A] @ ''commands:'' @ [CHR 0x0A, CHR 0x0A]) []; o2 \<leftarrow> help_all m (cmd sl); Some (o1 @ o2) }
      else do {
        (_, c) \<leftarrow> find_cmd m (argv ! 1) (cmd sl) 0;
        (case c of
           Some c \<Rightarrow> printf m ([CHR 0x0A] @ help_fmt) [cmdname c, usage c, expression c]
         | None \<Rightarrow> printf m undefine_msg []) })"

text \<open>A call through the table: the memory after it and what it prints.  The results are not used.\<close>

type_synonym guess_fn = "mem \<Rightarrow> nat \<Rightarrow> addr list \<Rightarrow> (mem \<times> u8 list) option"

definition call_cmd :: "guess_fn \<Rightarrow> (string \<Rightarrow> addr) \<Rightarrow> cmd_fn \<Rightarrow> mem \<Rightarrow> nat \<Rightarrow> addr list \<Rightarrow> (mem \<times> u8 list) option" where
  "call_cmd testguess sl fn m argc argv =
     (case fn of
        Do_help \<Rightarrow> do { out \<leftarrow> do_help sl m argc argv; Some (m, out) }
      | Do_d4 \<Rightarrow> do { out \<leftarrow> do_d4 m argc argv; Some (m, out) }
      | Testguess \<Rightarrow> testguess m argc argv
      | Do_exit \<Rightarrow> Some (m, [])
      | Do_nothing \<Rightarrow> Some (m, []))"

section \<open>The line\<close>

text \<open>The inner loop: memory, \<open>cp\<close>, what is echoed and the characters that are left.\<close>

fun read_line :: "addr \<Rightarrow> u8 list \<Rightarrow> mem \<Rightarrow> nat \<Rightarrow> (mem \<times> nat \<times> u8 list \<times> u8 list) option" where
  "read_line buf [] m cp = None"
| "read_line buf (c # inp) m cp =
     (if schar c > 0x1f \<and> schar c < 0x7f
      then (if cp < CMD_BUFF
            then do { (m', cp', out, rest) \<leftarrow> read_line buf inp (m(buf + of_nat cp := c)) (cp + 1);
                      Some (m', cp', putchar (schar c) @ out, rest) }
            else None)
      else if (schar c = 0x8 \<or> schar c = 0x7f) \<and> cp \<noteq> 0
      then do { (m', cp', out, rest) \<leftarrow> read_line buf inp (m(buf + of_nat (cp - 1) := 0)) (cp - 1);
                Some (m', cp', putchar 0x8 @ putchar 0x20 @ putchar 0x8 @ out, rest) }
      else if schar c = 0xa \<or> schar c = 0xd then Some (m, cp, [], inp)
      else read_line buf inp m cp)"

text \<open>The loop over the line, \<open>n\<close> characters from the \<open>i\<close>-th on; \<open>p0\<close> is where a word begins, \<open>c0\<close> the
  character before.\<close>

fun split_loop :: "addr \<Rightarrow> nat \<Rightarrow> nat \<Rightarrow> mem \<Rightarrow> nat \<Rightarrow> addr list \<Rightarrow> addr \<Rightarrow> u8 \<Rightarrow>
    (mem \<times> nat \<times> addr list \<times> addr \<times> u8) option" where
  "split_loop buf 0 i m argc argv p0 c0 = Some (m, argc, argv, p0, c0)"
| "split_loop buf (Suc n) i m argc argv p0 c0 =
     (let c = m (buf + of_nat i)
      in if c = 0x20 then split_loop buf n (i + 1) (m(buf + of_nat i := 0)) argc argv p0 c
         else if c0 = 0x20
         then (if argc < V_NUM then split_loop buf n (i + 1) m (argc + 1) (argv[argc := p0]) (buf + of_nat i) c else None)
         else split_loop buf n (i + 1) m argc argv p0 c)"

definition split_line :: "addr \<Rightarrow> nat \<Rightarrow> mem \<Rightarrow> addr list \<Rightarrow> (mem \<times> nat \<times> addr list) option" where
  "split_line buf cp m argv =
     do { (m', argc, argv', p0, c0) \<leftarrow> split_loop buf cp 0 m 0 argv buf 0;
          (argc', argv'') \<leftarrow> (if c0 \<noteq> 0x20 then (if argc < V_NUM then Some (argc + 1, argv'[argc := p0]) else None)
                             else Some (argc, argv'));
          if cp < CMD_BUFF then Some (m'(buf + of_nat cp := 0), argc', argv'') else None }"

section \<open>The loop\<close>

text \<open>The variables of \<open>cmdloop\<close> that live from one line to the next.\<close>

record cmd_state =
  cl_mem :: mem
  cl_argc :: nat
  cl_argv :: "addr list"
  cl_history :: nat
  cl_history_num :: nat

text \<open>One pass: the state, what is printed, the characters that are left, and whether the loop ends.\<close>

definition cmd_pass :: "guess_fn \<Rightarrow> (string \<Rightarrow> addr) \<Rightarrow> addr \<Rightarrow> cmd_state \<Rightarrow> u8 list \<Rightarrow>
    (cmd_state \<times> u8 list \<times> u8 list \<times> bool) option" where
  "cmd_pass testguess sl buf s inp =
     do { o1 \<leftarrow> printf (cl_mem s) ([CHR 0x0A] @ ''$ '') [];
          (m, cp, o2, inp) \<leftarrow> read_line buf inp (cl_mem s) 0;
          if cp = 0 \<and> cl_argv s ! 0 = 0 then Some (s\<lparr>cl_mem := m\<rparr>, o1 @ o2, inp, False)
          else do {
            (m, argc, argv) \<leftarrow> (if cp = 0 then Some (m, cl_argc s, cl_argv s) else split_line buf cp m (cl_argv s));
            let s = s\<lparr>cl_mem := m, cl_argc := argc, cl_argv := argv\<rparr>;
            r \<leftarrow> strcmp m (argv ! 0) (cmdname (cmd sl ! 0));
            if r = 0 then Some (s, o1 @ o2, inp, True)
            else do {
              (k, c) \<leftarrow> find_cmd m (argv ! 0) (drop 1 (cmd sl)) 1;
              (case c of
                 Some c \<Rightarrow> do {
                   (m, o3) \<leftarrow> call_cmd testguess sl (cmd_func c) m argc argv;
                   let s = s\<lparr>cl_mem := m\<rparr>;
                   Some (if cmd_repeat c \<noteq> 0 then s\<lparr>cl_history := k, cl_history_num := argc\<rparr> else s\<lparr>cl_argv := argv[0 := 0]\<rparr>,
                         o1 @ o2 @ o3, inp, False) }
               | None \<Rightarrow> do { o3 \<leftarrow> printf m undefine_msg []; Some (s, o1 @ o2 @ o3, inp, False) }) } } }"

definition cmd_start :: "mem \<Rightarrow> addr \<Rightarrow> cmd_state" where
  "cmd_start m buf =
     \<lparr> cl_mem = write_bytes m buf (replicate CMD_BUFF 0), cl_argc = 0, cl_argv = replicate V_NUM 0,
       cl_history = 11, cl_history_num = 0 \<rparr>"

text \<open>What is printed until the command \<open>exit\<close>, with the state and the characters that are left.\<close>

partial_function (option) cmd_passes :: "guess_fn \<Rightarrow> (string \<Rightarrow> addr) \<Rightarrow> addr \<Rightarrow> cmd_state \<Rightarrow> u8 list \<Rightarrow>
    (cmd_state \<times> u8 list \<times> u8 list) option" where
  "cmd_passes testguess sl buf s inp =
     do { (s, out, inp, done') \<leftarrow> cmd_pass testguess sl buf s inp;
          if done' then Some (s, out, inp)
          else do { (s, out', inp) \<leftarrow> cmd_passes testguess sl buf s inp; Some (s, out @ out', inp) } }"

declare cmd_passes.simps [code]

definition cmdloop :: "guess_fn \<Rightarrow> (string \<Rightarrow> addr) \<Rightarrow> addr \<Rightarrow> mem \<Rightarrow> u8 list \<Rightarrow> (cmd_state \<times> u8 list \<times> u8 list) option" where
  "cmdloop testguess sl buf m inp = cmd_passes testguess sl buf (cmd_start m buf) inp"

section \<open>Editing\<close>

definition printable :: "u8 \<Rightarrow> bool" where
  "printable c \<longleftrightarrow> schar c > 0x1f \<and> schar c < 0x7f"

definition erases :: "u8 \<Rightarrow> bool" where
  "erases c \<longleftrightarrow> c = 8 \<or> c = 127"

text \<open>The line that the characters make of the line \<open>l\<close>, and their echo.\<close>

fun edit :: "u8 list \<Rightarrow> u8 list \<Rightarrow> (u8 list \<times> u8 list) option" where
  "edit l [] = Some (l, [])"
| "edit l (c # cs) =
     (if printable c
      then (if length l < CMD_BUFF then do { (t, out) \<leftarrow> edit (l @ [c]) cs; Some (t, c # out) } else None)
      else if erases c \<and> l \<noteq> [] then do { (t, out) \<leftarrow> edit (butlast l) cs; Some (t, [8, 32, 8] @ out) }
      else edit l cs)"

lemma schar_consts: "schar c = 8 \<longleftrightarrow> c = 8" "schar c = 127 \<longleftrightarrow> c = 127" "schar c = 10 \<longleftrightarrow> c = 10" "schar c = 13 \<longleftrightarrow> c = 13"
proof -
  have "schar c = schar d \<longleftrightarrow> c = d" for d :: u8 by (auto intro: signed_word_eqI)
  from this [of 8] this [of 127] this [of 10] this [of 13]
  show "schar c = 8 \<longleftrightarrow> c = 8" "schar c = 127 \<longleftrightarrow> c = 127" "schar c = 10 \<longleftrightarrow> c = 10" "schar c = 13 \<longleftrightarrow> c = 13" by simp_all
qed

lemma edit_bounds: "edit l cs = Some (t, out) \<Longrightarrow> length l \<le> CMD_BUFF \<Longrightarrow> list_all printable l \<Longrightarrow>
    length t \<le> CMD_BUFF \<and> list_all printable t"
proof (induction l cs arbitrary: t out rule: edit.induct)
  case (2 l c cs)
  have b: "list_all printable (butlast l)" using 2(6) by (auto simp: list_all_iff dest: in_set_butlastD)
  consider "printable c" | "\<not> printable c" "erases c \<and> l \<noteq> []" | "\<not> printable c" "\<not> (erases c \<and> l \<noteq> [])" by blast
  then show ?case
    using 2 b by cases (auto split: if_splits bind_splits)
qed simp

lemma read_bytes_snoc: "read_bytes m a (Suc n) = read_bytes m a n @ [m (a + of_nat n)]"
  using read_bytes_append [of m a n 1] by simp

lemma butlast_bytes: "read_bytes m p (length l) = l \<Longrightarrow> l \<noteq> [] \<Longrightarrow> read_bytes m p (length (butlast l)) = butlast l"
  by (cases l rule: rev_cases) (simp_all only: length_append_singleton read_bytes_snoc butlast_snoc append1_eq_conv simp_thms)

lemma put_end:
  assumes "read_bytes m p (length l) = l" "length l < CMD_BUFF"
  shows "read_bytes (m(p + of_nat (length l) := c)) p (length (l @ [c])) = l @ [c]"
proof -
  have "read_bytes (m(p + of_nat (length l) := c)) p (length l) = l"
    using assms not_in_block_end [of "length l" p] in_block_offset
    by (subst read_bytes_upd_other) (auto simp: CMD_BUFF_def of_nat_eq_iff32)
  then show ?thesis by (simp only: length_append_singleton read_bytes_snoc) simp
qed

lemma put_behind:
  assumes "read_bytes m p (length l) = l" "length l < CMD_BUFF"
  shows "read_bytes (m(p + of_nat (length l) := c)) p (length l) = l"
  using assms by (subst read_bytes_upd_other) (auto simp: CMD_BUFF_def of_nat_eq_iff32)

lemma read_line_edit:
  assumes "edit l cs = Some (t, out)" "e = 10 \<or> e = 13" "10 \<notin> set cs" "13 \<notin> set cs"
    "read_bytes m buf (length l) = l" "length l \<le> CMD_BUFF"
  shows "\<exists>m'. read_line buf (cs @ e # rest) m (length l) = Some (m', length t, out, rest) \<and>
    read_bytes m' buf (length t) = t \<and> changed_in buf CMD_BUFF m m'"
  using assms
proof (induction l cs arbitrary: m t out rule: edit.induct)
  case (1 l)
  then show ?case by (auto simp: schar_consts)
next
  case step: (2 l c cs)
  have off: "changed_in buf CMD_BUFF m (m(buf + of_nat i := v))" if "i < CMD_BUFF" for i v
    using that by (auto simp: changed_in_def in_block_offset CMD_BUFF_def)
  consider "printable c" | "\<not> printable c" "erases c" "l \<noteq> []" | "\<not> printable c" "\<not> (erases c \<and> l \<noteq> [])" by blast
  then show ?case
  proof cases
    case 1
    then obtain t' where e: "length l < CMD_BUFF" "edit (l @ [c]) cs = Some (t, t')" "out = c # t'"
      using step.prems(1) by (auto split: if_splits bind_splits)
    have "read_bytes (m(buf + of_nat (length l) := c)) buf (length (l @ [c])) = l @ [c]"
      using put_end [OF step.prems(5) e(1)] .
    then obtain m' where "read_line buf (cs @ e # rest) (m(buf + of_nat (length l) := c)) (Suc (length l)) = Some (m', length t, t', rest)"
      "read_bytes m' buf (length t) = t" "changed_in buf CMD_BUFF (m(buf + of_nat (length l) := c)) m'"
      using step.IH(1) [OF 1 e(1,2) step.prems(2)] step.prems(3,4) e(1) by (auto simp del: read_bytes.simps)
    then show ?thesis using 1 e off [OF e(1), of c]
      by (auto simp: printable_def intro: changed_in_trans)
  next
    case 2
    note c = this
    then obtain t' where e: "edit (butlast l) cs = Some (t, t')" "out = [8, 32, 8] @ t'"
      using step.prems(1) by (auto split: bind_splits)
    have l: "length l - 1 < CMD_BUFF" "length (butlast l) \<le> CMD_BUFF" using c(3) step.prems(6) by (cases l; simp)+
    have "read_bytes (m(buf + of_nat (length l - 1) := 0)) buf (length (butlast l)) = butlast l"
      using put_behind [OF butlast_bytes [OF step.prems(5) c(3)]] l c(3) by simp
    then obtain m' where "read_line buf (cs @ e # rest) (m(buf + of_nat (length l - 1) := 0)) (length l - 1) = Some (m', length t, t', rest)"
      "read_bytes m' buf (length t) = t" "changed_in buf CMD_BUFF (m(buf + of_nat (length l - 1) := 0)) m'"
      using step.IH(2) [OF c(1) _ e(1) step.prems(2) _ _ _ l(2)] c step.prems(3,4) by auto
    then show ?thesis using c e off [OF l(1), of 0]
      by (auto simp: printable_def erases_def schar_consts putchar_def intro: changed_in_trans)
  next
    case 3
    then have "read_line buf ((c # cs) @ e # rest) m (length l) = read_line buf (cs @ e # rest) m (length l)"
      using step.prems(3,4) by (auto simp: printable_def erases_def schar_consts)
    then show ?thesis using step.IH(3) [OF 3] step.prems 3 by auto
  qed
qed

section \<open>Splitting\<close>

text \<open>The words of a text with their positions; \<open>b\<close>: a blank comes before it.\<close>

fun words_at :: "nat \<Rightarrow> bool \<Rightarrow> u8 list \<Rightarrow> (nat \<times> u8 list) list" where
  "words_at i b [] = []"
| "words_at i b (c # cs) =
     (if c = 32 then words_at (i + 1) True cs
      else if b then (i, c # takeWhile (\<lambda>c. c \<noteq> 32) cs) # words_at (i + 1) False cs
      else words_at (i + 1) False cs)"

definition words :: "u8 list \<Rightarrow> u8 list list" where
  "words t = map snd (words_at 0 True t)"

lemma words_at_sound:
  "(j, w) \<in> set (words_at i b t) \<Longrightarrow> i \<le> j \<and> j < i + length t \<and> w = takeWhile (\<lambda>c. c \<noteq> 32) (drop (j - i) t)"
proof (induction t arbitrary: i b)
  case (Cons c t)
  then show ?case by (fastforce simp: Suc_diff_le drop_Cons' split: if_splits)
qed simp

text \<open>The buffer with its blanks replaced.\<close>

abbreviation unblank :: "u8 \<Rightarrow> u8" where
  "unblank c \<equiv> (if c = 32 then 0 else c)"

definition starts :: "addr \<Rightarrow> (nat \<times> u8 list) list \<Rightarrow> addr list" where
  "starts buf ps = map (\<lambda>(j, w). buf + of_nat j) ps"

lemma split_loop_eq:
  assumes "i + length cs \<le> CMD_BUFF" "\<And>j. j < length cs \<Longrightarrow> m (buf + of_nat (i + j)) = cs ! j"
    "length argv = V_NUM" "qs = p0 # starts buf (words_at i (c0 = 32) cs)" "argc + length qs \<le> Suc V_NUM"
  shows "split_loop buf (length cs) i m argc argv p0 c0 =
    Some (write_bytes m (buf + of_nat i) (map unblank cs), argc + length (butlast qs),
      take argc argv @ butlast qs @ drop (argc + length (butlast qs)) argv, last qs, last (c0 # cs))"
  using assms
proof (induction cs arbitrary: i m argc argv p0 c0 qs)
  case Nil
  then show ?case by (simp add: starts_def)
next
  case (Cons c cs)
  let ?a = "buf + of_nat i"
  have c: "m ?a = c" using Cons.prems(2) [of 0] by simp
  have m: "(m(?a := v)) (buf + of_nat (i + 1 + j)) = cs ! j" if "j < length cs" for j v
  proof -
    have "of_nat (i + 1 + j) \<noteq> (of_nat i :: addr)"
      using that Cons.prems(1) by (subst of_nat_eq_iff32) (simp_all add: CMD_BUFF_def)
    then have "buf + of_nat (i + 1 + j) \<noteq> ?a" by simp
    then show ?thesis using Cons.prems(2) [of "Suc j"] that by simp
  qed
  have m0: "m (buf + of_nat (i + 1 + j)) = cs ! j" if "j < length cs" for j using m [OF that, of c] c by (simp add: fun_upd_idem)
  have i: "i + 1 + length cs \<le> CMD_BUFF" using Cons.prems(1) by simp
  have w: "write_bytes m ?a (map unblank (c # cs)) = write_bytes (m(?a := unblank c)) (buf + of_nat (i + 1)) (map unblank cs)"
    by (simp add: add.assoc add.commute [of 1] del: fun_upd_apply)
  consider "c = 32" | "c \<noteq> 32" "c0 = 32" | "c \<noteq> 32" "c0 \<noteq> 32" by blast
  then show ?case
  proof cases
    case 1
    have "split_loop buf (length (c # cs)) i m argc argv p0 c0 = split_loop buf (length cs) (i + 1) (m(?a := 0)) argc argv p0 c"
      using 1 c by (simp del: fun_upd_apply)
    also have "\<dots> = Some (write_bytes (m(?a := 0)) (buf + of_nat (i + 1)) (map unblank cs), argc + length (butlast qs),
        take argc argv @ butlast qs @ drop (argc + length (butlast qs)) argv, last qs, last (c # cs))"
      using 1 Cons.prems(4,5) by (intro Cons.IH [OF i m Cons.prems(3)]) simp_all
    finally show ?thesis using 1 unfolding w by (simp del: fun_upd_apply)
  next
    case 2
    define qs' where "qs' = ?a # starts buf (words_at (i + 1) False cs)"
    have qs: "qs = p0 # qs'" using 2 Cons.prems(4) by (simp add: qs'_def starts_def)
    have l: "argc < V_NUM" "argc + 1 + length qs' \<le> Suc V_NUM" "length (argv[argc := p0]) = V_NUM" "qs' \<noteq> []"
      using Cons.prems(3,5) by (simp_all add: qs qs'_def)
    have e: "Suc (argc + (length qs' - Suc 0)) = argc + length qs'" using l(4) by (cases qs') simp_all
    have t: "take (Suc argc) (argv[argc := p0]) = take argc argv @ [p0]"
      using l(1) Cons.prems(3) by (simp add: take_Suc_conv_app_nth)
    have "split_loop buf (length cs) (i + 1) m (argc + 1) (argv[argc := p0]) ?a c =
      Some (write_bytes m (buf + of_nat (i + 1)) (map unblank cs), argc + 1 + length (butlast qs'),
        take (argc + 1) (argv[argc := p0]) @ butlast qs' @ drop (argc + 1 + length (butlast qs')) (argv[argc := p0]), last qs', last (c # cs))"
      using 2 l(2) by (intro Cons.IH [OF i m0 l(3)]) (simp_all add: qs'_def)
    moreover have "m(?a := c) = m" using c by (simp add: fun_upd_idem)
    ultimately show ?thesis using 2 c l(1,4) unfolding w by (simp add: qs t e del: fun_upd_apply)
  next
    case 3
    have "split_loop buf (length (c # cs)) i m argc argv p0 c0 = split_loop buf (length cs) (i + 1) m argc argv p0 c"
      using 3 c by simp
    also have "\<dots> = Some (write_bytes m (buf + of_nat (i + 1)) (map unblank cs), argc + length (butlast qs),
        take argc argv @ butlast qs @ drop (argc + length (butlast qs)) argv, last qs, last (c # cs))"
      using 3 Cons.prems(4,5) by (intro Cons.IH [OF i m0 Cons.prems(3)]) simp_all
    moreover have "m(?a := c) = m" using c by (simp add: fun_upd_idem)
    ultimately show ?thesis using 3 unfolding w by (simp del: fun_upd_apply)
  qed
qed

text \<open>The arguments that \<open>cmdloop\<close> makes of a line: a blank in front gives an empty first argument, and
  the last word is stored only if no blank follows it.\<close>

definition line_args :: "u8 list \<Rightarrow> u8 list list" where
  "line_args t =
     (let ws = (if hd t = 32 then [[]] else []) @ words t
      in if last t = 32 then butlast ws else ws)"

definition starts_of :: "addr \<Rightarrow> u8 list \<Rightarrow> addr list" where
  "starts_of buf t = buf # starts buf (words_at 0 False t)"

lemma starts_of_args: "t \<noteq> [] \<Longrightarrow> length (if last t = 32 then butlast (starts_of buf t) else starts_of buf t) = length (line_args t)"
  by (cases t) (auto simp: starts_of_def starts_def line_args_def words_def Let_def)

lemma split_line_eq:
  assumes t: "t \<noteq> []" "length t < CMD_BUFF" "read_bytes m buf (length t) = t"
    and a: "length argv = V_NUM" "length (line_args t) \<le> V_NUM"
  shows "split_line buf (length t) m argv =
    Some (write_bytes m buf (map unblank t @ [0]), length (line_args t),
      (if last t = 32 then butlast (starts_of buf t) else starts_of buf t) @ drop (length (line_args t)) argv)"
proof -
  let ?qs = "starts_of buf t"
  have l: "length (if last t = 32 then butlast ?qs else ?qs) = length (line_args t)" by (rule starts_of_args [OF t(1)])
  have q: "?qs \<noteq> []" by (simp add: starts_of_def)
  have "split_loop buf (length t) 0 m 0 argv buf 0 =
      Some (write_bytes m (buf + of_nat 0) (map unblank t), 0 + length (butlast ?qs), take 0 argv @ butlast ?qs @ drop (0 + length (butlast ?qs)) argv,
        last ?qs, last (0 # t))"
    using t a l nth_read_bytes [of _ "length t" m buf]
    by (intro split_loop_eq) (auto simp: starts_of_def split: if_splits)
  then have s: "split_loop buf (length t) 0 m 0 argv buf 0 =
      Some (write_bytes m buf (map unblank t), length (butlast ?qs), butlast ?qs @ drop (length (butlast ?qs)) argv, last ?qs, last t)"
    using t(1) by simp
  have w: "(write_bytes m buf (map unblank t))(buf + of_nat (length t) := 0) = write_bytes m buf (map unblank t @ [0])"
    by (simp add: write_bytes_append)
  show ?thesis
  proof (cases "last t = 32")
    case True
    then show ?thesis using s l t(2) w by (simp add: split_line_def)
  next
    case False
    then have n: "length (butlast ?qs) < V_NUM" "Suc (length (butlast ?qs)) = length (line_args t)" using l a(2) length_greater_0_conv [of ?qs] q by (auto simp del: length_greater_0_conv)
    have "drop (length (butlast ?qs)) argv = argv ! length (butlast ?qs) # drop (length (line_args t)) argv"
      using n a(1) Cons_nth_drop_Suc [of "length (butlast ?qs)" argv] by (simp del: length_butlast)
    then have "(butlast ?qs @ drop (length (butlast ?qs)) argv)[length (butlast ?qs) := last ?qs] = ?qs @ drop (length (line_args t)) argv"
      using q by (simp add: list_update_append del: length_butlast)
    then show ?thesis using False s n t(2) w unfolding split_line_def by simp
  qed
qed

lemma cstr_in_bytes:
  assumes r: "read_bytes m p (length z) = z" and j: "j \<le> length z" "0 \<in> set (drop j z)"
  shows "cstr m (p + of_nat j) (takeWhile (\<lambda>c. c \<noteq> 0) (drop j z))"
proof -
  define w where "w = takeWhile (\<lambda>c. c \<noteq> 0) (drop j z)"
  have k: "length w < length (drop j z)" unfolding w_def using j(2) by (intro length_takeWhile_less) simp_all
  have "m (p + of_nat j + of_nat i) = (w @ [0]) ! i" if i: "i < Suc (length w)" for i
  proof -
    have "m (p + of_nat (j + i)) = z ! (j + i)"
      using nth_read_bytes [of "j + i" "length z" m p] r i k by simp
    also have "\<dots> = drop j z ! i" using j(1) by simp
    also have "\<dots> = (w @ [0]) ! i"
    proof (cases "i < length w")
      case True
      then show ?thesis unfolding w_def by (simp add: nth_append takeWhile_nth)
    next
      case False
      then have "i = length w" using i by simp
      then show ?thesis using k nth_length_takeWhile [of "\<lambda>c. c \<noteq> 0" "drop j z"] unfolding w_def by simp
    qed
    finally show ?thesis by (simp add: add.assoc)
  qed
  moreover have "0 \<notin> set w" by (auto simp: w_def dest: set_takeWhileD)
  ultimately show ?thesis
    unfolding w_def [symmetric] by (simp add: cstr_iff read_bytes_eq_iff del: read_bytes.simps)
qed

lemma takeWhile_unblank:
  "0 \<notin> set t \<Longrightarrow> takeWhile (\<lambda>c. c \<noteq> 0) (map unblank t @ [0]) = takeWhile (\<lambda>c. c \<noteq> 32) t"
  by (induction t) auto

lemma word_in_buffer:
  assumes "0 \<notin> set t" "length t < CMD_BUFF" "j \<le> length t"
  shows "cstr (write_bytes m buf (map unblank t @ [0])) (buf + of_nat j) (takeWhile (\<lambda>c. c \<noteq> 32) (drop j t))"
proof -
  let ?z = "map unblank t @ [0]" and ?m = "write_bytes m buf (map unblank t @ [0])"
  have "read_bytes ?m buf (length ?z) = ?z"
    using assms(2) by (intro read_write_same) (simp_all add: CMD_BUFF_def)
  moreover have d: "drop j ?z = map unblank (drop j t) @ [0]" using assms(3) by (simp add: drop_map)
  ultimately have "cstr ?m (buf + of_nat j) (takeWhile (\<lambda>c. c \<noteq> 0) (map unblank (drop j t) @ [0]))"
    using cstr_in_bytes [of ?m buf ?z j] assms(3) by simp
  moreover have "0 \<notin> set (drop j t)" using assms(1) by (meson in_set_dropD)
  ultimately show ?thesis by (simp only: takeWhile_unblank not_False_eq_True)
qed

definition arg_pairs :: "u8 list \<Rightarrow> (nat \<times> u8 list) list" where
  "arg_pairs t = (if hd t = 32 then [(0, [])] else []) @ words_at 0 True t"

lemma arg_pairs:
  assumes "t \<noteq> []"
  shows "starts_of buf t = starts buf (arg_pairs t)"
    and "line_args t = (if last t = 32 then butlast (map snd (arg_pairs t)) else map snd (arg_pairs t))"
  using assms by (cases t; auto simp: starts_of_def starts_def arg_pairs_def line_args_def words_def Let_def map_butlast)+

lemma arg_pair_string:
  assumes "t \<noteq> []" "0 \<notin> set t" "length t < CMD_BUFF" "(j, w) \<in> set (arg_pairs t)"
  shows "cstr (write_bytes m buf (map unblank t @ [0])) (buf + of_nat j) w"
proof (cases "(j, w) \<in> set (words_at 0 True t)")
  case True
  then show ?thesis using words_at_sound [OF True] word_in_buffer [OF assms(2,3), of j] by simp
next
  case False
  then have "j = 0" "w = []" "takeWhile (\<lambda>c. c \<noteq> 32) t = []"
    using assms(1,4) by (cases t; auto simp: arg_pairs_def split: if_splits)+
  then show ?thesis using word_in_buffer [OF assms(2,3), of 0] by simp
qed

lemma line_args_strings:
  assumes t: "t \<noteq> []" "0 \<notin> set t" "length t < CMD_BUFF" and i: "i < length (line_args t)"
  shows "cstr (write_bytes m buf (map unblank t @ [0])) (starts_of buf t ! i) (line_args t ! i)"
proof -
  have i': "i < length (arg_pairs t)" and a: "line_args t ! i = snd (arg_pairs t ! i)"
    using i unfolding arg_pairs(2) [OF t(1)] by (auto simp: nth_butlast split: if_splits)
  obtain j w where p: "arg_pairs t ! i = (j, w)" by fastforce
  then have "(j, w) \<in> set (arg_pairs t)" using i' by (metis nth_mem)
  from arg_pair_string [OF t this] show ?thesis
    using i' p by (simp add: arg_pairs(1) [OF t(1)] starts_def a)
qed

section \<open>The pass\<close>

text \<open>The names of the commands are in memory, outside the buffer.\<close>

definition cmd_names :: "string set" where
  "cmd_names = {''exit'', ''help'', ''guess'', ''d4''}"

lemma cmd_names_mem: "''exit'' \<in> cmd_names" "''help'' \<in> cmd_names" "''guess'' \<in> cmd_names" "''d4'' \<in> cmd_names"
  by (simp_all add: cmd_names_def)

definition names_at :: "(string \<Rightarrow> addr) \<Rightarrow> mem \<Rightarrow> addr \<Rightarrow> bool" where
  "names_at sl m buf \<longleftrightarrow>
     (\<forall>n\<in>cmd_names. sl n \<noteq> 0 \<and> cstr m (sl n) (ascii n) \<and> apart (sl n) (Suc (length (ascii n))) buf CMD_BUFF)"

lemma names_at_changed: "names_at sl m buf \<Longrightarrow> changed_in buf CMD_BUFF m m' \<Longrightarrow> names_at sl m' buf"
  unfolding names_at_def by (blast intro: cstr_changed)

lemma strcmp_name:
  assumes "cstr m s w" "names_at sl m buf" "n \<in> cmd_names"
  shows "\<exists>r. strcmp m s (sl n) = Some r \<and> (r = 0 \<longleftrightarrow> w = ascii n)"
proof -
  have c: "cstr m (sl n) (ascii n)" using assms(2,3) by (simp add: names_at_def)
  obtain r where r: "strcmp m s (sl n) = Some r" using strcmp_cstr [OF assms(1) c] by auto
  then show ?thesis using strcmp_eq_0 [OF assms(1) c] by simp
qed

text \<open>The command that a word names: its place in the table.\<close>

definition command :: "u8 list \<Rightarrow> nat option" where
  "command w =
     (if w = ascii ''help'' then Some 1 else if w = ascii ''guess'' then Some 2 else if w = ascii ''d4'' then Some 3 else None)"

lemma find_command:
  assumes w: "cstr m s w" and n: "names_at sl m buf"
  shows "find_cmd m s (drop 1 (cmd sl)) 1 = Some (case command w of Some k \<Rightarrow> (k, Some (cmd sl ! k)) | None \<Rightarrow> (4, None))"
proof -
  have z: "sl ''help'' \<noteq> 0" "sl ''guess'' \<noteq> 0" "sl ''d4'' \<noteq> 0" using n cmd_names_mem by (simp_all add: names_at_def)
  obtain a b d where "strcmp m s (sl ''help'') = Some a" "a = 0 \<longleftrightarrow> w = ascii ''help''"
     "strcmp m s (sl ''guess'') = Some b" "b = 0 \<longleftrightarrow> w = ascii ''guess''"
     "strcmp m s (sl ''d4'') = Some d" "d = 0 \<longleftrightarrow> w = ascii ''d4''"
    using strcmp_name [OF w n] cmd_names_mem by metis
  then show ?thesis using z by (simp add: cmd_def command_def del: ascii_Cons)
qed

lemma prompt: "printf m ([CHR 0x0A] @ ''$ '') [] = Some [13, 10, 36, 32]"
  by (rule printf_fmt_spec) (simp_all add: crlf_def)

lemma undefine_out: "printf m undefine_msg [] = Some (crlf (ascii undefine_msg))"
  by (rule printf_fmt_spec) (simp_all add: crlf_def undefine_msg_def)

lemma line_ready:
  assumes e: "edit [] cs = Some (t, ec)" "e = 10 \<or> e = 13" "10 \<notin> set cs" "13 \<notin> set cs"
    and t: "t \<noteq> []" "length t < CMD_BUFF" "length (line_args t) \<le> V_NUM" and a: "length argv = V_NUM"
  shows "\<exists>m1 m' argv'. read_line buf (cs @ e # rest) m 0 = Some (m1, length t, ec, rest) \<and>
    split_line buf (length t) m1 argv = Some (m', length (line_args t), argv') \<and> changed_in buf CMD_BUFF m m' \<and>
    (\<forall>i<length (line_args t). cstr m' (argv' ! i) (line_args t ! i)) \<and> drop (length (line_args t)) argv' = drop (length (line_args t)) argv \<and>
    length argv' = V_NUM"
proof -
  have z: "0 \<notin> set t" using edit_bounds [OF e(1)] by (auto simp: list_all_iff printable_def)
  obtain m1 where m1: "read_line buf (cs @ e # rest) m 0 = Some (m1, length t, ec, rest)"
      "read_bytes m1 buf (length t) = t" "changed_in buf CMD_BUFF m m1"
    using read_line_edit [OF e, of m buf rest] by auto
  let ?m = "write_bytes m1 buf (map unblank t @ [0])"
  define ps where "ps = (if last t = 32 then butlast (starts_of buf t) else starts_of buf t)"
  have l: "length ps = length (line_args t)" unfolding ps_def by (rule starts_of_args [OF t(1)])
  have "changed_in buf CMD_BUFF m1 ?m" using t(2) by (intro changed_in_write) (simp_all add: CMD_BUFF_def)
  moreover have "cstr ?m ((ps @ drop (length (line_args t)) argv) ! i) (line_args t ! i)" if "i < length (line_args t)" for i
  proof -
    have "ps ! i = starts_of buf t ! i" using that l by (auto simp: ps_def nth_butlast split: if_splits)
    then show ?thesis using line_args_strings [OF t(1) z t(2) that] that l by (simp add: nth_append)
  qed
  ultimately show ?thesis
    using m1 split_line_eq [OF t(1,2) m1(2) a t(3)] l t(3) a unfolding ps_def [symmetric]
    by (auto intro: changed_in_trans)
qed

lemma typed_line:
  "edit [] cs = Some (t, ec) \<Longrightarrow> e = 10 \<or> e = 13 \<Longrightarrow> 10 \<notin> set cs \<Longrightarrow> 13 \<notin> set cs \<Longrightarrow>
   t \<noteq> [] \<Longrightarrow> length t < CMD_BUFF \<Longrightarrow> line_args t \<noteq> [] \<Longrightarrow> length (line_args t) \<le> V_NUM \<Longrightarrow>
   length (cl_argv s) = V_NUM \<Longrightarrow> names_at sl (cl_mem s) buf \<Longrightarrow>
   \<exists>m argv. (\<forall>i<length (line_args t). cstr m (argv ! i) (line_args t ! i)) \<and> length argv = V_NUM \<and>
     (\<forall>x. \<not> in_block x buf CMD_BUFF \<longrightarrow> m x = cl_mem s x) \<and>
     cmd_pass testguess sl buf s (cs @ e # rest) =
       (let argc = length (line_args t); s' = s\<lparr>cl_mem := m, cl_argc := argc, cl_argv := argv\<rparr>; pr = [13, 10, 36, 32] @ ec
        in if hd (line_args t) = ascii ''exit'' then Some (s', pr, rest, True)
           else case command (hd (line_args t)) of
             None \<Rightarrow> Some (s', pr @ crlf (ascii undefine_msg), rest, False)
           | Some k \<Rightarrow> do { (m', out) \<leftarrow> call_cmd testguess sl (cmd_func (cmd sl ! k)) m argc argv;
                            Some (s'\<lparr>cl_mem := m', cl_history := k, cl_history_num := argc\<rparr>, pr @ out, rest, False) })"
proof -
  assume e: "edit [] cs = Some (t, ec)" "e = 10 \<or> e = 13" "10 \<notin> set cs" "13 \<notin> set cs"
    and t: "t \<noteq> []" "length t < CMD_BUFF" and w: "line_args t \<noteq> []" and v: "length (line_args t) \<le> V_NUM"
    and a: "length (cl_argv s) = V_NUM" and n: "names_at sl (cl_mem s) buf"
  obtain m1 m argv where r: "read_line buf (cs @ e # rest) (cl_mem s) 0 = Some (m1, length t, ec, rest)"
      "split_line buf (length t) m1 (cl_argv s) = Some (m, length (line_args t), argv)" "changed_in buf CMD_BUFF (cl_mem s) m"
      "\<forall>i<length (line_args t). cstr m (argv ! i) (line_args t ! i)" "length argv = V_NUM"
    using line_ready [OF e t v a] by blast
  have c: "cstr m (argv ! 0) (hd (line_args t))" using r(4) w by (cases "line_args t") auto
  note nm = names_at_changed [OF n r(3)]
  obtain x where x: "strcmp m (argv ! 0) (sl ''exit'') = Some x" "x = 0 \<longleftrightarrow> hd (line_args t) = ascii ''exit''"
    using strcmp_name [OF c nm cmd_names_mem(1)] by blast
  have nz: "cmd_repeat (cmd sl ! k) \<noteq> 0" if "command u = Some k" for u k
    using that by (auto simp: command_def cmd_def split: if_splits)
  have x0: "strcmp m (argv ! 0) (cmdname (cmd sl ! 0)) = Some x" using x(1) by (simp add: cmd_def)
  define s' where "s' = s\<lparr>cl_mem := m, cl_argc := length (line_args t), cl_argv := argv\<rparr>"
  have p: "cmd_pass testguess sl buf s (cs @ e # rest) =
      (if x = 0 then Some (s', [13, 10, 36, 32] @ ec, rest, True)
       else case command (hd (line_args t)) of
         None \<Rightarrow> Some (s', [13, 10, 36, 32] @ ec @ crlf (ascii undefine_msg), rest, False)
       | Some k \<Rightarrow> do { (m', out) \<leftarrow> call_cmd testguess sl (cmd_func (cmd sl ! k)) m (length (line_args t)) argv;
                        Some (s'\<lparr>cl_mem := m', cl_history := k, cl_history_num := length (line_args t)\<rparr>, [13, 10, 36, 32] @ ec @ out, rest, False) })"
    using t(1) nz unfolding cmd_pass_def prompt Option.bind.simps r(1,2) prod.case Let_def
    by (simp add: x0 find_command [OF c nm, unfolded One_nat_def] undefine_out s'_def split: option.splits)
  show ?thesis
    using r p x(2) unfolding changed_in_def s'_def Let_def
    by (intro exI [of _ m] exI [of _ argv]) (auto split: option.splits)
qed


text \<open>\<open>typed_as cs e w ec\<close>: the characters \<open>cs\<close> and the end \<open>e\<close> make a line with the first argument \<open>w\<close>, and
  \<open>ec\<close> is their echo.\<close>

definition typed_as :: "u8 list \<Rightarrow> u8 \<Rightarrow> u8 list \<Rightarrow> u8 list \<Rightarrow> bool" where
  "typed_as cs e w ec \<longleftrightarrow>
     (\<exists>t. edit [] cs = Some (t, ec) \<and> (e = 10 \<or> e = 13) \<and> 10 \<notin> set cs \<and> 13 \<notin> set cs \<and> t \<noteq> [] \<and> length t < CMD_BUFF \<and>
        line_args t \<noteq> [] \<and> length (line_args t) \<le> V_NUM \<and> hd (line_args t) = w)"

lemma pass_of_line:
  assumes "typed_as cs e w ec" "length (cl_argv s) = V_NUM" "names_at sl (cl_mem s) buf" "command w = None"
  shows "\<exists>s'. cmd_pass testguess sl buf s (cs @ e # rest) =
      Some (s', [13, 10, 36, 32] @ ec @ (if w = ascii ''exit'' then [] else crlf (ascii undefine_msg)), rest, w = ascii ''exit'') \<and>
    length (cl_argv s') = V_NUM \<and> names_at sl (cl_mem s') buf"
proof -
  obtain t where t: "edit [] cs = Some (t, ec)" "e = 10 \<or> e = 13" "10 \<notin> set cs" "13 \<notin> set cs" "t \<noteq> []" "length t < CMD_BUFF"
      "line_args t \<noteq> []" "length (line_args t) \<le> V_NUM" "hd (line_args t) = w"
    using assms(1) unfolding typed_as_def by blast
  obtain m argv where m: "length argv = V_NUM" "changed_in buf CMD_BUFF (cl_mem s) m" "cmd_pass testguess sl buf s (cs @ e # rest) =
      (let argc = length (line_args t); s' = s\<lparr>cl_mem := m, cl_argc := argc, cl_argv := argv\<rparr>; pr = [13, 10, 36, 32] @ ec
        in if w = ascii ''exit'' then Some (s', pr, rest, True)
           else case command w of
             None \<Rightarrow> Some (s', pr @ crlf (ascii undefine_msg), rest, False)
           | Some k \<Rightarrow> do { (m', out) \<leftarrow> call_cmd testguess sl (cmd_func (cmd sl ! k)) m argc argv;
                            Some (s'\<lparr>cl_mem := m', cl_history := k, cl_history_num := argc\<rparr>, pr @ out, rest, False) })"
    using typed_line [OF t(1-8) assms(2,3), of testguess rest] unfolding t(9) changed_in_def by auto
  with names_at_changed [OF assms(3) m(2)] show ?thesis
    using assms(4) by (simp add: Let_def del: ascii_Cons)
qed

section \<open>Properties\<close>

text \<open>C15: a typed line.  The characters are edited and echoed; the arguments are the words of the edited
  line, each a terminated string in the buffer; the command that the first of them names is called with
  them, \<open>exit\<close> ends the loop, and any other word is reported.\<close>

theorem typed_command:
  "edit [] cs = Some (t, ec) \<Longrightarrow> e = 10 \<or> e = 13 \<Longrightarrow> 10 \<notin> set cs \<Longrightarrow> 13 \<notin> set cs \<Longrightarrow>
   t \<noteq> [] \<Longrightarrow> length t < CMD_BUFF \<Longrightarrow> line_args t \<noteq> [] \<Longrightarrow> length (line_args t) \<le> V_NUM \<Longrightarrow>
   length (cl_argv s) = V_NUM \<Longrightarrow> names_at sl (cl_mem s) buf \<Longrightarrow>
   \<exists>m argv. (\<forall>i<length (line_args t). cstr m (argv ! i) (line_args t ! i)) \<and> length argv = V_NUM \<and>
     (\<forall>x. \<not> in_block x buf CMD_BUFF \<longrightarrow> m x = cl_mem s x) \<and>
     cmd_pass testguess sl buf s (cs @ e # rest) =
       (let argc = length (line_args t); s' = s\<lparr>cl_mem := m, cl_argc := argc, cl_argv := argv\<rparr>; pr = [13, 10, 36, 32] @ ec
        in if hd (line_args t) = ascii ''exit'' then Some (s', pr, rest, True)
           else case command (hd (line_args t)) of
             None \<Rightarrow> Some (s', pr @ crlf (ascii undefine_msg), rest, False)
           | Some k \<Rightarrow> do { (m', out) \<leftarrow> call_cmd testguess sl (cmd_func (cmd sl ! k)) m argc argv;
                            Some (s'\<lparr>cl_mem := m', cl_history := k, cl_history_num := argc\<rparr>, pr @ out, rest, False) })"
  by (rule typed_line)

text \<open>The names in a memory, for the instances.\<close>

definition demo_sl :: "string \<Rightarrow> addr" where
  "demo_sl s = (if s = ''exit'' then 1000 else if s = ''help'' then 1008 else if s = ''guess'' then 1016 else 1024)"

definition demo_mem :: mem where
  "demo_mem = write_bytes (write_bytes (write_bytes (write_bytes (\<lambda>_. 0) 1000 (ascii ''exit'')) 1008 (ascii ''help''))
     1016 (ascii ''guess'')) 1024 (ascii ''d4'')"

lemma demo_names: "names_at demo_sl demo_mem 100"
proof -
  have "apart a k 100 CMD_BUFF" if "k \<le> 100" "a = 1000 \<or> a = 1008 \<or> a = 1016 \<or> a = 1024" for a k
    using that by (intro apart_after) (auto simp: CMD_BUFF_def)
  then show ?thesis by (simp add: names_at_def cmd_names_def demo_sl_def demo_mem_def)
qed

lemma demo_start: "names_at demo_sl (cl_mem (cmd_start demo_mem 100)) 100" "length (cl_argv (cmd_start demo_mem 100)) = V_NUM"
  using names_at_changed [OF demo_names] by (simp_all add: cmd_start_def changed_in_write CMD_BUFF_def)

lemma printable_numeral: "printable (numeral n) \<longleftrightarrow> schar (numeral n) > 0x1f \<and> schar (numeral n) < 0x7f"
  by (simp add: printable_def)

lemma typed_command_witness:
  "\<exists>m argv. cstr m (argv ! 0) (ascii ''exit'') \<and>
     cmd_pass (\<lambda>_ _ _. None) demo_sl 100 (cmd_start demo_mem 100) ([101, 120, 120, 8, 105, 116] @ [10]) =
       Some ((cmd_start demo_mem 100)\<lparr>cl_mem := m, cl_argc := 1, cl_argv := argv\<rparr>,
             [13, 10, 36, 32, 101, 120, 120, 8, 32, 8, 105, 116], [], True)"
proof -
  have e: "edit [] [101, 120, 120, 8, 105, 116] = Some ([101, 120, 105, 116], [101, 120, 120, 8, 32, 8, 105, 116])"
    by (simp add: printable_numeral erases_def CMD_BUFF_def)
  have l: "line_args [101, 120, 105, 116] = [[101, 120, 105, 116]]"
    by (simp add: line_args_def words_def)
  show ?thesis
    using typed_command [OF e _ _ _ _ _ _ _ demo_start(2,1), of 10 "\<lambda>_ _ _. None" "[]"]
    by (auto simp: l CMD_BUFF_def V_NUM_def Let_def simp del: cstr.simps)
qed

text \<open>C16: a session of lines with unknown commands and the line \<open>exit\<close> ends: \<open>cmdloop\<close> returns, has echoed
  each line behind a prompt and reported each unknown command, and leaves what was typed after it.\<close>

theorem session_ends:
  "(\<And>cs e w ec. (cs, e, w, ec) \<in> set ls \<Longrightarrow> typed_as cs e w ec \<and> w \<noteq> ascii ''exit'' \<and> command w = None) \<Longrightarrow>
   typed_as cs0 e0 (ascii ''exit'') ec0 \<Longrightarrow> names_at sl m buf \<Longrightarrow>
   \<exists>s'. cmdloop testguess sl buf m (concat (map (\<lambda>(cs, e, w, ec). cs @ [e]) ls) @ cs0 @ e0 # rest) =
     Some (s', concat (map (\<lambda>(cs, e, w, ec). [13, 10, 36, 32] @ ec @ crlf (ascii undefine_msg)) ls) @ [13, 10, 36, 32] @ ec0, rest)"
proof -
  assume ls: "\<And>cs e w ec. (cs, e, w, ec) \<in> set ls \<Longrightarrow> typed_as cs e w ec \<and> w \<noteq> ascii ''exit'' \<and> command w = None"
    and x: "typed_as cs0 e0 (ascii ''exit'') ec0" and n: "names_at sl m buf"
  have xc: "command (ascii ''exit'') = None" by (simp add: command_def)
  have "\<exists>s'. cmd_passes testguess sl buf s (concat (map (\<lambda>(cs, e, w, ec). cs @ [e]) ls) @ cs0 @ e0 # rest) =
     Some (s', concat (map (\<lambda>(cs, e, w, ec). [13, 10, 36, 32] @ ec @ crlf (ascii undefine_msg)) ls) @ [13, 10, 36, 32] @ ec0, rest)"
    if "length (cl_argv s) = V_NUM" "names_at sl (cl_mem s) buf" for s
    using that ls
  proof (induction ls arbitrary: s)
    case Nil
    obtain s' where "cmd_pass testguess sl buf s (cs0 @ e0 # rest) = Some (s', [13, 10, 36, 32] @ ec0, rest, True)"
      using pass_of_line [OF x Nil(1,2) xc, of testguess rest] by auto
    then show ?case by (subst cmd_passes.simps) simp
  next
    case (Cons l ls)
    obtain cs e w ec where l: "l = (cs, e, w, ec)" by (cases l)
    then have k: "typed_as cs e w ec" "w \<noteq> ascii ''exit''" "command w = None" using Cons.prems(3) by auto
    let ?inp = "concat (map (\<lambda>(cs, e, w, ec). cs @ [e]) ls) @ cs0 @ e0 # rest"
    obtain s1 where s1: "cmd_pass testguess sl buf s (cs @ e # ?inp) = Some (s1, [13, 10, 36, 32] @ ec @ crlf (ascii undefine_msg), ?inp, False)"
        "length (cl_argv s1) = V_NUM" "names_at sl (cl_mem s1) buf"
      using pass_of_line [OF k(1) Cons.prems(1,2) k(3), of testguess ?inp] k(2) by (auto simp del: ascii_Cons)
    obtain s' where "cmd_passes testguess sl buf s1 ?inp =
        Some (s', concat (map (\<lambda>(cs, e, w, ec). [13, 10, 36, 32] @ ec @ crlf (ascii undefine_msg)) ls) @ [13, 10, 36, 32] @ ec0, rest)"
      using Cons.IH [OF s1(2,3)] Cons.prems(3) by (meson list.set_intros(2))
    then show ?case using s1(1) unfolding l by (subst cmd_passes.simps) (simp del: ascii_Cons)
  qed
  moreover have "changed_in buf CMD_BUFF m (cl_mem (cmd_start m buf))"
    unfolding cmd_start_def by (simp add: changed_in_write CMD_BUFF_def)
  ultimately show ?thesis
    using names_at_changed [OF n] unfolding cmdloop_def by (simp add: cmd_start_def del: ascii_Cons)
qed

lemma session_ends_witness:
  "\<exists>s'. cmdloop (\<lambda>_ _ _. None) demo_sl 100 demo_mem (([108, 115] @ [13]) @ [101, 120, 105, 116] @ 10 # []) =
     Some (s', ([13, 10, 36, 32] @ [108, 115] @ crlf (ascii undefine_msg)) @ [13, 10, 36, 32] @ [101, 120, 105, 116], [])"
proof -
  have l: "typed_as [108, 115] 13 [108, 115] [108, 115]"
    by (simp add: typed_as_def printable_numeral CMD_BUFF_def V_NUM_def line_args_def words_def)
  have x: "typed_as [101, 120, 105, 116] 10 (ascii ''exit'') [101, 120, 105, 116]"
    by (simp add: typed_as_def printable_numeral CMD_BUFF_def V_NUM_def line_args_def words_def)
  show ?thesis
    using session_ends [OF _ x demo_names, of "[([108, 115], 13, [108, 115], [108, 115])]" "\<lambda>_ _ _. None" "[]"] l
    by (simp add: command_def)
qed

lemma words_at_block: "32 \<notin> set w \<Longrightarrow> words_at i False (w @ [32]) = []"
  by (induction w arbitrary: i) auto

lemma takeWhile_block: "32 \<notin> set w \<Longrightarrow> takeWhile (\<lambda>c. c \<noteq> 32) (w @ [32 :: u8]) = w"
  by (induction w) auto

lemma line_args_trailing: "32 \<notin> set w \<Longrightarrow> w \<noteq> [] \<Longrightarrow> line_args (w @ [32]) = []"
  by (cases w) (auto simp: line_args_def words_def words_at_block Let_def)

lemma edit_full: "list_all printable cs \<Longrightarrow> length l \<le> CMD_BUFF \<Longrightarrow> CMD_BUFF < length l + length cs \<Longrightarrow>
   read_line buf (cs @ rest) m (length (l :: u8 list)) = None"
proof (induction cs arbitrary: l m)
  case (Cons c cs)
  show ?case
  proof (cases "length l < CMD_BUFF")
    case True
    then have "read_line buf (cs @ rest) (m(buf + of_nat (length l) := c)) (length (l @ [c])) = None"
      using Cons.prems by (intro Cons.IH) auto
    then show ?thesis using Cons.prems by (simp add: printable_def)
  next
    case False
    then show ?thesis using Cons.prems by (simp add: printable_def)
  qed
qed simp

text \<open>C17: where the command line loses its line.  A word with a blank behind it gives no argument, and
  \<open>argv\<close> keeps what it had (at first a null pointer, which \<open>strcmp\<close> then reads); the 65th character of a line is
  stored behind \<open>cmdbuffer\<close>.\<close>

theorem line_limits:
  "w \<noteq> [] \<Longrightarrow> 32 \<notin> set w \<Longrightarrow> length w < 63 \<Longrightarrow> read_bytes m buf (Suc (length w)) = w @ [32] \<Longrightarrow> length argv = V_NUM \<Longrightarrow>
   list_all printable cs \<Longrightarrow> 64 < length cs \<Longrightarrow>
   (\<exists>m'. split_line buf (Suc (length w)) m argv = Some (m', 0, argv)) \<and> read_line buf (cs @ rest) m 0 = None"
proof -
  assume w: "w \<noteq> []" "32 \<notin> set w" "length w < 63" and r: "read_bytes m buf (Suc (length w)) = w @ [32]" and a: "length argv = V_NUM"
    and cs: "list_all printable cs" "64 < length cs"
  have la: "line_args (w @ [32]) = []" by (rule line_args_trailing [OF w(2,1)])
  have "split_line buf (length (w @ [32])) m argv = Some (write_bytes m buf (map unblank (w @ [32]) @ [0]), length (line_args (w @ [32])),
      (if last (w @ [32]) = 32 then butlast (starts_of buf (w @ [32])) else starts_of buf (w @ [32])) @ drop (length (line_args (w @ [32]))) argv)"
    using w(3) r a la by (intro split_line_eq) (simp_all add: CMD_BUFF_def del: read_bytes.simps)
  moreover have "length (if last (w @ [32]) = 32 then butlast (starts_of buf (w @ [32])) else starts_of buf (w @ [32])) = 0"
    using starts_of_args [of "w @ [32]" buf] la by simp
  ultimately have "split_line buf (Suc (length w)) m argv = Some (write_bytes m buf (map unblank (w @ [32]) @ [0]), 0, argv)"
    by (simp add: la del: length_butlast)
  moreover have "read_line buf (cs @ rest) m (length ([] :: u8 list)) = None"
    using cs by (intro edit_full) (simp_all add: CMD_BUFF_def)
  ultimately show ?thesis by simp
qed

lemma line_limits_witness:
  "(\<exists>m'. split_line 100 (Suc (length [100, 52 :: u8])) (write_bytes (\<lambda>_. 0) 100 [100, 52, 32]) (replicate 8 0) = Some (m', 0, replicate 8 0)) \<and>
   read_line 100 (replicate 65 97 @ [13]) (write_bytes (\<lambda>_. 0) 100 [100, 52, 32]) 0 = None"
  using line_limits [of "[100, 52]" "write_bytes (\<lambda>_. 0) 100 [100, 52, 32]" 100 "replicate 8 0" "replicate 65 97" "[13]"]
  by (simp add: V_NUM_def printable_numeral list_all_iff)

end
