(* ===== verification/Cache.thy ===== *)
theory Cache
  imports CBase
begin

text \<open>
  The maintenance of the caches: \<^verbatim>\<open>lib/cache.c\<close> over the functions of
  \<^verbatim>\<open>include/asm/r4kcache.h\<close>, as the sequence of \<open>cache\<close> instructions they execute, each with its operation
  and its address.  The macros that generate functions are definitions with the macro's arguments; the
  instances are those of the file at a line of 32 bytes.  The build has no \<open>CONFIG_MIPS_MT\<close>, and the
  prologues and epilogues are empty.  Shown: a range is covered line by line, each line once; the whole cache
  is its 512 indices; an empty range is not empty.
\<close>

unbundle bit_operations_syntax

section \<open>Single lines\<close>

datatype cache_code = Index_Invalidate_I | Index_Writeback_Inv_D | Index_Writeback_Inv_SD | Hit_Invalidate_I
  | Hit_Invalidate_D | Hit_Invalidate_SD | Hit_Writeback_Inv_D | Hit_Writeback_Inv_SD | Page_Invalidate_T

type_synonym cache_ops = "(cache_code \<times> addr) list"

definition cache_op :: "cache_code \<Rightarrow> addr \<Rightarrow> cache_ops" where
  "cache_op op addr = [(op, addr)]"

definition protected_cache_op :: "cache_code \<Rightarrow> addr \<Rightarrow> cache_ops" where
  "protected_cache_op op addr = [(op, addr)]"

definition flush_icache_line_indexed :: "addr \<Rightarrow> cache_ops" where
  "flush_icache_line_indexed addr = cache_op Index_Invalidate_I addr"
definition flush_dcache_line_indexed :: "addr \<Rightarrow> cache_ops" where
  "flush_dcache_line_indexed addr = cache_op Index_Writeback_Inv_D addr"
definition flush_scache_line_indexed :: "addr \<Rightarrow> cache_ops" where
  "flush_scache_line_indexed addr = cache_op Index_Writeback_Inv_SD addr"
definition flush_icache_line :: "addr \<Rightarrow> cache_ops" where
  "flush_icache_line addr = cache_op Hit_Invalidate_I addr"
definition flush_dcache_line :: "addr \<Rightarrow> cache_ops" where
  "flush_dcache_line addr = cache_op Hit_Writeback_Inv_D addr"
definition invalidate_dcache_line :: "addr \<Rightarrow> cache_ops" where
  "invalidate_dcache_line addr = cache_op Hit_Invalidate_D addr"
definition invalidate_scache_line :: "addr \<Rightarrow> cache_ops" where
  "invalidate_scache_line addr = cache_op Hit_Invalidate_SD addr"
definition flush_scache_line :: "addr \<Rightarrow> cache_ops" where
  "flush_scache_line addr = cache_op Hit_Writeback_Inv_SD addr"
definition protected_flush_icache_line :: "addr \<Rightarrow> cache_ops" where
  "protected_flush_icache_line addr = protected_cache_op Hit_Invalidate_I addr"
definition protected_writeback_dcache_line :: "addr \<Rightarrow> cache_ops" where
  "protected_writeback_dcache_line addr = protected_cache_op Hit_Writeback_Inv_D addr"
definition protected_writeback_scache_line :: "addr \<Rightarrow> cache_ops" where
  "protected_writeback_scache_line addr = protected_cache_op Hit_Writeback_Inv_SD addr"
definition invalidate_tcache_page :: "addr \<Rightarrow> cache_ops" where
  "invalidate_tcache_page addr = cache_op Page_Invalidate_T addr"

section \<open>Whole caches\<close>

text \<open>32 lines in a row, at the offsets that the assembler writes out.\<close>

definition cache16_unroll32 :: "addr \<Rightarrow> cache_code \<Rightarrow> cache_ops" where
  "cache16_unroll32 base op = map (\<lambda>k. (op, base + 0x10 * of_nat k)) [0..<32]"
definition cache32_unroll32 :: "addr \<Rightarrow> cache_code \<Rightarrow> cache_ops" where
  "cache32_unroll32 base op = map (\<lambda>k. (op, base + 0x20 * of_nat k)) [0..<32]"
definition cache64_unroll32 :: "addr \<Rightarrow> cache_code \<Rightarrow> cache_ops" where
  "cache64_unroll32 base op = map (\<lambda>k. (op, base + 0x40 * of_nat k)) [0..<32]"
definition cache128_unroll32 :: "addr \<Rightarrow> cache_code \<Rightarrow> cache_ops" where
  "cache128_unroll32 base op = map (\<lambda>k. (op, base + 0x80 * of_nat k)) [0..<32]"

definition INDEX_BASE :: addr where "INDEX_BASE = 0x80000000"
definition PAGE_SIZE :: u32 where "PAGE_SIZE = push_bit 14 1"

text \<open>What a \<open>desc\<close> names: \<open>waysize\<close>, \<open>waybit\<close>, \<open>ways\<close>.  Both caches have the same.\<close>

record cache_desc =
  waysize :: u32
  waybit :: nat
  ways :: u32

definition dcache :: cache_desc where
  "dcache = \<lparr> waysize = 0x1000, waybit = 12, ways = 4 \<rparr>"
definition icache :: cache_desc where
  "icache = \<lparr> waysize = 0x1000, waybit = 12, ways = 4 \<rparr>"

text \<open>\<^verbatim>\<open>for (addr = start; addr < end; addr += step)\<close>, which does not end if \<open>addr\<close> wraps around.\<close>

partial_function (option) for_addr :: "addr \<Rightarrow> u32 \<Rightarrow> addr \<Rightarrow> (addr \<Rightarrow> cache_ops option) \<Rightarrow> cache_ops option" where
  "for_addr end' step addr f =
     (if addr < end' then do { o1 \<leftarrow> f addr; o2 \<leftarrow> for_addr end' step (addr + step) f; Some (o1 @ o2) } else Some [])"

declare for_addr.simps [code]

text \<open>\<open>__BUILD_BLAST_CACHE\<close>: the functions for the whole cache, for a page, and for the indices of a page.\<close>

definition blast_indices :: "cache_desc \<Rightarrow> (addr \<Rightarrow> cache_code \<Rightarrow> cache_ops) \<Rightarrow> cache_code \<Rightarrow> u32 \<Rightarrow> addr \<Rightarrow> addr \<Rightarrow> cache_ops option" where
  "blast_indices desc unroll indexop lsize start end' =
     (let ws_inc = push_bit (waybit desc) 1; ws_end = push_bit (waybit desc) (ways desc)
      in for_addr ws_end ws_inc 0 (\<lambda>ws. for_addr end' (lsize * 32) start (\<lambda>addr. Some (unroll (addr OR ws) indexop))))"

definition blast_cache :: "cache_desc \<Rightarrow> (addr \<Rightarrow> cache_code \<Rightarrow> cache_ops) \<Rightarrow> cache_code \<Rightarrow> u32 \<Rightarrow> cache_ops option" where
  "blast_cache desc unroll indexop lsize = blast_indices desc unroll indexop lsize INDEX_BASE (INDEX_BASE + waysize desc)"

partial_function (option) blast_page_loop ::
    "(addr \<Rightarrow> cache_code \<Rightarrow> cache_ops) \<Rightarrow> cache_code \<Rightarrow> u32 \<Rightarrow> addr \<Rightarrow> addr \<Rightarrow> cache_ops option" where
  "blast_page_loop unroll hitop lsize end' start =
     (let o1 = unroll start hitop; start = start + lsize * 32
      in if start < end' then do { o2 \<leftarrow> blast_page_loop unroll hitop lsize end' start; Some (o1 @ o2) } else Some o1)"

declare blast_page_loop.simps [code]

definition blast_cache_page :: "(addr \<Rightarrow> cache_code \<Rightarrow> cache_ops) \<Rightarrow> cache_code \<Rightarrow> u32 \<Rightarrow> addr \<Rightarrow> cache_ops option" where
  "blast_cache_page unroll hitop lsize page = blast_page_loop unroll hitop lsize (page + PAGE_SIZE) page"

definition blast_cache_page_indexed ::
    "cache_desc \<Rightarrow> (addr \<Rightarrow> cache_code \<Rightarrow> cache_ops) \<Rightarrow> cache_code \<Rightarrow> u32 \<Rightarrow> addr \<Rightarrow> cache_ops option" where
  "blast_cache_page_indexed desc unroll indexop lsize page =
     (let indexmask = waysize desc - 1; start = INDEX_BASE + (page AND indexmask)
      in blast_indices desc unroll indexop lsize start (start + PAGE_SIZE))"

definition blast_dcache32 :: "cache_ops option" where
  "blast_dcache32 = blast_cache dcache cache32_unroll32 Index_Writeback_Inv_D 32"
definition blast_icache32 :: "cache_ops option" where
  "blast_icache32 = blast_cache icache cache32_unroll32 Index_Invalidate_I 32"

section \<open>Ranges\<close>

text \<open>\<open>__BUILD_BLAST_CACHE_RANGE\<close>.\<close>

partial_function (option) blast_range_loop ::
    "(cache_code \<Rightarrow> addr \<Rightarrow> cache_ops) \<Rightarrow> cache_code \<Rightarrow> u32 \<Rightarrow> addr \<Rightarrow> addr \<Rightarrow> cache_ops option" where
  "blast_range_loop prot_op hitop lsize aend addr =
     (let o1 = prot_op hitop addr
      in if addr = aend then Some o1
         else do { o2 \<leftarrow> blast_range_loop prot_op hitop lsize aend (addr + lsize); Some (o1 @ o2) })"

declare blast_range_loop.simps [code]

definition blast_range :: "(cache_code \<Rightarrow> addr \<Rightarrow> cache_ops) \<Rightarrow> cache_code \<Rightarrow> u32 \<Rightarrow> addr \<Rightarrow> addr \<Rightarrow> cache_ops option" where
  "blast_range prot_op hitop lsize start end' =
     blast_range_loop prot_op hitop lsize ((end' - 1) AND NOT (lsize - 1)) (start AND NOT (lsize - 1))"

definition protected_blast_dcache_range :: "addr \<Rightarrow> addr \<Rightarrow> cache_ops option" where
  "protected_blast_dcache_range = blast_range protected_cache_op Hit_Writeback_Inv_D 32"
definition protected_blast_scache_range :: "addr \<Rightarrow> addr \<Rightarrow> cache_ops option" where
  "protected_blast_scache_range = blast_range protected_cache_op Hit_Writeback_Inv_SD 32"
definition protected_blast_icache_range :: "addr \<Rightarrow> addr \<Rightarrow> cache_ops option" where
  "protected_blast_icache_range = blast_range protected_cache_op Hit_Invalidate_I 32"
definition blast_dcache_range :: "addr \<Rightarrow> addr \<Rightarrow> cache_ops option" where
  "blast_dcache_range = blast_range cache_op Hit_Writeback_Inv_D 32"
definition blast_scache_range :: "addr \<Rightarrow> addr \<Rightarrow> cache_ops option" where
  "blast_scache_range = blast_range cache_op Hit_Writeback_Inv_SD 32"
definition blast_inv_dcache_range :: "addr \<Rightarrow> addr \<Rightarrow> cache_ops option" where
  "blast_inv_dcache_range = blast_range cache_op Hit_Invalidate_D 32"
definition blast_inv_scache_range :: "addr \<Rightarrow> addr \<Rightarrow> cache_ops option" where
  "blast_inv_scache_range = blast_range cache_op Hit_Invalidate_SD 32"

section \<open>cache.c\<close>

definition dcache_size :: u32 where "dcache_size = 0x4000"
definition icache_size :: u32 where "icache_size = 0x4000"

definition dma_cache_wback_inv :: "addr \<Rightarrow> u32 \<Rightarrow> cache_ops option" where
  "dma_cache_wback_inv addr size' =
     (if size' \<ge> dcache_size then blast_dcache32 else blast_dcache_range addr (addr + size'))"

definition dma_cache_inv :: "addr \<Rightarrow> u32 \<Rightarrow> cache_ops option" where
  "dma_cache_inv addr size' =
     (if size' \<ge> dcache_size then blast_dcache32
      else let lsize = 32; almask = NOT (lsize - 1)
           in do { o3 \<leftarrow> blast_inv_dcache_range addr (addr + size');
                   Some (cache_op Hit_Writeback_Inv_D (addr AND almask) @
                     cache_op Hit_Writeback_Inv_D ((addr + size' - 1) AND almask) @ o3) })"

definition flush_icache_range :: "addr \<Rightarrow> addr \<Rightarrow> cache_ops option" where
  "flush_icache_range start end' =
     do { o1 \<leftarrow> (if end' - start \<ge> dcache_size then blast_dcache32 else protected_blast_dcache_range start end');
          o2 \<leftarrow> (if end' - start > icache_size then blast_icache32 else protected_blast_icache_range start end');
          Some (o1 @ o2) }"

section \<open>Lines\<close>

definition line :: "addr \<Rightarrow> addr" where
  "line a = a AND NOT 31"

lemma line_unat: "unat (line a) = 32 * (unat a div 32)"
proof -
  have "(31 :: addr) = mask 5" by (simp add: mask_eq_exp_minus_1)
  then have "line a = a AND NOT (mask 5)" by (simp only: line_def)
  also have "\<dots> = push_bit 5 (drop_bit 5 a)"
    by (rule bit_word_eqI) (auto simp only: bit_and_iff bit_not_iff bit_mask_iff bit_push_bit_iff bit_drop_bit_eq comp_def possible_bit_word
        le_add_diff_inverse not_less)
  finally have "line a = push_bit 5 (drop_bit 5 a)" .
  then have "line a + take_bit 5 a = a" by (simp add: bits_ident)
  then have l: "line a = a - take_bit 5 a" by (simp add: eq_diff_eq)
  have "unat (take_bit 5 a) = unat a mod 32" by (simp add: take_bit_eq_mod unat_mod)
  moreover have "take_bit 5 a \<le> a" by (simp add: word_le_nat_alt calculation)
  ultimately have "unat (line a) = unat a - unat a mod 32" unfolding l by (simp add: unat_sub)
  then show ?thesis by (simp add: minus_mod_eq_mult_div)
qed

text \<open>The lines of the bytes from \<open>a\<close> to \<open>b\<close>.\<close>

definition lines :: "addr \<Rightarrow> addr \<Rightarrow> addr list" where
  "lines a b = map (\<lambda>k. of_nat (32 * k)) [unat a div 32..<Suc (unat b div 32)]"

lemma lines_distinct: "distinct (lines a b)"
proof -
  have "inj_on (\<lambda>k. of_nat (32 * k) :: addr) {unat a div 32..<Suc (unat b div 32)}"
  proof (rule inj_onI)
    fix i j assume "i \<in> {unat a div 32..<Suc (unat b div 32)}" "j \<in> {unat a div 32..<Suc (unat b div 32)}"
      and e: "(of_nat (32 * i) :: addr) = of_nat (32 * j)"
    then have "32 * i < 4294967296" "32 * j < 4294967296"
      using unsigned_less [of b, where 'a = nat] by auto
    then show "i = j" using e of_nat_eq_iff32 [of "32 * i" "32 * j"] by simp
  qed
  then show ?thesis by (simp add: lines_def distinct_map del: upt_Suc)
qed

lemma line_of_nat: "line a = of_nat (32 * (unat a div 32))"
proof -
  have "line a = of_nat (unat (line a))" by simp
  then show ?thesis by (simp only: line_unat)
qed

lemma lines_set: "a \<le> b \<Longrightarrow> set (lines a b) = {line x | x. a \<le> x \<and> x \<le> b}"
proof (intro set_eqI iffI)
  fix l assume ab: "a \<le> b" and "l \<in> set (lines a b)"
  then obtain k where k: "l = of_nat (32 * k)" "unat a div 32 \<le> k" "k \<le> unat b div 32" by (auto simp: lines_def)
  have kb: "32 * k \<le> unat b" using k(3) by linarith
  then have kl: "32 * k < 4294967296" using unsigned_less [of b, where 'a = nat] by auto
  define x where "x = (if unat a \<le> 32 * k then of_nat (32 * k) else a)"
  have u: "unat (of_nat (32 * k) :: addr) = 32 * k" using kl by (rule unat_of_nat32)
  have xu: "unat x = (if unat a \<le> 32 * k then 32 * k else unat a)" unfolding x_def using u by simp
  have "a \<le> x" "x \<le> b" using ab kb unfolding word_le_nat_alt xu by simp_all
  moreover have "unat x = max (unat a) (32 * k)" using xu by (simp add: max_def)
  then have "unat x div 32 = k" using k(2) by (simp add: max_def) linarith
  then have "line x = l" using line_of_nat [of x] k(1) by simp
  ultimately show "l \<in> {line x | x. a \<le> x \<and> x \<le> b}" by blast
next
  fix l assume "l \<in> {line x | x. a \<le> x \<and> x \<le> b}"
  then obtain x where x: "l = line x" "unat a \<le> unat x" "unat x \<le> unat b" by (auto simp: word_le_nat_alt)
  then have "unat a div 32 \<le> unat x div 32" "unat x div 32 \<le> unat b div 32" by (simp_all add: div_le_mono)
  then show "l \<in> set (lines a b)" unfolding lines_def x(1) line_of_nat by (auto simp del: upt_Suc)
qed

lemma blast_range_loop_eq:
  assumes p: "\<And>a. prot_op hitop a = [(hitop, a)]"
  shows "32 * d < 4294967296 \<Longrightarrow> aend = addr + of_nat (32 * d) \<Longrightarrow>
    blast_range_loop prot_op hitop 32 aend addr = Some (map (\<lambda>j. (hitop, addr + of_nat (32 * j))) [0..<Suc d])"
proof (induction d arbitrary: addr)
  case 0
  then show ?case by (subst blast_range_loop.simps) (simp add: p)
next
  case (Suc d)
  have ne: "addr \<noteq> aend" using Suc.prems of_nat_add_eq_self32 [of "32 * Suc d" addr] by auto
  have e: "aend = (addr + 32) + of_nat (32 * d)" using Suc.prems(2) by simp
  have "blast_range_loop prot_op hitop 32 aend addr = Some ((hitop, addr) # map (\<lambda>j. (hitop, addr + 32 + of_nat (32 * j))) [0..<Suc d])"
    using Suc.IH [OF _ e] Suc.prems(1) ne by (subst blast_range_loop.simps) (simp add: p Let_def del: upt_Suc)
  moreover have "[0..<Suc (Suc d)] = 0 # map Suc [0..<Suc d]" by (simp add: upt_conv_Cons map_Suc_upt del: upt_Suc)
  ultimately show ?case by (simp add: comp_def add.assoc del: upt_Suc)
qed

lemma blast_range_lines:
  assumes p: "\<And>a. prot_op hitop a = [(hitop, a)]" and le: "start \<le> end' - 1"
  shows "blast_range prot_op hitop 32 start end' = Some (map (Pair hitop) (lines start (end' - 1)))"
proof -
  define q e where "q = unat start div 32" and "e = unat (end' - 1) div 32"
  have qe: "q \<le> e" using le by (simp add: q_def e_def word_le_nat_alt div_le_mono)
  have l: "32 * (e - q) < 4294967296" using unsigned_less [of "end' - 1", where 'a = nat] by (simp add: e_def)
  have "line (end' - 1) = line start + of_nat (32 * (e - q))"
    unfolding line_of_nat q_def [symmetric] e_def [symmetric] using qe by (simp add: of_nat_diff algebra_simps)
  from blast_range_loop_eq [of prot_op hitop, OF p l this]
  have "blast_range prot_op hitop 32 start end' = Some (map (\<lambda>j. (hitop, line start + of_nat (32 * j))) [0..<Suc (e - q)])"
    by (simp add: blast_range_def line_def)
  also have "map (\<lambda>j. (hitop, line start + of_nat (32 * j))) [0..<Suc (e - q)] = map (Pair hitop) (lines start (end' - 1))"
  proof -
    have "[q..<Suc e] = map (\<lambda>j. j + q) [0..<Suc (e - q)]" using qe by (simp add: map_add_upt del: upt_Suc)
    then show ?thesis
      unfolding lines_def line_of_nat q_def [symmetric] e_def [symmetric] by (simp add: comp_def algebra_simps del: upt_Suc)
  qed
  finally show ?thesis .
qed

section \<open>The whole cache\<close>

lemma map_upt_chunks: "map f [0..<c * n] = concat (map (\<lambda>i. map (\<lambda>k. f (c * i + k)) [0..<c]) [0..<n])" for c n :: nat
proof (induction n)
  case (Suc n)
  have "[0..<c * Suc n] = [0..<c * n] @ [c * n..<c * n + c]" using upt_add_eq_append [of 0 "c * n" c] by (simp add: add.commute)
  moreover have "map f [c * n..<c * n + c] = map (\<lambda>k. f (c * n + k)) [0..<c]"
    unfolding add.commute [of "c * n" c] map_add_upt [of "c * n" c, symmetric] by (simp add: comp_def add.commute)
  ultimately show ?case using Suc by simp
qed simp

lemma unroll_chunks:
  "concat (map (\<lambda>i. cache32_unroll32 (base + of_nat (1024 * i)) op) [0..<n]) = map (\<lambda>k. (op, base + of_nat (32 * k))) [0..<32 * n]"
  unfolding map_upt_chunks by (simp add: cache32_unroll32_def algebra_simps)

lemma blast_cache_eq:
  assumes "desc = dcache \<or> desc = icache"
  shows "blast_cache desc cache32_unroll32 op 32 = Some (map (\<lambda>k. (op, 0x80000000 + of_nat (32 * k))) [0..<512])"
proof -
  have d: "waysize desc = 0x1000" "waybit desc = 12" "ways desc = 4" using assms by (auto simp: dcache_def icache_def)
  have u: "[0..<16] = [0, 1, 2, 3, 4, 5, 6, 7, 8, 9, 10, 11, 12, 13, 14, 15]" by (simp add: upt_rec)
  have "blast_cache desc cache32_unroll32 op 32 =
      Some (concat (map (\<lambda>i. cache32_unroll32 (0x80000000 + of_nat (1024 * i)) op) [0..<16]))"
    unfolding u by (simp add: blast_cache_def blast_indices_def d INDEX_BASE_def for_addr.simps)
  moreover have "512 = 32 * (16 :: nat)" by simp
  ultimately show ?thesis by (simp only: unroll_chunks)
qed

lemma flush_range_pieces:
  assumes "start \<le> end' - 1"
  shows "protected_blast_dcache_range start end' = Some (map (Pair Hit_Writeback_Inv_D) (lines start (end' - 1)))"
    "protected_blast_icache_range start end' = Some (map (Pair Hit_Invalidate_I) (lines start (end' - 1)))"
    "blast_dcache_range start end' = Some (map (Pair Hit_Writeback_Inv_D) (lines start (end' - 1)))"
    "blast_inv_dcache_range start end' = Some (map (Pair Hit_Invalidate_D) (lines start (end' - 1)))"
  using assms
  by (simp_all add: protected_blast_dcache_range_def protected_blast_icache_range_def blast_dcache_range_def blast_inv_dcache_range_def
      blast_range_lines cache_op_def protected_cache_op_def)

text \<open>The addresses whose index bits name the 512 lines of a cache: four ways of 128.\<close>

definition indices :: "addr list" where
  "indices = map (\<lambda>k. 0x80000000 + of_nat (32 * k)) [0..<512]"

lemma blast_caches:
  "blast_dcache32 = Some (map (Pair Index_Writeback_Inv_D) indices)" "blast_icache32 = Some (map (Pair Index_Invalidate_I) indices)"
  by (simp_all add: blast_dcache32_def blast_icache32_def blast_cache_eq indices_def comp_def)

section \<open>Properties\<close>

text \<open>C18: \<open>dma_cache_wback_inv\<close> writes back and invalidates every line with a byte of the block, each once and
  no other, or, for a block as large as the cache, every line of the cache by its index; \<open>dma_cache_inv\<close>
  writes back the first and the last line only and drops the others; \<open>flush_icache_range\<close> does the same as the
  first and then invalidates the lines of the instruction cache.\<close>

theorem cache_range_covered:
  "addr \<le> addr + n - 1 \<Longrightarrow>
   (let ls = lines addr (addr + n - 1);
        wb = (if n \<ge> 0x4000 then map (Pair Index_Writeback_Inv_D) indices else map (Pair Hit_Writeback_Inv_D) ls)
    in distinct ls \<and> set ls = {line x | x. addr \<le> x \<and> x \<le> addr + n - 1} \<and>
       dma_cache_wback_inv addr n = Some wb \<and>
       dma_cache_inv addr n = Some (if n \<ge> 0x4000 then wb
         else [(Hit_Writeback_Inv_D, line addr), (Hit_Writeback_Inv_D, line (addr + n - 1))] @ map (Pair Hit_Invalidate_D) ls) \<and>
       flush_icache_range addr (addr + n) =
         Some (wb @ (if n > 0x4000 then map (Pair Index_Invalidate_I) indices else map (Pair Hit_Invalidate_I) ls)))"
proof -
  assume le: "addr \<le> addr + n - 1"
  note p = flush_range_pieces [OF le] blast_caches
  have m: "a AND NOT (32 - 1) = line a" for a by (simp add: line_def)
  have "dma_cache_inv addr n = Some (if n \<ge> 0x4000 then map (Pair Index_Writeback_Inv_D) indices
      else [(Hit_Writeback_Inv_D, line addr), (Hit_Writeback_Inv_D, line (addr + n - 1))] @ map (Pair Hit_Invalidate_D) (lines addr (addr + n - 1)))"
    unfolding dma_cache_inv_def Let_def m by (simp add: p dcache_size_def cache_op_def)
  moreover have "dma_cache_wback_inv addr n = Some (if n \<ge> 0x4000 then map (Pair Index_Writeback_Inv_D) indices
      else map (Pair Hit_Writeback_Inv_D) (lines addr (addr + n - 1)))"
    by (simp add: dma_cache_wback_inv_def p dcache_size_def)
  moreover have "flush_icache_range addr (addr + n) = Some ((if n \<ge> 0x4000 then map (Pair Index_Writeback_Inv_D) indices
      else map (Pair Hit_Writeback_Inv_D) (lines addr (addr + n - 1))) @
      (if n > 0x4000 then map (Pair Index_Invalidate_I) indices else map (Pair Hit_Invalidate_I) (lines addr (addr + n - 1))))"
    unfolding flush_icache_range_def add_diff_cancel_left' dcache_size_def icache_size_def p by simp
  ultimately show ?thesis using lines_distinct lines_set [OF le] by (auto simp: Let_def)
qed

lemma cache_range_covered_witness:
  "dma_cache_wback_inv 0x80000010 100 = Some (map (Pair Hit_Writeback_Inv_D) [0x80000000, 0x80000020, 0x80000040, 0x80000060])"
proof -
  have "lines 0x80000010 (0x80000010 + 100 - 1) = [0x80000000, 0x80000020, 0x80000040, 0x80000060]"
    by (simp add: lines_def upt_rec)
  then show ?thesis using cache_range_covered [of "0x80000010" 100] by (simp add: Let_def)
qed

text \<open>For an empty block at the beginning of a line, \<open>dma_cache_wback_inv\<close> does not do nothing: it goes
  through all \<open>2 ^ 27\<close> lines of the address space.\<close>

theorem empty_range_flushes_everything:
  "line addr = addr \<Longrightarrow>
   \<exists>ops. dma_cache_wback_inv addr 0 = Some ops \<and> length ops = 2 ^ 27 \<and> (\<forall>x. (Hit_Writeback_Inv_D, line x) \<in> set ops)"
proof -
  assume al: "line addr = addr"
  define d :: nat where "d = 2 ^ 27 - 1"
  have d: "32 * d < 4294967296" "Suc d = 2 ^ 27" by (simp_all add: d_def)
  define q where "q = unat addr div 32"
  have a: "addr = of_nat (32 * q)" using al line_of_nat [of addr] by (simp only: q_def)
  have w: "(of_nat (32 * Suc d) :: addr) = 0" unfolding d(2) by simp
  have e: "line (addr - 1) = addr + of_nat (32 * d)"
  proof -
    have "(of_nat (32 * d) :: addr) = - 32" using w by (simp add: eq_neg_iff_add_eq_0 add.commute)
    moreover have "line (addr - 1) = addr - 32"
    proof (cases "addr = 0")
      case True
      then show ?thesis by (simp add: line_def)
    next
      case False
      have u: "unat addr = 32 * q" using al line_unat [of addr] by (simp add: q_def)
      moreover have "unat (addr - 1) = unat addr - 1" using False by (rule unat_minus_one_nz)
      moreover have "0 < q" using False u by (cases q) (auto simp: unat_eq_zero)
      moreover have "(32 * q - 1) div 32 = q - 1" using \<open>0 < q\<close> by (cases q) simp_all
      ultimately have "unat (addr - 1) div 32 = q - 1" "0 < q" by simp_all
      then show ?thesis unfolding line_of_nat a by (simp add: of_nat_diff algebra_simps)
    qed
    ultimately show ?thesis by simp
  qed
  have "dma_cache_wback_inv addr 0 = blast_range_loop cache_op Hit_Writeback_Inv_D 32 (line (addr - 1)) (line addr)"
    by (simp add: dma_cache_wback_inv_def dcache_size_def blast_dcache_range_def blast_range_def line_def)
  also have "\<dots> = Some (map (\<lambda>j. (Hit_Writeback_Inv_D, addr + of_nat (32 * j))) [0..<Suc d])"
    unfolding al by (rule blast_range_loop_eq [OF _ d(1) e]) (simp add: cache_op_def)
  finally have r: "dma_cache_wback_inv addr 0 = Some (map (\<lambda>j. (Hit_Writeback_Inv_D, addr + of_nat (32 * j))) [0..<Suc d])" .
  have "\<exists>j<Suc d. line x = addr + of_nat (32 * j)" for x
  proof -
    define k where "k = unat x div 32"
    have kq: "k < Suc d" "q < Suc d"
      using unsigned_less [of x, where 'a = nat] unsigned_less [of addr, where 'a = nat] by (simp_all add: k_def q_def d_def)
    have "line x = addr + of_nat (32 * (if q \<le> k then k - q else k + Suc d - q))"
      using kq w unfolding line_of_nat k_def [symmetric] a
      by (cases "q \<le> k") (simp_all add: of_nat_diff algebra_simps)
    moreover have "(if q \<le> k then k - q else k + Suc d - q) < Suc d" using kq by (simp split: if_split) linarith
    ultimately show ?thesis by blast
  qed
  then have "(Hit_Writeback_Inv_D, line x) \<in> set (map (\<lambda>j. (Hit_Writeback_Inv_D, addr + of_nat (32 * j))) [0..<Suc d])" for x
    unfolding set_map set_upt image_iff Bex_def by (auto simp del: upt_Suc)
  moreover have "length (map (\<lambda>j. (Hit_Writeback_Inv_D, addr + of_nat (32 * j))) [0..<Suc d]) = 2 ^ 27"
    unfolding length_map length_upt d(2) by simp
  ultimately show ?thesis unfolding r by blast
qed

lemma empty_range_flushes_everything_witness:
  "\<exists>ops. dma_cache_wback_inv 0x80000000 0 = Some ops \<and> length ops = 2 ^ 27 \<and> (\<forall>x. (Hit_Writeback_Inv_D, line x) \<in> set ops)"
  by (rule empty_range_flushes_everything) (simp add: line_def)

end
