(* ===== verification/Bitstr.thy ===== *)
theory Bitstr
  imports Libstr Malloc "HOL-Library.Signed_Division"
begin

text \<open>
  Arrays of bits and bits as text: \<^verbatim>\<open>bench/bitcount/bitarray.c\<close>, \<open>bitstrng.c\<close> and \<open>bstr_i.c\<close>, in memory.
  A shift by a negative number or by 32 and more has no defined result (\<open>None\<close>).  Shown: the bits of an
  array are independent; the digits that \<open>bitstring\<close> writes \<open>bstr_i\<close> reads back.
\<close>

unbundle bit_operations_syntax

section \<open>bitarray.c\<close>

definition CHAR_BIT :: int where "CHAR_BIT = 8"

text \<open>\<open>size_t\<close> arithmetic wraps.\<close>

definition alloc_bit_array :: "addr \<Rightarrow> u32 \<Rightarrow> heap \<Rightarrow> (addr \<times> heap) option" where
  "alloc_bit_array base bits h = malloc base ((bits + 8 - 1) div 8 * 1) h"

text \<open>\<open>set += number / CHAR_BIT\<close> and \<open>1 << (number % CHAR_BIT)\<close>, rounding towards zero.\<close>

definition bit_place :: "addr \<Rightarrow> int \<Rightarrow> (addr \<times> int) option" where
  "bit_place set' number =
     (let k = number smod CHAR_BIT
      in if k < 0 then None else Some (set' + word_of_int (number sdiv CHAR_BIT), push_bit (nat k) 1))"

definition getbit :: "mem \<Rightarrow> addr \<Rightarrow> int \<Rightarrow> int option" where
  "getbit m set' number =
     do { (p, b) \<leftarrow> bit_place set' number; Some (if schar (m p) AND b \<noteq> 0 then 1 else 0) }"

definition setbit :: "mem \<Rightarrow> addr \<Rightarrow> int \<Rightarrow> int \<Rightarrow> mem option" where
  "setbit m set' number value =
     do { (p, b) \<leftarrow> bit_place set' number;
          Some (m(p := word_of_int (if value \<noteq> 0 then schar (m p) OR b else schar (m p) AND NOT b))) }"

definition flipbit :: "mem \<Rightarrow> addr \<Rightarrow> int \<Rightarrow> mem option" where
  "flipbit m set' number =
     do { (p, b) \<leftarrow> bit_place set' number; Some (m(p := word_of_int (schar (m p) XOR b))) }"

section \<open>bitstrng.c and bstr_i.c\<close>

fun put_blank :: "mem \<Rightarrow> addr \<Rightarrow> nat \<Rightarrow> mem \<times> addr" where
  "put_blank m str 0 = (m, str)"
| "put_blank m str (Suc n) = put_blank (m(str := 32)) (str + 1) n"

text \<open>\<open>while (--biz >= 0)\<close>: \<open>biz\<close> is the number before the decrement.\<close>

fun put_bits :: "mem \<Rightarrow> addr \<Rightarrow> u32 \<Rightarrow> nat \<Rightarrow> (mem \<times> addr) option" where
  "put_bits m str byze 0 = Some (m, str)"
| "put_bits m str byze (Suc biz) =
     (if biz \<ge> 32 then None
      else let m = m(str := word_of_int ((sint (signed_drop_bit biz byze) AND 1) + 48)); str = str + 1
           in if biz mod 4 = 0 \<and> biz \<noteq> 0 then put_bits (m(str := 32)) (str + 1) byze biz
              else put_bits m str byze biz)"

definition bitstring :: "mem \<Rightarrow> addr \<Rightarrow> u32 \<Rightarrow> int \<Rightarrow> int \<Rightarrow> mem option" where
  "bitstring m str byze biz strwid =
     (let j = strwid - (biz + biz div 4 - (if biz smod 4 \<noteq> 0 then 0 else 1));
          (m, str) = put_blank m str (nat j)
      in do { (m, str) \<leftarrow> put_bits m str byze (nat biz); Some (m(str := 0)) })"

text \<open>\<open>strchr ("01", *cptr)\<close> for a character that is not 0.\<close>

partial_function (option) bstr_i_loop :: "mem \<Rightarrow> addr \<Rightarrow> u32 \<Rightarrow> u32 option" where
  "bstr_i_loop m cptr j =
     (if cptr \<noteq> 0 \<and> m cptr \<noteq> 0 \<and> (m cptr = 48 \<or> m cptr = 49)
      then (let i = word_of_int (schar (m cptr) - 48)
            in bstr_i_loop m (cptr + 1) (push_bit 1 j OR (i AND 1)))
      else Some j)"

declare bstr_i_loop.simps [code]

definition bstr_i :: "mem \<Rightarrow> addr \<Rightarrow> u32 option" where
  "bstr_i m cptr = bstr_i_loop m cptr 0"

section \<open>Arrays of bits\<close>

lemma bit_place_nat: "0 \<le> n \<Longrightarrow> bit_place s n = Some (s + word_of_int (n div 8), push_bit (nat (n mod 8)) 1)"
  by (simp add: bit_place_def CHAR_BIT_def smod_int_alt_def sgn_if signed_divide_int_def Let_def not_less)

lemma bit_schar: "k < 8 \<Longrightarrow> bit (schar c) k = bit c k"
  by (simp add: bit_sint_iff not_le)

text \<open>The bits of an array, as a function.\<close>

definition bit_at :: "mem \<Rightarrow> addr \<Rightarrow> int \<Rightarrow> bool" where
  "bit_at m s n = bit (m (s + word_of_int (n div 8))) (nat (n mod 8))"

lemma nat_mod_8: "nat (n mod 8) < 8" for n :: int
  by (simp add: nat_less_iff)

lemma getbit_at: "0 \<le> n \<Longrightarrow> getbit m s n = Some (if bit_at m s n then 1 else 0)"
  by (simp add: getbit_def bit_place_nat and_exp_eq_0_iff_not_bit bit_schar nat_mod_8 bit_at_def)

lemma byte_of_bits: "bit (word_of_int x :: u8) k \<longleftrightarrow> k < 8 \<and> bit x k"
  by (simp add: bit_word_of_int_iff)

lemma same_place: "0 \<le> i \<Longrightarrow> i < 4294967296 \<Longrightarrow> 0 \<le> j \<Longrightarrow> j < 4294967296 \<Longrightarrow>
    (s + word_of_int (i div 8) = s + (word_of_int (j div 8) :: addr)) = (i div 8 = j div 8)"
  by (auto simp: word_of_int_eq_iff take_bit_int_eq_self)

lemma bit_at_upd:
  assumes "0 \<le> i" "i < 4294967296" "0 \<le> j" "j < 4294967296"
    and x: "\<And>k. k < 8 \<Longrightarrow> bit x k = (if k = nat (i mod 8) then b else bit (m (s + word_of_int (i div 8))) k)"
  shows "bit_at (m(s + word_of_int (i div 8) := word_of_int x)) s j = (if i = j then b else bit_at m s j)"
proof (cases "i div 8 = j div 8")
  case True
  have "i = j \<longleftrightarrow> nat (i mod 8) = nat (j mod 8)"
    using True div_mult_mod_eq [of i 8] div_mult_mod_eq [of j 8] by (auto simp: nat_eq_iff)
  then show ?thesis using True x [OF nat_mod_8] by (auto simp: bit_at_def byte_of_bits nat_mod_8)
next
  case False
  then show ?thesis using same_place [OF assms(1-4), of s] by (auto simp: bit_at_def)
qed

lemma setbit_at:
  assumes "0 \<le> i" "i < 4294967296" "0 \<le> j" "j < 4294967296"
  shows "\<exists>m'. setbit m s i v = Some m' \<and> bit_at m' s j = (if i = j then v \<noteq> 0 else bit_at m s j)"
proof -
  let ?p = "s + word_of_int (i div 8)" and ?b = "push_bit (nat (i mod 8)) 1 :: int"
  define x where "x = (if v \<noteq> 0 then schar (m ?p) OR ?b else schar (m ?p) AND NOT ?b)"
  have "bit x k = (if k = nat (i mod 8) then v \<noteq> 0 else bit (m ?p) k)" if "k < 8" for k
    using that by (auto simp: x_def bit_schar bit_simps)
  note u = bit_at_upd [where x = x and m = m and s = s, OF assms this]
  have "setbit m s i v = Some (m(?p := word_of_int x))" using assms(1) by (simp add: setbit_def bit_place_nat x_def)
  with u show ?thesis by simp
qed

lemma flipbit_at:
  assumes "0 \<le> i" "i < 4294967296" "0 \<le> j" "j < 4294967296"
  shows "\<exists>m'. flipbit m s i = Some m' \<and> bit_at m' s j = (if i = j then \<not> bit_at m s j else bit_at m s j)"
proof -
  let ?p = "s + word_of_int (i div 8)" and ?b = "push_bit (nat (i mod 8)) 1 :: int"
  define x where "x = schar (m ?p) XOR ?b"
  have "bit x k = (if k = nat (i mod 8) then \<not> bit_at m s i else bit (m ?p) k)" if "k < 8" for k
    using that by (auto simp: x_def bit_schar bit_simps bit_at_def)
  note u = bit_at_upd [where x = x and m = m and s = s, OF assms this]
  have "flipbit m s i = Some (m(?p := word_of_int x))" using assms(1) by (simp add: flipbit_def bit_place_nat x_def)
  with u show ?thesis by auto
qed

section \<open>Bits as text\<close>

text \<open>The digits of the lowest \<open>n\<close> bits, with a blank after every fourth from the right.\<close>

definition bit_digit :: "u32 \<Rightarrow> nat \<Rightarrow> u8" where
  "bit_digit v k = (if bit v k then 49 else 48)"

fun bits_text :: "u32 \<Rightarrow> nat \<Rightarrow> u8 list" where
  "bits_text v 0 = []"
| "bits_text v (Suc n) = bit_digit v n # (if n mod 4 = 0 \<and> n \<noteq> 0 then [32] else []) @ bits_text v n"

lemma put_blank_eq: "put_blank m str n = (write_bytes m str (replicate n 32), str + of_nat n)"
  by (induction n arbitrary: m str) (auto simp: add.assoc)

lemma put_bits_digit: "n < 32 \<Longrightarrow> word_of_int ((sint (signed_drop_bit n v) AND 1) + 48) = bit_digit v n" for v :: u32
proof -
  assume n: "n < 32"
  have "sint (signed_drop_bit n v) AND 1 = of_bool (bit v n)"
    using n by (simp add: and_one_eq mod_2_eq_odd bit_iff_odd [symmetric] bit_sint_iff bit_signed_drop_bit_iff bit_0 [symmetric] del: bit_0)
  then show ?thesis by (simp add: bit_digit_def)
qed

lemma put_bits_eq:
  "n \<le> 32 \<Longrightarrow> put_bits m str v n = Some (write_bytes m str (bits_text v n), str + of_nat (length (bits_text v n)))"
proof (induction n arbitrary: m str)
  case (Suc n)
  then show ?case using put_bits_digit [of n v] by (simp add: Let_def add.assoc)
qed simp

lemma div_4_step: "0 < n \<Longrightarrow> n div 4 = (n - 1) div 4 + (if n mod 4 = 0 then 1 else 0)" for n :: nat
  using mod_Suc [of "n - 1" 4] div_Suc [of "n - 1" 4] by (cases n) auto

lemma length_bits_text: "length (bits_text v n) = n + (n - 1) div 4"
proof (induction n)
  case (Suc n)
  show ?case
  proof (cases n)
    case (Suc k)
    then show ?thesis using Suc.IH div_4_step [of n] by auto
  qed simp
qed simp

lemma bits_text_digits: "filter (\<lambda>c. c \<noteq> 32) (bits_text v n) = map (bit_digit v) (rev [0..<n])"
  by (induction n) (auto simp: bit_digit_def)

lemma bitstring_eq:
  assumes n: "0 < n" "n \<le> 32"
  shows "bitstring m str v (int n) w =
    Some (write_bytes m str (replicate (nat (w - int (length (bits_text v n)))) 32 @ bits_text v n @ [0]))"
proof -
  have d: "int n + int n div 4 - (if int n smod 4 \<noteq> 0 then 0 else 1) = int (length (bits_text v n))"
  proof -
    have "int n smod 4 = int (n mod 4)" by (simp add: smod_int_alt_def sgn_if zmod_int)
    moreover have "int n div 4 = int (n div 4)" by (simp add: zdiv_int)
    ultimately show ?thesis using div_4_step [OF n(1)] by (cases "n mod 4 = 0") (simp_all add: length_bits_text del: of_nat_mod of_nat_div)
  qed
  show ?thesis
    unfolding bitstring_def d Let_def put_blank_eq using n(2)
    by (simp add: put_bits_eq write_bytes_append add.assoc)
qed

lemma bstr_i_loop_digits:
  "cstr m p ds \<Longrightarrow> set ds \<subseteq> {48, 49} \<Longrightarrow> p \<noteq> 0 \<Longrightarrow> unat p + length ds < 4294967296 \<Longrightarrow>
   bstr_i_loop m p j = Some (foldl (\<lambda>j d. push_bit 1 j OR (if d = 49 then 1 else 0)) j ds)"
proof (induction ds arbitrary: p j)
  case Nil
  then show ?case by (subst bstr_i_loop.simps) simp
next
  case (Cons d ds)
  have u: "unat (p + 1) = unat p + 1"
    using Cons.prems(4) by (subst unat_add_small) simp_all
  then have "p + 1 \<noteq> 0" by auto
  then have ih: "bstr_i_loop m (p + 1) k = Some (foldl (\<lambda>j d. push_bit 1 j OR (if d = 49 then 1 else 0)) k ds)" for k
    using Cons.prems u by (intro Cons.IH) auto
  have "d = 48 \<or> d = 49" using Cons.prems(2) by simp
  then show ?case using Cons.prems ih by (subst bstr_i_loop.simps) (auto simp: Let_def)
qed

lemma take_bit_Suc_bit: "take_bit (Suc n) v = push_bit n (of_bool (bit v n)) OR take_bit n v" for v :: u32
  by (rule bit_word_eqI) (auto simp: bit_simps less_Suc_eq)

lemma digits_value:
  "n \<le> 32 \<Longrightarrow> foldl (\<lambda>j d. push_bit 1 j OR (if d = 49 then 1 else 0)) j (map (bit_digit v) (rev [0..<n])) =
   push_bit n j OR take_bit n (v :: u32)"
proof (induction n arbitrary: j)
  case (Suc n)
  have d: "(if bit_digit v n = 49 then 1 else 0 :: u32) = of_bool (bit v n)" by (simp add: bit_digit_def)
  have "push_bit n (push_bit 1 j OR of_bool (bit v n)) OR take_bit n v = push_bit (Suc n) j OR take_bit (Suc n) v"
    by (simp only: push_bit_or push_bit_push_bit or.assoc) (simp add: take_bit_Suc_bit or.commute)
  then show ?case using Suc d by simp
qed simp

section \<open>Properties\<close>

text \<open>The bits of an array are independent: \<open>setbit\<close> sets the bit that \<open>getbit\<close> reads and no other, \<open>flipbit\<close>
  turns over that bit and no other.\<close>

theorem bit_array_updates:
  "0 \<le> i \<Longrightarrow> i < 4294967296 \<Longrightarrow> 0 \<le> j \<Longrightarrow> j < 4294967296 \<Longrightarrow>
   (\<exists>m'. setbit m s i v = Some m' \<and> getbit m' s j = (if i = j then Some (if v \<noteq> 0 then 1 else 0) else getbit m s j)) \<and>
   (\<exists>m' b. flipbit m s i = Some m' \<and> getbit m s j = Some b \<and> getbit m' s j = Some (if i = j then 1 - b else b))"
  (is "?a \<Longrightarrow> ?b \<Longrightarrow> ?c \<Longrightarrow> ?d \<Longrightarrow> ?S \<and> ?F")
proof -
  assume i: ?a ?b and j: ?c ?d
  obtain m1 where "setbit m s i v = Some m1" "bit_at m1 s j = (if i = j then v \<noteq> 0 else bit_at m s j)"
    using setbit_at [OF i j] by blast
  then have ?S using j(1) by (intro exI [of _ m1]) (simp add: getbit_at)
  moreover obtain m2 where "flipbit m s i = Some m2" "bit_at m2 s j = (if i = j then \<not> bit_at m s j else bit_at m s j)"
    using flipbit_at [OF i j] by blast
  then have ?F using j(1) by (intro exI [of _ m2] exI [of _ "if bit_at m s j then 1 else 0"]) (simp add: getbit_at)
  ultimately show ?thesis ..
qed

lemma alloc_bit_array_wraps: "alloc_bit_array base 0xFFFFFFFF h = malloc base 0 h"
  by (simp add: alloc_bit_array_def)

text \<open>\<open>bitstring\<close> fills at least the width it is given, and what its digits say, without the blanks
  between groups of four, \<open>bstr_i\<close> reads back: the lowest \<open>n\<close> bits.\<close>

theorem bitstring_reads_back:
  "0 < n \<Longrightarrow> n \<le> 32 \<Longrightarrow>
   \<exists>t. bitstring m str v (int n) w = Some (write_bytes m str (t @ [0])) \<and> int (length t) = max w (int (n + (n - 1) div 4)) \<and>
     (\<forall>m2 p. cstr m2 p (filter (\<lambda>c. c \<noteq> 32) t) \<and> p \<noteq> 0 \<and> unat p + n < 4294967296 \<longrightarrow> bstr_i m2 p = Some (take_bit n v))"
proof -
  assume n: "0 < n" "n \<le> 32"
  define t where "t = replicate (nat (w - int (length (bits_text v n)))) 32 @ bits_text v n"
  have f: "filter (\<lambda>c. c \<noteq> 32) t = map (bit_digit v) (rev [0..<n])" by (simp add: t_def bits_text_digits)
  have "bstr_i m2 p = Some (take_bit n v)"
    if p: "cstr m2 p (filter (\<lambda>c. c \<noteq> 32) t)" "p \<noteq> 0" "unat p + n < 4294967296" for m2 p
  proof -
    have "set (map (bit_digit v) (rev [0..<n])) \<subseteq> {48, 49}" by (auto simp: bit_digit_def)
    then show ?thesis
      using p bstr_i_loop_digits [of m2 p "map (bit_digit v) (rev [0..<n])" 0] digits_value [OF n(2), of 0 v]
      unfolding f by (simp add: bstr_i_def)
  qed
  moreover have "bitstring m str v (int n) w = Some (write_bytes m str (t @ [0]))"
    using bitstring_eq [OF n] by (simp add: t_def)
  moreover have "int (length t) = max w (int (n + (n - 1) div 4))"
    by (simp add: t_def length_bits_text max_def)
  ultimately show ?thesis by blast
qed

lemma bitstring_reads_back_witness:
  "\<exists>t. bitstring (\<lambda>_. 0) 100 13 (int 6) 9 = Some (write_bytes (\<lambda>_. 0) 100 (t @ [0])) \<and> int (length t) = max 9 (int (6 + (6 - 1) div 4)) \<and>
     (\<forall>m2 p. cstr m2 p (filter (\<lambda>c. c \<noteq> 32) t) \<and> p \<noteq> 0 \<and> unat p + 6 < 4294967296 \<longrightarrow> bstr_i m2 p = Some (take_bit 6 13))"
  by (rule bitstring_reads_back) simp_all

text \<open>For no bits at all the string is one character wider than asked for.\<close>

lemma bitstring_none: "0 \<le> w \<Longrightarrow> bitstring m str v 0 w = Some (write_bytes m str (replicate (nat w + 1) 32 @ [0]))"
  by (simp add: bitstring_def put_blank_eq write_bytes_append nat_add_distrib ac_simps)

end
