(* ===== verification/Convert.thy ===== *)
theory Convert
  imports Console
begin

text \<open>
  The converter of memory images, \<^verbatim>\<open>convert.c\<close>, which runs on the host and makes the text from
  which the block memories of the processor are filled.  The files of the host are a map from names to
  bytes, \<open>feof\<close> and \<open>fread\<close> are those of the C standard; \<open>None\<close> is a name that does not fit its buffer, a file
  that cannot be opened, and an input that is also the output.  The 32 bytes of \<open>mem\<close> are not
  initialised, and are a parameter.  Shown: which words the images hold.
\<close>

unbundle bit_operations_syntax

section \<open>Files of the host\<close>

type_synonym files = "u8 list \<rightharpoonup> u8 list"

record infile =
  pending :: "u8 list"
  ended :: bool

text \<open>\<open>fread (mem, 1, 4, in)\<close>: the number of bytes, the array, the file.\<close>

definition fread4 :: "u8 list \<Rightarrow> infile \<Rightarrow> nat \<times> u8 list \<times> infile" where
  "fread4 mem f =
     (let got = take 4 (pending f)
      in (length got, got @ drop (length got) mem, \<lparr>pending = drop 4 (pending f), ended = ended f \<or> length got < 4\<rparr>))"

section \<open>convert.c\<close>

text \<open>\<open>%02x\<close> of an unsigned character.\<close>

definition byte_digit :: "nat \<Rightarrow> u8" where
  "byte_digit d = of_nat (if d < 10 then 48 + d else 87 + d)"

definition hex2 :: "u8 \<Rightarrow> u8 list" where
  "hex2 b = [byte_digit (unat b div 16), byte_digit (unat b mod 16)]"

definition coe_out :: "u8 list \<Rightarrow> u8 list" where
  "coe_out mem = hex2 (mem ! 3) @ hex2 (mem ! 2) @ hex2 (mem ! 1) @ hex2 (mem ! 0) @ [10]"

definition num :: "u8 list" where
  "num = [1, 2, 4, 8, 16, 32, 64, 128]"

definition binary_out :: "u8 list \<Rightarrow> u8 list" where
  "binary_out mem =
     concat (map (\<lambda>i. map (\<lambda>j. if mem ! i AND num ! j \<noteq> 0 then 49 else 48) (rev [0..<8])) (rev [0..<4])) @ [10]"

text \<open>The loop over the input, for both kinds of line: what is written so far, and \<open>mem\<close>.\<close>

function convert_loop :: "(u8 list \<Rightarrow> u8 list) \<Rightarrow> u8 list \<Rightarrow> u8 list \<Rightarrow> infile \<Rightarrow> u8 list \<times> u8 list" where
  "convert_loop line out mem f =
     (if ended f then (out, mem)
      else let (n, mem', f') = fread4 mem f; out' = out @ line mem'
           in if n \<noteq> 4 then (out', mem') else convert_loop line out' mem' f')"
  by pat_completeness auto
termination
  by (relation "measure (\<lambda>(line, out, mem, f). length (pending f))") (auto simp: fread4_def Let_def)

declare convert_loop.simps [simp del]

text \<open>One input and one output, opened for writing; \<open>writable\<close> says which names can be.\<close>

definition convert_file ::
    "(u8 list \<Rightarrow> bool) \<Rightarrow> (u8 list \<Rightarrow> u8 list) \<Rightarrow> u8 list \<Rightarrow> u8 list \<Rightarrow> u8 list \<Rightarrow> files \<Rightarrow> u8 list \<Rightarrow>
     (files \<times> u8 list) option" where
  "convert_file writable line header inp outp fs mem =
     do { bs \<leftarrow> fs inp;
          if writable outp \<and> inp \<noteq> outp
          then let (out, mem) = convert_loop line header mem \<lparr>pending = bs, ended = False\<rparr>
               in Some (fs(outp \<mapsto> out), mem)
          else None }"

definition coe_header :: "u8 list" where
  "coe_header = ascii ''memory_initialization_radix = 16;'' @ [10] @ ascii ''memory_initialization_vector ='' @ [10]"

text \<open>\<open>strncpy\<close> and \<open>strncat\<close> into \<open>char [256]\<close>.\<close>

definition join_path :: "u8 list \<Rightarrow> u8 list \<Rightarrow> u8 list option" where
  "join_path dir name = (if length dir + length name < 256 then Some (dir @ name) else None)"

text \<open>The files afterwards, what goes to \<open>stderr\<close>, and the exit code.\<close>

definition convert_main ::
    "(u8 list \<Rightarrow> bool) \<Rightarrow> u8 list \<Rightarrow> u8 list list \<Rightarrow> files \<Rightarrow> (files \<times> u8 list \<times> int) option" where
  "convert_main writable mem argv fs =
     (if length argv < 3 then Some (fs, ascii ''Usage: convert main.bin main.data directory'' @ [10], 1)
      else do {
        str_bin \<leftarrow> join_path (argv ! 2) (argv ! 1);
        str_coe \<leftarrow> join_path (argv ! 2) (ascii ''axi_ram.coe'');
        str_mif \<leftarrow> join_path (argv ! 2) (ascii ''axi_ram.mif'');
        (fs, mem) \<leftarrow> convert_file writable coe_out coe_header str_bin str_coe fs mem;
        (fs, mem) \<leftarrow> convert_file writable binary_out [] str_bin str_mif fs mem;
        Some (fs, [], 0) })"

text \<open>The converter of the functional tests has fixed names.\<close>

definition func_convert_main :: "(u8 list \<Rightarrow> bool) \<Rightarrow> u8 list \<Rightarrow> files \<Rightarrow> (files \<times> int) option" where
  "func_convert_main writable mem fs =
     do { (fs, mem) \<leftarrow> convert_file writable coe_out coe_header (ascii ''main.bin'') (ascii ''inst_ram.coe'') fs mem;
          (fs, mem) \<leftarrow> convert_file writable coe_out coe_header (ascii ''main.data'') (ascii ''data_ram.coe'') fs mem;
          (fs, mem) \<leftarrow> convert_file writable binary_out [] (ascii ''main.data'') (ascii ''data_ram.mif'') fs mem;
          (fs, mem) \<leftarrow> convert_file writable binary_out [] (ascii ''main.bin'') (ascii ''inst_ram.mif'') fs mem;
          Some (fs, 0) }"

section \<open>The lines of an image\<close>

text \<open>\<open>mem\<close> at each line: the last one is written when the input has ended.\<close>

function rows :: "u8 list \<Rightarrow> u8 list \<Rightarrow> u8 list list" where
  "rows mem bs =
     (if length bs < 4 then [bs @ drop (length bs) mem]
      else (take 4 bs @ drop 4 mem) # rows (take 4 bs @ drop 4 mem) (drop 4 bs))"
  by pat_completeness auto
termination
  by (relation "measure (\<lambda>(mem, bs). length bs)") auto

declare rows.simps [simp del]

lemma convert_loop_rows:
  "convert_loop line out mem \<lparr>pending = bs, ended = False\<rparr> =
   (out @ concat (map line (rows mem bs)), last (rows mem bs))"
proof (induction mem bs arbitrary: out rule: rows.induct)
  case (1 mem bs)
  have ne: "rows m b \<noteq> []" for m b by (subst rows.simps) simp
  show ?case
  proof (cases "length bs < 4")
    case True
    then show ?thesis by (subst convert_loop.simps, subst (1 2) rows.simps) (simp add: fread4_def)
  next
    case False
    then have "length (take 4 bs) = 4" by simp
    with 1 [OF False] False ne show ?thesis
      by (subst convert_loop.simps, subst (1 2) rows.simps) (simp add: fread4_def min_def)
  qed
qed

lemma convert_file_eq:
  "fs inp = Some bs \<Longrightarrow> writable outp \<Longrightarrow> inp \<noteq> outp \<Longrightarrow>
   convert_file writable line header inp outp fs mem =
   Some (fs(outp \<mapsto> header @ concat (map line (rows mem bs))), last (rows mem bs))"
  by (simp add: convert_file_def convert_loop_rows)

lemma length_rows: "length (rows mem bs) = length bs div 4 + 1"
proof (induction mem bs rule: rows.induct)
  case (1 mem bs)
  show ?case
  proof (cases "length bs < 4")
    case True
    then show ?thesis by (subst rows.simps) simp
  next
    case False
    then have "length bs div 4 = (length bs - 4) div 4 + 1" by (simp add: le_div_geq)
    with 1 [OF False] False show ?thesis by (subst rows.simps) simp
  qed
qed

text \<open>The bytes of the line behind the last whole word: what is left of the input, and then what
  was in \<open>mem\<close> before.\<close>

definition tail_bytes :: "u8 list \<Rightarrow> u8 list \<Rightarrow> u8 list" where
  "tail_bytes mem bs =
     (let q = length bs div 4; old = (if q = 0 then mem else drop (4 * (q - 1)) bs)
      in drop (4 * q) bs @ drop (length bs mod 4) (take 4 old))"

lemma take_rows:
  "4 \<le> length mem \<Longrightarrow> i \<le> length bs div 4 \<Longrightarrow>
   take 4 (rows mem bs ! i) = (if i < length bs div 4 then take 4 (drop (4 * i) bs) else tail_bytes mem bs)"
proof (induction mem bs arbitrary: i rule: rows.induct)
  case (1 mem bs)
  show ?case
  proof (cases "length bs < 4")
    case True
    then show ?thesis using 1(2,3) by (subst rows.simps) (simp add: tail_bytes_def drop_take)
  next
    case False
    then have d: "length bs div 4 = (length bs - 4) div 4 + 1" by (simp add: le_div_geq)
    show ?thesis
    proof (cases i)
      case 0
      with False d show ?thesis by (subst rows.simps) simp
    next
      case (Suc k)
      have t: "tail_bytes (take 4 bs @ drop 4 mem) (drop 4 bs) = tail_bytes mem bs"
      proof -
        have "(length bs - 4) mod 4 = length bs mod 4" using False by (simp add: le_mod_geq)
        moreover have "4 * ((length bs - 4) div 4 - 1) + 4 = 4 * (length bs div 4 - 1)" if "(length bs - 4) div 4 \<noteq> 0"
          using that by (simp add: d right_diff_distrib')
        ultimately show ?thesis using False d by (simp add: tail_bytes_def Let_def add.commute)
      qed
      have "take 4 (rows (take 4 bs @ drop 4 mem) (drop 4 bs) ! k) =
          (if k < length (drop 4 bs) div 4 then take 4 (drop (4 * k) (drop 4 bs)) else tail_bytes (take 4 bs @ drop 4 mem) (drop 4 bs))"
        using False 1(2,3) Suc d by (intro 1(1)) auto
      with False Suc d t show ?thesis by (subst rows.simps) (simp add: add.commute)
    qed
  qed
qed

section \<open>The numbers in the lines\<close>

definition hex_value :: "u8 list \<Rightarrow> nat" where
  "hex_value l = foldl (\<lambda>v c. 16 * v + (if c < 58 then unat c - 48 else unat c - 87)) 0 l"

definition bin_value :: "u8 list \<Rightarrow> nat" where
  "bin_value l = foldl (\<lambda>v c. 2 * v + (unat c - 48)) 0 l"

text \<open>The word of four bytes, the lowest first.\<close>

definition le_word :: "u8 list \<Rightarrow> nat" where
  "le_word bs = horner_sum unat 256 (take 4 bs)"

lemma byte_digit_value: "d < 16 \<Longrightarrow> (if byte_digit d < 58 then unat (byte_digit d) - 48 else unat (byte_digit d) - 87) = d"
  by (simp add: byte_digit_def word_less_nat_alt unat_of_nat)

lemma unat_byte_less: "unat b < 256" for b :: u8
proof -
  have "unat b < 2 ^ LENGTH(8)" by (rule unsigned_less)
  then show ?thesis by simp
qed

lemma hex2_value: "foldl (\<lambda>v c. 16 * v + (if c < 58 then unat c - 48 else unat c - 87)) v (hex2 b) = 256 * v + unat b"
proof -
  have "unat b < 256" using unat_byte_less [of b] by simp
  then have "unat b div 16 < 16" by (simp add: less_mult_imp_div_less)
  then show ?thesis using byte_digit_value [of "unat b div 16"] byte_digit_value [of "unat b mod 16"]
    by (simp add: hex2_def)
qed

lemma no_newline_hex2: "10 \<notin> set (hex2 b)"
proof -
  have "byte_digit d \<noteq> 10" if "d < 16" for d
  proof
    assume "byte_digit d = 10"
    then have "unat (byte_digit d) = 10" by simp
    with that show False by (simp add: byte_digit_def unat_of_nat split: if_splits)
  qed
  moreover have "unat b div 16 < 16" using unat_byte_less [of b] by (simp add: less_mult_imp_div_less)
  ultimately show ?thesis by (auto simp: hex2_def)
qed

lemma le_word_4: "4 \<le> length mem \<Longrightarrow>
    le_word mem = unat (mem ! 0) + 256 * (unat (mem ! 1) + 256 * (unat (mem ! 2) + 256 * unat (mem ! 3)))"
proof -
  assume "4 \<le> length mem"
  then obtain a b c d r where "mem = a # b # c # d # r"
    by (auto simp: eval_nat_numeral Suc_le_length_iff)
  then show ?thesis by (simp add: le_word_def)
qed

lemma coe_line: "4 \<le> length mem \<Longrightarrow> \<exists>l. coe_out mem = l @ [10] \<and> 10 \<notin> set l \<and> hex_value l = le_word mem"
  by (intro exI [of _ "hex2 (mem ! 3) @ hex2 (mem ! 2) @ hex2 (mem ! 1) @ hex2 (mem ! 0)"])
    (simp add: coe_out_def no_newline_hex2 hex_value_def hex2_value le_word_4)

lemma bits_value: "foldl (\<lambda>v c. 2 * v + (unat c - 48)) v (map (\<lambda>j. if b AND num ! j \<noteq> 0 then 49 else 48 :: u8) (rev [0..<8])) = 256 * v + unat b"
  for b :: u8
proof -
  define e where "e j = (of_bool (bit b j) :: nat)" for j
  have d: "unat (if b AND num ! j \<noteq> 0 then 49 else 48 :: u8) - 48 = e j" if "j < 8" for j
  proof -
    have "num ! j = push_bit j 1"
      using that by (auto simp: num_def less_Suc_eq eval_nat_numeral push_bit_eq_mult)
    then show ?thesis using that by (simp add: and_exp_eq_0_iff_not_bit e_def)
  qed
  have "unat b = horner_sum of_bool 2 (map (bit (unat b)) [0..<8])"
    using unat_byte_less [of b] by (simp only: horner_sum_bit_eq_take_bit) (simp add: take_bit_nat_eq_self)
  then have "unat b = horner_sum id 2 (map e [0..<8])"
    by (simp add: horner_sum_foldr foldr_map comp_def e_def bit_unsigned_iff cong: foldr_cong)
  moreover have "[0..<8] = [0, 1, 2, 3, 4, 5, 6, 7 :: nat]" by (simp add: upt_rec)
  ultimately show ?thesis by (simp add: d split del: if_split)
qed

lemma binary_line: "4 \<le> length mem \<Longrightarrow> \<exists>l. binary_out mem = l @ [10] \<and> 10 \<notin> set l \<and> bin_value l = le_word mem"
proof -
  assume mem: "4 \<le> length mem"
  let ?b = "\<lambda>i. map (\<lambda>j. if mem ! i AND num ! j \<noteq> 0 then 49 else 48 :: u8) (rev [0..<8])"
  have r: "rev [0..<4] = [3, 2, 1, 0 :: nat]" by (simp add: upt_rec)
  have "binary_out mem = (?b 3 @ ?b 2 @ ?b 1 @ ?b 0) @ [10]"
    unfolding binary_out_def r by (simp only: list.map concat.simps append_assoc append_Nil append_Nil2)
  moreover have "bin_value (?b 3 @ ?b 2 @ ?b 1 @ ?b 0) = le_word mem"
    unfolding bin_value_def foldl_append bits_value by (simp add: le_word_4 [OF mem])
  moreover have "10 \<notin> set (?b 3 @ ?b 2 @ ?b 1 @ ?b 0)" by auto
  ultimately show ?thesis by blast
qed

section \<open>Properties\<close>

text \<open>An image of the bytes \<open>bs\<close>: the header, then one line for each whole word, with its value, and one for
  the bytes \<open>t\<close>.\<close>

definition image_of :: "(u8 list \<Rightarrow> nat) \<Rightarrow> u8 list \<Rightarrow> u8 list \<Rightarrow> u8 list \<Rightarrow> u8 list \<Rightarrow> bool" where
  "image_of value header bs t out \<longleftrightarrow>
     (\<exists>ls. out = header @ concat (map (\<lambda>l. l @ [10]) ls) \<and> (\<forall>l \<in> set ls. 10 \<notin> set l) \<and>
       map value ls = map (\<lambda>i. le_word (drop (4 * i) bs)) [0..<length bs div 4] @ [le_word t])"

lemma le_word_take: "le_word (take 4 bs) = le_word bs"
  by (simp add: le_word_def)

lemma take_rows_list: "4 \<le> length mem \<Longrightarrow>
    map (take 4) (rows mem bs) = map (\<lambda>i. take 4 (drop (4 * i) bs)) [0..<length bs div 4] @ [tail_bytes mem bs]"
  by (rule nth_equalityI) (auto simp: length_rows nth_append less_Suc_eq take_rows)

lemma image_of_rows:
  assumes line: "\<And>m. 4 \<le> length m \<Longrightarrow> \<exists>l. line m = l @ [10] \<and> 10 \<notin> set l \<and> value l = le_word m"
    and mem: "4 \<le> length mem"
  shows "image_of value header bs (tail_bytes mem bs) (header @ concat (map line (rows mem bs)))"
proof -
  have len: "4 \<le> length m" if "m \<in> set (rows mem bs)" for m
    using that mem
  proof (induction mem bs rule: rows.induct)
    case (1 mem bs)
    then show ?case by (subst (asm) rows.simps) (auto split: if_splits)
  qed
  obtain g where g: "line m = g m @ [10]" "10 \<notin> set (g m)" "value (g m) = le_word m" if "4 \<le> length m" for m
    using line by metis
  have "map value (map g (rows mem bs)) = map le_word (map (take 4) (rows mem bs))"
    using g(3) len by (simp add: le_word_take)
  also have "map (take 4) (rows mem bs) = map (\<lambda>i. take 4 (drop (4 * i) bs)) [0..<length bs div 4] @ [tail_bytes mem bs]"
    using mem by (rule take_rows_list)
  finally have "map value (map g (rows mem bs)) = map (\<lambda>i. le_word (drop (4 * i) bs)) [0..<length bs div 4] @ [le_word (tail_bytes mem bs)]"
    by (simp add: le_word_take comp_def)
  moreover have "map line (rows mem bs) = map (\<lambda>l. l @ [10]) (map g (rows mem bs))" using g(1) len by simp
  moreover have "\<forall>l \<in> set (map g (rows mem bs)). 10 \<notin> set l" using g(2) len by simp
  ultimately show ?thesis unfolding image_of_def by metis
qed

lemma tail_bytes_last: "4 \<le> length mem \<Longrightarrow> tail_bytes (last (rows mem bs)) bs = tail_bytes mem bs"
proof -
  assume mem: "4 \<le> length mem"
  show ?thesis
  proof (cases "length bs < 4")
    case True
    then show ?thesis using mem by (subst rows.simps) (simp add: tail_bytes_def drop_take)
  next
    case False
    then have "length bs div 4 \<noteq> 0" by simp
    then show ?thesis by (simp only: tail_bytes_def Let_def if_False)
  qed
qed

lemma length_last_rows: "4 \<le> length mem \<Longrightarrow> 4 \<le> length (last (rows mem bs))"
proof (induction mem bs rule: rows.induct)
  case (1 mem bs)
  then show ?case by (subst rows.simps) (auto simp: rows.simps [of _ "drop 4 bs"])
qed

lemma convert_main_eq:
  assumes "fs (dir @ name) = Some bs" "length dir + length name < 256" "length dir < 245"
    "writable (dir @ ascii ''axi_ram.coe'')" "writable (dir @ ascii ''axi_ram.mif'')"
    "name \<noteq> ascii ''axi_ram.coe''" "name \<noteq> ascii ''axi_ram.mif''"
  shows "convert_main writable mem [prog, name, dir] fs =
    Some (fs(dir @ ascii ''axi_ram.coe'' \<mapsto> coe_header @ concat (map coe_out (rows mem bs)),
      dir @ ascii ''axi_ram.mif'' \<mapsto> concat (map binary_out (rows (last (rows mem bs)) bs))), [], 0)"
proof -
  let ?coe = "dir @ ascii ''axi_ram.coe''" and ?mif = "dir @ ascii ''axi_ram.mif''"
  have p: "join_path dir name = Some (dir @ name)" "join_path dir (ascii ''axi_ram.coe'') = Some ?coe"
    "join_path dir (ascii ''axi_ram.mif'') = Some ?mif"
    using assms(2,3) by (simp_all add: join_path_def)
  have "dir @ name \<noteq> ?coe" "dir @ name \<noteq> ?mif" using assms(6,7) by simp_all
  then show ?thesis using assms(1,4,5) by (simp add: convert_main_def p convert_file_eq del: ascii_Cons)
qed

text \<open>C23: the two images that \<open>convert\<close> makes hold the words of its input in their order, in hexadecimal and in
  binary digits, and then one word more: the bytes behind the last whole word, filled up with those that
  were in \<open>mem\<close> before.  No other file changes.\<close>

theorem convert_images:
  assumes "fs (dir @ name) = Some bs" "length dir + length name < 256" "length dir < 245"
    "writable (dir @ ascii ''axi_ram.coe'')" "writable (dir @ ascii ''axi_ram.mif'')"
    "name \<noteq> ascii ''axi_ram.coe''" "name \<noteq> ascii ''axi_ram.mif''" "4 \<le> length mem"
  shows "\<exists>coe mif. convert_main writable mem [prog, name, dir] fs =
      Some (fs(dir @ ascii ''axi_ram.coe'' \<mapsto> coe, dir @ ascii ''axi_ram.mif'' \<mapsto> mif), [], 0) \<and>
    image_of hex_value coe_header bs (tail_bytes mem bs) coe \<and> image_of bin_value [] bs (tail_bytes mem bs) mif"
proof -
  let ?m = "last (rows mem bs)"
  have "image_of bin_value [] bs (tail_bytes ?m bs) ([] @ concat (map binary_out (rows ?m bs)))"
    using assms(8) by (intro image_of_rows binary_line length_last_rows)
  then show ?thesis
    using convert_main_eq [where fs = fs and dir = dir and writable = writable and mem = mem and prog = prog, OF assms(1-7)] tail_bytes_last [OF assms(8)]
      image_of_rows [of coe_out hex_value mem coe_header bs, OF coe_line assms(8)] by auto
qed

lemma convert_images_witness:
  "\<exists>coe mif. convert_main (\<lambda>_. True) (replicate 32 7) [[99], ascii ''a.bin'', ascii ''obj/''] [ascii ''obj/a.bin'' \<mapsto> [1, 2, 3, 4, 5, 6]] =
      Some ([ascii ''obj/a.bin'' \<mapsto> [1, 2, 3, 4, 5, 6], ascii ''obj/'' @ ascii ''axi_ram.coe'' \<mapsto> coe,
        ascii ''obj/'' @ ascii ''axi_ram.mif'' \<mapsto> mif], [], 0) \<and>
    image_of hex_value coe_header [1, 2, 3, 4, 5, 6] (tail_bytes (replicate 32 7) [1, 2, 3, 4, 5, 6]) coe \<and>
    image_of bin_value [] [1, 2, 3, 4, 5, 6] (tail_bytes (replicate 32 7) [1, 2, 3, 4, 5, 6]) mif"
  by (rule convert_images) simp_all

text \<open>So an image is one line too long when the input has whole words only, and the line repeats the last word.\<close>

lemma tail_repeats:
  "length bs = 4 * Suc n \<Longrightarrow> le_word (tail_bytes mem bs) = le_word (drop (4 * n) bs)"
  by (simp add: tail_bytes_def le_word_take)

end
