(* ===== verification/SimMem.thy ===== *)
theory SimMem
  imports CBase
begin

text \<open>
  The memory side of the simulator in \<^verbatim>\<open>src/verilate\<close>, in C++: \<open>BlockMemory\<close>
  (\<^verbatim>\<open>source/memory.cpp\<close>), the placement of data on the bus (\<open>LoadOp\<close> of
  \<^verbatim>\<open>include/bus.h\<close>), burst transactions (\<^verbatim>\<open>include/axi.h\<close>) and the device at the
  end of the bus (\<^verbatim>\<open>source/cbus_device.cpp\<close>).  A failed assertion is \<open>None\<close>.  \<open>size_t\<close> has 64 bits
  and is a \<open>nat\<close>; addresses and words have 32.  The virtual functions of \<open>IMemory\<close> are a record
  (\<open>imemory\<close>), what a memory promises is the locale \<open>ram\<close>; the transactions are verified in it.
\<close>

unbundle bit_operations_syntax

section \<open>BlockMemory\<close>

record block_mem =
  bm_size :: nat
  bm_offset :: u32
  bm_mem :: "u32 list"
  bm_saved :: "u32 list"

definition block_new :: "nat \<Rightarrow> u32 \<Rightarrow> block_mem option" where
  "block_new size' offset =
     (if size' mod 4 = 0
      then Some \<lparr>bm_size = size', bm_offset = offset, bm_mem = replicate (size' div 4) 0, bm_saved = replicate (size' div 4) 0\<rparr>
      else None)"

text \<open>The loop of \<open>map\<close>, from byte \<open>k\<close> of the block on.\<close>

fun map_bytes :: "nat \<Rightarrow> u8 list \<Rightarrow> u32 list \<Rightarrow> u32 list" where
  "map_bytes k [] mem = mem"
| "map_bytes k (d # ds) mem =
     (let index = k div 4; shamt = k mod 4 * 8; mask = NOT (push_bit shamt 0xff)
      in map_bytes (k + 1) ds (mem[index := (mem ! index AND mask) OR push_bit shamt (ucast d)]))"

definition block_map :: "u32 \<Rightarrow> u8 list \<Rightarrow> block_mem \<Rightarrow> block_mem option" where
  "block_map a data b =
     (let a = a - bm_offset b
      in if unat a + length data \<le> bm_size b then Some (b\<lparr>bm_mem := map_bytes (unat a) data (bm_mem b)\<rparr>) else None)"

definition block_of_size :: "nat \<Rightarrow> u8 list \<Rightarrow> u32 \<Rightarrow> block_mem option" where
  "block_of_size size' data offset =
     do { b \<leftarrow> block_new size' offset; b \<leftarrow> block_map offset data b; Some (b\<lparr>bm_saved := bm_mem b\<rparr>) }"

definition block_of_data :: "u8 list \<Rightarrow> u32 \<Rightarrow> block_mem option" where
  "block_of_data data offset =
     do { b \<leftarrow> block_new (length data) offset; b \<leftarrow> block_map offset data b; Some (b\<lparr>bm_saved := bm_mem b\<rparr>) }"

definition block_reset :: "block_mem \<Rightarrow> block_mem" where
  "block_reset b = b\<lparr>bm_mem := bm_saved b\<rparr>"

definition block_load :: "block_mem \<Rightarrow> u32 \<Rightarrow> u32 option" where
  "block_load b a =
     (let a = a - bm_offset b in if unat a < bm_size b then Some (bm_mem b ! (unat a div 4)) else None)"

definition block_store :: "block_mem \<Rightarrow> u32 \<Rightarrow> u32 \<Rightarrow> u32 \<Rightarrow> block_mem option" where
  "block_store b a data msk =
     (let a = a - bm_offset b; index = unat a div 4
      in if unat a < bm_size b
         then Some (b\<lparr>bm_mem := (bm_mem b)[index := (bm_mem b ! index AND NOT msk) OR (data AND msk)]\<rparr>)
         else None)"

definition block_dump :: "block_mem \<Rightarrow> u32 \<Rightarrow> nat \<Rightarrow> u32 list option" where
  "block_dump b a size' =
     (if a AND 3 = 0 \<and> size' mod 4 = 0
      then let a = unat (drop_bit 2 a); n = size' div 4
           in if a + n \<le> length (bm_mem b) then Some (take n (drop a (bm_mem b))) else None
      else None)"

section \<open>Placement on the bus\<close>

definition STROBE_TO_MASK :: "u32 list" where
  "STROBE_TO_MASK =
     [0x00000000, 0x000000ff, 0x0000ff00, 0x0000ffff, 0x00ff0000, 0x00ff00ff, 0x00ffff00, 0x00ffffff,
      0xff000000, 0xff0000ff, 0xff00ff00, 0xff00ffff, 0xffff0000, 0xffff00ff, 0xffffff00, 0xffffffff]"

datatype load_op = DISCARD | SIZE1_SHT0 | SIZE1_SHT8 | SIZE1_SHT16 | SIZE1_SHT24 | SIZE2_SHT0 | SIZE2_SHT16 | SIZE4_SHT0

text \<open>\<open>Width\<close> is 1, 2 or 4, by a static assertion.\<close>

definition op_parse :: "nat \<Rightarrow> u32 \<Rightarrow> load_op" where
  "op_parse width a =
     (if width = 4 then SIZE4_SHT0
      else if width = 2 then (if a AND 2 \<noteq> 0 then SIZE2_SHT16 else SIZE2_SHT0)
      else if a AND 3 = 1 then SIZE1_SHT8 else if a AND 3 = 2 then SIZE1_SHT16
      else if a AND 3 = 3 then SIZE1_SHT24 else SIZE1_SHT0)"

fun op_strobe :: "load_op \<Rightarrow> u32" where
  "op_strobe SIZE4_SHT0 = 0b1111"
| "op_strobe SIZE2_SHT16 = 0b1100"
| "op_strobe SIZE2_SHT0 = 0b0011"
| "op_strobe SIZE1_SHT24 = 0b1000"
| "op_strobe SIZE1_SHT16 = 0b0100"
| "op_strobe SIZE1_SHT8 = 0b0010"
| "op_strobe SIZE1_SHT0 = 0b0001"
| "op_strobe DISCARD = 0"

fun op_mask :: "load_op \<Rightarrow> u32" where
  "op_mask SIZE4_SHT0 = 0xffffffff"
| "op_mask SIZE2_SHT16 = 0xffff0000"
| "op_mask SIZE2_SHT0 = 0x0000ffff"
| "op_mask SIZE1_SHT24 = 0xff000000"
| "op_mask SIZE1_SHT16 = 0x00ff0000"
| "op_mask SIZE1_SHT8 = 0x0000ff00"
| "op_mask SIZE1_SHT0 = 0x000000ff"
| "op_mask DISCARD = 0"

fun op_place :: "load_op \<Rightarrow> u32 \<Rightarrow> u32" where
  "op_place SIZE1_SHT24 data = push_bit 24 data"
| "op_place SIZE2_SHT16 data = push_bit 16 data"
| "op_place SIZE1_SHT16 data = push_bit 16 data"
| "op_place SIZE1_SHT8 data = push_bit 8 data"
| "op_place _ data = data"

fun op_apply :: "load_op \<Rightarrow> u32 \<Rightarrow> u32" where
  "op_apply SIZE4_SHT0 data = data"
| "op_apply SIZE2_SHT0 data = data"
| "op_apply SIZE1_SHT0 data = data"
| "op_apply SIZE1_SHT24 data = drop_bit 24 data"
| "op_apply SIZE2_SHT16 data = drop_bit 16 data"
| "op_apply SIZE1_SHT16 data = drop_bit 16 data"
| "op_apply SIZE1_SHT8 data = drop_bit 8 data"
| "op_apply DISCARD data = 0"

text \<open>\<open>apply\<close> to a destination in the memory of the host, which is little-endian: the cases fall through.\<close>

definition put_le :: "nat \<Rightarrow> u32 \<Rightarrow> (nat \<Rightarrow> u8) \<Rightarrow> nat \<Rightarrow> nat \<Rightarrow> u8" where
  "put_le n v m dest = (\<lambda>p. if dest \<le> p \<and> p < dest + n then ucast (drop_bit (8 * (p - dest)) v) else m p)"

definition op_apply_to :: "load_op \<Rightarrow> u32 \<Rightarrow> (nat \<Rightarrow> u8) \<Rightarrow> nat \<Rightarrow> nat \<Rightarrow> u8" where
  "op_apply_to op data m dest =
     (let data = op_apply op data;
          m = (if op = SIZE4_SHT0 then put_le 4 data m dest else m);
          m = (if op \<in> {SIZE4_SHT0, SIZE2_SHT16, SIZE2_SHT0} then put_le 2 data m dest else m)
      in if op \<noteq> DISCARD then put_le 1 data m dest else m)"

section \<open>Transactions\<close>

record axi_tx =
  tx_busy :: bool
  tx_is_write :: bool
  tx_aligned :: bool
  tx_N :: u32
  tx_addr :: u32
  Start_Address :: u32
  Number_Bytes :: u32
  Burst_Length :: u32
  Aligned_Address :: u32
  Lower_Wrap_Boundry :: u32
  Upper_Wrap_Boundry :: u32

definition axi_reset :: axi_tx where
  "axi_reset = \<lparr>tx_busy = False, tx_is_write = False, tx_aligned = False, tx_N = 0, tx_addr = 0, Start_Address = 0,
     Number_Bytes = 0, Burst_Length = 0, Aligned_Address = 0, Lower_Wrap_Boundry = 0, Upper_Wrap_Boundry = 0\<rparr>"

text \<open>A shift by 32 and more and a division by zero have no result.\<close>

definition axi_init :: "u32 \<Rightarrow> u32 \<Rightarrow> u32 \<Rightarrow> axi_tx \<Rightarrow> axi_tx option" where
  "axi_init AxADDR AxSIZE AxLEN tx =
     (let n = push_bit (unat AxSIZE) 1; l = AxLEN + 1; dtsize = n * l; lower = AxADDR div dtsize * dtsize
      in if unat AxSIZE < 32 \<and> dtsize \<noteq> 0
         then Some (tx\<lparr>Start_Address := AxADDR, Number_Bytes := n, Burst_Length := l,
           Aligned_Address := AxADDR div n * n, Lower_Wrap_Boundry := lower, Upper_Wrap_Boundry := lower + dtsize,
           tx_aligned := False, tx_N := 1, tx_addr := AxADDR\<rparr>)
         else None)"

definition axi_sync :: "axi_tx \<Rightarrow> axi_tx" where
  "axi_sync tx =
     (let a = (if tx_aligned tx then tx_addr tx + Number_Bytes tx else Aligned_Address tx + Number_Bytes tx)
      in tx\<lparr>tx_N := tx_N tx + 1, tx_aligned := True,
           tx_addr := (if a \<ge> Upper_Wrap_Boundry tx then Lower_Wrap_Boundry tx else a)\<rparr>)"

definition axi_last :: "axi_tx \<Rightarrow> bool" where
  "axi_last tx \<longleftrightarrow> tx_N tx = Burst_Length tx"

section \<open>CBusDevice\<close>

text \<open>The interface \<open>IMemory\<close>; a load may change the state of a device.\<close>

record 'm imemory =
  im_reset :: "'m \<Rightarrow> 'm"
  im_load :: "'m \<Rightarrow> u32 \<Rightarrow> (u32 \<times> 'm) option"
  im_store :: "'m \<Rightarrow> u32 \<Rightarrow> u32 \<Rightarrow> u32 \<Rightarrow> 'm option"

record 'm cbus_device =
  cb_mem :: 'm
  cb_enable :: bool
  cb_strobe :: u32
  cb_data :: u32
  cb_tx :: axi_tx
  cb_ntx :: axi_tx

record cbus_req =
  rq_valid :: bool
  rq_is_write :: bool
  rq_size :: u32
  rq_addr :: u32
  rq_strobe :: u32
  rq_data :: u32
  rq_len :: u32

record cbus_resp =
  rs_ready :: bool
  rs_last :: bool
  rs_data :: u32

definition no_resp :: cbus_resp where
  "no_resp = \<lparr>rs_ready = False, rs_last = False, rs_data = 0\<rparr>"

definition make_response :: "cbus_resp \<Rightarrow> 64 word" where
  "make_response r = push_bit 33 (of_bool (rs_ready r)) OR push_bit 32 (of_bool (rs_last r)) OR ucast (rs_data r)"

definition parse_response :: "64 word \<Rightarrow> cbus_resp" where
  "parse_response w = \<lparr>rs_ready = (drop_bit 33 w AND 1 \<noteq> 0), rs_last = (drop_bit 32 w AND 1 \<noteq> 0), rs_data = ucast (w AND 0xffffffff)\<rparr>"

definition cbus_reset :: "'m imemory \<Rightarrow> 'm cbus_device \<Rightarrow> 'm cbus_device" where
  "cbus_reset ops d = d\<lparr>cb_mem := im_reset ops (cb_mem d), cb_tx := axi_reset, cb_ntx := axi_reset, cb_strobe := 0, cb_data := 0\<rparr>"

definition eval_resp :: "'m imemory \<Rightarrow> 'm cbus_device \<Rightarrow> (cbus_resp \<times> 'm cbus_device) option" where
  "eval_resp ops d =
     (if \<not> cb_enable d \<or> \<not> tx_busy (cb_tx d) then Some (no_resp, d)
      else if tx_is_write (cb_tx d) then Some (\<lparr>rs_ready = True, rs_last = axi_last (cb_tx d), rs_data = 0\<rparr>, d)
      else do { (data, m) \<leftarrow> im_load ops (cb_mem d) (tx_addr (cb_tx d));
                Some (\<lparr>rs_ready = True, rs_last = axi_last (cb_tx d), rs_data = data\<rparr>, d\<lparr>cb_mem := m\<rparr>) })"

definition eval_req :: "cbus_req \<Rightarrow> 'm cbus_device \<Rightarrow> 'm cbus_device option" where
  "eval_req req d =
     (let tx = cb_tx d
      in if \<not> cb_enable d then Some d
         else if tx_busy tx
         then (if rq_valid req \<and> rq_is_write req = tx_is_write tx \<and> unat (rq_size req) < 32 \<and>
                  push_bit (unat (rq_size req)) 1 = Number_Bytes tx \<and> rq_addr req = Start_Address tx \<and>
                  rq_len req + 1 = Burst_Length tx
               then Some (d\<lparr>cb_strobe := rq_strobe req, cb_data := rq_data req,
                      cb_ntx := (if axi_last tx then axi_reset else axi_sync (cb_ntx d))\<rparr>)
               else None)
         else if rq_valid req
         then do { ntx \<leftarrow> axi_init (rq_addr req) (rq_size req) (rq_len req) (cb_ntx d);
                   Some (d\<lparr>cb_ntx := ntx\<lparr>tx_busy := True, tx_is_write := rq_is_write req\<rparr>\<rparr>) }
         else Some d)"

text \<open>\<open>en\<close>: what the random number decides about the next cycle.\<close>

definition cbus_sync :: "'m imemory \<Rightarrow> bool \<Rightarrow> 'm cbus_device \<Rightarrow> 'm cbus_device option" where
  "cbus_sync ops en d =
     do { d \<leftarrow> (if cb_enable d
            then do { d \<leftarrow> (if tx_busy (cb_tx d) \<and> tx_is_write (cb_tx d)
                         then if unat (cb_strobe d) < length STROBE_TO_MASK
                              then do { m \<leftarrow> im_store ops (cb_mem d) (tx_addr (cb_tx d)) (cb_data d) (STROBE_TO_MASK ! unat (cb_strobe d));
                                        Some (d\<lparr>cb_mem := m, cb_strobe := 0, cb_data := 0\<rparr>) }
                              else None
                         else Some d);
                      Some (d\<lparr>cb_tx := cb_ntx d\<rparr>) }
            else Some d);
          Some (d\<lparr>cb_enable := en\<rparr>) }"

text \<open>A cycle of the clock, as \<open>tick\<close> of the models has it.\<close>

definition bus_cycle :: "'m imemory \<Rightarrow> bool \<Rightarrow> cbus_req \<Rightarrow> 'm cbus_device \<Rightarrow> (cbus_resp \<times> 'm cbus_device) option" where
  "bus_cycle ops en req d =
     do { (resp, d) \<leftarrow> eval_resp ops d; d \<leftarrow> eval_req req d; d \<leftarrow> cbus_sync ops en d; Some (resp, d) }"

section \<open>The reference model of the cache\<close>

text \<open>\<open>buffer\<close> holds a line of 16 words.\<close>

record cache_ref =
  rf_mem :: block_mem
  rf_buffer :: "u32 list"

fun ref_line :: "block_mem \<Rightarrow> u32 \<Rightarrow> nat \<Rightarrow> u32 list option" where
  "ref_line b a 0 = Some []"
| "ref_line b a (Suc n) = do { v \<leftarrow> block_load b a; r \<leftarrow> ref_line b (a + 4) n; Some (v # r) }"

definition ref_load :: "cache_ref \<Rightarrow> u32 \<Rightarrow> (u32 \<times> cache_ref) option" where
  "ref_load r a =
     do { buf \<leftarrow> ref_line (rf_mem r) (a div 64 * 64) 16;
          Some (buf ! (unat a mod 64 div 4), r\<lparr>rf_buffer := buf\<rparr>) }"

definition ref_store :: "cache_ref \<Rightarrow> u32 \<Rightarrow> u32 \<Rightarrow> u32 \<Rightarrow> cache_ref option" where
  "ref_store r a strobe data =
     do { buf \<leftarrow> ref_line (rf_mem r) (a div 64 * 64) 16;
          let msk = STROBE_TO_MASK ! unat (strobe AND 0xf);
          let i = unat a mod 64 div 4;
          m \<leftarrow> block_store (rf_mem r) a data msk;
          Some (r\<lparr>rf_mem := m, rf_buffer := buf[i := (data AND msk) OR (buf ! i AND NOT msk)]\<rparr>) }"

definition ref_reset :: "cache_ref \<Rightarrow> cache_ref" where
  "ref_reset r = r\<lparr>rf_mem := block_reset (rf_mem r)\<rparr>"

section \<open>Cells of memory\<close>

text \<open>\<open>MemoryCell\<close> over a bus, here over the loads and stores of any model; \<open>T\<close> has 1, 2 or 4 bytes, and the
  value of \<open>get\<close> is cut to it.\<close>

definition cell_get :: "('s \<Rightarrow> u32 \<Rightarrow> (u32 \<times> 's) option) \<Rightarrow> nat \<Rightarrow> u32 \<Rightarrow> 's \<Rightarrow> (u32 \<times> 's) option" where
  "cell_get load w a st = do { (v, st) \<leftarrow> load st a; Some (take_bit (8 * w) (op_apply (op_parse w a) v), st) }"

definition cell_set :: "('s \<Rightarrow> u32 \<Rightarrow> u32 \<Rightarrow> u32 \<Rightarrow> 's option) \<Rightarrow> nat \<Rightarrow> u32 \<Rightarrow> u32 \<Rightarrow> 's \<Rightarrow> 's option" where
  "cell_set store w a v st = (let op = op_parse w a in store st a (op_strobe op) (op_place op v))"

section \<open>Bytes of a block\<close>

definition wbyte :: "u32 \<Rightarrow> nat \<Rightarrow> u8" where
  "wbyte w i = ucast (drop_bit (8 * i) w)"

definition bytes_at :: "u32 list \<Rightarrow> nat \<Rightarrow> u8" where
  "bytes_at mem k = wbyte (mem ! (k div 4)) (k mod 4)"

definition block_ok :: "block_mem \<Rightarrow> bool" where
  "block_ok b \<longleftrightarrow> bm_size b mod 4 = 0 \<and> length (bm_mem b) = bm_size b div 4 \<and> length (bm_saved b) = bm_size b div 4"

lemma bit_wbyte: "bit (wbyte w i) n \<longleftrightarrow> n < 8 \<and> bit w (8 * i + n)"
  by (auto simp: wbyte_def bit_ucast_iff bit_drop_bit_eq)

lemma wbyte_merge: "wbyte ((v AND NOT m) OR (d AND m)) i =
    (wbyte v i AND NOT (wbyte m i)) OR (wbyte d i AND wbyte m i)" if "i < 4"
  using that by (intro bit_word_eqI) (auto simp: bit_wbyte bit_simps)

lemma wbyte_place: "i < 4 \<Longrightarrow> j < 4 \<Longrightarrow>
    wbyte ((v AND NOT (push_bit (j * 8) 0xff)) OR push_bit (j * 8) (ucast (d :: u8))) i = (if i = j then d else wbyte v i)"
proof (rule bit_word_eqI)
  fix n assume i: "i < 4" "j < 4" and n: "n < LENGTH(8)"
  have "(0xff :: int) = mask 8" by (simp add: mask_eq_exp_minus_1)
  then have f: "bit (0xff :: int) k \<longleftrightarrow> k < 8" for k by (simp only: bit_mask_iff) simp
  have "8 * i + n - j * 8 < 8 \<and> j * 8 \<le> 8 * i + n \<longleftrightarrow> i = j" using n by auto
  then show "bit (wbyte ((v AND NOT (push_bit (j * 8) 0xff)) OR push_bit (j * 8) (ucast d)) i) n = bit (if i = j then d else wbyte v i) n"
    using i n by (auto simp: bit_wbyte bit_simps f dest: bit_imp_le_length)
qed

lemma wbyte_eqI: "(\<And>i. i < 4 \<Longrightarrow> wbyte v i = wbyte w i) \<Longrightarrow> v = w"
proof (rule bit_word_eqI)
  fix n assume w: "\<And>i. i < 4 \<Longrightarrow> wbyte v i = wbyte w i" and n: "n < LENGTH(32)"
  have "bit (wbyte v (n div 8)) (n mod 8) = bit (wbyte w (n div 8)) (n mod 8)" using w [of "n div 8"] n by simp
  then show "bit v n = bit w n" by (simp add: bit_wbyte)
qed

lemma length_map_bytes [simp]: "length (map_bytes k ds mem) = length mem"
  by (induction k ds mem rule: map_bytes.induct) (auto simp: Let_def)

lemma bytes_at_upd:
  "k < 4 * length mem \<Longrightarrow> bytes_at (mem[k div 4 := v]) j = (if j div 4 = k div 4 then wbyte v (j mod 4) else bytes_at mem j)"
  by (auto simp: bytes_at_def nth_list_update less_mult_imp_div_less mult.commute)

lemma map_bytes_at:
  "k + length ds \<le> 4 * length mem \<Longrightarrow>
   bytes_at (map_bytes k ds mem) j = (if k \<le> j \<and> j < k + length ds then ds ! (j - k) else bytes_at mem j)"
proof (induction k ds mem rule: map_bytes.induct)
  case (2 k d ds mem)
  define mem' where "mem' = mem[k div 4 := (mem ! (k div 4) AND NOT (push_bit (k mod 4 * 8) 0xff)) OR push_bit (k mod 4 * 8) (ucast d)]"
  have "bytes_at mem' j = (if j div 4 = k div 4 then (if j mod 4 = k mod 4 then d else bytes_at mem j) else bytes_at mem j)"
    using 2(2) unfolding mem'_def by (subst bytes_at_upd) (simp_all add: wbyte_place bytes_at_def)
  moreover have "j div 4 = k div 4 \<and> j mod 4 = k mod 4 \<longleftrightarrow> j = k" by (metis div_mult_mod_eq)
  ultimately have u: "bytes_at mem' j = (if j = k then d else bytes_at mem j)" by auto
  have "bytes_at (map_bytes (k + 1) ds mem') j = (if k + 1 \<le> j \<and> j < k + 1 + length ds then ds ! (j - (k + 1)) else bytes_at mem' j)"
    using 2 by (simp add: mem'_def Let_def)
  then show ?case using u by (auto simp: mem'_def [symmetric] Let_def nth_Cons')
qed auto

lemma block_of_size_ok:
  assumes "size' mod 4 = 0" "length data \<le> size'" "size' \<le> 4294967296"
  shows "\<exists>b. block_of_size size' data offset = Some b \<and> block_ok b \<and> bm_size b = size' \<and> bm_offset b = offset \<and>
    bm_saved b = bm_mem b \<and> (\<forall>j < size'. bytes_at (bm_mem b) j = (if j < length data then data ! j else 0))"
proof -
  have c: "4 * (size' div 4) = size'" using assms(1) by (simp add: mod_eq_0_iff_dvd)
  have z: "bytes_at (replicate (size' div 4) 0) j = 0" if "j < size'" for j
  proof -
    have "j div 4 < size' div 4" using that c by (intro less_mult_imp_div_less) simp
    then show ?thesis by (simp add: bytes_at_def wbyte_def)
  qed
  from c show ?thesis using assms z map_bytes_at [of 0 data "replicate (size' div 4) 0"]
    by (simp add: block_of_size_def block_new_def block_map_def Let_def block_ok_def)
qed

lemma block_load_ok:
  "block_ok b \<Longrightarrow> unat (a - bm_offset b) < bm_size b \<Longrightarrow>
   block_load b a = Some (bm_mem b ! (unat (a - bm_offset b) div 4)) \<and> unat (a - bm_offset b) div 4 < length (bm_mem b)"
  by (auto simp: block_load_def Let_def block_ok_def less_mult_imp_div_less mod_eq_0_iff_dvd)

section \<open>Bursts\<close>

text \<open>The state of a transaction after \<open>k\<close> beats.\<close>

definition beat :: "axi_tx \<Rightarrow> nat \<Rightarrow> axi_tx" where
  "beat t k = (axi_sync ^^ k) t"

lemma beat_Suc: "beat t (Suc k) = axi_sync (beat t k)" and beat_0 [simp]: "beat t 0 = t"
  by (simp_all add: beat_def)

lemma beat_fields:
  "Number_Bytes (beat t k) = Number_Bytes t" "Burst_Length (beat t k) = Burst_Length t"
  "Start_Address (beat t k) = Start_Address t" "Aligned_Address (beat t k) = Aligned_Address t"
  "Lower_Wrap_Boundry (beat t k) = Lower_Wrap_Boundry t" "Upper_Wrap_Boundry (beat t k) = Upper_Wrap_Boundry t"
  "tx_busy (beat t k) = tx_busy t" "tx_is_write (beat t k) = tx_is_write t"
  "tx_N (beat t k) = tx_N t + of_nat k" "tx_aligned (beat t k) = (tx_aligned t \<or> 0 < k)"
  by (induction k) (simp_all add: beat_Suc axi_sync_def Let_def)

lemma wrap_step:
  fixes n l :: nat
  assumes "0 < n" "0 < l" "n dvd a"
  shows "(a + n) mod (n * l) = (if a mod (n * l) + n \<ge> n * l then 0 else a mod (n * l) + n)"
proof -
  have "n dvd a mod (n * l)" using assms(3) by (simp add: dvd_mod)
  then obtain q where q: "a mod (n * l) = n * q" by blast
  have "a mod (n * l) < n * l" using assms(1,2) by simp
  then have "q < l" using q assms(1) by simp
  have "(a + n) mod (n * l) = (n * q + n) mod (n * l)" using q by (metis mod_add_left_eq)
  also have "\<dots> = (n * Suc q) mod (n * l)" by (simp add: algebra_simps)
  also have "\<dots> = n * (Suc q mod l)" by (simp add: mult_mod_right)
  also have "\<dots> = (if n * q + n \<ge> n * l then 0 else n * q + n)"
  proof (cases "Suc q = l")
    case True
    then show ?thesis by auto
  next
    case False
    then have "Suc q < l" using \<open>q < l\<close> by simp
    then have "n * Suc q < n * l" using assms(1) by (simp only: mult_less_cancel1)
    then show ?thesis using \<open>Suc q < l\<close> by simp
  qed
  finally show ?thesis by (simp add: q)
qed

text \<open>The address of a beat: the burst goes round in the block of its length that holds the first address.\<close>

lemma beat_addr:
  assumes t: "axi_init a sz len t0 = Some t" and al: "unat a mod 2 ^ unat sz = 0"
    and n: "unat sz < 32" "2 ^ unat sz * (unat len + 1) < (2 :: nat) ^ 32"
    and top: "unat a div (2 ^ unat sz * (unat len + 1)) * (2 ^ unat sz * (unat len + 1)) + 2 ^ unat sz * (unat len + 1) < 2 ^ 32"
  shows "unat (tx_addr (beat t k)) = unat a div (2 ^ unat sz * (unat len + 1)) * (2 ^ unat sz * (unat len + 1)) +
    (unat a + 2 ^ unat sz * k) mod (2 ^ unat sz * (unat len + 1))"
proof -
  define N :: nat where "N = 2 ^ unat sz"
  define D where "D = N * (unat len + 1)"
  have "0 < N" by (simp add: N_def)
  then have D: "0 < D" "N \<le> D" by (simp_all add: D_def)
  have nl: "unat len + 1 < 2 ^ 32"
  proof -
    have "1 * (unat len + 1) \<le> D" unfolding D_def using \<open>0 < N\<close> by (intro mult_le_mono) simp_all
    then show ?thesis using n(2) unfolding D_def N_def by (intro le_less_trans [OF _ n(2)]) simp
  qed
  define p :: u32 where "p = push_bit (unat sz) 1"
  have Dlt: "D < 2 ^ 32" using n(2) by (simp only: D_def N_def)
  have uN: "unat p = N"
  proof -
    have "(2 :: nat) ^ unat sz < 2 ^ 32" using n(1) by (intro power_strict_increasing) simp_all
    then have "unat (of_nat (2 ^ unat sz) :: u32) = 2 ^ unat sz" by (intro unat_of_nat32) simp
    then show ?thesis by (simp add: N_def p_def push_bit_eq_mult)
  qed
  have ul: "unat (len + 1) = unat len + 1" using nl by (simp add: unat_add_small)
  define d where "d = p * (len + 1)"
  have uD: "unat d = D"
    unfolding d_def using Dlt by (simp add: unat_word_ariths(2) uN ul D_def)
  define lo where "lo = unat a div D * D"
  have top': "lo + D < 2 ^ 32" using top by (simp only: lo_def D_def N_def)
  have ulo: "unat (a div d * d) = lo"
    using top' by (simp add: unat_word_ariths(2) unat_div_distrib uD lo_def)
  have uhi: "unat (a div d * d + d) = lo + D"
    using top' by (subst unat_add_small) (simp_all add: ulo uD)
  have ual: "a div p * p = a"
  proof (rule word_unat_eq_iff [THEN iffD2])
    have "N * (unat a div N) = unat a" using al by (metis N_def mult_div_mod_eq add_0_right)
    moreover have "unat a < 2 ^ LENGTH(32)" by (rule unsigned_less)
    ultimately show "unat (a div p * p) = unat a"
      by (simp add: unat_word_ariths(2) unat_div_distrib uN mult.commute)
  qed
  have f: "unat (Number_Bytes t) = N" "unat (Lower_Wrap_Boundry t) = lo" "unat (Upper_Wrap_Boundry t) = lo + D"
      "Aligned_Address t = a" "tx_addr t = a" "tx_aligned t = False"
    using t unfolding axi_init_def Let_def p_def [symmetric] d_def [symmetric] by (auto simp: uN ulo uhi ual split: if_splits)
  have step: "unat (tx_addr (beat t (Suc k))) =
      (if unat (tx_addr (beat t k)) + N \<ge> lo + D then lo else unat (tx_addr (beat t k)) + N)"
    if "unat (tx_addr (beat t k)) + N \<le> lo + D" for k
  proof -
    have "tx_addr (beat t (Suc k)) = (if tx_addr (beat t k) + Number_Bytes t \<ge> Upper_Wrap_Boundry t
        then Lower_Wrap_Boundry t else tx_addr (beat t k) + Number_Bytes t)"
      unfolding beat_Suc axi_sync_def Let_def using f by (cases "k = 0") (simp_all add: beat_fields)
    moreover have "unat (tx_addr (beat t k) + Number_Bytes t) = unat (tx_addr (beat t k)) + N"
      using that top' by (simp add: unat_add_small f)
    ultimately show ?thesis by (simp add: word_le_nat_alt f)
  qed
  have "unat (tx_addr (beat t k)) = lo + (unat a + N * k) mod D"
  proof (induction k)
    case 0
    then show ?case using f by (simp add: lo_def)
  next
    case (Suc k)
    have "N dvd unat a + N * k" using al by (auto simp: N_def mod_eq_0_iff_dvd)
    then have w: "(unat a + N * k + N) mod D = (if (unat a + N * k) mod D + N \<ge> D then 0 else (unat a + N * k) mod D + N)"
      unfolding D_def using \<open>0 < N\<close> by (intro wrap_step) simp_all
    have "(unat a + N * k) mod D < D" using D by simp
    moreover have "N dvd D - (unat a + N * k) mod D"
      using \<open>N dvd unat a + N * k\<close> by (intro dvd_diff_nat dvd_mod) (simp_all add: D_def)
    ultimately have "(unat a + N * k) mod D + N \<le> D" using dvd_imp_le [of N "D - (unat a + N * k) mod D"] by simp
    then show ?case using Suc step [of k] w by (simp add: algebra_simps)
  qed
  then show ?thesis by (simp only: lo_def D_def N_def)
qed

text \<open>The driver of a burst: it holds its request, and goes on to the next word when one was taken.\<close>

fun bus_run :: "'m imemory \<Rightarrow> cbus_req \<Rightarrow> (u32 \<times> u32) list \<Rightarrow> bool list \<Rightarrow> 'm cbus_device \<Rightarrow> (cbus_resp list \<times> 'm cbus_device) option" where
  "bus_run ops req ws [] d = Some ([], d)"
| "bus_run ops req ws (en # ens) d =
     do { (resp, d) \<leftarrow> bus_cycle ops en (req\<lparr>rq_strobe := fst (hd ws), rq_data := snd (hd ws)\<rparr>) d;
          (rs, d) \<leftarrow> bus_run ops req (if rs_ready resp then tl ws else ws) ens d;
          Some (resp # rs, d) }"

text \<open>The number of cycles in which the device is enabled.\<close>

fun enabled :: "bool \<Rightarrow> bool list \<Rightarrow> nat" where
  "enabled e [] = 0"
| "enabled e (en # ens) = (if e then 1 else 0) + enabled en ens"

definition merge_word :: "u32 \<Rightarrow> u32 \<times> u32 \<Rightarrow> u32" where
  "merge_word v w = (let k = STROBE_TO_MASK ! unat (fst w) in (v AND NOT k) OR (snd w AND k))"

text \<open>What the words of the memory are after \<open>n\<close> beats, and the answer in beat \<open>k\<close>.\<close>

primrec after_beats :: "(u32 \<Rightarrow> nat) \<Rightarrow> axi_tx \<Rightarrow> (u32 \<times> u32) list \<Rightarrow> (nat \<Rightarrow> u32) \<Rightarrow> nat \<Rightarrow> nat \<Rightarrow> u32" where
  "after_beats place t ws f 0 = f"
| "after_beats place t ws f (Suc n) =
     (let g = after_beats place t ws f n; p = place (tx_addr (beat t n))
      in if tx_is_write t then g(p := merge_word (g p) (ws ! n)) else g)"

definition beat_resp :: "(u32 \<Rightarrow> nat) \<Rightarrow> axi_tx \<Rightarrow> (nat \<Rightarrow> u32) \<Rightarrow> nat \<Rightarrow> nat \<Rightarrow> cbus_resp" where
  "beat_resp place t f L k =
     \<lparr>rs_ready = True, rs_last = (k = L), rs_data = (if tx_is_write t then 0 else f (place (tx_addr (beat t k))))\<rparr>"

lemma after_beats_read: "\<not> tx_is_write t \<Longrightarrow> after_beats place t ws f n = f"
  by (induction n) (simp_all add: Let_def)

locale ram =
  fixes ops :: "'m imemory" and ok :: "'m \<Rightarrow> bool" and region :: "u32 \<Rightarrow> bool"
    and place :: "u32 \<Rightarrow> nat" and word_at :: "'m \<Rightarrow> nat \<Rightarrow> u32"
  assumes load: "ok m \<Longrightarrow> region a \<Longrightarrow> im_load ops m a = Some (word_at m (place a), m)"
    and store: "ok m \<Longrightarrow> region a \<Longrightarrow> \<exists>m'. im_store ops m a d k = Some m' \<and> ok m' \<and>
      word_at m' = (word_at m)(place a := (word_at m (place a) AND NOT k) OR (d AND k))"
begin

definition in_beat :: "axi_tx \<Rightarrow> nat \<Rightarrow> (u32 \<times> u32) list \<Rightarrow> (nat \<Rightarrow> u32) \<Rightarrow> nat \<Rightarrow> 'm cbus_device \<Rightarrow> bool" where
  "in_beat t L ws f k d \<longleftrightarrow> cb_tx d = (if k \<le> L then beat t k else axi_reset) \<and> cb_ntx d = cb_tx d \<and>
     ok (cb_mem d) \<and> word_at (cb_mem d) = after_beats place t ws f k"

definition transaction :: "axi_tx \<Rightarrow> nat \<Rightarrow> (u32 \<times> u32) list \<Rightarrow> cbus_req \<Rightarrow> bool" where
  "transaction t L ws req \<longleftrightarrow> tx_busy t \<and> tx_N t = 1 \<and> Burst_Length t = of_nat (L + 1) \<and> L + 1 < 4294967296 \<and>
     (\<forall>k \<le> L. region (tx_addr (beat t k))) \<and> length ws = L + 1 \<and> (\<forall>w \<in> set ws. unat (fst w) < 16) \<and>
     rq_valid req \<and> rq_is_write req = tx_is_write t \<and> unat (rq_size req) < 32 \<and>
     push_bit (unat (rq_size req)) 1 = Number_Bytes t \<and> rq_addr req = Start_Address t \<and> rq_len req + 1 = Burst_Length t"

lemma last_beat: "transaction t L ws req \<Longrightarrow> k \<le> L \<Longrightarrow> axi_last (beat t k) \<longleftrightarrow> k = L"
proof -
  assume t: "transaction t L ws req" and k: "k \<le> L"
  then have "axi_last (beat t k) \<longleftrightarrow> (of_nat (Suc k) :: u32) = of_nat (Suc L)"
    by (simp add: axi_last_def beat_fields transaction_def)
  also have "\<dots> \<longleftrightarrow> k = L" using t k by (subst of_nat_eq_iff32) (simp_all add: transaction_def)
  finally show ?thesis .
qed

lemma cycle_disabled:
  "\<not> cb_enable d \<Longrightarrow> bus_cycle ops en req d = Some (no_resp, d\<lparr>cb_enable := en\<rparr>)"
  by (simp add: bus_cycle_def eval_resp_def eval_req_def cbus_sync_def Let_def)

lemma cycle_beat:
  assumes t: "transaction t L ws req" and d: "in_beat t L ws f k d" and k: "k \<le> L" and en: "cb_enable d"
  shows "\<exists>d'. bus_cycle ops en' (req\<lparr>rq_strobe := fst (ws ! k), rq_data := snd (ws ! k)\<rparr>) d =
      Some (beat_resp place t f L k, d') \<and> in_beat t L ws f (Suc k) d' \<and> cb_enable d' = en'"
proof -
  let ?a = "tx_addr (beat t k)"
  have tx: "cb_tx d = beat t k" "cb_ntx d = beat t k" and ok: "ok (cb_mem d)"
    and w: "word_at (cb_mem d) = after_beats place t ws f k"
    using d k by (simp_all add: in_beat_def)
  have dom: "region ?a" and b: "tx_busy t" and s: "unat (fst (ws ! k)) < 16"
    using t k by (simp_all add: transaction_def)
  let ?req = "req\<lparr>rq_strobe := fst (ws ! k), rq_data := snd (ws ! k)\<rparr>"
  let ?ntx = "if k = L then axi_reset else beat t (Suc k)"
  have r: "eval_req ?req e = Some (e\<lparr>cb_strobe := fst (ws ! k), cb_data := snd (ws ! k), cb_ntx := ?ntx\<rparr>)"
    if "cb_tx e = beat t k" "cb_ntx e = beat t k" "cb_enable e" for e :: "'m cbus_device"
    using t that last_beat [OF t k] by (simp add: eval_req_def Let_def transaction_def beat_fields beat_Suc)
  have nx: "(if Suc k \<le> L then beat t (Suc k) else axi_reset) = ?ntx" using k by auto
  show ?thesis
  proof (cases "tx_is_write t")
    case False
    have l: "im_load ops (cb_mem d) ?a = Some (f (place ?a), cb_mem d)"
      using load [OF ok dom] w False by (simp add: after_beats_read)
    show ?thesis
      using False tx en b l last_beat [OF t k] r [of d] w ok
      by (simp add: bus_cycle_def eval_resp_def cbus_sync_def beat_fields beat_resp_def in_beat_def nx Let_def
          after_beats_read del: after_beats.simps)
  next
    case True
    obtain m' where m': "im_store ops (cb_mem d) ?a (snd (ws ! k)) (STROBE_TO_MASK ! unat (fst (ws ! k))) = Some m'" "ok m'"
        "word_at m' = (word_at (cb_mem d))(place ?a := merge_word (word_at (cb_mem d) (place ?a)) (ws ! k))"
      using store [OF ok dom] unfolding merge_word_def Let_def by blast
    have "length STROBE_TO_MASK = 16" by (simp add: STROBE_TO_MASK_def)
    then show ?thesis
      using True tx en b m' last_beat [OF t k] r [of d] w ok s
      by (simp add: bus_cycle_def eval_resp_def cbus_sync_def beat_fields beat_resp_def in_beat_def nx Let_def)
  qed
qed

lemma run_beats:
  assumes t: "transaction t L ws req"
  shows "in_beat t L ws f k d \<Longrightarrow> k + enabled (cb_enable d) ens \<le> L + 1 \<Longrightarrow>
    \<exists>rs d'. bus_run ops req (drop k ws) ens d = Some (rs, d') \<and>
      filter rs_ready rs = map (beat_resp place t f L) [k..<k + enabled (cb_enable d) ens] \<and>
      in_beat t L ws f (k + enabled (cb_enable d) ens) d'"
proof (induction ens arbitrary: k d)
  case Nil
  then show ?case by simp
next
  case (Cons en ens)
  let ?n = "enabled en ens"
  show ?case
  proof (cases "cb_enable d")
    case False
    let ?d = "d\<lparr>cb_enable := en\<rparr>"
    have "in_beat t L ws f k ?d" using Cons.prems(1) by (simp add: in_beat_def)
    moreover have "k + enabled (cb_enable ?d) ens \<le> L + 1" using Cons.prems(2) False by simp
    ultimately obtain rs d' where
      "bus_run ops req (drop k ws) ens ?d = Some (rs, d')" "filter rs_ready rs = map (beat_resp place t f L) [k..<k + ?n]"
      "in_beat t L ws f (k + ?n) d'"
      using Cons.IH [of k ?d] by auto
    then show ?thesis using False by (simp add: cycle_disabled no_resp_def)
  next
    case True
    have k: "k \<le> L" using Cons.prems(2) True by simp
    have hd: "hd (drop k ws) = ws ! k" "tl (drop k ws) = drop (Suc k) ws"
      using t k by (simp_all add: transaction_def hd_drop_conv_nth drop_Suc tl_drop)
    obtain e where e: "bus_cycle ops en (req\<lparr>rq_strobe := fst (ws ! k), rq_data := snd (ws ! k)\<rparr>) d = Some (beat_resp place t f L k, e)"
        "in_beat t L ws f (Suc k) e" "cb_enable e = en"
      using cycle_beat [OF t Cons.prems(1) k True] by blast
    have "Suc k + ?n \<le> L + 1" using Cons.prems(2) True by simp
    then obtain rs d' where
      "bus_run ops req (drop (Suc k) ws) ens e = Some (rs, d')" "filter rs_ready rs = map (beat_resp place t f L) [Suc k..<Suc k + ?n]"
      "in_beat t L ws f (Suc k + ?n) d'"
      using Cons.IH [OF e(2)] e(3) by auto
    moreover have "[k..<Suc (k + ?n)] = k # [Suc k..<Suc (k + ?n)]" by (subst upt_conv_Cons) simp_all
    ultimately show ?thesis using True e(1) by (simp add: hd beat_resp_def del: upt_Suc)
  qed
qed

lemma burst:
  assumes t: "transaction t L ws req" and init: "axi_init (rq_addr req) (rq_size req) (rq_len req)
      (axi_reset\<lparr>tx_busy := True, tx_is_write := rq_is_write req\<rparr>) = Some t"
  shows "\<not> tx_busy (cb_tx d) \<Longrightarrow> \<not> tx_busy (cb_ntx d) \<Longrightarrow> ok (cb_mem d) \<Longrightarrow> enabled (cb_enable d) ens = L + 2 \<Longrightarrow>
    \<exists>rs d'. bus_run ops req ws ens d = Some (rs, d') \<and>
      filter rs_ready rs = map (beat_resp place t (word_at (cb_mem d)) L) [0..<L + 1] \<and>
      \<not> tx_busy (cb_tx d') \<and> \<not> tx_busy (cb_ntx d') \<and> ok (cb_mem d') \<and>
      word_at (cb_mem d') = after_beats place t ws (word_at (cb_mem d)) (L + 1)"
proof (induction ens arbitrary: d)
  case (Cons en ens)
  let ?req = "req\<lparr>rq_strobe := fst (hd ws), rq_data := snd (hd ws)\<rparr>"
  show ?case
  proof (cases "cb_enable d")
    case False
    let ?d = "d\<lparr>cb_enable := en\<rparr>"
    obtain rs d' where "bus_run ops req ws ens ?d = Some (rs, d')"
        "filter rs_ready rs = map (beat_resp place t (word_at (cb_mem d)) L) [0..<L + 1]"
        "\<not> tx_busy (cb_tx d')" "\<not> tx_busy (cb_ntx d')" "ok (cb_mem d')"
        "word_at (cb_mem d') = after_beats place t ws (word_at (cb_mem d)) (L + 1)"
      using Cons.IH [of ?d] Cons.prems False by auto
    then show ?thesis using False by (simp add: cycle_disabled no_resp_def)
  next
    case True
    have n: "axi_init (rq_addr req) (rq_size req) (rq_len req) (cb_ntx d) =
        Some (t\<lparr>tx_busy := tx_busy (cb_ntx d), tx_is_write := tx_is_write (cb_ntx d)\<rparr>)"
      using init by (auto simp: axi_init_def Let_def axi_reset_def split: if_splits)
    have f: "t\<lparr>tx_busy := True, tx_is_write := rq_is_write req\<rparr> = t" and v: "rq_valid req" and b: "tx_busy t"
      using t by (simp_all add: transaction_def)
    let ?e = "d\<lparr>cb_tx := t, cb_ntx := t, cb_enable := en\<rparr>"
    have c: "bus_cycle ops en ?req d = Some (no_resp, ?e)"
      using True Cons.prems(1,2) n f v b by (simp add: bus_cycle_def eval_resp_def eval_req_def cbus_sync_def Let_def)
    have e: "in_beat t L ws (word_at (cb_mem d)) 0 ?e" using Cons.prems(3) by (simp add: in_beat_def)
    have "0 + enabled (cb_enable ?e) ens = L + 1" using Cons.prems(4) True by simp
    then obtain rs d' where r: "bus_run ops req ws ens ?e = Some (rs, d')"
        "filter rs_ready rs = map (beat_resp place t (word_at (cb_mem d)) L) [0..<L + 1]"
        "in_beat t L ws (word_at (cb_mem d)) (L + 1) d'"
      using run_beats [OF t e, of ens] by auto
    have "\<not> tx_busy (axi_reset)" by (simp add: axi_reset_def)
    then show ?thesis using c r by (simp add: no_resp_def in_beat_def)
  qed
qed simp

end

section \<open>The block as a memory on the bus\<close>

definition block_ops :: "block_mem imemory" where
  "block_ops = \<lparr>im_reset = block_reset, im_load = (\<lambda>b a. map_option (\<lambda>v. (v, b)) (block_load b a)), im_store = block_store\<rparr>"

definition block_word :: "block_mem \<Rightarrow> nat \<Rightarrow> u32" where
  "block_word b i = (if i < length (bm_mem b) then bm_mem b ! i else 0)"

lemma block_store_ok:
  assumes "block_ok b" "unat (a - bm_offset b) < bm_size b"
  shows "\<exists>b'. block_store b a d k = Some b' \<and> block_ok b' \<and> bm_size b' = bm_size b \<and> bm_offset b' = bm_offset b \<and>
    bm_saved b' = bm_saved b \<and>
    block_word b' = (block_word b)(unat (a - bm_offset b) div 4 := (block_word b (unat (a - bm_offset b) div 4) AND NOT k) OR (d AND k))"
  using assms block_load_ok [OF assms]
  by (auto simp: block_store_def Let_def block_ok_def block_word_def fun_eq_iff nth_list_update)

interpretation block: ram block_ops "\<lambda>b. block_ok b \<and> bm_size b = s \<and> bm_offset b = off"
    "\<lambda>a. unat (a - off) < s" "\<lambda>a. unat (a - off) div 4" block_word for s off
proof
  fix m a assume m: "block_ok m \<and> bm_size m = s \<and> bm_offset m = off" and a: "unat (a - off) < s"
  then show "im_load block_ops m a = Some (block_word m (unat (a - off) div 4), m)"
    using block_load_ok [of m a] by (simp add: block_ops_def block_word_def)
  show "\<exists>m'. im_store block_ops m a d k = Some m' \<and> (block_ok m' \<and> bm_size m' = s \<and> bm_offset m' = off) \<and>
      block_word m' = (block_word m)(unat (a - off) div 4 := (block_word m (unat (a - off) div 4) AND NOT k) OR (d AND k))" for d k
    using block_store_ok [of m a d k] m a by (auto simp: block_ops_def)
qed

lemma after_beats_write:
  assumes "tx_is_write t" and inj: "inj_on (\<lambda>k. place (tx_addr (beat t k))) {..<n}"
  shows "(\<forall>k<n. after_beats place t ws f n (place (tx_addr (beat t k))) = merge_word (f (place (tx_addr (beat t k)))) (ws ! k)) \<and>
    (\<forall>i. i \<notin> (\<lambda>k. place (tx_addr (beat t k))) ` {..<n} \<longrightarrow> after_beats place t ws f n i = f i)"
  using inj
proof (induction n)
  case (Suc n)
  then have new: "place (tx_addr (beat t k)) \<noteq> place (tx_addr (beat t n))" if "k < n" for k
    using that by (auto simp: inj_on_def)
  have "inj_on (\<lambda>k. place (tx_addr (beat t k))) {..<n}" using Suc.prems by (rule inj_on_subset) auto
  note ih = Suc.IH [OF this]
  have "place (tx_addr (beat t n)) \<notin> (\<lambda>k. place (tx_addr (beat t k))) ` {..<n}" using new by force
  then have "after_beats place t ws f n (place (tx_addr (beat t n))) = f (place (tx_addr (beat t n)))" using ih by blast
  then show ?case using ih new assms(1) by (auto simp: Let_def less_Suc_eq lessThan_Suc)
qed simp

text \<open>The index of the word that beat \<open>k\<close> of a burst of \<open>l\<close> words moves, when it begins with word \<open>q\<close>.\<close>

definition wrap_index :: "nat \<Rightarrow> nat \<Rightarrow> nat \<Rightarrow> nat" where
  "wrap_index q l k = q div l * l + (q + k) mod l"

lemma wrap_index_less: "0 < l \<Longrightarrow> wrap_index q l k < (q div l + 1) * l"
  by (simp add: wrap_index_def)

lemma add_mod_inj: "(q + i) mod l = (q + j) mod l \<Longrightarrow> i < l \<Longrightarrow> j < l \<Longrightarrow> i \<le> j \<Longrightarrow> i = j" for q l :: nat
proof -
  assume a: "(q + i) mod l = (q + j) mod l" "i < l" "j < l" "i \<le> j"
  then have "l dvd q + j - (q + i)" by (intro mod_eq_dvd_iff_nat [THEN iffD1]) simp_all
  then have "l dvd j - i" by simp
  with a show ?thesis using nat_dvd_not_less [of "j - i" l] by force
qed

lemma inj_wrap_index: "inj_on (wrap_index q l) {..<l}"
proof (rule inj_onI)
  fix i j assume ij: "i \<in> {..<l}" "j \<in> {..<l}" and "wrap_index q l i = wrap_index q l j"
  then have "(q + i) mod l = (q + j) mod l" by (simp add: wrap_index_def)
  then show "i = j" using ij add_mod_inj [of q i l j] add_mod_inj [of q j l i] by (cases "i \<le> j") auto
qed

lemma beat_word:
  assumes t: "axi_init a 2 len t0 = Some t" and al: "unat a mod 4 = 0" and len: "unat len < 16"
    and top: "(unat a div 4 div (unat len + 1) + 1) * (unat len + 1) * 4 < 4294967296"
  shows "unat (tx_addr (beat t k)) = 4 * wrap_index (unat a div 4) (unat len + 1) k"
proof -
  let ?q = "unat a div 4" and ?l = "unat len + 1"
  have a: "unat a = 4 * ?q" using al by (metis mult_div_mod_eq add_0_right)
  have d: "unat a div (4 * ?l) * (4 * ?l) = 4 * (?q div ?l * ?l)"
    by (simp only: div_mult2_eq mult.left_commute)
  have "unat (tx_addr (beat t k)) = unat a div (2 ^ unat (2 :: u32) * ?l) * (2 ^ unat (2 :: u32) * ?l) +
      (unat a + 2 ^ unat (2 :: u32) * k) mod (2 ^ unat (2 :: u32) * ?l)"
    using al len top d by (intro beat_addr [OF t]) (simp_all add: algebra_simps)
  also have "\<dots> = 4 * (?q div ?l * ?l) + (4 * ?q + 4 * k) mod (4 * ?l)" using d a by simp
  also have "(4 * ?q + 4 * k) mod (4 * ?l) = 4 * ((?q + k) mod ?l)" by (simp only: mult_mod_right distrib_left)
  finally show ?thesis by (simp only: wrap_index_def distrib_left)
qed

section \<open>Cells over the reference model\<close>

lemma drop_and_1: "drop_bit n w AND 1 \<noteq> 0 \<longleftrightarrow> bit w n" for w :: "64 word"
  by (simp add: and_one_eq mod_2_eq_odd bit_iff_odd_drop_bit)

lemma parse_make_response: "parse_response (make_response r) = r"
proof -
  have "(0xffffffff :: int) = mask 32" by (simp add: mask_eq_exp_minus_1)
  then have f: "bit (0xffffffff :: int) n \<longleftrightarrow> n < 32" for n by (simp only: bit_mask_iff) simp
  have "ucast (make_response r AND 0xffffffff) = rs_data r"
    by (rule bit_word_eqI) (auto simp: make_response_def bit_simps f)
  moreover have "\<not> bit (rs_data r) 33" "\<not> bit (rs_data r) 32" by (auto dest: bit_imp_le_length)
  ultimately show ?thesis
    by (simp add: parse_response_def drop_and_1) (simp add: make_response_def bit_simps)
qed

text \<open>The fall-through of \<open>apply\<close> stores the same bytes again.\<close>

lemma op_apply_to_once:
  "op_apply_to op data m dest =
     (case op of DISCARD \<Rightarrow> m | SIZE4_SHT0 \<Rightarrow> put_le 4 (op_apply op data) m dest
      | SIZE2_SHT0 \<Rightarrow> put_le 2 (op_apply op data) m dest | SIZE2_SHT16 \<Rightarrow> put_le 2 (op_apply op data) m dest
      | _ \<Rightarrow> put_le 1 (op_apply op data) m dest)"
  by (cases op) (auto simp: op_apply_to_def put_le_def Let_def fun_eq_iff)

text \<open>What an operation of width \<open>w\<close> at offset \<open>o'\<close> of a word means.\<close>

definition op_means :: "load_op \<Rightarrow> nat \<Rightarrow> nat \<Rightarrow> bool" where
  "op_means op w o' \<longleftrightarrow> (\<forall>i<4. wbyte (STROBE_TO_MASK ! unat (op_strobe op)) i = (if o' \<le> i \<and> i < o' + w then 0xff else 0)) \<and>
     (\<forall>v. op_place op v = push_bit (8 * o') v \<and> op_apply op v = drop_bit (8 * o') v) \<and> o' + w \<le> 4 \<and> unat (op_strobe op) < 16"

lemma strobe_bytes:
  "map (wbyte (STROBE_TO_MASK ! unat (op_strobe SIZE4_SHT0))) [0, 1, 2, 3] = [0xff, 0xff, 0xff, 0xff]"
  "map (wbyte (STROBE_TO_MASK ! unat (op_strobe SIZE2_SHT0))) [0, 1, 2, 3] = [0xff, 0xff, 0, 0]"
  "map (wbyte (STROBE_TO_MASK ! unat (op_strobe SIZE2_SHT16))) [0, 1, 2, 3] = [0, 0, 0xff, 0xff]"
  "map (wbyte (STROBE_TO_MASK ! unat (op_strobe SIZE1_SHT0))) [0, 1, 2, 3] = [0xff, 0, 0, 0]"
  "map (wbyte (STROBE_TO_MASK ! unat (op_strobe SIZE1_SHT8))) [0, 1, 2, 3] = [0, 0xff, 0, 0]"
  "map (wbyte (STROBE_TO_MASK ! unat (op_strobe SIZE1_SHT16))) [0, 1, 2, 3] = [0, 0, 0xff, 0]"
  "map (wbyte (STROBE_TO_MASK ! unat (op_strobe SIZE1_SHT24))) [0, 1, 2, 3] = [0, 0, 0, 0xff]"
  by (simp_all add: STROBE_TO_MASK_def wbyte_def)

lemma all_4: "(\<forall>i<4. P i) \<longleftrightarrow> P 0 \<and> P 1 \<and> P 2 \<and> P (3 :: nat)"
  by (auto simp: less_Suc_eq numeral_eq_Suc)

lemma op_means_all:
  "op_means SIZE4_SHT0 4 0" "op_means SIZE2_SHT0 2 0" "op_means SIZE2_SHT16 2 2" "op_means SIZE1_SHT0 1 0"
  "op_means SIZE1_SHT8 1 1" "op_means SIZE1_SHT16 1 2" "op_means SIZE1_SHT24 1 3"
  using strobe_bytes by (simp_all add: op_means_def all_4)

lemma and_3: "unat (a AND 3) = unat a mod 4" for a :: u32
proof -
  have "(3 :: u32) = mask 2" by (simp add: mask_eq_exp_minus_1)
  then have "a AND 3 = take_bit 2 a" by (simp only: take_bit_eq_mask)
  then show ?thesis by (simp add: take_bit_eq_mod unat_mod_distrib)
qed

lemma and_2: "unat a mod 2 = 0 \<Longrightarrow> a AND 2 \<noteq> 0 \<longleftrightarrow> unat a mod 4 = 2" for a :: u32
proof -
  assume "unat a mod 2 = 0"
  then have m: "unat a mod 4 = (if bit (unat a) 1 then 2 else 0)"
    by (simp add: bit_iff_odd) presburger
  have "a AND 2 \<noteq> 0 \<longleftrightarrow> bit a 1" using and_exp_eq_0_iff_not_bit [of a 1] by simp
  also have "\<dots> \<longleftrightarrow> bit (unat a) 1" by (simp add: bit_unsigned_iff)
  finally show ?thesis using m by simp
qed

lemma op_parse_means:
  assumes "w \<in> {1, 2, 4}" "unat a mod w = 0"
  shows "op_means (op_parse w a) w (unat a mod 4)"
proof -
  have "a AND 3 = k \<longleftrightarrow> unat a mod 4 = unat k" for k by (simp add: word_unat_eq_iff and_3)
  moreover have "unat a mod 4 \<in> {0, 1, 2, 3}" by auto
  moreover have "unat a mod 4 \<in> {0, 2}" if "unat a mod 2 = 0" using that by (simp, presburger)
  ultimately show ?thesis using assms op_means_all and_2 [of a] by (auto simp: op_parse_def)
qed

lemma wbyte_push: "o' \<le> i \<Longrightarrow> i < 4 \<Longrightarrow> wbyte (push_bit (8 * o') v) i = wbyte v (i - o')"
  by (rule bit_word_eqI) (auto simp: bit_wbyte bit_simps diff_mult_distrib2)

lemma wbyte_drop: "wbyte (drop_bit (8 * o') v) i = wbyte v (i + o')"
  by (rule bit_word_eqI) (auto simp: bit_wbyte bit_simps algebra_simps)

lemma wbyte_take: "wbyte (take_bit (8 * w) v) i = (if i < w then wbyte v i else 0)"
  by (rule bit_word_eqI) (auto simp: bit_wbyte bit_simps)

text \<open>The word that a store of a cell makes.\<close>

lemma cell_word:
  assumes op: "op_means op w o'" and i: "i < 4"
    and W: "W = (V AND NOT (STROBE_TO_MASK ! unat (op_strobe op))) OR (op_place op v AND STROBE_TO_MASK ! unat (op_strobe op))"
  shows "wbyte W i = (if o' \<le> i \<and> i < o' + w then wbyte v (i - o') else wbyte V i)"
proof -
  have m: "wbyte (STROBE_TO_MASK ! unat (op_strobe op)) i = (if o' \<le> i \<and> i < o' + w then -1 else 0)"
    and p: "op_place op v = push_bit (8 * o') v"
    using op i by (simp_all add: op_means_def)
  show ?thesis unfolding W p wbyte_merge [OF i] m using i by (simp add: wbyte_push)
qed

lemma cell_value:
  assumes op: "op_means op w o'" and W: "\<And>i. i < 4 \<Longrightarrow> wbyte W i = (if o' \<le> i \<and> i < o' + w then wbyte v (i - o') else wbyte V i)"
  shows "take_bit (8 * w) (op_apply op W) = take_bit (8 * w) v"
proof (rule wbyte_eqI)
  fix i :: nat assume "i < 4"
  have "op_apply op W = drop_bit (8 * o') W" "o' + w \<le> 4" using op by (simp_all add: op_means_def)
  then show "wbyte (take_bit (8 * w) (op_apply op W)) i = wbyte (take_bit (8 * w) v) i"
    by (simp add: wbyte_take wbyte_drop W)
qed

definition ref_ok :: "cache_ref \<Rightarrow> bool" where
  "ref_ok r \<longleftrightarrow> block_ok (rf_mem r) \<and> bm_offset (rf_mem r) = 0 \<and> bm_size (rf_mem r) mod 64 = 0 \<and> bm_size (rf_mem r) < 4294967296"

lemma ref_line_eq:
  "block_ok b \<Longrightarrow> bm_offset b = 0 \<Longrightarrow> bm_size b < 4294967296 \<Longrightarrow> unat a + 4 * n \<le> bm_size b \<Longrightarrow>
   ref_line b a n = Some (map (\<lambda>i. bm_mem b ! (unat a div 4 + i)) [0..<n])"
proof (induction n arbitrary: a)
  case (Suc n)
  have u: "unat (a + 4) = unat a + 4" using Suc.prems by (subst unat_add_small) simp_all
  have "ref_line b (a + 4) n = Some (map (\<lambda>i. bm_mem b ! (unat a div 4 + Suc i)) [0..<n])"
    using Suc.prems Suc.IH [of "a + 4"] by (simp add: u div_add_self2)
  moreover have "block_load b a = Some (bm_mem b ! (unat a div 4))" using Suc.prems block_load_ok [of b a] by simp
  moreover have "[0..<Suc n] = 0 # map Suc [0..<n]" by (simp add: map_Suc_upt upt_conv_Cons)
  ultimately show ?case by (simp add: comp_def del: upt_Suc)
qed simp

lemma word_of_line: "x div 64 * 64 div 4 + x mod 64 div 4 = x div 4" for x :: nat
proof -
  have "x div 4 = (4 * (16 * (x div 64)) + x mod 64) div 4" by simp
  also have "\<dots> = 16 * (x div 64) + x mod 64 div 4" by (subst div_mult_self4) simp_all
  finally show ?thesis by simp
qed

lemma ref_line_of:
  assumes "ref_ok r" "unat a < bm_size (rf_mem r)"
  shows "\<exists>buf. ref_line (rf_mem r) (a div 64 * 64) 16 = Some buf \<and> buf ! (unat a mod 64 div 4) = bm_mem (rf_mem r) ! (unat a div 4)"
proof -
  have "unat (a div 64 * 64) = unat a div 64 * 64 mod 4294967296"
    by (simp add: unat_word_ariths(2) unat_div_distrib)
  moreover have "unat a div 64 * 64 \<le> unat a" by simp
  then have "unat a div 64 * 64 < 4294967296" using assms unfolding ref_ok_def by linarith
  ultimately have u: "unat (a div 64 * 64) = unat a div 64 * 64" by simp
  obtain n where n: "bm_size (rf_mem r) = 64 * n" using assms(1) by (auto simp: ref_ok_def)
  then have "unat a div 64 < n" using assms(2) by (simp add: less_mult_imp_div_less mult.commute)
  then have "unat a div 64 * 64 + 4 * 16 \<le> bm_size (rf_mem r)" using n by simp
  moreover have "unat a div 64 * 64 div 4 + unat a mod 64 div 4 = unat a div 4" by (rule word_of_line)
  moreover have "unat a mod 64 div 4 < 16" by (simp add: less_mult_imp_div_less)
  ultimately show ?thesis using assms(1) ref_line_eq [of "rf_mem r" "a div 64 * 64" 16]
    by (simp add: ref_ok_def u del: upt_Suc)
qed

text \<open>The reference model of the cache is a block memory.\<close>

lemma ref_load_eq:
  "ref_ok r \<Longrightarrow> unat a < bm_size (rf_mem r) \<Longrightarrow>
   \<exists>r'. ref_load r a = Some (bm_mem (rf_mem r) ! (unat a div 4), r') \<and> rf_mem r' = rf_mem r"
  using ref_line_of [of r a] by (auto simp: ref_load_def)

lemma ref_store_eq:
  assumes "ref_ok r" "unat a < bm_size (rf_mem r)"
  shows "\<exists>r'. ref_store r a s d = Some r' \<and> block_store (rf_mem r) a d (STROBE_TO_MASK ! unat (s AND 0xf)) = Some (rf_mem r')"
  using ref_line_of [OF assms] block_store_ok [of "rf_mem r" a d "STROBE_TO_MASK ! unat (s AND 0xf)"] assms
  by (fastforce simp: ref_store_def ref_ok_def Let_def)

lemma cell_bytes:
  "x mod 4 + w \<le> 4 \<Longrightarrow> j div 4 = x div 4 \<and> x mod 4 \<le> j mod 4 \<and> j mod 4 < x mod 4 + w \<longleftrightarrow> x \<le> j \<and> j < x + w" for x j w :: nat
proof (cases "j div 4 = x div 4")
  case True
  have "j = 4 * (j div 4) + j mod 4" "x = 4 * (x div 4) + x mod 4" by simp_all
  then show ?thesis unfolding True by linarith
next
  case False
  assume w: "x mod 4 + w \<le> 4"
  have "\<not> (x \<le> j \<and> j < x + w)"
  proof
    assume j: "x \<le> j \<and> j < x + w"
    have x: "x = 4 * (x div 4) + x mod 4" by simp
    have "4 * (x div 4) \<le> j" "j < 4 * (x div 4) + 4" using j w x by linarith+
    then have "j div 4 = x div 4" by (intro div_nat_eqI) simp_all
    with False show False ..
  qed
  with False show ?thesis by simp
qed

section \<open>Properties\<close>

text \<open>A device at rest: no transaction, none beginning.\<close>

definition bus_at_rest :: "'m cbus_device \<Rightarrow> bool" where
  "bus_at_rest d \<longleftrightarrow> \<not> tx_busy (cb_tx d) \<and> \<not> tx_busy (cb_ntx d)"

lemma word_request:
  assumes "L < 16"
  shows "\<exists>t. axi_init a 2 (of_nat L) (axi_reset\<lparr>tx_busy := True, tx_is_write := w\<rparr>) = Some t \<and> tx_busy t \<and> tx_is_write t = w \<and>
    tx_N t = 1 \<and> Burst_Length t = of_nat (L + 1) \<and> Start_Address t = a \<and> Number_Bytes t = 4"
proof -
  have "unat (of_nat (4 * (L + 1)) :: u32) = 4 * (L + 1)" using assms by (intro unat_of_nat32) simp
  then have "(of_nat (4 * (L + 1)) :: u32) \<noteq> 0" by (intro notI) simp
  then have "(4 :: u32) * (of_nat L + 1) \<noteq> 0" by (simp add: algebra_simps)
  then show ?thesis by (auto simp: axi_init_def Let_def)
qed

text \<open>What the memory is after the burst, seen as the list of its words.\<close>

lemma after_burst_words:
  assumes w: "tx_is_write t" and inj: "inj_on idx {..L}" and p: "\<And>k. place (tx_addr (beat t k)) = idx k"
    and il: "\<And>k. idx k < length (bm_mem b)" and len: "length (bm_mem b') = length (bm_mem b)"
    and a: "block_word b' = after_beats place t ws (block_word b) (L + 1)"
  shows "(\<forall>k\<le>L. bm_mem b' ! idx k = merge_word (bm_mem b ! idx k) (ws ! k)) \<and>
    (\<forall>i<length (bm_mem b). i \<notin> idx ` {..L} \<longrightarrow> bm_mem b' ! i = bm_mem b ! i)"
proof -
  have e: "block_word c i = bm_mem c ! i" if "i < length (bm_mem b)" "length (bm_mem c) = length (bm_mem b)" for c i
    using that by (simp add: block_word_def)
  have "inj_on (\<lambda>k. place (tx_addr (beat t k))) {..<L + 1}" unfolding p using inj by (simp add: lessThan_Suc_atMost)
  from after_beats_write [where place = place and ws = ws and f = "block_word b", OF w this]
  have aw: "\<forall>k<L + 1. block_word b' (idx k) = merge_word (block_word b (idx k)) (ws ! k)"
      "\<forall>i. i \<notin> idx ` {..<L + 1} \<longrightarrow> block_word b' i = block_word b i"
    unfolding p a by blast+
  have "\<forall>k\<le>L. bm_mem b' ! idx k = merge_word (bm_mem b ! idx k) (ws ! k)"
    using aw(1) e [OF il len] e [OF il refl] by (simp add: less_Suc_eq_le)
  moreover have "\<forall>i<length (bm_mem b). i \<notin> idx ` {..L} \<longrightarrow> bm_mem b' ! i = bm_mem b ! i"
    using aw(2) e [OF _ len] e [OF _ refl] by (metis Suc_eq_plus1 lessThan_Suc_atMost)
  ultimately show ?thesis ..
qed

text \<open>C5: a burst of up to 16 words on the bus of a block memory, however the device pauses: in as many enabled
  cycles as it has words, and one for the request, every word of the line that holds the first one is
  answered or written once, from the first one on and round the end of the line, the last is marked,
  and the device is at rest again.\<close>

theorem burst_of_words:
  assumes rq: "rq_valid req" "rq_size req = 2" "unat (rq_addr req) mod 4 = 0" "unat (rq_len req) = L" "L < 16"
    and b: "block_ok (cb_mem d)" "bm_offset (cb_mem d) = 0" "bm_size (cb_mem d) < 4294967296"
      "(unat (rq_addr req) div 4 div (L + 1) + 1) * (L + 1) * 4 \<le> bm_size (cb_mem d)"
    and d: "bus_at_rest d" "enabled (cb_enable d) ens = L + 2"
    and ws: "length ws = L + 1" "\<forall>w \<in> set ws. unat (fst w) < 16"
  shows "\<exists>rs d'. bus_run block_ops req ws ens d = Some (rs, d') \<and> bus_at_rest d' \<and> block_ok (cb_mem d') \<and>
    (let idx = wrap_index (unat (rq_addr req) div 4) (L + 1); w = bm_mem (cb_mem d); w' = bm_mem (cb_mem d')
     in filter rs_ready rs = map (\<lambda>k. \<lparr>rs_ready = True, rs_last = (k = L), rs_data = (if rq_is_write req then 0 else w ! idx k)\<rparr>) [0..<L + 1] \<and>
       length w' = length w \<and>
       (if rq_is_write req
        then (\<forall>k\<le>L. w' ! idx k = merge_word (w ! idx k) (ws ! k)) \<and> (\<forall>i<length w. i \<notin> idx ` {..L} \<longrightarrow> w' ! i = w ! i)
        else w' = w))"
proof -
  define idx where "idx = wrap_index (unat (rq_addr req) div 4) (L + 1)"
  let ?a = "rq_addr req" and ?place = "\<lambda>a. unat (a - 0) div 4" and ?s = "bm_size (cb_mem d)"
  let ?i = "axi_reset\<lparr>tx_busy := True, tx_is_write := rq_is_write req\<rparr>"
  have lu: "rq_len req = of_nat L" by (simp flip: rq(4))
  obtain t where t: "axi_init ?a (rq_size req) (rq_len req) ?i = Some t"
    and tf: "tx_busy t" "tx_is_write t = rq_is_write req" "tx_N t = 1" "Burst_Length t = of_nat (L + 1)"
      "Start_Address t = ?a" "Number_Bytes t = 4"
    using word_request [OF rq(5), of ?a "rq_is_write req"] unfolding lu rq(2) by blast
  have top: "(unat ?a div 4 div (unat (rq_len req) + 1) + 1) * (unat (rq_len req) + 1) * 4 < 4294967296"
    using b(3,4) rq(4) by simp
  have bw: "unat (tx_addr (beat t k)) = 4 * idx k" for k
    using beat_word [OF t [unfolded rq(2)] rq(3) _ top] rq(4,5) by (simp add: idx_def)
  have il: "idx k < length (bm_mem (cb_mem d))" for k
  proof -
    have "idx k < (unat ?a div 4 div (L + 1) + 1) * (L + 1)" unfolding idx_def by (rule wrap_index_less) simp
    then have "idx k * 4 < ?s" using b(4) by linarith
    then show ?thesis using b(1) by (simp add: block_ok_def) presburger
  qed
  have r: "unat (tx_addr (beat t k) - 0) < ?s" for k
    using il [of k] b(1) bw by (auto simp: block_ok_def)
  have tr: "block.transaction 0 ?s t L ws req"
    unfolding block.transaction_def using tf r rq ws lu by simp
  obtain rs d' where run: "bus_run block_ops req ws ens d = Some (rs, d')"
      "filter rs_ready rs = map (beat_resp ?place t (block_word (cb_mem d)) L) [0..<L + 1]"
      "bus_at_rest d'" "block_ok (cb_mem d')" "bm_size (cb_mem d') = ?s"
      "block_word (cb_mem d') = after_beats ?place t ws (block_word (cb_mem d)) (L + 1)"
    using block.burst [OF tr t, of d ens] d b by (auto simp: bus_at_rest_def)
  have len: "length (bm_mem (cb_mem d')) = length (bm_mem (cb_mem d))" using run(4,5) b(1) by (simp add: block_ok_def)
  have fr: "filter rs_ready rs = map (\<lambda>k. \<lparr>rs_ready = True, rs_last = (k = L), rs_data = (if rq_is_write req then 0 else bm_mem (cb_mem d) ! idx k)\<rparr>) [0..<L + 1]"
    unfolding run(2) using il by (intro map_cong refl) (simp add: beat_resp_def bw tf(2) block_word_def)
  have inj: "inj_on idx {..L}" using inj_wrap_index [of "unat ?a div 4" "L + 1"] by (simp add: idx_def lessThan_Suc_atMost)
  have "if rq_is_write req
      then (\<forall>k\<le>L. bm_mem (cb_mem d') ! idx k = merge_word (bm_mem (cb_mem d) ! idx k) (ws ! k)) \<and>
        (\<forall>i<length (bm_mem (cb_mem d)). i \<notin> idx ` {..L} \<longrightarrow> bm_mem (cb_mem d') ! i = bm_mem (cb_mem d) ! i)
      else bm_mem (cb_mem d') = bm_mem (cb_mem d)"
  proof (cases "rq_is_write req")
    case True
    then show ?thesis using after_burst_words [OF _ inj _ il len run(6)] tf(2) bw by simp
  next
    case False
    then have e: "block_word (cb_mem d') = block_word (cb_mem d)" using run(6) tf(2) by (simp add: after_beats_read del: after_beats.simps)
    have "bm_mem (cb_mem d') ! i = bm_mem (cb_mem d) ! i" if "i < length (bm_mem (cb_mem d))" for i
      using fun_cong [OF e, of i] that len by (simp add: block_word_def)
    with len False show ?thesis by (simp add: nth_equalityI)
  qed
  then show ?thesis using run(1,3,4) fr len by (simp only: idx_def [symmetric] Let_def) blast
qed

lemma burst_of_words_witness:
  "\<exists>rs d'. bus_run block_ops \<lparr>rq_valid = True, rq_is_write = True, rq_size = 2, rq_addr = 40, rq_strobe = 0, rq_data = 0, rq_len = 3\<rparr>
      [(15, 7), (3, 8), (15, 9), (15, 10)] [True, False, True, True, True, True]
      \<lparr>cb_mem = \<lparr>bm_size = 64, bm_offset = 0, bm_mem = replicate 16 5, bm_saved = replicate 16 0\<rparr>, cb_enable = True, cb_strobe = 0,
        cb_data = 0, cb_tx = axi_reset, cb_ntx = axi_reset\<rparr> = Some (rs, d') \<and> bus_at_rest d' \<and> block_ok (cb_mem d') \<and>
    (let idx = wrap_index 10 (3 + 1); w = replicate 16 5; w' = bm_mem (cb_mem d')
     in filter rs_ready rs = map (\<lambda>k. \<lparr>rs_ready = True, rs_last = (k = 3), rs_data = 0\<rparr>) [0..<3 + 1] \<and>
       length w' = length w \<and>
       (\<forall>k\<le>3. w' ! idx k = merge_word (w ! idx k) ([(15, 7), (3, 8), (15, 9), (15, 10)] ! k)) \<and>
       (\<forall>i<length w. i \<notin> idx ` {..3} \<longrightarrow> w' ! i = w ! i))"
  using burst_of_words [of "\<lparr>rq_valid = True, rq_is_write = True, rq_size = 2, rq_addr = 40, rq_strobe = 0, rq_data = 0, rq_len = 3\<rparr>" 3
      "\<lparr>cb_mem = \<lparr>bm_size = 64, bm_offset = 0, bm_mem = replicate 16 5, bm_saved = replicate 16 0\<rparr>, cb_enable = True, cb_strobe = 0,
        cb_data = 0, cb_tx = axi_reset, cb_ntx = axi_reset\<rparr>" "[True, False, True, True, True, True]" "[(15, 7), (3, 8), (15, 9), (15, 10)]"]
  by (simp add: block_ok_def bus_at_rest_def axi_reset_def Let_def del: upt_Suc bus_run.simps)

text \<open>C7: what is set in a cell of one, two or four bytes over the reference model of the cache is read from it
  again, cut to its size, and no byte outside of the cell changes.\<close>

theorem cell_reads_back:
  assumes r: "ref_ok r" and w: "w \<in> {1, 2, 4}" and a: "unat a mod w = 0" "unat a < bm_size (rf_mem r)"
  shows "\<exists>r' r''. cell_set ref_store w a v r = Some r' \<and> ref_ok r' \<and>
    cell_get ref_load w a r' = Some (take_bit (8 * w) v, r'') \<and>
    (\<forall>j<bm_size (rf_mem r). bytes_at (bm_mem (rf_mem r')) j =
      (if unat a \<le> j \<and> j < unat a + w then wbyte v (j - unat a) else bytes_at (bm_mem (rf_mem r)) j))"
proof -
  let ?op = "op_parse w a" and ?b = "rf_mem r" and ?i = "unat a div 4" and ?o = "unat a mod 4"
  have op: "op_means ?op w ?o" using w a(1) by (rule op_parse_means)
  then have o4: "?o + w \<le> 4" "op_strobe ?op AND 0xf = op_strobe ?op"
    by (simp_all add: op_means_def) (cases ?op; simp)
  have b: "block_ok ?b" "bm_offset ?b = 0" using r by (simp_all add: ref_ok_def)
  obtain r' where r': "cell_set ref_store w a v r = Some r'"
      "block_store ?b a (op_place ?op v) (STROBE_TO_MASK ! unat (op_strobe ?op)) = Some (rf_mem r')"
    using ref_store_eq [OF r a(2), of "op_strobe ?op" "op_place ?op v"] o4(2) by (auto simp: cell_set_def Let_def)
  define W where "W = (block_word ?b ?i AND NOT (STROBE_TO_MASK ! unat (op_strobe ?op))) OR
    (op_place ?op v AND STROBE_TO_MASK ! unat (op_strobe ?op))"
  have b': "block_ok (rf_mem r')" "bm_size (rf_mem r') = bm_size ?b" "bm_offset (rf_mem r') = 0"
      "block_word (rf_mem r') = (block_word ?b)(?i := W)"
    using block_store_ok [OF b(1), of a "op_place ?op v" "STROBE_TO_MASK ! unat (op_strobe ?op)"] r'(2) b(2) a(2)
    by (auto simp: W_def)
  have ok': "ref_ok r'" using r b' by (simp add: ref_ok_def)
  have bw: "bm_mem c ! (j div 4) = block_word c (j div 4)" if "block_ok c" "j < bm_size c" for c j
    using block_load_ok [of "c\<lparr>bm_offset := 0\<rparr>"] that by (simp add: block_word_def block_ok_def less_mult_imp_div_less mod_eq_0_iff_dvd)
  have Wb: "wbyte W i = (if ?o \<le> i \<and> i < ?o + w then wbyte v (i - ?o) else wbyte (block_word ?b ?i) i)" if "i < 4" for i
    using cell_word [OF op that W_def] .
  obtain r'' where "ref_load r' a = Some (W, r'')"
    using ref_load_eq [OF ok', of a] a(2) b' bw [of "rf_mem r'" "unat a"] by auto
  then have g: "cell_get ref_load w a r' = Some (take_bit (8 * w) v, r'')"
    using cell_value [OF op Wb] by (simp add: cell_get_def)
  have "bytes_at (bm_mem (rf_mem r')) j =
      (if unat a \<le> j \<and> j < unat a + w then wbyte v (j - unat a) else bytes_at (bm_mem ?b) j)" if j: "j < bm_size ?b" for j
  proof -
    have "bytes_at (bm_mem (rf_mem r')) j = (if j div 4 = ?i then wbyte W (j mod 4) else bytes_at (bm_mem ?b) j)"
      using bw [of "rf_mem r'" j] bw [of ?b j] b b' j by (simp add: bytes_at_def)
    moreover have "bytes_at (bm_mem ?b) j = wbyte (block_word ?b (j div 4)) (j mod 4)"
      using bw [OF b(1) j] by (simp add: bytes_at_def)
    moreover have "j mod 4 - ?o = j - unat a" if "j div 4 = ?i"
      using that by (metis div_mult_mod_eq add_diff_cancel_left)
    ultimately show ?thesis using cell_bytes [OF o4(1), of j] Wb [of "j mod 4"] by auto
  qed
  with r'(1) ok' g show ?thesis by blast
qed

lemma cell_reads_back_witness:
  "\<exists>r' r''. cell_set ref_store 2 (6 :: u32) 0x12345 \<lparr>rf_mem = \<lparr>bm_size = 64, bm_offset = 0, bm_mem = replicate 16 5, bm_saved = replicate 16 0\<rparr>,
      rf_buffer = []\<rparr> = Some r' \<and> ref_ok r' \<and>
    cell_get ref_load 2 6 r' = Some (take_bit (8 * 2) 0x12345, r'') \<and>
    (\<forall>j<64. bytes_at (bm_mem (rf_mem r')) j =
      (if unat (6 :: u32) \<le> j \<and> j < unat (6 :: u32) + 2 then wbyte 0x12345 (j - unat (6 :: u32)) else bytes_at (replicate 16 5) j))"
  using cell_reads_back [of "\<lparr>rf_mem = \<lparr>bm_size = 64, bm_offset = 0, bm_mem = replicate 16 5, bm_saved = replicate 16 0\<rparr>, rf_buffer = []\<rparr>" 2 6 "0x12345"]
  by (simp only: cache_ref.simps block_mem.simps) (simp add: ref_ok_def block_ok_def)

end
