(* ===== verification/SimFile.thy ===== *)
theory SimFile
  imports Convert SimMem
begin

text \<open>
  The files from which the simulator fills its memory: \<^verbatim>\<open>parse_memory_file\<close> of
  \<^verbatim>\<open>src/verilate/source/common.cpp\<close>.  A stream is the list of bytes that are left in it; streams,
  \<open>stoi\<close> and \<open>stoull\<close> are those of the C++ standard library.  A failed assertion and an exception are
  \<open>None\<close>.  Shown: a program that \<open>convert\<close> makes an image of is in the simulated memory byte for byte.
\<close>

unbundle bit_operations_syntax

section \<open>Strings\<close>

definition is_alnum :: "u8 \<Rightarrow> bool" where
  "is_alnum c \<longleftrightarrow> 48 \<le> c \<and> c \<le> 57 \<or> 65 \<le> c \<and> c \<le> 90 \<or> 97 \<le> c \<and> c \<le> 122"

definition endswith :: "u8 list \<Rightarrow> u8 list \<Rightarrow> bool" where
  "endswith text' pattern \<longleftrightarrow>
     list_all (\<lambda>i. i < length text' \<and> text' ! (length text' - i - 1) = pattern ! (length pattern - i - 1)) [0..<length pattern]"

definition trim :: "u8 list \<Rightarrow> u8 list" where
  "trim text' = rev (dropWhile (Not \<circ> is_alnum) (rev (dropWhile (Not \<circ> is_alnum) text')))"

definition escape :: "u8 list \<Rightarrow> u8 list" where
  "escape text' = map (\<lambda>c. if is_alnum c then c else 45) text'"

section \<open>Streams and numbers of the standard library\<close>

text \<open>\<open>getline\<close>: the characters before the delimiter, and what is left; it fails on an empty stream.\<close>

definition getline :: "u8 \<Rightarrow> u8 list \<Rightarrow> (u8 list \<times> u8 list) option" where
  "getline delim fp =
     (if fp = [] then None
      else let l = takeWhile (\<lambda>c. c \<noteq> delim) fp in Some (l, drop (length l + 1) fp))"

definition digit_value :: "u8 \<Rightarrow> nat option" where
  "digit_value c =
     (if 48 \<le> c \<and> c \<le> 57 then Some (unat c - 48)
      else if 97 \<le> c \<and> c \<le> 122 then Some (unat c - 87)
      else if 65 \<le> c \<and> c \<le> 90 then Some (unat c - 55) else None)"

definition is_digit :: "nat \<Rightarrow> u8 \<Rightarrow> bool" where
  "is_digit base c \<longleftrightarrow> (case digit_value c of Some d \<Rightarrow> d < base | None \<Rightarrow> False)"

definition digits_number :: "nat \<Rightarrow> u8 list \<Rightarrow> nat" where
  "digits_number base ds = foldl (\<lambda>v c. base * v + the (digit_value c)) 0 ds"

text \<open>\<open>stoull\<close> on a string that begins with a letter or a digit, with a base from 2 to 36: the value and the
  number of characters; \<open>0x\<close> is skipped for base 16.  Base 0, for which the library looks at the prefix,
  has no result here.\<close>

definition stoull :: "nat \<Rightarrow> u8 list \<Rightarrow> (nat \<times> nat) option" where
  "stoull base s =
     (let k = (if base = 16 \<and> 2 < length s \<and> s ! 0 = 48 \<and> s ! 1 \<in> {88, 120} \<and> is_digit 16 (s ! 2) then 2 else 0);
          ds = takeWhile (is_digit base) (drop k s)
      in if 2 \<le> base \<and> base \<le> 36 \<and> ds \<noteq> [] \<and> digits_number base ds < 2 ^ 64
         then Some (digits_number base ds, k + length ds) else None)"

text \<open>\<open>stoi\<close>: blanks, a sign and decimal digits.\<close>

definition stoi :: "u8 list \<Rightarrow> int option" where
  "stoi s =
     (let s = dropWhile (\<lambda>c. c = 32 \<or> 9 \<le> c \<and> c \<le> 13) s;
          neg = (s \<noteq> [] \<and> hd s = 45);
          ds = takeWhile (is_digit 10) (if s \<noteq> [] \<and> hd s \<in> {43, 45} then tl s else s);
          v = (if neg then - int (digits_number 10 ds) else int (digits_number 10 ds))
      in if ds \<noteq> [] \<and> - (2 ^ 31) \<le> v \<and> v < 2 ^ 31 then Some v else None)"

section \<open>parse_memory_file\<close>

definition word_bytes :: "nat \<Rightarrow> u8 list" where
  "word_bytes data = map (\<lambda>i. of_nat (data div 256 ^ i mod 256)) [0..<4]"

function feed :: "u8 list \<Rightarrow> u8 list \<Rightarrow> nat \<Rightarrow> u8 list option" where
  "feed seq fp base =
     (case getline 10 fp of
        None \<Rightarrow> Some seq
      | Some (buf, fp) \<Rightarrow>
          let buf = trim buf
          in if buf = [] then feed seq fp base
             else do { (data, count) \<leftarrow> stoull base buf;
                       if count = length buf \<and> data < 2 ^ 32 then feed (seq @ word_bytes data) fp base else None })"
  by pat_completeness auto
termination
  by (relation "measure (\<lambda>(seq, fp, base). length fp)") (auto simp: getline_def Let_def split: if_splits)

declare feed.simps [simp del]

text \<open>What \<open>getline\<close> leaves in \<open>buf\<close> when it is not looked at whether it failed.\<close>

definition line_or_empty :: "u8 \<Rightarrow> u8 list \<Rightarrow> u8 list \<times> u8 list" where
  "line_or_empty delim fp = (case getline delim fp of None \<Rightarrow> ([], []) | Some r \<Rightarrow> r)"

definition parse_coe :: "u8 list \<Rightarrow> u8 list option" where
  "parse_coe fp =
     (let (buf, fp) = line_or_empty 10 fp; (key, bs) = line_or_empty 61 buf
      in if trim key = ascii ''memory_initialization_radix''
         then do {
           base \<leftarrow> stoi bs;
           let (buf, fp) = line_or_empty 10 fp;
           let key = fst (line_or_empty 61 buf);
           if trim key = ascii ''memory_initialization_vector'' \<and> 0 \<le> base then feed [] fp (nat base) else None }
         else None)"

definition parse_mif :: "u8 list \<Rightarrow> u8 list option" where
  "parse_mif fp = feed [] fp 2"

definition parse_hex_file :: "u8 list \<Rightarrow> u8 list option" where
  "parse_hex_file fp = feed [] fp 16"

definition parse_bin :: "u8 list \<Rightarrow> u8 list option" where
  "parse_bin fp = Some fp"

definition parse_memory_file :: "files \<Rightarrow> u8 list \<Rightarrow> u8 list option" where
  "parse_memory_file fs path =
     do { fp \<leftarrow> fs path;
          if endswith path (ascii ''.coe'') then parse_coe fp
          else if endswith path (ascii ''.mif'') then parse_mif fp
          else if endswith path (ascii ''.hex'') then parse_hex_file fp
          else parse_bin fp }"

section \<open>Lines of digits\<close>

text \<open>A line of digits of the base, whose value fits into a word, adds the bytes of the word.\<close>

definition digit_line :: "nat \<Rightarrow> u8 list \<Rightarrow> nat \<Rightarrow> bool" where
  "digit_line base l v \<longleftrightarrow> l \<noteq> [] \<and> list_all (is_digit base) l \<and> list_all is_alnum l \<and> digits_number base l = v \<and> v < 2 ^ 32 \<and>
     10 \<notin> set l \<and> (1 < length l \<longrightarrow> l ! 1 \<notin> {88, 120})"

lemma trim_alnum: "list_all is_alnum l \<Longrightarrow> trim l = l"
proof -
  assume l: "list_all is_alnum l"
  then have "dropWhile (Not \<circ> is_alnum) l = l" by (cases l) simp_all
  moreover have "list_all is_alnum (rev l)" using l by (simp add: list_all_iff)
  then have "dropWhile (Not \<circ> is_alnum) (rev l) = rev l" by (cases "rev l") simp_all
  ultimately show ?thesis by (simp add: trim_def)
qed

lemma getline_line: "c \<notin> set l \<Longrightarrow> getline c (l @ c # r) = Some (l, r)"
proof -
  assume "c \<notin> set l"
  then have "takeWhile (\<lambda>x. x \<noteq> c) (l @ c # r) = l" by (induction l) auto
  then show ?thesis by (simp add: getline_def)
qed

lemma feed_line:
  assumes l: "digit_line base l v" and base: "2 \<le> base" "base \<le> 36"
  shows "feed seq (l @ 10 # r) base = feed (seq @ word_bytes v) r base"
proof -
  have t: "takeWhile (is_digit base) l = l" using l by (simp add: digit_line_def list_all_iff)
  have n: "(base = 16 \<and> 2 < length l \<and> l ! 0 = 48 \<and> l ! 1 \<in> {88, 120} \<and> is_digit 16 (l ! 2)) = False"
    using l by (auto simp: digit_line_def)
  have "v < 2 ^ 64" using l by (simp add: digit_line_def)
  then have "stoull base l = Some (v, length l)"
    using l base unfolding stoull_def Let_def by (simp only: n t drop_0 if_False) (simp add: digit_line_def)
  then show ?thesis
    using l by (subst feed.simps) (simp add: getline_line digit_line_def trim_alnum Let_def)
qed

lemma feed_lines:
  assumes "2 \<le> base" "base \<le> 36" "list_all2 (digit_line base) ls vs"
  shows "feed seq (concat (map (\<lambda>l. l @ [10]) ls)) base = Some (seq @ concat (map word_bytes vs))"
  using assms(3)
proof (induction arbitrary: seq rule: list_all2_induct [consumes 1])
  case Nil
  then show ?case by (subst feed.simps) (simp add: getline_def)
next
  case (Cons l v ls vs)
  then show ?case using feed_line [OF Cons.hyps(1) assms(1,2)] by simp
qed

section \<open>The lines of an image\<close>

lemma byte_digit_props:
  assumes "d < 16"
  shows "is_digit 16 (byte_digit d)" "the (digit_value (byte_digit d)) = d" "is_alnum (byte_digit d)"
    "byte_digit d \<noteq> 10" "byte_digit d \<noteq> 88" "byte_digit d \<noteq> 120"
proof -
  have u: "unat (byte_digit d) = (if d < 10 then 48 + d else 87 + d)" using assms by (simp add: byte_digit_def unat_of_nat)
  show "is_digit 16 (byte_digit d)" "the (digit_value (byte_digit d)) = d" "is_alnum (byte_digit d)"
    "byte_digit d \<noteq> 10" "byte_digit d \<noteq> 88" "byte_digit d \<noteq> 120"
    using assms by (auto simp: is_digit_def digit_value_def is_alnum_def word_le_nat_alt word_unat_eq_iff u)
qed

lemma hex2_props:
  "list_all (is_digit 16) (hex2 b)" "list_all is_alnum (hex2 b)"
  "foldl (\<lambda>v c. 16 * v + the (digit_value c)) v (hex2 b) = 256 * v + unat b"
proof -
  have "unat b div 16 < 16" using unat_byte_less [of b] by (simp add: less_mult_imp_div_less)
  moreover have "unat b mod 16 < 16" by simp
  ultimately show "list_all (is_digit 16) (hex2 b)" "list_all is_alnum (hex2 b)"
    "foldl (\<lambda>v c. 16 * v + the (digit_value c)) v (hex2 b) = 256 * v + unat b"
    by (simp_all add: hex2_def byte_digit_props)
qed

lemma le_word_less: "4 \<le> length r \<Longrightarrow> le_word r < 2 ^ 32"
  using unat_byte_less [of "r ! 0"] unat_byte_less [of "r ! 1"] unat_byte_less [of "r ! 2"] unat_byte_less [of "r ! 3"]
  by (simp add: le_word_4)

lemma byte_below: "x < 256 \<Longrightarrow> (x + 256 * y) mod 256 = x \<and> (x + 256 * y) div 256 = y" for x y :: nat
  by simp

lemma word_bytes_le_word: "4 \<le> length r \<Longrightarrow> word_bytes (le_word r) = take 4 r"
proof -
  assume r: "4 \<le> length r"
  then obtain a b c d r' where e: "r = a # b # c # d # r'" by (auto simp: eval_nat_numeral Suc_le_length_iff)
  let ?v = "unat a + 256 * (unat b + 256 * (unat c + 256 * unat d))"
  have l: "unat a < 256" "unat b < 256" "unat c < 256" "unat d < 256" by (rule unat_byte_less)+
  note v = byte_below [OF l(1), of "unat b + 256 * (unat c + 256 * unat d)"] byte_below [OF l(2), of "unat c + 256 * unat d"]
    byte_below [OF l(3), of "unat d"] l(4)
  have p: "?v div 65536 = ?v div 256 div 256" "?v div 16777216 = ?v div 256 div 256 div 256"
    by (simp_all only: div_mult2_eq [symmetric] ) simp_all
  have u: "[0..<4] = [0, 1, 2, 3 :: nat]" by (simp add: upt_rec)
  have "le_word r = ?v" by (simp add: e le_word_def)
  then show ?thesis unfolding word_bytes_def u using v p by (simp add: e)
qed

lemma coe_digit_line: "4 \<le> length r \<Longrightarrow> \<exists>l. coe_out r = l @ [10] \<and> digit_line 16 l (le_word r)"
proof -
  assume r: "4 \<le> length r"
  let ?l = "hex2 (r ! 3) @ hex2 (r ! 2) @ hex2 (r ! 1) @ hex2 (r ! 0)"
  have "unat (r ! 3) mod 16 < 16" by simp
  then have "?l ! 1 \<notin> {88, 120}" by (simp add: hex2_def byte_digit_props)
  moreover have "?l \<noteq> []" by (simp add: hex2_def)
  moreover have "list_all (is_digit 16) ?l" "list_all is_alnum ?l" by (simp_all add: hex2_props)
  moreover have "10 \<notin> set ?l" by (simp add: no_newline_hex2)
  moreover have "digits_number 16 ?l = le_word r"
    unfolding digits_number_def foldl_append hex2_props(3) by (simp add: le_word_4 [OF r])
  ultimately have "digit_line 16 ?l (le_word r)" using le_word_less [OF r] by (simp add: digit_line_def)
  moreover have "coe_out r = ?l @ [10]" by (simp add: coe_out_def)
  ultimately show ?thesis by blast
qed

lemma binary_digit_line: "4 \<le> length r \<Longrightarrow> \<exists>l. binary_out r = l @ [10] \<and> digit_line 2 l (le_word r)"
proof -
  assume r: "4 \<le> length r"
  obtain l where l: "binary_out r = l @ [10]" "bin_value l = le_word r" using binary_line [OF r] by blast
  have b: "set l \<subseteq> {48, 49} \<and> l \<noteq> []"
  proof -
    have "binary_out r = concat (map (\<lambda>i. map (\<lambda>j. if r ! i AND num ! j \<noteq> 0 then 49 else 48) (rev [0..<8])) (rev [0..<4])) @ [10]"
      by (simp only: binary_out_def)
    then have e: "l = concat (map (\<lambda>i. map (\<lambda>j. if r ! i AND num ! j \<noteq> 0 then 49 else 48) (rev [0..<8])) (rev [0..<4]))"
      using l(1) by simp
    have "length l = 32" unfolding e by (simp add: length_concat comp_def sum_list_triv del: upt_Suc)
    moreover have "set l \<subseteq> {48, 49}" unfolding e by auto
    ultimately show ?thesis by auto
  qed
  have d: "is_digit 2 c \<and> is_alnum c \<and> the (digit_value c) = unat c - 48 \<and> c \<notin> {10, 88, 120}" if "c \<in> set l" for c
    using that b by (auto simp: is_digit_def digit_value_def is_alnum_def)
  have "foldl (\<lambda>v c. 2 * v + the (digit_value c)) v l = foldl (\<lambda>v c. 2 * v + (unat c - 48)) v l" for v
    using d by (intro foldl_cong) auto
  then have "digits_number 2 l = le_word r" using l(2) by (simp add: digits_number_def bin_value_def)
  then have "digit_line 2 l (le_word r)"
    using b d le_word_less [OF r] by (auto simp: digit_line_def list_all_iff)
  with l(1) show ?thesis by blast
qed

lemma feed_rows:
  assumes line: "\<And>r. 4 \<le> length r \<Longrightarrow> \<exists>l. line r = l @ [10] \<and> digit_line base l (le_word r)"
    and base: "2 \<le> base" "base \<le> 36" and rs: "\<forall>r \<in> set rs. 4 \<le> length r"
  shows "feed seq (concat (map line rs)) base = Some (seq @ concat (map (take 4) rs))"
proof -
  obtain g where g: "line r = g r @ [10]" "digit_line base (g r) (le_word r)" if "4 \<le> length r" for r
    using line by metis
  have "concat (map line rs) = concat (map (\<lambda>l. l @ [10]) (map g rs))" using g(1) rs by (simp cong: map_cong)
  moreover have "list_all2 (digit_line base) (map g rs) (map le_word rs)"
    using g(2) rs by (simp add: list_all2_conv_all_nth)
  moreover have "map word_bytes (map le_word rs) = map (take 4) rs" using rs by (simp add: word_bytes_le_word)
  ultimately show ?thesis using feed_lines [OF base, of "map g rs" "map le_word rs" seq] by (simp only:)
qed

section \<open>Properties\<close>

lemma length_rows_ge: "4 \<le> length mem \<Longrightarrow> \<forall>r \<in> set (rows mem bs). 4 \<le> length r"
proof (induction mem bs rule: rows.induct)
  case (1 mem bs)
  then show ?case by (subst rows.simps) auto
qed

text \<open>The words of an image are the bytes of the input, filled up to whole words.\<close>

lemma rows_bytes: "4 \<le> length mem \<Longrightarrow>
    \<exists>pad. concat (map (take 4) (rows mem bs)) = bs @ pad \<and> length (bs @ pad) = 4 * (length bs div 4 + 1)"
proof (induction mem bs rule: rows.induct)
  case (1 mem bs)
  show ?case
  proof (cases "length bs < 4")
    case True
    then show ?thesis using 1(2) by (subst rows.simps) simp
  next
    case False
    then obtain pad where "concat (map (take 4) (rows (take 4 bs @ drop 4 mem) (drop 4 bs))) = drop 4 bs @ pad"
        "length (drop 4 bs @ pad) = 4 * (length (drop 4 bs) div 4 + 1)"
      using 1 by auto
    moreover have "take 4 bs @ drop 4 bs @ pad = bs @ pad" by (simp only: append_assoc [symmetric] append_take_drop_id)
    moreover have "length bs div 4 = (length bs - 4) div 4 + 1" using False by (simp add: le_div_geq)
    ultimately show ?thesis using False
      by (subst rows.simps) (auto simp: min_def simp flip: append_assoc intro!: exI [of _ pad])
  qed
qed

lemma line_or_empty_line: "c \<notin> set l \<Longrightarrow> line_or_empty c (l @ c # r) = (l, r)"
  by (simp add: line_or_empty_def getline_line)

lemma endswith_append: "endswith (x @ p) p"
  by (auto simp: endswith_def list_all_iff nth_append)

lemma parse_coe_header:
  "parse_coe (coe_header @ r) = feed [] r 16"
proof -
  let ?k1 = "ascii ''memory_initialization_radix ''" and ?v1 = "ascii '' 16;''" and ?k2 = "ascii ''memory_initialization_vector ''"
  have h: "coe_header @ r = (?k1 @ 61 # ?v1) @ 10 # (?k2 @ 61 # []) @ 10 # r" by (simp add: coe_header_def)
  have n: "10 \<notin> set (?k1 @ 61 # ?v1)" "10 \<notin> set (?k2 @ 61 # [])" "61 \<notin> set ?k1" "61 \<notin> set ?k2" by simp_all
  have l: "line_or_empty 10 (coe_header @ r) = (?k1 @ 61 # ?v1, (?k2 @ 61 # []) @ 10 # r)"
    unfolding h by (rule line_or_empty_line [OF n(1)])
  note l = l line_or_empty_line [OF n(2), of r] line_or_empty_line [OF n(3), of ?v1] line_or_empty_line [OF n(4), of "[]"]
  have t: "trim ?k1 = ascii ''memory_initialization_radix''" "trim ?k2 = ascii ''memory_initialization_vector''"
    by (simp_all add: trim_def is_alnum_def)
  have "stoi ?v1 = Some 16" by (simp add: stoi_def is_digit_def digit_value_def digits_number_def)
  then show ?thesis by (simp only: parse_coe_def l t Let_def prod.case fst_conv) simp
qed

lemma parse_image:
  assumes mem: "4 \<le> length mem"
  shows "parse_coe (coe_header @ concat (map coe_out (rows mem bs))) = Some (concat (map (take 4) (rows mem bs)))"
    "parse_mif (concat (map binary_out (rows mem bs))) = Some (concat (map (take 4) (rows mem bs)))"
  using feed_rows [OF coe_digit_line _ _ length_rows_ge [OF mem], of "[]"]
    feed_rows [OF binary_digit_line _ _ length_rows_ge [OF mem], of "[]"]
  by (simp_all add: parse_coe_header parse_mif_def)

text \<open>C6: the bytes of a program that \<open>convert\<close> makes its images of are, from either image, in the memory with
  which the simulator starts, at their places.\<close>

theorem image_reaches_memory:
  assumes "fs (dir @ name) = Some bs" "length dir + length name < 256" "length dir < 245"
    "writable (dir @ ascii ''axi_ram.coe'')" "writable (dir @ ascii ''axi_ram.mif'')"
    "name \<noteq> ascii ''axi_ram.coe''" "name \<noteq> ascii ''axi_ram.mif''" "4 \<le> length mem"
    and s: "n mod 4 = 0" "4 * (length bs div 4 + 1) \<le> n" "n \<le> 4294967296"
  shows "\<exists>fs' data b. convert_main writable mem [prog, name, dir] fs = Some (fs', [], 0) \<and>
    parse_memory_file fs' (dir @ ascii ''axi_ram.coe'') = Some data \<and>
    parse_memory_file fs' (dir @ ascii ''axi_ram.mif'') = Some data \<and>
    block_of_size n data 0 = Some b \<and> block_ok b \<and> (\<forall>j<length bs. bytes_at (bm_mem b) j = bs ! j)"
proof -
  let ?coe = "dir @ ascii ''axi_ram.coe''" and ?mif = "dir @ ascii ''axi_ram.mif''" and ?m = "last (rows mem bs)"
  define data where "data = concat (map (take 4) (rows mem bs))"
  define fs' where "fs' = fs(?coe \<mapsto> coe_header @ concat (map coe_out (rows mem bs)), ?mif \<mapsto> concat (map binary_out (rows ?m bs)))"
  have m: "4 \<le> length ?m" using assms(8) by (rule length_last_rows)
  have d: "concat (map (take 4) (rows ?m bs)) = data"
    by (simp only: data_def take_rows_list [OF m] take_rows_list [OF assms(8)] tail_bytes_last [OF assms(8)])
  have e: "endswith ?coe (ascii ''.coe'')" "\<not> endswith ?mif (ascii ''.coe'')" "endswith ?mif (ascii ''.mif'')"
    using endswith_append [of "dir @ ascii ''axi_ram''" "ascii ''.coe''"] endswith_append [of "dir @ ascii ''axi_ram''" "ascii ''.mif''"]
    by (simp_all add: endswith_def nth_append upt_rec)
  have coe: "parse_memory_file fs' ?coe = Some data"
    using parse_image(1) [OF assms(8)] e(1) by (simp add: parse_memory_file_def fs'_def data_def)
  have mif: "parse_memory_file fs' ?mif = Some data"
    using parse_image(2) [OF m] e(2,3) d by (simp add: parse_memory_file_def fs'_def)
  obtain pad where pad: "data = bs @ pad" "length data = 4 * (length bs div 4 + 1)"
    using rows_bytes [OF assms(8), of bs] by (auto simp: data_def)
  obtain b where "block_of_size n data 0 = Some b" "block_ok b"
      "\<forall>j<n. bytes_at (bm_mem b) j = (if j < length data then data ! j else 0)"
    using block_of_size_ok [of n data 0] s pad(2) by auto
  moreover from this have "\<forall>j<length bs. bytes_at (bm_mem b) j = bs ! j"
    using pad s(2) by (auto simp: nth_append)
  ultimately show ?thesis using coe mif convert_main_eq [where fs = fs and dir = dir and writable = writable and mem = mem and prog = prog, OF assms(1-7)] unfolding fs'_def by blast
qed

lemma image_reaches_memory_witness:
  "\<exists>fs' data b. convert_main (\<lambda>_. True) (replicate 32 7) [[99], ascii ''a.bin'', ascii ''obj/''] [ascii ''obj/a.bin'' \<mapsto> [1, 2, 3, 4, 5, 6]] =
      Some (fs', [], 0) \<and>
    parse_memory_file fs' (ascii ''obj/'' @ ascii ''axi_ram.coe'') = Some data \<and>
    parse_memory_file fs' (ascii ''obj/'' @ ascii ''axi_ram.mif'') = Some data \<and>
    block_of_size 64 data 0 = Some b \<and> block_ok b \<and> (\<forall>j<length [1, 2, 3, 4, 5, 6 :: u8]. bytes_at (bm_mem b) j = [1, 2, 3, 4, 5, 6] ! j)"
  by (rule image_reaches_memory) simp_all

end
