(* ===== verification/Spec2Isabelle.thy ===== *)
theory Spec2Isabelle
  imports CBase Cstring Libstr Console Stdio Bitcount Sorts Crc32 Sha Search Board Shells Dhry
    CoreUtil CoreState CoreMatrix CoreList CoreMain Malloc Irq Scan Format Cmdline Cache Bitstr Convert SimMem SimFile
begin

text \<open>
  Verification of the C programs of FrailCPU.

  The repository is a MIPS processor in SystemVerilog with the software that tests it.  The C code of the
  repository is that software, in \<^verbatim>\<open>src/vivado/test5/soft/perf_func\<close>: a small C library
  (\<^verbatim>\<open>lib\<close>, \<^verbatim>\<open>include\<close>) and the ten performance tests of
  \<^verbatim>\<open>bench\<close>, each with a shell that runs it, times it and shows on the board whether its result
  was right.  On the host, \<open>convert\<close> makes images of the programs, and a simulator in C++
  (\<^verbatim>\<open>src/verilate\<close>) runs the processor with a memory that it fills from them.  A processor that passes these tests is judged by what the programs compute, so this
  development says what they compute: each theory translates one component, and shows that it is right
  or where it is not.

  \<^bold>\<open>The machine.\<close>  The build is for 32-bit little-endian MIPS: \<open>int\<close>, \<open>long\<close> and pointers have 32 bits,
  \<open>char\<close> is signed.  Unsigned integers are words that wrap.  Signed integers are words read with
  \<open>sint\<close> where the code lets them wrap, and \<open>int\<close> where their range is shown or small.  Memory is a
  function from addresses to bytes; an array with bounds is a list, and an access out of its bounds is
  \<open>None\<close>.  \<open>None\<close> also stands for a null pointer that is followed, a division by zero and a loop that
  does not end: loops over pointers are partial functions, so that \<open>Some\<close> in a theorem says that the
  code ends.  There is no fuel.  Loops with an index have a measure instead.  Devices are a parameter:
  a history of the events so far (bytes on the serial line, loads, stores, coprocessor accesses)
  determines what the next load yields, and operations extend the history.

  \<^bold>\<open>The theories\<close>, in the order of their dependence, with the files they model:
  \<^item> \<^verbatim>\<open>CBase\<close>, the prelude: names of C types, memory, C strings (\<open>cstr\<close>), lemmas on words, loops and
    \<open>option\<close>.
  \<^item> \<^verbatim>\<open>Cstring\<close>: \<^verbatim>\<open>lib/string.c\<close>.  \<^verbatim>\<open>Libstr\<close>: the string
    functions in files of their own; a prefix \<open>lib_\<close> marks those that exist twice.
  \<^item> \<^verbatim>\<open>Console\<close>: \<open>putchar\<close> to \<open>printf\<close>, as the bytes sent.  A recursion over formats (\<open>fmt_spec\<close>,
    with \<open>conv_spec\<close> and \<open>nat_text\<close> for the conversions) is the reference for \<open>printf\<close>, and the numbers printed read back with \<open>strtoul\<close>.
  \<^item> \<^verbatim>\<open>Scan\<close>: \<^verbatim>\<open>lib/sscanf.c\<close>.  The reference for \<open>sscanf\<close> is a recursion over
    the two strings (\<open>scan_spec\<close>), that for the printers the text without their limit (\<open>put_text\<close>,
    \<open>padded\<close>).
  \<^item> \<^verbatim>\<open>Format\<close>: \<^verbatim>\<open>lib/vsprintf.c\<close>, \<open>atob.c\<close>, \<open>str_fmt.c\<close> and the functions over them.
    The reference for \<open>sprintf\<close> is a recursion over the format with the bytes that are left
    (\<open>fmt_text\<close>); \<open>wrote\<close> is the contract of everything that stores a string.
  \<^item> \<^verbatim>\<open>Cmdline\<close>: the command loop of \<^verbatim>\<open>lib/cmdline.c\<close>.  \<open>edit\<close> and
    \<open>line_args\<close> say what the typed characters mean; a pass of the loop does it, and a session ends
    with \<open>exit\<close>.
  \<^item> \<^verbatim>\<open>Stdio\<close>: the table of files over strings of \<^verbatim>\<open>lib/stdio.c\<close>.
  \<^item> \<^verbatim>\<open>Malloc\<close>: the allocator of \<^verbatim>\<open>lib/malloc.c\<close>.  The free list is a ring in
    the order of addresses (\<open>ring\<close>, \<open>follows\<close>); \<open>heap_inv\<close> is its invariant, \<open>heap_reach\<close> the
    histories of calls in which every \<open>malloc\<close> has room below the limit of the heap (\<open>has_room\<close>); outside of
    them \<open>sbrk\<close> does not fail and blocks can overlap.
  \<^item> \<^verbatim>\<open>Bitcount\<close>, \<^verbatim>\<open>Sorts\<close>, \<^verbatim>\<open>Crc32\<close>, \<^verbatim>\<open>Sha\<close>,
    \<^verbatim>\<open>Search\<close>: the benchmarks of these names, against the number of bits set, sorted
    permutations, the shift register of the polynomial, the hash of the standard and the first
    occurrence of a string.
  \<^item> \<^verbatim>\<open>Board\<close>: \<^verbatim>\<open>include/machine.h\<close>, \<open>time.c\<close>, \<open>udelay.c\<close>,
    \<open>exception.c\<close>, and what all shells share; the locales \<open>benchmark\<close> and \<open>passing_test\<close> are the
    interface between a shell and its test.
  \<^item> \<^verbatim>\<open>Irq\<close>: the interrupts of \<^verbatim>\<open>lib/irq.c\<close>: the controllers, the chains of
    handlers, in cells from \<open>malloc\<close>, and the dispatch.  \<open>irq_reach\<close> are the histories of requests and
    interrupts after \<open>init_IRQ\<close>; the table of requests, which \<open>requests_of\<close> reads off the descriptors and the
    chains, is their abstract state.
  \<^item> \<^verbatim>\<open>Cache\<close>: \<^verbatim>\<open>lib/cache.c\<close> and \<^verbatim>\<open>include/asm/r4kcache.h\<close> as
    sequences of \<open>cache\<close> instructions; the lines of a range (\<open>lines\<close>) are their specification.
  \<^item> \<^verbatim>\<open>Shells\<close>: shells 1, 2, 4 and 6 to 10.  \<^verbatim>\<open>Dhry\<close>: Dhrystone and shell 5;
    the number and the index of the runs are integers of 32 bits (\<open>to_int\<close>).
  \<^item> CoreMark: \<^verbatim>\<open>CoreUtil\<close> (arguments, checksum), \<^verbatim>\<open>CoreState\<close> (state machine),
    \<^verbatim>\<open>CoreMatrix\<close>, \<^verbatim>\<open>CoreList\<close> (linked lists), \<^verbatim>\<open>CoreBench\<close> (the
    list benchmark, which calls the other two, and \<open>iterate\<close>) and \<^verbatim>\<open>CoreMain\<close>
    (\<open>core_mark\<close>, its timing and shell 3).  The locale \<open>comparison\<close> is the interface between the merge
    sort and what it compares by; \<open>key_comparison\<close> adds an order and \<open>visiting\<close> a mark on what was compared,
    which for the index is that the data are regenerated.

  \<^bold>\<open>How they interact.\<close>  A shell prints with \<open>printf\<close>, reads the timers, calls its benchmark and compares
  the result; the theorems on shells therefore rest on those of the benchmark, through an
  interpretation of the locale, and on those of the console.  CoreMark's list benchmark calls the
  matrix and the state benchmark while it compares two items; that it leaves the list with its data, the block and
  the matrices \<open>A\<close> and \<open>B\<close> as they were is shown by one invariant (\<open>bench_ok\<close>) over the whole run, so that
  \<open>core_mark\<close> is shown to end and to return the number of its checksums that are not the known ones.

  \<^bold>\<open>Parameters.\<close>  The devices and the strings that the linker places (\<open>strs\<close>, \<open>compiler_version\<close>)
  are parameters, and so are the handlers of interrupts (\<open>hnd\<close>), the typed characters and the
  command \<open>guess\<close> of the command line, the names that can be written on the host, and the cycles in
  which the simulated bus pauses; hypotheses on them say where strings end and, for \<open>core_mark\<close>, that the timer moves
  between two readings (it divides by the difference).

  \<^bold>\<open>Not modelled.\<close>  The processor (SystemVerilog), the rest of its simulation (C++), start-up code and test programs in
  assembler; headers that only name registers.  Conditional code that the build does not select
  (floating point, 64-bit conversions, several contexts).  Bounds on the stack (but \<open>newprintf\<close>
  has no result when its array of 1024 bytes is overrun) and exceptions of unaligned accesses.  Timing other than through the devices.  In CoreMark the cells of lists, the
  matrices and the block of the state machine are separate parts of the state although they lie in one
  array: that they do not overlap is shown for the addresses that the code computes.
\<close>

end
